(* ===== verification/Omq_Prelude.thy ===== *)
theory Omq_Prelude
  imports Main "HOL-Library.Word" "HOL-Library.Sublist" "HOL-Library.Code_Target_Nat"
begin

text \<open>
  Shared vocabulary of the development: byte and machine-word types, the error
  type of \<^verbatim>\<open>omq-proto/src/error.rs\<close>, results, big-endian encodings, saturating and
  checked \<^verbatim>\<open>usize\<close> arithmetic, UTF-8 validity, and the generic list facts the
  components share.

  Conventions.  A \<^verbatim>\<open>Bytes\<close>, \<^verbatim>\<open>BytesMut\<close>, \<^verbatim>\<open>&[u8]\<close> or \<^verbatim>\<open>Vec<u8>\<close> is a list of 8-bit words.  A
  \<^verbatim>\<open>String\<close> is the list of its UTF-8 bytes.  A \<^verbatim>\<open>usize\<close> that counts bytes or parts of
  an existing buffer is a \<open>nat\<close>; where the source saturates, checks or wraps,
  the bound is written out for a 64-bit target.  The text of an error is the
  format string of its site as the source spells it: interpolated values are
  diagnostic only and are not rendered.  \<open>Panic\<close> is not a value of the source's
  error type: it marks an assertion, \<^verbatim>\<open>unwrap\<close> or \<^verbatim>\<open>unreachable!\<close> that would abort, where a
  handler that returns a result could meet one.
\<close>

unbundle bit_operations_syntax

named_theorems wire_simps \<open>lengths and values of wire encodings\<close>
named_theorems wire_eval \<open>evaluation of wire encodings at numerals\<close>
named_theorems view_simps \<open>abstraction of concrete representations to byte lists and part lists\<close>
named_theorems wf_intros \<open>preservation of representation invariants\<close>

section \<open>Types\<close>

type_synonym u8 = "8 word"
type_synonym u16 = "16 word"
type_synonym u32 = "32 word"
type_synonym u64 = "64 word"
type_synonym bytes = "u8 list"

datatype error =
    InvalidEndpoint string
  | UnsupportedScheme string
  | UnsupportedZmtpVersion u8 u8
  | Protocol string
  | HandshakeFailed string
  | Closed
  | Timeout
  | MessageTooLarge nat nat
  | ReceiveRateLimitExceeded
  | Unroutable
  | WouldBlock
  | Config string
  | Io string
  | Panic string

type_synonym 'a result = "error + 'a"

abbreviation Ok :: "'a \<Rightarrow> 'a result" where "Ok \<equiv> Inr"
abbreviation Err :: "error \<Rightarrow> 'a result" where "Err \<equiv> Inl"

text \<open>The question-mark operator: stop at the first error.\<close>

definition rbind :: "'a result \<Rightarrow> ('a \<Rightarrow> 'b result) \<Rightarrow> 'b result" where
  "rbind r f = (case r of Inl e \<Rightarrow> Inl e | Inr x \<Rightarrow> f x)"

lemma rbind_simps [simp]:
  "rbind (Inl e) f = Inl e"
  "rbind (Inr x) f = f x"
  by (simp_all add: rbind_def)

lemma rbind_Ok_iff:
  "rbind r f = Inr y \<longleftrightarrow> (\<exists>x. r = Inr x \<and> f x = Inr y)"
  by (cases r) auto

lemma rbind_Err_iff:
  "rbind r f = Inl e \<longleftrightarrow> r = Inl e \<or> (\<exists>x. r = Inr x \<and> f x = Inl e)"
  by (cases r) auto

section \<open>Byte-string literals\<close>

definition ascii :: "string \<Rightarrow> bytes" where
  "ascii s = map of_char s"

lemma length_ascii [simp, wire_simps]: "length (ascii s) = length s"
  by (simp add: ascii_def)

lemma ascii_Nil [wire_eval]: "ascii [] = []"
  by (simp add: ascii_def)

lemma ascii_Cons [wire_eval]: "ascii (c # s) = of_char c # ascii s"
  by (simp add: ascii_def)

section \<open>Machine sizes\<close>

definition usize_max :: nat where "usize_max = 18446744073709551615"
definition isize_max :: nat where "isize_max = 9223372036854775807"

text \<open>\<^verbatim>\<open>usize::saturating_add\<close>, \<^verbatim>\<open>usize::saturating_mul\<close> and \<^verbatim>\<open>usize::checked_add\<close>.\<close>

definition sat_add :: "nat \<Rightarrow> nat \<Rightarrow> nat" where
  "sat_add a b = min (a + b) usize_max"

definition sat_mul :: "nat \<Rightarrow> nat \<Rightarrow> nat" where
  "sat_mul a b = min (a * b) usize_max"

definition checked_add :: "nat \<Rightarrow> nat \<Rightarrow> nat option" where
  "checked_add a b = (if a + b \<le> usize_max then Some (a + b) else None)"

lemma isize_le_usize: "isize_max \<le> usize_max"
  by (simp add: isize_max_def usize_max_def)

lemma sat_add_exact: "a + b \<le> usize_max \<Longrightarrow> sat_add a b = a + b"
  by (simp add: sat_add_def)

lemma sat_add_mono: "a \<le> a' \<Longrightarrow> b \<le> b' \<Longrightarrow> sat_add a b \<le> sat_add a' b'"
  by (auto simp: sat_add_def min_def)

lemma sat_add_bound: "sat_add a b \<le> usize_max"
  by (simp add: sat_add_def)

section \<open>Big-endian encodings\<close>

text \<open>
  \<open>be_bytes n v\<close> is the \<open>n\<close>-byte big-endian form of \<open>v\<close> (the low \<open>8 * n\<close> bits,
  as the \<^verbatim>\<open>as u8/u16/u32/u64\<close> casts keep them); \<open>be_val\<close> reads one back.
\<close>

fun be_bytes :: "nat \<Rightarrow> nat \<Rightarrow> bytes" where
  "be_bytes 0 v = []"
| "be_bytes (Suc n) v = of_nat (v div 256 ^ n) # be_bytes n v"

definition be_val :: "bytes \<Rightarrow> nat" where
  "be_val bs = foldl (\<lambda>a b. a * 256 + unat b) 0 bs"

lemma be_bytes_numeral [wire_eval]:
  "be_bytes (numeral k) v = of_nat (v div 256 ^ pred_numeral k) # be_bytes (pred_numeral k) v"
  by (simp add: numeral_eq_Suc)

lemma length_be_bytes [simp, wire_simps]: "length (be_bytes n v) = n"
  by (induction n) auto

lemma foldl_be_acc:
  "foldl (\<lambda>a b. a * 256 + unat (b :: u8)) acc bs
     = acc * 256 ^ length bs + foldl (\<lambda>a b. a * 256 + unat b) 0 bs"
proof (induction bs arbitrary: acc)
  case Nil
  then show ?case by simp
next
  case (Cons b bs)
  show ?case
    by (simp only: foldl_Cons list.size power_Suc Cons.IH [of "acc * 256 + unat b"]
        Cons.IH [of "0 * 256 + unat b"]) (simp add: algebra_simps)
qed

lemma be_val_Nil [simp]: "be_val [] = 0"
  by (simp add: be_val_def)

lemma be_val_Cons: "be_val (b # bs) = unat b * 256 ^ length bs + be_val bs"
  unfolding be_val_def by (simp add: foldl_be_acc [of "unat b" bs])

lemma unat_u8_lt: "unat (b :: u8) < 256"
  using unsigned_less [of b, where ?'a = nat] by simp

lemma unat_of_nat_u8: "unat (of_nat v :: u8) = v mod 256"
  by (simp add: unat_of_nat)

lemma be_val_lt: "be_val bs < 256 ^ length bs"
proof (induction bs)
  case Nil
  then show ?case by simp
next
  case (Cons b bs)
  have "unat b * 256 ^ length bs + be_val bs < (unat b + 1) * 256 ^ length bs"
    using Cons.IH by simp
  also have "\<dots> \<le> 256 * 256 ^ length bs"
    using unat_u8_lt [of b] by (intro mult_right_mono) auto
  finally show ?case by (simp add: be_val_Cons)
qed

lemma be_val_be_bytes: "be_val (be_bytes n v) = v mod 256 ^ n"
proof (induction n)
  case 0
  then show ?case by simp
next
  case (Suc n)
  have "v mod 256 ^ Suc n = (v div 256 ^ n mod 256) * 256 ^ n + v mod 256 ^ n"
    using mod_mult2_eq [of v "256 ^ n" 256] by (simp add: mult.commute)
  then show ?case
    by (simp only: be_bytes.simps be_val_Cons Suc.IH unat_of_nat_u8 length_be_bytes)
qed

lemma be_val_be_bytes_exact [simp]: "v < 256 ^ n \<Longrightarrow> be_val (be_bytes n v) = v"
  by (simp add: be_val_be_bytes)

lemma be_bytes_mod: "be_bytes n (v + k * 256 ^ n) = be_bytes n v"
proof (induction n arbitrary: k)
  case 0
  then show ?case by simp
next
  case (Suc n)
  have "be_bytes n (v + k * 256 ^ Suc n) = be_bytes n v"
    using Suc.IH [of "k * 256"] by (simp add: mult.assoc)
  moreover have "(v + k * 256 ^ Suc n) div 256 ^ n = v div 256 ^ n + k * 256"
    by (simp add: mult.assoc [symmetric] div_mult_self1)
  moreover have "(of_nat (v div 256 ^ n + k * 256) :: u8) = of_nat (v div 256 ^ n)"
    by (rule unsigned_word_eqI [where ?'a = nat]) (simp only: unat_of_nat_u8 mod_mult_self1)
  ultimately show ?case by simp
qed

lemma be_bytes_be_val: "be_bytes (length bs) (be_val bs) = bs"
proof (induction bs)
  case Nil
  then show ?case by simp
next
  case (Cons b bs)
  have "be_val (b # bs) div 256 ^ length bs = unat b"
    using be_val_lt [of bs] by (simp add: be_val_Cons)
  moreover have "be_bytes (length bs) (be_val (b # bs)) = bs"
    using Cons.IH be_bytes_mod [of "length bs" "be_val bs" "unat b"]
    by (simp add: be_val_Cons add.commute)
  ultimately show ?case by simp
qed

section \<open>UTF-8 validity (\<^verbatim>\<open>std::str::from_utf8\<close>)\<close>

definition utf8_cont :: "u8 \<Rightarrow> bool" where
  "utf8_cont b \<longleftrightarrow> 0x80 \<le> b \<and> b \<le> 0xBF"

definition utf8_second :: "u8 \<Rightarrow> u8 \<Rightarrow> bool" where
  "utf8_second b c \<longleftrightarrow>
     (if b = 0xE0 then 0xA0 \<le> c \<and> c \<le> 0xBF
      else if b = 0xED then 0x80 \<le> c \<and> c \<le> 0x9F
      else if b = 0xF0 then 0x90 \<le> c \<and> c \<le> 0xBF
      else if b = 0xF4 then 0x80 \<le> c \<and> c \<le> 0x8F
      else utf8_cont c)"

fun utf8_valid :: "bytes \<Rightarrow> bool" where
  "utf8_valid [] = True"
| "utf8_valid (b # bs) =
     (if b < 0x80 then utf8_valid bs
      else if 0xC2 \<le> b \<and> b \<le> 0xDF then
        (case bs of c # r \<Rightarrow> utf8_cont c \<and> utf8_valid r | _ \<Rightarrow> False)
      else if 0xE0 \<le> b \<and> b \<le> 0xEF then
        (case bs of c # d # r \<Rightarrow> utf8_second b c \<and> utf8_cont d \<and> utf8_valid r | _ \<Rightarrow> False)
      else if 0xF0 \<le> b \<and> b \<le> 0xF4 then
        (case bs of c # d # e # r \<Rightarrow>
           utf8_second b c \<and> utf8_cont d \<and> utf8_cont e \<and> utf8_valid r | _ \<Rightarrow> False)
      else False)"

lemma utf8_valid_ascii: "\<forall>b \<in> set bs. b < 0x80 \<Longrightarrow> utf8_valid bs"
  by (induction bs) auto

lemma utf8_valid_ascii_append: "\<forall>b \<in> set bs. b < 0x80 \<Longrightarrow> utf8_valid (bs @ cs) = utf8_valid cs"
  by (induction bs) auto

section \<open>Random bytes\<close>

text \<open>
  A generator is an explicit state: an infinite byte stream and the position
  of the next byte.  \<open>fill_bytes\<close> is \<^verbatim>\<open>Rng::fill_bytes\<close> on a buffer of \<open>n\<close> bytes.
\<close>

record rng =
  rng_stream :: "nat \<Rightarrow> u8"
  rng_pos :: nat

definition fill_bytes :: "nat \<Rightarrow> rng \<Rightarrow> bytes \<times> rng" where
  "fill_bytes n r = (map (\<lambda>i. rng_stream r (rng_pos r + i)) [0..<n], r\<lparr>rng_pos := rng_pos r + n\<rparr>)"

lemma length_fill_bytes [simp]: "length (fst (fill_bytes n r)) = n"
  by (simp add: fill_bytes_def)

lemma fill_bytesE:
  obtains bs r' where "fill_bytes n r = (bs, r')" "length bs = n"
  using length_fill_bytes [of n r] by (cases "fill_bytes n r") simp

section \<open>Lists\<close>

text \<open>\<^verbatim>\<open>Vec::get\<close>: an index out of range is \<open>None\<close>.\<close>

definition nth_opt :: "'a list \<Rightarrow> nat \<Rightarrow> 'a option" where
  "nth_opt xs i = (if i < length xs then Some (xs ! i) else None)"

lemma nth_opt_simps [simp]:
  "nth_opt [] i = None"
  "nth_opt (x # xs) 0 = Some x"
  "nth_opt (x # xs) (Suc i) = nth_opt xs i"
  by (simp_all add: nth_opt_def)

lemma nth_opt_map: "nth_opt (map f xs) i = map_option f (nth_opt xs i)"
  by (simp add: nth_opt_def)

lemma nth_opt_ext:
  assumes "\<And>i. nth_opt xs i = nth_opt ys i"
  shows "xs = ys"
proof (rule nth_equalityI)
  have "\<not> length xs < length ys" "\<not> length ys < length xs"
    using assms [of "length xs"] assms [of "length ys"] by (auto simp: nth_opt_def split: if_splits)
  then show len: "length xs = length ys" by simp
  fix i assume "i < length xs"
  then show "xs ! i = ys ! i"
    using assms [of i] len by (simp add: nth_opt_def)
qed

text \<open>\<^verbatim>\<open>iter().position(p)\<close>.\<close>

fun position :: "('a \<Rightarrow> bool) \<Rightarrow> 'a list \<Rightarrow> nat option" where
  "position p [] = None"
| "position p (x # xs) = (if p x then Some 0 else map_option Suc (position p xs))"

lemma position_SomeD:
  "position p xs = Some i \<Longrightarrow> i < length xs \<and> p (xs ! i) \<and> (\<forall>j < i. \<not> p (xs ! j))"
proof (induction xs arbitrary: i)
  case Nil
  then show ?case by simp
next
  case (Cons x xs)
  show ?case
  proof (cases "p x")
    case True
    with Cons.prems show ?thesis by auto
  next
    case False
    with Cons.prems obtain k where k: "position p xs = Some k" "i = Suc k" by auto
    with Cons.IH False show ?thesis by (auto simp: nth_Cons split: nat.splits)
  qed
qed

lemma position_None_iff: "position p xs = None \<longleftrightarrow> (\<forall>x \<in> set xs. \<not> p x)"
  by (induction xs) auto

lemma position_append_hit:
  "(\<forall>x \<in> set xs. \<not> p x) \<Longrightarrow> p y \<Longrightarrow> position p (xs @ y # ys) = Some (length xs)"
  by (induction xs) auto

lemma drop_prefix: "n = length xs \<Longrightarrow> drop n (xs @ ys) = ys"
  by simp

lemma take_prefix: "n = length xs \<Longrightarrow> take n (xs @ ys) = xs"
  by simp

lemma length_eq_two: "length xs = 2 \<Longrightarrow> \<exists>a b. xs = [a, b]"
  by (auto simp: numeral_2_eq_2 length_Suc_conv)

end
