(* ===== verification/Message.thy ===== *)
theory Message
  imports Omq_Prelude
begin

text \<open>
  Message, frame and payload types of \<^verbatim>\<open>omq-proto/src/message.rs\<close>.

  A payload and a message have several memory representations (inline arrays,
  shared buffers, vectors, routed variants).  The definitions follow the source
  representation by representation; \<open>payload_as_slice\<close> and \<open>parts\<close> are the views
  the rest of the code relies on, and the lemmas say what every operation does
  to the view, whatever the representation.
\<close>

section \<open>Payload\<close>

definition MAX_INLINE_PAYLOAD :: nat where "MAX_INLINE_PAYLOAD = 62"

text \<open>The compile-time assertion \<^verbatim>\<open>size_of::<Payload>() == 64\<close>.\<close>

definition PAYLOAD_SIZE :: nat where "PAYLOAD_SIZE = 64"

datatype payload =
    PEmpty
  | PInline u8 bytes
  | PSingle bytes

definition payload_new :: payload where
  "payload_new = PEmpty"

definition payload_from_bytes :: "bytes \<Rightarrow> payload" where
  "payload_from_bytes b = (if b = [] then payload_new else PSingle b)"

definition payload_inline :: "bytes \<Rightarrow> payload" where
  "payload_inline src =
     (if src = [] then payload_new
      else PInline (of_nat (length src)) (src @ replicate (MAX_INLINE_PAYLOAD - length src) 0))"

definition payload_from_slice :: "bytes \<Rightarrow> payload" where
  "payload_from_slice src =
     (if length src \<le> MAX_INLINE_PAYLOAD then payload_inline src else payload_from_bytes src)"

fun payload_len :: "payload \<Rightarrow> nat" where
  "payload_len PEmpty = 0"
| "payload_len (PInline len data) = unat len"
| "payload_len (PSingle b) = length b"

fun payload_is_empty :: "payload \<Rightarrow> bool" where
  "payload_is_empty PEmpty = True"
| "payload_is_empty _ = False"

fun payload_as_chunk :: "payload \<Rightarrow> bytes option" where
  "payload_as_chunk (PSingle b) = Some b"
| "payload_as_chunk _ = None"

fun payload_as_bytes :: "payload \<Rightarrow> bytes" where
  "payload_as_bytes PEmpty = []"
| "payload_as_bytes (PInline len data) = take (unat len) data"
| "payload_as_bytes (PSingle b) = b"

fun payload_as_slice :: "payload \<Rightarrow> bytes" where
  "payload_as_slice PEmpty = []"
| "payload_as_slice (PInline len data) = take (unat len) data"
| "payload_as_slice (PSingle b) = b"

definition payload_eq :: "payload \<Rightarrow> payload \<Rightarrow> bool" where
  "payload_eq p q \<longleftrightarrow> payload_as_slice p = payload_as_slice q"

text \<open>Representation invariant: only \<open>PEmpty\<close> stands for zero bytes.\<close>

fun payload_wf :: "payload \<Rightarrow> bool" where
  "payload_wf PEmpty = True"
| "payload_wf (PInline len data) \<longleftrightarrow>
     length data = MAX_INLINE_PAYLOAD \<and> 0 < unat len \<and> unat len \<le> MAX_INLINE_PAYLOAD"
| "payload_wf (PSingle b) \<longleftrightarrow> b \<noteq> []"

section \<open>Frame\<close>

record frame_flags =
  ff_more :: bool
  ff_command :: bool

definition FF_LAST :: frame_flags where "FF_LAST = \<lparr>ff_more = False, ff_command = False\<rparr>"
definition FF_MORE :: frame_flags where "FF_MORE = \<lparr>ff_more = True, ff_command = False\<rparr>"
definition FF_COMMAND :: frame_flags where "FF_COMMAND = \<lparr>ff_more = False, ff_command = True\<rparr>"

record frame =
  fr_flags :: frame_flags
  fr_payload :: payload

definition frame_data :: "payload \<Rightarrow> bool \<Rightarrow> frame" where
  "frame_data p mor = \<lparr>fr_flags = (if mor then FF_MORE else FF_LAST), fr_payload = p\<rparr>"

definition frame_command :: "payload \<Rightarrow> frame" where
  "frame_command p = \<lparr>fr_flags = FF_COMMAND, fr_payload = p\<rparr>"

section \<open>Message representations\<close>

definition MAX_INLINE_MESSAGE :: nat where "MAX_INLINE_MESSAGE = 55"
definition MAX_INLINE_ROUTED_MESSAGE :: nat where "MAX_INLINE_ROUTED_MESSAGE = 51"
definition INLINE_DELIMITED_FLAG :: u8 where "INLINE_DELIMITED_FLAG = 0x80"

datatype message =
    Empty
  | Inline u8 bytes
  | Single payload
  | EmptyDelimitedBytes bytes
  | Multi "payload list"
  | RoutedEmpty u32
  | RoutedInline u8 bytes
  | RoutedBytes u32 bytes
  | RoutedMulti u32 "payload list"

text \<open>The tests \<^verbatim>\<open>len & INLINE_DELIMITED_FLAG != 0\<close> and \<^verbatim>\<open>len & !INLINE_DELIMITED_FLAG\<close>.\<close>

definition delimited :: "u8 \<Rightarrow> bool" where
  "delimited len \<longleftrightarrow> len AND INLINE_DELIMITED_FLAG \<noteq> 0"

definition strip_flag :: "u8 \<Rightarrow> u8" where
  "strip_flag len = len AND NOT INLINE_DELIMITED_FLAG"

definition inline_body :: "u8 \<Rightarrow> bytes \<Rightarrow> bytes" where
  "inline_body len data = take (unat (strip_flag len)) data"

definition u32_to_le_bytes :: "u32 \<Rightarrow> bytes" where
  "u32_to_le_bytes w = rev (be_bytes 4 (unat w))"

definition routed_inline_id :: "bytes \<Rightarrow> u32" where
  "routed_inline_id data = of_nat (be_val (rev (drop MAX_INLINE_ROUTED_MESSAGE data)))"

definition message_new :: message where
  "message_new = Empty"

definition from_payload :: "payload \<Rightarrow> message" where
  "from_payload p = Single p"

definition from_inline :: "bytes \<Rightarrow> message" where
  "from_inline data =
     Inline (of_nat (length data)) (data @ replicate (MAX_INLINE_MESSAGE - length data) 0)"

definition from_payloads_vec :: "payload list \<Rightarrow> message" where
  "from_payloads_vec ps = (case ps of [] \<Rightarrow> Empty | [p] \<Rightarrow> Single p | _ \<Rightarrow> Multi ps)"

definition single :: "bytes \<Rightarrow> message" where
  "single b =
     (if length b \<le> MAX_INLINE_MESSAGE then from_inline b else Single (payload_from_bytes b))"

definition message_from_slice :: "bytes \<Rightarrow> message" where
  "message_from_slice data =
     (if length data \<le> MAX_INLINE_MESSAGE then from_inline data else single data)"

text \<open>The closure that \<^verbatim>\<open>multipart\<close> maps over its items, and the constructor.\<close>

definition multipart_payload :: "bytes \<Rightarrow> payload" where
  "multipart_payload b =
     (if length b \<le> MAX_INLINE_PAYLOAD then payload_from_slice b else payload_from_bytes b)"

definition multipart :: "bytes list \<Rightarrow> message" where
  "multipart ps =
     (case map multipart_payload ps of
        [] \<Rightarrow> message_new
      | [p] \<Rightarrow> Single p
      | p # q # r \<Rightarrow> Multi (p # q # r))"

definition with_group :: "bytes \<Rightarrow> bytes \<Rightarrow> message" where
  "with_group grp body = multipart [grp, body]"

section \<open>Message operations\<close>

fun msg_len :: "message \<Rightarrow> nat" where
  "msg_len Empty = 0"
| "msg_len (RoutedEmpty _) = 0"
| "msg_len (Inline len _) = (if delimited len then 2 else 1)"
| "msg_len (Single _) = 1"
| "msg_len (RoutedInline _ _) = 1"
| "msg_len (RoutedBytes _ _) = 1"
| "msg_len (EmptyDelimitedBytes _) = 2"
| "msg_len (Multi v) = length v"
| "msg_len (RoutedMulti _ ps) = length ps"

fun msg_is_empty :: "message \<Rightarrow> bool" where
  "msg_is_empty Empty = True"
| "msg_is_empty (RoutedEmpty _) = True"
| "msg_is_empty _ = False"

fun byte_len :: "message \<Rightarrow> nat" where
  "byte_len Empty = 0"
| "byte_len (RoutedEmpty _) = 0"
| "byte_len (Inline len _) = unat (strip_flag len)"
| "byte_len (Single p) = payload_len p"
| "byte_len (EmptyDelimitedBytes p) = length p"
| "byte_len (Multi v) = sum_list (map payload_len v)"
| "byte_len (RoutedInline len _) = unat len"
| "byte_len (RoutedBytes _ data) = length data"
| "byte_len (RoutedMulti _ ps) = sum_list (map payload_len ps)"

definition max_message_size_len :: "message \<Rightarrow> nat" where
  "max_message_size_len m = sat_add (byte_len m) (sat_mul (msg_len m) PAYLOAD_SIZE)"

fun is_multipart :: "message \<Rightarrow> bool" where
  "is_multipart (Inline len _) = delimited len"
| "is_multipart (EmptyDelimitedBytes _) = True"
| "is_multipart (Multi _) = True"
| "is_multipart (RoutedMulti _ _) = True"
| "is_multipart _ = False"

fun routing_id :: "message \<Rightarrow> u32 option" where
  "routing_id (RoutedEmpty r) = Some r"
| "routing_id (RoutedBytes r _) = Some r"
| "routing_id (RoutedMulti r _) = Some r"
| "routing_id (RoutedInline _ data) = Some (routed_inline_id data)"
| "routing_id _ = None"

text \<open>The \<^verbatim>\<open>&mut self\<close> operations return the message they leave behind and their result.\<close>

fun take_routing_id :: "message \<Rightarrow> message \<times> u32 option" where
  "take_routing_id (RoutedEmpty r) = (Empty, Some r)"
| "take_routing_id (RoutedInline len data) = (Inline len data, Some (routed_inline_id data))"
| "take_routing_id (RoutedBytes r data) = (Single (payload_from_bytes data), Some r)"
| "take_routing_id (RoutedMulti r ps) = (from_payloads_vec ps, Some r)"
| "take_routing_id m = (m, None)"

fun part_bytes :: "message \<Rightarrow> nat \<Rightarrow> bytes option" where
  "part_bytes Empty i = None"
| "part_bytes (RoutedEmpty _) i = None"
| "part_bytes (Inline len data) i =
     (if delimited len then
        (if i = 0 then Some [] else if i = 1 then Some (inline_body len data) else None)
      else if i = 0 then Some (take (unat len) data) else None)"
| "part_bytes (Single p) i = (if i = 0 then Some (payload_as_bytes p) else None)"
| "part_bytes (EmptyDelimitedBytes p) i =
     (if i = 0 then Some [] else if i = 1 then Some p else None)"
| "part_bytes (Multi v) i = map_option payload_as_bytes (nth_opt v i)"
| "part_bytes (RoutedInline len data) i = (if i = 0 then Some (take (unat len) data) else None)"
| "part_bytes (RoutedBytes _ data) i = (if i = 0 then Some data else None)"
| "part_bytes (RoutedMulti _ ps) i = map_option payload_as_bytes (nth_opt ps i)"

text \<open>\<open>part_slice\<close> is \<^verbatim>\<open>Message::part_slice\<close> and \<^verbatim>\<open>Message::get\<close>, which have the same body.\<close>

fun part_slice :: "message \<Rightarrow> nat \<Rightarrow> bytes option" where
  "part_slice Empty i = None"
| "part_slice (RoutedEmpty _) i = None"
| "part_slice (Inline len data) i =
     (if delimited len then
        (if i = 0 then Some [] else if i = 1 then Some (inline_body len data) else None)
      else if i = 0 then Some (take (unat len) data) else None)"
| "part_slice (Single p) i = (if i = 0 then Some (payload_as_slice p) else None)"
| "part_slice (EmptyDelimitedBytes p) i =
     (if i = 0 then Some [] else if i = 1 then Some p else None)"
| "part_slice (Multi v) i = map_option payload_as_slice (nth_opt v i)"
| "part_slice (RoutedInline len data) i = (if i = 0 then Some (take (unat len) data) else None)"
| "part_slice (RoutedBytes _ data) i = (if i = 0 then Some data else None)"
| "part_slice (RoutedMulti _ ps) i = map_option payload_as_slice (nth_opt ps i)"

datatype part_count_error = PartCountError nat nat

definition try_as_parts :: "nat \<Rightarrow> message \<Rightarrow> part_count_error + bytes option list" where
  "try_as_parts n m =
     (if msg_len m \<noteq> n then Inl (PartCountError n (msg_len m))
      else Inr (map (part_bytes m) [0..<n]))"

text \<open>\<^verbatim>\<open>MessageIter\<close> and \<^verbatim>\<open>Iterator::next\<close>.\<close>

record message_iter =
  it_msg :: message
  it_pos :: nat

definition msg_iter :: "message \<Rightarrow> message_iter" where
  "msg_iter m = \<lparr>it_msg = m, it_pos = 0\<rparr>"

definition iter_next :: "message_iter \<Rightarrow> message_iter \<times> bytes option" where
  "iter_next it =
     (case part_bytes (it_msg it) (it_pos it) of
        None \<Rightarrow> (it, None)
      | Some b \<Rightarrow> (it\<lparr>it_pos := Suc (it_pos it)\<rparr>, Some b))"

definition message_eq :: "message \<Rightarrow> message \<Rightarrow> bool" where
  "message_eq a b \<longleftrightarrow>
     msg_len a = msg_len b \<and> list_all (\<lambda>i. part_slice a i = part_slice b i) [0..<msg_len a]"

fun pop_front :: "message \<Rightarrow> message \<times> bytes option" where
  "pop_front Empty = (Empty, None)"
| "pop_front (RoutedEmpty _) = (Empty, None)"
| "pop_front (Inline len data) =
     (if delimited len then (Inline (strip_flag len) data, Some [])
      else (Empty, Some (take (unat len) data)))"
| "pop_front (Single p) = (Empty, Some (payload_as_bytes p))"
| "pop_front (EmptyDelimitedBytes p) = (Single (payload_from_bytes p), Some [])"
| "pop_front (Multi v) =
     (case v of [] \<Rightarrow> (Empty, None)
      | p # ps \<Rightarrow>
          (case ps of [] \<Rightarrow> Empty | [q] \<Rightarrow> Single q | _ \<Rightarrow> Multi ps, Some (payload_as_bytes p)))"
| "pop_front (RoutedInline len data) = (Empty, Some (take (unat len) data))"
| "pop_front (RoutedBytes _ data) = (Empty, Some data)"
| "pop_front (RoutedMulti _ ps) =
     (case ps of [] \<Rightarrow> (Empty, None)
      | p # qs \<Rightarrow> (from_payloads_vec qs, Some (payload_as_bytes p)))"

definition empty_payload :: payload where
  "empty_payload = payload_from_bytes []"

fun parts_payload :: "message \<Rightarrow> payload list" where
  "parts_payload Empty = []"
| "parts_payload (RoutedEmpty _) = []"
| "parts_payload (Inline len data) =
     (if delimited len then [empty_payload, payload_from_slice (inline_body len data)]
      else [payload_from_slice (inline_body len data)])"
| "parts_payload (Single p) = [p]"
| "parts_payload (EmptyDelimitedBytes p) = [empty_payload, payload_from_bytes p]"
| "parts_payload (Multi v) = v"
| "parts_payload (RoutedInline len data) = [payload_from_slice (take (unat len) data)]"
| "parts_payload (RoutedBytes _ data) = [payload_from_bytes data]"
| "parts_payload (RoutedMulti _ ps) = ps"

text \<open>\<^verbatim>\<open>into_parts_payload\<close> consumes the message; its body is the same case analysis.\<close>

fun into_parts_payload :: "message \<Rightarrow> payload list" where
  "into_parts_payload Empty = []"
| "into_parts_payload (RoutedEmpty _) = []"
| "into_parts_payload (Inline len data) =
     (if delimited len then [empty_payload, payload_from_slice (inline_body len data)]
      else [payload_from_slice (inline_body len data)])"
| "into_parts_payload (Single p) = [p]"
| "into_parts_payload (EmptyDelimitedBytes p) = [empty_payload, payload_from_bytes p]"
| "into_parts_payload (Multi v) = v"
| "into_parts_payload (RoutedInline len data) = [payload_from_slice (take (unat len) data)]"
| "into_parts_payload (RoutedBytes _ data) = [payload_from_bytes data]"
| "into_parts_payload (RoutedMulti _ ps) = ps"

text \<open>The slices \<^verbatim>\<open>iter_slices\<close> passes to its callback, in order.\<close>

fun iter_slices :: "message \<Rightarrow> bytes list" where
  "iter_slices Empty = []"
| "iter_slices (RoutedEmpty _) = []"
| "iter_slices (Inline len data) =
     (if delimited len then [[], inline_body len data] else [inline_body len data])"
| "iter_slices (Single p) = [payload_as_slice p]"
| "iter_slices (EmptyDelimitedBytes p) = [[], p]"
| "iter_slices (Multi v) = map payload_as_slice v"
| "iter_slices (RoutedInline len data) = [take (unat len) data]"
| "iter_slices (RoutedBytes _ data) = [data]"
| "iter_slices (RoutedMulti _ ps) = map payload_as_slice ps"

fun with_routing_id_unrouted :: "message \<Rightarrow> u32 \<Rightarrow> message" where
  "with_routing_id_unrouted Empty r = RoutedEmpty r"
| "with_routing_id_unrouted (Inline len data) r =
     (if \<not> delimited len \<and> unat len \<le> MAX_INLINE_ROUTED_MESSAGE then
        RoutedInline len (take MAX_INLINE_ROUTED_MESSAGE data @ u32_to_le_bytes r)
      else if \<not> delimited len then RoutedBytes r (take (unat len) data)
      else RoutedMulti r (into_parts_payload (Inline len data)))"
| "with_routing_id_unrouted (Single p) r = RoutedBytes r (payload_as_bytes p)"
| "with_routing_id_unrouted m r = RoutedMulti r (into_parts_payload m)"

definition with_routing_id :: "message \<Rightarrow> u32 \<Rightarrow> message" where
  "with_routing_id m r =
     with_routing_id_unrouted (if routing_id m \<noteq> None then fst (take_routing_id m) else m) r"

text \<open>
  The case analysis that both \<^verbatim>\<open>with_prefix\<close> and \<^verbatim>\<open>with_rep_envelope\<close> run on the body
  before extending their vector of parts.
\<close>

fun body_parts :: "message \<Rightarrow> payload list" where
  "body_parts Empty = []"
| "body_parts (RoutedEmpty _) = []"
| "body_parts (Inline len data) =
     (if delimited len then [empty_payload] else []) @ [payload_from_slice (inline_body len data)]"
| "body_parts (Single p) = [p]"
| "body_parts (EmptyDelimitedBytes p) = [empty_payload, payload_from_bytes p]"
| "body_parts (Multi v) = v"
| "body_parts (RoutedInline len data) = [payload_from_slice (take (unat len) data)]"
| "body_parts (RoutedBytes _ data) = [payload_from_bytes data]"
| "body_parts (RoutedMulti _ ps) = ps"

fun prepend_empty_delimiter :: "message \<Rightarrow> message" where
  "prepend_empty_delimiter Empty = Single empty_payload"
| "prepend_empty_delimiter (Inline len data) =
     Inline (strip_flag len OR INLINE_DELIMITED_FLAG) data"
| "prepend_empty_delimiter (Single p) = EmptyDelimitedBytes (payload_as_bytes p)"
| "prepend_empty_delimiter (EmptyDelimitedBytes p) =
     Multi [empty_payload, payload_from_bytes p]"
| "prepend_empty_delimiter (Multi v) = Multi (empty_payload # v)"
| "prepend_empty_delimiter (RoutedEmpty r) = RoutedMulti r [empty_payload]"
| "prepend_empty_delimiter (RoutedInline len data) =
     RoutedMulti (routed_inline_id data)
       [empty_payload, payload_from_slice (take (unat len) data)]"
| "prepend_empty_delimiter (RoutedBytes r data) =
     RoutedMulti r [empty_payload, payload_from_bytes data]"
| "prepend_empty_delimiter (RoutedMulti r ps) = RoutedMulti r (empty_payload # ps)"

definition with_prefix :: "bytes \<Rightarrow> message \<Rightarrow> message" where
  "with_prefix pre body =
     (if pre = [] then prepend_empty_delimiter body
      else Multi (payload_from_bytes pre # body_parts body))"

definition with_rep_envelope :: "bytes list \<Rightarrow> message \<Rightarrow> message" where
  "with_rep_envelope envelope body =
     from_payloads_vec (map payload_from_bytes envelope @ [empty_payload] @ body_parts body)"

fun push_part_payload :: "message \<Rightarrow> payload \<Rightarrow> message" where
  "push_part_payload Empty part = Single part"
| "push_part_payload (Inline len data) part =
     (let existing = payload_from_slice (inline_body len data)
      in if delimited len then Multi [empty_payload, existing, part] else Multi [existing, part])"
| "push_part_payload (Single existing) part = Multi [existing, part]"
| "push_part_payload (EmptyDelimitedBytes existing) part =
     Multi [empty_payload, payload_from_bytes existing, part]"
| "push_part_payload (Multi v) part = Multi (v @ [part])"
| "push_part_payload (RoutedEmpty r) part = RoutedMulti r [part]"
| "push_part_payload (RoutedInline len data) part =
     RoutedMulti (routed_inline_id data) [payload_from_slice (take (unat len) data), part]"
| "push_part_payload (RoutedBytes r data) part = RoutedMulti r [payload_from_bytes data, part]"
| "push_part_payload (RoutedMulti r ps) part = RoutedMulti r (ps @ [part])"

definition generated_identity :: "u64 \<Rightarrow> bytes" where
  "generated_identity i = 0 # be_bytes 8 (unat i)"

section \<open>The view: a message is the list of its parts\<close>

fun parts :: "message \<Rightarrow> bytes list" where
  "parts Empty = []"
| "parts (RoutedEmpty _) = []"
| "parts (Inline len data) =
     (if delimited len then [[], inline_body len data] else [inline_body len data])"
| "parts (Single p) = [payload_as_slice p]"
| "parts (EmptyDelimitedBytes p) = [[], p]"
| "parts (Multi v) = map payload_as_slice v"
| "parts (RoutedInline len data) = [take (unat len) data]"
| "parts (RoutedBytes _ data) = [data]"
| "parts (RoutedMulti _ ps) = map payload_as_slice ps"

fun message_wf :: "message \<Rightarrow> bool" where
  "message_wf Empty = True"
| "message_wf (RoutedEmpty _) = True"
| "message_wf (Inline len data) \<longleftrightarrow>
     length data = MAX_INLINE_MESSAGE \<and> unat (strip_flag len) \<le> MAX_INLINE_MESSAGE"
| "message_wf (Single p) = payload_wf p"
| "message_wf (EmptyDelimitedBytes p) = True"
| "message_wf (Multi v) = list_all payload_wf v"
| "message_wf (RoutedInline len data) \<longleftrightarrow>
     length data = MAX_INLINE_MESSAGE \<and> unat len \<le> MAX_INLINE_ROUTED_MESSAGE"
| "message_wf (RoutedBytes _ data) = True"
| "message_wf (RoutedMulti _ ps) = list_all payload_wf ps"

subsection \<open>The inline length byte\<close>

lemma high_bit_iff: "(w :: u8) AND 0x80 = 0 \<longleftrightarrow> unat w < 128"
proof -
  have "w AND 0x80 = 0 \<longleftrightarrow> \<not> bit w 7"
    using and_exp_eq_0_iff_not_bit [of w 7] by simp
  also have "bit w 7 \<longleftrightarrow> bit (unat w) 7"
    by (simp add: bit_unsigned_iff)
  also have "bit (unat w) 7 \<longleftrightarrow> odd (unat w div 128)"
    by (simp add: bit_iff_odd)
  also have "\<not> odd (unat w div 128) \<longleftrightarrow> unat w div 128 = 0"
    using unat_u8_lt [of w] less_2_cases [of "unat w div 128"] by auto
  also have "\<dots> \<longleftrightarrow> unat w < 128"
    by (simp add: div_eq_0_iff)
  finally show ?thesis .
qed

lemma delimited_iff: "delimited len \<longleftrightarrow> 128 \<le> unat len"
  using high_bit_iff [of len] by (simp add: delimited_def INLINE_DELIMITED_FLAG_def not_less)

lemma unat_strip_flag: "unat (strip_flag len) = unat len mod 128"
proof -
  have "NOT INLINE_DELIMITED_FLAG = mask 7"
    by code_simp
  then have "strip_flag len = take_bit 7 len"
    by (simp only: strip_flag_def take_bit_eq_mask)
  then show ?thesis
    by (simp only: unsigned_take_bit_eq) (simp add: take_bit_eq_mod)
qed

lemma strip_flag_not_delimited [simp]: "\<not> delimited (strip_flag len)"
  by (simp add: delimited_iff unat_strip_flag not_le)

lemma strip_flag_idem [simp]: "strip_flag (strip_flag len) = strip_flag len"
  by (simp only: strip_flag_def and.assoc and.idem)

lemma strip_flag_id: "\<not> delimited len \<Longrightarrow> strip_flag len = len"
  by (rule unsigned_word_eqI [where ?'a = nat]) (simp add: delimited_iff unat_strip_flag)

lemma set_flag_delimited [simp]: "delimited (strip_flag len OR INLINE_DELIMITED_FLAG)"
  by (simp only: delimited_def bit.conj_disj_distrib2 and.idem)
    (simp add: INLINE_DELIMITED_FLAG_def or_eq_0_iff)

lemma strip_set_flag [simp]: "strip_flag (strip_flag len OR INLINE_DELIMITED_FLAG) = strip_flag len"
  by (simp only: strip_flag_def bit.conj_disj_distrib2 and.assoc and.idem bit.conj_cancel_right
      bit.disj_zero_right)

lemma of_nat_small_len: "n < 128 \<Longrightarrow> unat (of_nat n :: u8) = n \<and> \<not> delimited (of_nat n)"
  by (simp add: delimited_iff unat_of_nat_u8)

lemma inline_body_not_delimited: "\<not> delimited len \<Longrightarrow> inline_body len data = take (unat len) data"
  by (simp add: inline_body_def strip_flag_id)

subsection \<open>Payloads\<close>

lemma payload_as_bytes_slice [view_simps]: "payload_as_bytes p = payload_as_slice p"
  by (cases p) auto

lemma payload_from_bytes_slice [view_simps]: "payload_as_slice (payload_from_bytes b) = b"
  by (simp add: payload_from_bytes_def payload_new_def)

lemma payload_inline_slice [view_simps]:
  "length b \<le> MAX_INLINE_PAYLOAD \<Longrightarrow> payload_as_slice (payload_inline b) = b"
  using of_nat_small_len [of "length b"]
  by (simp add: payload_inline_def payload_new_def MAX_INLINE_PAYLOAD_def)

lemma payload_from_slice_slice [view_simps]: "payload_as_slice (payload_from_slice b) = b"
  by (simp add: payload_from_slice_def payload_inline_slice payload_from_bytes_slice)

lemma empty_payload_slice [view_simps]: "payload_as_slice empty_payload = []"
  by (simp add: empty_payload_def payload_from_bytes_slice)

lemma payload_from_bytes_wf [wf_intros]: "payload_wf (payload_from_bytes b)"
  by (simp add: payload_from_bytes_def payload_new_def)

lemma payload_inline_wf [wf_intros]:
  "length b \<le> MAX_INLINE_PAYLOAD \<Longrightarrow> payload_wf (payload_inline b)"
  using of_nat_small_len [of "length b"]
  by (simp add: payload_inline_def payload_new_def MAX_INLINE_PAYLOAD_def)

lemma payload_from_slice_wf [wf_intros]: "payload_wf (payload_from_slice b)"
  by (simp add: payload_from_slice_def payload_inline_wf payload_from_bytes_wf)

lemma empty_payload_wf [wf_intros]: "payload_wf empty_payload"
  by (simp add: empty_payload_def payload_from_bytes_wf)

lemma payload_len_slice: "payload_wf p \<Longrightarrow> payload_len p = length (payload_as_slice p)"
  by (cases p) auto

lemma payload_is_empty_slice: "payload_wf p \<Longrightarrow> payload_is_empty p \<longleftrightarrow> payload_as_slice p = []"
  by (cases p) (auto simp: MAX_INLINE_PAYLOAD_def)

lemmas payload_wf_facts =
  payload_from_bytes_wf payload_inline_wf payload_from_slice_wf empty_payload_wf

subsection \<open>Constructors\<close>

lemma parts_from_inline [view_simps]:
  "length b \<le> MAX_INLINE_MESSAGE \<Longrightarrow> parts (from_inline b) = [b]"
  using of_nat_small_len [of "length b"]
  by (simp add: from_inline_def MAX_INLINE_MESSAGE_def inline_body_not_delimited)

lemma from_inline_wf [wf_intros]:
  "length b \<le> MAX_INLINE_MESSAGE \<Longrightarrow> message_wf (from_inline b)"
  using of_nat_small_len [of "length b"]
  by (simp add: from_inline_def MAX_INLINE_MESSAGE_def strip_flag_id)

lemma parts_from_payload [view_simps]: "parts (from_payload p) = [payload_as_slice p]"
  by (simp add: from_payload_def)

lemma parts_from_payloads_vec [view_simps]:
  "parts (from_payloads_vec ps) = map payload_as_slice ps"
  by (simp add: from_payloads_vec_def split: list.split)

lemma from_payloads_vec_wf [wf_intros]:
  "list_all payload_wf ps \<Longrightarrow> message_wf (from_payloads_vec ps)"
  by (auto simp: from_payloads_vec_def split: list.split)

lemma parts_single [view_simps]: "parts (single b) = [b]"
  by (simp add: single_def view_simps)

lemma single_wf [wf_intros]: "message_wf (single b)"
  by (simp add: single_def wf_intros)

lemma parts_message_from_slice [view_simps]: "parts (message_from_slice b) = [b]"
  by (simp add: message_from_slice_def view_simps)

lemma multipart_from_vec: "multipart ps = from_payloads_vec (map multipart_payload ps)"
  by (simp add: multipart_def from_payloads_vec_def message_new_def split: list.split)

lemma parts_multipart [view_simps]: "parts (multipart ps) = ps"
proof -
  have "map (payload_as_slice \<circ> multipart_payload) ps = ps"
    by (rule map_idI) (simp add: multipart_payload_def view_simps)
  then show ?thesis
    by (simp add: multipart_from_vec parts_from_payloads_vec)
qed

lemma multipart_wf [wf_intros]: "message_wf (multipart ps)"
  by (auto intro!: from_payloads_vec_wf
      simp: multipart_from_vec list_all_iff multipart_payload_def payload_wf_facts)

subsection \<open>Observers\<close>

lemma msg_len_parts [view_simps]: "msg_len m = length (parts m)"
  by (cases m) auto

lemma msg_is_empty_parts: "msg_is_empty m \<Longrightarrow> parts m = []"
  by (cases m) auto

lemma byte_len_parts: "message_wf m \<Longrightarrow> byte_len m = sum_list (map length (parts m))"
proof (cases m)
  case (Multi v)
  assume "message_wf m"
  with Multi show ?thesis
    by (simp add: list_all_iff payload_len_slice cong: map_cong)
next
  case (RoutedMulti r ps)
  assume "message_wf m"
  with RoutedMulti show ?thesis
    by (simp add: list_all_iff payload_len_slice cong: map_cong)
qed (auto simp: inline_body_def payload_len_slice MAX_INLINE_MESSAGE_def
      MAX_INLINE_ROUTED_MESSAGE_def min_def)

lemma part_slice_parts [view_simps]: "part_slice m i = nth_opt (parts m) i"
  by (cases m) (auto simp: nth_opt_map inline_body_not_delimited nth_opt_def nth_Cons split: nat.splits)

lemma part_bytes_parts [view_simps]: "part_bytes m i = nth_opt (parts m) i"
proof -
  have "payload_as_bytes = payload_as_slice"
    by (rule ext) (rule payload_as_bytes_slice)
  then have "part_bytes m i = part_slice m i"
    by (cases m) simp_all
  then show ?thesis by (simp add: part_slice_parts)
qed

lemma parts_payload_view [view_simps]: "map payload_as_slice (parts_payload m) = parts m"
  by (cases m) (simp_all add: view_simps)

lemma into_parts_payload_eq [view_simps]: "into_parts_payload m = parts_payload m"
  by (cases m) simp_all

lemma body_parts_eq [view_simps]: "body_parts m = parts_payload m"
  by (cases m) simp_all

lemma iter_slices_parts [view_simps]: "iter_slices m = parts m"
  by (cases m) simp_all

lemma parts_payload_wf [wf_intros]: "message_wf m \<Longrightarrow> list_all payload_wf (parts_payload m)"
  by (cases m) (simp_all add: payload_wf_facts)

subsection \<open>Indexed access\<close>

text \<open>
  What a client that reads parts by index relies on: a count and an accessor
  that agree with one list.  \<^verbatim>\<open>part_bytes\<close> and \<^verbatim>\<open>part_slice\<close>/\<^verbatim>\<open>get\<close> both satisfy it.
\<close>

locale indexed_parts =
  fixes view :: "'m \<Rightarrow> 'p list"
    and count :: "'m \<Rightarrow> nat"
    and part_at :: "'m \<Rightarrow> nat \<Rightarrow> 'p option"
  assumes count_view: "count m = length (view m)"
    and part_at_view: "part_at m i = nth_opt (view m) i"
begin

lemma part_at_None_iff: "part_at m i = None \<longleftrightarrow> count m \<le> i"
  by (simp add: part_at_view count_view nth_opt_def)

lemma collect_parts: "map (part_at m) [0..<count m] = map Some (view m)"
  by (rule nth_equalityI) (simp_all add: part_at_view count_view nth_opt_def)

lemma loop_eq_iff:
  "count a = count b \<and> list_all (\<lambda>i. part_at a i = part_at b i) [0..<count a]
     \<longleftrightarrow> view a = view b"
proof
  assume "count a = count b \<and> list_all (\<lambda>i. part_at a i = part_at b i) [0..<count a]"
  then show "view a = view b"
    by (intro nth_equalityI) (auto simp: list_all_iff part_at_view count_view nth_opt_def)
qed (simp add: part_at_view count_view list_all_iff)

end

interpretation by_slice: indexed_parts parts msg_len part_slice
  by unfold_locales (simp_all add: view_simps)

interpretation by_bytes: indexed_parts parts msg_len part_bytes
  by unfold_locales (simp_all add: view_simps)

lemma message_eq_iff: "message_eq a b \<longleftrightarrow> parts a = parts b"
  using by_slice.loop_eq_iff [of a b] by (simp add: message_eq_def)

lemma try_as_parts_ok: "try_as_parts (length (parts m)) m = Inr (map Some (parts m))"
  using by_bytes.collect_parts [of m] by (simp add: try_as_parts_def view_simps)

lemma try_as_parts_err:
  "n \<noteq> length (parts m) \<Longrightarrow> try_as_parts n m = Inl (PartCountError n (length (parts m)))"
  by (simp add: try_as_parts_def view_simps)

text \<open>Draining the iterator: \<open>fuel\<close> bounds the number of \<^verbatim>\<open>next\<close> calls.\<close>

fun iter_take :: "nat \<Rightarrow> message_iter \<Rightarrow> bytes list" where
  "iter_take 0 it = []"
| "iter_take (Suc fuel) it =
     (case iter_next it of
        (it', Some b) \<Rightarrow> b # iter_take fuel it'
      | (it', None) \<Rightarrow> [])"

lemma iter_take_from:
  "length (parts (it_msg it)) - it_pos it \<le> fuel \<Longrightarrow>
     iter_take fuel it = drop (it_pos it) (parts (it_msg it))"
proof (induction fuel arbitrary: it)
  case 0
  then show ?case by simp
next
  case (Suc fuel)
  show ?case
  proof (cases "it_pos it < length (parts (it_msg it))")
    case True
    then have "iter_next it
        = (it\<lparr>it_pos := Suc (it_pos it)\<rparr>, Some (parts (it_msg it) ! it_pos it))"
      by (simp add: iter_next_def part_bytes_parts nth_opt_def)
    with True Suc.IH [of "it\<lparr>it_pos := Suc (it_pos it)\<rparr>"] Suc.prems show ?thesis
      by (simp add: Cons_nth_drop_Suc)
  next
    case False
    then show ?thesis
      by (simp add: iter_next_def part_bytes_parts nth_opt_def)
  qed
qed

lemma iter_yields_parts: "msg_len m \<le> fuel \<Longrightarrow> iter_take fuel (msg_iter m) = parts m"
  by (simp add: iter_take_from msg_iter_def view_simps)

subsection \<open>Operations on the view\<close>

lemma pop_front_view:
  "parts (fst (pop_front m)) = tl (parts m)"
  "snd (pop_front m) = nth_opt (parts m) 0"
proof -
  have "parts (fst (pop_front m)) = tl (parts m) \<and> snd (pop_front m) = nth_opt (parts m) 0"
  proof (cases m)
    case (Multi v)
    then show ?thesis by (cases v) (simp_all add: from_payloads_vec_def [symmetric] view_simps)
  next
    case (RoutedMulti r ps)
    then show ?thesis by (cases ps) (simp_all add: view_simps)
  qed (simp_all add: view_simps inline_body_not_delimited, simp add: inline_body_def)
  then show "parts (fst (pop_front m)) = tl (parts m)" "snd (pop_front m) = nth_opt (parts m) 0"
    by blast+
qed

lemma pop_front_wf [wf_intros]: "message_wf m \<Longrightarrow> message_wf (fst (pop_front m))"
proof (cases m)
  case (Multi v)
  assume "message_wf m"
  with Multi show ?thesis by (cases v) (simp_all add: from_payloads_vec_def [symmetric] from_payloads_vec_wf)
next
  case (RoutedMulti r ps)
  assume "message_wf m"
  with RoutedMulti show ?thesis by (cases ps) (simp_all add: from_payloads_vec_wf)
qed (auto simp: payload_wf_facts)

definition already_delimited :: "message \<Rightarrow> bool" where
  "already_delimited m \<longleftrightarrow>
     (case m of Inline len _ \<Rightarrow> delimited len | EmptyDelimitedBytes _ \<Rightarrow> True | _ \<Rightarrow> False)"

lemma parts_prepend_empty_delimiter:
  "parts (prepend_empty_delimiter m) = (if already_delimited m then parts m else [] # parts m)"
  by (cases m) (simp_all add: already_delimited_def view_simps inline_body_def)

lemma prepend_empty_delimiter_wf [wf_intros]:
  "message_wf m \<Longrightarrow> message_wf (prepend_empty_delimiter m)"
  by (cases m) (simp_all add: payload_wf_facts)

lemma prepend_empty_delimiter_routing_id: "routing_id (prepend_empty_delimiter m) = routing_id m"
  by (cases m) simp_all

lemma parts_with_prefix:
  "pre \<noteq> [] \<Longrightarrow> parts (with_prefix pre m) = pre # parts m"
  by (simp add: with_prefix_def view_simps)

lemma with_prefix_wf [wf_intros]: "message_wf m \<Longrightarrow> message_wf (with_prefix pre m)"
  by (simp add: with_prefix_def wf_intros body_parts_eq)

lemma parts_with_rep_envelope [view_simps]:
  "parts (with_rep_envelope env m) = env @ [] # parts m"
proof -
  have "map (payload_as_slice \<circ> payload_from_bytes) env = env"
    by (rule map_idI) (simp add: view_simps)
  then show ?thesis
    by (simp add: with_rep_envelope_def view_simps)
qed

lemma with_rep_envelope_wf [wf_intros]: "message_wf m \<Longrightarrow> message_wf (with_rep_envelope env m)"
  by (auto simp: with_rep_envelope_def body_parts_eq list_all_iff payload_wf_facts
      dest!: parts_payload_wf intro!: from_payloads_vec_wf)

lemma parts_push_part_payload:
  "parts (push_part_payload m p) = parts m @ [payload_as_slice p]"
  by (cases m) (simp_all add: view_simps Let_def)

lemma push_part_payload_wf [wf_intros]:
  "message_wf m \<Longrightarrow> payload_wf p \<Longrightarrow> message_wf (push_part_payload m p)"
  by (cases m) (simp_all add: payload_wf_facts Let_def)

lemma le_bytes_routed_id:
  "length xs = MAX_INLINE_ROUTED_MESSAGE \<Longrightarrow> routed_inline_id (xs @ u32_to_le_bytes r) = r"
proof -
  assume "length xs = MAX_INLINE_ROUTED_MESSAGE"
  moreover have "unat r < 256 ^ 4"
    using unsigned_less [of r, where ?'a = nat] by simp
  then have "be_val (be_bytes 4 (unat r)) = unat r"
    by (rule be_val_be_bytes_exact)
  ultimately show ?thesis
    by (simp add: routed_inline_id_def u32_to_le_bytes_def)
qed

lemma unrouted_with_routing_id:
  assumes "message_wf m" and "routing_id m = None"
  shows "parts (with_routing_id_unrouted m r) = parts m"
    and "routing_id (with_routing_id_unrouted m r) = Some r"
    and "message_wf (with_routing_id_unrouted m r)"
proof -
  have "parts (with_routing_id_unrouted m r) = parts m
    \<and> routing_id (with_routing_id_unrouted m r) = Some r
    \<and> message_wf (with_routing_id_unrouted m r)"
  proof (cases m)
    case (Inline len data)
    with assms(1) have len: "length (take MAX_INLINE_ROUTED_MESSAGE data) = MAX_INLINE_ROUTED_MESSAGE"
      "length data = MAX_INLINE_MESSAGE"
      by (simp_all add: MAX_INLINE_MESSAGE_def MAX_INLINE_ROUTED_MESSAGE_def)
    show ?thesis
    proof (cases "\<not> delimited len \<and> unat len \<le> MAX_INLINE_ROUTED_MESSAGE")
      case True
      then show ?thesis
        using len le_bytes_routed_id [OF len(1), of r]
        by (simp add: Inline inline_body_not_delimited min_def u32_to_le_bytes_def
            MAX_INLINE_MESSAGE_def MAX_INLINE_ROUTED_MESSAGE_def)
    next
      case False
      with Inline show ?thesis
        by (auto simp: view_simps payload_wf_facts inline_body_not_delimited)
    qed
  qed (use assms in \<open>simp_all add: view_simps payload_wf_facts\<close>)
  then show "parts (with_routing_id_unrouted m r) = parts m"
    and "routing_id (with_routing_id_unrouted m r) = Some r"
    and "message_wf (with_routing_id_unrouted m r)"
    by blast+
qed

lemma take_routing_id_view:
  assumes "message_wf m"
  shows "parts (fst (take_routing_id m)) = parts m"
    and "snd (take_routing_id m) = routing_id m"
    and "routing_id (fst (take_routing_id m)) = None"
    and "message_wf (fst (take_routing_id m))"
  using assms
  by (cases m; auto simp: view_simps wf_intros delimited_iff MAX_INLINE_ROUTED_MESSAGE_def
      inline_body_not_delimited strip_flag_id MAX_INLINE_MESSAGE_def from_payloads_vec_def
      split: list.split)+

lemma with_routing_id_view:
  assumes "message_wf m"
  shows "parts (with_routing_id m r) = parts m"
    and "routing_id (with_routing_id m r) = Some r"
    and "message_wf (with_routing_id m r)"
  using assms take_routing_id_view [OF assms]
  by (cases "routing_id m = None"; simp add: with_routing_id_def unrouted_with_routing_id)+

lemma max_message_size_len_exact:
  assumes "message_wf m"
    and "sum_list (map length (parts m)) + 64 * length (parts m) \<le> usize_max"
  shows "max_message_size_len m = sum_list (map length (parts m)) + 64 * length (parts m)"
  using assms
  by (simp add: max_message_size_len_def byte_len_parts msg_len_parts sat_add_def sat_mul_def
      PAYLOAD_SIZE_def mult.commute)

lemma generated_identity_inj: "generated_identity i = generated_identity j \<Longrightarrow> i = j"
proof -
  assume eq: "generated_identity i = generated_identity j"
  have val: "be_val (be_bytes 8 (unat k)) = unat k" for k :: u64
    using unsigned_less [of k, where ?'a = nat] by (intro be_val_be_bytes_exact) simp
  from eq have "be_bytes 8 (unat i) = be_bytes 8 (unat j)"
    by (simp add: generated_identity_def)
  then have "be_val (be_bytes 8 (unat i)) = be_val (be_bytes 8 (unat j))"
    by (rule arg_cong)
  then have "unat i = unat j"
    by (simp only: val)
  then show ?thesis by (rule unsigned_word_eqI)
qed

section \<open>Properties\<close>

text \<open>
  The accessors of a message agree with one list of parts, whatever the
  representation: \<^verbatim>\<open>len\<close>, \<^verbatim>\<open>byte_len\<close>, \<^verbatim>\<open>part_bytes\<close>, \<^verbatim>\<open>part_slice\<close>, \<^verbatim>\<open>iter_slices\<close>, \<^verbatim>\<open>into_parts\<close>
  and iteration all see the same parts, and messages are equal exactly when
  their parts are.
\<close>

lemma message_accessors_agree:
  assumes "message_wf m"
  shows "msg_len m = length (parts m)
    \<and> byte_len m = sum_list (map length (parts m))
    \<and> part_bytes m i = nth_opt (parts m) i
    \<and> part_slice m i = nth_opt (parts m) i
    \<and> iter_slices m = parts m
    \<and> map payload_as_slice (into_parts_payload m) = parts m
    \<and> iter_take (msg_len m) (msg_iter m) = parts m
    \<and> (message_eq m m' \<longleftrightarrow> parts m = parts m')"
  using assms by (simp add: view_simps byte_len_parts iter_yields_parts message_eq_iff)

theorem message_accessors_agree_witness:
  "message_wf (multipart [[1, 2], [], [3]])
   \<and> part_slice (multipart [[1, 2], [], [3]]) 2 = Some [3]
   \<and> byte_len (multipart [[1, 2], [], [3]]) = 3
   \<and> \<not> message_eq (multipart [[1, 2], [], [3]]) Empty"
proof -
  have wf: "message_wf (multipart [[1, 2], [], [3]])" by (rule multipart_wf)
  from message_accessors_agree [OF wf, of 2 Empty] wf show ?thesis
    by (simp add: parts_multipart nth_opt_def)
qed

text \<open>
  A server-side routing id is metadata: \<^verbatim>\<open>with_routing_id\<close> then \<^verbatim>\<open>take_routing_id\<close>
  returns the id and a message with the original parts and no id, and
  replacing an id keeps the parts.
\<close>

lemma routing_id_round_trip:
  assumes "message_wf m"
  shows "routing_id (with_routing_id m r) = Some r
    \<and> parts (with_routing_id m r) = parts m
    \<and> snd (take_routing_id (with_routing_id m r)) = Some r
    \<and> parts (fst (take_routing_id (with_routing_id m r))) = parts m
    \<and> routing_id (fst (take_routing_id (with_routing_id m r))) = None
    \<and> message_wf (fst (take_routing_id (with_routing_id m r)))"
  using with_routing_id_view [OF assms, of r]
    take_routing_id_view [OF with_routing_id_view(3) [OF assms, of r]]
  by simp

theorem routing_id_round_trip_witness:
  "message_wf (message_from_slice [7, 8])
   \<and> parts (fst (take_routing_id (with_routing_id (message_from_slice [7, 8]) 0xDEADBEEF))) = [[7, 8]]"
proof -
  have "message_wf (message_from_slice [7, 8])"
    by (simp add: message_from_slice_def wf_intros)
  with routing_id_round_trip [OF this, of "0xDEADBEEF"] show ?thesis
    by (simp add: view_simps)
qed

text \<open>
  Popping takes the first part and leaves the others, and is the inverse of
  \<^verbatim>\<open>with_prefix\<close> for a non-empty prefix; the REP envelope comes back off part by
  part, in order, up to the empty delimiter.
\<close>

lemma pop_front_undoes_prefix:
  assumes "pre \<noteq> []"
  shows "snd (pop_front (with_prefix pre m)) = Some pre
    \<and> parts (fst (pop_front (with_prefix pre m))) = parts m
    \<and> parts (with_rep_envelope env m) = env @ [] # parts m
    \<and> snd (pop_front m) = nth_opt (parts m) 0
    \<and> parts (fst (pop_front m)) = tl (parts m)"
  using assms by (simp add: pop_front_view parts_with_prefix parts_with_rep_envelope nth_opt_def)

theorem pop_front_undoes_prefix_witness:
  "[9 :: u8] \<noteq> [] \<and> snd (pop_front (with_prefix [9] (multipart [[1], [2]]))) = Some [9]"
  using pop_front_undoes_prefix [of "[9]" "multipart [[1], [2]]" "[]"] by simp

text \<open>
  \<^verbatim>\<open>prepend_empty_delimiter\<close> adds an empty first part, except that a message
  already stored in one of the two delimited representations is returned
  unchanged: two prepends on a short message add one delimiter, not two, while
  the same two parts held as a general multipart message do get the second.
\<close>

lemma prepend_empty_delimiter_exact:
  "parts (prepend_empty_delimiter m) = (if already_delimited m then parts m else [] # parts m)
   \<and> parts (prepend_empty_delimiter (prepend_empty_delimiter (message_from_slice [1]))) = [[], [1]]
   \<and> parts (prepend_empty_delimiter (multipart [[], [1]])) = [[], [], [1]]"
proof -
  have "parts (prepend_empty_delimiter (prepend_empty_delimiter (message_from_slice [1]))) = [[], [1]]"
    by code_simp
  moreover have "parts (prepend_empty_delimiter (multipart [[], [1]])) = [[], [], [1]]"
    by code_simp
  ultimately show ?thesis by (simp add: parts_prepend_empty_delimiter)
qed

text \<open>
  The messages a sequence of operations can produce, with what the sequence alone says
  about the result: its parts, its routing id, and whether the last thing that
  happened to its parts was an empty delimiter put before a single one.  The excluded
  step, a second delimiter right on top of such a first one, is the one for which the
  operation is known to add nothing.
\<close>

inductive built :: "message \<Rightarrow> bytes list \<Rightarrow> u32 option \<Rightarrow> bool \<Rightarrow> bool" where
  built_new: "built message_new [] None False"
| built_single: "built (single b) [b] None False"
| built_slice: "built (message_from_slice b) [b] None False"
| built_payload: "payload_wf p \<Longrightarrow> built (from_payload p) [payload_as_slice p] None False"
| built_multipart: "built (multipart ps) ps None False"
| built_group: "built (with_group g b) [g, b] None False"
| built_push: "built m ps r d \<Longrightarrow> payload_wf p \<Longrightarrow> built (push_part_payload m p) (ps @ [payload_as_slice p]) r False"
| built_pop: "built m ps r d \<Longrightarrow> built (fst (pop_front m)) (tl ps) None False"
| built_delimiter: "built m ps r False \<Longrightarrow> built (prepend_empty_delimiter m) ([] # ps) r (length ps = 1)"
| built_prefix: "built m ps r d \<Longrightarrow> pre \<noteq> [] \<Longrightarrow> built (with_prefix pre m) (pre # ps) None False"
| built_empty_prefix: "built m ps r False \<Longrightarrow> built (with_prefix [] m) ([] # ps) r (length ps = 1)"
| built_envelope: "built m ps r d \<Longrightarrow> built (with_rep_envelope env m) (env @ [] # ps) None False"
| built_route: "built m ps r d \<Longrightarrow> built (with_routing_id m q) ps (Some q) d"
| built_unroute: "built m ps r d \<Longrightarrow> built (fst (take_routing_id m)) ps None d"

text \<open>When a representation stands for a stored delimiter, and when it is recognised as empty.\<close>

lemma from_payloads_vec_stored:
  "\<not> already_delimited (from_payloads_vec ps)" "routing_id (from_payloads_vec ps) = None"
  "msg_is_empty (from_payloads_vec ps) \<longleftrightarrow> ps = []"
  by (auto simp: from_payloads_vec_def already_delimited_def message_new_def split: list.splits)

lemma multipart_stored:
  "\<not> already_delimited (multipart ps)" "routing_id (multipart ps) = None" "msg_is_empty (multipart ps) \<longleftrightarrow> ps = []"
  by (simp_all add: multipart_from_vec from_payloads_vec_stored)

lemma single_stored:
  "\<not> already_delimited (single b)" "routing_id (single b) = None" "\<not> msg_is_empty (single b)"
  "\<not> already_delimited (message_from_slice b)" "routing_id (message_from_slice b) = None" "\<not> msg_is_empty (message_from_slice b)"
  by (simp_all add: single_def message_from_slice_def from_inline_def from_payload_def already_delimited_def of_nat_small_len
      MAX_INLINE_MESSAGE_def)

lemma push_stored:
  "\<not> already_delimited (push_part_payload m p)" "routing_id (push_part_payload m p) = routing_id m"
  "\<not> msg_is_empty (push_part_payload m p)"
  by (cases m; simp add: already_delimited_def Let_def)+

lemma pop_stored:
  "\<not> already_delimited (fst (pop_front m))" "routing_id (fst (pop_front m)) = None"
  "msg_is_empty (fst (pop_front m)) \<longleftrightarrow> parts (fst (pop_front m)) = []"
  by (cases m; auto simp: already_delimited_def from_payloads_vec_def message_new_def split: list.splits)+

lemma delimiter_stored:
  "already_delimited (prepend_empty_delimiter m) \<Longrightarrow> \<not> already_delimited m \<Longrightarrow> length (parts m) = 1"
  "\<not> msg_is_empty (prepend_empty_delimiter m)"
  by (cases m; simp add: already_delimited_def)+

lemma with_prefix_stored:
  "pre \<noteq> [] \<Longrightarrow> \<not> already_delimited (with_prefix pre m) \<and> routing_id (with_prefix pre m) = None \<and> \<not> msg_is_empty (with_prefix pre m)"
  by (simp add: with_prefix_def already_delimited_def)

lemma route_stored:
  assumes "message_wf m"
  shows "\<not> already_delimited (with_routing_id m q)" "already_delimited (fst (take_routing_id m)) \<Longrightarrow> already_delimited m"
    and "msg_is_empty m \<longleftrightarrow> parts m = [] \<Longrightarrow> msg_is_empty (fst (take_routing_id m)) \<longleftrightarrow> parts m = []"
    and "msg_is_empty m \<longleftrightarrow> parts m = [] \<Longrightarrow> msg_is_empty (with_routing_id m q) \<longleftrightarrow> parts m = []"
proof -
  have u: "\<not> already_delimited (with_routing_id_unrouted n q)" "msg_is_empty (with_routing_id_unrouted n q) \<longleftrightarrow> n = Empty"
    if "routing_id n = None" for n
    using that by (cases n; simp add: already_delimited_def)+
  show t: "already_delimited (fst (take_routing_id m)) \<Longrightarrow> already_delimited m"
    using assms by (cases m) (auto simp: already_delimited_def from_payloads_vec_def message_new_def delimited_iff
        MAX_INLINE_ROUTED_MESSAGE_def split: list.splits)
  show e: "msg_is_empty (fst (take_routing_id m)) \<longleftrightarrow> parts m = []" if "msg_is_empty m \<longleftrightarrow> parts m = []"
    using that by (cases m) (auto simp: from_payloads_vec_stored)
  have n: "routing_id (if routing_id m \<noteq> None then fst (take_routing_id m) else m) = None"
    using take_routing_id_view(3) [OF assms] by simp
  show "\<not> already_delimited (with_routing_id m q)" using u(1) [OF n] by (simp add: with_routing_id_def)
  show "msg_is_empty (with_routing_id m q) \<longleftrightarrow> parts m = []" if "msg_is_empty m \<longleftrightarrow> parts m = []"
  proof -
    have "x = Empty \<longleftrightarrow> msg_is_empty x" if "routing_id x = None" for x using that by (cases x) simp_all
    then show ?thesis using u(2) [OF n] n e that by (simp add: with_routing_id_def split: if_splits)
  qed
qed

lemmas stored_simps = from_payloads_vec_stored multipart_stored single_stored push_stored pop_stored delimiter_stored
  with_prefix_stored

lemma built_inv:
  "built m ps r d \<Longrightarrow> message_wf m \<and> parts m = ps \<and> routing_id m = r \<and> (already_delimited m \<longrightarrow> d) \<and>
     (msg_is_empty m \<longleftrightarrow> ps = [])"
proof (induction rule: built.induct)
  case built_new
  then show ?case by (simp add: message_new_def already_delimited_def)
next
  case (built_payload p)
  then show ?case by (simp add: from_payload_def already_delimited_def)
next
  case (built_slice b)
  have "message_wf (message_from_slice b)" by (simp add: message_from_slice_def wf_intros)
  then show ?case by (simp add: view_simps stored_simps)
next
  case (built_delimiter m ps r)
  then show ?case using delimiter_stored [of m]
    by (auto simp: parts_prepend_empty_delimiter prepend_empty_delimiter_routing_id wf_intros)
next
  case (built_empty_prefix m ps r)
  then show ?case using delimiter_stored [of m]
    by (auto simp: with_prefix_def parts_prepend_empty_delimiter prepend_empty_delimiter_routing_id wf_intros)
next
  case (built_envelope m ps r d env)
  then show ?case
    by (simp add: view_simps wf_intros) (simp add: with_rep_envelope_def from_payloads_vec_stored)
next
  case (built_route m ps r d q)
  then show ?case using with_routing_id_view [of m] route_stored [of m] by auto
next
  case (built_unroute m ps r d)
  then show ?case using take_routing_id_view [of m] route_stored [of m] by auto
qed (auto simp: view_simps wf_intros with_group_def parts_push_part_payload pop_front_view parts_with_prefix stored_simps)

text \<open>
  C22.  Representations are well typed.  Every message that a sequence of constructors,
  pushes, pops, delimiters, prefixes, envelopes and routing ids produces is well
  formed: its inline lengths fit the inline buffers and its payloads fit theirs.
  It stands for exactly the parts the sequence calls for, which is what its length,
  byte length, emptiness test, indexed access by bytes and by slice, iterator, slices,
  fixed-size conversion, payloads and first part say, and it carries the routing id
  set last, unless a later pop, non-empty prefix or envelope made a new
  message.  The sequences leave out a delimiter put on a message that was just
  delimited, where none is added.
\<close>

theorem message_type_safe:
  assumes "built m ps r d"
  shows "message_wf m \<and> list_all payload_wf (into_parts_payload m) \<and> routing_id m = r \<and> parts m = ps \<and>
    msg_len m = length ps \<and> (msg_is_empty m \<longleftrightarrow> ps = []) \<and> byte_len m = sum_list (map length ps) \<and>
    (\<forall>i. part_bytes m i = nth_opt ps i \<and> part_slice m i = nth_opt ps i) \<and> iter_slices m = ps \<and>
    iter_take (Suc (length ps)) (msg_iter m) = ps \<and> map payload_as_slice (into_parts_payload m) = ps \<and>
    try_as_parts n m = (if n = length ps then Inr (map Some ps) else Inl (PartCountError n (length ps))) \<and>
    snd (pop_front m) = nth_opt ps 0 \<and> snd (take_routing_id m) = r"
  using built_inv [OF assms] parts_payload_wf [of m] try_as_parts_ok [of m] try_as_parts_err [of n m]
    iter_yields_parts [of m "Suc (length ps)"] take_routing_id_view(2) [of m] parts_payload_view [of m]
  by (auto simp: msg_len_parts byte_len_parts part_bytes_parts part_slice_parts iter_slices_parts into_parts_payload_eq
      pop_front_view)

theorem message_type_safe_witness:
  "built (with_routing_id (with_prefix [] (fst (pop_front (with_prefix [9] (multipart [[1]]))))) 7) [[], [1]] (Some 7) True \<and>
   routing_id (with_routing_id (with_prefix [] (fst (pop_front (with_prefix [9] (multipart [[1]]))))) 7) = Some 7"
proof -
  let ?m = "fst (pop_front (with_prefix [9] (multipart [[1]])))"
  have "built (with_prefix [9] (multipart [[1]])) [[9], [1]] None False"
    by (rule built_prefix [OF built_multipart]) simp
  from built_pop [OF this] have "built ?m [[1]] None False" by simp
  from built_route [OF built_empty_prefix [OF this], of 7]
  have b: "built (with_routing_id (with_prefix [] ?m) 7) [[], [1]] (Some 7) True" by simp
  then show ?thesis using message_type_safe [OF b] by blast
qed

end
