(* ===== verification/Chunked_Buf.thy ===== *)
theory Chunked_Buf
  imports Message
begin

text \<open>
  The codec's inbound buffer, \<^verbatim>\<open>omq-proto/src/proto/chunked_buf.rs\<close>: a queue of owned
  chunks with a partly consumed front chunk.  \<open>cb_flat\<close> is the byte string it
  stands for.  The loops that consume chunks do not return in the source when
  they run out of chunks with bytes still owed; here that is \<open>None\<close>, and under
  the invariant with \<open>n \<le> cb_len b\<close> they return.
\<close>

section \<open>State and operations\<close>

record chunked_buf =
  cb_front :: bytes
  cb_rest :: "bytes list"
  cb_total :: nat
  cb_offset :: nat

definition cb_new :: chunked_buf where
  "cb_new = \<lparr>cb_front = [], cb_rest = [], cb_total = 0, cb_offset = 0\<rparr>"

definition cb_push :: "chunked_buf \<Rightarrow> bytes \<Rightarrow> chunked_buf" where
  "cb_push b chunk =
     (if chunk = [] then b
      else let b = b\<lparr>cb_total := cb_total b + length chunk\<rparr>
        in if length (cb_front b) \<le> cb_offset b
           then b\<lparr>cb_front := chunk, cb_offset := 0\<rparr>
           else b\<lparr>cb_rest := cb_rest b @ [chunk]\<rparr>)"

definition cb_len :: "chunked_buf \<Rightarrow> nat" where
  "cb_len b = cb_total b"

text \<open>A zero-initialised array of \<open>n\<close> bytes, its head overwritten by \<open>xs\<close>.\<close>

definition fill_array :: "nat \<Rightarrow> bytes \<Rightarrow> bytes" where
  "fill_array n xs = xs @ replicate (n - length xs) 0"

fun peek_loop :: "nat \<Rightarrow> bytes \<Rightarrow> bytes list \<Rightarrow> bytes" where
  "peek_loop n out [] = out"
| "peek_loop n out (c # cs) =
     (let out' = take n (out @ c) in if length out' = n then out' else peek_loop n out' cs)"

definition peek_array :: "nat \<Rightarrow> chunked_buf \<Rightarrow> bytes option" where
  "peek_array n b =
     (if cb_total b < n then None
      else let front_remaining = drop (cb_offset b) (cb_front b)
        in if n \<le> length front_remaining then Some (take n front_remaining)
           else Some (fill_array n (peek_loop n [] (front_remaining # cb_rest b))))"

fun peek_at_loop :: "nat \<Rightarrow> nat \<Rightarrow> nat \<Rightarrow> bytes \<Rightarrow> bytes list \<Rightarrow> bytes" where
  "peek_at_loop n offset skipped out [] = out"
| "peek_at_loop n offset skipped out (c # cs) =
     (if skipped + length c \<le> offset then peek_at_loop n offset (skipped + length c) out cs
      else let out' = take n (out @ drop (offset - skipped) c)
        in if length out' = n then out'
           else peek_at_loop n offset (skipped + length c) out' cs)"

definition peek_array_at :: "nat \<Rightarrow> nat \<Rightarrow> chunked_buf \<Rightarrow> bytes option" where
  "peek_array_at n offset b =
     (if cb_total b < offset + n then None
      else Some (fill_array n
        (peek_at_loop n offset 0 [] (drop (cb_offset b) (cb_front b) # cb_rest b))))"

definition advance_front :: "chunked_buf \<Rightarrow> chunked_buf" where
  "advance_front b =
     (case cb_rest b of
        c # cs \<Rightarrow> b\<lparr>cb_front := c, cb_rest := cs, cb_offset := 0\<rparr>
      | [] \<Rightarrow> b\<lparr>cb_front := [], cb_offset := 0\<rparr>)"

text \<open>
  The loops of \<^verbatim>\<open>advance\<close>, \<^verbatim>\<open>read_into\<close> and \<^verbatim>\<open>split_to\<close>, over the front chunk, the chunks
  behind it and the offset.
\<close>

fun advance_loop :: "nat \<Rightarrow> bytes \<Rightarrow> nat \<Rightarrow> bytes list \<Rightarrow> (bytes \<times> nat \<times> bytes list) option" where
  "advance_loop n front off rest =
     (if n = 0 then Some (front, off, rest)
      else if length front - off \<le> n then
        (case rest of
           c # cs \<Rightarrow> advance_loop (n - (length front - off)) c 0 cs
         | [] \<Rightarrow> if n - (length front - off) = 0 then Some ([], 0, []) else None)
      else Some (front, off + n, rest))"

definition set_chunks :: "chunked_buf \<Rightarrow> bytes \<times> nat \<times> bytes list \<Rightarrow> chunked_buf" where
  "set_chunks b r = (case r of (front, off, rest) \<Rightarrow>
     b\<lparr>cb_front := front, cb_offset := off, cb_rest := rest\<rparr>)"

definition cb_advance :: "nat \<Rightarrow> chunked_buf \<Rightarrow> chunked_buf" where
  "cb_advance n b =
     (let b = b\<lparr>cb_total := cb_total b - n\<rparr>
      in case advance_loop n (cb_front b) (cb_offset b) (cb_rest b) of
           Some r \<Rightarrow> set_chunks b r
         | None \<Rightarrow> b)"

text \<open>Copy \<open>n\<close> bytes out and consume them; the bytes come back as the result.\<close>

fun read_loop ::
  "nat \<Rightarrow> bytes \<Rightarrow> bytes \<Rightarrow> nat \<Rightarrow> bytes list \<Rightarrow> (bytes \<times> bytes \<times> nat \<times> bytes list) option" where
  "read_loop remaining out front off rest =
     (if remaining = 0 then Some (out, front, off, rest)
      else let avail = length front - off; tk = min remaining avail;
               out' = out @ take tk (drop off front)
        in if avail \<le> tk then
             (case rest of
                c # cs \<Rightarrow> read_loop (remaining - tk) out' c 0 cs
              | [] \<Rightarrow> if remaining - tk = 0 then Some (out', [], 0, []) else None)
           else Some (out', front, off + tk, rest))"

definition read_into :: "nat \<Rightarrow> chunked_buf \<Rightarrow> bytes \<times> chunked_buf" where
  "read_into n b =
     (if n = 0 then ([], b)
      else let b = b\<lparr>cb_total := cb_total b - n\<rparr>; avail = length (cb_front b) - cb_offset b
        in if n \<le> avail then
             (let out = take n (drop (cb_offset b) (cb_front b));
                  b = b\<lparr>cb_offset := cb_offset b + n\<rparr>
              in (out, if length (cb_front b) \<le> cb_offset b then advance_front b else b))
           else (case read_loop n [] (cb_front b) (cb_offset b) (cb_rest b) of
                   Some (out, r) \<Rightarrow> (out, set_chunks b r)
                 | None \<Rightarrow> ([], b)))"

fun split_loop :: "nat \<Rightarrow> bytes \<Rightarrow> bytes \<Rightarrow> bytes list \<Rightarrow> (bytes \<times> bytes \<times> nat \<times> bytes list) option" where
  "split_loop remaining out front rest =
     (if remaining = 0 then Some (out, front, 0, rest)
      else if length front \<le> remaining then
        (case rest of
           c # cs \<Rightarrow> split_loop (remaining - length front) (out @ front) c cs
         | [] \<Rightarrow> if remaining - length front = 0 then Some (out @ front, [], 0, []) else None)
      else Some (out @ take remaining front, front, remaining, rest))"

definition split_to :: "nat \<Rightarrow> chunked_buf \<Rightarrow> payload \<times> chunked_buf" where
  "split_to n b =
     (if n = 0 then (payload_new, b)
      else let b = b\<lparr>cb_total := cb_total b - n\<rparr>; avail = length (cb_front b) - cb_offset b
        in if n \<le> avail then
             (let sl = take n (drop (cb_offset b) (cb_front b));
                  pl = (if n \<le> MAX_INLINE_PAYLOAD then payload_inline sl else payload_from_bytes sl);
                  b = b\<lparr>cb_offset := cb_offset b + n\<rparr>
              in (pl, if length (cb_front b) \<le> cb_offset b then advance_front b else b))
           else
             (let buf = drop (cb_offset b) (cb_front b); b1 = advance_front b
              in case split_loop (n - avail) buf (cb_front b1) (cb_rest b1) of
                   Some (out, r) \<Rightarrow>
                     (if n \<le> MAX_INLINE_PAYLOAD then payload_inline out else payload_from_bytes out,
                      set_chunks b1 r)
                 | None \<Rightarrow> (payload_new, b1)))"

section \<open>Flat view and invariant\<close>

definition cb_flat :: "chunked_buf \<Rightarrow> bytes" where
  "cb_flat b = drop (cb_offset b) (cb_front b) @ concat (cb_rest b)"

definition chunks_wf :: "bytes \<Rightarrow> nat \<Rightarrow> bytes list \<Rightarrow> bool" where
  "chunks_wf front off rest \<longleftrightarrow>
     off \<le> length front \<and> (\<forall>c \<in> set rest. c \<noteq> []) \<and> (rest \<noteq> [] \<longrightarrow> off < length front)"

definition cb_wf :: "chunked_buf \<Rightarrow> bool" where
  "cb_wf b \<longleftrightarrow> chunks_wf (cb_front b) (cb_offset b) (cb_rest b) \<and> cb_total b = length (cb_flat b)"

lemma cb_new_wf [wf_intros]: "cb_wf cb_new"
  by (simp add: cb_wf_def cb_new_def chunks_wf_def cb_flat_def)

lemma cb_new_flat [simp]: "cb_flat cb_new = []"
  by (simp add: cb_new_def cb_flat_def)

lemma cb_len_flat: "cb_wf b \<Longrightarrow> cb_len b = length (cb_flat b)"
  by (simp add: cb_wf_def cb_len_def)

lemma cb_push_flat: "cb_wf b \<Longrightarrow> cb_flat (cb_push b c) = cb_flat b @ c"
  by (auto simp: cb_push_def cb_flat_def cb_wf_def chunks_wf_def Let_def)

lemma cb_push_wf [wf_intros]: "cb_wf b \<Longrightarrow> cb_wf (cb_push b c)"
  by (auto simp: cb_push_def cb_flat_def cb_wf_def chunks_wf_def Let_def)

subsection \<open>Peeking\<close>

lemma peek_loop_eq: "length out < n \<Longrightarrow> peek_loop n out cs = take n (out @ concat cs)"
proof (induction cs arbitrary: out)
  case Nil
  then show ?case by simp
next
  case (Cons c cs)
  show ?case
  proof (cases "n \<le> length (out @ c)")
    case True
    then show ?thesis using Cons.prems by (simp add: Let_def)
  next
    case False
    with Cons.IH [of "out @ c"] show ?thesis by (simp add: Let_def)
  qed
qed

lemma peek_at_loop_late:
  "offset \<le> skipped \<Longrightarrow> length out < n \<Longrightarrow>
     peek_at_loop n offset skipped out cs = take n (out @ concat cs)"
proof (induction cs arbitrary: out skipped)
  case Nil
  then show ?case by simp
next
  case (Cons c cs)
  show ?case
  proof (cases "skipped + length c \<le> offset")
    case True
    with Cons.prems have "length c = 0" "skipped = offset" by linarith+
    with Cons show ?thesis by simp
  next
    case False
    show ?thesis
    proof (cases "n \<le> length (out @ c)")
      case True
      with False Cons.prems show ?thesis by (simp add: Let_def)
    next
      case short: False
      then have "take n (out @ c) = out @ c" by simp
      with False short Cons.prems Cons.IH [of "skipped + length c" "out @ c"] show ?thesis
        by (simp add: Let_def)
    qed
  qed
qed

lemma peek_at_loop_eq:
  "skipped \<le> offset \<Longrightarrow> 0 < n \<Longrightarrow>
     peek_at_loop n offset skipped [] cs = take n (drop (offset - skipped) (concat cs))"
proof (induction cs arbitrary: skipped)
  case Nil
  then show ?case by simp
next
  case (Cons c cs)
  show ?case
  proof (cases "skipped + length c \<le> offset")
    case True
    with Cons show ?thesis by simp
  next
    case False
    define out where "out = take n (drop (offset - skipped) c)"
    have "peek_at_loop n offset skipped [] (c # cs)
        = (if length out = n then out else peek_at_loop n offset (skipped + length c) out cs)"
      using False by (simp add: out_def Let_def)
    also have "\<dots> = take n (drop (offset - skipped) (c @ concat cs))"
    proof (cases "length out = n")
      case True
      with False show ?thesis by (simp add: out_def)
    next
      case short: False
      then have "out = drop (offset - skipped) c" "length out < n"
        by (auto simp: out_def)
      with False short show ?thesis
        by (simp add: peek_at_loop_late)
    qed
    finally show ?thesis by simp
  qed
qed

lemma fill_array_exact: "length xs = n \<Longrightarrow> fill_array n xs = xs"
  by (simp add: fill_array_def)

lemma peek_array_flat:
  assumes "cb_wf b"
  shows "peek_array n b = (if n \<le> length (cb_flat b) then Some (take n (cb_flat b)) else None)"
proof -
  let ?f = "drop (cb_offset b) (cb_front b)"
  have flat: "cb_total b = length (cb_flat b)" "cb_flat b = concat (?f # cb_rest b)"
    using assms by (simp_all add: cb_wf_def cb_flat_def)
  show ?thesis
  proof (cases "n \<le> length ?f")
    case True
    then show ?thesis by (simp add: peek_array_def flat)
  next
    case False
    then have "peek_loop n [] (?f # cb_rest b) = take n (cb_flat b)"
      unfolding flat(2) by (subst peek_loop_eq) auto
    with False show ?thesis
      by (simp add: peek_array_def flat(1) fill_array_exact Let_def del: peek_loop.simps)
  qed
qed

lemma peek_array_at_flat:
  assumes "cb_wf b" "0 < n"
  shows "peek_array_at n offset b =
     (if offset + n \<le> length (cb_flat b) then Some (take n (drop offset (cb_flat b))) else None)"
proof -
  let ?f = "drop (cb_offset b) (cb_front b)"
  have flat: "cb_total b = length (cb_flat b)" "cb_flat b = concat (?f # cb_rest b)"
    using assms by (simp_all add: cb_wf_def cb_flat_def)
  have "peek_at_loop n offset 0 [] (?f # cb_rest b) = take n (drop offset (cb_flat b))"
    unfolding flat(2) using assms(2) by (subst peek_at_loop_eq) auto
  then show ?thesis
    by (simp add: peek_array_at_def flat(1) fill_array_exact del: peek_at_loop.simps)
qed

subsection \<open>Consuming\<close>

declare advance_loop.simps [simp del] read_loop.simps [simp del] split_loop.simps [simp del]

text \<open>
  Each loop returns when the chunks hold the bytes asked for, and leaves the
  bytes behind them.
\<close>

definition chunks_flat :: "bytes \<times> nat \<times> bytes list \<Rightarrow> bytes" where
  "chunks_flat r = (case r of (front, off, rest) \<Rightarrow> drop off front @ concat rest)"

lemma advance_loop_step:
  "0 < n \<Longrightarrow> length front - off \<le> n \<Longrightarrow>
     advance_loop n front off (c # cs) = advance_loop (n - (length front - off)) c 0 cs"
  by (subst advance_loop.simps) simp

lemma advance_loop_stop:
  "0 < n \<Longrightarrow> length front - off = n \<Longrightarrow> advance_loop n front off [] = Some ([], 0, [])"
  "n < length front - off \<Longrightarrow> advance_loop n front off rest = Some (front, off + n, rest)"
  "advance_loop 0 front off rest = Some (front, off, rest)"
  by (subst advance_loop.simps, simp)+

lemma advance_loop_returns:
  "chunks_wf front off rest \<Longrightarrow> n \<le> length (chunks_flat (front, off, rest)) \<Longrightarrow>
     \<exists>front' off' rest'. advance_loop n front off rest = Some (front', off', rest')
       \<and> chunks_wf front' off' rest'
       \<and> chunks_flat (front', off', rest') = drop n (chunks_flat (front, off, rest))"
proof (induction rest arbitrary: n front off)
  case Nil
  then consider "n = 0" | "0 < n" "length front - off = n" | "n < length front - off"
    by (fastforce simp: chunks_flat_def)
  then show ?case
    using Nil by cases (auto simp: advance_loop_stop chunks_wf_def chunks_flat_def add.commute)
next
  case (Cons c cs)
  consider "n = 0" | "0 < n" "length front - off \<le> n" | "n < length front - off" by linarith
  then show ?case
  proof cases
    case 2
    let ?m = "n - (length front - off)"
    have "chunks_wf c 0 cs" "?m \<le> length (chunks_flat (c, 0, cs))"
      using Cons.prems 2 by (auto simp: chunks_wf_def chunks_flat_def)
    from Cons.IH [OF this] 2 show ?thesis
      by (simp add: advance_loop_step chunks_flat_def)
  qed (use Cons.prems in \<open>auto simp: advance_loop_stop chunks_wf_def chunks_flat_def add.commute\<close>)
qed

lemma read_loop_step:
  "0 < n \<Longrightarrow> length front - off \<le> n \<Longrightarrow>
     read_loop n out front off (c # cs)
       = read_loop (n - (length front - off)) (out @ drop off front) c 0 cs"
  by (subst read_loop.simps) (simp add: Let_def min.absorb2)

lemma read_loop_stop:
  "0 < n \<Longrightarrow> length front - off = n \<Longrightarrow>
     read_loop n out front off [] = Some (out @ drop off front, [], 0, [])"
  "n < length front - off \<Longrightarrow>
     read_loop n out front off rest = Some (out @ take n (drop off front), front, off + n, rest)"
  "read_loop 0 out front off rest = Some (out, front, off, rest)"
  by (subst read_loop.simps, simp add: Let_def min.absorb1)+

lemma read_loop_returns:
  "chunks_wf front off rest \<Longrightarrow> n \<le> length (chunks_flat (front, off, rest)) \<Longrightarrow>
     \<exists>front' off' rest'. read_loop n out front off rest
         = Some (out @ take n (chunks_flat (front, off, rest)), front', off', rest')
       \<and> chunks_wf front' off' rest'
       \<and> chunks_flat (front', off', rest') = drop n (chunks_flat (front, off, rest))"
proof (induction rest arbitrary: n front off out)
  case Nil
  then consider "n = 0" | "0 < n" "length front - off = n" | "n < length front - off"
    by (fastforce simp: chunks_flat_def)
  then show ?case
    using Nil by cases (auto simp: read_loop_stop chunks_wf_def chunks_flat_def add.commute)
next
  case (Cons c cs)
  consider "n = 0" | "0 < n" "length front - off \<le> n" | "n < length front - off" by linarith
  then show ?case
  proof cases
    case 2
    let ?m = "n - (length front - off)"
    have "chunks_wf c 0 cs" "?m \<le> length (chunks_flat (c, 0, cs))"
      using Cons.prems 2 by (auto simp: chunks_wf_def chunks_flat_def)
    from Cons.IH [OF this, of "out @ drop off front"] 2 show ?thesis
      by (simp add: read_loop_step chunks_flat_def)
  qed (use Cons.prems in \<open>auto simp: read_loop_stop chunks_wf_def chunks_flat_def add.commute\<close>)
qed

lemma split_loop_step:
  "0 < n \<Longrightarrow> length front \<le> n \<Longrightarrow>
     split_loop n out front (c # cs) = split_loop (n - length front) (out @ front) c cs"
  by (subst split_loop.simps) simp

lemma split_loop_stop:
  "0 < n \<Longrightarrow> length front = n \<Longrightarrow> split_loop n out front [] = Some (out @ front, [], 0, [])"
  "0 < n \<Longrightarrow> n < length front \<Longrightarrow>
     split_loop n out front rest = Some (out @ take n front, front, n, rest)"
  "split_loop 0 out front rest = Some (out, front, 0, rest)"
  by (subst split_loop.simps, simp)+

lemma split_loop_returns:
  "chunks_wf front 0 rest \<Longrightarrow> n \<le> length (chunks_flat (front, 0, rest)) \<Longrightarrow>
     \<exists>front' off' rest'. split_loop n out front rest
         = Some (out @ take n (chunks_flat (front, 0, rest)), front', off', rest')
       \<and> chunks_wf front' off' rest'
       \<and> chunks_flat (front', off', rest') = drop n (chunks_flat (front, 0, rest))"
proof (induction rest arbitrary: n front out)
  case Nil
  then consider "n = 0" | "0 < n" "length front = n" | "0 < n" "n < length front"
    by (fastforce simp: chunks_flat_def)
  then show ?case
    using Nil by cases (auto simp: split_loop_stop chunks_wf_def chunks_flat_def)
next
  case (Cons c cs)
  consider "n = 0" | "0 < n" "length front \<le> n" | "0 < n" "n < length front" by linarith
  then show ?case
  proof cases
    case 2
    let ?m = "n - length front"
    have "chunks_wf c 0 cs" "?m \<le> length (chunks_flat (c, 0, cs))"
      using Cons.prems 2 by (auto simp: chunks_wf_def chunks_flat_def)
    from Cons.IH [OF this, of "out @ front"] 2 show ?thesis
      by (simp add: split_loop_step chunks_flat_def)
  qed (use Cons.prems in \<open>auto simp: split_loop_stop chunks_wf_def chunks_flat_def\<close>)
qed

lemma cb_wf_chunks:
  "cb_wf b \<longleftrightarrow> chunks_wf (cb_front b) (cb_offset b) (cb_rest b)
     \<and> cb_total b = length (chunks_flat (cb_front b, cb_offset b, cb_rest b))"
  by (simp add: cb_wf_def cb_flat_def chunks_flat_def)

lemma set_chunks_flat: "cb_flat (set_chunks b r) = chunks_flat r"
  by (cases r) (simp add: set_chunks_def cb_flat_def chunks_flat_def)

lemma set_chunks_wf:
  "chunks_wf front off rest \<Longrightarrow> cb_total b = length (chunks_flat (front, off, rest)) \<Longrightarrow>
     cb_wf (set_chunks b (front, off, rest))"
  by (simp add: set_chunks_def cb_wf_chunks)

lemma cb_flat_chunks: "cb_flat b = chunks_flat (cb_front b, cb_offset b, cb_rest b)"
  by (simp add: cb_flat_def chunks_flat_def)

lemma cb_advance_refines:
  assumes "cb_wf b" "n \<le> length (cb_flat b)"
  shows "cb_flat (cb_advance n b) = drop n (cb_flat b) \<and> cb_wf (cb_advance n b)"
proof -
  from assms obtain f off r where
    r: "advance_loop n (cb_front b) (cb_offset b) (cb_rest b) = Some (f, off, r)"
       "chunks_wf f off r" "chunks_flat (f, off, r) = drop n (cb_flat b)"
    using advance_loop_returns [of "cb_front b" "cb_offset b" "cb_rest b" n]
    unfolding cb_wf_chunks cb_flat_chunks by blast
  from r(3) assms have "length (chunks_flat (f, off, r)) = cb_total b - n"
    by (simp add: cb_wf_def)
  with r show ?thesis
    by (simp add: cb_advance_def Let_def set_chunks_flat set_chunks_wf)
qed

lemma advance_front_exact:
  assumes "\<forall>c \<in> set (cb_rest b). c \<noteq> []" "cb_total b = length (concat (cb_rest b))"
  shows "cb_flat (advance_front b) = concat (cb_rest b) \<and> cb_wf (advance_front b)"
  using assms by (auto simp: advance_front_def cb_flat_def cb_wf_def chunks_wf_def split: list.split)

text \<open>The fast path shared by \<^verbatim>\<open>read_into\<close> and \<^verbatim>\<open>split_to\<close>: the front chunk has all the bytes.\<close>

lemma consume_front:
  fixes b :: chunked_buf
  assumes wf: "cb_wf b" and n: "n \<le> length (cb_front b) - cb_offset b"
  defines "b' \<equiv> b\<lparr>cb_total := cb_total b - n, cb_offset := cb_offset b + n\<rparr>"
  defines "b'' \<equiv> (if length (cb_front b) \<le> cb_offset b + n then advance_front b' else b')"
  shows "cb_flat b'' = drop n (cb_flat b) \<and> cb_wf b''"
    "take n (drop (cb_offset b) (cb_front b)) = take n (cb_flat b)"
proof -
  show "take n (drop (cb_offset b) (cb_front b)) = take n (cb_flat b)"
    using n by (simp add: cb_flat_def)
  from wf have facts: "cb_offset b \<le> length (cb_front b)" "\<forall>c \<in> set (cb_rest b). c \<noteq> []"
    and total: "cb_total b = length (cb_front b) - cb_offset b + length (concat (cb_rest b))"
    by (simp_all add: cb_wf_def chunks_wf_def cb_flat_def)
  show "cb_flat b'' = drop n (cb_flat b) \<and> cb_wf b''"
  proof (cases "length (cb_front b) \<le> cb_offset b + n")
    case True
    with n facts have n_eq: "n = length (cb_front b) - cb_offset b" by linarith
    have "cb_total b' = length (concat (cb_rest b'))"
      unfolding b'_def n_eq by (simp add: total)
    then have "cb_flat (advance_front b') = concat (cb_rest b') \<and> cb_wf (advance_front b')"
      using facts by (intro advance_front_exact) (simp_all add: b'_def)
    then show ?thesis
      using True by (simp add: b''_def b'_def n_eq cb_flat_def)
  next
    case False
    then have "cb_flat b' = drop n (cb_flat b)"
      by (simp add: b'_def cb_flat_def add.commute)
    with False facts total show ?thesis
      by (simp add: b''_def cb_wf_def chunks_wf_def) (simp add: b'_def cb_flat_def)
  qed
qed

lemma read_into_refines:
  assumes wf: "cb_wf b" and n: "n \<le> length (cb_flat b)"
  shows "fst (read_into n b) = take n (cb_flat b) \<and> cb_flat (snd (read_into n b)) = drop n (cb_flat b)
      \<and> cb_wf (snd (read_into n b))"
proof (cases "n = 0 \<or> n \<le> length (cb_front b) - cb_offset b")
  case True
  with wf consume_front [OF wf, of n] show ?thesis
    by (auto simp: read_into_def Let_def)
next
  case False
  from wf n obtain f off r where
    r: "read_loop n [] (cb_front b) (cb_offset b) (cb_rest b) = Some (take n (cb_flat b), f, off, r)"
       "chunks_wf f off r" "chunks_flat (f, off, r) = drop n (cb_flat b)"
    using read_loop_returns [of "cb_front b" "cb_offset b" "cb_rest b" n "[]"]
    unfolding cb_wf_chunks cb_flat_chunks append_Nil by blast
  from r(3) wf have "length (chunks_flat (f, off, r)) = cb_total b - n"
    by (simp add: cb_wf_def)
  with r False show ?thesis
    by (simp add: read_into_def Let_def set_chunks_flat set_chunks_wf)
qed

lemma split_to_exact:
  assumes wf: "cb_wf b" and n: "n \<le> length (cb_flat b)"
  shows "fst (split_to n b) = payload_from_slice (take n (cb_flat b))
      \<and> cb_flat (snd (split_to n b)) = drop n (cb_flat b) \<and> cb_wf (snd (split_to n b))"
proof -
  let ?avail = "length (cb_front b) - cb_offset b"
  consider "n = 0" | "0 < n" "n \<le> ?avail" | "0 < n" "?avail < n" by linarith
  then show ?thesis
  proof cases
    case 1
    with wf show ?thesis by (simp add: split_to_def payload_from_slice_def payload_inline_def)
  next
    case 2
    have "length (take n (cb_flat b)) = n" using n by simp
    with 2 consume_front [OF wf 2(2)] show ?thesis
      by (simp add: split_to_def Let_def payload_from_slice_def)
  next
    case 3
    let ?b = "b\<lparr>cb_total := cb_total b - n\<rparr>"
    let ?b1 = "advance_front ?b"
    have rest: "\<forall>c \<in> set (cb_rest b). c \<noteq> []" and off: "cb_offset b \<le> length (cb_front b)"
      using wf by (simp_all add: cb_wf_def chunks_wf_def)
    have one: "chunks_wf (cb_front ?b1) 0 (cb_rest ?b1)" "cb_total ?b1 = cb_total b - n"
      "chunks_flat (cb_front ?b1, 0, cb_rest ?b1) = concat (cb_rest b)"
      using rest by (auto simp: advance_front_def chunks_wf_def chunks_flat_def split: list.split)
    have len: "n - ?avail \<le> length (concat (cb_rest b))"
      using n by (simp add: cb_flat_def)
    have tk: "drop (cb_offset b) (cb_front b) @ take (n - ?avail) (concat (cb_rest b)) = take n (cb_flat b)"
      using 3 by (simp add: cb_flat_def)
    have dr: "drop (n - ?avail) (concat (cb_rest b)) = drop n (cb_flat b)"
      using 3 by (simp add: cb_flat_def)
    obtain f o' r where
      r: "split_loop (n - ?avail) (drop (cb_offset b) (cb_front b)) (cb_front ?b1) (cb_rest ?b1)
            = Some (take n (cb_flat b), f, o', r)"
         "chunks_wf f o' r" "chunks_flat (f, o', r) = drop n (cb_flat b)"
      using split_loop_returns [OF one(1), of "n - ?avail" "drop (cb_offset b) (cb_front b)"] len
      unfolding one(3) tk dr by blast
    have "length (chunks_flat (f, o', r)) = cb_total ?b1"
      unfolding one(2) r(3) using wf by (simp add: cb_wf_def)
    then have "cb_wf (set_chunks ?b1 (f, o', r))"
      using r(2) by (intro set_chunks_wf) simp_all
    moreover have "length (take n (cb_flat b)) = n" using n by simp
    ultimately show ?thesis
      using 3 r by (simp add: split_to_def Let_def set_chunks_flat payload_from_slice_def)
  qed
qed

lemma split_to_refines:
  assumes "cb_wf b" "n \<le> length (cb_flat b)"
  shows "payload_as_slice (fst (split_to n b)) = take n (cb_flat b) \<and> payload_wf (fst (split_to n b))
      \<and> cb_flat (snd (split_to n b)) = drop n (cb_flat b) \<and> cb_wf (snd (split_to n b))"
  using split_to_exact [OF assms] by (simp add: view_simps wf_intros)

lemmas cb_refines = cb_len_flat cb_push_flat cb_push_wf peek_array_flat
  cb_advance_refines split_to_refines read_into_refines

section \<open>The contract the decoders use\<close>

text \<open>
  A queue of bytes filled at the back in pieces and consumed from the front.
  \<open>view\<close> is its content; the decoders of frames and greetings need only these laws.
\<close>

locale byte_queue =
  fixes inv :: "'b \<Rightarrow> bool"
    and view :: "'b \<Rightarrow> bytes"
    and size_of :: "'b \<Rightarrow> nat"
    and add :: "'b \<Rightarrow> bytes \<Rightarrow> 'b"
    and peek :: "nat \<Rightarrow> 'b \<Rightarrow> bytes option"
    and skip :: "nat \<Rightarrow> 'b \<Rightarrow> 'b"
    and carve :: "nat \<Rightarrow> 'b \<Rightarrow> payload \<times> 'b"
  assumes size_view: "inv b \<Longrightarrow> size_of b = length (view b)"
    and add_view: "inv b \<Longrightarrow> view (add b c) = view b @ c \<and> inv (add b c)"
    and peek_view: "inv b \<Longrightarrow> peek n b = (if n \<le> length (view b) then Some (take n (view b)) else None)"
    and skip_view: "inv b \<Longrightarrow> n \<le> length (view b) \<Longrightarrow> view (skip n b) = drop n (view b) \<and> inv (skip n b)"
    and carve_view: "inv b \<Longrightarrow> n \<le> length (view b) \<Longrightarrow>
      payload_as_slice (fst (carve n b)) = take n (view b) \<and> payload_wf (fst (carve n b))
      \<and> view (snd (carve n b)) = drop n (view b) \<and> inv (snd (carve n b))"
begin

lemma peek_stable: "inv b \<Longrightarrow> peek n b = Some x \<Longrightarrow> peek n (add b c) = Some x"
  using add_view [of b c] by (auto simp: peek_view split: if_splits)

lemma fold_add: "inv b \<Longrightarrow> view (foldl add b cs) = view b @ concat cs \<and> inv (foldl add b cs)"
  by (induction cs arbitrary: b) (simp_all add: add_view)

lemma skip_carve:
  assumes "inv b" "h + n \<le> length (view b)"
  shows "payload_as_slice (fst (carve n (skip h b))) = take n (drop h (view b))
      \<and> payload_wf (fst (carve n (skip h b)))
      \<and> view (snd (carve n (skip h b))) = drop (h + n) (view b) \<and> inv (snd (carve n (skip h b)))"
proof -
  have "view (skip h b) = drop h (view b) \<and> inv (skip h b)"
    using assms by (intro skip_view) simp_all
  with carve_view [of "skip h b" n] assms show ?thesis
    by (simp add: add.commute)
qed

end

interpretation in_buf: byte_queue cb_wf cb_flat cb_len cb_push peek_array cb_advance split_to
  by unfold_locales (simp_all add: cb_refines)

section \<open>Histories\<close>

text \<open>
  A history of calls on the buffer, and the same history on one flat byte list.
  The flat run is undefined where the source asserts \<open>n \<le> len\<close>.
\<close>

datatype buf_op = Op_Push bytes | Op_Advance nat | Op_SplitTo nat | Op_ReadInto nat | Op_Peek nat

fun buf_run :: "buf_op list \<Rightarrow> chunked_buf \<Rightarrow> bytes option list \<times> chunked_buf" where
  "buf_run [] b = ([], b)"
| "buf_run (Op_Push c # ops) b = buf_run ops (cb_push b c)"
| "buf_run (Op_Advance n # ops) b = buf_run ops (cb_advance n b)"
| "buf_run (Op_SplitTo n # ops) b =
     (case split_to n b of (p, b') \<Rightarrow>
        (case buf_run ops b' of (os, b'') \<Rightarrow> (Some (payload_as_slice p) # os, b'')))"
| "buf_run (Op_ReadInto n # ops) b =
     (case read_into n b of (out, b') \<Rightarrow>
        (case buf_run ops b' of (os, b'') \<Rightarrow> (Some out # os, b'')))"
| "buf_run (Op_Peek n # ops) b = (case buf_run ops b of (os, b') \<Rightarrow> (peek_array n b # os, b'))"

fun flat_run :: "buf_op list \<Rightarrow> bytes \<Rightarrow> (bytes option list \<times> bytes) option" where
  "flat_run [] xs = Some ([], xs)"
| "flat_run (Op_Push c # ops) xs = flat_run ops (xs @ c)"
| "flat_run (Op_Advance n # ops) xs = (if n \<le> length xs then flat_run ops (drop n xs) else None)"
| "flat_run (Op_SplitTo n # ops) xs =
     (if n \<le> length xs
      then map_option (\<lambda>(os, r). (Some (take n xs) # os, r)) (flat_run ops (drop n xs)) else None)"
| "flat_run (Op_ReadInto n # ops) xs =
     (if n \<le> length xs
      then map_option (\<lambda>(os, r). (Some (take n xs) # os, r)) (flat_run ops (drop n xs)) else None)"
| "flat_run (Op_Peek n # ops) xs =
     map_option (\<lambda>(os, r). ((if n \<le> length xs then Some (take n xs) else None) # os, r)) (flat_run ops xs)"

lemma buf_run_refines:
  "cb_wf b \<Longrightarrow> flat_run ops (cb_flat b) = Some (os, r) \<Longrightarrow>
     \<exists>b'. buf_run ops b = (os, b') \<and> cb_flat b' = r \<and> cb_wf b'"
proof (induction ops arbitrary: b os)
  case Nil
  then show ?case by simp
next
  case (Cons op ops)
  show ?case
  proof (cases op)
    case (Op_Push c)
    with Cons show ?thesis by (simp add: cb_refines)
  next
    case (Op_Advance n)
    with Cons show ?thesis by (simp add: cb_refines split: if_splits)
  next
    case (Op_SplitTo n)
    with Cons.prems obtain os' where n: "n \<le> length (cb_flat b)" and
      "flat_run ops (drop n (cb_flat b)) = Some (os', r)" "os = Some (take n (cb_flat b)) # os'"
      by (auto split: if_splits)
    with Cons.IH [of "snd (split_to n b)" os'] split_to_refines [OF Cons.prems(1) n] Op_SplitTo
    show ?thesis by (auto split: prod.split)
  next
    case (Op_ReadInto n)
    with Cons.prems obtain os' where n: "n \<le> length (cb_flat b)" and
      "flat_run ops (drop n (cb_flat b)) = Some (os', r)" "os = Some (take n (cb_flat b)) # os'"
      by (auto split: if_splits)
    with Cons.IH [of "snd (read_into n b)" os'] read_into_refines [OF Cons.prems(1) n] Op_ReadInto
    show ?thesis by (auto split: prod.split)
  next
    case (Op_Peek n)
    with Cons.prems obtain os' where
      "flat_run ops (cb_flat b) = Some (os', r)"
      "os = (if n \<le> length (cb_flat b) then Some (take n (cb_flat b)) else None) # os'"
      by auto
    with Cons.IH [of b os'] Cons.prems(1) Op_Peek show ?thesis
      by (auto simp: peek_array_flat split: prod.split)
  qed
qed

text \<open>
  C26.  Every history of \<^verbatim>\<open>push\<close>, \<^verbatim>\<open>advance\<close>, \<^verbatim>\<open>split_to\<close>, \<^verbatim>\<open>read_into\<close> and \<^verbatim>\<open>peek_array\<close> calls on a
  new \<^verbatim>\<open>ChunkedInputBuf\<close> returns the bytes, in order, that one flat byte list would
  return, however the input was cut into chunks, and leaves the rest of the
  list buffered with its length accounted for.
\<close>

theorem chunked_buf_history:
  assumes "flat_run ops [] = Some (os, r)"
  shows "\<exists>b. buf_run ops cb_new = (os, b) \<and> cb_flat b = r \<and> cb_len b = length r"
  using assms buf_run_refines [OF cb_new_wf, of ops os r] by (auto simp: cb_len_flat)

theorem chunked_buf_history_witness:
  "flat_run [Op_Push [1, 2], Op_Push [3, 4, 5], Op_Peek 3, Op_Advance 1, Op_SplitTo 3] []
     = Some ([Some [1, 2, 3], Some [2, 3, 4]], [5])
   \<and> (\<exists>b. buf_run [Op_Push [1, 2], Op_Push [3, 4, 5], Op_Peek 3, Op_Advance 1, Op_SplitTo 3] cb_new
        = ([Some [1, 2, 3], Some [2, 3, 4]], b) \<and> cb_flat b = [5] \<and> cb_len b = length [5 :: u8])"
proof -
  have "flat_run [Op_Push [1, 2], Op_Push [3, 4, 5], Op_Peek 3, Op_Advance 1, Op_SplitTo 3] []
     = Some ([Some [1, 2, 3], Some [2, 3, 4]], [5])"
    by simp
  with chunked_buf_history [OF this] show ?thesis by blast
qed

end
