(* ===== verification/Stream_Decode.thy ===== *)
theory Stream_Decode
  imports Omq_Prelude
begin

text \<open>
  Incremental decoding.  A decoder reads one unit from the front of the bytes
  received so far: it fails, waits for more bytes, or returns a unit and the
  number of bytes it took.  \<open>drain\<close> applies a decoder until it waits or fails.
  The locale \<open>stream_decoder\<close> states what makes such a decoder independent of
  how the transport cuts the stream into reads; the decoders of the wire
  formats are its interpretations.  \<open>run_machine\<close> is the same for a protocol
  whose decoder depends on a state that each decoded unit changes; the locale
  \<open>stream_machine\<close> carries the independence over to it.
\<close>

function drain ::
  "(bytes \<Rightarrow> ('a \<times> nat) option result) \<Rightarrow> bytes \<Rightarrow> 'a list \<times> error option \<times> bytes" where
  "drain dec xs =
     (case dec xs of
        Inl e \<Rightarrow> ([], Some e, xs)
      | Inr None \<Rightarrow> ([], None, xs)
      | Inr (Some (v, k)) \<Rightarrow>
          if k = 0 \<or> length xs < k then ([], None, xs)
          else (case drain dec (drop k xs) of (vs, e, r) \<Rightarrow> (v # vs, e, r)))"
  by pat_completeness auto
termination
  by (relation "measure (\<lambda>(dec, xs). length xs)") auto

declare drain.simps [simp del]

text \<open>Feeding the pieces of a stream one after the other, keeping the unread tail.\<close>

fun drain_pieces ::
  "(bytes \<Rightarrow> ('a \<times> nat) option result) \<Rightarrow> bytes \<Rightarrow> bytes list \<Rightarrow> 'a list \<times> error option" where
  "drain_pieces dec pending [] = ([], None)"
| "drain_pieces dec pending (p # ps) =
     (case drain dec (pending @ p) of
        (vs, Some e, _) \<Rightarrow> (vs, Some e)
      | (vs, None, r) \<Rightarrow> (case drain_pieces dec r ps of (ws, e) \<Rightarrow> (vs @ ws, e)))"

locale stream_decoder =
  fixes dec :: "bytes \<Rightarrow> ('a \<times> nat) option result"
  assumes unit_stable: "dec xs = Ok (Some (v, k)) \<Longrightarrow> dec (xs @ ys) = Ok (Some (v, k))"
    and error_stable: "dec xs = Err e \<Longrightarrow> dec (xs @ ys) = Err e"
    and progress: "dec xs = Ok (Some (v, k)) \<Longrightarrow> 0 < k \<and> k \<le> length xs"
begin

lemma shrink: "dec xs = Ok (Some (v, k)) \<Longrightarrow> length (drop k xs) < length xs"
  using progress [of xs v k] by simp linarith

lemma drain_unit:
  "dec xs = Ok (Some (v, k)) \<Longrightarrow>
     drain dec xs = (case drain dec (drop k xs) of (vs, e, r) \<Rightarrow> (v # vs, e, r))"
  using progress [of xs v k] by (subst drain.simps) simp

lemma drain_error: "dec xs = Err e \<Longrightarrow> drain dec xs = ([], Some e, xs)"
  by (subst drain.simps) simp

lemma drain_wait: "dec xs = Ok None \<Longrightarrow> drain dec xs = ([], None, xs)"
  by (subst drain.simps) simp

lemma drain_append:
  "drain dec (xs @ ys) =
     (case drain dec xs of
        (vs, Some e, r) \<Rightarrow> (vs, Some e, r @ ys)
      | (vs, None, r) \<Rightarrow> (case drain dec (r @ ys) of (ws, e, r') \<Rightarrow> (vs @ ws, e, r')))"
proof (induction xs rule: length_induct)
  case (1 xs)
  consider (err) e where "dec xs = Err e" | (wait) "dec xs = Ok None"
    | (one) v k where "dec xs = Ok (Some (v, k))"
    by (metis option.exhaust sum.exhaust surj_pair)
  then show ?case
  proof cases
    case err
    then show ?thesis by (simp add: drain_error error_stable)
  next
    case wait
    then show ?thesis by (simp add: drain_wait split: prod.split)
  next
    case one
    from 1 [THEN spec, of "drop k xs"] shrink [OF one] have
      "drain dec (drop k xs @ ys) =
         (case drain dec (drop k xs) of
            (vs, Some e, r) \<Rightarrow> (vs, Some e, r @ ys)
          | (vs, None, r) \<Rightarrow> (case drain dec (r @ ys) of (ws, e, r') \<Rightarrow> (vs @ ws, e, r')))"
      by simp
    with progress [OF one] show ?thesis
      by (simp add: drain_unit [OF one] drain_unit [OF unit_stable [OF one]]
        split: prod.split option.split)
  qed
qed

lemma drain_residue: "drain dec xs = (vs, None, r) \<Longrightarrow> drain dec r = ([], None, r)"
proof (induction xs arbitrary: vs rule: length_induct)
  case (1 xs)
  consider (err) e where "dec xs = Err e" | (wait) "dec xs = Ok None"
    | (one) v k where "dec xs = Ok (Some (v, k))"
    by (metis option.exhaust sum.exhaust surj_pair)
  then show ?case
  proof cases
    case one
    obtain ws where "drain dec (drop k xs) = (ws, None, r)"
      using 1(2) by (auto simp: drain_unit [OF one] split: prod.splits)
    with 1(1) [THEN spec, of "drop k xs"] shrink [OF one] show ?thesis by simp
  qed (use 1 in \<open>auto simp: drain_error drain_wait\<close>)
qed

lemma drain_pieces_concat:
  "drain dec pending = ([], None, pending) \<Longrightarrow>
     drain_pieces dec pending ps
       = (case drain dec (pending @ concat ps) of (vs, e, r) \<Rightarrow> (vs, e))"
proof (induction ps arbitrary: pending)
  case Nil
  then show ?case by simp
next
  case (Cons p ps)
  obtain vs e r where d: "drain dec (pending @ p) = (vs, e, r)" by (metis surj_pair)
  then have app: "drain dec (pending @ p @ concat ps) =
     (case e of Some e' \<Rightarrow> (vs, Some e', r @ concat ps)
      | None \<Rightarrow> (case drain dec (r @ concat ps) of (ws, e', r') \<Rightarrow> (vs @ ws, e', r')))"
    using drain_append [of "pending @ p" "concat ps"] by (cases e) simp_all
  show ?case
  proof (cases e)
    case None
    with d have "drain dec r = ([], None, r)" by (blast intro: drain_residue)
    from Cons.IH [OF this] d app None show ?thesis by (simp split: prod.split)
  next
    case (Some e')
    with d app show ?thesis by simp
  qed
qed

end

section \<open>Stateful protocols\<close>

function run_machine ::
  "('s \<Rightarrow> bytes \<Rightarrow> ('u \<times> nat) option result) \<Rightarrow> ('u \<Rightarrow> 's \<Rightarrow> 's \<times> unit result)
    \<Rightarrow> 's \<Rightarrow> bytes \<Rightarrow> 's \<times> unit result \<times> bytes" where
  "run_machine dec app s xs =
     (case dec s xs of
        Inl e \<Rightarrow> (s, Err e, xs)
      | Inr None \<Rightarrow> (s, Ok (), xs)
      | Inr (Some (u, k)) \<Rightarrow>
          if k = 0 \<or> length xs < k then (s, Ok (), xs)
          else (case app u s of
                  (s', Inl e) \<Rightarrow> (s', Err e, drop k xs)
                | (s', Inr _) \<Rightarrow> run_machine dec app s' (drop k xs)))"
  by pat_completeness auto
termination
  by (relation "measure (\<lambda>(dec, app, s, xs). length xs)") auto

declare run_machine.simps [simp del]

fun run_pieces ::
  "('s \<Rightarrow> bytes \<Rightarrow> ('u \<times> nat) option result) \<Rightarrow> ('u \<Rightarrow> 's \<Rightarrow> 's \<times> unit result)
    \<Rightarrow> 's \<Rightarrow> bytes \<Rightarrow> bytes list \<Rightarrow> 's \<times> unit result" where
  "run_pieces dec app s pending [] = (s, Ok ())"
| "run_pieces dec app s pending (p # ps) =
     (case run_machine dec app s (pending @ p) of
        (s', Inl e, _) \<Rightarrow> (s', Err e)
      | (s', Inr _, r) \<Rightarrow> run_pieces dec app s' r ps)"

locale stream_machine =
  fixes dec :: "'s \<Rightarrow> bytes \<Rightarrow> ('u \<times> nat) option result"
    and app :: "'u \<Rightarrow> 's \<Rightarrow> 's \<times> unit result"
  assumes decoder: "stream_decoder (dec s)"
begin

lemma run_error: "dec s xs = Err e \<Longrightarrow> run_machine dec app s xs = (s, Err e, xs)"
  by (subst run_machine.simps) simp

lemma run_wait: "dec s xs = Ok None \<Longrightarrow> run_machine dec app s xs = (s, Ok (), xs)"
  by (subst run_machine.simps) simp

lemma run_unit:
  "dec s xs = Ok (Some (u, k)) \<Longrightarrow>
     run_machine dec app s xs =
       (case app u s of
          (s', Inl e) \<Rightarrow> (s', Err e, drop k xs)
        | (s', Inr _) \<Rightarrow> run_machine dec app s' (drop k xs))"
  using stream_decoder.progress [OF decoder, of s xs u k] by (subst run_machine.simps) simp

lemma unit_cases:
  obtains (err) e where "dec s xs = Err e" | (wait) "dec s xs = Ok None"
    | (one) u k where "dec s xs = Ok (Some (u, k))" "0 < k" "k \<le> length xs"
        "length (drop k xs) < length xs"
  using stream_decoder.progress [OF decoder, of s xs] stream_decoder.shrink [OF decoder, of s xs]
  by (metis option.exhaust sum.exhaust surj_pair)

lemma run_append:
  "run_machine dec app s (xs @ ys) =
     (case run_machine dec app s xs of
        (s', Inl e, r) \<Rightarrow> (s', Err e, r @ ys)
      | (s', Inr _, r) \<Rightarrow> run_machine dec app s' (r @ ys))"
proof (induction xs arbitrary: s rule: length_induct)
  case (1 xs)
  show ?case
  proof (cases s xs rule: unit_cases)
    case (err e)
    then show ?thesis by (simp add: run_error stream_decoder.error_stable [OF decoder])
  next
    case wait
    then show ?thesis by (simp add: run_wait)
  next
    case (one u k)
    obtain s' r where a: "app u s = (s', r)" by (metis surj_pair)
    have "dec s (xs @ ys) = Ok (Some (u, k))"
      by (rule stream_decoder.unit_stable [OF decoder one(1)])
    moreover have "\<And>s. run_machine dec app s (drop k xs @ ys) =
       (case run_machine dec app s (drop k xs) of
          (s', Inl e, r) \<Rightarrow> (s', Err e, r @ ys)
        | (s', Inr _, r) \<Rightarrow> run_machine dec app s' (r @ ys))"
      using 1 [THEN spec, of "drop k xs"] one(4) by blast
    ultimately show ?thesis
      using one(3) a by (cases r) (simp_all add: run_unit [OF one(1)] run_unit)
  qed
qed

lemma run_residue: "run_machine dec app s xs = (s', Ok (), r) \<Longrightarrow> dec s' r = Ok None"
proof (induction xs arbitrary: s rule: length_induct)
  case (1 xs)
  show ?case
  proof (cases s xs rule: unit_cases)
    case (one u k)
    obtain t q where a: "app u s = (t, q)" by (metis surj_pair)
    with 1(2) one(1) have "run_machine dec app t (drop k xs) = (s', Ok (), r)"
      by (cases q) (simp_all add: run_unit)
    with 1(1) [THEN spec, of "drop k xs"] one(4) show ?thesis by blast
  qed (use 1(2) in \<open>simp_all add: run_error run_wait\<close>)
qed

lemma run_invariant:
  assumes kept: "\<And>xs u k s s' r. P s \<Longrightarrow> dec s xs = Ok (Some (u, k)) \<Longrightarrow> app u s = (s', r) \<Longrightarrow> P s'"
  shows "run_machine dec app s xs = (s', res, rest) \<Longrightarrow> P s \<Longrightarrow> P s'"
proof (induction xs arbitrary: s rule: length_induct)
  case (1 xs)
  show ?case
  proof (cases s xs rule: unit_cases)
    case (one u k)
    obtain t q where a: "app u s = (t, q)" by (metis surj_pair)
    with kept [OF 1(3) one(1)] have "P t" by simp
    with 1(1) [THEN spec, of "drop k xs"] 1(2) one a show ?thesis
      by (cases q) (auto simp: run_unit)
  qed (use 1 in \<open>auto simp: run_error run_wait\<close>)
qed

lemma run_pieces_concat:
  "dec s pending = Ok None \<Longrightarrow>
     run_pieces dec app s pending ps
       = (case run_machine dec app s (pending @ concat ps) of (s', res, r) \<Rightarrow> (s', res))"
proof (induction ps arbitrary: s pending)
  case Nil
  then show ?case by (simp add: run_wait)
next
  case (Cons p ps)
  obtain s' res r where d: "run_machine dec app s (pending @ p) = (s', res, r)" by (metis surj_pair)
  show ?case
  proof (cases res)
    case (Inl e)
    with d show ?thesis using run_append [of s "pending @ p" "concat ps"] by simp
  next
    case (Inr u)
    with d have "dec s' r = Ok None" by (intro run_residue [of s "pending @ p"]) simp
    from Cons.IH [OF this] d Inr show ?thesis
      using run_append [of s "pending @ p" "concat ps"] by simp
  qed
qed

end

end
