(* ===== verification/Frame.thy ===== *)
theory Frame
  imports Chunked_Buf Stream_Decode
begin

text \<open>
  The ZMTP frame codec, \<^verbatim>\<open>omq-proto/src/proto/frame.rs\<close>, and the ZWS/2.0 frame codec,
  \<^verbatim>\<open>omq-proto/src/proto/zws.rs\<close>.  The header scratch buffer of \<^verbatim>\<open>encode_frame_into\<close> is
  storage reuse only (it is empty between calls) and has no counterpart here.
  \<open>frame_dec\<close> is the reference decoder on the flat bytes; the buffer decoder is
  proved to implement it.
\<close>

section \<open>Encoding\<close>

definition FLAG_MORE :: u8 where "FLAG_MORE = 0x01"
definition FLAG_LONG :: u8 where "FLAG_LONG = 0x02"
definition FLAG_COMMAND :: u8 where "FLAG_COMMAND = 0x04"
definition FLAG_RESERVED_MASK :: u8 where "FLAG_RESERVED_MASK = 0xF8"
definition MAX_SHORT_FRAME_SIZE :: nat where "MAX_SHORT_FRAME_SIZE = 255"
definition MAX_FRAME_HEADER_LEN :: nat where "MAX_FRAME_HEADER_LEN = 9"

definition header_len_for :: "nat \<Rightarrow> nat" where
  "header_len_for len =
     (if MAX_SHORT_FRAME_SIZE < len then MAX_FRAME_HEADER_LEN else 2)"

definition encode_frame_into :: "frame \<Rightarrow> bytes list \<Rightarrow> bytes list" where
  "encode_frame_into fr out =
     (let size = payload_len (fr_payload fr);
          flags = (if ff_more (fr_flags fr) then 0 OR FLAG_MORE else 0);
          flags = (if ff_command (fr_flags fr) then flags OR FLAG_COMMAND else flags);
          header = (if MAX_SHORT_FRAME_SIZE < size
                    then (flags OR FLAG_LONG) # be_bytes 8 size
                    else [flags, of_nat size]);
          out = out @ [header];
          b = payload_as_bytes (fr_payload fr)
      in if b = [] then out else out @ [b])"

definition encode_frame :: "frame \<Rightarrow> bytes \<Rightarrow> bytes" where
  "encode_frame fr out = out @ concat (encode_frame_into fr [])"

definition write_frame_header :: "bytes \<Rightarrow> bool \<Rightarrow> nat \<Rightarrow> bytes" where
  "write_frame_header buf mor len =
     (let flags = (if mor then 1 else 0 :: u8)
      in if MAX_SHORT_FRAME_SIZE < len
         then buf @ [flags OR FLAG_LONG] @ be_bytes 8 len
         else buf @ [flags, of_nat len])"

text \<open>
  The closures passed to \<^verbatim>\<open>iter_slices\<close>: \<open>i\<close> counts the parts written, \<open>n\<close> is the
  part count of the message.
\<close>

fun flat_parts :: "nat \<Rightarrow> nat \<Rightarrow> bytes list \<Rightarrow> bytes \<Rightarrow> bytes" where
  "flat_parts n i [] buf = buf"
| "flat_parts n i (s # ss) buf =
     flat_parts n (i + 1) ss (write_frame_header buf (i + 1 < n) (length s) @ s)"

definition encode_message_flat :: "message \<Rightarrow> bytes \<Rightarrow> bytes" where
  "encode_message_flat msg buf = flat_parts (msg_len msg) 0 (iter_slices msg) buf"

fun prefixed_parts :: "bytes \<Rightarrow> nat \<Rightarrow> nat \<Rightarrow> bytes list \<Rightarrow> bytes \<Rightarrow> bytes" where
  "prefixed_parts pre n i [] buf = buf"
| "prefixed_parts pre n i (s # ss) buf =
     prefixed_parts pre n (i + 1) ss
       (write_frame_header buf (i + 1 < n) (length pre + length s) @ pre @ s)"

definition encode_message_prefixed_flat :: "bytes \<Rightarrow> message \<Rightarrow> bytes \<Rightarrow> bytes" where
  "encode_message_prefixed_flat pre msg buf =
     prefixed_parts pre (msg_len msg) 0 (iter_slices msg) buf"

section \<open>Decoding\<close>

record peeked_frame_header =
  ph_flags :: frame_flags
  ph_header_len :: nat
  ph_payload_len :: nat

definition peek_frame_header :: "chunked_buf \<Rightarrow> peeked_frame_header option result" where
  "peek_frame_header buf =
     (case peek_array 1 buf of
        None \<Rightarrow> Ok None
      | Some a \<Rightarrow>
          let flags = hd a
          in if flags AND FLAG_RESERVED_MASK \<noteq> 0
             then Err (Protocol ''reserved ZMTP flag bits set: 0x{flags:02x}'')
             else let long = (flags AND FLAG_LONG \<noteq> 0);
                      mor = (flags AND FLAG_MORE \<noteq> 0);
                      cmd = (flags AND FLAG_COMMAND \<noteq> 0)
               in if cmd \<and> mor then Err (Protocol ''COMMAND frame must not have MORE'')
                  else if long then
                    (case peek_array MAX_FRAME_HEADER_LEN buf of
                       None \<Rightarrow> Ok None
                     | Some hdr \<Rightarrow>
                         let size = be_val (drop 1 hdr)
                         in if usize_max < size
                            then Err (Protocol ''frame size {size} exceeds platform usize'')
                            else if isize_max < size
                            then Err (Protocol ''frame size {payload_len} exceeds maximum allocation'')
                            else Ok (Some \<lparr>ph_flags = \<lparr>ff_more = mor, ff_command = cmd\<rparr>,
                                           ph_header_len = MAX_FRAME_HEADER_LEN,
                                           ph_payload_len = size\<rparr>))
                  else
                    (case peek_array 2 buf of
                       None \<Rightarrow> Ok None
                     | Some hdr \<Rightarrow> Ok (Some \<lparr>ph_flags = \<lparr>ff_more = mor, ff_command = cmd\<rparr>,
                                             ph_header_len = 2, ph_payload_len = unat (hdr ! 1)\<rparr>)))"

definition try_decode_frame :: "chunked_buf \<Rightarrow> chunked_buf \<times> frame option result" where
  "try_decode_frame buf =
     (case peek_frame_header buf of
        Inl e \<Rightarrow> (buf, Err e)
      | Inr None \<Rightarrow> (buf, Ok None)
      | Inr (Some hdr) \<Rightarrow>
          (case checked_add (ph_header_len hdr) (ph_payload_len hdr) of
             None \<Rightarrow> (buf, Err (Protocol ''frame size overflow''))
           | Some tot \<Rightarrow>
               if cb_len buf < tot then (buf, Ok None)
               else let buf = cb_advance (ph_header_len hdr) buf;
                        (pl, buf) = split_to (ph_payload_len hdr) buf
                 in (buf, Ok (Some \<lparr>fr_flags = ph_flags hdr, fr_payload = pl\<rparr>))))"

definition decode_frame_from_bytes :: "bytes \<Rightarrow> (frame option \<times> nat) result" where
  "decode_frame_from_bytes data =
     (let buf = cb_push cb_new data
      in case try_decode_frame buf of
           (buf, Inl e) \<Rightarrow> Err e
         | (buf, Inr fr) \<Rightarrow> Ok (fr, cb_len buf))"

section \<open>ZWS frames\<close>

definition ZWS_FLAG_FINAL :: u8 where "ZWS_FLAG_FINAL = 0x00"
definition ZWS_FLAG_MORE :: u8 where "ZWS_FLAG_MORE = 0x01"
definition ZWS_FLAG_COMMAND :: u8 where "ZWS_FLAG_COMMAND = 0x02"

definition flags_to_zws :: "frame_flags \<Rightarrow> u8" where
  "flags_to_zws fl =
     (if ff_command fl then ZWS_FLAG_COMMAND
      else if ff_more fl then ZWS_FLAG_MORE else ZWS_FLAG_FINAL)"

definition zws_to_flags :: "u8 \<Rightarrow> frame_flags result" where
  "zws_to_flags fl =
     (if fl = ZWS_FLAG_FINAL then Ok FF_LAST
      else if fl = ZWS_FLAG_MORE then Ok FF_MORE
      else if fl = ZWS_FLAG_COMMAND then Ok FF_COMMAND
      else Err (Protocol ''invalid ZWS flag byte: 0x{flag:02x}''))"

definition zws_encode_frame :: "frame \<Rightarrow> bytes" where
  "zws_encode_frame fr =
     (if ff_command (fr_flags fr) then ZWS_FLAG_COMMAND
      else if ff_more (fr_flags fr) then ZWS_FLAG_MORE else ZWS_FLAG_FINAL)
     # payload_as_bytes (fr_payload fr)"

definition zws_decode_frame :: "bytes \<Rightarrow> frame result" where
  "zws_decode_frame msg =
     (case msg of
        [] \<Rightarrow> Err (Protocol ''empty ZWS frame'')
      | fl # body \<Rightarrow>
          if fl = ZWS_FLAG_FINAL then Ok \<lparr>fr_flags = FF_LAST, fr_payload = payload_from_bytes body\<rparr>
          else if fl = ZWS_FLAG_MORE then Ok \<lparr>fr_flags = FF_MORE, fr_payload = payload_from_bytes body\<rparr>
          else if fl = ZWS_FLAG_COMMAND
          then Ok \<lparr>fr_flags = FF_COMMAND, fr_payload = payload_from_bytes body\<rparr>
          else Err (Protocol ''invalid ZWS flag byte: 0x{flag:02x}''))"

fun zws_encode_parts :: "nat \<Rightarrow> nat \<Rightarrow> payload list \<Rightarrow> bytes list" where
  "zws_encode_parts n i [] = []"
| "zws_encode_parts n i (p # ps) =
     ((if i + 1 < n then ZWS_FLAG_MORE else ZWS_FLAG_FINAL) # payload_as_bytes p)
     # zws_encode_parts n (i + 1) ps"

definition zws_encode_message :: "message \<Rightarrow> bytes list" where
  "zws_encode_message msg =
     (let ps = parts_payload msg in zws_encode_parts (length ps) 0 ps)"

definition zws_encode_command :: "bytes \<Rightarrow> bytes" where
  "zws_encode_command body = ZWS_FLAG_COMMAND # body"

section \<open>Reference codec on flat bytes\<close>

definition frame_hdr :: "bytes \<Rightarrow> peeked_frame_header option result" where
  "frame_hdr xs =
     (case xs of
        [] \<Rightarrow> Ok None
      | fl # r \<Rightarrow>
          if fl AND FLAG_RESERVED_MASK \<noteq> 0
          then Err (Protocol ''reserved ZMTP flag bits set: 0x{flags:02x}'')
          else if fl AND FLAG_COMMAND \<noteq> 0 \<and> fl AND FLAG_MORE \<noteq> 0
          then Err (Protocol ''COMMAND frame must not have MORE'')
          else
            let flags = \<lparr>ff_more = (fl AND FLAG_MORE \<noteq> 0), ff_command = (fl AND FLAG_COMMAND \<noteq> 0)\<rparr>
            in if fl AND FLAG_LONG \<noteq> 0 then
                 (if length r < 8 then Ok None
                  else if isize_max < be_val (take 8 r)
                  then Err (Protocol ''frame size {payload_len} exceeds maximum allocation'')
                  else Ok (Some \<lparr>ph_flags = flags, ph_header_len = 9, ph_payload_len = be_val (take 8 r)\<rparr>))
               else
                 (case r of
                    [] \<Rightarrow> Ok None
                  | l # _ \<Rightarrow> Ok (Some \<lparr>ph_flags = flags, ph_header_len = 2, ph_payload_len = unat l\<rparr>)))"

definition frame_dec :: "bytes \<Rightarrow> ((frame_flags \<times> bytes) \<times> nat) option result" where
  "frame_dec xs =
     (case frame_hdr xs of
        Inl e \<Rightarrow> Err e
      | Inr None \<Rightarrow> Ok None
      | Inr (Some h) \<Rightarrow>
          if length xs < ph_header_len h + ph_payload_len h then Ok None
          else Ok (Some ((ph_flags h, take (ph_payload_len h) (drop (ph_header_len h) xs)),
                         ph_header_len h + ph_payload_len h)))"

definition frame_header :: "frame_flags \<Rightarrow> nat \<Rightarrow> bytes" where
  "frame_header fl n =
     (let b = (if ff_more fl then 1 else 0) OR (if ff_command fl then 4 else 0)
      in if n \<le> 255 then [b, of_nat n] else (b OR 2) # be_bytes 8 n)"

definition frame_enc :: "frame_flags \<times> bytes \<Rightarrow> bytes" where
  "frame_enc f = frame_header (fst f) (length (snd f)) @ snd f"

definition frame_view :: "frame \<Rightarrow> frame_flags \<times> bytes" where
  "frame_view fr = (fr_flags fr, payload_as_slice (fr_payload fr))"

text \<open>What can be sent: not COMMAND with MORE, and a payload the allocator can hold.\<close>

definition frame_ok :: "frame_flags \<times> bytes \<Rightarrow> bool" where
  "frame_ok f \<longleftrightarrow> \<not> (ff_command (fst f) \<and> ff_more (fst f)) \<and> length (snd f) \<le> isize_max"

lemmas frame_flag_defs = FLAG_MORE_def FLAG_LONG_def FLAG_COMMAND_def FLAG_RESERVED_MASK_def
  MAX_SHORT_FRAME_SIZE_def MAX_FRAME_HEADER_LEN_def

lemma length_frame_header [wire_simps]:
  "length (frame_header fl n) = header_len_for n"
  by (simp add: frame_header_def header_len_for_def frame_flag_defs Let_def)

lemma encode_frame_into_eq:
  "payload_wf (fr_payload fr) \<Longrightarrow>
     encode_frame_into fr out = out @ [frame_header (fr_flags fr) (length (payload_as_slice (fr_payload fr)))]
       @ (if payload_as_slice (fr_payload fr) = [] then [] else [payload_as_slice (fr_payload fr)])"
  by (auto simp: encode_frame_into_def frame_header_def Let_def frame_flag_defs view_simps payload_len_slice)

lemma encode_frame_eq:
  "payload_wf (fr_payload fr) \<Longrightarrow> encode_frame fr out = out @ frame_enc (frame_view fr)"
  by (simp add: encode_frame_def encode_frame_into_eq frame_enc_def frame_view_def)

lemma write_frame_header_eq:
  "write_frame_header buf mor len = buf @ frame_header \<lparr>ff_more = mor, ff_command = False\<rparr> len"
  by (simp add: write_frame_header_def frame_header_def Let_def frame_flag_defs)

lemma frame_hdr_header:
  assumes "\<not> (ff_command fl \<and> ff_more fl)" "n \<le> isize_max"
  shows "frame_hdr (frame_header fl n @ rest)
    = Ok (Some \<lparr>ph_flags = fl, ph_header_len = header_len_for n, ph_payload_len = n\<rparr>)"
proof (cases "n \<le> 255")
  case True
  then have "unat (of_nat n :: u8) = n" by (simp add: unat_of_nat_u8)
  with True assms show ?thesis
    by (cases "ff_more fl"; cases "ff_command fl")
      (simp_all add: frame_hdr_def frame_header_def frame_flag_defs header_len_for_def Let_def)
next
  case False
  have "n < 256 ^ 8" using assms(2) by (simp add: isize_max_def)
  then have "be_val (be_bytes 8 n) = n" by (rule be_val_be_bytes_exact)
  with False assms show ?thesis
    by (cases "ff_more fl"; cases "ff_command fl")
      (simp_all add: frame_hdr_def frame_header_def frame_flag_defs header_len_for_def Let_def)
qed

lemma frame_dec_enc:
  "frame_ok f \<Longrightarrow> frame_dec (frame_enc f @ rest) = Ok (Some (f, length (frame_enc f)))"
  by (cases f) (simp add: frame_dec_def frame_enc_def frame_ok_def frame_hdr_header wire_simps)

lemma frame_hdr_stable:
  "frame_hdr xs = Ok (Some h) \<Longrightarrow> frame_hdr (xs @ ys) = Ok (Some h)"
  "frame_hdr xs = Err e \<Longrightarrow> frame_hdr (xs @ ys) = Err e"
  by (auto simp: frame_hdr_def Let_def split: list.splits if_splits)

lemma frame_hdr_len: "frame_hdr xs = Ok (Some h) \<Longrightarrow> 0 < ph_header_len h"
  by (auto simp: frame_hdr_def Let_def split: list.splits if_splits)

interpretation frame_stream: stream_decoder frame_dec
proof
  fix xs ys v k
  assume "frame_dec xs = Ok (Some (v, k))"
  then obtain h where h: "frame_hdr xs = Ok (Some h)"
      "v = (ph_flags h, take (ph_payload_len h) (drop (ph_header_len h) xs))"
      "k = ph_header_len h + ph_payload_len h" "k \<le> length xs"
    by (auto simp: frame_dec_def split: sum.splits option.splits if_splits)
  then show "frame_dec (xs @ ys) = Ok (Some (v, k))"
    by (simp add: frame_dec_def frame_hdr_stable(1) [OF h(1)])
  show "0 < k \<and> k \<le> length xs"
    using h frame_hdr_len [OF h(1)] by simp
next
  fix xs ys e
  assume "frame_dec xs = Err e"
  then have "frame_hdr xs = Err e"
    by (auto simp: frame_dec_def split: sum.splits option.splits if_splits)
  then show "frame_dec (xs @ ys) = Err e"
    by (simp add: frame_dec_def frame_hdr_stable(2))
qed

lemma drain_frames:
  "\<forall>f \<in> set fs. frame_ok f \<Longrightarrow> drain frame_dec (concat (map frame_enc fs) @ rest)
     = (case drain frame_dec rest of (vs, e, r) \<Rightarrow> (fs @ vs, e, r))"
proof (induction fs)
  case Nil
  then show ?case by (simp split: prod.split)
next
  case (Cons f fs)
  have "frame_dec (frame_enc f @ concat (map frame_enc fs) @ rest) = Ok (Some (f, length (frame_enc f)))"
    using Cons.prems by (simp add: frame_dec_enc)
  from frame_stream.drain_unit [OF this] Cons show ?case
    by (simp split: prod.split)
qed

section \<open>The buffer decoder implements the reference decoder\<close>

lemma peek_frame_header_flat:
  assumes "cb_wf b"
  shows "peek_frame_header b = frame_hdr (cb_flat b)"
proof (cases "cb_flat b")
  case Nil
  then show ?thesis using assms
    by (simp add: peek_frame_header_def frame_hdr_def peek_array_flat)
next
  case (Cons fl r)
  have one: "peek_array 1 b = Some [fl]" using assms Cons by (simp add: peek_array_flat)
  have two: "peek_array 2 b = (case r of [] \<Rightarrow> None | l # _ \<Rightarrow> Some [fl, l])"
    using assms Cons by (simp add: peek_array_flat numeral_2_eq_2 split: list.split)
  have nine: "peek_array 9 b = (if length r < 8 then None else Some (fl # take 8 r))"
    using assms Cons by (auto simp: peek_array_flat)
  have "be_val (take 8 r) < 256 ^ length (take 8 r)" by (rule be_val_lt)
  also have "\<dots> \<le> 256 ^ 8" by (rule power_increasing) simp_all
  finally have "be_val (take 8 r) < 256 ^ 8" .
  then have size: "be_val (take 8 r) \<le> usize_max" by (simp add: usize_max_def)
  show ?thesis
    unfolding peek_frame_header_def frame_hdr_def Cons one option.case list.case list.sel Let_def
      MAX_FRAME_HEADER_LEN_def nine two
    using size by (auto split: list.split)
qed

lemma frame_hdr_total:
  "frame_hdr xs = Ok (Some h) \<Longrightarrow>
     checked_add (ph_header_len h) (ph_payload_len h) = Some (ph_header_len h + ph_payload_len h)"
proof -
  assume "frame_hdr xs = Ok (Some h)"
  moreover have "unat w \<le> isize_max" for w :: u8
    using unat_u8_lt [of w] by (simp add: isize_max_def)
  ultimately have "ph_header_len h \<le> 9 \<and> ph_payload_len h \<le> isize_max"
    by (auto simp: frame_hdr_def Let_def not_less split: list.splits if_splits)
  then show ?thesis by (simp add: checked_add_def usize_max_def isize_max_def)
qed

lemma try_decode_frame_refines:
  assumes wf: "cb_wf b"
  shows "case frame_dec (cb_flat b) of
      Inl e \<Rightarrow> try_decode_frame b = (b, Err e)
    | Inr None \<Rightarrow> try_decode_frame b = (b, Ok None)
    | Inr (Some (f, k)) \<Rightarrow>
        \<exists>b' fr. try_decode_frame b = (b', Ok (Some fr)) \<and> frame_view fr = f
          \<and> payload_wf (fr_payload fr) \<and> cb_flat b' = drop k (cb_flat b) \<and> cb_wf b'"
proof -
  note peek = peek_frame_header_flat [OF wf] and size = cb_len_flat [OF wf]
  consider (err) e where "frame_hdr (cb_flat b) = Err e" | (wait) "frame_hdr (cb_flat b) = Ok None"
    | (hdr) h where "frame_hdr (cb_flat b) = Ok (Some h)"
    by (metis option.exhaust sum.exhaust)
  then show ?thesis
  proof cases
    case hdr
    note tot = frame_hdr_total [OF hdr]
    show ?thesis
    proof (cases "length (cb_flat b) < ph_header_len h + ph_payload_len h")
      case True
      then show ?thesis
        by (simp add: frame_dec_def try_decode_frame_def peek hdr tot size)
    next
      case False
      then have "ph_header_len h + ph_payload_len h \<le> length (cb_flat b)" by simp
      from False in_buf.skip_carve [OF wf this] show ?thesis
        by (auto simp: frame_dec_def try_decode_frame_def peek hdr tot size frame_view_def
          split: prod.split)
    qed
  qed (simp_all add: frame_dec_def try_decode_frame_def peek)
qed

lemma try_decode_frame_exact:
  assumes wf: "cb_wf b" and dec: "frame_dec (cb_flat b) = Ok (Some ((fl, body), k))"
  obtains b' where "try_decode_frame b = (b', Ok (Some \<lparr>fr_flags = fl, fr_payload = payload_from_slice body\<rparr>))"
    "cb_flat b' = drop k (cb_flat b)" "cb_wf b'"
proof -
  from dec obtain h where h: "frame_hdr (cb_flat b) = Ok (Some h)" "fl = ph_flags h"
      "body = take (ph_payload_len h) (drop (ph_header_len h) (cb_flat b))"
      "k = ph_header_len h + ph_payload_len h" "k \<le> length (cb_flat b)"
    by (auto simp: frame_dec_def split: sum.splits option.splits if_splits)
  let ?b = "cb_advance (ph_header_len h) b"
  have adv: "cb_flat ?b = drop (ph_header_len h) (cb_flat b)" "cb_wf ?b"
    using cb_advance_refines [OF wf, of "ph_header_len h"] h(4,5) by simp_all
  have "ph_payload_len h \<le> length (cb_flat ?b)" using h(4,5) adv(1) by simp
  from split_to_exact [OF adv(2) this] obtain b' where
    "split_to (ph_payload_len h) ?b = (payload_from_slice body, b')"
    "cb_flat b' = drop (ph_payload_len h) (drop (ph_header_len h) (cb_flat b))" "cb_wf b'"
    unfolding h(3) adv(1) by (cases "split_to (ph_payload_len h) ?b") simp
  then show ?thesis
    using h frame_hdr_total [OF h(1)] cb_len_flat [OF wf]
    by (intro that [of b'])
      (simp_all add: try_decode_frame_def peek_frame_header_flat [OF wf] add.commute)
qed

section \<open>Messages as frames\<close>

text \<open>The frames a message is sent as: MORE on every part but the last.\<close>

definition mk_data :: "bool \<Rightarrow> bytes \<Rightarrow> frame_flags \<times> bytes" where
  "mk_data mor body = (\<lparr>ff_more = mor, ff_command = False\<rparr>, body)"

fun data_frames :: "bytes list \<Rightarrow> (frame_flags \<times> bytes) list" where
  "data_frames [] = []"
| "data_frames [p] = [mk_data False p]"
| "data_frames (p # q # ps) = mk_data True p # data_frames (q # ps)"

lemma data_frames_Cons: "data_frames (p # ps) = mk_data (ps \<noteq> []) p # data_frames ps"
  by (cases ps) simp_all

declare data_frames.simps(2,3) [simp del] data_frames_Cons [simp]

lemma flat_parts_eq:
  "n = i + length ps \<Longrightarrow> flat_parts n i ps buf = buf @ concat (map frame_enc (data_frames ps))"
  by (induction ps arbitrary: i buf)
    (simp_all add: write_frame_header_eq frame_enc_def mk_data_def)

lemma prefixed_parts_eq:
  "n = i + length ps \<Longrightarrow>
     prefixed_parts pre n i ps buf = buf @ concat (map frame_enc (data_frames (map ((@) pre) ps)))"
  by (induction ps arbitrary: i buf)
    (simp_all add: write_frame_header_eq frame_enc_def mk_data_def)

lemma encode_message_flat_eq:
  "message_wf m \<Longrightarrow> encode_message_flat m buf = buf @ concat (map frame_enc (data_frames (parts m)))"
  by (simp add: encode_message_flat_def flat_parts_eq msg_len_parts iter_slices_parts)

lemma encode_message_prefixed_flat_eq:
  "message_wf m \<Longrightarrow> encode_message_prefixed_flat pre m buf
     = buf @ concat (map frame_enc (data_frames (map ((@) pre) (parts m))))"
  by (simp add: encode_message_prefixed_flat_def prefixed_parts_eq msg_len_parts iter_slices_parts)

lemma data_frames_ok:
  "\<forall>p \<in> set ps. length p \<le> isize_max \<Longrightarrow> \<forall>f \<in> set (data_frames ps). frame_ok f"
  by (induction ps) (simp_all add: frame_ok_def mk_data_def)

lemma data_frames_bodies: "map snd (data_frames ps) = ps"
  by (induction ps) (simp_all add: mk_data_def)

lemma zws_encode_parts_eq:
  "n = i + length ps \<Longrightarrow> zws_encode_parts n i ps
     = map (\<lambda>f. flags_to_zws (fst f) # snd f) (data_frames (map payload_as_slice ps))"
  by (induction ps arbitrary: i) (simp_all add: mk_data_def flags_to_zws_def view_simps)

lemma zws_decode_encode:
  assumes "\<not> (ff_command (fr_flags fr) \<and> ff_more (fr_flags fr))"
  shows "\<exists>fr'. zws_decode_frame (zws_encode_frame fr) = Ok fr' \<and> frame_view fr' = frame_view fr
     \<and> payload_wf (fr_payload fr')"
proof -
  obtain m c where f: "fr_flags fr = \<lparr>ff_more = m, ff_command = c\<rparr>"
    by (cases "fr_flags fr") simp
  show ?thesis
    using assms unfolding f
    by (cases m; cases c)
      (simp_all add: f zws_decode_frame_def zws_encode_frame_def ZWS_FLAG_FINAL_def ZWS_FLAG_MORE_def
        ZWS_FLAG_COMMAND_def FF_LAST_def FF_MORE_def FF_COMMAND_def frame_view_def view_simps wf_intros)
qed

lemma zws_encode_message_eq:
  "message_wf m \<Longrightarrow> zws_encode_message m = map (\<lambda>f. flags_to_zws (fst f) # snd f) (data_frames (parts m))"
  by (simp add: zws_encode_message_def zws_encode_parts_eq parts_payload_view)

section \<open>Properties\<close>

lemma try_decode_frame_one:
  assumes "frame_ok (frame_view fr)" "payload_wf (fr_payload fr)" "cb_wf b"
    "cb_flat b = encode_frame fr [] @ rest"
  shows "\<exists>b' fr'. try_decode_frame b = (b', Ok (Some fr')) \<and> frame_view fr' = frame_view fr
      \<and> payload_wf (fr_payload fr') \<and> cb_flat b' = rest \<and> cb_wf b'"
  using try_decode_frame_refines [OF assms(3)] assms
  by (simp add: encode_frame_eq frame_dec_enc)

text \<open>
  C25.  Frame round trip through the real input buffer: a frame encoded by
  \<^verbatim>\<open>encode_frame\<close>, delivered in any chunks and followed by any further bytes, is
  decoded by \<^verbatim>\<open>try_decode_frame\<close> to the same flags and payload, and the buffer is left
  holding exactly the bytes that follow.
\<close>

theorem frame_round_trip:
  assumes "frame_ok (frame_view fr)" "payload_wf (fr_payload fr)"
    and "concat chunks = encode_frame fr [] @ rest"
  shows "\<exists>b' fr'. try_decode_frame (foldl cb_push cb_new chunks) = (b', Ok (Some fr'))
      \<and> frame_view fr' = frame_view fr \<and> cb_flat b' = rest \<and> cb_wf b'"
proof -
  have "cb_flat (foldl cb_push cb_new chunks) = encode_frame fr [] @ rest"
    "cb_wf (foldl cb_push cb_new chunks)"
    using in_buf.fold_add [OF cb_new_wf, of chunks] assms(3) by simp_all
  with try_decode_frame_one [OF assms(1,2)] show ?thesis by blast
qed

definition hello_frame :: frame where
  "hello_frame = frame_data (payload_inline [104, 105]) True"

theorem frame_round_trip_witness:
  "frame_ok (frame_view hello_frame) \<and> payload_wf (fr_payload hello_frame)
   \<and> concat [[1], [2, 104], [105, 0]] = encode_frame hello_frame [] @ [0]
   \<and> (\<exists>b' fr'. try_decode_frame (foldl cb_push cb_new [[1], [2, 104], [105, 0]]) = (b', Ok (Some fr'))
        \<and> frame_view fr' = frame_view hello_frame \<and> cb_flat b' = [0] \<and> cb_wf b')"
proof -
  have a: "frame_ok (frame_view hello_frame)" by code_simp
  have b: "payload_wf (fr_payload hello_frame)" by code_simp
  have c: "concat [[1], [2, 104], [105, 0]] = encode_frame hello_frame [] @ [0]" by code_simp
  from frame_round_trip [OF a b c] a b c show ?thesis by blast
qed

text \<open>
  A reader of the input buffer: after each piece that arrives it decodes frames until
  the decoder waits or fails.  A frame takes at least one byte, so that one call per
  buffered byte and one more are enough.
\<close>

fun decode_frames :: "nat \<Rightarrow> chunked_buf \<Rightarrow> chunked_buf \<times> frame list \<times> error option" where
  "decode_frames 0 b = (b, [], None)"
| "decode_frames (Suc n) b =
     (case try_decode_frame b of
        (b, Inl e) \<Rightarrow> (b, [], Some e)
      | (b, Inr None) \<Rightarrow> (b, [], None)
      | (b, Inr (Some fr)) \<Rightarrow> (case decode_frames n b of (b, frs, e) \<Rightarrow> (b, fr # frs, e)))"

fun read_pieces :: "chunked_buf \<Rightarrow> bytes list \<Rightarrow> frame list \<times> error option" where
  "read_pieces b [] = ([], None)"
| "read_pieces b (p # ps) =
     (let b = cb_push b p
      in case decode_frames (Suc (cb_len b)) b of
           (b, frs, Some e) \<Rightarrow> (frs, Some e)
         | (b, frs, None) \<Rightarrow> (case read_pieces b ps of (gs, e) \<Rightarrow> (frs @ gs, e)))"

lemma decode_frames_refines:
  "cb_wf b \<Longrightarrow> length (cb_flat b) < n \<Longrightarrow> decode_frames n b = (b', frs, e) \<Longrightarrow>
     drain frame_dec (cb_flat b) = (map frame_view frs, e, cb_flat b') \<and> cb_wf b'"
proof (induction n arbitrary: b b' frs e)
  case (Suc n)
  note ref = try_decode_frame_refines [OF Suc.prems(1)]
  consider (err) x where "frame_dec (cb_flat b) = Err x" | (wait) "frame_dec (cb_flat b) = Ok None"
    | (one) f k where "frame_dec (cb_flat b) = Ok (Some (f, k))"
    by (metis option.exhaust sum.exhaust surj_pair)
  then show ?case
  proof cases
    case err
    then show ?thesis using ref Suc.prems by (auto simp: frame_stream.drain_error)
  next
    case wait
    then show ?thesis using ref Suc.prems by (auto simp: frame_stream.drain_wait)
  next
    case one
    with ref obtain b1 fr where t: "try_decode_frame b = (b1, Ok (Some fr))" "frame_view fr = f"
      "cb_flat b1 = drop k (cb_flat b)" "cb_wf b1" by auto
    obtain b2 gs x where d: "decode_frames n b1 = (b2, gs, x)" by (metis surj_pair)
    have "length (cb_flat b1) < n" using frame_stream.shrink [OF one] Suc.prems(2) t(3) by simp
    from Suc.IH [OF t(4) this d] show ?thesis
      using frame_stream.drain_unit [OF one] t(1-3) d Suc.prems(3) by auto
  qed
qed simp

lemma read_pieces_refines:
  "cb_wf b \<Longrightarrow> drain_pieces frame_dec (cb_flat b) ps = (map frame_view (fst (read_pieces b ps)), snd (read_pieces b ps))"
proof (induction ps arbitrary: b)
  case (Cons p ps)
  have b: "cb_flat (cb_push b p) = cb_flat b @ p" "cb_wf (cb_push b p)" "cb_len (cb_push b p) = length (cb_flat (cb_push b p))"
    using in_buf.add_view [OF Cons.prems, of p] cb_len_flat [of "cb_push b p"] by simp_all
  obtain b' frs e where d: "decode_frames (Suc (cb_len (cb_push b p))) (cb_push b p) = (b', frs, e)" by (metis surj_pair)
  from decode_frames_refines [OF b(2) _ d] b have "drain frame_dec (cb_flat b @ p) = (map frame_view frs, e, cb_flat b')"
    "cb_wf b'" by simp_all
  then show ?case using d Cons.IH [of b'] by (cases e) (simp_all add: Let_def del: decode_frames.simps split: prod.split)
qed simp

text \<open>
  C27.  Frame decoding is independent of how the transport cuts the stream: whatever
  the pieces pushed into the input buffer, \<^verbatim>\<open>try_decode_frame\<close> called until it waits or
  fails yields, for a stream that starts with encoded frames, those frames and
  then the frames and the first error that the remaining bytes give when they
  arrive at once.
\<close>

theorem frame_stream_chunking:
  assumes "concat pieces = concat (map (\<lambda>fr. encode_frame fr []) frs) @ rest"
    and "\<forall>fr \<in> set frs. frame_ok (frame_view fr) \<and> payload_wf (fr_payload fr)"
  shows "map frame_view (fst (read_pieces cb_new pieces)) = map frame_view frs @ map frame_view (fst (read_pieces cb_new [rest]))
    \<and> snd (read_pieces cb_new pieces) = snd (read_pieces cb_new [rest])"
proof -
  have "frame_dec [] = Ok None" by (simp add: frame_dec_def frame_hdr_def)
  then have nil: "drain frame_dec [] = ([], None, [])" by (rule frame_stream.drain_wait)
  have flat: "cb_flat cb_new = []" using in_buf.fold_add [OF cb_new_wf, of "[]"] by simp
  have "map (\<lambda>fr. encode_frame fr []) frs = map frame_enc (map frame_view frs)"
    using assms(2) by (simp add: encode_frame_eq)
  with assms(1) have c: "concat pieces = concat (map frame_enc (map frame_view frs)) @ rest" by simp
  have "\<forall>f \<in> set (map frame_view frs). frame_ok f" using assms(2) by auto
  from drain_frames [OF this, of rest]
  have "drain_pieces frame_dec [] pieces = (case drain_pieces frame_dec [] [rest] of (vs, e) \<Rightarrow> (map frame_view frs @ vs, e))"
    using frame_stream.drain_pieces_concat [OF nil, of pieces] frame_stream.drain_pieces_concat [OF nil, of "[rest]"] c
    by (simp del: map_map split: prod.split)
  then show ?thesis
    using read_pieces_refines [OF cb_new_wf, of pieces] read_pieces_refines [OF cb_new_wf, of "[rest]"] flat
    by (simp del: read_pieces.simps)
qed

theorem frame_stream_chunking_witness:
  "concat [[1], [2, 104], [105, 0, 1, 7, 8]] = concat (map (\<lambda>fr. encode_frame fr []) [hello_frame]) @ [0, 1, 7, 8]
   \<and> map frame_view (fst (read_pieces cb_new [[1], [2, 104], [105, 0, 1, 7, 8]])) = [frame_view hello_frame, mk_data False [7]]
   \<and> snd (read_pieces cb_new [[1], [2, 104], [105, 0, 1, 7, 8]]) \<noteq> None"
proof -
  have a: "concat [[1], [2, 104], [105, 0, 1, 7, 8]] = concat (map (\<lambda>fr. encode_frame fr []) [hello_frame]) @ [0, 1, 7, 8]"
    by code_simp
  have b: "frame_ok (frame_view hello_frame)" "payload_wf (fr_payload hello_frame)" by code_simp+
  then have "\<forall>fr \<in> set [hello_frame]. frame_ok (frame_view fr) \<and> payload_wf (fr_payload fr)" by simp
  moreover have "map frame_view (fst (read_pieces cb_new [[0, 1, 7, 8]])) = [mk_data False [7]]"
    "snd (read_pieces cb_new [[0, 1, 7, 8]]) \<noteq> None"
    by code_simp+
  ultimately show ?thesis using frame_stream_chunking [OF a] a by (simp del: read_pieces.simps)
qed

lemma try_decode_frame_error_iff:
  assumes "cb_wf b"
  shows "(\<exists>e. snd (try_decode_frame b) = Err e) \<longleftrightarrow>
      (\<exists>fl r. cb_flat b = fl # r \<and>
        (fl AND FLAG_RESERVED_MASK \<noteq> 0 \<or> fl AND FLAG_COMMAND \<noteq> 0 \<and> fl AND FLAG_MORE \<noteq> 0
         \<or> fl AND FLAG_LONG \<noteq> 0 \<and> 8 \<le> length r \<and> isize_max < be_val (take 8 r)))"
proof -
  have "(\<exists>e. snd (try_decode_frame b) = Err e) \<longleftrightarrow> (\<exists>e. frame_dec (cb_flat b) = Err e)"
    using try_decode_frame_refines [OF assms] by (auto split: sum.splits option.splits)
  also have "\<dots> \<longleftrightarrow> (\<exists>e. frame_hdr (cb_flat b) = Err e)"
    by (auto simp: frame_dec_def split: sum.splits option.splits if_splits)
  also have "\<dots> \<longleftrightarrow> (\<exists>fl r. cb_flat b = fl # r \<and>
        (fl AND FLAG_RESERVED_MASK \<noteq> 0 \<or> fl AND FLAG_COMMAND \<noteq> 0 \<and> fl AND FLAG_MORE \<noteq> 0
         \<or> fl AND FLAG_LONG \<noteq> 0 \<and> 8 \<le> length r \<and> isize_max < be_val (take 8 r)))"
    by (cases "cb_flat b") (auto simp: frame_hdr_def Let_def split: list.splits)
  finally show ?thesis .
qed

lemma try_decode_frame_no_frame:
  "cb_wf b \<Longrightarrow> (\<forall>fr. snd (try_decode_frame b) \<noteq> Ok (Some fr)) \<Longrightarrow> fst (try_decode_frame b) = b"
  using try_decode_frame_refines [of b] by (auto split: sum.splits option.splits)

lemma try_decode_frame_progress:
  assumes "cb_wf b" "snd (try_decode_frame b) = Ok (Some fr)"
  shows "cb_len (fst (try_decode_frame b)) < cb_len b \<and> cb_wf (fst (try_decode_frame b))"
proof -
  from assms(2) try_decode_frame_refines [OF assms(1)] obtain f k b' where
    f: "frame_dec (cb_flat b) = Ok (Some (f, k))"
    "fst (try_decode_frame b) = b'" "cb_flat b' = drop k (cb_flat b)" "cb_wf b'"
    by (auto split: sum.splits option.splits)
  with frame_stream.progress [OF f(1)] assms(1) show ?thesis
    by (simp add: cb_len_flat) linarith
qed

text \<open>
  C30.  What the frame decoder rejects: it fails exactly when the first byte has
  a reserved bit, or COMMAND together with MORE, or LONG with a size above the
  allocation limit; an error or an incomplete frame leaves the buffer as it
  was, and a success always consumes at least one byte.
\<close>

theorem frame_errors_exact:
  assumes "cb_wf b"
  shows "((\<exists>e. snd (try_decode_frame b) = Err e) \<longleftrightarrow>
      (\<exists>fl r. cb_flat b = fl # r \<and>
        (fl AND FLAG_RESERVED_MASK \<noteq> 0 \<or> fl AND FLAG_COMMAND \<noteq> 0 \<and> fl AND FLAG_MORE \<noteq> 0
         \<or> fl AND FLAG_LONG \<noteq> 0 \<and> 8 \<le> length r \<and> isize_max < be_val (take 8 r))))
    \<and> ((\<forall>fr. snd (try_decode_frame b) \<noteq> Ok (Some fr)) \<longrightarrow> fst (try_decode_frame b) = b)
    \<and> (\<forall>fr. snd (try_decode_frame b) = Ok (Some fr) \<longrightarrow> cb_len (fst (try_decode_frame b)) < cb_len b)"
  using try_decode_frame_error_iff [OF assms] try_decode_frame_no_frame [OF assms]
    try_decode_frame_progress [OF assms]
  by blast

theorem frame_errors_exact_witness:
  "cb_wf (cb_push cb_new [5, 0]) \<and> (\<exists>e. snd (try_decode_frame (cb_push cb_new [5, 0])) = Err e)
   \<and> fst (try_decode_frame (cb_push cb_new [5, 0])) = cb_push cb_new [5, 0]"
proof -
  have wf: "cb_wf (cb_push cb_new [5, 0])" by (intro cb_push_wf cb_new_wf)
  have flat: "cb_flat (cb_push cb_new [5, 0]) = [5, 0]" by (simp add: cb_push_flat cb_new_wf)
  have err: "\<exists>e. snd (try_decode_frame (cb_push cb_new [5, 0])) = Err e"
    unfolding frame_errors_exact [OF wf, THEN conjunct1] flat by (simp add: frame_flag_defs)
  with frame_errors_exact [OF wf] wf show ?thesis by auto
qed

end
