(* ===== verification/Greeting.thy ===== *)
theory Greeting
  imports Chunked_Buf Stream_Decode
begin

text \<open>
  The ZMTP greeting, \<^verbatim>\<open>omq-proto/src/proto/greeting.rs\<close>: 64 bytes with a signature, the
  version, the mechanism name padded to 20 bytes and the server flag.  A
  \<^verbatim>\<open>MechanismName\<close> is its padded byte list.
\<close>

section \<open>Mechanism names\<close>

definition GREETING_LEN :: nat where "GREETING_LEN = 64"
definition VERSION_SNIFF_LEN :: nat where "VERSION_SNIFF_LEN = 11"
definition ZMTP_MAJOR :: u8 where "ZMTP_MAJOR = 3"
definition ZMTP_MINOR :: u8 where "ZMTP_MINOR = 1"
definition SIGNATURE :: bytes where "SIGNATURE = [0xFF, 0, 0, 0, 0, 0, 0, 0, 0, 0x7F]"
definition MECHANISM_BYTES :: nat where "MECHANISM_BYTES = 20"

type_synonym mechanism_name = bytes

text \<open>The assertions of \<^verbatim>\<open>from_ascii_panic\<close> are the \<open>None\<close> cases.\<close>

definition from_ascii_panic :: "bytes \<Rightarrow> mechanism_name option" where
  "from_ascii_panic name =
     (if length name \<le> MECHANISM_BYTES \<and> list_all (\<lambda>b. b \<noteq> 0 \<and> b < 0x80) name
      then Some (name @ replicate (MECHANISM_BYTES - length name) 0) else None)"

definition MECH_NULL :: mechanism_name where
  "MECH_NULL = the (from_ascii_panic (ascii ''NULL''))"
definition MECH_CURVE :: mechanism_name where
  "MECH_CURVE = the (from_ascii_panic (ascii ''CURVE''))"
definition MECH_PLAIN :: mechanism_name where
  "MECH_PLAIN = the (from_ascii_panic (ascii ''PLAIN''))"

definition mech_as_bytes :: "mechanism_name \<Rightarrow> bytes" where
  "mech_as_bytes m =
     take (case position (\<lambda>b. b = 0) m of Some n \<Rightarrow> n | None \<Rightarrow> MECHANISM_BYTES) m"

definition mech_as_str :: "mechanism_name \<Rightarrow> bytes result" where
  "mech_as_str m =
     (if utf8_valid (mech_as_bytes m) then Ok (mech_as_bytes m)
      else Err (Protocol ''mechanism name is not valid ASCII''))"

section \<open>Greetings\<close>

record greeting =
  gr_major :: u8
  gr_minor :: u8
  gr_mechanism :: mechanism_name
  gr_as_server :: bool

definition greeting_current :: "mechanism_name \<Rightarrow> bool \<Rightarrow> greeting" where
  "greeting_current mech srv =
     \<lparr>gr_major = ZMTP_MAJOR, gr_minor = ZMTP_MINOR, gr_mechanism = mech, gr_as_server = srv\<rparr>"

definition greeting_encode :: "greeting \<Rightarrow> bytes \<Rightarrow> bytes" where
  "greeting_encode g out =
     out @ SIGNATURE @ [gr_major g] @ [gr_minor g] @ gr_mechanism g
       @ [if gr_as_server g then 1 else 0]
       @ replicate (GREETING_LEN - (10 + 2 + MECHANISM_BYTES + 1)) 0"

definition peek_major :: "bytes \<Rightarrow> u8 option result" where
  "peek_major buf =
     (if length buf < VERSION_SNIFF_LEN then Ok None
      else if buf ! 0 \<noteq> SIGNATURE ! 0 \<or> buf ! 9 \<noteq> SIGNATURE ! 9
      then Err (Protocol ''bad ZMTP greeting signature'')
      else if buf ! 10 < 3 then Err (UnsupportedZmtpVersion (buf ! 10) 0)
      else Ok (Some (buf ! 10)))"

text \<open>The scan for bytes after a NUL in the mechanism field.\<close>

fun stray_after_nul :: "bool \<Rightarrow> bytes \<Rightarrow> bool" where
  "stray_after_nul saw_zero [] = False"
| "stray_after_nul saw_zero (b # bs) =
     (if b = 0 then stray_after_nul True bs
      else if saw_zero then True else stray_after_nul saw_zero bs)"

definition greeting_try_decode ::
  "chunked_buf \<Rightarrow> chunked_buf \<times> (greeting \<times> bytes) option result" where
  "greeting_try_decode buf =
     (case peek_array VERSION_SNIFF_LEN buf of
        None \<Rightarrow> (buf, Ok None)
      | Some sniff \<Rightarrow>
          (case peek_major sniff of
             Inl e \<Rightarrow> (buf, Err e)
           | Inr None \<Rightarrow> (buf, Ok None)
           | Inr (Some _) \<Rightarrow>
               if cb_len buf < GREETING_LEN then (buf, Ok None)
               else let raw = the (peek_array GREETING_LEN buf);
                        (raw_payload, buf) = split_to GREETING_LEN buf;
                        raw_bytes = payload_as_bytes raw_payload;
                        major = raw ! 10;
                        minor = raw ! 11
                 in if major < ZMTP_MAJOR then (buf, Err (UnsupportedZmtpVersion major minor))
                    else let mech_raw = take MECHANISM_BYTES (drop 12 raw)
                      in if stray_after_nul False mech_raw
                         then (buf, Err (Protocol ''mechanism name has bytes after NUL''))
                         else (buf, Ok (Some (\<lparr>gr_major = major, gr_minor = minor,
                                gr_mechanism = mech_raw, gr_as_server = (raw ! 32 \<noteq> 0)\<rparr>, raw_bytes)))))"

definition effective_minor :: "u8 \<Rightarrow> u8" where
  "effective_minor peer_minor = min peer_minor ZMTP_MINOR"

section \<open>Reference decoder\<close>

definition greeting_of :: "bytes \<Rightarrow> greeting" where
  "greeting_of xs = \<lparr>gr_major = xs ! 10, gr_minor = xs ! 11,
     gr_mechanism = take 20 (drop 12 xs), gr_as_server = (xs ! 32 \<noteq> 0)\<rparr>"

definition greeting_dec :: "bytes \<Rightarrow> ((greeting \<times> bytes) \<times> nat) option result" where
  "greeting_dec xs =
     (if length xs < 11 then Ok None
      else if xs ! 0 \<noteq> 0xFF \<or> xs ! 9 \<noteq> 0x7F then Err (Protocol ''bad ZMTP greeting signature'')
      else if xs ! 10 < 3 then Err (UnsupportedZmtpVersion (xs ! 10) 0)
      else if length xs < 64 then Ok None
      else if stray_after_nul False (take 20 (drop 12 xs))
      then Err (Protocol ''mechanism name has bytes after NUL'')
      else Ok (Some ((greeting_of xs, take 64 xs), 64)))"

lemmas greeting_consts = GREETING_LEN_def VERSION_SNIFF_LEN_def ZMTP_MAJOR_def ZMTP_MINOR_def
  SIGNATURE_def MECHANISM_BYTES_def

lemma greeting_of_append: "64 \<le> length xs \<Longrightarrow> greeting_of (xs @ ys) = greeting_of xs"
  by (simp add: greeting_of_def nth_append)

lemma greeting_dec_stable:
  assumes "greeting_dec xs \<noteq> Ok None"
  shows "greeting_dec (xs @ ys) = greeting_dec xs"
proof -
  from assms have len: "11 \<le> length xs"
    by (simp add: greeting_dec_def split: if_splits)
  then have sniff: "(xs @ ys) ! 0 = xs ! 0" "(xs @ ys) ! 9 = xs ! 9" "(xs @ ys) ! 10 = xs ! 10"
    by (auto simp: nth_append)
  show ?thesis
  proof (cases "64 \<le> length xs")
    case True
    with len show ?thesis
      by (simp only: greeting_dec_def sniff greeting_of_append) simp
  next
    case False
    with len assms show ?thesis
      by (simp only: greeting_dec_def sniff) (simp split: if_splits)
  qed
qed

interpretation greeting_stream: stream_decoder greeting_dec
proof
  show "greeting_dec xs = Ok (Some (v, k)) \<Longrightarrow> greeting_dec (xs @ ys) = Ok (Some (v, k))" for xs ys v k
    by (simp add: greeting_dec_stable)
  show "greeting_dec xs = Err e \<Longrightarrow> greeting_dec (xs @ ys) = Err e" for xs ys e
    by (simp add: greeting_dec_stable)
  show "greeting_dec xs = Ok (Some (v, k)) \<Longrightarrow> 0 < k \<and> k \<le> length xs" for xs v k
    by (simp add: greeting_dec_def split: if_splits)
qed

lemma greeting_try_decode_refines:
  assumes wf: "cb_wf b"
  shows "case greeting_dec (cb_flat b) of
      Inl e \<Rightarrow> snd (greeting_try_decode b) = Err e
    | Inr None \<Rightarrow> greeting_try_decode b = (b, Ok None)
    | Inr (Some (g, k)) \<Rightarrow>
        \<exists>b'. greeting_try_decode b = (b', Ok (Some g)) \<and> cb_flat b' = drop k (cb_flat b) \<and> cb_wf b'"
proof (cases "64 \<le> length (cb_flat b)")
  case False
  then show ?thesis
    using wf by (simp add: greeting_try_decode_def greeting_dec_def peek_major_def greeting_consts
      peek_array_flat cb_len_flat)
next
  case True
  from split_to_refines [OF wf True] obtain p b' where
    sp: "split_to 64 b = (p, b')" "payload_as_slice p = take 64 (cb_flat b)"
      "cb_flat b' = drop 64 (cb_flat b)" "cb_wf b'"
    by (cases "split_to 64 b") simp
  have field: "take 20 (drop 12 (take 64 (cb_flat b))) = take 20 (drop 12 (cb_flat b))"
    by (simp add: drop_take)
  have peek: "peek_array 11 b = Some (take 11 (cb_flat b))" "peek_array 64 b = Some (take 64 (cb_flat b))"
    and len: "\<not> cb_len b < 64" "\<not> length (cb_flat b) < 64" "\<not> length (cb_flat b) < 11"
    using True wf by (simp_all add: peek_array_flat cb_len_flat)
  have major: "peek_major (take 11 (cb_flat b)) =
     (if cb_flat b ! 0 \<noteq> 0xFF \<or> cb_flat b ! 9 \<noteq> 0x7F then Err (Protocol ''bad ZMTP greeting signature'')
      else if cb_flat b ! 10 < 3 then Err (UnsupportedZmtpVersion (cb_flat b ! 10) 0)
      else Ok (Some (cb_flat b ! 10)))"
    using True by (simp add: peek_major_def VERSION_SNIFF_LEN_def SIGNATURE_def)
  show ?thesis
    unfolding greeting_try_decode_def greeting_dec_def GREETING_LEN_def VERSION_SNIFF_LEN_def
      MECHANISM_BYTES_def ZMTP_MAJOR_def peek option.case major sp(1) Let_def
    using len sp(2-) by (simp add: field greeting_of_def view_simps)
qed

section \<open>Properties\<close>

definition greeting_ok :: "greeting \<Rightarrow> bool" where
  "greeting_ok g \<longleftrightarrow> length (gr_mechanism g) = 20 \<and> \<not> stray_after_nul False (gr_mechanism g)
     \<and> 3 \<le> gr_major g"

lemma length_greeting_encode: "greeting_ok g \<Longrightarrow> length (greeting_encode g []) = 64"
  by (simp add: greeting_encode_def greeting_ok_def greeting_consts)

lemma greeting_dec_encode:
  assumes "greeting_ok g"
  shows "greeting_dec (greeting_encode g [] @ rest) = Ok (Some ((g, greeting_encode g []), 64))"
proof -
  have m: "length (gr_mechanism g) = 20" using assms by (simp add: greeting_ok_def)
  let ?xs = "greeting_encode g []"
  have fields: "?xs ! 0 = 0xFF" "?xs ! 9 = 0x7F" "?xs ! 10 = gr_major g" "?xs ! 11 = gr_minor g"
      "take 20 (drop 12 ?xs) = gr_mechanism g" "?xs ! 32 = (if gr_as_server g then 1 else 0)"
    using m by (simp_all add: greeting_encode_def greeting_consts nth_append)
  have "greeting_of ?xs = g"
    by (simp add: greeting_of_def fields)
  moreover have "\<not> gr_major g < 3" using assms by (simp add: greeting_ok_def not_less)
  ultimately have "greeting_dec ?xs = Ok (Some ((g, ?xs), 64))"
    using assms length_greeting_encode [OF assms]
    by (simp add: greeting_dec_def fields greeting_ok_def)
  then show ?thesis by (rule greeting_stream.unit_stable)
qed

text \<open>
  C31.  Greeting round trip: a greeting we can send, delivered in any chunks and
  followed by any bytes, is decoded to the same version, mechanism and server
  flag together with its own 64 raw bytes, and nothing more is consumed.
\<close>

theorem greeting_round_trip:
  assumes "greeting_ok g" "concat chunks = greeting_encode g [] @ rest"
  shows "\<exists>b'. greeting_try_decode (foldl cb_push cb_new chunks)
      = (b', Ok (Some (g, greeting_encode g []))) \<and> cb_flat b' = rest \<and> cb_wf b'"
proof -
  let ?b = "foldl cb_push cb_new chunks"
  have b: "cb_flat ?b = greeting_encode g [] @ rest" "cb_wf ?b"
    using in_buf.fold_add [OF cb_new_wf, of chunks] assms(2) by simp_all
  from greeting_try_decode_refines [OF b(2)] show ?thesis
    using length_greeting_encode [OF assms(1)]
    by (simp add: b(1) greeting_dec_encode [OF assms(1)])
qed

theorem greeting_round_trip_witness:
  "greeting_ok (greeting_current MECH_NULL True)
   \<and> (\<exists>b'. greeting_try_decode (foldl cb_push cb_new [greeting_encode (greeting_current MECH_NULL True) [] @ [4]])
        = (b', Ok (Some (greeting_current MECH_NULL True, greeting_encode (greeting_current MECH_NULL True) [])))
      \<and> cb_flat b' = [4] \<and> cb_wf b')"
proof -
  have ok: "greeting_ok (greeting_current MECH_NULL True)" by code_simp
  have "concat [greeting_encode (greeting_current MECH_NULL True) [] @ [4]]
      = greeting_encode (greeting_current MECH_NULL True) [] @ [4]" by simp
  from greeting_round_trip [OF ok this] ok show ?thesis by simp
qed

text \<open>
  Version and signature gate: from the eleventh byte on, a peer whose
  signature bytes 0 and 9 are wrong is rejected as a protocol error and a
  peer with a major version below 3 as an unsupported version, whatever
  follows; with fewer than eleven bytes nothing is decided and nothing is
  consumed.  A greeting that is accepted has major version at least 3 and no
  byte after a NUL in its mechanism name.
\<close>

lemma greeting_gate:
  assumes "cb_wf b"
  shows "(length (cb_flat b) < 11 \<longrightarrow> greeting_try_decode b = (b, Ok None))
    \<and> (11 \<le> length (cb_flat b) \<and> (cb_flat b ! 0 \<noteq> 0xFF \<or> cb_flat b ! 9 \<noteq> 0x7F) \<longrightarrow>
         snd (greeting_try_decode b) = Err (Protocol ''bad ZMTP greeting signature''))
    \<and> (11 \<le> length (cb_flat b) \<and> cb_flat b ! 0 = 0xFF \<and> cb_flat b ! 9 = 0x7F \<and> cb_flat b ! 10 < 3 \<longrightarrow>
         snd (greeting_try_decode b) = Err (UnsupportedZmtpVersion (cb_flat b ! 10) 0))
    \<and> (\<forall>g raw. snd (greeting_try_decode b) = Ok (Some (g, raw)) \<longrightarrow>
         3 \<le> gr_major g \<and> \<not> stray_after_nul False (gr_mechanism g) \<and> raw = take 64 (cb_flat b))"
proof -
  note r = greeting_try_decode_refines [OF assms]
  have acc: "\<exists>k. greeting_dec (cb_flat b) = Ok (Some ((g, raw), k))"
    if "snd (greeting_try_decode b) = Ok (Some (g, raw))" for g raw
    using r that by (auto split: sum.splits option.splits)
  have "3 \<le> gr_major g \<and> \<not> stray_after_nul False (gr_mechanism g) \<and> raw = take 64 (cb_flat b)"
    if "snd (greeting_try_decode b) = Ok (Some (g, raw))" for g raw
    using acc [OF that] by (auto simp: greeting_dec_def greeting_of_def not_less split: if_splits)
  moreover have "length (cb_flat b) < 11 \<Longrightarrow> greeting_try_decode b = (b, Ok None)"
    using r by (simp add: greeting_dec_def)
  moreover have "snd (greeting_try_decode b) = Err (Protocol ''bad ZMTP greeting signature'')"
    if "11 \<le> length (cb_flat b)" "cb_flat b ! 0 \<noteq> 0xFF \<or> cb_flat b ! 9 \<noteq> 0x7F"
    using r that by (simp add: greeting_dec_def)
  moreover have "snd (greeting_try_decode b) = Err (UnsupportedZmtpVersion (cb_flat b ! 10) 0)"
    if "11 \<le> length (cb_flat b)" "cb_flat b ! 0 = 0xFF" "cb_flat b ! 9 = 0x7F" "cb_flat b ! 10 < 3"
    using r that by (simp add: greeting_dec_def)
  ultimately show ?thesis by blast
qed

theorem greeting_gate_witness:
  "cb_wf (cb_push cb_new (SIGNATURE @ [2]))
   \<and> snd (greeting_try_decode (cb_push cb_new (SIGNATURE @ [2]))) = Err (UnsupportedZmtpVersion 2 0)"
proof -
  have wf: "cb_wf (cb_push cb_new (SIGNATURE @ [2]))" by (intro cb_push_wf cb_new_wf)
  have "cb_flat (cb_push cb_new (SIGNATURE @ [2])) = [0xFF, 0, 0, 0, 0, 0, 0, 0, 0, 0x7F, 2]"
    by (simp add: cb_push_flat cb_new_wf SIGNATURE_def)
  with greeting_gate [OF wf] wf show ?thesis by simp
qed

end
