(* ===== verification/Socket_Type.thy ===== *)
theory Socket_Type
  imports Omq_Prelude
begin

text \<open>
  Socket types, their wire names and the compatibility matrix
  (\<^verbatim>\<open>omq-proto/src/proto/mod.rs\<close>), and the routing categories both runtimes share
  (\<^verbatim>\<open>omq-proto/src/routing.rs\<close>).  \<^verbatim>\<open>SocketType::Pair\<close> is \<open>PairS\<close>, the name \<open>Pair\<close> being taken.
\<close>

datatype socket_type =
    Req | Rep | Pub | Sub | XPub
  | XSub | Push | Pull | Dealer | Router
  | PairS | Client | Server | Radio | Dish
  | Scatter | Gather | Channel | Peer | Stream

instantiation socket_type :: enum
begin

definition enum_socket_type :: "socket_type list" where
  "enum_socket_type =
     [Req, Rep, Pub, Sub, XPub, XSub, Push, Pull, Dealer, Router, PairS, Client, Server, 
      Radio, Dish, Scatter, Gather, Channel, Peer, Stream]"

definition enum_all_socket_type :: "(socket_type \<Rightarrow> bool) \<Rightarrow> bool" where
  "enum_all_socket_type P = list_all P enum_class.enum"

definition enum_ex_socket_type :: "(socket_type \<Rightarrow> bool) \<Rightarrow> bool" where
  "enum_ex_socket_type P = list_ex P enum_class.enum"

instance
proof
  have univ: "(UNIV :: socket_type set) = set enum_class.enum"
  proof (intro set_eqI iffI)
    show "t \<in> set enum_class.enum" for t :: socket_type
      by (cases t) (simp_all add: enum_socket_type_def)
  qed simp
  then show "(UNIV :: socket_type set) = set enum_class.enum" .
  show "distinct (enum_class.enum :: socket_type list)"
    by (simp add: enum_socket_type_def)
  show "enum_class.enum_all P \<longleftrightarrow> Ball UNIV P" for P :: "socket_type \<Rightarrow> bool"
    by (simp add: enum_all_socket_type_def univ list_all_iff)
  show "enum_class.enum_ex P \<longleftrightarrow> Bex UNIV P" for P :: "socket_type \<Rightarrow> bool"
    by (simp add: enum_ex_socket_type_def univ list_ex_iff)
qed

end

fun as_str :: "socket_type \<Rightarrow> bytes" where
  "as_str Req = ascii ''REQ''"
| "as_str Rep = ascii ''REP''"
| "as_str Pub = ascii ''PUB''"
| "as_str Sub = ascii ''SUB''"
| "as_str XPub = ascii ''XPUB''"
| "as_str XSub = ascii ''XSUB''"
| "as_str Push = ascii ''PUSH''"
| "as_str Pull = ascii ''PULL''"
| "as_str Dealer = ascii ''DEALER''"
| "as_str Router = ascii ''ROUTER''"
| "as_str PairS = ascii ''PAIR''"
| "as_str Client = ascii ''CLIENT''"
| "as_str Server = ascii ''SERVER''"
| "as_str Radio = ascii ''RADIO''"
| "as_str Dish = ascii ''DISH''"
| "as_str Scatter = ascii ''SCATTER''"
| "as_str Gather = ascii ''GATHER''"
| "as_str Channel = ascii ''CHANNEL''"
| "as_str Peer = ascii ''PEER''"
| "as_str Stream = ascii ''STREAM''"

definition from_wire :: "bytes \<Rightarrow> socket_type option" where
  "from_wire name =
     (if name = ascii ''REQ'' then Some Req
      else if name = ascii ''REP'' then Some Rep
      else if name = ascii ''PUB'' then Some Pub
      else if name = ascii ''SUB'' then Some Sub
      else if name = ascii ''XPUB'' then Some XPub
      else if name = ascii ''XSUB'' then Some XSub
      else if name = ascii ''PUSH'' then Some Push
      else if name = ascii ''PULL'' then Some Pull
      else if name = ascii ''DEALER'' then Some Dealer
      else if name = ascii ''ROUTER'' then Some Router
      else if name = ascii ''PAIR'' then Some PairS
      else if name = ascii ''CLIENT'' then Some Client
      else if name = ascii ''SERVER'' then Some Server
      else if name = ascii ''RADIO'' then Some Radio
      else if name = ascii ''DISH'' then Some Dish
      else if name = ascii ''SCATTER'' then Some Scatter
      else if name = ascii ''GATHER'' then Some Gather
      else if name = ascii ''CHANNEL'' then Some Channel
      else if name = ascii ''PEER'' then Some Peer
      else if name = ascii ''STREAM'' then Some Stream
      else None)"

definition is_compatible :: "socket_type \<Rightarrow> socket_type \<Rightarrow> bool" where
  "is_compatible ours theirs \<longleftrightarrow>
     (case ours of
        Pub \<Rightarrow> theirs \<in> {Sub, XSub}
      | XPub \<Rightarrow> theirs \<in> {Sub, XSub}
      | Sub \<Rightarrow> theirs \<in> {Pub, XPub}
      | XSub \<Rightarrow> theirs \<in> {Pub, XPub}
      | Push \<Rightarrow> theirs = Pull
      | Pull \<Rightarrow> theirs = Push
      | Req \<Rightarrow> theirs \<in> {Rep, Router, Dealer}
      | Rep \<Rightarrow> theirs \<in> {Req, Dealer}
      | Dealer \<Rightarrow> theirs \<in> {Req, Rep, Dealer, Router}
      | Router \<Rightarrow> theirs \<in> {Req, Dealer, Router}
      | PairS \<Rightarrow> theirs = PairS
      | Client \<Rightarrow> theirs = Server
      | Server \<Rightarrow> theirs = Client
      | Radio \<Rightarrow> theirs = Dish
      | Dish \<Rightarrow> theirs = Radio
      | Scatter \<Rightarrow> theirs = Gather
      | Gather \<Rightarrow> theirs = Scatter
      | Channel \<Rightarrow> theirs = Channel
      | Peer \<Rightarrow> theirs = Peer
      | Stream \<Rightarrow> False)"

section \<open>Routing categories\<close>

datatype fan_out_kind = SubscriptionPrefix | Group

datatype send_category = RoundRobin | Exclusive | IdentityRouted | FanOut fan_out_kind | SendNone

datatype recv_category = FairQueue | IdentityRecv | RecvNone

definition send_category_of :: "socket_type \<Rightarrow> send_category" where
  "send_category_of t =
     (if t \<in> {Push, Dealer, Req, Client, Scatter} then RoundRobin
      else if t \<in> {PairS, Channel} then Exclusive
      else if t \<in> {Router, Rep, Server, Peer, Stream} then IdentityRouted
      else if t \<in> {Pub, XPub} then FanOut SubscriptionPrefix
      else if t = Radio then FanOut Group
      else SendNone)"

definition supports_conflate :: "socket_type \<Rightarrow> bool" where
  "supports_conflate t \<longleftrightarrow>
     t \<in> {Push, Pull, Pub, Sub, XPub, XSub, Radio, Dish, Dealer, Scatter, Gather}"

definition recv_category_of :: "socket_type \<Rightarrow> recv_category" where
  "recv_category_of t =
     (if t \<in> {Router, Rep, Server, Peer, Stream} then IdentityRecv
      else if t \<in> {Push, Pub, Radio, Scatter} then RecvNone
      else FairQueue)"

section \<open>Properties\<close>

lemma from_wire_as_str [simp]: "from_wire (as_str t) = Some t"
  by (cases t) (simp_all add: from_wire_def wire_eval)

lemma from_wire_SomeD: "from_wire name = Some t \<Longrightarrow> name = as_str t"
  by (auto simp only: from_wire_def as_str.simps split: if_splits)

lemma is_compatible_sym: "is_compatible a b \<longleftrightarrow> is_compatible b a"
proof -
  have "\<forall>a b. is_compatible a b = is_compatible b a" by code_simp
  then show ?thesis by blast
qed

text \<open>
  C32.  Socket types on the wire: parsing inverts printing and accepts nothing
  else; compatibility is symmetric, so both ends of a handshake reach the same
  verdict; and of two compatible types, whichever can send has a peer that can
  receive.
\<close>

theorem socket_type_wire_and_matrix:
  "(from_wire name = Some t \<longleftrightarrow> name = as_str t)
   \<and> (is_compatible a b \<longleftrightarrow> is_compatible b a)
   \<and> (is_compatible a b \<and> send_category_of a \<noteq> SendNone \<longrightarrow> recv_category_of b \<noteq> RecvNone)
   \<and> (is_compatible a b \<longrightarrow> send_category_of a \<noteq> SendNone \<or> send_category_of b \<noteq> SendNone)"
proof -
  have "\<forall>a b. is_compatible a b \<longrightarrow> (send_category_of a \<noteq> SendNone \<longrightarrow> recv_category_of b \<noteq> RecvNone)
      \<and> (send_category_of a \<noteq> SendNone \<or> send_category_of b \<noteq> SendNone)"
    by code_simp
  with is_compatible_sym [of a b] from_wire_SomeD [of name t] show ?thesis by auto
qed

theorem socket_type_wire_and_matrix_witness:
  "from_wire (as_str Dealer) = Some Dealer \<and> is_compatible Push Pull \<and> recv_category_of Pull \<noteq> RecvNone"
proof -
  have "is_compatible Push Pull \<and> send_category_of Push \<noteq> SendNone" by code_simp
  with socket_type_wire_and_matrix [of "as_str Dealer" Dealer Push Pull] show ?thesis by blast
qed

end
