(* ===== verification/Command.thy ===== *)
theory Command
  imports Socket_Type
begin

text \<open>
  ZMTP commands, \<^verbatim>\<open>omq-proto/src/proto/command.rs\<close>: the payload of a COMMAND frame is a
  length-prefixed name and a body of its own format.  The assertions of the
  encoders (names up to 255 bytes, property values below 4 GiB) are the \<open>None\<close>
  cases; a \<^verbatim>\<open>String\<close> is its UTF-8 bytes.
\<close>

section \<open>Data\<close>

definition NAME_READY :: bytes where "NAME_READY = ascii ''READY''"
definition NAME_SUBSCRIBE :: bytes where "NAME_SUBSCRIBE = ascii ''SUBSCRIBE''"
definition NAME_CANCEL :: bytes where "NAME_CANCEL = ascii ''CANCEL''"
definition NAME_PING :: bytes where "NAME_PING = ascii ''PING''"
definition NAME_PONG :: bytes where "NAME_PONG = ascii ''PONG''"
definition NAME_ERROR :: bytes where "NAME_ERROR = ascii ''ERROR''"
definition NAME_JOIN :: bytes where "NAME_JOIN = ascii ''JOIN''"
definition NAME_LEAVE :: bytes where "NAME_LEAVE = ascii ''LEAVE''"
definition PING_CONTEXT_MAX :: nat where "PING_CONTEXT_MAX = 16"

record peer_properties =
  pp_socket_type :: "socket_type option"
  pp_identity :: "bytes option"
  pp_other :: "(bytes \<times> bytes) list"

datatype command =
    Ready peer_properties
  | Subscribe bytes
  | Cancel bytes
  | Ping u16 bytes
  | Pong bytes
  | CmdError bytes
  | Join bytes
  | Leave bytes
  | Unknown bytes bytes

datatype command_kind =
    KReady | KSubscribe | KCancel | KPing | KPong | KError | KJoin | KLeave | KUnknown

fun cmd_kind :: "command \<Rightarrow> command_kind" where
  "cmd_kind (Ready _) = KReady"
| "cmd_kind (Subscribe _) = KSubscribe"
| "cmd_kind (Cancel _) = KCancel"
| "cmd_kind (Ping _ _) = KPing"
| "cmd_kind (Pong _) = KPong"
| "cmd_kind (CmdError _) = KError"
| "cmd_kind (Join _) = KJoin"
| "cmd_kind (Leave _) = KLeave"
| "cmd_kind (Unknown _ _) = KUnknown"

definition props_new :: peer_properties where
  "props_new = \<lparr>pp_socket_type = None, pp_identity = None, pp_other = []\<rparr>"

definition with_socket_type :: "socket_type \<Rightarrow> peer_properties \<Rightarrow> peer_properties" where
  "with_socket_type t p = p\<lparr>pp_socket_type := Some t\<rparr>"

definition with_identity :: "bytes \<Rightarrow> peer_properties \<Rightarrow> peer_properties" where
  "with_identity ident p = (if ident \<noteq> [] then p\<lparr>pp_identity := Some ident\<rparr> else p)"

definition props_add :: "bytes \<Rightarrow> bytes \<Rightarrow> peer_properties \<Rightarrow> peer_properties" where
  "props_add name val p = p\<lparr>pp_other := pp_other p @ [(name, val)]\<rparr>"

section \<open>Encoding\<close>

definition write_name :: "bytes \<Rightarrow> bytes \<Rightarrow> bytes option" where
  "write_name out name =
     (if length name \<le> 255 then Some (out @ [of_nat (length name)] @ name) else None)"

definition write_property :: "bytes \<Rightarrow> bytes \<Rightarrow> bytes \<Rightarrow> bytes option" where
  "write_property out name val =
     (if length name \<le> 255 \<and> length val < 2 ^ 32
      then Some (out @ [of_nat (length name)] @ name @ be_bytes 4 (length val) @ val) else None)"

fun write_others :: "(bytes \<times> bytes) list \<Rightarrow> bytes \<Rightarrow> bytes option" where
  "write_others [] out = Some out"
| "write_others ((k, v) # kvs) out = Option.bind (write_property out k v) (write_others kvs)"

definition encode_properties_inner :: "peer_properties \<Rightarrow> bytes \<Rightarrow> bytes option" where
  "encode_properties_inner props out =
     Option.bind
       (case pp_socket_type props of
          Some t \<Rightarrow> write_property out (ascii ''Socket-Type'') (as_str t) | None \<Rightarrow> Some out)
       (\<lambda>out. Option.bind
         (case pp_identity props of
            Some ident \<Rightarrow> write_property out (ascii ''Identity'') ident | None \<Rightarrow> Some out)
         (write_others (pp_other props)))"

definition encode_properties :: "peer_properties \<Rightarrow> bytes option" where
  "encode_properties props = encode_properties_inner props []"

fun cmd_encode :: "command \<Rightarrow> bytes \<Rightarrow> bytes option" where
  "cmd_encode (Ready props) out = Option.bind (write_name out NAME_READY) (encode_properties_inner props)"
| "cmd_encode (Subscribe pre) out = map_option (\<lambda>o'. o' @ pre) (write_name out NAME_SUBSCRIBE)"
| "cmd_encode (Cancel pre) out = map_option (\<lambda>o'. o' @ pre) (write_name out NAME_CANCEL)"
| "cmd_encode (Ping ttl ctx) out =
     map_option (\<lambda>o'. o' @ be_bytes 2 (unat ttl) @ ctx) (write_name out NAME_PING)"
| "cmd_encode (Pong ctx) out = map_option (\<lambda>o'. o' @ ctx) (write_name out NAME_PONG)"
| "cmd_encode (CmdError reason) out =
     map_option (\<lambda>o'. let bs = take (min (length reason) 255) reason
                      in o' @ [of_nat (length bs)] @ bs)
       (write_name out NAME_ERROR)"
| "cmd_encode (Join grp) out = map_option (\<lambda>o'. o' @ grp) (write_name out NAME_JOIN)"
| "cmd_encode (Leave grp) out = map_option (\<lambda>o'. o' @ grp) (write_name out NAME_LEAVE)"
| "cmd_encode (Unknown name body) out =
     (if length name \<le> 255 then Some (out @ [of_nat (length name)] @ name @ body) else None)"

section \<open>Decoding\<close>

definition ascii_alphanumeric :: "u8 \<Rightarrow> bool" where
  "ascii_alphanumeric b \<longleftrightarrow>
     48 \<le> b \<and> b \<le> 57 \<or> 65 \<le> b \<and> b \<le> 90 \<or> 97 \<le> b \<and> b \<le> 122"

definition prop_char :: "u8 \<Rightarrow> bool" where
  "prop_char b \<longleftrightarrow> ascii_alphanumeric b \<or> b = 45 \<or> b = 95 \<or> b = 46 \<or> b = 43"

definition to_ascii_lower :: "u8 \<Rightarrow> u8" where
  "to_ascii_lower b = (if 65 \<le> b \<and> b \<le> 90 then b + 32 else b)"

definition eq_ignore_ascii_case :: "bytes \<Rightarrow> bytes \<Rightarrow> bool" where
  "eq_ignore_ascii_case a b \<longleftrightarrow> map to_ascii_lower a = map to_ascii_lower b"

definition store_property :: "peer_properties \<Rightarrow> bytes \<Rightarrow> bytes \<Rightarrow> peer_properties result" where
  "store_property props name val =
     (if eq_ignore_ascii_case name (ascii ''Socket-Type'') then
        (if pp_socket_type props \<noteq> None then Err (Protocol ''duplicate Socket-Type property'')
         else (case from_wire val of
                 None \<Rightarrow> Err (Protocol ''unknown peer socket type: {:?}'')
               | Some t \<Rightarrow> Ok (props\<lparr>pp_socket_type := Some t\<rparr>)))
      else if eq_ignore_ascii_case name (ascii ''Identity'') then
        (if pp_identity props \<noteq> None then Err (Protocol ''duplicate Identity property'')
         else Ok (if val \<noteq> [] then props\<lparr>pp_identity := Some val\<rparr> else props))
      else Ok (props\<lparr>pp_other := pp_other props @ [(name, val)]\<rparr>))"

function decode_properties_loop :: "peer_properties \<Rightarrow> bytes \<Rightarrow> peer_properties result" where
  "decode_properties_loop props body =
     (if body = [] then Ok props
      else let name_len = unat (hd body)
        in if name_len = 0 then Err (Protocol ''READY property name is empty'')
           else if length body < 1 + name_len + 4 then Err (Protocol ''READY property truncated'')
           else let name = take name_len (drop 1 body)
             in if \<not> list_all prop_char name
                then Err (Protocol ''READY property name contains invalid characters'')
                else let value_len = be_val (take 4 (drop (1 + name_len) body));
                         val_start = 1 + name_len + 4
                  in if length body < val_start + value_len
                     then Err (Protocol ''READY property value truncated'')
                     else (case store_property props name (take value_len (drop val_start body)) of
                             Inl e \<Rightarrow> Err e
                           | Inr props' \<Rightarrow>
                               decode_properties_loop props' (drop (val_start + value_len) body)))"
  by pat_completeness auto
termination
  by (relation "measure (\<lambda>(props, body). length body)") auto

declare decode_properties_loop.simps [simp del]

definition decode_properties_inner :: "bytes \<Rightarrow> peer_properties result" where
  "decode_properties_inner body = decode_properties_loop props_new body"

definition decode_ping :: "bytes \<Rightarrow> command result" where
  "decode_ping body =
     (if length body < 2 then Err (Protocol ''PING body missing TTL'')
      else let ttl = of_nat (be_val [body ! 0, body ! 1]); ctx = drop 2 body
        in if PING_CONTEXT_MAX < length ctx then Err (Protocol ''PING context too long'')
           else Ok (Ping ttl ctx))"

definition decode_error :: "bytes \<Rightarrow> command result" where
  "decode_error body =
     (case body of
        [] \<Rightarrow> Err (Protocol ''ERROR body missing reason length'')
      | n # rest \<Rightarrow>
          if length body < 1 + unat n then Err (Protocol ''ERROR reason truncated'')
          else let reason = take (unat n) rest
            in if utf8_valid reason then Ok (CmdError reason)
               else Err (Protocol ''ERROR reason not UTF-8''))"

definition cmd_decode :: "bytes \<Rightarrow> command result" where
  "cmd_decode frame_body =
     (case frame_body of
        [] \<Rightarrow> Err (Protocol ''empty command frame'')
      | n # rest \<Rightarrow>
          if length frame_body < 1 + unat n then Err (Protocol ''command truncated in name'')
          else let name = take (unat n) rest; body = drop (unat n) rest
            in if name = NAME_READY then rbind (decode_properties_inner body) (\<lambda>p. Ok (Ready p))
               else if name = NAME_SUBSCRIBE then Ok (Subscribe body)
               else if name = NAME_CANCEL then Ok (Cancel body)
               else if name = NAME_PING then decode_ping body
               else if name = NAME_PONG then
                 (if PING_CONTEXT_MAX < length body then Err (Protocol ''PONG context too long'')
                  else Ok (Pong body))
               else if name = NAME_ERROR then decode_error body
               else if name = NAME_JOIN then Ok (Join body)
               else if name = NAME_LEAVE then Ok (Leave body)
               else Ok (Unknown name body))"

section \<open>Round trips\<close>

definition prop_bytes :: "bytes \<times> bytes \<Rightarrow> bytes" where
  "prop_bytes kv = of_nat (length (fst kv)) # fst kv @ be_bytes 4 (length (snd kv)) @ snd kv"

definition prop_ok :: "bytes \<times> bytes \<Rightarrow> bool" where
  "prop_ok kv \<longleftrightarrow> 0 < length (fst kv) \<and> length (fst kv) \<le> 255 \<and> list_all prop_char (fst kv)
     \<and> length (snd kv) < 2 ^ 32"

lemma write_property_eq: "prop_ok (k, v) \<Longrightarrow> write_property out k v = Some (out @ prop_bytes (k, v))"
  by (simp add: write_property_def prop_ok_def prop_bytes_def)

lemma write_others_eq:
  "list_all prop_ok kvs \<Longrightarrow> write_others kvs out = Some (out @ concat (map prop_bytes kvs))"
  by (induction kvs arbitrary: out) (auto simp: write_property_eq)

lemma decode_property_step:
  assumes "prop_ok (k, v)"
  shows "decode_properties_loop props (prop_bytes (k, v) @ rest)
    = (case store_property props k v of Inl e \<Rightarrow> Err e | Inr p \<Rightarrow> decode_properties_loop p rest)"
proof -
  have k: "unat (of_nat (length k) :: u8) = length k" "0 < length k" "list_all prop_char k"
    and v: "be_val (be_bytes 4 (length v)) = length v"
    using assms by (simp_all add: prop_ok_def unat_of_nat_u8)
  let ?h = "of_nat (length k) # k @ be_bytes 4 (length v)"
  let ?b = "prop_bytes (k, v) @ rest"
  have b: "?b = ?h @ v @ rest" "?b = (?h @ v) @ rest" "hd ?b = of_nat (length k)" "?b \<noteq> []"
    by (simp_all add: prop_bytes_def)
  have parts: "take (length k) (drop 1 ?b) = k"
      "take 4 (drop (1 + length k) ?b) = be_bytes 4 (length v)"
      "length ?b = 1 + length k + 4 + length v + length rest"
    by (simp_all add: prop_bytes_def)
  have "drop (1 + length k + 4) ?b = v @ rest" "drop (1 + length k + 4 + length v) ?b = rest"
    by (subst b(1), rule drop_prefix, simp) (subst b(2), rule drop_prefix, simp)
  with b(3,4) parts k v show ?thesis
    by (subst decode_properties_loop.simps) (simp only: Let_def, simp)
qed

text \<open>A property that is neither of the two well-known ones.\<close>

definition other_name :: "bytes \<Rightarrow> bool" where
  "other_name k \<longleftrightarrow> \<not> eq_ignore_ascii_case k (ascii ''Socket-Type'')
     \<and> \<not> eq_ignore_ascii_case k (ascii ''Identity'')"

lemma decode_others:
  "list_all (\<lambda>kv. prop_ok kv \<and> other_name (fst kv)) kvs \<Longrightarrow>
     decode_properties_loop props (concat (map prop_bytes kvs)) = Ok (props\<lparr>pp_other := pp_other props @ kvs\<rparr>)"
proof (induction kvs arbitrary: props)
  case Nil
  then show ?case by (simp add: decode_properties_loop.simps)
next
  case (Cons kv kvs)
  obtain k v where kv: "kv = (k, v)" by (cases kv)
  with Cons.prems have "prop_ok (k, v)" "other_name k" by simp_all
  with Cons.IH [of "props\<lparr>pp_other := pp_other props @ [(k, v)]\<rparr>"] Cons.prems show ?case
    by (simp add: kv decode_property_step store_property_def other_name_def)
qed

definition props_ok :: "peer_properties \<Rightarrow> bool" where
  "props_ok p \<longleftrightarrow>
     (case pp_identity p of None \<Rightarrow> True | Some ident \<Rightarrow> ident \<noteq> [] \<and> length ident < 2 ^ 32)
     \<and> list_all (\<lambda>kv. prop_ok kv \<and> other_name (fst kv)) (pp_other p)"

lemma eq_ignore_case_refl [simp]: "eq_ignore_ascii_case a a"
  by (simp add: eq_ignore_ascii_case_def)

lemma well_known_distinct: "\<not> eq_ignore_ascii_case (ascii ''Identity'') (ascii ''Socket-Type'')"
  by code_simp

lemma prop_ok_well_known:
  "prop_ok (ascii ''Socket-Type'', as_str t)"
  "length ident < 2 ^ 32 \<Longrightarrow> prop_ok (ascii ''Identity'', ident)"
proof -
  have "\<forall>t. prop_ok (ascii ''Socket-Type'', as_str t)" by code_simp
  then show "prop_ok (ascii ''Socket-Type'', as_str t)" ..
  have "list_all prop_char (ascii ''Identity'')" by code_simp
  then show "length ident < 2 ^ 32 \<Longrightarrow> prop_ok (ascii ''Identity'', ident)"
    by (simp add: prop_ok_def)
qed

definition props_wire :: "peer_properties \<Rightarrow> bytes" where
  "props_wire p =
     (case pp_socket_type p of Some t \<Rightarrow> prop_bytes (ascii ''Socket-Type'', as_str t) | None \<Rightarrow> [])
     @ (case pp_identity p of Some ident \<Rightarrow> prop_bytes (ascii ''Identity'', ident) | None \<Rightarrow> [])
     @ concat (map prop_bytes (pp_other p))"

lemma encode_properties_eq: "props_ok p \<Longrightarrow> encode_properties_inner p out = Some (out @ props_wire p)"
  by (auto simp: encode_properties_inner_def props_ok_def props_wire_def write_property_eq prop_ok_well_known
      write_others_eq list_all_iff split: option.splits)

lemma decode_properties_wire:
  assumes "props_ok p"
  shows "decode_properties_inner (props_wire p) = Ok p"
proof -
  have others: "decode_properties_loop q (concat (map prop_bytes (pp_other p)))
      = Ok (q\<lparr>pp_other := pp_other q @ pp_other p\<rparr>)" for q
    using assms by (intro decode_others) (simp add: props_ok_def)
  have ident: "decode_properties_loop q
      ((case pp_identity p of Some i \<Rightarrow> prop_bytes (ascii ''Identity'', i) | None \<Rightarrow> [])
       @ concat (map prop_bytes (pp_other p)))
      = Ok (q\<lparr>pp_identity := pp_identity p, pp_other := pp_other p\<rparr>)"
    if "pp_identity q = None" "pp_other q = []" for q
    using that assms
    by (cases "pp_identity p")
      (simp_all add: others decode_property_step prop_ok_well_known store_property_def
        well_known_distinct props_ok_def)
  show ?thesis
    by (cases "pp_socket_type p")
      (simp_all add: decode_properties_inner_def props_wire_def ident decode_property_step
        prop_ok_well_known store_property_def props_new_def)
qed

lemmas command_names = NAME_READY_def NAME_SUBSCRIBE_def NAME_CANCEL_def NAME_PING_def NAME_PONG_def
  NAME_ERROR_def NAME_JOIN_def NAME_LEAVE_def

definition known_names :: "bytes list" where
  "known_names = [NAME_READY, NAME_SUBSCRIBE, NAME_CANCEL, NAME_PING, NAME_PONG, NAME_ERROR,
     NAME_JOIN, NAME_LEAVE]"

text \<open>The commands whose encoding carries all of them.\<close>

fun cmd_ok :: "command \<Rightarrow> bool" where
  "cmd_ok (Ready p) = props_ok p"
| "cmd_ok (Ping ttl ctx) \<longleftrightarrow> length ctx \<le> PING_CONTEXT_MAX"
| "cmd_ok (Pong ctx) \<longleftrightarrow> length ctx \<le> PING_CONTEXT_MAX"
| "cmd_ok (CmdError reason) \<longleftrightarrow> length reason \<le> 255 \<and> utf8_valid reason"
| "cmd_ok (Unknown name body) \<longleftrightarrow> length name \<le> 255 \<and> name \<notin> set known_names"
| "cmd_ok _ = True"

lemma cmd_decode_named:
  "length name \<le> 255 \<Longrightarrow> cmd_decode (of_nat (length name) # name @ body) =
     (if name = NAME_READY then rbind (decode_properties_inner body) (\<lambda>p. Ok (Ready p))
      else if name = NAME_SUBSCRIBE then Ok (Subscribe body)
      else if name = NAME_CANCEL then Ok (Cancel body)
      else if name = NAME_PING then decode_ping body
      else if name = NAME_PONG then
        (if PING_CONTEXT_MAX < length body then Err (Protocol ''PONG context too long'') else Ok (Pong body))
      else if name = NAME_ERROR then decode_error body
      else if name = NAME_JOIN then Ok (Join body)
      else if name = NAME_LEAVE then Ok (Leave body)
      else Ok (Unknown name body))"
  by (simp add: cmd_decode_def unat_of_nat_u8 Let_def)

lemma decode_ping_wire:
  "length ctx \<le> PING_CONTEXT_MAX \<Longrightarrow> decode_ping (be_bytes 2 (unat ttl) @ ctx) = Ok (Ping ttl ctx)"
proof -
  assume ctx: "length ctx \<le> PING_CONTEXT_MAX"
  have "unat ttl < 256 ^ 2" using unsigned_less [of ttl, where ?'a = nat] by simp
  then have val: "be_val (be_bytes 2 (unat ttl)) = unat ttl" by (rule be_val_be_bytes_exact)
  obtain a b where ab: "be_bytes 2 (unat ttl) = [a, b]"
    using length_eq_two [of "be_bytes 2 (unat ttl)"] by auto
  show ?thesis
    using ctx val unfolding ab decode_ping_def by (simp add: Let_def)
qed

lemma known_names_short: "list_all (\<lambda>n. length n \<le> 255) known_names"
  by code_simp

lemma decode_error_wire:
  "length reason \<le> 255 \<Longrightarrow> utf8_valid reason \<Longrightarrow>
     decode_error (of_nat (length reason) # reason) = Ok (CmdError reason)"
  by (simp add: decode_error_def unat_of_nat_u8 Let_def)

lemma write_name_known: "name \<in> set known_names \<Longrightarrow> write_name out name = Some (out @ of_nat (length name) # name)"
  using known_names_short by (simp add: write_name_def list_all_iff)

lemma cmd_names_neq:
  "NAME_SUBSCRIBE \<noteq> NAME_READY" "NAME_CANCEL \<notin> {NAME_READY, NAME_SUBSCRIBE}"
  "NAME_PING \<notin> {NAME_READY, NAME_SUBSCRIBE, NAME_CANCEL}"
  "NAME_PONG \<notin> {NAME_READY, NAME_SUBSCRIBE, NAME_CANCEL, NAME_PING}"
  "NAME_ERROR \<notin> {NAME_READY, NAME_SUBSCRIBE, NAME_CANCEL, NAME_PING, NAME_PONG}"
  "NAME_JOIN \<notin> {NAME_READY, NAME_SUBSCRIBE, NAME_CANCEL, NAME_PING, NAME_PONG, NAME_ERROR}"
  "NAME_LEAVE \<notin> {NAME_READY, NAME_SUBSCRIBE, NAME_CANCEL, NAME_PING, NAME_PONG, NAME_ERROR, NAME_JOIN}"
  by (simp_all add: command_names wire_eval)

lemma cmd_encode_shape:
  assumes "cmd_ok c"
  shows "\<exists>name body. length name \<le> 255 \<and> cmd_encode c out = Some (out @ of_nat (length name) # name @ body)
    \<and> cmd_decode (of_nat (length name) # name @ body) = Ok c"
proof -
  have known: "\<exists>name body. length name \<le> 255 \<and> cmd_encode c out = Some (out @ of_nat (length name) # name @ body)
      \<and> cmd_decode (of_nat (length name) # name @ body) = Ok c"
    if "name \<in> set known_names" "cmd_encode c out = Some (out @ of_nat (length name) # name @ body)"
      "cmd_decode (of_nat (length name) # name @ body) = Ok c" for name body
    using that known_names_short unfolding list_all_iff by blast
  have len: "length NAME_READY \<le> 255" "length NAME_SUBSCRIBE \<le> 255" "length NAME_CANCEL \<le> 255"
    "length NAME_PING \<le> 255" "length NAME_PONG \<le> 255" "length NAME_ERROR \<le> 255"
    "length NAME_JOIN \<le> 255" "length NAME_LEAVE \<le> 255"
    using known_names_short by (simp_all add: known_names_def)
  note ne = cmd_names_neq
  show ?thesis
  proof (cases c)
    case (Ready p)
    with assms show ?thesis
      by (intro known [of NAME_READY "props_wire p"])
        (simp_all add: known_names_def write_name_def len cmd_decode_named encode_properties_eq
          decode_properties_wire)
  next
    case (CmdError reason)
    with assms ne show ?thesis
      by (intro known [of NAME_ERROR "of_nat (length reason) # reason"])
        (simp_all add: known_names_def write_name_def len cmd_decode_named decode_error_wire)
  next
    case (Ping ttl ctx)
    with assms ne show ?thesis
      by (intro known [of NAME_PING "be_bytes 2 (unat ttl) @ ctx"])
        (simp_all add: known_names_def write_name_def len cmd_decode_named decode_ping_wire)
  next
    case (Unknown name body)
    with assms show ?thesis
      by (auto simp: known_names_def cmd_decode_named)
  next
    case (Subscribe body)
    with ne show ?thesis
      by (intro known [of NAME_SUBSCRIBE body]) (simp_all add: known_names_def write_name_def len cmd_decode_named)
  next
    case (Cancel body)
    with ne show ?thesis
      by (intro known [of NAME_CANCEL body]) (simp_all add: known_names_def write_name_def len cmd_decode_named)
  next
    case (Pong body)
    with ne assms show ?thesis
      by (intro known [of NAME_PONG body]) (simp_all add: known_names_def write_name_def len cmd_decode_named)
  next
    case (Join body)
    with ne show ?thesis
      by (intro known [of NAME_JOIN body]) (simp_all add: known_names_def write_name_def len cmd_decode_named)
  next
    case (Leave body)
    with ne show ?thesis
      by (intro known [of NAME_LEAVE body]) (simp_all add: known_names_def write_name_def len cmd_decode_named)
  qed
qed

lemma cmd_decode_encode:
  assumes "cmd_ok c"
  shows "\<exists>w. cmd_encode c out = Some (out @ w) \<and> cmd_decode w = Ok c"
  using cmd_encode_shape [OF assms, of out] by auto

section \<open>Properties\<close>

text \<open>
  C33.  Command round trip: every command within the wire limits encodes without
  tripping an assertion and decodes to itself, READY with all its properties
  included.
\<close>

theorem command_round_trip:
  assumes "cmd_ok c"
  shows "\<exists>w. cmd_encode c out = Some (out @ w) \<and> cmd_decode w = Ok c"
  using assms by (rule cmd_decode_encode)

definition sample_ready :: command where
  "sample_ready = Ready (props_add (ascii ''X-Key'') [1, 2] (with_identity [7] (with_socket_type Router props_new)))"

theorem command_round_trip_witness:
  "cmd_ok sample_ready \<and> (\<exists>w. cmd_encode sample_ready [] = Some ([] @ w) \<and> cmd_decode w = Ok sample_ready)"
proof -
  have "cmd_ok sample_ready" by code_simp
  with command_round_trip [OF this, of "[]"] show ?thesis by blast
qed

text \<open>
  An ERROR command cuts its reason at 255 bytes without regard to character
  boundaries: a valid UTF-8 reason of 256 bytes whose last character straddles
  the cut encodes to a command that our own decoder rejects.
\<close>

lemma error_reason_truncation:
  "utf8_valid (replicate 254 97 @ [0xC3, 0xA9])
   \<and> map_option cmd_decode (cmd_encode (CmdError (replicate 254 97 @ [0xC3, 0xA9])) [])
     = Some (Err (Protocol ''ERROR reason not UTF-8''))"
proof -
  let ?a = "replicate 254 97 :: bytes"
  have valid: "utf8_valid (?a @ cs) = utf8_valid cs" for cs
    by (rule utf8_valid_ascii_append) simp
  have cut: "take (min (length (?a @ [0xC3, 0xA9])) 255) (?a @ [0xC3, 0xA9]) = ?a @ [0xC3]"
    by simp
  have "cmd_encode (CmdError (?a @ [0xC3, 0xA9])) []
      = Some (of_nat (length NAME_ERROR) # NAME_ERROR @ 255 # ?a @ [0xC3])"
    unfolding cmd_encode.simps cut by (simp add: write_name_def NAME_ERROR_def)
  moreover have "cmd_decode (of_nat (length NAME_ERROR) # NAME_ERROR @ 255 # ?a @ [0xC3])
      = decode_error (255 # ?a @ [0xC3])"
    using cmd_names_neq by (subst cmd_decode_named) (simp_all add: NAME_ERROR_def)
  moreover have "decode_error (255 # ?a @ [0xC3]) = Err (Protocol ''ERROR reason not UTF-8'')"
  proof -
    have "take 255 (?a @ [0xC3]) = ?a @ [0xC3]" by simp
    then show ?thesis
      by (simp add: decode_error_def Let_def valid)
  qed
  ultimately show ?thesis
    by (simp add: valid utf8_cont_def)
qed

end
