(* ===== verification/Mechanism.thy ===== *)
theory Mechanism
  imports Command Greeting
begin

text \<open>
  The NULL and PLAIN security mechanisms (\<^verbatim>\<open>omq-proto/src/proto/mechanism/mod.rs\<close> and
  \<^verbatim>\<open>mechanism/plain.rs\<close>).  A handler takes the mechanism state, the command and the
  list of commands to send, and returns the new state, the extended list and
  the result; after an error the state and the list are what the source left
  behind.  An \<^verbatim>\<open>Authenticator\<close> closure is a function of the peer information.
\<close>

section \<open>Shared types\<close>

record mechanism_peer_info =
  mp_mechanism :: mechanism_name
  mp_public_key :: bytes
  mp_identity :: "bytes option"
  mp_username :: "bytes option"
  mp_password :: "bytes option"

type_synonym authenticator = "mechanism_peer_info \<Rightarrow> bool"

definition auth_allow :: "authenticator \<Rightarrow> mechanism_peer_info \<Rightarrow> bool" where
  "auth_allow a peer = a peer"

datatype mechanism_step = Continue | Complete peer_properties

definition try_error_command :: "command \<Rightarrow> error option" where
  "try_error_command cmd =
     (case cmd of
        Unknown name body \<Rightarrow>
          if name \<noteq> ascii ''ERROR'' then None
          else Some (HandshakeFailed ''{mechanism} peer sent ERROR: {reason}'')
      | _ \<Rightarrow> None)"

definition prepend_name :: "bytes \<Rightarrow> bytes \<Rightarrow> bytes" where
  "prepend_name name body = [of_nat (length name)] @ name @ body"

section \<open>NULL\<close>

datatype null_state = NullNotStarted | NullAwaitingReady | NullDone

definition null_new :: null_state where "null_new = NullNotStarted"

definition null_start :: "peer_properties \<Rightarrow> command list \<Rightarrow> null_state \<times> command list" where
  "null_start our_props out = (NullAwaitingReady, out @ [Ready our_props])"

definition null_on_command ::
  "null_state \<Rightarrow> command \<Rightarrow> command list \<Rightarrow> null_state \<times> command list \<times> mechanism_step result" where
  "null_on_command st cmd out =
     (case try_error_command cmd of
        Some err \<Rightarrow> (st, out, Err err)
      | None \<Rightarrow>
          (case (st, cmd) of
             (NullAwaitingReady, Ready props) \<Rightarrow> (NullDone, out, Ok (Complete props))
           | (NullAwaitingReady, Unknown name body) \<Rightarrow>
               if name = ascii ''READY'' then
                 (case rbind (cmd_decode (prepend_name (ascii ''READY'') body))
                         (\<lambda>c. case c of Ready p \<Rightarrow> Ok p
                                | _ \<Rightarrow> Err (HandshakeFailed ''READY parse mismatch'')) of
                    Inl e \<Rightarrow> (st, out, Err e)
                  | Inr props \<Rightarrow> (NullDone, out, Ok (Complete props)))
               else (st, out, Err (HandshakeFailed ''expected READY, got {:?}''))
           | (NullAwaitingReady, _) \<Rightarrow> (st, out, Err (HandshakeFailed ''expected READY, got {:?}''))
           | _ \<Rightarrow> (st, out, Err (HandshakeFailed ''NULL mechanism in state {st:?} received command''))))"

section \<open>PLAIN\<close>

datatype plain_client_state = PcNotStarted | PcAwaitingWelcome | PcAwaitingReady | PcDone
datatype plain_server_state = PsNotStarted | PsAwaitingHello | PsAwaitingInitiate | PsDone

record plain_client =
  pc_username :: bytes
  pc_password :: bytes
  pc_our_props :: peer_properties
  pc_state :: plain_client_state

record plain_server =
  ps_authenticator :: authenticator
  ps_our_props :: peer_properties
  ps_state :: plain_server_state

datatype plain_mechanism = PlainClient plain_client | PlainServer plain_server

definition plain_new_server :: "authenticator \<Rightarrow> plain_mechanism" where
  "plain_new_server auth =
     PlainServer \<lparr>ps_authenticator = auth, ps_our_props = props_new, ps_state = PsNotStarted\<rparr>"

definition plain_new_client :: "bytes \<Rightarrow> bytes \<Rightarrow> plain_mechanism" where
  "plain_new_client username password =
     PlainClient \<lparr>pc_username = username, pc_password = password, pc_our_props = props_new,
                  pc_state = PcNotStarted\<rparr>"

definition encode_hello :: "bytes \<Rightarrow> bytes \<Rightarrow> bytes result" where
  "encode_hello username password =
     (if 255 < length username then Err (HandshakeFailed ''PLAIN username exceeds 255 bytes'')
      else if 255 < length password then Err (HandshakeFailed ''PLAIN password exceeds 255 bytes'')
      else Ok ([of_nat (length username)] @ username @ [of_nat (length password)] @ password))"

definition decode_hello :: "bytes \<Rightarrow> (bytes \<times> bytes) result" where
  "decode_hello body =
     (if body = [] then Err (HandshakeFailed ''PLAIN HELLO body empty'')
      else let ulen = unat (body ! 0)
        in if length body < 1 + ulen + 1
           then Err (HandshakeFailed ''PLAIN HELLO truncated in username'')
           else let username = take ulen (drop 1 body)
             in if \<not> utf8_valid username then Err (HandshakeFailed ''PLAIN username not UTF-8'')
                else let pstart = 1 + ulen; plen = unat (body ! pstart)
                  in if length body < pstart + 1 + plen
                     then Err (HandshakeFailed ''PLAIN HELLO truncated in password'')
                     else let password = take plen (drop (pstart + 1) body)
                       in if \<not> utf8_valid password
                          then Err (HandshakeFailed ''PLAIN password not UTF-8'')
                          else Ok (username, password))"

definition plain_client_start ::
  "plain_client \<Rightarrow> peer_properties \<Rightarrow> command list \<Rightarrow> plain_client \<times> command list \<times> unit result" where
  "plain_client_start c our_props out =
     (let c = c\<lparr>pc_our_props := our_props\<rparr>
      in case encode_hello (pc_username c) (pc_password c) of
           Inl e \<Rightarrow> (c, out, Err e)
         | Inr body \<Rightarrow>
             (c\<lparr>pc_state := PcAwaitingWelcome\<rparr>, out @ [Unknown (ascii ''HELLO'') body], Ok ()))"

definition plain_client_on_command ::
  "plain_client \<Rightarrow> command \<Rightarrow> command list \<Rightarrow> plain_client \<times> command list \<times> mechanism_step result" where
  "plain_client_on_command c cmd out =
     (let unexpected = (c, out, Err (HandshakeFailed ''PLAIN client: unexpected {:?} in state {:?}''))
      in case (pc_state c, cmd) of
           (PcAwaitingWelcome, Unknown name _) \<Rightarrow>
             if name = ascii ''WELCOME'' then
               (case encode_properties (pc_our_props c) of
                  None \<Rightarrow> (c, out, Err (Panic ''property too long''))
                | Some metadata \<Rightarrow>
                    (c\<lparr>pc_state := PcAwaitingReady\<rparr>, out @ [Unknown (ascii ''INITIATE'') metadata],
                     Ok Continue))
             else unexpected
         | (PcAwaitingReady, Unknown name body) \<Rightarrow>
             if name = ascii ''READY'' then
               (case decode_properties_inner body of
                  Inl e \<Rightarrow> (c, out, Err e)
                | Inr props \<Rightarrow> (c\<lparr>pc_state := PcDone\<rparr>, out, Ok (Complete props)))
             else unexpected
         | _ \<Rightarrow> unexpected)"

definition plain_server_start :: "plain_server \<Rightarrow> peer_properties \<Rightarrow> plain_server" where
  "plain_server_start s our_props = s\<lparr>ps_our_props := our_props, ps_state := PsAwaitingHello\<rparr>"

definition plain_peer_info :: "bytes \<Rightarrow> bytes \<Rightarrow> mechanism_peer_info" where
  "plain_peer_info username password =
     \<lparr>mp_mechanism = MECH_PLAIN, mp_public_key = replicate 32 0, mp_identity = None,
      mp_username = Some username, mp_password = Some password\<rparr>"

definition plain_server_on_command ::
  "plain_server \<Rightarrow> command \<Rightarrow> command list \<Rightarrow> plain_server \<times> command list \<times> mechanism_step result" where
  "plain_server_on_command s cmd out =
     (let unexpected = (s, out, Err (HandshakeFailed ''PLAIN server: unexpected {:?} in state {:?}''))
      in case (ps_state s, cmd) of
           (PsAwaitingHello, Unknown name body) \<Rightarrow>
             if name = ascii ''HELLO'' then
               (case decode_hello body of
                  Inl e \<Rightarrow> (s, out, Err e)
                | Inr (username, password) \<Rightarrow>
                    if \<not> auth_allow (ps_authenticator s) (plain_peer_info username password)
                    then (s, out @ [CmdError (ascii ''Authentication failed'')],
                          Err (HandshakeFailed ''PLAIN credentials rejected''))
                    else (s\<lparr>ps_state := PsAwaitingInitiate\<rparr>,
                          out @ [Unknown (ascii ''WELCOME'') []], Ok Continue))
             else unexpected
         | (PsAwaitingInitiate, Unknown name body) \<Rightarrow>
             if name = ascii ''INITIATE'' then
               (case decode_properties_inner body of
                  Inl e \<Rightarrow> (s, out, Err e)
                | Inr props \<Rightarrow>
                    (case encode_properties (ps_our_props s) of
                       None \<Rightarrow> (s, out, Err (Panic ''property too long''))
                     | Some metadata \<Rightarrow>
                         (s\<lparr>ps_state := PsDone\<rparr>, out @ [Unknown (ascii ''READY'') metadata],
                          Ok (Complete props))))
             else unexpected
         | _ \<Rightarrow> unexpected)"

definition plain_start ::
  "plain_mechanism \<Rightarrow> peer_properties \<Rightarrow> command list \<Rightarrow> plain_mechanism \<times> command list \<times> unit result" where
  "plain_start m our_props out =
     (case m of
        PlainClient c \<Rightarrow>
          (case plain_client_start c our_props out of (c', out', r) \<Rightarrow> (PlainClient c', out', r))
      | PlainServer s \<Rightarrow> (PlainServer (plain_server_start s our_props), out, Ok ()))"

definition plain_on_command ::
  "plain_mechanism \<Rightarrow> command \<Rightarrow> command list \<Rightarrow> plain_mechanism \<times> command list \<times> mechanism_step result" where
  "plain_on_command m cmd out =
     (case try_error_command cmd of
        Some err \<Rightarrow> (m, out, Err err)
      | None \<Rightarrow>
          (case m of
             PlainClient c \<Rightarrow>
               (case plain_client_on_command c cmd out of (c', out', r) \<Rightarrow> (PlainClient c', out', r))
           | PlainServer s \<Rightarrow>
               (case plain_server_on_command s cmd out of (s', out', r) \<Rightarrow> (PlainServer s', out', r))))"

section \<open>Lemmas\<close>

lemma command_words_neq:
  "ascii ''HELLO'' \<noteq> ascii ''ERROR''" "ascii ''WELCOME'' \<noteq> ascii ''ERROR''"
  "ascii ''INITIATE'' \<noteq> ascii ''ERROR''" "ascii ''READY'' \<noteq> ascii ''ERROR''"
  by (simp_all add: wire_eval)

lemma try_error_command_Unknown [simp]:
  "name \<noteq> ascii ''ERROR'' \<Longrightarrow> try_error_command (Unknown name body) = None"
  by (simp add: try_error_command_def)

lemma decode_encode_hello:
  assumes "length u \<le> 255" "length p \<le> 255" "utf8_valid u" "utf8_valid p"
  shows "\<exists>body. encode_hello u p = Ok body \<and> decode_hello body = Ok (u, p)"
proof -
  let ?b = "[of_nat (length u)] @ u @ [of_nat (length p)] @ p :: bytes"
  have "?b ! (1 + length u) = of_nat (length p)" "take (length p) (drop (1 + length u + 1) ?b) = p"
    "take (length u) (drop 1 ?b) = u"
    by (simp_all add: nth_append)
  moreover have "unat (?b ! 0) = length u" "unat (of_nat (length p) :: u8) = length p"
    using assms by (simp_all add: unat_of_nat_u8)
  ultimately have "decode_hello ?b = Ok (u, p)"
    using assms unfolding decode_hello_def Let_def by simp
  with assms show ?thesis by (simp add: encode_hello_def)
qed

lemma null_on_ready:
  assumes "props_ok p"
  shows "null_on_command NullAwaitingReady (Unknown (ascii ''READY'') (props_wire p)) out
    = (NullDone, out, Ok (Complete p))"
proof -
  have "cmd_decode (prepend_name (ascii ''READY'') (props_wire p)) = Ok (Ready p)"
    using cmd_decode_named [of "ascii ''READY''" "props_wire p"] decode_properties_wire [OF assms]
    by (simp add: prepend_name_def NAME_READY_def)
  then show ?thesis
    by (simp add: null_on_command_def command_words_neq)
qed

lemma encode_properties_wire: "props_ok p \<Longrightarrow> encode_properties p = Some (props_wire p)"
  by (simp add: encode_properties_def encode_properties_eq)

section \<open>PLAIN admission\<close>

text \<open>The states a PLAIN server can reach, with the commands it was given on the way.\<close>

inductive plain_reach :: "authenticator \<Rightarrow> plain_server \<Rightarrow> command list \<Rightarrow> bool"
  for auth where
  start: "plain_new_server auth = PlainServer s0 \<Longrightarrow> plain_reach auth (plain_server_start s0 p) []"
| step: "plain_reach auth s hist \<Longrightarrow> plain_server_on_command s cmd out = (s', out', r) \<Longrightarrow>
    plain_reach auth s' (hist @ [cmd])"

definition hello_allowed :: "authenticator \<Rightarrow> command \<Rightarrow> bool" where
  "hello_allowed auth cmd \<longleftrightarrow>
     (case cmd of
        Unknown name body \<Rightarrow> name = ascii ''HELLO'' \<and>
          (case decode_hello body of Inl e \<Rightarrow> False | Inr (u, pw) \<Rightarrow> auth (plain_peer_info u pw))
      | _ \<Rightarrow> False)"

lemma plain_server_auth_kept:
  "plain_server_on_command s cmd out = (s', out', r) \<Longrightarrow> ps_authenticator s' = ps_authenticator s"
  by (auto simp: plain_server_on_command_def Let_def split: plain_server_state.splits command.splits
      if_splits sum.splits prod.splits option.splits)

lemma plain_server_err_kept:
  "plain_server_on_command s cmd out = (s', out', Err e) \<Longrightarrow> s' = s"
  by (auto simp: plain_server_on_command_def Let_def split: plain_server_state.splits command.splits
      if_splits sum.splits prod.splits option.splits)

lemma plain_server_hello_ok:
  "plain_server_on_command s cmd out = (s', out', Ok r) \<Longrightarrow> ps_state s = PsAwaitingHello \<Longrightarrow>
     r = Continue \<and> ps_state s' = PsAwaitingInitiate \<and>
     (\<exists>body u pw. cmd = Unknown (ascii ''HELLO'') body \<and> decode_hello body = Ok (u, pw)
        \<and> ps_authenticator s (plain_peer_info u pw))"
  by (auto simp: plain_server_on_command_def Let_def auth_allow_def split: command.splits
      if_splits sum.splits prod.splits option.splits)

lemma plain_server_later:
  "plain_server_on_command s cmd out = (s', out', r) \<Longrightarrow> ps_state s \<noteq> PsAwaitingHello \<Longrightarrow>
     ps_state s' = ps_state s \<or> ps_state s = PsAwaitingInitiate \<and> ps_state s' = PsDone"
  by (auto simp: plain_server_on_command_def Let_def split: plain_server_state.splits command.splits
      if_splits sum.splits prod.splits option.splits)

lemma plain_complete_state:
  "plain_server_on_command s cmd out = (s', out', Ok (Complete p)) \<Longrightarrow> ps_state s = PsAwaitingInitiate"
  by (auto simp: plain_server_on_command_def Let_def split: plain_server_state.splits command.splits
      if_splits sum.splits prod.splits option.splits)

lemma plain_reach_inv:
  "plain_reach auth s hist \<Longrightarrow> ps_authenticator s = auth
     \<and> (ps_state s \<noteq> PsAwaitingHello \<longrightarrow> list_ex (hello_allowed auth) hist)"
proof (induction rule: plain_reach.induct)
  case (start s0 p)
  then show ?case by (auto simp: plain_server_start_def plain_new_server_def)
next
  case (step s hist cmd out s' out' r)
  note kept = plain_server_auth_kept [OF step.hyps(2)]
  show ?case
  proof (cases "ps_state s = PsAwaitingHello")
    case True
    then show ?thesis
      using step kept plain_server_hello_ok [of s cmd out s' out'] plain_server_err_kept [of s cmd out s' out']
      by (cases r) (auto simp: hello_allowed_def)
  next
    case False
    with step kept show ?thesis by simp
  qed
qed

section \<open>Properties\<close>

text \<open>
  C34.  PLAIN admission: whatever the peer has sent, a server that has seen no HELLO
  its authenticator allows still awaits one, so it completes its handshake only
  after a HELLO whose user name and password the authenticator allowed; a HELLO
  it refuses leaves the server as it was, still waiting, and queues an ERROR
  command.
\<close>

theorem plain_admission:
  assumes "plain_reach auth s hist"
  shows "(\<not> list_ex (hello_allowed auth) hist \<longrightarrow> ps_state s = PsAwaitingHello)
    \<and> (plain_server_on_command s cmd out = (s', out', Ok (Complete p)) \<longrightarrow> list_ex (hello_allowed auth) hist)
    \<and> (ps_state s = PsAwaitingHello \<and> decode_hello body = Ok (u, pw) \<and> \<not> auth (plain_peer_info u pw) \<longrightarrow>
         plain_server_on_command s (Unknown (ascii ''HELLO'') body) out
         = (s, out @ [CmdError (ascii ''Authentication failed'')], Err (HandshakeFailed ''PLAIN credentials rejected'')))"
proof (intro conjI impI)
  note inv = plain_reach_inv [OF assms]
  show "\<not> list_ex (hello_allowed auth) hist \<Longrightarrow> ps_state s = PsAwaitingHello" using inv by blast
  show "plain_server_on_command s cmd out = (s', out', Ok (Complete p)) \<Longrightarrow> list_ex (hello_allowed auth) hist"
    using inv plain_complete_state by fastforce
  show "ps_state s = PsAwaitingHello \<and> decode_hello body = Ok (u, pw) \<and> \<not> auth (plain_peer_info u pw) \<Longrightarrow>
      plain_server_on_command s (Unknown (ascii ''HELLO'') body) out
      = (s, out @ [CmdError (ascii ''Authentication failed'')], Err (HandshakeFailed ''PLAIN credentials rejected''))"
    using inv by (simp add: plain_server_on_command_def auth_allow_def)
qed

definition admin_auth :: authenticator where
  "admin_auth peer \<longleftrightarrow> mp_username peer = Some (ascii ''admin'') \<and> mp_password peer = Some (ascii ''pw'')"

definition admin_server :: plain_server where
  "admin_server = \<lparr>ps_authenticator = admin_auth, ps_our_props = props_new, ps_state = PsAwaitingHello\<rparr>"

theorem plain_admission_witness:
  "plain_server_on_command (admin_server\<lparr>ps_state := PsAwaitingInitiate\<rparr>) (Unknown (ascii ''INITIATE'') []) []
     = (admin_server\<lparr>ps_state := PsDone\<rparr>, [Unknown (ascii ''READY'') []], Ok (Complete props_new))
   \<and> list_ex (hello_allowed admin_auth) [Unknown (ascii ''HELLO'') (5 # ascii ''admin'' @ 2 # ascii ''pw'')]
   \<and> plain_server_on_command admin_server (Unknown (ascii ''HELLO'') (5 # ascii ''admin'' @ 2 # ascii ''no'')) []
     = (admin_server, [CmdError (ascii ''Authentication failed'')], Err (HandshakeFailed ''PLAIN credentials rejected''))"
proof -
  let ?hello = "Unknown (ascii ''HELLO'') (5 # ascii ''admin'' @ 2 # ascii ''pw'')"
  have start: "plain_reach admin_auth admin_server []"
    using plain_reach.start [of admin_auth "\<lparr>ps_authenticator = admin_auth, ps_our_props = props_new,
        ps_state = PsNotStarted\<rparr>" props_new]
    by (simp add: plain_new_server_def plain_server_start_def admin_server_def)
  have "decode_hello (5 # ascii ''admin'' @ 2 # ascii ''pw'') = Ok (ascii ''admin'', ascii ''pw'')"
    by code_simp
  then have "plain_server_on_command admin_server ?hello []
      = (admin_server\<lparr>ps_state := PsAwaitingInitiate\<rparr>, [Unknown (ascii ''WELCOME'') []], Ok Continue)"
    by (simp add: plain_server_on_command_def admin_server_def auth_allow_def admin_auth_def plain_peer_info_def)
  with start have welcomed: "plain_reach admin_auth (admin_server\<lparr>ps_state := PsAwaitingInitiate\<rparr>) ([] @ [?hello])"
    by (rule plain_reach.step)
  have completes: "plain_server_on_command (admin_server\<lparr>ps_state := PsAwaitingInitiate\<rparr>)
      (Unknown (ascii ''INITIATE'') []) []
      = (admin_server\<lparr>ps_state := PsDone\<rparr>, [Unknown (ascii ''READY'') []], Ok (Complete props_new))"
    by (simp add: plain_server_on_command_def decode_properties_inner_def decode_properties_loop.simps
      admin_server_def encode_properties_def encode_properties_inner_def props_new_def)
  have bad: "ps_state admin_server = PsAwaitingHello"
    "decode_hello (5 # ascii ''admin'' @ 2 # ascii ''no'') = Ok (ascii ''admin'', ascii ''no'')"
    "\<not> admin_auth (plain_peer_info (ascii ''admin'') (ascii ''no''))"
    by code_simp+
  have "list_ex (hello_allowed admin_auth) ([] @ [?hello])"
    using plain_admission [OF welcomed, THEN conjunct2, THEN conjunct1, THEN mp, OF completes] .
  moreover have "plain_server_on_command admin_server (Unknown (ascii ''HELLO'') (5 # ascii ''admin'' @ 2 # ascii ''no'')) []
      = (admin_server, [] @ [CmdError (ascii ''Authentication failed'')], Err (HandshakeFailed ''PLAIN credentials rejected''))"
    by (rule plain_admission [OF start, THEN conjunct2, THEN conjunct2, THEN mp]) (use bad in simp)
  ultimately show ?thesis using completes by simp
qed

text \<open>
  C35.  The PLAIN handshake between a client and a server that allows it
  completes in four commands: HELLO, WELCOME, INITIATE, READY; the server ends
  with the client's properties and the client with the server's.
\<close>

theorem plain_handshake:
  assumes "length u \<le> 255" "length pw \<le> 255" "utf8_valid u" "utf8_valid pw"
    and "auth (plain_peer_info u pw)" "props_ok pc" "props_ok ps"
  shows "\<exists>c0 s0 c1 c2 c3 s1 s2 s3 hello.
    plain_new_client u pw = c0 \<and> plain_new_server auth = s0
    \<and> plain_start c0 pc [] = (c1, [hello], Ok ()) \<and> plain_start s0 ps [] = (s1, [], Ok ())
    \<and> plain_on_command s1 hello [] = (s2, [Unknown (ascii ''WELCOME'') []], Ok Continue)
    \<and> plain_on_command c1 (Unknown (ascii ''WELCOME'') []) []
        = (c2, [Unknown (ascii ''INITIATE'') (props_wire pc)], Ok Continue)
    \<and> plain_on_command s2 (Unknown (ascii ''INITIATE'') (props_wire pc)) []
        = (s3, [Unknown (ascii ''READY'') (props_wire ps)], Ok (Complete pc))
    \<and> plain_on_command c2 (Unknown (ascii ''READY'') (props_wire ps)) [] = (c3, [], Ok (Complete ps))"
proof -
  from decode_encode_hello [OF assms(1-4)] obtain body where
    body: "encode_hello u pw = Ok body" "decode_hello body = Ok (u, pw)" by blast
  show ?thesis
    using assms(5-7)
    by (simp add: plain_new_client_def plain_new_server_def plain_start_def plain_client_start_def body
      plain_server_start_def plain_on_command_def plain_server_on_command_def plain_client_on_command_def
      command_words_neq auth_allow_def encode_properties_wire decode_properties_wire Let_def)
qed

theorem plain_handshake_witness:
  "length (ascii ''admin'') \<le> 255 \<and> admin_auth (plain_peer_info (ascii ''admin'') (ascii ''pw''))
   \<and> (\<exists>s2 s1 hello. plain_on_command s1 hello [] = (s2, [Unknown (ascii ''WELCOME'') []], Ok Continue))"
proof -
  have "utf8_valid (ascii ''admin'')" "utf8_valid (ascii ''pw'')" "props_ok props_new"
    by code_simp+
  moreover have "admin_auth (plain_peer_info (ascii ''admin'') (ascii ''pw''))"
    by (simp add: admin_auth_def plain_peer_info_def)
  ultimately show ?thesis
    using plain_handshake [of "ascii ''admin''" "ascii ''pw''" admin_auth props_new props_new] by auto
qed

end
