(* ===== verification/Curve.thy ===== *)
theory Curve
  imports Mechanism
begin

text \<open>
  The CURVE mechanism (\<^verbatim>\<open>omq-proto/src/proto/mechanism/curve.rs\<close> and
  \<^verbatim>\<open>mechanism/curve_cookie.rs\<close>): the four-message handshake, the cookie, and the
  per-frame MESSAGE encryption.

  The cryptographic crates are a parameter: a \<open>crypto\<close> record of the functions
  the source calls, keys and nonces being byte lists.  What the protocol needs
  of them is \<open>crypto_laws\<close>.  Random bytes come from an explicit generator state;
  the clock is an argument.  The \<^verbatim>\<open>unreachable!\<close> and \<^verbatim>\<open>panic!\<close> sites give
  \<open>Panic\<close>.  The client's \<^verbatim>\<open>Option<CurveClientState>\<close> is only empty inside a transition, so
  the model holds the state itself.
\<close>

section \<open>The cryptographic interface\<close>

record crypto =
  cr_dh :: "bytes \<Rightarrow> bytes \<Rightarrow> bytes"
  cr_public :: "bytes \<Rightarrow> bytes"
  cr_box_seal :: "bytes \<Rightarrow> bytes \<Rightarrow> bytes \<Rightarrow> bytes \<Rightarrow> bytes"
  cr_box_open :: "bytes \<Rightarrow> bytes \<Rightarrow> bytes \<Rightarrow> bytes \<Rightarrow> bytes option"
  cr_box_seal_detached :: "bytes \<Rightarrow> bytes \<Rightarrow> bytes \<Rightarrow> bytes \<Rightarrow> bytes \<times> bytes"
  cr_box_open_detached :: "bytes \<Rightarrow> bytes \<Rightarrow> bytes \<Rightarrow> bytes \<Rightarrow> bytes \<Rightarrow> bytes option"
  cr_secret_seal :: "bytes \<Rightarrow> bytes \<Rightarrow> bytes \<Rightarrow> bytes"
  cr_secret_open :: "bytes \<Rightarrow> bytes \<Rightarrow> bytes \<Rightarrow> bytes option"

text \<open>
  The documented behaviour relied on: a public key is 32 bytes; a box sealed
  from \<open>a\<close> to the public key of \<open>b\<close> opens from \<open>b\<close> with the public key of \<open>a\<close> under the
  same nonce, and is 16 bytes longer than its content; the detached form
  gives a 16-byte tag and a ciphertext of the plaintext's length; and the
  secret box opens under its key.
\<close>

definition crypto_laws :: "crypto \<Rightarrow> bool" where
  "crypto_laws C \<longleftrightarrow>
     (\<forall>s. length (cr_public C s) = 32)
     \<and> (\<forall>a b n m. cr_box_open C (cr_public C a) b n (cr_box_seal C (cr_public C b) a n m) = Some m)
     \<and> (\<forall>p s n m. length (cr_box_seal C p s n m) = length m + 16)
     \<and> (\<forall>a b n m. cr_box_open_detached C (cr_public C a) b n
            (snd (cr_box_seal_detached C (cr_public C b) a n m))
            (fst (cr_box_seal_detached C (cr_public C b) a n m)) = Some m)
     \<and> (\<forall>p s n m. length (fst (cr_box_seal_detached C p s n m)) = 16
            \<and> length (snd (cr_box_seal_detached C p s n m)) = length m)
     \<and> (\<forall>k n m. cr_secret_open C k n (cr_secret_seal C k n m) = Some m)
     \<and> (\<forall>k n m. length (cr_secret_seal C k n m) = length m + 16)"

section \<open>Nonces\<close>

definition NONCE_HELLO :: bytes where "NONCE_HELLO = ascii ''CurveZMQHELLO---''"
definition NONCE_INITIATE :: bytes where "NONCE_INITIATE = ascii ''CurveZMQINITIATE''"
definition NONCE_READY :: bytes where "NONCE_READY = ascii ''CurveZMQREADY---''"
definition NONCE_MESSAGE_C :: bytes where "NONCE_MESSAGE_C = ascii ''CurveZMQMESSAGEC''"
definition NONCE_MESSAGE_S :: bytes where "NONCE_MESSAGE_S = ascii ''CurveZMQMESSAGES''"
definition NONCE_WELCOME_PREFIX :: bytes where "NONCE_WELCOME_PREFIX = ascii ''WELCOME-''"
definition NONCE_VOUCH_PREFIX :: bytes where "NONCE_VOUCH_PREFIX = ascii ''VOUCH---''"
definition NONCE_COOKIE_PREFIX :: bytes where "NONCE_COOKIE_PREFIX = ascii ''COOKIE--''"

definition u64_be :: "u64 \<Rightarrow> bytes" where "u64_be c = be_bytes 8 (unat c)"
definition be_u64 :: "bytes \<Rightarrow> u64" where "be_u64 bs = of_nat (be_val bs)"

definition nonce_short :: "bytes \<Rightarrow> u64 \<Rightarrow> bytes" where
  "nonce_short pre counter = pre @ u64_be counter"

definition nonce_long :: "bytes \<Rightarrow> bytes \<Rightarrow> bytes" where
  "nonce_long pre suf = pre @ suf"

text \<open>\<^verbatim>\<open>u64::checked_add(1)\<close>.\<close>

definition checked_succ :: "u64 \<Rightarrow> u64 option" where
  "checked_succ c = (if c = - 1 then None else Some (c + 1))"

definition validate_dh_not_zero :: "crypto \<Rightarrow> bytes \<Rightarrow> bytes \<Rightarrow> unit result" where
  "validate_dh_not_zero C our_secret peer_public =
     (if list_all (\<lambda>b. b = 0) (cr_dh C our_secret peer_public)
      then Err (HandshakeFailed ''X25519 produced all-zero shared secret (low-order public key)'')
      else Ok ())"

section \<open>MESSAGE encryption\<close>

record curve_transform =
  ct_peer_public :: bytes
  ct_our_secret :: bytes
  ct_out_counter :: u64
  ct_in_counter :: u64
  ct_out_prefix :: bytes
  ct_in_prefix :: bytes

definition encrypt_message ::
  "crypto \<Rightarrow> curve_transform \<Rightarrow> bool \<Rightarrow> bool \<Rightarrow> bytes \<Rightarrow> curve_transform \<times> bytes result" where
  "encrypt_message C tx mor cmd plaintext =
     (case checked_succ (ct_out_counter tx) of
        None \<Rightarrow> (tx, Err (Protocol ''CURVE outbound nonce counter exhausted''))
      | Some c \<Rightarrow>
          let tx = tx\<lparr>ct_out_counter := c\<rparr>;
              nonce = nonce_short (ct_out_prefix tx) c;
              fl = (if mor then 1 else 0) OR push_bit 1 (if cmd then 1 else 0);
              (tag, ct) = cr_box_seal_detached C (ct_peer_public tx) (ct_our_secret tx) nonce (fl # plaintext)
          in (tx, Ok (u64_be c @ tag @ ct)))"

definition message_command_frame :: "bytes \<Rightarrow> bytes" where
  "message_command_frame body = [of_nat (length (ascii ''MESSAGE''))] @ ascii ''MESSAGE'' @ body"

definition decrypt_message ::
  "crypto \<Rightarrow> curve_transform \<Rightarrow> bytes \<Rightarrow> curve_transform \<times> (bool \<times> bool \<times> bytes) result" where
  "decrypt_message C tx body =
     (if length body < 8 + 16 + 1 then (tx, Err (Protocol ''MESSAGE command too short''))
      else let counter = be_u64 (take 8 body)
        in if counter \<le> ct_in_counter tx
           then (tx, Err (Protocol ''CURVE MESSAGE nonce counter not monotonically increasing''))
           else let nonce = nonce_short (ct_in_prefix tx) counter;
                    tag = take 16 (drop 8 body);
                    ct = drop (8 + 16) body
             in case cr_box_open_detached C (ct_peer_public tx) (ct_our_secret tx) nonce ct tag of
                  None \<Rightarrow> (tx, Err (Protocol ''CURVE decrypt failed''))
                | Some [] \<Rightarrow> (tx, Err (Protocol ''CURVE MESSAGE plaintext missing flags''))
                | Some (fl # data) \<Rightarrow>
                    (tx\<lparr>ct_in_counter := counter\<rparr>,
                     Ok (fl AND 0x01 \<noteq> 0, fl AND 0x02 \<noteq> 0, data)))"

definition build_transform :: "bytes \<Rightarrow> bytes \<Rightarrow> u64 \<Rightarrow> bool \<Rightarrow> curve_transform" where
  "build_transform our_eph_secret peer_eph_public out_counter is_server =
     \<lparr>ct_peer_public = peer_eph_public, ct_our_secret = our_eph_secret,
      ct_out_counter = out_counter, ct_in_counter = 0,
      ct_out_prefix = (if is_server then NONCE_MESSAGE_S else NONCE_MESSAGE_C),
      ct_in_prefix = (if is_server then NONCE_MESSAGE_C else NONCE_MESSAGE_S)\<rparr>"

section \<open>The cookie\<close>

record curve_cookie_key =
  ck_key :: bytes
  ck_created_at :: nat
  ck_lifetime :: nat

definition cookie_with_lifetime :: "nat \<Rightarrow> nat \<Rightarrow> rng \<Rightarrow> curve_cookie_key \<times> rng" where
  "cookie_with_lifetime now lifetime r =
     (case fill_bytes 32 r of (k, r) \<Rightarrow>
        (\<lparr>ck_key = k, ck_created_at = now, ck_lifetime = lifetime\<rparr>, r))"

definition encrypt_cookie :: "crypto \<Rightarrow> curve_cookie_key \<Rightarrow> bytes \<Rightarrow> bytes \<Rightarrow> rng \<Rightarrow> bytes \<times> rng" where
  "encrypt_cookie C key cp sn_secret r =
     (case fill_bytes 16 r of (suf, r) \<Rightarrow>
        (suf @ cr_secret_seal C (ck_key key) (nonce_long NONCE_COOKIE_PREFIX suf) (cp @ sn_secret), r))"

definition cookie_try_decrypt :: "crypto \<Rightarrow> bytes \<Rightarrow> bytes \<Rightarrow> bytes \<Rightarrow> bytes result" where
  "cookie_try_decrypt C key nonce ciphertext =
     (case cr_secret_open C key nonce ciphertext of
        None \<Rightarrow> Err (HandshakeFailed ''CURVE cookie invalid'')
      | Some pt \<Rightarrow> Ok pt)"

definition decrypt_cookie :: "crypto \<Rightarrow> nat \<Rightarrow> curve_cookie_key \<Rightarrow> bytes \<Rightarrow> (bytes \<times> bytes) result" where
  "decrypt_cookie C now key cookie =
     (if length cookie \<noteq> 96 then Err (HandshakeFailed ''CURVE cookie wrong length'')
      else if ck_lifetime key \<le> now - ck_created_at key
      then Err (HandshakeFailed ''CURVE cookie expired'')
      else rbind (cookie_try_decrypt C (ck_key key)
                    (nonce_long NONCE_COOKIE_PREFIX (take 16 cookie)) (drop 16 cookie))
             (\<lambda>plaintext.
                if length plaintext \<noteq> 64
                then Err (HandshakeFailed ''CURVE cookie plaintext wrong length'')
                else Ok (take 32 plaintext, drop 32 plaintext)))"

section \<open>Metadata\<close>

definition encode_metadata :: "peer_properties \<Rightarrow> bytes result" where
  "encode_metadata props =
     (if list_ex (\<lambda>(k, _). 255 < length k) (pp_other props)
      then Err (Protocol ''property name too long'')
      else (case encode_properties_inner props [] of
              None \<Rightarrow> Err (Panic ''property value too long'')
            | Some w \<Rightarrow> Ok w))"

definition decode_metadata :: "bytes \<Rightarrow> peer_properties result" where
  "decode_metadata body = decode_properties_inner body"

section \<open>Client\<close>

datatype curve_client_state =
    CcInit bytes bytes
  | CcAwaitingWelcome bytes bytes
  | CcAwaitingReady bytes bytes
  | CcDone bytes bytes

record curve_client =
  cc_lt_secret :: bytes
  cc_lt_public :: bytes
  cc_peer_lt_public :: bytes
  cc_our_props :: peer_properties
  cc_out_counter :: u64
  cc_received_cookie :: bytes
  cc_state :: curve_client_state

record curve_keypair =
  kp_public :: bytes
  kp_secret :: bytes

definition curve_client_new :: "crypto \<Rightarrow> curve_keypair \<Rightarrow> bytes \<Rightarrow> rng \<Rightarrow> curve_client \<times> rng" where
  "curve_client_new C kp server_public r =
     (case fill_bytes 32 r of (eph, r) \<Rightarrow>
        (\<lparr>cc_lt_secret = kp_secret kp, cc_lt_public = kp_public kp, cc_peer_lt_public = server_public,
          cc_our_props = props_new, cc_out_counter = 0, cc_received_cookie = [],
          cc_state = CcInit eph (cr_public C eph)\<rparr>, r))"

definition client_next_out_counter :: "curve_client \<Rightarrow> curve_client \<times> u64 result" where
  "client_next_out_counter c =
     (case checked_succ (cc_out_counter c) of
        None \<Rightarrow> (c, Err (Protocol ''CURVE handshake nonce counter exhausted''))
      | Some n \<Rightarrow> (c\<lparr>cc_out_counter := n\<rparr>, Ok n))"

fun client_eph_secret :: "curve_client_state \<Rightarrow> bytes" where
  "client_eph_secret (CcInit sk _) = sk"
| "client_eph_secret (CcAwaitingWelcome sk _) = sk"
| "client_eph_secret (CcAwaitingReady sk _) = sk"
| "client_eph_secret (CcDone sk _) = sk"

fun client_eph_public :: "curve_client_state \<Rightarrow> bytes result" where
  "client_eph_public (CcInit _ pk) = Ok pk"
| "client_eph_public (CcAwaitingWelcome _ pk) = Ok pk"
| "client_eph_public _ = Err (Panic ''ephemeral public not available in this state'')"

definition build_hello :: "crypto \<Rightarrow> curve_client \<Rightarrow> curve_client \<times> bytes result" where
  "build_hello C c =
     (case client_next_out_counter c of
        (c, Inl e) \<Rightarrow> (c, Err e)
      | (c, Inr counter) \<Rightarrow>
          let signature_box = cr_box_seal C (cc_peer_lt_public c) (client_eph_secret (cc_state c))
                (nonce_short NONCE_HELLO counter) (replicate 64 0)
          in (c, rbind (client_eph_public (cc_state c)) (\<lambda>pk.
                Ok ([0x01, 0x00] @ replicate 72 0 @ pk @ u64_be counter @ signature_box))))"

definition curve_client_start ::
  "crypto \<Rightarrow> curve_client \<Rightarrow> peer_properties \<Rightarrow> command list \<Rightarrow> curve_client \<times> command list \<times> unit result" where
  "curve_client_start C c our_props out =
     (case build_hello C (c\<lparr>cc_our_props := our_props\<rparr>) of
        (c, Inl e) \<Rightarrow> (c, out, Err e)
      | (c, Inr hello_body) \<Rightarrow>
          let out = out @ [Unknown (ascii ''HELLO'') hello_body]
          in case cc_state c of
               CcInit sk pk \<Rightarrow> (c\<lparr>cc_state := CcAwaitingWelcome sk pk\<rparr>, out, Ok ())
             | _ \<Rightarrow> (c, out, Err (Panic ''unreachable'')))"

definition process_welcome :: "crypto \<Rightarrow> curve_client \<Rightarrow> bytes \<Rightarrow> curve_client \<times> unit result" where
  "process_welcome C c body =
     (if length body \<noteq> 160 then (c, Err (HandshakeFailed ''CURVE WELCOME has wrong length {}''))
      else case cr_box_open C (cc_peer_lt_public c) (client_eph_secret (cc_state c))
                  (nonce_long NONCE_WELCOME_PREFIX (take 16 body)) (drop 16 body) of
             None \<Rightarrow> (c, Err (HandshakeFailed ''CURVE WELCOME decrypt failed''))
           | Some pt \<Rightarrow>
               if length pt \<noteq> 128 then (c, Err (HandshakeFailed ''CURVE WELCOME plaintext len {}''))
               else let sp = take 32 pt; cookie = drop 32 pt
                 in case validate_dh_not_zero C (client_eph_secret (cc_state c)) sp of
                      Inl e \<Rightarrow> (c, Err e)
                    | Inr _ \<Rightarrow>
                        (case cc_state c of
                           CcAwaitingWelcome sk _ \<Rightarrow>
                             (c\<lparr>cc_state := CcAwaitingReady sk sp, cc_received_cookie := cookie\<rparr>, Ok ())
                         | _ \<Rightarrow> (c, Err (Panic ''unreachable''))))"

definition build_initiate :: "crypto \<Rightarrow> curve_client \<Rightarrow> rng \<Rightarrow> rng \<times> curve_client \<times> bytes result" where
  "build_initiate C c r =
     (case client_next_out_counter c of
        (c, Inl e) \<Rightarrow> (r, c, Err e)
      | (c, Inr counter) \<Rightarrow>
          (case cc_state c of
             CcAwaitingReady sk peer_pk \<Rightarrow>
               (case fill_bytes 16 r of (vouch_suffix, r) \<Rightarrow>
                 let vouch_box = cr_box_seal C peer_pk (cc_lt_secret c)
                       (nonce_long NONCE_VOUCH_PREFIX vouch_suffix) (cr_public C sk @ cc_peer_lt_public c)
                 in (r, c, rbind (encode_metadata (cc_our_props c)) (\<lambda>metadata.
                      let init_pt = cc_lt_public c @ vouch_suffix @ vouch_box @ metadata;
                          init_box = cr_box_seal C peer_pk sk (nonce_short NONCE_INITIATE counter) init_pt
                      in Ok (cc_received_cookie c @ u64_be counter @ init_box))))
           | _ \<Rightarrow> (r, c, Err (Panic ''unreachable''))))"

definition parse_ready :: "crypto \<Rightarrow> curve_client \<Rightarrow> bytes \<Rightarrow> curve_client \<times> peer_properties result" where
  "parse_ready C c body =
     (if length body < 8 + 16 then (c, Err (HandshakeFailed ''CURVE READY too short''))
      else case cc_state c of
             CcAwaitingReady sk peer_pk \<Rightarrow>
               (case cr_box_open C peer_pk sk (nonce_short NONCE_READY (be_u64 (take 8 body))) (drop 8 body) of
                  None \<Rightarrow> (c, Err (HandshakeFailed ''CURVE READY decrypt failed''))
                | Some pt \<Rightarrow>
                    (case decode_metadata pt of
                       Inl e \<Rightarrow> (c, Err e)
                     | Inr props \<Rightarrow> (c\<lparr>cc_state := CcDone sk peer_pk\<rparr>, Ok props)))
           | _ \<Rightarrow> (c, Err (Panic ''unreachable'')))"

definition curve_client_on_command ::
  "crypto \<Rightarrow> rng \<Rightarrow> curve_client \<Rightarrow> command \<Rightarrow> command list
    \<Rightarrow> rng \<times> curve_client \<times> command list \<times> mechanism_step result" where
  "curve_client_on_command C r c cmd out =
     (case try_error_command cmd of
        Some err \<Rightarrow> (r, c, out, Err err)
      | None \<Rightarrow>
          (case cmd of
             Unknown name body \<Rightarrow>
               if name = ascii ''WELCOME'' \<and> (case cc_state c of CcAwaitingWelcome _ _ \<Rightarrow> True | _ \<Rightarrow> False)
               then (case process_welcome C c body of
                       (c, Inl e) \<Rightarrow> (r, c, out, Err e)
                     | (c, Inr _) \<Rightarrow>
                         (case build_initiate C c r of
                            (r, c, Inl e) \<Rightarrow> (r, c, out, Err e)
                          | (r, c, Inr initiate) \<Rightarrow>
                              (r, c, out @ [Unknown (ascii ''INITIATE'') initiate], Ok Continue)))
               else if name = ascii ''READY'' \<and> (case cc_state c of CcAwaitingReady _ _ \<Rightarrow> True | _ \<Rightarrow> False)
               then (case parse_ready C c body of
                       (c, Inl e) \<Rightarrow> (r, c, out, Err e)
                     | (c, Inr props) \<Rightarrow> (r, c, out, Ok (Complete props)))
               else (r, c, out, Err (HandshakeFailed ''CURVE client state {:?} cannot consume command {:?}''))
           | _ \<Rightarrow> (r, c, out, Err (HandshakeFailed ''CURVE client got unexpected command: {:?}''))))"

definition client_build_transform :: "curve_client \<Rightarrow> curve_transform result" where
  "client_build_transform c =
     (case cc_state c of
        CcDone sk peer_pk \<Rightarrow> Ok (build_transform sk peer_pk (cc_out_counter c) False)
      | _ \<Rightarrow> Err (HandshakeFailed ''CURVE transform requested before handshake complete''))"

section \<open>Server\<close>

datatype curve_server_state =
    CsInit
  | CsAwaitingInitiate
  | CsDone bytes bytes

record curve_server_options =
  so_cookie_lifetime :: nat
  so_authenticator :: "authenticator option"

record curve_server =
  cs_lt_secret :: bytes
  cs_lt_public :: bytes
  cs_cookie_lifetime :: nat
  cs_cookie_key :: "curve_cookie_key option"
  cs_authenticator :: "authenticator option"
  cs_our_props :: peer_properties
  cs_out_counter :: u64
  cs_state :: curve_server_state

definition curve_server_new :: "curve_keypair \<Rightarrow> curve_server_options \<Rightarrow> curve_server" where
  "curve_server_new kp opts =
     \<lparr>cs_lt_secret = kp_secret kp, cs_lt_public = kp_public kp,
      cs_cookie_lifetime = so_cookie_lifetime opts, cs_cookie_key = None,
      cs_authenticator = so_authenticator opts, cs_our_props = props_new,
      cs_out_counter = 0, cs_state = CsInit\<rparr>"

definition server_next_out_counter :: "curve_server \<Rightarrow> curve_server \<times> u64 result" where
  "server_next_out_counter s =
     (case checked_succ (cs_out_counter s) of
        None \<Rightarrow> (s, Err (Protocol ''CURVE handshake nonce counter exhausted''))
      | Some n \<Rightarrow> (s\<lparr>cs_out_counter := n\<rparr>, Ok n))"

definition curve_server_start :: "curve_server \<Rightarrow> peer_properties \<Rightarrow> curve_server" where
  "curve_server_start s our_props = s\<lparr>cs_our_props := our_props, cs_state := CsInit\<rparr>"

definition parse_hello :: "crypto \<Rightarrow> rng \<Rightarrow> curve_server \<Rightarrow> bytes \<Rightarrow> rng \<times> (bytes \<times> bytes) result" where
  "parse_hello C r s body =
     (if length body \<noteq> 194 then (r, Err (HandshakeFailed ''CURVE HELLO has wrong length {}''))
      else if body ! 0 \<noteq> 0x01 \<or> body ! 1 \<noteq> 0x00
      then (r, Err (HandshakeFailed ''CURVE version mismatch {version_major}.{version_minor}''))
      else let cp = take 32 (drop 74 body);
               counter = be_u64 (take 8 (drop 106 body));
               signature_box = take 80 (drop 114 body)
        in case validate_dh_not_zero C (cs_lt_secret s) cp of
             Inl e \<Rightarrow> (r, Err e)
           | Inr _ \<Rightarrow>
               (case cr_box_open C cp (cs_lt_secret s) (nonce_short NONCE_HELLO counter) signature_box of
                  None \<Rightarrow> (r, Err (HandshakeFailed ''CURVE HELLO signature invalid''))
                | Some pt \<Rightarrow>
                    if length pt \<noteq> 64 \<or> list_ex (\<lambda>b. b \<noteq> 0) pt
                    then (r, Err (HandshakeFailed ''CURVE HELLO signature plaintext not 64 zeros''))
                    else (case fill_bytes 32 r of (eph, r) \<Rightarrow> (r, Ok (eph, cp)))))"

definition build_welcome ::
  "crypto \<Rightarrow> nat \<Rightarrow> rng \<Rightarrow> curve_server \<Rightarrow> bytes \<Rightarrow> bytes \<Rightarrow> rng \<times> curve_server \<times> bytes" where
  "build_welcome C now r s our_eph_secret peer_eph_public =
     (let (welcome_suffix, r) = fill_bytes 16 r;
          (key, r) = cookie_with_lifetime now (cs_cookie_lifetime s) r;
          (cookie, r) = encrypt_cookie C key peer_eph_public our_eph_secret r;
          s = s\<lparr>cs_cookie_key := Some key\<rparr>;
          welcome_box = cr_box_seal C peer_eph_public (cs_lt_secret s)
            (nonce_long NONCE_WELCOME_PREFIX welcome_suffix) (cr_public C our_eph_secret @ cookie)
      in (r, s, welcome_suffix @ welcome_box))"

definition verify_vouch ::
  "crypto \<Rightarrow> bytes \<Rightarrow> bytes \<Rightarrow> bytes \<Rightarrow> bytes \<Rightarrow> bytes \<Rightarrow> bytes \<Rightarrow> unit result" where
  "verify_vouch C our_eph_secret our_lt_public vouch_suffix vouch_box cl expected_cp =
     (case cr_box_open C cl our_eph_secret (nonce_long NONCE_VOUCH_PREFIX vouch_suffix) vouch_box of
        None \<Rightarrow> Err (HandshakeFailed ''CURVE VOUCH invalid'')
      | Some vouch_pt \<Rightarrow>
          if length vouch_pt \<noteq> 64 \<or> take 32 vouch_pt \<noteq> expected_cp \<or> drop 32 vouch_pt \<noteq> our_lt_public
          then Err (HandshakeFailed ''CURVE VOUCH content mismatch'')
          else Ok ())"

definition curve_peer_info :: "bytes \<Rightarrow> peer_properties \<Rightarrow> mechanism_peer_info" where
  "curve_peer_info cl props =
     \<lparr>mp_mechanism = MECH_CURVE, mp_public_key = cl, mp_identity = pp_identity props,
      mp_username = None, mp_password = None\<rparr>"

definition curve_admitted :: "authenticator option \<Rightarrow> bytes \<Rightarrow> peer_properties \<Rightarrow> bool" where
  "curve_admitted auth cl props \<longleftrightarrow>
     (case auth of None \<Rightarrow> True | Some a \<Rightarrow> auth_allow a (curve_peer_info cl props))"

text \<open>The checks of \<^verbatim>\<open>parse_initiate\<close> once the cookie key is taken: the keys of the session and the peer's properties.\<close>

definition check_initiate ::
  "crypto \<Rightarrow> nat \<Rightarrow> curve_server \<Rightarrow> curve_cookie_key \<Rightarrow> bytes \<Rightarrow> (bytes \<times> bytes \<times> peer_properties) result" where
  "check_initiate C now s key body =
     rbind (decrypt_cookie C now key (take 96 body)) (\<lambda>(cp, sn).
       case cr_box_open C cp sn (nonce_short NONCE_INITIATE (be_u64 (take 8 (drop 96 body)))) (drop 104 body) of
         None \<Rightarrow> Err (HandshakeFailed ''CURVE INITIATE decrypt failed'')
       | Some init_pt \<Rightarrow>
           if length init_pt < 32 + 16 + 80
           then Err (HandshakeFailed ''CURVE INITIATE plaintext too short'')
           else let cl = take 32 init_pt
             in rbind (validate_dh_not_zero C sn cl) (\<lambda>_.
                rbind (verify_vouch C sn (cs_lt_public s) (take 16 (drop 32 init_pt))
                         (take 80 (drop 48 init_pt)) cl cp) (\<lambda>_.
                rbind (decode_metadata (drop 128 init_pt)) (\<lambda>props.
                if curve_admitted (cs_authenticator s) cl props then Ok (sn, cp, props)
                else Err (HandshakeFailed ''CURVE client public key not authorized'')))))"

definition parse_initiate ::
  "crypto \<Rightarrow> nat \<Rightarrow> curve_server \<Rightarrow> bytes \<Rightarrow> curve_server \<times> peer_properties result" where
  "parse_initiate C now s body =
     (if length body < 96 + 8 + 16 then (s, Err (HandshakeFailed ''CURVE INITIATE too short''))
      else case cs_cookie_key s of
             None \<Rightarrow> (s, Err (HandshakeFailed ''CURVE cookie key unavailable''))
           | Some key \<Rightarrow>
               let s = s\<lparr>cs_cookie_key := None\<rparr>
               in case check_initiate C now s key body of
                    Inl e \<Rightarrow> (s, Err e)
                  | Inr (sn, cp, props) \<Rightarrow> (s\<lparr>cs_state := CsDone sn cp\<rparr>, Ok props))"

definition build_ready :: "crypto \<Rightarrow> curve_server \<Rightarrow> curve_server \<times> bytes result" where
  "build_ready C s =
     (case server_next_out_counter s of
        (s, Inl e) \<Rightarrow> (s, Err e)
      | (s, Inr counter) \<Rightarrow>
          (case cs_state s of
             CsDone sk peer_pk \<Rightarrow>
               (s, rbind (encode_metadata (cs_our_props s)) (\<lambda>metadata.
                  Ok (u64_be counter @ cr_box_seal C peer_pk sk (nonce_short NONCE_READY counter) metadata)))
           | _ \<Rightarrow> (s, Err (HandshakeFailed ''CURVE READY requested before INITIATE''))))"

definition curve_server_on_command ::
  "crypto \<Rightarrow> nat \<Rightarrow> rng \<Rightarrow> curve_server \<Rightarrow> command \<Rightarrow> command list
    \<Rightarrow> rng \<times> curve_server \<times> command list \<times> mechanism_step result" where
  "curve_server_on_command C now r s cmd out =
     (case try_error_command cmd of
        Some err \<Rightarrow> (r, s, out, Err err)
      | None \<Rightarrow>
          (case cmd of
             Unknown name body \<Rightarrow>
               if name = ascii ''HELLO'' \<and> cs_state s = CsInit then
                 (case parse_hello C r s body of
                    (r, Inl e) \<Rightarrow> (r, s, out, Err e)
                  | (r, Inr (eph, peer_eph)) \<Rightarrow>
                      (case build_welcome C now r s eph peer_eph of
                         (r, s, welcome) \<Rightarrow>
                           (r, s\<lparr>cs_state := CsAwaitingInitiate\<rparr>,
                            out @ [Unknown (ascii ''WELCOME'') welcome], Ok Continue)))
               else if name = ascii ''INITIATE'' \<and> cs_state s = CsAwaitingInitiate then
                 (case parse_initiate C now s body of
                    (s, Inl e) \<Rightarrow> (r, s, out, Err e)
                  | (s, Inr props) \<Rightarrow>
                      (case build_ready C s of
                         (s, Inl e) \<Rightarrow> (r, s, out, Err e)
                       | (s, Inr ready) \<Rightarrow>
                           (r, s, out @ [Unknown (ascii ''READY'') ready], Ok (Complete props))))
               else (r, s, out, Err (HandshakeFailed ''CURVE server state {:?} cannot consume command {:?}''))
           | _ \<Rightarrow> (r, s, out, Err (HandshakeFailed ''CURVE server got unexpected command: {:?}''))))"

definition server_build_transform :: "curve_server \<Rightarrow> curve_transform result" where
  "server_build_transform s =
     (case cs_state s of
        CsDone sk peer_pk \<Rightarrow> Ok (build_transform sk peer_pk (cs_out_counter s) True)
      | _ \<Rightarrow> Err (HandshakeFailed ''CURVE transform requested before handshake complete''))"

section \<open>Dispatch\<close>

datatype curve_mechanism = CurveClient curve_client | CurveServer curve_server

definition curve_start ::
  "crypto \<Rightarrow> curve_mechanism \<Rightarrow> peer_properties \<Rightarrow> command list \<Rightarrow> curve_mechanism \<times> command list \<times> unit result" where
  "curve_start C m our_props out =
     (case m of
        CurveClient c \<Rightarrow>
          (case curve_client_start C c our_props out of (c, out, r) \<Rightarrow> (CurveClient c, out, r))
      | CurveServer s \<Rightarrow> (CurveServer (curve_server_start s our_props), out, Ok ()))"

definition curve_on_command ::
  "crypto \<Rightarrow> nat \<Rightarrow> rng \<Rightarrow> curve_mechanism \<Rightarrow> command \<Rightarrow> command list
    \<Rightarrow> rng \<times> curve_mechanism \<times> command list \<times> mechanism_step result" where
  "curve_on_command C now r m cmd out =
     (case m of
        CurveClient c \<Rightarrow>
          (case curve_client_on_command C r c cmd out of (r, c, out, st) \<Rightarrow> (r, CurveClient c, out, st))
      | CurveServer s \<Rightarrow>
          (case curve_server_on_command C now r s cmd out of (r, s, out, st) \<Rightarrow> (r, CurveServer s, out, st)))"

definition curve_build_transform :: "curve_mechanism \<Rightarrow> curve_transform result" where
  "curve_build_transform m =
     (case m of CurveClient c \<Rightarrow> client_build_transform c | CurveServer s \<Rightarrow> server_build_transform s)"

section \<open>Lemmas\<close>

lemma length_u64_be [simp]: "length (u64_be c) = 8"
  by (simp add: u64_be_def)

lemma be_u64_u64_be [simp]: "be_u64 (u64_be c) = c"
proof -
  have "unat c < 256 ^ 8" using unsigned_less [of c, where ?'a = nat] by simp
  then show ?thesis by (simp add: be_u64_def u64_be_def)
qed

lemma u64_be_inj: "u64_be a = u64_be b \<Longrightarrow> a = b"
  by (metis be_u64_u64_be)

lemma checked_succ_SomeD: "checked_succ c = Some c' \<Longrightarrow> c' = c + 1 \<and> unat c' = unat c + 1 \<and> c < c'"
proof -
  assume *: "checked_succ c = Some c'"
  then have c: "c' = c + 1" "c + 1 \<noteq> 0"
    by (auto simp: checked_succ_def eq_neg_iff_add_eq_0 split: if_splits)
  then have "unat (c + 1) = unat c + 1" using unatSuc [of c] by (simp add: add.commute)
  with c show ?thesis by (simp add: word_less_nat_alt)
qed

lemma crypto_lawsD:
  assumes "crypto_laws C"
  shows "length (cr_public C sk) = 32"
    and "cr_box_open C (cr_public C a) b n (cr_box_seal C (cr_public C b) a n m) = Some m"
    and "length (cr_box_seal C pk sk n m) = length m + 16"
    and "cr_box_open_detached C (cr_public C a) b n
           (snd (cr_box_seal_detached C (cr_public C b) a n m))
           (fst (cr_box_seal_detached C (cr_public C b) a n m)) = Some m"
    and "length (fst (cr_box_seal_detached C pk sk n m)) = 16"
    and "length (snd (cr_box_seal_detached C pk sk n m)) = length m"
    and "cr_secret_open C k n (cr_secret_seal C k n m) = Some m"
    and "length (cr_secret_seal C k n m) = length m + 16"
  using assms by (simp_all add: crypto_laws_def)

subsection \<open>MESSAGE frames\<close>

text \<open>The two ends of one direction: \<open>tx\<close> seals to \<open>rx\<close>.\<close>

definition tx_rx :: "crypto \<Rightarrow> curve_transform \<Rightarrow> curve_transform \<Rightarrow> bool" where
  "tx_rx C tx rx \<longleftrightarrow>
     ct_peer_public tx = cr_public C (ct_our_secret rx) \<and> ct_peer_public rx = cr_public C (ct_our_secret tx)
     \<and> ct_out_prefix tx = ct_in_prefix rx \<and> ct_in_counter rx \<le> ct_out_counter tx"

lemma encrypt_message_Ok:
  "encrypt_message C tx mor cmd pt = (tx', Ok body) \<Longrightarrow>
     checked_succ (ct_out_counter tx) = Some (ct_out_counter tx')
     \<and> tx' = tx\<lparr>ct_out_counter := ct_out_counter tx'\<rparr>
     \<and> (\<exists>tag ct. body = u64_be (ct_out_counter tx') @ tag @ ct \<and>
          cr_box_seal_detached C (ct_peer_public tx) (ct_our_secret tx)
            (nonce_short (ct_out_prefix tx) (ct_out_counter tx'))
            (((if mor then 1 else 0) OR push_bit 1 (if cmd then 1 else 0)) # pt) = (tag, ct))"
  by (auto simp: encrypt_message_def Let_def split: option.splits prod.splits)

lemma decrypt_encrypt:
  assumes laws: "crypto_laws C" and pair: "tx_rx C tx rx"
    and enc: "encrypt_message C tx mor cmd pt = (tx', Ok body)"
  shows "\<exists>rx'. decrypt_message C rx body = (rx', Ok (mor, cmd, pt)) \<and> tx_rx C tx' rx'
    \<and> ct_in_counter rx' = ct_out_counter tx'"
proof -
  let ?fl = "(if mor then 1 else 0) OR push_bit 1 (if cmd then 1 else 0) :: u8"
  let ?n = "nonce_short (ct_out_prefix tx) (ct_out_counter tx')"
  from encrypt_message_Ok [OF enc] obtain tag ct where
    succ: "checked_succ (ct_out_counter tx) = Some (ct_out_counter tx')" and
    tx': "tx' = tx\<lparr>ct_out_counter := ct_out_counter tx'\<rparr>" and
    body: "body = u64_be (ct_out_counter tx') @ tag @ ct" and
    seal: "cr_box_seal_detached C (ct_peer_public tx) (ct_our_secret tx) ?n (?fl # pt) = (tag, ct)"
    by blast
  have len: "length tag = 16" "length ct = length pt + 1"
    using crypto_lawsD(5,6) [OF laws, of "ct_peer_public tx" "ct_our_secret tx" ?n "?fl # pt"] seal
    by simp_all
  have opn: "cr_box_open_detached C (ct_peer_public rx) (ct_our_secret rx) ?n ct tag = Some (?fl # pt)"
    using crypto_lawsD(4) [OF laws, of "ct_our_secret tx" "ct_our_secret rx" ?n "?fl # pt"] seal pair
    by (simp add: tx_rx_def)
  have "ct_in_counter rx < ct_out_counter tx'"
    using pair checked_succ_SomeD [OF succ] by (auto simp: tx_rx_def)
  then have dec: "decrypt_message C rx body
      = (rx\<lparr>ct_in_counter := ct_out_counter tx'\<rparr>, Ok (?fl AND 0x01 \<noteq> 0, ?fl AND 0x02 \<noteq> 0, pt))"
    using len opn pair by (simp add: decrypt_message_def body Let_def tx_rx_def not_le)
  moreover have "(?fl AND 0x01 \<noteq> 0) = mor" "(?fl AND 0x02 \<noteq> 0) = cmd"
    by (cases mor; cases cmd; simp)+
  moreover have "tx_rx C tx' (rx\<lparr>ct_in_counter := ct_out_counter tx'\<rparr>)"
    using pair by (subst tx') (simp add: tx_rx_def)
  ultimately show ?thesis by simp
qed

lemma decrypt_message_Ok:
  "decrypt_message C rx body = (rx', Ok v) \<Longrightarrow>
     ct_in_counter rx < ct_in_counter rx' \<and> ct_in_counter rx' = be_u64 (take 8 body)
     \<and> rx' = rx\<lparr>ct_in_counter := ct_in_counter rx'\<rparr>"
  by (auto simp: decrypt_message_def Let_def not_le split: if_splits option.splits list.splits)

lemma decrypt_message_Err: "decrypt_message C rx body = (rx', Err e) \<Longrightarrow> rx' = rx"
  by (auto simp: decrypt_message_def Let_def split: if_splits option.splits list.splits)

lemma decrypt_replay:
  "25 \<le> length body \<Longrightarrow> be_u64 (take 8 body) \<le> ct_in_counter rx \<Longrightarrow>
     decrypt_message C rx body
       = (rx, Err (Protocol ''CURVE MESSAGE nonce counter not monotonically increasing''))"
  by (simp add: decrypt_message_def Let_def)

fun encrypt_all ::
  "crypto \<Rightarrow> curve_transform \<Rightarrow> (bool \<times> bool \<times> bytes) list \<Rightarrow> curve_transform \<times> bytes list result" where
  "encrypt_all C tx [] = (tx, Ok [])"
| "encrypt_all C tx ((mor, cmd, pt) # ms) =
     (case encrypt_message C tx mor cmd pt of
        (tx, Inl e) \<Rightarrow> (tx, Err e)
      | (tx, Inr b) \<Rightarrow>
          (case encrypt_all C tx ms of (tx, r) \<Rightarrow> (tx, rbind r (\<lambda>bs. Ok (b # bs)))))"

fun decrypt_all ::
  "crypto \<Rightarrow> curve_transform \<Rightarrow> bytes list \<Rightarrow> curve_transform \<times> (bool \<times> bool \<times> bytes) list result" where
  "decrypt_all C rx [] = (rx, Ok [])"
| "decrypt_all C rx (b # bs) =
     (case decrypt_message C rx b of
        (rx, Inl e) \<Rightarrow> (rx, Err e)
      | (rx, Inr m) \<Rightarrow>
          (case decrypt_all C rx bs of (rx, r) \<Rightarrow> (rx, rbind r (\<lambda>ms. Ok (m # ms)))))"

lemma encrypt_all_ConsE:
  assumes "encrypt_all C tx ((mor, cmd, pt) # ms) = (tx', Ok bodies)"
  obtains tx1 b bs where "encrypt_message C tx mor cmd pt = (tx1, Ok b)"
    "encrypt_all C tx1 ms = (tx', Ok bs)" "bodies = b # bs"
  using assms by (auto simp: rbind_Ok_iff split: prod.splits sum.splits)

lemma encrypt_all_counters:
  "encrypt_all C tx ms = (tx', Ok bodies) \<Longrightarrow>
     map (\<lambda>b. unat (be_u64 (take 8 b))) bodies = [unat (ct_out_counter tx) + 1 ..< unat (ct_out_counter tx) + 1 + length ms]
     \<and> unat (ct_out_counter tx') = unat (ct_out_counter tx) + length ms \<and> length bodies = length ms"
proof (induction ms arbitrary: tx bodies)
  case Nil
  then show ?case by simp
next
  case (Cons m ms)
  obtain mor cmd pt where m: "m = (mor, cmd, pt)" by (cases m)
  from Cons.prems [unfolded m] obtain tx1 b bs where
    step: "encrypt_message C tx mor cmd pt = (tx1, Ok b)" "encrypt_all C tx1 ms = (tx', Ok bs)"
      "bodies = b # bs" by (rule encrypt_all_ConsE)
  have "be_u64 (take 8 b) = ct_out_counter tx1" "unat (ct_out_counter tx1) = unat (ct_out_counter tx) + 1"
    using encrypt_message_Ok [OF step(1)] by (auto dest: checked_succ_SomeD)
  with Cons.IH [OF step(2)] step(3) show ?case by (simp add: upt_conv_Cons del: upt_Suc)
qed

lemma decrypt_all_counter:
  "decrypt_all C rx bodies = (rx', Ok ms) \<Longrightarrow>
     ct_in_counter rx \<le> ct_in_counter rx'
     \<and> (\<forall>b \<in> set bodies. 25 \<le> length b \<and> be_u64 (take 8 b) \<le> ct_in_counter rx')"
proof (induction bodies arbitrary: rx ms)
  case Nil
  then show ?case by simp
next
  case (Cons b bs)
  then obtain rx1 m ms' where step: "decrypt_message C rx b = (rx1, Ok m)"
    "decrypt_all C rx1 bs = (rx', Ok ms')"
    by (auto simp: rbind_Ok_iff split: prod.splits sum.splits)
  have "25 \<le> length b"
    using step(1) by (auto simp: decrypt_message_def split: if_splits)
  with decrypt_message_Ok [OF step(1)] Cons.IH [OF step(2)] show ?case by auto
qed

lemma decrypt_all_encrypt_all:
  "crypto_laws C \<Longrightarrow> tx_rx C tx rx \<Longrightarrow> encrypt_all C tx ms = (tx', Ok bodies) \<Longrightarrow>
     \<exists>rx'. decrypt_all C rx bodies = (rx', Ok ms) \<and> tx_rx C tx' rx'"
proof (induction ms arbitrary: tx rx bodies)
  case Nil
  then show ?case by simp
next
  case (Cons m ms)
  obtain mor cmd pt where m: "m = (mor, cmd, pt)" by (cases m)
  from Cons.prems(3) [unfolded m] obtain tx1 b bs where
    step: "encrypt_message C tx mor cmd pt = (tx1, Ok b)" "encrypt_all C tx1 ms = (tx', Ok bs)"
      "bodies = b # bs" by (rule encrypt_all_ConsE)
  from decrypt_encrypt [OF Cons.prems(1,2) step(1)] obtain rx1 where
    "decrypt_message C rx b = (rx1, Ok (mor, cmd, pt))" "tx_rx C tx1 rx1" by blast
  with Cons.IH [OF Cons.prems(1) _ step(2)] step(3) show ?case
    by (fastforce simp: m)
qed

subsection \<open>Handshake messages\<close>

definition hello_wire :: "crypto \<Rightarrow> bytes \<Rightarrow> bytes \<Rightarrow> u64 \<Rightarrow> bytes" where
  "hello_wire C server_pk eph n =
     [1, 0] @ replicate 72 0 @ cr_public C eph @ u64_be n
       @ cr_box_seal C server_pk eph (nonce_short NONCE_HELLO n) (replicate 64 0)"

definition dh_honest :: "crypto \<Rightarrow> bool" where
  "dh_honest C \<longleftrightarrow> (\<forall>a b. \<not> list_all (\<lambda>x. x = 0) (cr_dh C a (cr_public C b)))"

lemma validate_dh_honest: "dh_honest C \<Longrightarrow> validate_dh_not_zero C a (cr_public C b) = Ok ()"
  by (simp add: validate_dh_not_zero_def dh_honest_def)

lemma parse_hello_wire:
  assumes "crypto_laws C" "dh_honest C"
  shows "parse_hello C r s (hello_wire C (cr_public C (cs_lt_secret s)) eph n)
    = (snd (fill_bytes 32 r), Ok (fst (fill_bytes 32 r), cr_public C eph))"
proof -
  note laws = crypto_lawsD [OF assms(1)]
  let ?b = "hello_wire C (cr_public C (cs_lt_secret s)) eph n"
  have "length ?b = 194" "?b ! 0 = 1" "?b ! 1 = 0" "take 32 (drop 74 ?b) = cr_public C eph"
    "take 8 (drop 106 ?b) = u64_be n"
    "take 80 (drop 114 ?b) = cr_box_seal C (cr_public C (cs_lt_secret s)) eph (nonce_short NONCE_HELLO n) (replicate 64 0)"
    by (simp_all add: hello_wire_def laws(1,3))
  then show ?thesis
    by (simp add: parse_hello_def validate_dh_honest [OF assms(2)] laws(2,3) list_ex_iff Let_def
      split: prod.split)
qed

definition cookie_wire :: "crypto \<Rightarrow> bytes \<Rightarrow> bytes \<Rightarrow> bytes \<Rightarrow> bytes \<Rightarrow> bytes" where
  "cookie_wire C key suf cp sn = suf @ cr_secret_seal C key (nonce_long NONCE_COOKIE_PREFIX suf) (cp @ sn)"

lemma decrypt_cookie_wire:
  assumes "crypto_laws C" "length suf = 16" "length cp = 32" "length sn = 32"
    and "now - ck_created_at key < ck_lifetime key"
  shows "decrypt_cookie C now key (cookie_wire C (ck_key key) suf cp sn) = Ok (cp, sn)"
  using assms crypto_lawsD(7,8) [OF assms(1)]
  by (simp add: decrypt_cookie_def cookie_wire_def cookie_try_decrypt_def)

text \<open>One honest run, message by message.\<close>

lemma client_hello_step:
  assumes "cc_state c = CcInit eph (cr_public C eph)" "cc_out_counter c = 0"
  shows "curve_client_start C c p out
    = (c\<lparr>cc_our_props := p, cc_out_counter := 1, cc_state := CcAwaitingWelcome eph (cr_public C eph)\<rparr>,
       out @ [Unknown (ascii ''HELLO'') (hello_wire C (cc_peer_lt_public c) eph 1)], Ok ())"
  using assms
  by (simp add: curve_client_start_def build_hello_def client_next_out_counter_def checked_succ_def
    hello_wire_def Let_def)

lemma server_hello_step:
  assumes laws: "crypto_laws C" and dh: "dh_honest C" and st: "cs_state s = CsInit"
  shows "\<exists>r' sn key wsuf csuf. length sn = 32 \<and> length wsuf = 16 \<and> length csuf = 16
    \<and> ck_created_at key = now \<and> ck_lifetime key = cs_cookie_lifetime s
    \<and> curve_server_on_command C now r s
        (Unknown (ascii ''HELLO'') (hello_wire C (cr_public C (cs_lt_secret s)) eph n)) out
      = (r', s\<lparr>cs_cookie_key := Some key, cs_state := CsAwaitingInitiate\<rparr>,
         out @ [Unknown (ascii ''WELCOME'') (wsuf @ cr_box_seal C (cr_public C eph) (cs_lt_secret s)
           (nonce_long NONCE_WELCOME_PREFIX wsuf)
           (cr_public C sn @ cookie_wire C (ck_key key) csuf (cr_public C eph) sn))], Ok Continue)"
proof -
  obtain sn r1 where f1: "fill_bytes 32 r = (sn, r1)" "length sn = 32" by (rule fill_bytesE)
  obtain wsuf r2 where f2: "fill_bytes 16 r1 = (wsuf, r2)" "length wsuf = 16" by (rule fill_bytesE)
  obtain k r3 where f3: "fill_bytes 32 r2 = (k, r3)" by (rule fill_bytesE)
  obtain csuf r4 where f4: "fill_bytes 16 r3 = (csuf, r4)" "length csuf = 16" by (rule fill_bytesE)
  show ?thesis
    using st parse_hello_wire [OF laws dh, of r s eph n] f1(2) f2(2) f4(2)
    by (intro exI [of _ r4] exI [of _ sn] exI [of _ wsuf] exI [of _ csuf]
        exI [of _ "\<lparr>ck_key = k, ck_created_at = now, ck_lifetime = cs_cookie_lifetime s\<rparr>"])
      (simp add: curve_server_on_command_def command_words_neq build_welcome_def f1(1) f2(1) f3 f4(1)
        cookie_with_lifetime_def encrypt_cookie_def cookie_wire_def Let_def)
qed

lemma client_welcome_step:
  assumes laws: "crypto_laws C" and dh: "dh_honest C" and props: "props_ok (cc_our_props c)"
    and st: "cc_state c = CcAwaitingWelcome eph (cr_public C eph)" "cc_out_counter c = 1"
    and srv: "cc_peer_lt_public c = cr_public C ssk"
    and len: "length wsuf = 16" "length cookie = 96"
  shows "\<exists>r' vsuf. length vsuf = 16 \<and>
    curve_client_on_command C r c (Unknown (ascii ''WELCOME'')
        (wsuf @ cr_box_seal C (cr_public C eph) ssk (nonce_long NONCE_WELCOME_PREFIX wsuf)
          (cr_public C sn @ cookie))) out
    = (r', c\<lparr>cc_state := CcAwaitingReady eph (cr_public C sn), cc_received_cookie := cookie,
             cc_out_counter := 2\<rparr>,
       out @ [Unknown (ascii ''INITIATE'')
         (cookie @ u64_be 2 @ cr_box_seal C (cr_public C sn) eph (nonce_short NONCE_INITIATE 2)
           (cc_lt_public c @ vsuf
            @ cr_box_seal C (cr_public C sn) (cc_lt_secret c) (nonce_long NONCE_VOUCH_PREFIX vsuf)
                (cr_public C eph @ cr_public C ssk)
            @ props_wire (cc_our_props c)))], Ok Continue)"
proof -
  note l = crypto_lawsD [OF laws]
  have meta: "encode_metadata (cc_our_props c) = Ok (props_wire (cc_our_props c))"
    using props encode_properties_eq [OF props, of "[]"]
    by (auto simp: encode_metadata_def props_ok_def list_ex_iff list_all_iff prop_ok_def)
  obtain vsuf r1 where f: "fill_bytes 16 r = (vsuf, r1)" "length vsuf = 16" by (rule fill_bytesE)
  show ?thesis
    using st len f(2)
    by (intro exI [of _ r1] exI [of _ vsuf])
      (simp add: curve_client_on_command_def command_words_neq process_welcome_def srv l(1-3)
        validate_dh_honest [OF dh] build_initiate_def client_next_out_counter_def checked_succ_def
        f(1) meta Let_def)
qed

lemma server_initiate_step:
  assumes laws: "crypto_laws C" and dh: "dh_honest C"
    and props: "props_ok pc" "props_ok (cs_our_props s)"
    and st: "cs_state s = CsAwaitingInitiate" "cs_out_counter s = 0" "cs_cookie_key s = Some key"
    and key: "now - ck_created_at key < ck_lifetime key"
    and srv: "cs_lt_public s = cr_public C ssk"
    and auth: "curve_admitted (cs_authenticator s) (cr_public C csk) pc"
    and len: "length csuf = 16" "length vsuf = 16" "length sn = 32"
  shows "curve_server_on_command C now r s (Unknown (ascii ''INITIATE'')
      (cookie_wire C (ck_key key) csuf (cr_public C eph) sn @ u64_be 2
       @ cr_box_seal C (cr_public C sn) eph (nonce_short NONCE_INITIATE 2)
          (cr_public C csk @ vsuf
           @ cr_box_seal C (cr_public C sn) csk (nonce_long NONCE_VOUCH_PREFIX vsuf)
               (cr_public C eph @ cr_public C ssk)
           @ props_wire pc))) out
    = (r, s\<lparr>cs_cookie_key := None, cs_state := CsDone sn (cr_public C eph), cs_out_counter := 1\<rparr>,
       out @ [Unknown (ascii ''READY'') (u64_be 1 @ cr_box_seal C (cr_public C eph) sn
         (nonce_short NONCE_READY 1) (props_wire (cs_our_props s)))], Ok (Complete pc))"
proof -
  note l = crypto_lawsD [OF laws]
  let ?cookie = "cookie_wire C (ck_key key) csuf (cr_public C eph) sn"
  let ?vouch = "cr_box_seal C (cr_public C sn) csk (nonce_long NONCE_VOUCH_PREFIX vsuf)
      (cr_public C eph @ cr_public C ssk)"
  define pt where "pt = cr_public C csk @ vsuf @ ?vouch @ props_wire pc"
  let ?body = "?cookie @ u64_be 2 @ cr_box_seal C (cr_public C sn) eph (nonce_short NONCE_INITIATE 2) pt"
  have cookie: "length ?cookie = 96"
    using len by (simp add: cookie_wire_def l(1,8))
  have fields: "take 32 pt = cr_public C csk" "take 16 (drop 32 pt) = vsuf"
    "take 80 (drop 48 pt) = ?vouch" "drop 128 pt = props_wire pc" "128 \<le> length pt"
    using len by (simp_all add: pt_def l(1,3))
  have body: "take 96 ?body = ?cookie" "take 8 (drop 96 ?body) = u64_be 2"
    "drop 104 ?body = cr_box_seal C (cr_public C sn) eph (nonce_short NONCE_INITIATE 2) pt"
    "120 \<le> length ?body"
    using cookie by (simp_all add: l(3))
  have vouch: "verify_vouch C sn (cr_public C ssk) vsuf ?vouch (cr_public C csk) (cr_public C eph) = Ok ()"
    by (simp add: verify_vouch_def l(1,2))
  have meta: "encode_metadata (cs_our_props s) = Ok (props_wire (cs_our_props s))"
    using props encode_properties_eq [OF props(2), of "[]"]
    by (auto simp: encode_metadata_def props_ok_def list_ex_iff list_all_iff prop_ok_def)
  have ck: "decrypt_cookie C now key ?cookie = Ok (cr_public C eph, sn)"
    using decrypt_cookie_wire [OF laws len(1) _ len(3) key] by (simp add: l(1))
  have "parse_initiate C now s ?body
      = (s\<lparr>cs_cookie_key := None, cs_state := CsDone sn (cr_public C eph)\<rparr>, Ok pc)"
    unfolding parse_initiate_def check_initiate_def body(1-3) st(3) option.case Let_def
    using body(4) fields(5) auth
    by (simp add: ck l(2) fields(1-4) vouch srv validate_dh_honest [OF dh] decode_metadata_def
      decode_properties_wire [OF props(1)])
  then show ?thesis
    using st unfolding pt_def by (simp add: curve_server_on_command_def command_words_neq build_ready_def
      server_next_out_counter_def checked_succ_def meta wire_eval)
qed

lemma client_ready_step:
  assumes laws: "crypto_laws C" and props: "props_ok ps"
    and st: "cc_state c = CcAwaitingReady eph (cr_public C sn)"
  shows "curve_client_on_command C r c (Unknown (ascii ''READY'')
      (u64_be 1 @ cr_box_seal C (cr_public C eph) sn (nonce_short NONCE_READY 1) (props_wire ps))) out
    = (r, c\<lparr>cc_state := CcDone eph (cr_public C sn)\<rparr>, out, Ok (Complete ps))"
  using st crypto_lawsD [OF laws] decode_properties_wire [OF props]
  by (simp add: curve_client_on_command_def command_words_neq parse_ready_def decode_metadata_def wire_eval)

lemma curve_handshake_run:
  assumes laws: "crypto_laws C" "dh_honest C"
    and props: "props_ok pc" "props_ok ps"
    and client: "curve_client_new C \<lparr>kp_public = cr_public C csk, kp_secret = csk\<rparr> (cr_public C ssk) r0 = (c0, r1)"
    and server: "s0 = curve_server_start (curve_server_new \<lparr>kp_public = cr_public C ssk, kp_secret = ssk\<rparr> opts) ps"
    and auth: "curve_admitted (so_authenticator opts) (cr_public C csk) pc"
    and time: "later - now < so_cookie_lifetime opts"
  shows "\<exists>c1 c2 c3 s1 s2 hello welcome initiate ready r2 r3 tc ts.
    curve_client_start C c0 pc [] = (c1, [hello], Ok ())
    \<and> curve_server_on_command C now r1 s0 hello [] = (r2, s1, [welcome], Ok Continue)
    \<and> curve_client_on_command C r2 c1 welcome [] = (r3, c2, [initiate], Ok Continue)
    \<and> curve_server_on_command C later r3 s1 initiate [] = (r3, s2, [ready], Ok (Complete pc))
    \<and> curve_client_on_command C r3 c2 ready [] = (r3, c3, [], Ok (Complete ps))
    \<and> client_build_transform c3 = Ok tc \<and> server_build_transform s2 = Ok ts
    \<and> tx_rx C tc ts \<and> tx_rx C ts tc"
proof -
  from client obtain eph where c0: "cc_state c0 = CcInit eph (cr_public C eph)" "cc_out_counter c0 = 0"
      "cc_lt_secret c0 = csk" "cc_lt_public c0 = cr_public C csk" "cc_peer_lt_public c0 = cr_public C ssk"
    by (auto simp: curve_client_new_def split: prod.splits)
  have s0: "cs_lt_secret s0 = ssk" "cs_state s0 = CsInit" "cs_lt_public s0 = cr_public C ssk"
      "cs_our_props s0 = ps" "cs_out_counter s0 = 0" "cs_cookie_lifetime s0 = so_cookie_lifetime opts"
      "cs_authenticator s0 = so_authenticator opts"
    by (simp_all add: server curve_server_new_def curve_server_start_def)
  define c1 where "c1 = c0\<lparr>cc_our_props := pc, cc_out_counter := 1, cc_state := CcAwaitingWelcome eph (cr_public C eph)\<rparr>"
  have hello: "curve_client_start C c0 pc [] = (c1, [Unknown (ascii ''HELLO'') (hello_wire C (cr_public C ssk) eph 1)], Ok ())"
    using client_hello_step [OF c0(1,2), of pc "[]"] by (simp add: c1_def c0(5))
  obtain r2 sn key wsuf csuf where len: "length sn = 32" "length wsuf = 16" "length csuf = 16"
    and key: "ck_created_at key = now" "ck_lifetime key = so_cookie_lifetime opts"
    and wel: "curve_server_on_command C now r1 s0 (Unknown (ascii ''HELLO'') (hello_wire C (cr_public C ssk) eph 1)) []
      = (r2, s0\<lparr>cs_cookie_key := Some key, cs_state := CsAwaitingInitiate\<rparr>,
         [Unknown (ascii ''WELCOME'') (wsuf @ cr_box_seal C (cr_public C eph) ssk (nonce_long NONCE_WELCOME_PREFIX wsuf)
           (cr_public C sn @ cookie_wire C (ck_key key) csuf (cr_public C eph) sn))], Ok Continue)"
    using server_hello_step [OF laws s0(2), of now r1 eph 1 "[]"] by (auto simp: s0)
  have cookie: "length (cookie_wire C (ck_key key) csuf (cr_public C eph) sn) = 96"
    using len by (simp add: cookie_wire_def crypto_lawsD(1,8) [OF laws(1)])
  define c2 where "c2 = c1\<lparr>cc_state := CcAwaitingReady eph (cr_public C sn),
    cc_received_cookie := cookie_wire C (ck_key key) csuf (cr_public C eph) sn, cc_out_counter := 2\<rparr>"
  have c1: "props_ok (cc_our_props c1)" "cc_state c1 = CcAwaitingWelcome eph (cr_public C eph)"
    "cc_out_counter c1 = 1" "cc_peer_lt_public c1 = cr_public C ssk" "cc_our_props c1 = pc"
    "cc_lt_public c1 = cr_public C csk" "cc_lt_secret c1 = csk"
    by (simp_all add: c1_def c0 props)
  from client_welcome_step [OF laws c1(1-4) len(2) cookie, of r2 sn "[]"] obtain r3 vsuf where
    vsuf: "length vsuf = 16" and
    initiate: "curve_client_on_command C r2 c1 (Unknown (ascii ''WELCOME'')
        (wsuf @ cr_box_seal C (cr_public C eph) ssk (nonce_long NONCE_WELCOME_PREFIX wsuf)
          (cr_public C sn @ cookie_wire C (ck_key key) csuf (cr_public C eph) sn))) []
      = (r3, c2, [Unknown (ascii ''INITIATE'') (cookie_wire C (ck_key key) csuf (cr_public C eph) sn @ u64_be 2
          @ cr_box_seal C (cr_public C sn) eph (nonce_short NONCE_INITIATE 2)
            (cr_public C csk @ vsuf @ cr_box_seal C (cr_public C sn) csk (nonce_long NONCE_VOUCH_PREFIX vsuf)
               (cr_public C eph @ cr_public C ssk) @ props_wire pc))], Ok Continue)"
    unfolding c1(5-7) c2_def by auto
  let ?s1 = "s0\<lparr>cs_cookie_key := Some key, cs_state := CsAwaitingInitiate\<rparr>"
  have ready: "curve_server_on_command C later r3 ?s1 (Unknown (ascii ''INITIATE'')
        (cookie_wire C (ck_key key) csuf (cr_public C eph) sn @ u64_be 2
          @ cr_box_seal C (cr_public C sn) eph (nonce_short NONCE_INITIATE 2)
            (cr_public C csk @ vsuf @ cr_box_seal C (cr_public C sn) csk (nonce_long NONCE_VOUCH_PREFIX vsuf)
               (cr_public C eph @ cr_public C ssk) @ props_wire pc))) []
      = (r3, ?s1\<lparr>cs_cookie_key := None, cs_state := CsDone sn (cr_public C eph), cs_out_counter := 1\<rparr>,
         [] @ [Unknown (ascii ''READY'') (u64_be 1 @ cr_box_seal C (cr_public C eph) sn
           (nonce_short NONCE_READY 1) (props_wire (cs_our_props ?s1)))], Ok (Complete pc))"
    by (rule server_initiate_step [OF laws props(1) _ _ _ _ _ _ _ len(3) vsuf len(1)])
      (use props auth time key in \<open>simp_all add: s0\<close>)
  have c2: "cc_state c2 = CcAwaitingReady eph (cr_public C sn)" "cc_out_counter c2 = 2"
    by (simp_all add: c2_def)
  note fin = client_ready_step [OF laws(1) props(2) c2(1), of r3 "[]"]
  have "tx_rx C (build_transform eph (cr_public C sn) 2 False) (build_transform sn (cr_public C eph) 1 True)"
    "tx_rx C (build_transform sn (cr_public C eph) 1 True) (build_transform eph (cr_public C sn) 2 False)"
    by (simp_all add: tx_rx_def build_transform_def)
  with hello wel initiate ready fin c2 show ?thesis
    by (simp add: client_build_transform_def server_build_transform_def s0)
qed

text \<open>
  A concrete interface that satisfies the laws: keys and nonces are ignored,
  a box is 16 zero bytes and the plaintext.
\<close>

definition clear_crypto :: crypto where
  "clear_crypto = \<lparr>cr_dh = (\<lambda>_ _. [1]), cr_public = (\<lambda>_. replicate 32 7),
     cr_box_seal = (\<lambda>_ _ _ m. replicate 16 0 @ m), cr_box_open = (\<lambda>_ _ _ c. Some (drop 16 c)),
     cr_box_seal_detached = (\<lambda>_ _ _ m. (replicate 16 0, m)), cr_box_open_detached = (\<lambda>_ _ _ c _. Some c),
     cr_secret_seal = (\<lambda>_ _ m. replicate 16 0 @ m), cr_secret_open = (\<lambda>_ _ c. Some (drop 16 c))\<rparr>"

lemma clear_crypto_laws: "crypto_laws clear_crypto" "dh_honest clear_crypto"
  by (simp_all add: crypto_laws_def dh_honest_def clear_crypto_def)

section \<open>Properties\<close>

text \<open>
  C10.  The CURVE handshake between honest ends completes: HELLO, WELCOME,
  INITIATE and READY, produced by one end, are each accepted by the other;
  the server ends with the client's properties, the client with the server's,
  and the two MESSAGE transforms they build are the two ends of one channel in
  both directions.
\<close>

theorem curve_handshake:
  assumes laws: "crypto_laws C" "dh_honest C"
    and props: "props_ok pc" "props_ok ps"
    and client: "curve_client_new C \<lparr>kp_public = cr_public C csk, kp_secret = csk\<rparr> (cr_public C ssk) r0 = (c0, r1)"
    and server: "s0 = curve_server_start (curve_server_new \<lparr>kp_public = cr_public C ssk, kp_secret = ssk\<rparr> opts) ps"
    and auth: "curve_admitted (so_authenticator opts) (cr_public C csk) pc"
    and time: "later - now < so_cookie_lifetime opts"
  shows "\<exists>c1 c2 c3 s1 s2 hello welcome initiate ready r2 r3 tc ts.
    curve_client_start C c0 pc [] = (c1, [hello], Ok ())
    \<and> curve_server_on_command C now r1 s0 hello [] = (r2, s1, [welcome], Ok Continue)
    \<and> curve_client_on_command C r2 c1 welcome [] = (r3, c2, [initiate], Ok Continue)
    \<and> curve_server_on_command C later r3 s1 initiate [] = (r3, s2, [ready], Ok (Complete pc))
    \<and> curve_client_on_command C r3 c2 ready [] = (r3, c3, [], Ok (Complete ps))
    \<and> client_build_transform c3 = Ok tc \<and> server_build_transform s2 = Ok ts
    \<and> tx_rx C tc ts \<and> tx_rx C ts tc"
  by (rule curve_handshake_run [OF assms])

theorem curve_handshake_witness:
  "crypto_laws clear_crypto \<and> dh_honest clear_crypto \<and> props_ok props_new
   \<and> (\<exists>c0 s0 c1 hello r1 r2 s1 welcome. curve_client_start clear_crypto c0 props_new [] = (c1, [hello], Ok ())
        \<and> curve_server_on_command clear_crypto 5 r1 s0 hello [] = (r2, s1, [welcome], Ok Continue))"
proof -
  have p: "props_ok props_new" by code_simp
  obtain c0 r1 where c: "curve_client_new clear_crypto
      \<lparr>kp_public = cr_public clear_crypto [1], kp_secret = [1]\<rparr> (cr_public clear_crypto [2])
      \<lparr>rng_stream = (\<lambda>n. of_nat n), rng_pos = 0\<rparr> = (c0, r1)" by (metis surj_pair)
  have "curve_admitted (so_authenticator \<lparr>so_cookie_lifetime = 60, so_authenticator = None\<rparr>)
      (cr_public clear_crypto [1]) props_new"
    "(9 :: nat) - 5 < so_cookie_lifetime \<lparr>so_cookie_lifetime = 60, so_authenticator = None\<rparr>"
    by (simp_all add: curve_admitted_def)
  from curve_handshake [OF clear_crypto_laws p p c refl this] clear_crypto_laws p show ?thesis by blast
qed

text \<open>
  C9.  The CURVE channel: whatever sequence of frames one end encrypts, the
  other end decrypts in order to the same flags and contents; no two frames
  carry the same nonce counter, and every frame already received is refused
  when it is presented again.
\<close>

theorem curve_channel:
  assumes "crypto_laws C" "tx_rx C tx rx" "encrypt_all C tx ms = (tx', Ok bodies)"
  shows "\<exists>rx'. decrypt_all C rx bodies = (rx', Ok ms)
    \<and> distinct (map (take 8) bodies)
    \<and> (\<forall>b \<in> set bodies. decrypt_message C rx' b
         = (rx', Err (Protocol ''CURVE MESSAGE nonce counter not monotonically increasing'')))"
proof -
  from decrypt_all_encrypt_all [OF assms] obtain rx' where rx': "decrypt_all C rx bodies = (rx', Ok ms)"
    by blast
  have "distinct (map (\<lambda>b. unat (be_u64 (take 8 b))) bodies)"
    using encrypt_all_counters [OF assms(3)] by simp
  then have "distinct (map (take 8) bodies)"
    by (auto simp: distinct_map inj_on_def)
  moreover have "\<forall>b \<in> set bodies. decrypt_message C rx' b
      = (rx', Err (Protocol ''CURVE MESSAGE nonce counter not monotonically increasing''))"
    using decrypt_all_counter [OF rx'] decrypt_replay by blast
  ultimately show ?thesis using rx' by blast
qed

definition clear_tx :: curve_transform where
  "clear_tx = build_transform [1] (cr_public clear_crypto [2]) 0 False"
definition clear_rx :: curve_transform where
  "clear_rx = build_transform [2] (cr_public clear_crypto [1]) 0 True"

theorem curve_channel_witness:
  "crypto_laws clear_crypto \<and> tx_rx clear_crypto clear_tx clear_rx
   \<and> (\<exists>rx' bodies. decrypt_all clear_crypto clear_rx bodies = (rx', Ok [(True, False, [9]), (False, False, [8])]))"
proof -
  have pair: "tx_rx clear_crypto clear_tx clear_rx"
    by (simp add: tx_rx_def clear_tx_def clear_rx_def build_transform_def)
  obtain tx' bodies where
    "encrypt_all clear_crypto clear_tx [(True, False, [9]), (False, False, [8])] = (tx', Ok bodies)"
    by (simp add: encrypt_message_def clear_tx_def build_transform_def checked_succ_def clear_crypto_def Let_def)
  from curve_channel [OF clear_crypto_laws(1) pair this] clear_crypto_laws pair show ?thesis by blast
qed

text \<open>
  The INITIATE command as the protocol lays it out: the body is cookie, nonce and box,
  and the box holds the client's long-term key, the vouch nonce, the vouch and the
  metadata.  The lengths fix every field.
\<close>

definition initiate_fields :: "bytes \<Rightarrow> bytes \<Rightarrow> bytes \<Rightarrow> bytes \<Rightarrow> bool" where
  "initiate_fields body cookie nonce box \<longleftrightarrow> body = cookie @ nonce @ box \<and> length cookie = 96 \<and> length nonce = 8"

definition initiate_plaintext :: "bytes \<Rightarrow> bytes \<Rightarrow> bytes \<Rightarrow> bytes \<Rightarrow> bytes \<Rightarrow> bool" where
  "initiate_plaintext pt cl vouch_nonce vouch metadata \<longleftrightarrow>
     pt = cl @ vouch_nonce @ vouch @ metadata \<and> length cl = 32 \<and> length vouch_nonce = 16 \<and> length vouch = 80"

lemma split_initiate_body:
  "104 \<le> length body \<Longrightarrow> initiate_fields body (take 96 body) (take 8 (drop 96 body)) (drop 104 body)"
  using append_take_drop_id [of 96 body] append_take_drop_id [of 8 "drop 96 body"]
  by (simp add: initiate_fields_def)

lemma split_initiate_plaintext:
  "128 \<le> length pt \<Longrightarrow> initiate_plaintext pt (take 32 pt) (take 16 (drop 32 pt)) (take 80 (drop 48 pt)) (drop 128 pt)"
  using append_take_drop_id [of 32 pt] append_take_drop_id [of 16 "drop 32 pt"] append_take_drop_id [of 80 "drop 48 pt"]
  by (simp add: initiate_plaintext_def)

lemma check_initiate_Ok:
  assumes "check_initiate C now s key body = Ok (sn, cp, props)"
  obtains pt where "decrypt_cookie C now key (take 96 body) = Ok (cp, sn)"
    "cr_box_open C cp sn (nonce_short NONCE_INITIATE (be_u64 (take 8 (drop 96 body)))) (drop 104 body) = Some pt"
    "128 \<le> length pt"
    "verify_vouch C sn (cs_lt_public s) (take 16 (drop 32 pt)) (take 80 (drop 48 pt)) (take 32 pt) cp = Ok ()"
    "decode_metadata (drop 128 pt) = Ok props" "curve_admitted (cs_authenticator s) (take 32 pt) props"
  using assms by (auto simp: check_initiate_def rbind_Ok_iff Let_def split: option.splits if_splits)

lemma verify_vouch_Ok:
  assumes "verify_vouch C sn lt vs vb cl cp = Ok ()"
  shows "cr_box_open C cl sn (nonce_long NONCE_VOUCH_PREFIX vs) vb = Some (cp @ lt)"
proof -
  from assms obtain pt where pt: "cr_box_open C cl sn (nonce_long NONCE_VOUCH_PREFIX vs) vb = Some pt"
    "take 32 pt = cp" "drop 32 pt = lt"
    by (auto simp: verify_vouch_def split: option.splits if_splits)
  then show ?thesis using append_take_drop_id [of 32 pt] by simp
qed

text \<open>
  C11.  CURVE admission: a server completes only on an INITIATE whose cookie its
  own unexpired key opens to the session's keys, whose box opens under those
  keys, whose vouch, read from that box, opens under the long-term key the box
  names and binds the client's short-term key to this server, and whose client,
  by that long-term key and the properties in the same box, the authenticator
  allowed.  Every INITIATE long enough to be examined uses up the cookie key,
  whatever comes of it, so none is examined twice under one cookie.
\<close>

theorem curve_admission:
  "(curve_server_on_command C now r s cmd out = (r', s', out', Ok (Complete props)) \<longrightarrow>
     (\<exists>body cookie nonce box key cp sn pt cl vouch_nonce vouch metadata.
        cmd = Unknown (ascii ''INITIATE'') body \<and> cs_state s = CsAwaitingInitiate \<and> initiate_fields body cookie nonce box
      \<and> cs_cookie_key s = Some key \<and> now - ck_created_at key < ck_lifetime key
      \<and> decrypt_cookie C now key cookie = Ok (cp, sn)
      \<and> cr_box_open C cp sn (nonce_short NONCE_INITIATE (be_u64 nonce)) box = Some pt
      \<and> initiate_plaintext pt cl vouch_nonce vouch metadata
      \<and> cr_box_open C cl sn (nonce_long NONCE_VOUCH_PREFIX vouch_nonce) vouch = Some (cp @ cs_lt_public s)
      \<and> decode_metadata metadata = Ok props \<and> curve_admitted (cs_authenticator s) cl props
      \<and> cs_state s' = CsDone sn cp \<and> cs_cookie_key s' = None))
   \<and> (cs_state s = CsAwaitingInitiate \<and> 120 \<le> length b \<longrightarrow>
        cs_cookie_key (fst (snd (curve_server_on_command C now r s (Unknown (ascii ''INITIATE'') b) out))) = None)"
proof (intro conjI impI)
  assume "curve_server_on_command C now r s cmd out = (r', s', out', Ok (Complete props))"
  then obtain body s1 ready where
    cmd: "cmd = Unknown (ascii ''INITIATE'') body" "cs_state s = CsAwaitingInitiate" and
    init: "parse_initiate C now s body = (s1, Ok props)" and
    ready: "build_ready C s1 = (s', Ok ready)"
    by (auto simp: curve_server_on_command_def split: option.splits command.splits if_splits
      prod.splits sum.splits)
  from init obtain key cp sn where
    key: "cs_cookie_key s = Some key" "104 \<le> length body" and
    chk: "check_initiate C now (s\<lparr>cs_cookie_key := None\<rparr>) key body = Ok (sn, cp, props)" and
    s1: "s1 = s\<lparr>cs_cookie_key := None, cs_state := CsDone sn cp\<rparr>"
    by (auto simp: parse_initiate_def Let_def split: option.splits if_splits sum.splits)
  from chk obtain pt where ck: "decrypt_cookie C now key (take 96 body) = Ok (cp, sn)"
    "cr_box_open C cp sn (nonce_short NONCE_INITIATE (be_u64 (take 8 (drop 96 body)))) (drop 104 body) = Some pt"
    "128 \<le> length pt"
    "verify_vouch C sn (cs_lt_public s) (take 16 (drop 32 pt)) (take 80 (drop 48 pt)) (take 32 pt) cp = Ok ()"
    "decode_metadata (drop 128 pt) = Ok props" "curve_admitted (cs_authenticator s) (take 32 pt) props"
    by (rule check_initiate_Ok) simp
  moreover from ck(1) have "now - ck_created_at key < ck_lifetime key"
    by (simp add: decrypt_cookie_def split: if_splits)
  moreover from ready s1 have "cs_state s' = CsDone sn cp" "cs_cookie_key s' = None"
    by (auto simp: build_ready_def server_next_out_counter_def split: option.splits)
  ultimately show "\<exists>body cookie nonce box key cp sn pt cl vouch_nonce vouch metadata.
        cmd = Unknown (ascii ''INITIATE'') body \<and> cs_state s = CsAwaitingInitiate \<and> initiate_fields body cookie nonce box
      \<and> cs_cookie_key s = Some key \<and> now - ck_created_at key < ck_lifetime key
      \<and> decrypt_cookie C now key cookie = Ok (cp, sn)
      \<and> cr_box_open C cp sn (nonce_short NONCE_INITIATE (be_u64 nonce)) box = Some pt
      \<and> initiate_plaintext pt cl vouch_nonce vouch metadata
      \<and> cr_box_open C cl sn (nonce_long NONCE_VOUCH_PREFIX vouch_nonce) vouch = Some (cp @ cs_lt_public s)
      \<and> decode_metadata metadata = Ok props \<and> curve_admitted (cs_authenticator s) cl props
      \<and> cs_state s' = CsDone sn cp \<and> cs_cookie_key s' = None"
    using cmd key(1) split_initiate_body [OF key(2)] split_initiate_plaintext [OF ck(3)] verify_vouch_Ok [OF ck(4)]
    by (intro exI conjI) assumption+
next
  assume "cs_state s = CsAwaitingInitiate \<and> 120 \<le> length b"
  then show "cs_cookie_key (fst (snd (curve_server_on_command C now r s (Unknown (ascii ''INITIATE'') b) out))) = None"
    by (auto simp: curve_server_on_command_def parse_initiate_def build_ready_def server_next_out_counter_def
        command_words_neq Let_def split: option.splits sum.splits prod.splits curve_server_state.splits)
qed

theorem curve_admission_witness:
  "\<exists>r s r' s' out' body cookie nonce box key cp sn pt cl vouch_nonce vouch metadata.
     curve_server_on_command clear_crypto 9 r s (Unknown (ascii ''INITIATE'') body) [] = (r', s', out', Ok (Complete props_new))
     \<and> initiate_fields body cookie nonce box \<and> decrypt_cookie clear_crypto 9 key cookie = Ok (cp, sn)
     \<and> cr_box_open clear_crypto cp sn (nonce_short NONCE_INITIATE (be_u64 nonce)) box = Some pt
     \<and> initiate_plaintext pt cl vouch_nonce vouch metadata
     \<and> cr_box_open clear_crypto cl sn (nonce_long NONCE_VOUCH_PREFIX vouch_nonce) vouch = Some (cp @ cs_lt_public s)
     \<and> curve_admitted (cs_authenticator s) cl props_new \<and> cs_cookie_key s' = None"
proof -
  have p: "props_ok props_new" by code_simp
  obtain c0 r1 where c: "curve_client_new clear_crypto
      \<lparr>kp_public = cr_public clear_crypto [1], kp_secret = [1]\<rparr> (cr_public clear_crypto [2])
      \<lparr>rng_stream = (\<lambda>n. of_nat n), rng_pos = 0\<rparr> = (c0, r1)" by (metis surj_pair)
  have "curve_admitted (so_authenticator \<lparr>so_cookie_lifetime = 60, so_authenticator = Some (\<lambda>_. True)\<rparr>)
      (cr_public clear_crypto [1]) props_new"
    "(9 :: nat) - 5 < so_cookie_lifetime \<lparr>so_cookie_lifetime = 60, so_authenticator = Some (\<lambda>_. True)\<rparr>"
    by (simp_all add: curve_admitted_def auth_allow_def)
  from curve_handshake_run [OF clear_crypto_laws p p c refl this] obtain s1 initiate r3 s2 ready where
    run: "curve_server_on_command clear_crypto 9 r3 s1 initiate [] = (r3, s2, [ready], Ok (Complete props_new))"
    by blast
  note a = curve_admission [THEN conjunct1, rule_format, OF run]
  from a obtain body cookie nonce box key cp sn pt cl vouch_nonce vouch metadata where
    "initiate = Unknown (ascii ''INITIATE'') body" "initiate_fields body cookie nonce box"
    "decrypt_cookie clear_crypto 9 key cookie = Ok (cp, sn)"
    "cr_box_open clear_crypto cp sn (nonce_short NONCE_INITIATE (be_u64 nonce)) box = Some pt"
    "initiate_plaintext pt cl vouch_nonce vouch metadata"
    "cr_box_open clear_crypto cl sn (nonce_long NONCE_VOUCH_PREFIX vouch_nonce) vouch = Some (cp @ cs_lt_public s1)"
    "curve_admitted (cs_authenticator s1) cl props_new" "cs_cookie_key s2 = None"
    by (elim exE conjE) (rule that; assumption)
  with run show ?thesis by (intro exI conjI) (simp | assumption)+
qed

end
