(* ===== verification/Ws_Codec.thy ===== *)
theory Ws_Codec
  imports Frame
begin

text \<open>
  The WebSocket frame codec, \<^verbatim>\<open>omq-proto/src/proto/ws_codec.rs\<close>, and the two flat
  WebSocket encoders of \<^verbatim>\<open>omq-proto/src/proto/frame.rs\<close>.  The mask key generator draws
  from the explicit random state.  Masking works a 32-bit word at a time, in
  little-endian order, as the source does on the targets considered.
\<close>

section \<open>Constants and types\<close>

definition OP_BINARY :: u8 where "OP_BINARY = 0x02"
definition OP_CONTINUATION :: u8 where "OP_CONTINUATION = 0x00"
definition OP_CLOSE :: u8 where "OP_CLOSE = 0x08"
definition OP_PING :: u8 where "OP_PING = 0x09"
definition OP_PONG :: u8 where "OP_PONG = 0x0A"
definition FIN_BIT :: u8 where "FIN_BIT = 0x80"
definition RSV_MASK :: u8 where "RSV_MASK = 0x70"
definition MASK_BIT :: u8 where "MASK_BIT = 0x80"
definition OPCODE_MASK :: u8 where "OPCODE_MASK = 0x0F"
definition LEN_MASK :: u8 where "LEN_MASK = 0x7F"

datatype ws_role = WsClient | WsServer

record ws_frame_header =
  wh_fin :: bool
  wh_opcode :: u8
  wh_payload_len :: nat
  wh_header_len :: nat
  wh_masked :: bool
  wh_mask_key :: bytes

section \<open>Masking\<close>

definition u32_from_le :: "bytes \<Rightarrow> u32" where
  "u32_from_le bs =
     ucast (bs ! 0) OR push_bit 8 (ucast (bs ! 1)) OR push_bit 16 (ucast (bs ! 2))
     OR push_bit 24 (ucast (bs ! 3))"

definition u32_to_le :: "u32 \<Rightarrow> bytes" where
  "u32_to_le w = [ucast w, ucast (drop_bit 8 w), ucast (drop_bit 16 w), ucast (drop_bit 24 w)]"

text \<open>The word loop over whole groups of four bytes, then the remainder byte by byte.\<close>

fun mask_words :: "u32 \<Rightarrow> bytes \<Rightarrow> bytes \<Rightarrow> bytes" where
  "mask_words mw rot (a # b # c # d # rest) =
     u32_to_le (u32_from_le [a, b, c, d] XOR mw) @ mask_words mw rot rest"
| "mask_words mw rot rest = map (\<lambda>(j, b). b XOR rot ! (j mod 4)) (enumerate 0 rest)"

definition apply_mask_offset :: "bytes \<Rightarrow> bytes \<Rightarrow> nat \<Rightarrow> bytes" where
  "apply_mask_offset data mask_key offset =
     (if data = [] then []
      else let rotated = map (\<lambda>i. mask_key ! ((i + offset) mod 4)) [0..<4]
        in mask_words (u32_from_le rotated) rotated data)"

definition apply_mask :: "bytes \<Rightarrow> bytes \<Rightarrow> bytes" where
  "apply_mask data mask_key = apply_mask_offset data mask_key 0"

definition generate_mask_key :: "rng \<Rightarrow> bytes \<times> rng" where
  "generate_mask_key r = fill_bytes 4 r"

section \<open>Headers\<close>

text \<open>The checks of \<^verbatim>\<open>peek_ws_header\<close> on the first two bytes, and those on the decoded length.\<close>

definition ws_check_start :: "u8 \<Rightarrow> u8 \<Rightarrow> ws_role \<Rightarrow> unit result" where
  "ws_check_start b0 b1 peer_role =
     (if b0 AND RSV_MASK \<noteq> 0 then Err (Protocol ''WS RSV bits set but no extensions negotiated'')
      else if b0 AND OPCODE_MASK \<notin> {OP_CONTINUATION, OP_BINARY, OP_CLOSE, OP_PING, OP_PONG}
      then Err (Protocol ''unsupported WS opcode: 0x{opcode:02x}'')
      else if peer_role = WsClient \<and> b1 AND MASK_BIT = 0
      then Err (Protocol ''client WS frame must be masked'')
      else if peer_role = WsServer \<and> b1 AND MASK_BIT \<noteq> 0
      then Err (Protocol ''server WS frame must not be masked'')
      else Ok ())"

definition ws_check_len :: "u8 \<Rightarrow> bool \<Rightarrow> nat \<Rightarrow> unit result" where
  "ws_check_len opcode fin plen =
     (if OP_CLOSE \<le> opcode \<and> 125 < plen then Err (Protocol ''WS control frame payload > 125 bytes'')
      else if OP_CLOSE \<le> opcode \<and> \<not> fin then Err (Protocol ''fragmented WS control frame'')
      else if opcode = OP_CLOSE \<and> plen = 1 then Err (Protocol ''WS close frame has one-byte payload'')
      else Ok ())"

definition peek_ws_header :: "chunked_buf \<Rightarrow> ws_role \<Rightarrow> ws_frame_header option result" where
  "peek_ws_header buf peer_role =
     (case peek_array 2 buf of
        None \<Rightarrow> Ok None
      | Some first_two \<Rightarrow>
          let b0 = first_two ! 0; b1 = first_two ! 1;
              fin = (b0 AND FIN_BIT \<noteq> 0); opcode = b0 AND OPCODE_MASK;
              masked = (b1 AND MASK_BIT \<noteq> 0); len7 = b1 AND LEN_MASK
          in rbind (ws_check_start b0 b1 peer_role) (\<lambda>_.
             rbind (if len7 = 126 then
                      (case peek_array 4 buf of
                         None \<Rightarrow> Ok None
                       | Some hdr \<Rightarrow> Ok (Some (be_val [hdr ! 2, hdr ! 3], 4)))
                    else if len7 = 127 then
                      (case peek_array 10 buf of
                         None \<Rightarrow> Ok None
                       | Some hdr \<Rightarrow>
                           if be_val (drop 2 hdr) div 2 ^ 63 \<noteq> 0
                           then Err (Protocol ''WS payload length MSB set'')
                           else Ok (Some (be_val (drop 2 hdr), 10)))
                    else Ok (Some (unat len7, 2)))
               (\<lambda>len. case len of
                  None \<Rightarrow> Ok None
                | Some (plen, len_header_size) \<Rightarrow>
                    rbind (ws_check_len opcode fin plen) (\<lambda>_.
                      let header_len = len_header_size + (if masked then 4 else 0)
                      in if cb_len buf < header_len then Ok None
                         else case (if masked then peek_array_at 4 len_header_size buf
                                    else Some [0, 0, 0, 0]) of
                                None \<Rightarrow> Ok None
                              | Some mask_key \<Rightarrow>
                                  Ok (Some \<lparr>wh_fin = fin, wh_opcode = opcode, wh_payload_len = plen,
                                            wh_header_len = header_len, wh_masked = masked,
                                            wh_mask_key = mask_key\<rparr>)))))"

text \<open>The header bytes written to the scratch buffer, and the mask key of a client.\<close>

definition encode_ws_header :: "u8 \<Rightarrow> nat \<Rightarrow> ws_role \<Rightarrow> rng \<Rightarrow> bytes \<times> bytes option \<times> rng" where
  "encode_ws_header opcode len role r =
     (let masked = (role = WsClient);
          mask_flag = (if masked then MASK_BIT else 0);
          hdr = [FIN_BIT OR opcode]
            @ (if len \<le> 125 then [mask_flag OR of_nat len]
               else if len \<le> 65535 then (mask_flag OR 0x7E) # be_bytes 2 len
               else (mask_flag OR 0x7F) # be_bytes 8 len)
      in if masked then (case generate_mask_key r of (k, r) \<Rightarrow> (hdr @ k, Some k, r))
         else (hdr, None, r))"

definition encode_ws_binary_header :: "nat \<Rightarrow> ws_role \<Rightarrow> rng \<Rightarrow> bytes \<times> bytes option \<times> rng" where
  "encode_ws_binary_header len role r = encode_ws_header OP_BINARY len role r"

text \<open>The control frame appended to the outbound chunks, and the new byte total.\<close>

definition encode_ws_control ::
  "bytes list \<Rightarrow> nat \<Rightarrow> u8 \<Rightarrow> bytes \<Rightarrow> ws_role \<Rightarrow> rng \<Rightarrow> bytes list \<times> nat \<times> rng" where
  "encode_ws_control out_chunks out_bytes_total opcode body role r =
     (case encode_ws_header opcode (length body) role r of (hdr, key, r) \<Rightarrow>
        let fr = hdr @ (if body = [] then []
                        else case key of Some k \<Rightarrow> apply_mask body k | None \<Rightarrow> body)
        in (out_chunks @ [fr], out_bytes_total + length fr, r))"

section \<open>Flat message encoders\<close>

definition ws_len_bytes :: "u8 \<Rightarrow> nat \<Rightarrow> bytes" where
  "ws_len_bytes mask_flag len =
     (if len \<le> 125 then [mask_flag OR of_nat len]
      else if len \<le> 65535 then (mask_flag OR 0x7E) # be_bytes 2 len
      else (mask_flag OR 0x7F) # be_bytes 8 len)"

fun flat_ws_parts :: "nat \<Rightarrow> nat \<Rightarrow> bytes list \<Rightarrow> bytes \<Rightarrow> bytes" where
  "flat_ws_parts n i [] buf = buf"
| "flat_ws_parts n i (s # ss) buf =
     flat_ws_parts n (i + 1) ss
       (buf @ [0x82] @ ws_len_bytes 0 (1 + length s)
        @ [if i + 1 < n then ZWS_FLAG_MORE else ZWS_FLAG_FINAL] @ s)"

definition encode_message_flat_ws :: "message \<Rightarrow> bytes \<Rightarrow> bytes" where
  "encode_message_flat_ws msg buf = flat_ws_parts (msg_len msg) 0 (iter_slices msg) buf"

fun flat_ws_parts_masked :: "nat \<Rightarrow> nat \<Rightarrow> bytes list \<Rightarrow> rng \<Rightarrow> bytes \<Rightarrow> bytes \<times> rng" where
  "flat_ws_parts_masked n i [] r buf = (buf, r)"
| "flat_ws_parts_masked n i (s # ss) r buf =
     (case generate_mask_key r of (k, r) \<Rightarrow>
        flat_ws_parts_masked n (i + 1) ss r
          (buf @ [0x82] @ ws_len_bytes 0x80 (1 + length s) @ k
           @ [(if i + 1 < n then ZWS_FLAG_MORE else ZWS_FLAG_FINAL) XOR k ! 0]
           @ apply_mask_offset s k 1))"

definition encode_message_flat_ws_masked :: "message \<Rightarrow> rng \<Rightarrow> bytes \<Rightarrow> bytes \<times> rng" where
  "encode_message_flat_ws_masked msg r buf =
     flat_ws_parts_masked (msg_len msg) 0 (iter_slices msg) r buf"

section \<open>Masking is bytewise\<close>

lemma u8_high_bits:
  "\<not> bit (x :: u8) (8 + n)" "\<not> bit (x :: u8) (16 + n)" "\<not> bit (x :: u8) (24 + n)"
  by (auto dest: bit_imp_le_length)

lemma u32_le_xor:
  "u32_to_le (u32_from_le [a, b, c, d] XOR u32_from_le [k0, k1, k2, k3])
     = [a XOR k0, b XOR k1, c XOR k2, d XOR k3]"
proof -
  let ?x = "u32_from_le [a, b, c, d] XOR u32_from_le [k0, k1, k2, k3]"
  have "ucast ?x = a XOR k0"
    by (rule bit_word_eqI) (auto simp: u32_from_le_def bit_simps)
  moreover have "ucast (drop_bit 8 ?x) = b XOR k1"
    by (rule bit_word_eqI) (auto simp: u32_from_le_def bit_simps u8_high_bits)
  moreover have "ucast (drop_bit 16 ?x) = c XOR k2"
    by (rule bit_word_eqI) (auto simp: u32_from_le_def bit_simps u8_high_bits)
  moreover have "ucast (drop_bit 24 ?x) = d XOR k3"
    by (rule bit_word_eqI) (auto simp: u32_from_le_def bit_simps u8_high_bits)
  ultimately show ?thesis by (simp add: u32_to_le_def)
qed

fun xor_cycle :: "bytes \<Rightarrow> nat \<Rightarrow> bytes \<Rightarrow> bytes" where
  "xor_cycle key j [] = []"
| "xor_cycle key j (b # bs) = (b XOR key ! (j mod 4)) # xor_cycle key (Suc j) bs"

lemma length_xor_cycle [simp]: "length (xor_cycle key j data) = length data"
  by (induction data arbitrary: j) simp_all

lemma xor_cycle_mod: "xor_cycle key (j + 4) data = xor_cycle key j data"
proof (induction data arbitrary: j)
  case (Cons b bs)
  from Cons.IH [of "Suc j"] show ?case by simp
qed simp

lemma xor_cycle_involution: "xor_cycle key j (xor_cycle key j data) = data"
  by (induction data arbitrary: j) (simp_all add: xor.assoc)

lemma xor_cycle_rotate:
  "xor_cycle (map (\<lambda>i. key ! ((i + off) mod 4)) [0..<4]) j data = xor_cycle key (j + off) data"
proof (induction data arbitrary: j)
  case (Cons b bs)
  have "map (\<lambda>i. key ! ((i + off) mod 4)) [0..<4] ! (j mod 4) = key ! ((j + off) mod 4)"
    by (simp add: mod_add_left_eq)
  with Cons.IH [of "Suc j"] show ?case by simp
qed simp

lemma length_four: "length xs = 4 \<Longrightarrow> \<exists>a b c d. xs = [a, b, c, d]"
  by (auto simp: length_Suc_conv eval_nat_numeral)

lemma four_cases: "length xs < 4 \<or> (\<exists>a b c d rest. xs = a # b # c # d # rest)"
proof (cases "length xs < 4")
  case False
  then obtain a b c d where "take 4 xs = [a, b, c, d]" using length_four [of "take 4 xs"] by auto
  then have "xs = a # b # c # d # drop 4 xs" using append_take_drop_id [of 4 xs] by simp
  then show ?thesis by blast
qed simp

lemma less_four: "length xs < 4 \<Longrightarrow> xs = [] \<or> (\<exists>a. xs = [a]) \<or> (\<exists>a b. xs = [a, b]) \<or> (\<exists>a b c. xs = [a, b, c])"
  by (cases xs; cases "tl xs"; cases "tl (tl xs)"; cases "tl (tl (tl xs))") auto

lemma xor_cycle_four:
  "xor_cycle [k0, k1, k2, k3] 0 (a # b # c # d # rest)
     = (a XOR k0) # (b XOR k1) # (c XOR k2) # (d XOR k3) # xor_cycle [k0, k1, k2, k3] 0 rest"
proof -
  have idx: "(0 :: nat) mod 4 = 0" "Suc 0 mod 4 = Suc 0" "Suc (Suc 0) mod 4 = Suc (Suc 0)"
    "Suc (Suc (Suc 0)) mod 4 = Suc (Suc (Suc 0))" "Suc (Suc (Suc (Suc 0))) = 0 + 4"
    by simp_all
  show ?thesis
    unfolding xor_cycle.simps idx(1-4) nth_Cons_0 nth_Cons_Suc unfolding idx(5) xor_cycle_mod ..
qed

lemma mask_words_cycle:
  assumes "length rot = 4"
  shows "mask_words (u32_from_le rot) rot data = xor_cycle rot 0 data"
proof -
  from length_four [OF assms] obtain k0 k1 k2 k3 where rot: "rot = [k0, k1, k2, k3]" by blast
  let ?k = "[k0, k1, k2, k3]"
  have "mask_words (u32_from_le ?k) ?k data = xor_cycle ?k 0 data"
  proof (induction data rule: length_induct)
    case (1 data)
    from four_cases [of data] show ?case
    proof
      assume "length data < 4"
      from less_four [OF this] show ?thesis by (auto simp: numeral_2_eq_2)
    next
      assume "\<exists>a b c d rest. data = a # b # c # d # rest"
      then obtain a b c d rest where data: "data = a # b # c # d # rest" by blast
      with 1 have "mask_words (u32_from_le ?k) ?k rest = xor_cycle ?k 0 rest" by simp
      then show ?thesis
        unfolding data mask_words.simps(1) u32_le_xor xor_cycle_four by (simp only: append.simps)
    qed
  qed
  then show ?thesis by (simp add: rot)
qed

lemma apply_mask_offset_cycle:
  "apply_mask_offset data key off = xor_cycle key off data"
  using xor_cycle_rotate [of key off 0 data]
  by (simp add: apply_mask_offset_def mask_words_cycle Let_def)

lemma apply_mask_cycle: "apply_mask data key = xor_cycle key 0 data"
  by (simp add: apply_mask_def apply_mask_offset_cycle)

section \<open>Headers on flat bytes\<close>

text \<open>The length field and how many header bytes it ends at, of bytes that start with a frame.\<close>

definition ws_len :: "bytes \<Rightarrow> (nat \<times> nat) option result" where
  "ws_len xs =
     (if xs ! 1 AND LEN_MASK = 126 then
        (if length xs < 4 then Ok None else Ok (Some (be_val [xs ! 2, xs ! 3], 4)))
      else if xs ! 1 AND LEN_MASK = 127 then
        (if length xs < 10 then Ok None
         else if be_val (take 8 (drop 2 xs)) div 2 ^ 63 \<noteq> 0 then Err (Protocol ''WS payload length MSB set'')
         else Ok (Some (be_val (take 8 (drop 2 xs)), 10)))
      else Ok (Some (unat (xs ! 1 AND LEN_MASK), 2)))"

definition ws_hdr :: "ws_role \<Rightarrow> bytes \<Rightarrow> ws_frame_header option result" where
  "ws_hdr peer_role xs =
     (if length xs < 2 then Ok None
      else rbind (ws_check_start (xs ! 0) (xs ! 1) peer_role) (\<lambda>_.
           rbind (ws_len xs) (\<lambda>len. case len of
             None \<Rightarrow> Ok None
           | Some (plen, lhs) \<Rightarrow>
               rbind (ws_check_len (xs ! 0 AND OPCODE_MASK) (xs ! 0 AND FIN_BIT \<noteq> 0) plen) (\<lambda>_.
                 let masked = (xs ! 1 AND MASK_BIT \<noteq> 0); hl = lhs + (if masked then 4 else 0)
                 in if length xs < hl then Ok None
                    else Ok (Some \<lparr>wh_fin = (xs ! 0 AND FIN_BIT \<noteq> 0), wh_opcode = xs ! 0 AND OPCODE_MASK,
                           wh_payload_len = plen, wh_header_len = hl, wh_masked = masked,
                           wh_mask_key = (if masked then take 4 (drop lhs xs) else [0, 0, 0, 0])\<rparr>)))))"

lemma peek_ws_header_flat:
  assumes wf: "cb_wf b"
  shows "peek_ws_header b role = ws_hdr role (cb_flat b)"
proof (cases "length (cb_flat b) < 2")
  case True
  then show ?thesis using wf by (simp add: peek_ws_header_def ws_hdr_def peek_array_flat)
next
  case False
  let ?xs = "cb_flat b"
  have two: "peek_array 2 b = Some (take 2 ?xs)" "take 2 ?xs ! 0 = ?xs ! 0" "take 2 ?xs ! 1 = ?xs ! 1"
    using False wf by (simp_all add: peek_array_flat)
  have len: "(if ?xs ! 1 AND LEN_MASK = 126 then
        (case peek_array 4 b of None \<Rightarrow> Ok None | Some hdr \<Rightarrow> Ok (Some (be_val [hdr ! 2, hdr ! 3], 4)))
      else if ?xs ! 1 AND LEN_MASK = 127 then
        (case peek_array 10 b of None \<Rightarrow> Ok None
         | Some hdr \<Rightarrow> if be_val (drop 2 hdr) div 2 ^ 63 \<noteq> 0 then Err (Protocol ''WS payload length MSB set'')
             else Ok (Some (be_val (drop 2 hdr), 10)))
      else Ok (Some (unat (?xs ! 1 AND LEN_MASK), 2))) = ws_len ?xs"
    using wf by (simp add: ws_len_def peek_array_flat drop_take)
  show ?thesis
    unfolding peek_ws_header_def ws_hdr_def two option.case Let_def len
    using False wf
    by (simp add: cb_len_flat peek_array_at_flat rbind_def split: sum.split option.split)
qed

lemma ws_len_stable:
  "2 \<le> length xs \<Longrightarrow> ws_len xs \<noteq> Ok None \<Longrightarrow> ws_len (xs @ ys) = ws_len xs"
  by (auto simp: ws_len_def nth_append split: if_splits)

lemma ws_hdr_stable:
  assumes "ws_hdr role xs \<noteq> Ok None"
  shows "ws_hdr role (xs @ ys) = ws_hdr role xs"
proof -
  from assms have len: "2 \<le> length xs"
    by (simp add: ws_hdr_def split: if_splits)
  then have two: "(xs @ ys) ! 0 = xs ! 0" "(xs @ ys) ! 1 = xs ! 1"
    by (auto simp: nth_append)
  show ?thesis
  proof (cases "ws_check_start (xs ! 0) (xs ! 1) role")
    case (Inl e)
    with len two show ?thesis by (simp add: ws_hdr_def)
  next
    case start: (Inr u)
    with assms len have "ws_len xs \<noteq> Ok None"
      by (auto simp: ws_hdr_def)
    note stable = ws_len_stable [OF len this]
    show ?thesis
      using assms len start two stable \<open>ws_len xs \<noteq> Ok None\<close>
      by (auto simp: ws_hdr_def Let_def rbind_def split: sum.splits option.splits if_splits)
  qed
qed

lemma len7_bits:
  assumes "n \<le> 125"
  shows "(0x80 OR of_nat n :: u8) AND 0x7F = of_nat n" "(of_nat n :: u8) AND 0x7F = of_nat n"
    "(0x80 OR of_nat n :: u8) AND 0x80 = 0x80" "(of_nat n :: u8) AND 0x80 = 0"
    "(of_nat n :: u8) \<noteq> 126" "(of_nat n :: u8) \<noteq> 127" "unat (of_nat n :: u8) = n"
proof -
  have "list_all (\<lambda>n. (0x80 OR of_nat n :: u8) AND 0x7F = of_nat n \<and> (of_nat n :: u8) AND 0x7F = of_nat n
      \<and> (0x80 OR of_nat n :: u8) AND 0x80 = 0x80 \<and> (of_nat n :: u8) AND 0x80 = 0
      \<and> (of_nat n :: u8) \<noteq> 126 \<and> (of_nat n :: u8) \<noteq> 127 \<and> unat (of_nat n :: u8) = n) [0..<126]"
    by code_simp
  with assms show "(0x80 OR of_nat n :: u8) AND 0x7F = of_nat n" "(of_nat n :: u8) AND 0x7F = of_nat n"
    "(0x80 OR of_nat n :: u8) AND 0x80 = 0x80" "(of_nat n :: u8) AND 0x80 = 0"
    "(of_nat n :: u8) \<noteq> 126" "(of_nat n :: u8) \<noteq> 127" "unat (of_nat n :: u8) = n"
    by (auto simp: list_all_iff)
qed

lemmas ws_consts = OP_BINARY_def OP_CONTINUATION_def OP_CLOSE_def OP_PING_def OP_PONG_def FIN_BIT_def
  RSV_MASK_def MASK_BIT_def OPCODE_MASK_def LEN_MASK_def

text \<open>What may be sent as one WebSocket frame.\<close>

definition ws_sendable :: "u8 \<Rightarrow> nat \<Rightarrow> bool" where
  "ws_sendable op len \<longleftrightarrow>
     op = OP_BINARY \<and> len < 2 ^ 63
     \<or> op \<in> {OP_PING, OP_PONG} \<and> len \<le> 125
     \<or> op = OP_CLOSE \<and> len \<le> 125 \<and> len \<noteq> 1"

lemma ws_sendable_op:
  assumes "ws_sendable op len"
  shows "ws_check_start (FIN_BIT OR op) b1 role =
      (if role = WsClient \<and> b1 AND MASK_BIT = 0 then Err (Protocol ''client WS frame must be masked'')
       else if role = WsServer \<and> b1 AND MASK_BIT \<noteq> 0 then Err (Protocol ''server WS frame must not be masked'')
       else Ok ())"
    "(FIN_BIT OR op) AND OPCODE_MASK = op" "(FIN_BIT OR op) AND FIN_BIT \<noteq> 0"
    "ws_check_len op True len = Ok ()"
  using assms by (auto simp: ws_sendable_def ws_check_start_def ws_check_len_def ws_consts)

lemma ws_hdr_encode:
  assumes enc: "encode_ws_header op len role r = (hdr, key, r')" and ok: "ws_sendable op len"
  shows "ws_hdr role (hdr @ rest) = Ok (Some \<lparr>wh_fin = True, wh_opcode = op, wh_payload_len = len,
    wh_header_len = length hdr, wh_masked = (role = WsClient),
    wh_mask_key = (case key of Some k \<Rightarrow> k | None \<Rightarrow> [0, 0, 0, 0])\<rparr>)"
proof -
  define mf where "mf = (if role = WsClient then MASK_BIT else 0)"
  obtain k r1 where key: "generate_mask_key r = (k, r1)" "length k = 4"
    by (metis fill_bytesE generate_mask_key_def)
  define tl' where "tl' = (if role = WsClient then k else [])"
  have hdr: "hdr = (FIN_BIT OR op) # ws_len_bytes mf len @ tl'"
    "(case key of Some k \<Rightarrow> k | None \<Rightarrow> [0, 0, 0, 0]) = (if role = WsClient then k else [0, 0, 0, 0])"
    using enc by (auto simp: encode_ws_header_def ws_len_bytes_def mf_def tl'_def key Let_def split: if_splits)
  have len63: "len < 2 ^ 63" using ok by (auto simp: ws_sendable_def)
  have role: "role = WsClient \<or> role = WsServer" by (cases role) simp_all
  have fin: "FIN_BIT \<noteq> 0" by (simp add: FIN_BIT_def)
  note op = ws_sendable_op [OF ok] fin
  consider "len \<le> 125" | "125 < len" "len \<le> 65535" | "65535 < len" by linarith
  then show ?thesis
  proof cases
    case 1
    then show ?thesis
      using role key(2)
      by (auto simp: hdr ws_hdr_def ws_len_def ws_len_bytes_def mf_def tl'_def op len7_bits [OF 1]
        MASK_BIT_def LEN_MASK_def Let_def)
  next
    case 2
    have "be_val (be_bytes 2 len) = len" using 2 by (intro be_val_be_bytes_exact) simp
    moreover obtain a b where "be_bytes 2 len = [a, b]"
      using length_eq_two [of "be_bytes 2 len"] by auto
    ultimately show ?thesis
      using 2 role key(2)
      by (auto simp: hdr ws_hdr_def ws_len_def ws_len_bytes_def mf_def tl'_def op MASK_BIT_def LEN_MASK_def Let_def)
  next
    case 3
    have "be_val (be_bytes 8 len) = len" using len63 by (intro be_val_be_bytes_exact) simp
    then show ?thesis
      using 3 role key(2) len63
      by (auto simp: hdr ws_hdr_def ws_len_def ws_len_bytes_def mf_def tl'_def op MASK_BIT_def LEN_MASK_def Let_def)
  qed
qed

section \<open>Properties\<close>

text \<open>
  WebSocket masking: the word-at-a-time routine is the bytewise XOR with the
  repeating key, keeps the length, and undoes itself, at every offset into the
  key cycle.
\<close>

lemma ws_mask_involution:
  "apply_mask_offset data key off = xor_cycle key off data
   \<and> apply_mask_offset (apply_mask_offset data key off) key off = data
   \<and> length (apply_mask_offset data key off) = length data"
  by (simp add: apply_mask_offset_cycle xor_cycle_involution)

text \<open>
  C36.  WebSocket header round trip: the header of every frame we may send is
  read back by the peer's header parser, from any chunks, with the same
  opcode, length, mask key and header size.
\<close>

theorem ws_header_round_trip:
  assumes "encode_ws_header op len role r = (hdr, key, r')" "ws_sendable op len"
    and "concat chunks = hdr @ rest"
  shows "peek_ws_header (foldl cb_push cb_new chunks) role = Ok (Some \<lparr>wh_fin = True, wh_opcode = op,
    wh_payload_len = len, wh_header_len = length hdr, wh_masked = (role = WsClient),
    wh_mask_key = (case key of Some k \<Rightarrow> k | None \<Rightarrow> [0, 0, 0, 0])\<rparr>)"
  using in_buf.fold_add [OF cb_new_wf, of chunks] assms(3) ws_hdr_encode [OF assms(1,2), of rest]
  by (simp add: peek_ws_header_flat)

definition zero_rng :: rng where
  "zero_rng = \<lparr>rng_stream = (\<lambda>_. 0), rng_pos = 0\<rparr>"

theorem ws_header_round_trip_witness:
  "encode_ws_header OP_BINARY 300 WsServer zero_rng = ([0x82, 0x7E, 1, 44], None, zero_rng)
   \<and> ws_sendable OP_BINARY 300
   \<and> peek_ws_header (foldl cb_push cb_new [[0x82], [0x7E, 1], [44, 9]]) WsServer = Ok (Some \<lparr>wh_fin = True,
       wh_opcode = OP_BINARY, wh_payload_len = 300, wh_header_len = 4, wh_masked = False, wh_mask_key = [0, 0, 0, 0]\<rparr>)"
proof -
  have enc: "encode_ws_header OP_BINARY 300 WsServer zero_rng = ([0x82, 0x7E, 1, 44], None, zero_rng)"
    by (simp add: encode_ws_header_def ws_consts wire_eval)
  have ok: "ws_sendable OP_BINARY 300" by (simp add: ws_sendable_def)
  have "concat [[0x82], [0x7E, 1], [44, 9]] = [0x82, 0x7E, 1, 44] @ [9 :: u8]" by simp
  from ws_header_round_trip [OF enc ok this] enc ok show ?thesis by simp
qed

end
