(* ===== verification/Security.thy ===== *)
theory Security
  imports Curve Message
begin

text \<open>
  The mechanism configuration and dispatch of \<^verbatim>\<open>omq-proto/src/proto/mechanism/mod.rs\<close>,
  and its post-handshake frame transform.  The build considered has the \<^verbatim>\<open>plain\<close> and
  \<^verbatim>\<open>curve\<close> features.  The \<^verbatim>\<open>FrameTransform\<close> enum has the single variant \<^verbatim>\<open>Curve\<close>, so it is the
  CURVE transform.
\<close>

section \<open>Configuration\<close>

datatype mechanism_setup =
    SetupNull
  | SetupCurveServer curve_keypair curve_server_options
  | SetupCurveClient curve_keypair bytes
  | SetupPlainServer authenticator
  | SetupPlainClient bytes bytes

fun wire_name :: "mechanism_setup \<Rightarrow> mechanism_name" where
  "wire_name SetupNull = MECH_NULL"
| "wire_name (SetupCurveServer _ _) = MECH_CURVE"
| "wire_name (SetupCurveClient _ _) = MECH_CURVE"
| "wire_name (SetupPlainServer _) = MECH_PLAIN"
| "wire_name (SetupPlainClient _ _) = MECH_PLAIN"

fun setup_has_frame_transform :: "mechanism_setup \<Rightarrow> bool" where
  "setup_has_frame_transform SetupNull = False"
| "setup_has_frame_transform (SetupCurveServer _ _) = True"
| "setup_has_frame_transform (SetupCurveClient _ _) = True"
| "setup_has_frame_transform (SetupPlainServer _) = False"
| "setup_has_frame_transform (SetupPlainClient _ _) = False"

fun curve_secret :: "mechanism_setup \<Rightarrow> bytes option" where
  "curve_secret (SetupCurveServer kp _) = Some (kp_secret kp)"
| "curve_secret (SetupCurveClient kp _) = Some (kp_secret kp)"
| "curve_secret _ = None"

definition default_server_options :: curve_server_options where
  "default_server_options = \<lparr>so_cookie_lifetime = 60000, so_authenticator = None\<rparr>"

section \<open>Dispatch\<close>

datatype security_mechanism =
    MNull null_state
  | MCurve curve_mechanism
  | MPlain plain_mechanism

definition mechanism_build :: "crypto \<Rightarrow> mechanism_setup \<Rightarrow> rng \<Rightarrow> security_mechanism \<times> rng" where
  "mechanism_build C m r =
     (case m of
        SetupNull \<Rightarrow> (MNull null_new, r)
      | SetupCurveServer kp opts \<Rightarrow> (MCurve (CurveServer (curve_server_new kp opts)), r)
      | SetupCurveClient kp server_public \<Rightarrow>
          (case curve_client_new C kp server_public r of (c, r) \<Rightarrow> (MCurve (CurveClient c), r))
      | SetupPlainServer auth \<Rightarrow> (MPlain (plain_new_server auth), r)
      | SetupPlainClient u p \<Rightarrow> (MPlain (plain_new_client u p), r))"

definition mechanism_start ::
  "crypto \<Rightarrow> security_mechanism \<Rightarrow> peer_properties \<Rightarrow> command list
    \<Rightarrow> security_mechanism \<times> command list \<times> unit result" where
  "mechanism_start C m our_props out =
     (case m of
        MNull st \<Rightarrow> (case null_start our_props out of (st, out) \<Rightarrow> (MNull st, out, Ok ()))
      | MCurve cm \<Rightarrow> (case curve_start C cm our_props out of (cm, out, r) \<Rightarrow> (MCurve cm, out, r))
      | MPlain pm \<Rightarrow> (case plain_start pm our_props out of (pm, out, r) \<Rightarrow> (MPlain pm, out, r)))"

definition mechanism_on_command ::
  "crypto \<Rightarrow> nat \<Rightarrow> rng \<Rightarrow> security_mechanism \<Rightarrow> command \<Rightarrow> command list
    \<Rightarrow> rng \<times> security_mechanism \<times> command list \<times> mechanism_step result" where
  "mechanism_on_command C now r m cmd out =
     (case m of
        MNull st \<Rightarrow> (case null_on_command st cmd out of (st, out, step) \<Rightarrow> (r, MNull st, out, step))
      | MCurve cm \<Rightarrow>
          (case curve_on_command C now r cm cmd out of (r, cm, out, step) \<Rightarrow> (r, MCurve cm, out, step))
      | MPlain pm \<Rightarrow>
          (case plain_on_command pm cmd out of (pm, out, step) \<Rightarrow> (r, MPlain pm, out, step)))"

definition mechanism_build_transform :: "security_mechanism \<Rightarrow> curve_transform option result" where
  "mechanism_build_transform m =
     (case m of
        MNull _ \<Rightarrow> Ok None
      | MCurve cm \<Rightarrow> rbind (curve_build_transform cm) (\<lambda>t. Ok (Some t))
      | MPlain _ \<Rightarrow> Ok None)"

section \<open>Frame transform\<close>

definition encrypt_part ::
  "crypto \<Rightarrow> curve_transform \<Rightarrow> bool \<Rightarrow> payload \<Rightarrow> curve_transform \<times> (frame_flags \<times> bytes) result" where
  "encrypt_part C tx mor part =
     (case encrypt_message C tx mor False (payload_as_bytes part) of
        (tx, Inl e) \<Rightarrow> (tx, Err e)
      | (tx, Inr body) \<Rightarrow>
          (tx, Ok (if mor then FF_MORE else FF_LAST, message_command_frame body)))"

fun encrypt_parts ::
  "crypto \<Rightarrow> nat \<Rightarrow> nat \<Rightarrow> curve_transform \<Rightarrow> payload list
    \<Rightarrow> curve_transform \<times> (frame_flags \<times> bytes) list result" where
  "encrypt_parts C n i tx [] = (tx, Ok [])"
| "encrypt_parts C n i tx (p # ps) =
     (case encrypt_part C tx (i + 1 < n) p of
        (tx, Inl e) \<Rightarrow> (tx, Err e)
      | (tx, Inr f) \<Rightarrow>
          (case encrypt_parts C n (i + 1) tx ps of (tx, r) \<Rightarrow> (tx, rbind r (\<lambda>fs. Ok (f # fs)))))"

definition transform_encrypt_message ::
  "crypto \<Rightarrow> curve_transform \<Rightarrow> message \<Rightarrow> curve_transform \<times> (frame_flags \<times> bytes) list result" where
  "transform_encrypt_message C tx msg =
     (let ps = parts_payload msg in encrypt_parts C (length ps) 0 tx ps)"

end
