(* ===== verification/Connection_Out.thy ===== *)
theory Connection_Out
  imports Security Ws_Codec
begin

text \<open>
  The state of a ZMTP connection (\<^verbatim>\<open>omq-proto/src/proto/connection/mod.rs\<close>) and its
  outbound half (\<^verbatim>\<open>connection/outbound.rs\<close>).  The source's one \<^verbatim>\<open>Connection\<close> struct is split
  into the inbound buffer and a \<open>session\<close> with everything else, because the
  outbound operations and the dispatch of a decoded frame do not touch the
  buffer.  The header scratch buffer is storage reuse only.  The random state
  is a field of the session; the cryptographic interface \<open>C\<close> and the clock are
  arguments.  The build considered has the \<^verbatim>\<open>plain\<close>, \<^verbatim>\<open>curve\<close> and \<^verbatim>\<open>ws\<close> features.
\<close>

section \<open>State\<close>

datatype role = RoleServer | RoleClient

record connection_config =
  cfg_role :: role
  cfg_socket_type :: socket_type
  cfg_identity :: bytes
  cfg_max_message_size :: "nat option"
  cfg_mechanism :: mechanism_setup
  cfg_ws_role :: "ws_role option"

definition config_new :: "role \<Rightarrow> socket_type \<Rightarrow> connection_config" where
  "config_new rl t = \<lparr>cfg_role = rl, cfg_socket_type = t, cfg_identity = [],
     cfg_max_message_size = None, cfg_mechanism = SetupNull, cfg_ws_role = None\<rparr>"

definition mechanism_name_of :: "connection_config \<Rightarrow> mechanism_name" where
  "mechanism_name_of cfg = wire_name (cfg_mechanism cfg)"

datatype event =
    HandshakeSucceeded u8 peer_properties
  | EvMessage message
  | EvCommand command

datatype conn_state =
    AwaitingGreeting
  | MechanismHandshake
  | StReady
  | AwaitingSuppliedPayload frame_flags nat
  | StClosed

record session =
  ss_config :: connection_config
  ss_state :: conn_state
  ss_mechanism :: security_mechanism
  ss_transform :: "curve_transform option"
  ss_our_greeting :: bytes
  ss_peer_greeting :: bytes
  ss_peer_minor :: u8
  ss_out_chunks :: "bytes list"
  ss_front_consumed :: nat
  ss_out_bytes_total :: nat
  ss_events :: "event list"
  ss_messages :: "message list"
  ss_pending_parts :: "payload list"
  ss_pending_size :: nat
  ss_ws_role :: "ws_role option"
  ss_ws_close_sent :: bool
  ss_ws_fragment :: "bytes option"
  ss_rng :: rng

definition is_ready :: "session \<Rightarrow> bool" where
  "is_ready s \<longleftrightarrow> ss_state s = StReady"

definition has_frame_transform :: "session \<Rightarrow> bool" where
  "has_frame_transform s \<longleftrightarrow> ss_transform s \<noteq> None"

definition take_transform :: "session \<Rightarrow> session \<times> curve_transform option" where
  "take_transform s = (s\<lparr>ss_transform := None\<rparr>, ss_transform s)"

definition restore_transform :: "session \<Rightarrow> curve_transform \<Rightarrow> session" where
  "restore_transform s tx = s\<lparr>ss_transform := Some tx\<rparr>"

definition conn_close :: "session \<Rightarrow> session" where
  "conn_close s = s\<lparr>ss_state := StClosed\<rparr>"

section \<open>Emitting frames\<close>

definition push_chunk :: "bytes \<Rightarrow> session \<Rightarrow> session" where
  "push_chunk chunk s =
     s\<lparr>ss_out_bytes_total := ss_out_bytes_total s + length chunk,
       ss_out_chunks := ss_out_chunks s @ [chunk]\<rparr>"

definition emit_ws_frame :: "frame_flags \<Rightarrow> payload \<Rightarrow> ws_role \<Rightarrow> session \<Rightarrow> session" where
  "emit_ws_frame flags p rl s =
     (let zws_flag = flags_to_zws flags;
          payload_bytes = payload_as_bytes p;
          ws_payload_len = 1 + length payload_bytes
      in case encode_ws_binary_header ws_payload_len rl (ss_rng s) of
           (hdr, Some k, r) \<Rightarrow>
             (let s = push_chunk (hdr @ [zws_flag XOR k ! 0]) (s\<lparr>ss_rng := r\<rparr>)
              in if payload_bytes \<noteq> [] then push_chunk (apply_mask_offset payload_bytes k 1) s else s)
         | (hdr, None, r) \<Rightarrow>
             (let s = push_chunk (hdr @ [zws_flag]) (s\<lparr>ss_rng := r\<rparr>)
              in if payload_bytes \<noteq> [] then push_chunk payload_bytes s else s))"

definition emit_frame :: "frame_flags \<Rightarrow> payload \<Rightarrow> session \<Rightarrow> session" where
  "emit_frame flags p s =
     (case ss_ws_role s of
        Some rl \<Rightarrow> emit_ws_frame flags p rl s
      | None \<Rightarrow>
          let plen = payload_len p; f = \<lparr>fr_flags = flags, fr_payload = p\<rparr>
          in s\<lparr>ss_out_bytes_total := ss_out_bytes_total s + (header_len_for plen + plen),
               ss_out_chunks := encode_frame_into f (ss_out_chunks s)\<rparr>)"

definition emit_command_frame :: "bytes \<Rightarrow> session \<Rightarrow> session" where
  "emit_command_frame b s = emit_frame FF_COMMAND (payload_from_bytes b) s"

fun emit_encrypted_frames :: "(frame_flags \<times> bytes) list \<Rightarrow> session \<Rightarrow> session" where
  "emit_encrypted_frames [] s = s"
| "emit_encrypted_frames ((flags, b) # fs) s =
     emit_encrypted_frames fs (emit_frame flags (payload_from_bytes b) s)"

fun write_outbound_commands :: "crypto \<Rightarrow> command list \<Rightarrow> session \<Rightarrow> session \<times> unit result" where
  "write_outbound_commands C [] s = (s, Ok ())"
| "write_outbound_commands C (c # cs) s =
     (case cmd_encode c [] of
        None \<Rightarrow> (s, Err (Panic ''command encode assertion''))
      | Some body \<Rightarrow>
          (case (if ss_state s = StReady then ss_transform s else None) of
             Some tx \<Rightarrow>
               (case encrypt_message C tx False True body of
                  (tx, Inl _) \<Rightarrow> (s\<lparr>ss_transform := Some tx\<rparr>, Err (Protocol ''command encryption failed''))
                | (tx, Inr enc) \<Rightarrow>
                    write_outbound_commands C cs
                      (emit_command_frame (message_command_frame enc) (s\<lparr>ss_transform := Some tx\<rparr>)))
           | None \<Rightarrow> write_outbound_commands C cs (emit_command_frame body s)))"

section \<open>Sending\<close>

definition send_part_curve :: "crypto \<Rightarrow> bool \<Rightarrow> payload \<Rightarrow> session \<Rightarrow> session \<times> unit result" where
  "send_part_curve C mor part s =
     (case ss_transform s of
        None \<Rightarrow> (s, Err (Panic ''send_part_curve called without curve transform''))
      | Some tx \<Rightarrow>
          (case encrypt_message C tx mor False (payload_as_bytes part) of
             (tx, Inl e) \<Rightarrow> (s\<lparr>ss_transform := Some tx\<rparr>, Err e)
           | (tx, Inr body) \<Rightarrow>
               (emit_frame (if mor then FF_MORE else FF_LAST)
                  (payload_from_bytes (message_command_frame body)) (s\<lparr>ss_transform := Some tx\<rparr>), Ok ())))"

fun send_parts :: "crypto \<Rightarrow> nat \<Rightarrow> nat \<Rightarrow> payload list \<Rightarrow> session \<Rightarrow> session \<times> unit result" where
  "send_parts C n i [] s = (s, Ok ())"
| "send_parts C n i (part # ps) s =
     (let mor = i + 1 < n
      in if ss_transform s \<noteq> None then
           (case send_part_curve C mor part s of
              (s, Inl e) \<Rightarrow> (s, Err e)
            | (s, Inr _) \<Rightarrow> send_parts C n (i + 1) ps s)
         else send_parts C n (i + 1) ps (emit_frame (if mor then FF_MORE else FF_LAST) part s))"

definition send_message :: "crypto \<Rightarrow> message \<Rightarrow> session \<Rightarrow> session \<times> unit result" where
  "send_message C msg s =
     (if ss_state s \<noteq> StReady then (s, Err (Protocol ''send_message before handshake complete''))
      else let ps = parts_payload msg in send_parts C (length ps) 0 ps s)"

definition send_command :: "crypto \<Rightarrow> command \<Rightarrow> session \<Rightarrow> session \<times> unit result" where
  "send_command C cmd s =
     (if ss_state s \<noteq> StReady then (s, Err (Protocol ''send_command before handshake complete''))
      else write_outbound_commands C [cmd] s)"

definition queue_ws_close :: "bytes \<Rightarrow> session \<Rightarrow> session" where
  "queue_ws_close body s =
     (if ss_ws_close_sent s then s
      else let s = s\<lparr>ss_ws_close_sent := True\<rparr>;
               rl = (case ss_ws_role s of Some r \<Rightarrow> r | None \<Rightarrow> WsServer)
        in case encode_ws_control (ss_out_chunks s) (ss_out_bytes_total s) OP_CLOSE body rl (ss_rng s) of
             (chunks, tot, r) \<Rightarrow> s\<lparr>ss_out_chunks := chunks, ss_out_bytes_total := tot, ss_rng := r\<rparr>)"

definition send_ws_close :: "u16 \<Rightarrow> session \<Rightarrow> session" where
  "send_ws_close code s = queue_ws_close (be_bytes 2 (unat code)) s"

definition send_empty_ws_close :: "session \<Rightarrow> session" where
  "send_empty_ws_close s = queue_ws_close [] s"

definition queue_ws_pong :: "bytes \<Rightarrow> session \<Rightarrow> session" where
  "queue_ws_pong body s =
     (let rl = (case ss_ws_role s of Some r \<Rightarrow> r | None \<Rightarrow> WsServer)
      in case encode_ws_control (ss_out_chunks s) (ss_out_bytes_total s) OP_PONG body rl (ss_rng s) of
           (chunks, tot, r) \<Rightarrow> s\<lparr>ss_out_chunks := chunks, ss_out_bytes_total := tot, ss_rng := r\<rparr>)"

text \<open>The loop of \<^verbatim>\<open>send_message_flat\<close>, which writes its headers itself.\<close>

fun message_flat_parts :: "nat \<Rightarrow> nat \<Rightarrow> payload list \<Rightarrow> bytes \<Rightarrow> bytes" where
  "message_flat_parts n i [] buf = buf"
| "message_flat_parts n i (p # ps) buf =
     (let mor = (if i + 1 < n then 1 else 0 :: u8); len = payload_len p;
          buf = (if MAX_SHORT_FRAME_SIZE < len then buf @ [FLAG_LONG OR mor] @ be_bytes 8 len
                 else buf @ [mor, of_nat len])
      in message_flat_parts n (i + 1) ps (buf @ payload_as_slice p))"

definition send_message_flat :: "message \<Rightarrow> bytes \<Rightarrow> bytes" where
  "send_message_flat msg buf = (let ps = parts_payload msg in message_flat_parts (length ps) 0 ps buf)"

section \<open>Transmitting\<close>

definition pending_transmit_size :: "session \<Rightarrow> nat" where
  "pending_transmit_size s = ss_out_bytes_total s - ss_front_consumed s"

definition has_pending_transmit :: "session \<Rightarrow> bool" where
  "has_pending_transmit s \<longleftrightarrow> ss_front_consumed s < ss_out_bytes_total s"

fun capped_chunks :: "nat \<Rightarrow> nat \<Rightarrow> bytes list \<Rightarrow> bytes list \<Rightarrow> bytes list" where
  "capped_chunks mx start out [] = out"
| "capped_chunks mx start out (c # cs) =
     (if mx \<le> length out then out
      else capped_chunks mx 0 (if start < length c then out @ [drop start c] else out) cs)"

definition transmit_chunks_capped :: "session \<Rightarrow> nat \<Rightarrow> bytes list" where
  "transmit_chunks_capped s mx = capped_chunks mx (ss_front_consumed s) [] (ss_out_chunks s)"

definition transmit_chunks :: "session \<Rightarrow> bytes list" where
  "transmit_chunks s = transmit_chunks_capped s (length (ss_out_chunks s))"

fun cloned_chunks :: "nat \<Rightarrow> bytes list \<Rightarrow> bytes list" where
  "cloned_chunks start [] = []"
| "cloned_chunks start (c # cs) =
     (if start < length c then [drop start c] else []) @ cloned_chunks 0 cs"

definition clone_transmit_chunks :: "session \<Rightarrow> bytes list" where
  "clone_transmit_chunks s = cloned_chunks (ss_front_consumed s) (ss_out_chunks s)"

definition poll_transmit :: "session \<Rightarrow> bytes" where
  "poll_transmit s =
     (case ss_out_chunks s of
        [] \<Rightarrow> []
      | c # cs \<Rightarrow> drop (ss_front_consumed s) c @ concat cs)"

fun advance_chunks :: "nat \<Rightarrow> bytes list \<Rightarrow> nat \<Rightarrow> nat \<Rightarrow> bytes list \<times> nat \<times> nat" where
  "advance_chunks n [] fc tot = ([], fc, tot)"
| "advance_chunks n (c # cs) fc tot =
     (if n = 0 then (c # cs, fc, tot)
      else let remaining = length c - fc
        in if n < remaining then (c # cs, fc + n, tot)
           else advance_chunks (n - remaining) cs 0 (tot - length c))"

definition advance_transmit :: "nat \<Rightarrow> session \<Rightarrow> session" where
  "advance_transmit n s =
     (case advance_chunks n (ss_out_chunks s) (ss_front_consumed s) (ss_out_bytes_total s) of
        (chunks, fc, tot) \<Rightarrow>
          s\<lparr>ss_out_chunks := chunks, ss_front_consumed := fc, ss_out_bytes_total := tot\<rparr>)"

section \<open>What sending leaves alone\<close>

text \<open>
  Sending changes the outbound queue, its byte count, the random state and the
  counters of the transform, and whether a close frame was sent; nothing else.
\<close>

definition outbound_only :: "session \<Rightarrow> session \<Rightarrow> bool" where
  "outbound_only s s' \<longleftrightarrow>
     (\<exists>ch tot r t cl. s' = s\<lparr>ss_out_chunks := ch, ss_out_bytes_total := tot, ss_rng := r,
        ss_transform := t, ss_ws_close_sent := cl\<rparr>)"

lemma outbound_only_refl [intro, simp]: "outbound_only s s"
  unfolding outbound_only_def
  by (rule exI [of _ "ss_out_chunks s"], rule exI [of _ "ss_out_bytes_total s"],
      rule exI [of _ "ss_rng s"], rule exI [of _ "ss_transform s"],
      rule exI [of _ "ss_ws_close_sent s"]) simp

lemma outbound_only_fields:
  assumes "outbound_only s s'"
  shows "ss_config s' = ss_config s" "ss_state s' = ss_state s" "ss_mechanism s' = ss_mechanism s"
    "ss_peer_minor s' = ss_peer_minor s" "ss_front_consumed s' = ss_front_consumed s"
    "ss_events s' = ss_events s" "ss_messages s' = ss_messages s"
    "ss_pending_parts s' = ss_pending_parts s" "ss_pending_size s' = ss_pending_size s"
    "ss_ws_role s' = ss_ws_role s" "ss_ws_fragment s' = ss_ws_fragment s"
    "ss_our_greeting s' = ss_our_greeting s" "ss_peer_greeting s' = ss_peer_greeting s"
  using assms by (auto simp: outbound_only_def)

lemma outbound_only_update [intro, simp]:
  "outbound_only s (s\<lparr>ss_rng := r\<rparr>)" "outbound_only s (s\<lparr>ss_transform := t\<rparr>)"
  "outbound_only s (s\<lparr>ss_out_bytes_total := tot, ss_out_chunks := ch\<rparr>)"
  "outbound_only s (s\<lparr>ss_ws_close_sent := cl\<rparr>)"
  by (cases s; force simp: outbound_only_def)+

lemma outbound_only_trans [trans]:
  "outbound_only s t \<Longrightarrow> outbound_only t u \<Longrightarrow> outbound_only s u"
  by (force simp: outbound_only_def)

lemma outbound_only_push: "outbound_only s t \<Longrightarrow> outbound_only s (push_chunk c t)"
  unfolding push_chunk_def by (erule outbound_only_trans) (rule outbound_only_update)

lemma emit_frame_outbound: "outbound_only s (emit_frame fl p s)"
proof (cases "ss_ws_role s")
  case None
  then show ?thesis
    by (simp add: emit_frame_def Let_def)
next
  case (Some rl)
  obtain hdr k r where "encode_ws_binary_header (1 + length (payload_as_bytes p)) rl (ss_rng s) = (hdr, k, r)"
    by (metis surj_pair)
  with Some show ?thesis
    by (auto simp: emit_frame_def emit_ws_frame_def Let_def split: option.split
      intro: outbound_only_push)
qed

lemma write_outbound_commands_outbound: "outbound_only s (fst (write_outbound_commands C cmds s))"
proof (induction cmds arbitrary: s)
  case Nil
  then show ?case by simp
next
  case (Cons c cs)
  have emit: "outbound_only s (fst (write_outbound_commands C cs (emit_command_frame b t)))"
    if "outbound_only s t" for b t
    using that Cons.IH emit_frame_outbound unfolding emit_command_frame_def
    by (blast intro: outbound_only_trans)
  show ?case by (auto split: option.split prod.split sum.split intro: emit)
qed

lemma send_part_curve_outbound: "outbound_only s (fst (send_part_curve C mor p s))"
  unfolding send_part_curve_def
  by (auto split: option.split prod.split sum.split
    intro: outbound_only_trans [OF outbound_only_update(2) emit_frame_outbound])

lemma send_parts_outbound: "outbound_only s (fst (send_parts C n i ps s))"
proof (induction ps arbitrary: i s)
  case Nil
  then show ?case by simp
next
  case (Cons p ps)
  have "outbound_only s (fst (send_parts C n j ps t))" if "outbound_only s t" for j t
    using that Cons.IH by (blast intro: outbound_only_trans)
  moreover obtain t r where "send_part_curve C (i + 1 < n) p s = (t, r)" by (metis surj_pair)
  ultimately show ?case
    using send_part_curve_outbound [of s C "i + 1 < n" p]
    by (cases r) (auto simp: Let_def intro: emit_frame_outbound)
qed

lemma send_message_outbound: "outbound_only s (fst (send_message C m s))"
  by (simp add: send_message_def Let_def send_parts_outbound)

end
