(* ===== verification/Connection_In.thy ===== *)
theory Connection_In
  imports Connection_Out
begin

text \<open>
  The inbound half of a ZMTP connection (\<^verbatim>\<open>connection/inbound.rs\<close>) and its construction
  (\<^verbatim>\<open>connection/mod.rs\<close>).  Each handler returns the new state and its result, so an
  early return by the question-mark operator keeps the effects made before
  it.  The two drive loops take fuel; \<open>drive_zmtp\<close> and \<open>drive_ws\<close> give them one
  round per buffered byte and one to stop, which \<open>Connection_Spec\<close> shows is
  always enough.
\<close>

record connection =
  cn_session :: session
  cn_in_buf :: chunked_buf

section \<open>Construction\<close>

definition decode_command_raw :: "bytes \<Rightarrow> command result" where
  "decode_command_raw body =
     (if body = [] then Err (Protocol ''empty command frame'')
      else let name_len = unat (body ! 0)
        in if length body < 1 + name_len then Err (Protocol ''command truncated in name'')
           else Ok (Unknown (take name_len (drop 1 body)) (drop (1 + name_len) body)))"

definition our_props :: "connection_config \<Rightarrow> peer_properties" where
  "our_props cfg =
     (let p = with_socket_type (cfg_socket_type cfg) props_new
      in if cfg_identity cfg \<noteq> [] then with_identity (cfg_identity cfg) p else p)"

text \<open>
  An error of the mechanism closes the connection; a failed assertion of the
  encoder is not an error value, so it is the result of the whole constructor.
\<close>

definition is_panic :: "error \<Rightarrow> bool" where
  "is_panic e = (case e of Panic _ \<Rightarrow> True | _ \<Rightarrow> False)"

definition init_ws_mode :: "crypto \<Rightarrow> session \<Rightarrow> session result" where
  "init_ws_mode C s =
     (let s = s\<lparr>ss_state := MechanismHandshake\<rparr>
      in case mechanism_start C (ss_mechanism s) (our_props (ss_config s)) [] of
           (m, cmds, Inl e) \<Rightarrow>
             if is_panic e then Err e else Ok (s\<lparr>ss_mechanism := m, ss_state := StClosed\<rparr>)
         | (m, cmds, Inr _) \<Rightarrow>
             (case write_outbound_commands C cmds (s\<lparr>ss_mechanism := m\<rparr>) of
                (s, Inl e) \<Rightarrow> if is_panic e then Err e else Ok (s\<lparr>ss_state := StClosed\<rparr>)
              | (s, Inr _) \<Rightarrow> Ok s))"

definition queue_greeting :: "session \<Rightarrow> session" where
  "queue_greeting s =
     (let mech = mechanism_name_of (ss_config s);
          as_server = (mech \<noteq> MECH_NULL \<and> cfg_role (ss_config s) = RoleServer);
          bs = greeting_encode (greeting_current mech as_server) []
      in push_chunk bs (s\<lparr>ss_our_greeting := bs\<rparr>))"

definition session_init :: "connection_config \<Rightarrow> security_mechanism \<Rightarrow> rng \<Rightarrow> session" where
  "session_init cfg m r =
     \<lparr>ss_config = cfg, ss_state = AwaitingGreeting, ss_mechanism = m, ss_transform = None,
      ss_our_greeting = [], ss_peer_greeting = [], ss_peer_minor = ZMTP_MINOR,
      ss_out_chunks = [], ss_front_consumed = 0, ss_out_bytes_total = 0, ss_events = [],
      ss_messages = [], ss_pending_parts = [], ss_pending_size = 0,
      ss_ws_role = cfg_ws_role cfg, ss_ws_close_sent = False, ss_ws_fragment = None, ss_rng = r\<rparr>"

definition connection_new :: "crypto \<Rightarrow> connection_config \<Rightarrow> rng \<Rightarrow> connection result" where
  "connection_new C cfg r =
     (case mechanism_build C (cfg_mechanism cfg) r of (m, r) \<Rightarrow>
        let s = session_init cfg m r
        in if ss_ws_role s \<noteq> None
           then rbind (init_ws_mode C s) (\<lambda>s. Ok \<lparr>cn_session = s, cn_in_buf = cb_new\<rparr>)
           else Ok \<lparr>cn_session = queue_greeting s, cn_in_buf = cb_new\<rparr>)"

section \<open>Dispatching a frame\<close>

definition MAX_HANDSHAKE_COMMAND :: nat where "MAX_HANDSHAKE_COMMAND = 256 * 1024"

definition CURVE_MESSAGE_PREFIX :: bytes where "CURVE_MESSAGE_PREFIX = 7 # ascii ''MESSAGE''"

definition complete_handshake :: "peer_properties \<Rightarrow> session \<Rightarrow> session \<times> unit result" where
  "complete_handshake props s =
     (case pp_socket_type props of
        None \<Rightarrow> (s, Err (HandshakeFailed ''peer did not declare socket type''))
      | Some peer_type \<Rightarrow>
          if \<not> is_compatible (cfg_socket_type (ss_config s)) peer_type
          then (s, Err (HandshakeFailed ''incompatible socket types: ours={:?} peer={:?}''))
          else (case mechanism_build_transform (ss_mechanism s) of
                  Inl e \<Rightarrow> (s, Err e)
                | Inr t \<Rightarrow>
                    (s\<lparr>ss_transform := t, ss_state := StReady,
                       ss_events := ss_events s @ [HandshakeSucceeded (ss_peer_minor s) props]\<rparr>, Ok ())))"

definition process_mechanism_command ::
  "crypto \<Rightarrow> nat \<Rightarrow> bytes \<Rightarrow> session \<Rightarrow> session \<times> unit result" where
  "process_mechanism_command C now body s =
     (case decode_command_raw body of
        Inl e \<Rightarrow> (s, Err e)
      | Inr cmd \<Rightarrow>
          (case mechanism_on_command C now (ss_rng s) (ss_mechanism s) cmd [] of
             (r, m, cmds, step) \<Rightarrow>
               let s = s\<lparr>ss_rng := r, ss_mechanism := m\<rparr>
               in case step of
                    Inl e \<Rightarrow> (s, Err e)
                  | Inr st \<Rightarrow>
                      (case write_outbound_commands C cmds s of
                         (s, Inl e) \<Rightarrow> (s, Err e)
                       | (s, Inr _) \<Rightarrow>
                           (case st of Complete props \<Rightarrow> complete_handshake props s
                                     | Continue \<Rightarrow> (s, Ok ())))))"

text \<open>The body of \<open>absorb_data_frame\<close> once the size is accepted.\<close>

definition absorb_part :: "bool \<Rightarrow> payload \<Rightarrow> session \<Rightarrow> session" where
  "absorb_part mor p s =
     (if mor then s\<lparr>ss_pending_parts := ss_pending_parts s @ [p]\<rparr>
      else if ss_pending_parts s = [] then
        (let sl = payload_as_slice p;
             msg = (if length sl \<le> MAX_INLINE_MESSAGE then from_inline sl else from_payload p)
         in s\<lparr>ss_pending_size := 0, ss_messages := ss_messages s @ [msg]\<rparr>)
      else
        (let ps = ss_pending_parts s @ [p]
         in s\<lparr>ss_pending_parts := [], ss_pending_size := 0,
              ss_messages := ss_messages s @ [from_payloads_vec ps]\<rparr>))"

definition absorb_data_frame :: "bool \<Rightarrow> payload \<Rightarrow> session \<Rightarrow> session \<times> bool result" where
  "absorb_data_frame mor p s =
     (let s = s\<lparr>ss_pending_size := sat_add (ss_pending_size s) (payload_len p + PAYLOAD_SIZE)\<rparr>
      in case cfg_max_message_size (ss_config s) of
           Some mx \<Rightarrow>
             if mx < ss_pending_size s then (s, Err (MessageTooLarge (ss_pending_size s) mx))
             else (absorb_part mor p s, Ok True)
         | None \<Rightarrow> (absorb_part mor p s, Ok True))"

definition handle_post_handshake_command :: "crypto \<Rightarrow> command \<Rightarrow> session \<Rightarrow> session \<times> unit result" where
  "handle_post_handshake_command C cmd s =
     (case cmd of
        Ready _ \<Rightarrow> (s, Err (Protocol ''READY/ERROR command received after handshake''))
      | CmdError _ \<Rightarrow> (s, Err (Protocol ''READY/ERROR command received after handshake''))
      | Ping _ ctx \<Rightarrow> write_outbound_commands C [Pong ctx] s
      | Pong _ \<Rightarrow> (s, Ok ())
      | _ \<Rightarrow> (s\<lparr>ss_events := ss_events s @ [EvCommand cmd]\<rparr>, Ok ()))"

text \<open>The mapping of the result of \<open>absorb_data_frame\<close> to unit at its call sites.\<close>

definition drop_flag :: "session \<times> bool result \<Rightarrow> session \<times> unit result" where
  "drop_flag r = (case r of (s, Inl e) \<Rightarrow> (s, Err e) | (s, Inr _) \<Rightarrow> (s, Ok ()))"

definition dispatch_decrypted ::
  "crypto \<Rightarrow> bool \<Rightarrow> bool \<Rightarrow> bytes \<Rightarrow> session \<Rightarrow> session \<times> unit result" where
  "dispatch_decrypted C cmdf mor plaintext s =
     (if cmdf then
        (case cmd_decode plaintext of
           Inl e \<Rightarrow> (s, Err e)
         | Inr cmd \<Rightarrow> handle_post_handshake_command C cmd s)
      else drop_flag (absorb_data_frame mor (payload_from_bytes plaintext) s))"

definition decode_assembled_frame ::
  "crypto \<Rightarrow> frame_flags \<Rightarrow> payload \<Rightarrow> session \<Rightarrow> session \<times> unit result" where
  "decode_assembled_frame C flags p s =
     (case ss_transform s of
        Some tx \<Rightarrow>
          (let body = payload_as_bytes p; n = length CURVE_MESSAGE_PREFIX
           in if n \<le> length body \<and> take n body = CURVE_MESSAGE_PREFIX then
                (case decrypt_message C tx (drop n body) of
                   (tx, Inl e) \<Rightarrow> (s\<lparr>ss_transform := Some tx\<rparr>, Err e)
                 | (tx, Inr (mor, cmdf, plaintext)) \<Rightarrow>
                     dispatch_decrypted C cmdf mor plaintext (s\<lparr>ss_transform := Some tx\<rparr>))
              else (s, Err (Protocol ''expected CURVE-wrapped MESSAGE on data-phase connection'')))
      | None \<Rightarrow>
          if ff_command flags then
            (case cmd_decode (payload_as_bytes p) of
               Inl e \<Rightarrow> (s, Err e)
             | Inr cmd \<Rightarrow> handle_post_handshake_command C cmd s)
          else drop_flag (absorb_data_frame (ff_more flags) p s))"

section \<open>The byte-stream driver\<close>

definition inline_message_from_buf :: "nat \<Rightarrow> chunked_buf \<Rightarrow> message \<times> chunked_buf" where
  "inline_message_from_buf n buf =
     (case read_into n buf of (bs, buf) \<Rightarrow>
        (Inline (of_nat n) (bs @ replicate (MAX_INLINE_MESSAGE - n) 0), buf))"

definition start_handshake :: "crypto \<Rightarrow> session \<Rightarrow> session \<times> unit result" where
  "start_handshake C s =
     (case mechanism_start C (ss_mechanism s) (our_props (ss_config s)) [] of
        (m, cmds, Inl e) \<Rightarrow> (s\<lparr>ss_mechanism := m\<rparr>, Err e)
      | (m, cmds, Inr _) \<Rightarrow> write_outbound_commands C cmds (s\<lparr>ss_mechanism := m\<rparr>))"

text \<open>What \<open>try_advance_greeting\<close> does with the greeting it decoded.\<close>

definition accept_greeting :: "crypto \<Rightarrow> greeting \<Rightarrow> bytes \<Rightarrow> session \<Rightarrow> session \<times> unit result" where
  "accept_greeting C g raw s =
     (let our_mech = mechanism_name_of (ss_config s)
      in if gr_mechanism g \<noteq> our_mech
         then (s, Err (HandshakeFailed ''mechanism mismatch: ours={:?} peer={:?}''))
         else if our_mech = MECH_NULL \<and> gr_as_server g
         then (s, Err (HandshakeFailed ''peer sent as-server=1 with NULL mechanism''))
         else start_handshake C
                (s\<lparr>ss_peer_minor := effective_minor (gr_minor g), ss_peer_greeting := raw,
                   ss_state := MechanismHandshake\<rparr>))"

text \<open>A session step of a handler that reports progress to the drive loop.\<close>

definition progress_with :: "chunked_buf \<Rightarrow> session \<times> unit result \<Rightarrow> connection \<times> bool result" where
  "progress_with buf r =
     (case r of (s, res) \<Rightarrow> (\<lparr>cn_session = s, cn_in_buf = buf\<rparr>, rbind res (\<lambda>_. Ok True)))"

definition try_advance_greeting :: "crypto \<Rightarrow> connection \<Rightarrow> connection \<times> bool result" where
  "try_advance_greeting C c =
     (case greeting_try_decode (cn_in_buf c) of
        (buf, Inl e) \<Rightarrow> (c\<lparr>cn_in_buf := buf\<rparr>, Err e)
      | (buf, Inr None) \<Rightarrow> (c\<lparr>cn_in_buf := buf\<rparr>, Ok False)
      | (buf, Inr (Some (g, raw))) \<Rightarrow> progress_with buf (accept_greeting C g raw (cn_session c)))"

definition mechanism_frame :: "crypto \<Rightarrow> nat \<Rightarrow> frame_flags \<Rightarrow> bytes \<Rightarrow> session \<Rightarrow> session \<times> unit result" where
  "mechanism_frame C now flags body s =
     (if \<not> ff_command flags then (s, Err (HandshakeFailed ''peer sent data frame during handshake''))
      else process_mechanism_command C now body s)"

definition try_advance_mechanism :: "crypto \<Rightarrow> nat \<Rightarrow> connection \<Rightarrow> connection \<times> bool result" where
  "try_advance_mechanism C now c =
     (case peek_frame_header (cn_in_buf c) of
        Inl e \<Rightarrow> (c, Err e)
      | Inr ho \<Rightarrow>
          if (case ho of Some hdr \<Rightarrow> MAX_HANDSHAKE_COMMAND < ph_payload_len hdr | None \<Rightarrow> False)
          then (c, Err (HandshakeFailed
                 ''handshake command frame too large: {} bytes (max {MAX_HANDSHAKE_COMMAND})''))
          else (case try_decode_frame (cn_in_buf c) of
                  (buf, Inl e) \<Rightarrow> (c\<lparr>cn_in_buf := buf\<rparr>, Err e)
                | (buf, Inr None) \<Rightarrow> (c\<lparr>cn_in_buf := buf\<rparr>, Ok False)
                | (buf, Inr (Some fr)) \<Rightarrow>
                    progress_with buf
                      (mechanism_frame C now (fr_flags fr) (payload_as_bytes (fr_payload fr)) (cn_session c))))"

definition over_limit :: "session \<Rightarrow> nat \<Rightarrow> error option" where
  "over_limit s n =
     (case cfg_max_message_size (ss_config s) of
        Some mx \<Rightarrow> if mx < sat_add n PAYLOAD_SIZE then Some (MessageTooLarge n mx) else None
      | None \<Rightarrow> None)"

definition ready_fast :: "connection \<Rightarrow> peeked_frame_header \<Rightarrow> bool" where
  "ready_fast c hdr \<longleftrightarrow>
     \<not> ff_command (ph_flags hdr) \<and> \<not> ff_more (ph_flags hdr)
     \<and> ph_payload_len hdr \<le> MAX_INLINE_MESSAGE
     \<and> ph_header_len hdr + ph_payload_len hdr \<le> cb_len (cn_in_buf c)"

definition ready_slow :: "crypto \<Rightarrow> connection \<Rightarrow> connection \<times> bool result" where
  "ready_slow C c =
     (case (if cfg_max_message_size (ss_config (cn_session c)) \<noteq> None
            then rbind (peek_frame_header (cn_in_buf c)) (\<lambda>ho.
                   case ho of
                     None \<Rightarrow> Ok ()
                   | Some hdr \<Rightarrow>
                       (case over_limit (cn_session c) (ph_payload_len hdr) of
                          Some e \<Rightarrow> Err e | None \<Rightarrow> Ok ()))
            else Ok ()) of
        Inl e \<Rightarrow> (c, Err e)
      | Inr _ \<Rightarrow>
          (case try_decode_frame (cn_in_buf c) of
             (buf, Inl e) \<Rightarrow> (c\<lparr>cn_in_buf := buf\<rparr>, Err e)
           | (buf, Inr None) \<Rightarrow> (c\<lparr>cn_in_buf := buf\<rparr>, Ok False)
           | (buf, Inr (Some fr)) \<Rightarrow>
               progress_with buf (decode_assembled_frame C (fr_flags fr) (fr_payload fr) (cn_session c))))"

definition try_advance_ready :: "crypto \<Rightarrow> connection \<Rightarrow> connection \<times> bool result" where
  "try_advance_ready C c =
     (let s = cn_session c
      in case (if \<not> has_frame_transform s \<and> ss_pending_parts s = []
               then peek_frame_header (cn_in_buf c) else Ok None) of
           Inl e \<Rightarrow> (c, Err e)
         | Inr None \<Rightarrow> ready_slow C c
         | Inr (Some hdr) \<Rightarrow>
             if ready_fast c hdr then
               (case over_limit s (ph_payload_len hdr) of
                  Some e \<Rightarrow> (c, Err e)
                | None \<Rightarrow>
                    (case inline_message_from_buf (ph_payload_len hdr)
                            (cb_advance (ph_header_len hdr) (cn_in_buf c)) of
                       (msg, buf) \<Rightarrow>
                         (\<lparr>cn_session = s\<lparr>ss_messages := ss_messages s @ [msg]\<rparr>, cn_in_buf = buf\<rparr>, Ok True)))
             else ready_slow C c)"

definition zmtp_step :: "crypto \<Rightarrow> nat \<Rightarrow> connection \<Rightarrow> connection \<times> bool result" where
  "zmtp_step C now c =
     (case ss_state (cn_session c) of
        AwaitingGreeting \<Rightarrow> try_advance_greeting C c
      | MechanismHandshake \<Rightarrow> try_advance_mechanism C now c
      | StReady \<Rightarrow> try_advance_ready C c
      | AwaitingSuppliedPayload _ _ \<Rightarrow> (c, Ok False)
      | StClosed \<Rightarrow> (c, Ok False))"

fun drive_loop ::
  "(connection \<Rightarrow> connection \<times> bool result) \<Rightarrow> nat \<Rightarrow> connection \<Rightarrow> (connection \<times> unit result) option" where
  "drive_loop f 0 c = None"
| "drive_loop f (Suc fuel) c =
     (case f c of
        (c, Inl e) \<Rightarrow> Some (c, Err e)
      | (c, Inr False) \<Rightarrow> Some (c, Ok ())
      | (c, Inr True) \<Rightarrow> drive_loop f fuel c)"

definition drive_with ::
  "(connection \<Rightarrow> connection \<times> bool result) \<Rightarrow> connection \<Rightarrow> connection \<times> unit result" where
  "drive_with f c =
     (case drive_loop f (Suc (cb_len (cn_in_buf c))) c of
        Some r \<Rightarrow> r | None \<Rightarrow> (c, Err (Panic ''drive loop does not stop'')))"

definition drive_zmtp :: "crypto \<Rightarrow> nat \<Rightarrow> connection \<Rightarrow> connection \<times> unit result" where
  "drive_zmtp C now c = drive_with (zmtp_step C now) c"

section \<open>The WebSocket driver\<close>

definition dispatch_ws_binary ::
  "crypto \<Rightarrow> nat \<Rightarrow> frame_flags \<Rightarrow> payload \<Rightarrow> session \<Rightarrow> session \<times> unit result" where
  "dispatch_ws_binary C now flags p s =
     (case ss_state s of
        MechanismHandshake \<Rightarrow> mechanism_frame C now flags (payload_as_bytes p) s
      | StReady \<Rightarrow> decode_assembled_frame C flags p s
      | _ \<Rightarrow> (s, Err (Protocol ''WS binary frame in unexpected state'')))"

definition dispatch_ws_payload :: "crypto \<Rightarrow> nat \<Rightarrow> bytes \<Rightarrow> session \<Rightarrow> session \<times> unit result" where
  "dispatch_ws_payload C now raw s =
     (if raw = [] then (s, Err (Protocol ''empty WS binary frame''))
      else case zws_to_flags (raw ! 0) of
             Inl e \<Rightarrow> (s, Err e)
           | Inr flags \<Rightarrow>
               dispatch_ws_binary C now flags
                 (if 1 < length raw then payload_from_bytes (drop 1 raw) else payload_new) s)"

definition ws_payload_cap :: "session \<Rightarrow> nat option" where
  "ws_payload_cap s =
     (if ss_state s = StReady then cfg_max_message_size (ss_config s) else Some MAX_HANDSHAKE_COMMAND)"

definition take_ws_payload :: "nat \<Rightarrow> ws_frame_header \<Rightarrow> chunked_buf \<Rightarrow> bytes \<times> chunked_buf" where
  "take_ws_payload n hdr buf =
     (case split_to n buf of (p, buf) \<Rightarrow>
        (if wh_masked hdr then apply_mask (payload_as_bytes p) (wh_mask_key hdr) else payload_as_bytes p, buf))"

text \<open>\<open>handle_ws_data_frame\<close> after the payload is taken from the buffer.\<close>

definition ws_data_payload ::
  "crypto \<Rightarrow> nat \<Rightarrow> u8 \<Rightarrow> bool \<Rightarrow> bytes \<Rightarrow> session \<Rightarrow> session \<times> unit result" where
  "ws_data_payload C now opcode fin raw s =
     (if opcode = OP_BINARY then
        (if ss_ws_fragment s \<noteq> None
         then (s, Err (Protocol ''new WS binary frame before fragmented message completed''))
         else if fin then dispatch_ws_payload C now raw s
         else (s\<lparr>ss_ws_fragment := Some raw\<rparr>, Ok ()))
      else if opcode = OP_CONTINUATION then
        (case ss_ws_fragment s of
           None \<Rightarrow> (s, Err (Protocol ''WS continuation frame without initial binary frame''))
         | Some assembled \<Rightarrow>
             (let s = s\<lparr>ss_ws_fragment := None\<rparr>
              in case checked_add (length assembled) (length raw) of
                   None \<Rightarrow> (s, Err (Protocol ''WS fragmented message size overflow''))
                 | Some tot \<Rightarrow>
                     if (case ws_payload_cap s of Some cap \<Rightarrow> cap < tot | None \<Rightarrow> False)
                     then (s, Err (Protocol ''WS fragmented message too large: {total} bytes (max {cap})''))
                     else if fin then dispatch_ws_payload C now (assembled @ raw) s
                     else (s\<lparr>ss_ws_fragment := Some (assembled @ raw)\<rparr>, Ok ())))
      else (s, Err (Panic ''caller dispatches only WS data frames'')))"

definition handle_ws_data_frame ::
  "crypto \<Rightarrow> nat \<Rightarrow> nat \<Rightarrow> ws_frame_header \<Rightarrow> connection \<Rightarrow> connection \<times> unit result" where
  "handle_ws_data_frame C now n hdr c =
     (case take_ws_payload n hdr (cn_in_buf c) of (raw, buf) \<Rightarrow>
        case ws_data_payload C now (wh_opcode hdr) (wh_fin hdr) raw (cn_session c) of
          (s, r) \<Rightarrow> (\<lparr>cn_session = s, cn_in_buf = buf\<rparr>, r))"

definition ws_close_with :: "ws_frame_header \<Rightarrow> bytes \<Rightarrow> session \<Rightarrow> session \<times> unit result" where
  "ws_close_with hdr b s =
     (case b of
        b0 # b1 # _ \<Rightarrow>
          (let code_bytes = (if wh_masked hdr then apply_mask [b0, b1] (wh_mask_key hdr) else [b0, b1]);
               s = (if ss_ws_close_sent s then s else send_ws_close (of_nat (be_val code_bytes)) s)
           in (s\<lparr>ss_state := StClosed\<rparr>, Ok ()))
      | _ \<Rightarrow> (s, Err (Panic ''index out of bounds'')))"

definition handle_ws_close :: "nat \<Rightarrow> ws_frame_header \<Rightarrow> connection \<Rightarrow> connection \<times> unit result" where
  "handle_ws_close n hdr c =
     (let s = cn_session c
      in if n = 0 then
           (let s = (if ss_ws_close_sent s then s else send_empty_ws_close s)
            in (c\<lparr>cn_session := s\<lparr>ss_state := StClosed\<rparr>\<rparr>, Ok ()))
         else
           (case split_to n (cn_in_buf c) of (p, buf) \<Rightarrow>
              case ws_close_with hdr (payload_as_bytes p) s of
                (s, r) \<Rightarrow> (\<lparr>cn_session = s, cn_in_buf = buf\<rparr>, r)))"

definition handle_ws_ping :: "nat \<Rightarrow> ws_frame_header \<Rightarrow> connection \<Rightarrow> connection" where
  "handle_ws_ping n hdr c =
     (case (if 0 < n then take_ws_payload n hdr (cn_in_buf c) else ([], cn_in_buf c)) of
        (ping_data, buf) \<Rightarrow> \<lparr>cn_session = queue_ws_pong ping_data (cn_session c), cn_in_buf = buf\<rparr>)"

text \<open>The fast path once the mask key is known: consume the header and the flag byte.\<close>

definition ws_fast_dispatch ::
  "crypto \<Rightarrow> nat \<Rightarrow> bool \<Rightarrow> bytes \<Rightarrow> nat \<Rightarrow> nat \<Rightarrow> connection \<Rightarrow> connection \<times> bool option result" where
  "ws_fast_dispatch C now masked key header_len n c =
     (case read_into 1 (cb_advance header_len (cn_in_buf c)) of (fl, buf) \<Rightarrow>
        let s = cn_session c;
            zws_flag = (if masked then fl ! 0 XOR key ! 0 else fl ! 0)
        in if zws_flag \<noteq> ZWS_FLAG_FINAL then
             (case zws_to_flags zws_flag of
                Inl e \<Rightarrow> (\<lparr>cn_session = s, cn_in_buf = buf\<rparr>, Err e)
              | Inr flags \<Rightarrow>
                  (case (if 0 < n then split_to n buf else (payload_new, buf)) of (p, buf) \<Rightarrow>
                     let p = (if 0 < n \<and> masked
                              then payload_from_bytes (apply_mask_offset (payload_as_bytes p) key 1) else p)
                     in case dispatch_ws_binary C now flags p s of
                          (s, r) \<Rightarrow> (\<lparr>cn_session = s, cn_in_buf = buf\<rparr>, rbind r (\<lambda>_. Ok (Some True)))))
           else
             (case (if 0 < n then read_into n buf else ([], buf)) of (bs, buf) \<Rightarrow>
                let bs = (if masked \<and> 0 < n then apply_mask_offset bs key 1 else bs);
                    msg = Inline (of_nat n) (bs @ replicate (MAX_INLINE_MESSAGE - n) 0)
                in (\<lparr>cn_session = s\<lparr>ss_messages := ss_messages s @ [msg]\<rparr>, cn_in_buf = buf\<rparr>,
                    Ok (Some True))))"

definition try_advance_ready_ws ::
  "crypto \<Rightarrow> nat \<Rightarrow> ws_role \<Rightarrow> connection \<Rightarrow> connection \<times> bool option result" where
  "try_advance_ready_ws C now peer_role c =
     (case peek_array 2 (cn_in_buf c) of
        None \<Rightarrow> (c, Ok (Some False))
      | Some first_two \<Rightarrow>
          let masked = (peer_role = WsClient); b1 = first_two ! 1;
              ws_payload_len = unat (b1 AND 0x7F)
          in if first_two ! 0 \<noteq> 0x80 OR 0x02 then (c, Ok None)
             else if masked \<noteq> (b1 AND 0x80 \<noteq> 0) then (c, Ok None)
             else if 126 \<le> ws_payload_len then (c, Ok None)
             else if ws_payload_len = 0 \<or> MAX_INLINE_MESSAGE < ws_payload_len - 1 then (c, Ok None)
             else
               let header_len = (if masked then 6 else 2)
               in if cb_len (cn_in_buf c) < header_len + ws_payload_len then (c, Ok (Some False))
                  else case (if masked
                             then map_option (\<lambda>hdr. take 4 (drop 2 hdr)) (peek_array 6 (cn_in_buf c))
                             else Some [0, 0, 0, 0]) of
                         None \<Rightarrow> (c, Ok (Some False))
                       | Some key \<Rightarrow>
                           (case over_limit (cn_session c) (ws_payload_len - 1) of
                              Some e \<Rightarrow> (c, Err e)
                            | None \<Rightarrow>
                                ws_fast_dispatch C now masked key header_len (ws_payload_len - 1) c))"

definition peer_ws_role :: "ws_role \<Rightarrow> ws_role" where
  "peer_ws_role rl = (case rl of WsClient \<Rightarrow> WsServer | WsServer \<Rightarrow> WsClient)"

text \<open>The match on the opcode at the end of a round; a close frame ends the loop.\<close>

definition ws_opcode_dispatch ::
  "crypto \<Rightarrow> nat \<Rightarrow> nat \<Rightarrow> ws_frame_header \<Rightarrow> connection \<Rightarrow> connection \<times> bool result" where
  "ws_opcode_dispatch C now n hdr c =
     (if wh_opcode hdr = OP_BINARY \<or> wh_opcode hdr = OP_CONTINUATION then
        (case handle_ws_data_frame C now n hdr c of (c, r) \<Rightarrow> (c, rbind r (\<lambda>_. Ok True)))
      else if wh_opcode hdr = OP_CLOSE then
        (case handle_ws_close n hdr c of (c, r) \<Rightarrow> (c, rbind r (\<lambda>_. Ok False)))
      else if wh_opcode hdr = OP_PING then (handle_ws_ping n hdr c, Ok True)
      else if wh_opcode hdr = OP_PONG then (c\<lparr>cn_in_buf := cb_advance n (cn_in_buf c)\<rparr>, Ok True)
      else (c, Err (Panic ''peek_ws_header rejects unknown opcodes'')))"

definition ws_slow :: "crypto \<Rightarrow> nat \<Rightarrow> ws_role \<Rightarrow> connection \<Rightarrow> connection \<times> bool result" where
  "ws_slow C now peer_role c =
     (case peek_ws_header (cn_in_buf c) peer_role of
        Inl e \<Rightarrow> (c, Err e)
      | Inr None \<Rightarrow> (c, Ok False)
      | Inr (Some hdr) \<Rightarrow>
          let n = wh_payload_len hdr
          in if usize_max < n then (c, Err (Protocol ''WS payload length {} exceeds platform usize''))
             else if isize_max < n
             then (c, Err (Protocol ''WS payload length {payload_len} exceeds maximum allocation''))
             else case checked_add (wh_header_len hdr) n of
                    None \<Rightarrow> (c, Err (Protocol ''WS frame size overflow''))
                  | Some total_frame \<Rightarrow>
                      if (case ws_payload_cap (cn_session c) of Some cap \<Rightarrow> cap < n | None \<Rightarrow> False)
                      then (c, Err (Protocol ''WS frame too large: {payload_len} bytes (max {cap})''))
                      else if cb_len (cn_in_buf c) < total_frame then (c, Ok False)
                      else ws_opcode_dispatch C now n hdr
                             (c\<lparr>cn_in_buf := cb_advance (wh_header_len hdr) (cn_in_buf c)\<rparr>))"

definition ws_step :: "crypto \<Rightarrow> nat \<Rightarrow> ws_role \<Rightarrow> connection \<Rightarrow> connection \<times> bool result" where
  "ws_step C now peer_role c =
     (let s = cn_session c
      in if ss_state s = StClosed then (c, Ok False)
         else if ss_state s = StReady \<and> \<not> has_frame_transform s \<and> ss_pending_parts s = [] then
           (case try_advance_ready_ws C now peer_role c of
              (c, Inl e) \<Rightarrow> (c, Err e)
            | (c, Inr (Some b)) \<Rightarrow> (c, Ok b)
            | (c, Inr None) \<Rightarrow> ws_slow C now peer_role c)
         else ws_slow C now peer_role c)"

definition drive_ws :: "crypto \<Rightarrow> nat \<Rightarrow> ws_role \<Rightarrow> connection \<Rightarrow> connection \<times> unit result" where
  "drive_ws C now rl c = drive_with (ws_step C now (peer_ws_role rl)) c"

section \<open>Input and the supplied payload\<close>

definition drive :: "crypto \<Rightarrow> nat \<Rightarrow> connection \<Rightarrow> connection \<times> unit result" where
  "drive C now c =
     (case ss_ws_role (cn_session c) of
        Some rl \<Rightarrow> drive_ws C now rl c
      | None \<Rightarrow> drive_zmtp C now c)"

definition handle_input :: "crypto \<Rightarrow> nat \<Rightarrow> bytes \<Rightarrow> connection \<Rightarrow> connection \<times> unit result" where
  "handle_input C now src c =
     (case ss_state (cn_session c) of
        StClosed \<Rightarrow> (c, Err Closed)
      | AwaitingSuppliedPayload _ _ \<Rightarrow>
          (c, Err (Protocol ''handle_input while awaiting supplied payload''))
      | _ \<Rightarrow>
          if src = [] then (c, Ok ())
          else drive C now (c\<lparr>cn_in_buf := cb_push (cn_in_buf c) src\<rparr>))"

definition poll_event :: "session \<Rightarrow> session \<times> event option" where
  "poll_event s =
     (case ss_events s of [] \<Rightarrow> (s, None) | e # es \<Rightarrow> (s\<lparr>ss_events := es\<rparr>, Some e))"

definition poll_message :: "session \<Rightarrow> session \<times> message option" where
  "poll_message s =
     (case ss_messages s of [] \<Rightarrow> (s, None) | m # ms \<Rightarrow> (s\<lparr>ss_messages := ms\<rparr>, Some m))"

definition swap_messages :: "message list \<Rightarrow> session \<Rightarrow> session \<times> message list" where
  "swap_messages dest s = (s\<lparr>ss_messages := dest\<rparr>, ss_messages s)"

record next_frame_info =
  nf_flags :: frame_flags
  nf_header_len :: nat
  nf_payload_len :: nat
  nf_buffered_payload_prefix :: nat

definition peek_next_frame_payload_size :: "connection \<Rightarrow> next_frame_info option result" where
  "peek_next_frame_payload_size c =
     (let s = cn_session c
      in if ss_state s \<noteq> StReady \<or> ss_ws_role s \<noteq> None then Ok None
         else rbind (peek_frame_header (cn_in_buf c)) (\<lambda>ho.
           case ho of
             None \<Rightarrow> Ok None
           | Some hdr \<Rightarrow>
               (case over_limit s (ph_payload_len hdr) of
                  Some e \<Rightarrow> Err e
                | None \<Rightarrow>
                    Ok (Some \<lparr>nf_flags = ph_flags hdr, nf_header_len = ph_header_len hdr,
                              nf_payload_len = ph_payload_len hdr,
                              nf_buffered_payload_prefix =
                                min (cb_len (cn_in_buf c) - ph_header_len hdr) (ph_payload_len hdr)\<rparr>))))"

text \<open>The header both ways of taking over a payload start from.\<close>

definition suppliable_header :: "connection \<Rightarrow> peeked_frame_header option" where
  "suppliable_header c =
     (let s = cn_session c
      in if ss_state s \<noteq> StReady \<or> ss_ws_role s \<noteq> None then None
         else case peek_frame_header (cn_in_buf c) of
                Inr (Some hdr) \<Rightarrow> if over_limit s (ph_payload_len hdr) \<noteq> None then None else Some hdr
              | _ \<Rightarrow> None)"

definition await_payload :: "peeked_frame_header \<Rightarrow> chunked_buf \<Rightarrow> connection \<Rightarrow> connection" where
  "await_payload hdr buf c =
     c\<lparr>cn_in_buf := buf,
       cn_session := (cn_session c)\<lparr>ss_state :=
         AwaitingSuppliedPayload (ph_flags hdr) (ph_payload_len hdr)\<rparr>\<rparr>"

definition begin_supplied_payload :: "connection \<Rightarrow> connection \<times> nat option" where
  "begin_supplied_payload c =
     (case suppliable_header c of
        None \<Rightarrow> (c, None)
      | Some hdr \<Rightarrow>
          if cb_len (cn_in_buf c) \<noteq> ph_header_len hdr then (c, None)
          else (await_payload hdr (cb_advance (ph_header_len hdr) (cn_in_buf c)) c,
                Some (ph_payload_len hdr)))"

definition begin_supplied_payload_with_prefix :: "connection \<Rightarrow> connection \<times> (nat \<times> payload) option" where
  "begin_supplied_payload_with_prefix c =
     (case suppliable_header c of
        None \<Rightarrow> (c, None)
      | Some hdr \<Rightarrow>
          if cb_len (cn_in_buf c) < ph_header_len hdr then (c, None)
          else let buf = cb_advance (ph_header_len hdr) (cn_in_buf c);
                   prefix_len = min (cb_len buf) (ph_payload_len hdr)
            in case (if 0 < prefix_len then split_to prefix_len buf else (payload_new, buf)) of
                 (pre, buf) \<Rightarrow> (await_payload hdr buf c, Some (ph_payload_len hdr, pre)))"

definition supply_payload :: "crypto \<Rightarrow> nat \<Rightarrow> bytes \<Rightarrow> connection \<Rightarrow> connection \<times> unit result" where
  "supply_payload C now data c =
     (case ss_state (cn_session c) of
        AwaitingSuppliedPayload flags expected_len \<Rightarrow>
          if length data \<noteq> expected_len
          then (c, Err (Protocol ''supplied payload length {} != expected {}''))
          else (case decode_assembled_frame C flags (payload_from_bytes data)
                       ((cn_session c)\<lparr>ss_state := StReady\<rparr>) of
                  (s, Inl e) \<Rightarrow> (c\<lparr>cn_session := s\<rparr>, Err e)
                | (s, Inr _) \<Rightarrow> drive C now (c\<lparr>cn_session := s\<rparr>))
      | StClosed \<Rightarrow> (c, Err Closed)
      | _ \<Rightarrow> (c, Err (Protocol ''supply_payload outside AwaitingSuppliedPayload'')))"

end
