(* ===== verification/Connection_Spec.thy ===== *)
theory Connection_Spec
  imports Connection_In Stream_Decode
begin

text \<open>
  The specification of the inbound half: a machine that reads wire units off
  a flat byte stream and applies each to the session.  \<open>zmtp_dec\<close>/\<open>zmtp_apply\<close> is the
  byte-stream framing; the WebSocket framing is in \<open>Connection_Ws\<close>.  The locale
  \<open>driver\<close> states when one round of a drive loop over the chunked buffer
  implements one step of such a machine, and derives that the loop stops
  within its fuel and computes the machine's run; both drivers are its
  interpretations.  The fast path of the source, which reads a small frame
  straight into an inline message, is the general path on those frames.
\<close>

section \<open>Drivers\<close>

definition session_inv :: "session \<Rightarrow> bool" where
  "session_inv s \<longleftrightarrow> (ss_pending_parts s = [] \<longrightarrow> ss_pending_size s = 0)"

text \<open>
  One round of a loop against one step of the machine: an error leaves the
  session alone, a wait leaves everything alone, and a unit is consumed from the
  buffer and applied; the loop may stop after a unit only where the machine
  would wait.
\<close>

definition round_ok ::
  "(session \<Rightarrow> bytes \<Rightarrow> ('u \<times> nat) option result) \<Rightarrow> ('u \<Rightarrow> session \<Rightarrow> session \<times> unit result)
    \<Rightarrow> session \<Rightarrow> chunked_buf \<Rightarrow> connection \<times> bool result \<Rightarrow> bool" where
  "round_ok dec app s b out \<longleftrightarrow>
     (case dec s (cb_flat b) of
        Inl e \<Rightarrow> \<exists>b'. out = (\<lparr>cn_session = s, cn_in_buf = b'\<rparr>, Err e)
      | Inr None \<Rightarrow> out = (\<lparr>cn_session = s, cn_in_buf = b\<rparr>, Ok False)
      | Inr (Some (u, k)) \<Rightarrow>
          \<exists>b' more. out = (\<lparr>cn_session = fst (app u s), cn_in_buf = b'\<rparr>, rbind (snd (app u s)) (\<lambda>_. Ok more))
            \<and> (snd (app u s) = Ok () \<longrightarrow> cb_wf b' \<and> cb_flat b' = drop k (cb_flat b)
                  \<and> (more \<or> dec (fst (app u s)) (cb_flat b') = Ok None)))"

lemma round_unit:
  assumes "dec s (cb_flat b) = Ok (Some (u, k))" "cb_wf b'" "cb_flat b' = drop k (cb_flat b)"
    and "out = progress_with b' (app u s)"
  shows "round_ok dec app s b out"
  using assms by (auto simp: round_ok_def progress_with_def split: prod.splits)

locale driver = stream_machine dec app
  for dec :: "session \<Rightarrow> bytes \<Rightarrow> ('u \<times> nat) option result"
    and app :: "'u \<Rightarrow> session \<Rightarrow> session \<times> unit result" +
  fixes step :: "connection \<Rightarrow> connection \<times> bool result"
  assumes round: "session_inv s \<Longrightarrow> cb_wf b \<Longrightarrow> round_ok dec app s b (step \<lparr>cn_session = s, cn_in_buf = b\<rparr>)"
    and keeps: "session_inv s \<Longrightarrow> app u s = (s', Ok ()) \<Longrightarrow> session_inv s'"
begin

lemma loop_run:
  assumes "session_inv s" "cb_wf b" "length (cb_flat b) < fuel"
  shows "\<exists>b' s' res rest.
    drive_loop step fuel \<lparr>cn_session = s, cn_in_buf = b\<rparr> = Some (\<lparr>cn_session = s', cn_in_buf = b'\<rparr>, res)
    \<and> run_machine dec app s (cb_flat b) = (s', res, rest)
    \<and> (res = Ok () \<longrightarrow> session_inv s' \<and> cb_wf b' \<and> cb_flat b' = rest)"
  using assms
proof (induction fuel arbitrary: s b)
  case 0
  then show ?case by simp
next
  case (Suc fuel)
  note round = round [OF Suc.prems(1,2), unfolded round_ok_def]
  show ?case
  proof (cases s "cb_flat b" rule: unit_cases)
    case (err e)
    with round show ?thesis by (auto simp: run_error)
  next
    case wait
    with round Suc.prems show ?thesis by (simp add: run_wait)
  next
    case (one u k)
    obtain s' res where a: "app u s = (s', res)" by (metis surj_pair)
    with round one(1) obtain b' more where
      st: "step \<lparr>cn_session = s, cn_in_buf = b\<rparr> = (\<lparr>cn_session = s', cn_in_buf = b'\<rparr>, rbind res (\<lambda>_. Ok more))"
        "res = Ok () \<Longrightarrow> cb_wf b' \<and> cb_flat b' = drop k (cb_flat b) \<and> (more \<or> dec s' (cb_flat b') = Ok None)"
      by auto
    show ?thesis
    proof (cases res)
      case (Inl e)
      with st(1) a show ?thesis by (simp add: run_unit [OF one(1)])
    next
      case (Inr x)
      with a st(2) have a': "app u s = (s', Ok ())"
        and b': "cb_wf b'" "cb_flat b' = drop k (cb_flat b)" "more \<or> dec s' (cb_flat b') = Ok None"
        by auto
      have inv: "session_inv s'" by (rule keeps [OF Suc.prems(1) a'])
      have run: "run_machine dec app s (cb_flat b) = run_machine dec app s' (cb_flat b')"
        using a' b'(2) by (simp add: run_unit [OF one(1)])
      show ?thesis
      proof (cases more)
        case True
        have "length (cb_flat b') < fuel" using b'(2) one(4) Suc.prems(3) by simp
        from Suc.IH [OF inv b'(1) this] st(1) Inr True show ?thesis unfolding run by simp
      next
        case False
        with st(1) b' inv Inr show ?thesis unfolding run by (simp add: run_wait)
      qed
    qed
  qed
qed

lemma drive_run:
  assumes "session_inv s" "cb_wf b"
  shows "\<exists>b' s' res rest.
    drive_with step \<lparr>cn_session = s, cn_in_buf = b\<rparr> = (\<lparr>cn_session = s', cn_in_buf = b'\<rparr>, res)
    \<and> run_machine dec app s (cb_flat b) = (s', res, rest)
    \<and> (res = Ok () \<longrightarrow> session_inv s' \<and> cb_wf b' \<and> cb_flat b' = rest)"
  using loop_run [OF assms, of "Suc (cb_len b)"] cb_len_flat [OF assms(2)]
  by (auto simp: drive_with_def)

end

section \<open>The byte-stream machine\<close>

datatype zmtp_unit = U_Greeting greeting bytes | U_Frame frame_flags bytes

definition bounded_frame_dec ::
  "(nat \<Rightarrow> error option) \<Rightarrow> bytes \<Rightarrow> (zmtp_unit \<times> nat) option result" where
  "bounded_frame_dec bad xs =
     (case frame_hdr xs of
        Inl e \<Rightarrow> Err e
      | Inr None \<Rightarrow> Ok None
      | Inr (Some h) \<Rightarrow>
          (case bad (ph_payload_len h) of
             Some e \<Rightarrow> Err e
           | None \<Rightarrow> rbind (frame_dec xs) (\<lambda>r. Ok (map_option (\<lambda>((fl, body), k). (U_Frame fl body, k)) r))))"

definition handshake_limit :: "nat \<Rightarrow> error option" where
  "handshake_limit n =
     (if MAX_HANDSHAKE_COMMAND < n
      then Some (HandshakeFailed
             ''handshake command frame too large: {} bytes (max {MAX_HANDSHAKE_COMMAND})'')
      else None)"

definition zmtp_dec :: "session \<Rightarrow> bytes \<Rightarrow> (zmtp_unit \<times> nat) option result" where
  "zmtp_dec s xs =
     (case ss_state s of
        AwaitingGreeting \<Rightarrow>
          rbind (greeting_dec xs) (\<lambda>r. Ok (map_option (\<lambda>((g, raw), k). (U_Greeting g raw, k)) r))
      | MechanismHandshake \<Rightarrow> bounded_frame_dec handshake_limit xs
      | StReady \<Rightarrow> bounded_frame_dec (over_limit s) xs
      | _ \<Rightarrow> Ok None)"

fun zmtp_apply :: "crypto \<Rightarrow> nat \<Rightarrow> zmtp_unit \<Rightarrow> session \<Rightarrow> session \<times> unit result" where
  "zmtp_apply C now (U_Greeting g raw) s = accept_greeting C g raw s"
| "zmtp_apply C now (U_Frame fl body) s =
     (if ss_state s = MechanismHandshake then mechanism_frame C now fl body s
      else decode_assembled_frame C fl (payload_from_slice body) s)"

lemma bounded_frame_dec_stream: "stream_decoder (bounded_frame_dec bad)"
proof
  fix xs ys and v :: zmtp_unit and k e
  have hdr: "frame_hdr (xs @ ys) = frame_hdr xs" if "frame_hdr xs \<noteq> Ok None"
    using that frame_hdr_stable [of xs _ ys] by (cases "frame_hdr xs") (auto split: option.splits)
  show "bounded_frame_dec bad xs = Ok (Some (v, k)) \<Longrightarrow> bounded_frame_dec bad (xs @ ys) = Ok (Some (v, k))"
    using hdr
    by (auto simp: bounded_frame_dec_def rbind_Ok_iff split: sum.splits option.splits
      dest: frame_stream.unit_stable)
  show "bounded_frame_dec bad xs = Err e \<Longrightarrow> bounded_frame_dec bad (xs @ ys) = Err e"
    using hdr
    by (auto simp: bounded_frame_dec_def rbind_Err_iff split: sum.splits option.splits
      dest: frame_stream.error_stable)
  show "bounded_frame_dec bad xs = Ok (Some (v, k)) \<Longrightarrow> 0 < k \<and> k \<le> length xs"
    by (auto simp: bounded_frame_dec_def rbind_Ok_iff split: sum.splits option.splits
      dest: frame_stream.progress)
qed

lemma zmtp_dec_stream: "stream_decoder (zmtp_dec s)"
proof (cases "ss_state s")
  case AwaitingGreeting
  then have "zmtp_dec s = (\<lambda>xs. rbind (greeting_dec xs) (\<lambda>r. Ok (map_option (\<lambda>((g, raw), k). (U_Greeting g raw, k)) r)))"
    by (auto simp: zmtp_dec_def)
  then show ?thesis
    by unfold_locales
      (auto simp: rbind_Ok_iff rbind_Err_iff dest: greeting_stream.unit_stable greeting_stream.error_stable
        greeting_stream.progress)
next
  case MechanismHandshake
  then have "zmtp_dec s = bounded_frame_dec handshake_limit" by (auto simp: zmtp_dec_def)
  then show ?thesis by (simp add: bounded_frame_dec_stream)
next
  case StReady
  then have "zmtp_dec s = bounded_frame_dec (over_limit s)" by (auto simp: zmtp_dec_def)
  then show ?thesis by (simp add: bounded_frame_dec_stream)
qed (unfold_locales, simp_all add: zmtp_dec_def)

subsection \<open>Dispatch keeps the invariant\<close>

lemma session_inv_same:
  "session_inv s \<Longrightarrow> ss_pending_parts s' = ss_pending_parts s \<Longrightarrow> ss_pending_size s' = ss_pending_size s
    \<Longrightarrow> session_inv s'"
  by (simp add: session_inv_def)

lemma write_outbound_inv:
  "write_outbound_commands C cmds s = (s', r) \<Longrightarrow> session_inv s \<Longrightarrow> session_inv s'"
  using outbound_only_fields [OF write_outbound_commands_outbound [of s C cmds]]
  by (simp add: session_inv_def)

lemma absorb_inv: "absorb_data_frame mor p s = (s', Ok x) \<Longrightarrow> session_inv s'"
  by (auto simp: absorb_data_frame_def absorb_part_def session_inv_def Let_def
    split: option.splits if_splits)

lemma drop_flag_Ok: "drop_flag r = (s', Ok ()) \<Longrightarrow> \<exists>x. r = (s', Ok x)"
  by (auto simp: drop_flag_def split: prod.splits sum.splits)

lemma post_handshake_inv:
  "session_inv s \<Longrightarrow> handle_post_handshake_command C cmd s = (s', r) \<Longrightarrow> session_inv s'"
  by (auto simp: handle_post_handshake_command_def session_inv_def
    split: command.splits dest: write_outbound_inv simp del: write_outbound_commands.simps)

lemma decode_assembled_inv:
  assumes "session_inv s" "decode_assembled_frame C fl p s = (s', Ok ())"
  shows "session_inv s'"
proof -
  have [simp]: "session_inv (s\<lparr>ss_transform := t\<rparr>)" for t
    using assms(1) by (simp add: session_inv_def)
  show ?thesis
    using assms
    by (auto simp: decode_assembled_frame_def dispatch_decrypted_def Let_def
      split: option.splits if_splits prod.splits sum.splits
      dest!: drop_flag_Ok dest: absorb_inv post_handshake_inv [rotated])
qed

lemma complete_handshake_inv:
  "session_inv s \<Longrightarrow> complete_handshake props s = (s', r) \<Longrightarrow> session_inv s'"
  by (auto simp: complete_handshake_def session_inv_def split: option.splits if_splits sum.splits)

lemma mechanism_frame_inv:
  assumes "session_inv s" "mechanism_frame C now fl body s = (s', Ok ())"
  shows "session_inv s'"
proof -
  have "session_inv (s\<lparr>ss_rng := r, ss_mechanism := m\<rparr>)" for r m
    using assms(1) by (simp add: session_inv_def)
  then show ?thesis
    using assms
    by (auto simp: mechanism_frame_def process_mechanism_command_def Let_def
      split: if_splits sum.splits prod.splits mechanism_step.splits
      dest: write_outbound_inv complete_handshake_inv)
qed

lemma accept_greeting_inv:
  assumes "session_inv s" "accept_greeting C g raw s = (s', Ok ())"
  shows "session_inv s'"
proof -
  have "session_inv (s\<lparr>ss_peer_minor := a, ss_peer_greeting := b, ss_state := c, ss_mechanism := d\<rparr>)" for a b c d
    using assms(1) by (simp add: session_inv_def)
  then show ?thesis
    using assms
    by (auto simp: accept_greeting_def start_handshake_def Let_def
      split: if_splits sum.splits prod.splits dest: write_outbound_inv)
qed

lemma zmtp_apply_inv: "session_inv s \<Longrightarrow> zmtp_apply C now u s = (s', Ok ()) \<Longrightarrow> session_inv s'"
  by (cases u) (auto split: if_splits
    dest: accept_greeting_inv mechanism_frame_inv decode_assembled_inv)

subsection \<open>The drive loop implements the machine\<close>

lemma greeting_round:
  assumes wf: "cb_wf b" and st: "ss_state s = AwaitingGreeting"
  shows "round_ok zmtp_dec (zmtp_apply C now) s b (try_advance_greeting C \<lparr>cn_session = s, cn_in_buf = b\<rparr>)"
proof -
  note ref = greeting_try_decode_refines [OF wf]
  consider (err) e where "greeting_dec (cb_flat b) = Err e" | (wait) "greeting_dec (cb_flat b) = Ok None"
    | (one) g raw k where "greeting_dec (cb_flat b) = Ok (Some ((g, raw), k))"
    by (metis option.exhaust sum.exhaust surj_pair)
  then show ?thesis
  proof cases
    case err
    obtain b' r where "greeting_try_decode b = (b', r)" by (metis surj_pair)
    with err ref st show ?thesis by (simp add: round_ok_def zmtp_dec_def try_advance_greeting_def)
  next
    case wait
    with ref st show ?thesis by (simp add: round_ok_def zmtp_dec_def try_advance_greeting_def)
  next
    case one
    with ref obtain b' where b': "greeting_try_decode b = (b', Ok (Some (g, raw)))"
      "cb_flat b' = drop k (cb_flat b)" "cb_wf b'" by auto
    show ?thesis
      by (rule round_unit [where u = "U_Greeting g raw" and k = k and b' = b'])
        (use one st b' in \<open>simp_all add: zmtp_dec_def try_advance_greeting_def\<close>)
  qed
qed

text \<open>
  What the frame readers of the handshake and of the data phase share: with the
  limit checked on the header, \<^verbatim>\<open>try_decode_frame\<close> reads the unit.
\<close>

lemma bounded_frame_cases:
  assumes wf: "cb_wf b"
  obtains (hdr_err) e where "peek_frame_header b = Err e" "bounded_frame_dec bad (cb_flat b) = Err e"
  | (no_hdr) "peek_frame_header b = Ok None" "bounded_frame_dec bad (cb_flat b) = Ok None"
      "try_decode_frame b = (b, Ok None)"
  | (too_big) h e where "peek_frame_header b = Ok (Some h)" "bad (ph_payload_len h) = Some e"
      "bounded_frame_dec bad (cb_flat b) = Err e"
  | (partial) h where "peek_frame_header b = Ok (Some h)" "bad (ph_payload_len h) = None"
      "bounded_frame_dec bad (cb_flat b) = Ok None" "try_decode_frame b = (b, Ok None)"
      "length (cb_flat b) < ph_header_len h + ph_payload_len h"
  | (whole) h b' where "peek_frame_header b = Ok (Some h)" "bad (ph_payload_len h) = None"
      "ph_header_len h + ph_payload_len h \<le> length (cb_flat b)"
      "bounded_frame_dec bad (cb_flat b)
         = Ok (Some (U_Frame (ph_flags h) (take (ph_payload_len h) (drop (ph_header_len h) (cb_flat b))),
                     ph_header_len h + ph_payload_len h))"
      "try_decode_frame b = (b', Ok (Some \<lparr>fr_flags = ph_flags h,
         fr_payload = payload_from_slice (take (ph_payload_len h) (drop (ph_header_len h) (cb_flat b)))\<rparr>))"
      "cb_flat b' = drop (ph_header_len h + ph_payload_len h) (cb_flat b)" "cb_wf b'"
proof -
  note peek = peek_frame_header_flat [OF wf] and ref = try_decode_frame_refines [OF wf]
  consider (a) e where "frame_hdr (cb_flat b) = Err e" | (b) "frame_hdr (cb_flat b) = Ok None"
    | (c) h where "frame_hdr (cb_flat b) = Ok (Some h)"
    by (metis option.exhaust sum.exhaust)
  then show thesis
  proof cases
    case a
    then show thesis by (intro hdr_err) (simp_all add: peek bounded_frame_dec_def)
  next
    case b
    then show thesis
      using ref by (intro no_hdr) (simp_all add: peek bounded_frame_dec_def frame_dec_def)
  next
    case c
    let ?body = "take (ph_payload_len h) (drop (ph_header_len h) (cb_flat b))"
    consider (big) e where "bad (ph_payload_len h) = Some e" | (part) "bad (ph_payload_len h) = None"
        "length (cb_flat b) < ph_header_len h + ph_payload_len h"
      | (full) "bad (ph_payload_len h) = None" "ph_header_len h + ph_payload_len h \<le> length (cb_flat b)"
      by (meson not_le option.exhaust)
    then show thesis
    proof cases
      case big
      with c show thesis by (intro too_big) (simp_all add: peek bounded_frame_dec_def)
    next
      case part
      with c ref show thesis by (intro partial) (simp_all add: peek bounded_frame_dec_def frame_dec_def)
    next
      case full
      then have dec: "frame_dec (cb_flat b) = Ok (Some ((ph_flags h, ?body), ph_header_len h + ph_payload_len h))"
        using c by (simp add: frame_dec_def)
      from try_decode_frame_exact [OF wf dec] obtain b' where
        "try_decode_frame b = (b', Ok (Some \<lparr>fr_flags = ph_flags h, fr_payload = payload_from_slice ?body\<rparr>))"
        "cb_flat b' = drop (ph_header_len h + ph_payload_len h) (cb_flat b)" "cb_wf b'" .
      with c full dec show thesis by (intro whole) (simp_all add: peek bounded_frame_dec_def)
    qed
  qed
qed

lemma mechanism_round:
  assumes wf: "cb_wf b" and st: "ss_state s = MechanismHandshake"
  shows "round_ok zmtp_dec (zmtp_apply C now) s b (try_advance_mechanism C now \<lparr>cn_session = s, cn_in_buf = b\<rparr>)"
proof -
  have dec: "zmtp_dec s = bounded_frame_dec handshake_limit" using st by (auto simp: zmtp_dec_def)
  from wf show ?thesis
  proof (cases rule: bounded_frame_cases [where bad = handshake_limit])
    case (whole h b')
    let ?body = "take (ph_payload_len h) (drop (ph_header_len h) (cb_flat b))"
    have "\<not> MAX_HANDSHAKE_COMMAND < ph_payload_len h"
      using whole(2) by (simp add: handshake_limit_def split: if_splits)
    then show ?thesis
      using whole st
      by (intro round_unit [where u = "U_Frame (ph_flags h) ?body" and b' = b'])
        (simp_all add: dec try_advance_mechanism_def view_simps)
  qed (simp_all add: round_ok_def dec try_advance_mechanism_def handshake_limit_def split: if_splits)
qed

lemma ready_slow_round:
  assumes wf: "cb_wf b" and st: "ss_state s = StReady"
  shows "round_ok zmtp_dec (zmtp_apply C now) s b (ready_slow C \<lparr>cn_session = s, cn_in_buf = b\<rparr>)"
proof -
  have dec: "zmtp_dec s = bounded_frame_dec (over_limit s)" using st by (auto simp: zmtp_dec_def)
  have unlimited: "cfg_max_message_size (ss_config s) = None \<Longrightarrow> over_limit s n = None" for n
    by (simp add: over_limit_def)
  from wf show ?thesis
  proof (cases rule: bounded_frame_cases [where bad = "over_limit s"])
    case (hdr_err e)
    then have "try_decode_frame b = (b, Err e)"
      by (simp add: try_decode_frame_def)
    with hdr_err show ?thesis by (simp add: round_ok_def dec ready_slow_def)
  next
    case (whole h b')
    let ?body = "take (ph_payload_len h) (drop (ph_header_len h) (cb_flat b))"
    show ?thesis
      using whole st
      by (intro round_unit [where u = "U_Frame (ph_flags h) ?body" and b' = b'])
        (simp_all add: dec ready_slow_def)
  qed (auto simp: round_ok_def dec ready_slow_def unlimited)
qed

text \<open>The fast path: a small single-part data frame goes straight into an inline message.\<close>

lemma absorb_small:
  assumes "session_inv s" "ss_pending_parts s = []" "over_limit s (length body) = None"
    and "length body \<le> MAX_INLINE_MESSAGE"
  shows "absorb_data_frame False (payload_from_slice body) s
    = (s\<lparr>ss_messages := ss_messages s @ [from_inline body]\<rparr>, Ok True)"
proof -
  have size: "ss_pending_size s = 0" using assms(1,2) by (simp add: session_inv_def)
  have len: "payload_len (payload_from_slice body) = length body"
    by (simp add: payload_len_slice view_simps wf_intros)
  have same: "s\<lparr>ss_pending_size := a, ss_pending_size := 0, ss_messages := m\<rparr> = s\<lparr>ss_messages := m\<rparr>" for a m
    using size by (cases s) simp
  show ?thesis
    using assms size
    by (auto simp: absorb_data_frame_def absorb_part_def Let_def len over_limit_def sat_add_def
      view_simps same split: option.splits if_splits)
qed

lemma inline_message_from_buf_flat:
  assumes "cb_wf b" "n \<le> length (cb_flat b)"
  obtains b' where "inline_message_from_buf n b = (from_inline (take n (cb_flat b)), b')"
    "cb_flat b' = drop n (cb_flat b)" "cb_wf b'"
proof -
  from read_into_refines [OF assms] obtain b' where
    "read_into n b = (take n (cb_flat b), b')" "cb_flat b' = drop n (cb_flat b)" "cb_wf b'"
    by (cases "read_into n b") simp
  then show ?thesis
    using assms(2) by (intro that [of b']) (simp_all add: inline_message_from_buf_def from_inline_def)
qed

lemma ready_round:
  assumes inv: "session_inv s" and wf: "cb_wf b" and st: "ss_state s = StReady"
  shows "round_ok zmtp_dec (zmtp_apply C now) s b (try_advance_ready C \<lparr>cn_session = s, cn_in_buf = b\<rparr>)"
proof -
  note slow = ready_slow_round [OF wf st, of C now]
  have dec: "zmtp_dec s = bounded_frame_dec (over_limit s)" using st by (auto simp: zmtp_dec_def)
  let ?c = "\<lparr>cn_session = s, cn_in_buf = b\<rparr>"
  show ?thesis
  proof (cases "has_frame_transform s \<or> ss_pending_parts s \<noteq> []")
    case True
    then have "try_advance_ready C ?c = ready_slow C ?c"
      by (auto simp: try_advance_ready_def)
    with slow show ?thesis by simp
  next
    case False
    from wf show ?thesis
    proof (cases rule: bounded_frame_cases [where bad = "over_limit s"])
      case (hdr_err e)
      with False show ?thesis by (simp add: round_ok_def dec try_advance_ready_def)
    next
      case no_hdr
      with False slow show ?thesis by (simp add: try_advance_ready_def)
    next
      case (too_big h e)
      with False slow show ?thesis by (simp add: try_advance_ready_def round_ok_def dec)
    next
      case (partial h)
      with False slow wf show ?thesis by (simp add: try_advance_ready_def ready_fast_def cb_len_flat)
    next
      case (whole h b')
      let ?body = "take (ph_payload_len h) (drop (ph_header_len h) (cb_flat b))"
      let ?a = "cb_advance (ph_header_len h) b"
      have blen: "length ?body = ph_payload_len h" using whole(3) by simp
      show ?thesis
      proof (cases "ready_fast ?c h")
        case False
        with whole \<open>\<not> (has_frame_transform s \<or> _)\<close> slow show ?thesis by (simp add: try_advance_ready_def)
      next
        case True
        have adv: "cb_flat ?a = drop (ph_header_len h) (cb_flat b)" "cb_wf ?a"
          using cb_advance_refines [OF wf, of "ph_header_len h"] whole(3) by simp_all
        have "ph_payload_len h \<le> length (cb_flat ?a)" using adv(1) whole(3) by simp
        from inline_message_from_buf_flat [OF adv(2) this] obtain b2 where
          b2: "inline_message_from_buf (ph_payload_len h) ?a = (from_inline ?body, b2)"
            "cb_flat b2 = drop (ph_payload_len h) (drop (ph_header_len h) (cb_flat b))" "cb_wf b2"
          unfolding adv(1) .
        have "zmtp_apply C now (U_Frame (ph_flags h) ?body) s
          = (s\<lparr>ss_messages := ss_messages s @ [from_inline ?body]\<rparr>, Ok ())"
          using absorb_small [OF inv, of ?body] True False whole(2) st blen
          by (simp add: ready_fast_def decode_assembled_frame_def has_frame_transform_def drop_flag_def)
        then show ?thesis
          using True False whole b2
          by (intro round_unit [where u = "U_Frame (ph_flags h) ?body" and b' = b2])
            (simp_all add: dec try_advance_ready_def progress_with_def add.commute)
      qed
    qed
  qed
qed

lemma zmtp_round:
  assumes "session_inv s" "cb_wf b"
  shows "round_ok zmtp_dec (zmtp_apply C now) s b (zmtp_step C now \<lparr>cn_session = s, cn_in_buf = b\<rparr>)"
  using assms greeting_round mechanism_round ready_round
  by (cases "ss_state s") (auto simp: zmtp_step_def round_ok_def zmtp_dec_def)

interpretation zmtp_driver: driver zmtp_dec "zmtp_apply C now" "zmtp_step C now" for C now
  by (intro driver.intro driver_axioms.intro stream_machine.intro zmtp_dec_stream)
    (auto simp: zmtp_round intro: zmtp_apply_inv)

end
