(* ===== verification/Connection_Ws.thy ===== *)
theory Connection_Ws
  imports Connection_Spec
begin

text \<open>
  The WebSocket side of a connection: the machine \<open>ws_dec\<close>/\<open>ws_apply\<close> on the flat byte
  stream, and that the loop of \<^verbatim>\<open>drive_ws\<close> implements it.  The unit of the machine is one
  WebSocket frame; a small final binary frame in the data phase is a unit of its
  own, because the source then takes a path that does not look at a fragment
  in progress.
\<close>

section \<open>The machine\<close>

datatype ws_unit = W_Fast bool u8 bytes | W_Frame ws_frame_header bytes

definition ws_unmask :: "ws_frame_header \<Rightarrow> bytes \<Rightarrow> bytes" where
  "ws_unmask h raw = (if wh_masked h then apply_mask raw (wh_mask_key h) else raw)"

definition fast_state :: "session \<Rightarrow> bool" where
  "fast_state s \<longleftrightarrow> ss_state s = StReady \<and> \<not> has_frame_transform s \<and> ss_pending_parts s = []"

definition fast_frame :: "ws_role \<Rightarrow> bytes \<Rightarrow> bool" where
  "fast_frame peer xs \<longleftrightarrow>
     xs ! 0 = 0x80 OR 0x02 \<and> (peer = WsClient) = (xs ! 1 AND 0x80 \<noteq> 0)
     \<and> 0 < unat (xs ! 1 AND 0x7F) \<and> unat (xs ! 1 AND 0x7F) - 1 \<le> MAX_INLINE_MESSAGE"

definition fast_header_len :: "ws_role \<Rightarrow> nat" where
  "fast_header_len peer = (if peer = WsClient then 6 else 2)"

definition ws_fast_unit :: "ws_role \<Rightarrow> nat \<Rightarrow> bytes \<Rightarrow> ws_unit" where
  "ws_fast_unit peer n xs =
     (let hl = fast_header_len peer; key = take 4 (drop 2 xs);
          fl = xs ! hl; body = take (n - 1) (drop (hl + 1) xs)
      in if peer = WsClient then W_Fast True (fl XOR key ! 0) (apply_mask_offset body key 1)
         else W_Fast False fl body)"

definition ws_fast_dec :: "ws_role \<Rightarrow> session \<Rightarrow> bytes \<Rightarrow> (ws_unit \<times> nat) option result" where
  "ws_fast_dec peer s xs =
     (let n = unat (xs ! 1 AND 0x7F); tot = fast_header_len peer + n
      in if length xs < tot then Ok None
         else case over_limit s (n - 1) of
                Some e \<Rightarrow> Err e
              | None \<Rightarrow> Ok (Some (ws_fast_unit peer n xs, tot)))"

definition ws_slow_dec :: "ws_role \<Rightarrow> session \<Rightarrow> bytes \<Rightarrow> (ws_unit \<times> nat) option result" where
  "ws_slow_dec peer s xs =
     (case ws_hdr peer xs of
        Inl e \<Rightarrow> Err e
      | Inr None \<Rightarrow> Ok None
      | Inr (Some h) \<Rightarrow>
          if (case ws_payload_cap s of Some cap \<Rightarrow> cap < wh_payload_len h | None \<Rightarrow> False)
          then Err (Protocol ''WS frame too large: {payload_len} bytes (max {cap})'')
          else if length xs < wh_header_len h + wh_payload_len h then Ok None
          else Ok (Some (W_Frame h (take (wh_payload_len h) (drop (wh_header_len h) xs)),
                         wh_header_len h + wh_payload_len h)))"

definition ws_dec :: "ws_role \<Rightarrow> session \<Rightarrow> bytes \<Rightarrow> (ws_unit \<times> nat) option result" where
  "ws_dec peer s xs =
     (if ss_state s = StClosed \<or> length xs < 2 then Ok None
      else if fast_state s \<and> fast_frame peer xs then ws_fast_dec peer s xs
      else ws_slow_dec peer s xs)"

fun ws_apply :: "crypto \<Rightarrow> nat \<Rightarrow> ws_unit \<Rightarrow> session \<Rightarrow> session \<times> unit result" where
  "ws_apply C now (W_Fast masked fl body) s =
     (if fl = ZWS_FLAG_FINAL then (s\<lparr>ss_messages := ss_messages s @ [from_inline body]\<rparr>, Ok ())
      else case zws_to_flags fl of
             Inl e \<Rightarrow> (s, Err e)
           | Inr flags \<Rightarrow>
               dispatch_ws_binary C now flags
                 (if masked then payload_from_bytes body else payload_from_slice body) s)"
| "ws_apply C now (W_Frame h raw) s =
     (if wh_opcode h = OP_BINARY \<or> wh_opcode h = OP_CONTINUATION
      then ws_data_payload C now (wh_opcode h) (wh_fin h) (ws_unmask h raw) s
      else if wh_opcode h = OP_CLOSE then
        (if raw = [] then ((if ss_ws_close_sent s then s else send_empty_ws_close s)\<lparr>ss_state := StClosed\<rparr>, Ok ())
         else ws_close_with h raw s)
      else if wh_opcode h = OP_PING then (queue_ws_pong (ws_unmask h raw) s, Ok ())
      else if wh_opcode h = OP_PONG then (s, Ok ())
      else (s, Err (Panic ''peek_ws_header rejects unknown opcodes'')))"

section \<open>Stability\<close>

lemma ws_hdr_bounds:
  assumes "ws_hdr peer xs = Ok (Some h)"
  shows "wh_payload_len h \<le> isize_max" "2 \<le> wh_header_len h" "wh_header_len h \<le> 14"
    "wh_header_len h \<le> length xs"
proof -
  have small: "unat (w :: u8) \<le> isize_max" for w
    using unat_u8_lt [of w] by (simp add: isize_max_def)
  have two: "be_val [a, b] \<le> isize_max" for a b
    using be_val_lt [of "[a, b]"] by (simp add: isize_max_def)
  have eight: "be_val ys div 2 ^ 63 = 0 \<Longrightarrow> be_val ys \<le> isize_max" for ys
    by (simp add: isize_max_def div_eq_0_iff)
  from assms have "\<not> length xs < 2" "ws_check_start (xs ! 0) (xs ! 1) peer = Ok ()"
    by (auto simp: ws_hdr_def rbind_Ok_iff split: if_splits)
  with assms obtain len where len: "ws_len xs = Ok len"
    by (cases "ws_len xs") (auto simp: ws_hdr_def)
  with assms \<open>\<not> length xs < 2\<close> \<open>ws_check_start _ _ _ = _\<close> obtain plen lhs where some: "len = Some (plen, lhs)"
    by (cases len) (auto simp: ws_hdr_def)
  with assms len \<open>\<not> length xs < 2\<close> \<open>ws_check_start _ _ _ = _\<close> have
    h: "wh_payload_len h = plen"
      "wh_header_len h = lhs + (if xs ! 1 AND MASK_BIT \<noteq> 0 then 4 else 0)" "wh_header_len h \<le> length xs"
    by (auto simp: ws_hdr_def rbind_Ok_iff Let_def split: if_splits)
  have "plen \<le> isize_max \<and> 2 \<le> lhs \<and> lhs \<le> 10"
    using len some small [of "xs ! 1 AND LEN_MASK"] two [of "xs ! 2" "xs ! 3"] eight [of "take 8 (drop 2 xs)"]
    by (auto simp: ws_len_def split: if_splits)
  with h show "wh_payload_len h \<le> isize_max" "2 \<le> wh_header_len h" "wh_header_len h \<le> 14"
    "wh_header_len h \<le> length xs" by (simp_all split: if_splits)
qed

lemma ws_fast_unit_append:
  "0 < n \<Longrightarrow> fast_header_len peer + n \<le> length xs \<Longrightarrow> ws_fast_unit peer n (xs @ ys) = ws_fast_unit peer n xs"
  by (cases peer) (auto simp: ws_fast_unit_def fast_header_len_def Let_def nth_append)

lemma fast_frame_append: "2 \<le> length xs \<Longrightarrow> fast_frame peer (xs @ ys) = fast_frame peer xs"
  by (auto simp: fast_frame_def nth_append)

lemma ws_fast_dec_append:
  assumes "2 \<le> length xs" "fast_frame peer xs" "ws_fast_dec peer s xs \<noteq> Ok None"
  shows "ws_fast_dec peer s (xs @ ys) = ws_fast_dec peer s xs"
proof -
  have "(xs @ ys) ! 1 = xs ! 1" using assms(1) by (simp add: nth_append)
  moreover have "0 < unat (xs ! 1 AND 0x7F)" using assms(2) by (simp add: fast_frame_def)
  ultimately show ?thesis
    using assms(3) ws_fast_unit_append [of "unat (xs ! 1 AND 0x7F)" peer xs ys]
    by (auto simp: ws_fast_dec_def Let_def split: if_splits option.split)
qed

lemma ws_slow_dec_append:
  assumes "ws_slow_dec peer s xs \<noteq> Ok None"
  shows "ws_slow_dec peer s (xs @ ys) = ws_slow_dec peer s xs"
proof -
  have "ws_hdr peer xs \<noteq> Ok None" using assms by (auto simp: ws_slow_dec_def)
  from ws_hdr_stable [OF this, of ys] show ?thesis
    using assms by (auto simp: ws_slow_dec_def split: sum.splits option.splits if_splits)
qed

lemma ws_dec_append:
  assumes "ws_dec peer s xs \<noteq> Ok None"
  shows "ws_dec peer s (xs @ ys) = ws_dec peer s xs"
proof -
  from assms have "2 \<le> length xs" by (simp add: ws_dec_def split: if_splits)
  with assms show ?thesis
    by (auto simp: ws_dec_def fast_frame_append ws_fast_dec_append ws_slow_dec_append split: if_splits)
qed

lemma ws_dec_progress:
  assumes "ws_dec peer s xs = Ok (Some (u, k))"
  shows "0 < k \<and> k \<le> length xs"
  using assms ws_hdr_bounds(2) [of peer xs]
  by (auto simp: ws_dec_def ws_fast_dec_def ws_slow_dec_def fast_header_len_def Let_def
    split: if_splits option.splits sum.splits dest!: ws_hdr_bounds(2))

lemma ws_dec_stream: "stream_decoder (ws_dec peer s)"
  by unfold_locales (simp_all add: ws_dec_append ws_dec_progress [THEN conjunct1] ws_dec_progress [THEN conjunct2])

section \<open>Dispatch keeps the invariant\<close>

lemma encode_ws_control_outbound:
  "outbound_only s (case encode_ws_control (ss_out_chunks s) (ss_out_bytes_total s) op body rl r of
     (chunks, tot, r) \<Rightarrow> s\<lparr>ss_out_chunks := chunks, ss_out_bytes_total := tot, ss_rng := r\<rparr>)"
  by (cases s) (force simp: outbound_only_def split: prod.split)

lemma queue_ws_close_outbound: "outbound_only s (queue_ws_close body s)"
proof -
  let ?t = "s\<lparr>ss_ws_close_sent := True\<rparr>"
  have "outbound_only s (case encode_ws_control (ss_out_chunks ?t) (ss_out_bytes_total ?t) op body rl r of
     (chunks, tot, r) \<Rightarrow> ?t\<lparr>ss_out_chunks := chunks, ss_out_bytes_total := tot, ss_rng := r\<rparr>)" for op rl r
    by (rule outbound_only_trans [OF outbound_only_update(4) encode_ws_control_outbound])
  then show ?thesis by (simp add: queue_ws_close_def Let_def)
qed

lemma queue_ws_pong_outbound: "outbound_only s (queue_ws_pong body s)"
  unfolding queue_ws_pong_def Let_def by (rule encode_ws_control_outbound)

lemma outbound_inv: "outbound_only s s' \<Longrightarrow> session_inv s \<Longrightarrow> session_inv s'"
  using outbound_only_fields by (simp add: session_inv_def)

lemma dispatch_ws_binary_inv:
  "session_inv s \<Longrightarrow> dispatch_ws_binary C now fl p s = (s', Ok ()) \<Longrightarrow> session_inv s'"
  by (auto simp: dispatch_ws_binary_def split: conn_state.splits
    dest: mechanism_frame_inv decode_assembled_inv)

lemma dispatch_ws_payload_inv:
  "session_inv s \<Longrightarrow> dispatch_ws_payload C now raw s = (s', Ok ()) \<Longrightarrow> session_inv s'"
  by (auto simp: dispatch_ws_payload_def split: if_splits sum.splits dest: dispatch_ws_binary_inv)

lemma ws_data_payload_inv:
  assumes "session_inv s" "ws_data_payload C now op fin raw s = (s', Ok ())"
  shows "session_inv s'"
proof -
  have "session_inv (s\<lparr>ss_ws_fragment := f\<rparr>)" for f
    using assms(1) by (simp add: session_inv_def)
  with assms show ?thesis
    by (auto simp: ws_data_payload_def Let_def split: if_splits option.splits dest: dispatch_ws_payload_inv)
qed

lemma ws_close_inv:
  assumes "session_inv s" "ws_close_with h raw s = (s', Ok ())"
  shows "session_inv s'"
proof -
  have "session_inv ((send_ws_close c s)\<lparr>ss_state := StClosed\<rparr>)" "session_inv (s\<lparr>ss_state := StClosed\<rparr>)" for c
    using assms(1) outbound_inv [OF queue_ws_close_outbound [of s "be_bytes 2 (unat c)"]]
    by (simp_all add: session_inv_def send_ws_close_def)
  with assms(2) show ?thesis
    by (auto simp: ws_close_with_def Let_def split: list.splits if_splits)
qed

lemma ws_apply_inv:
  assumes "session_inv s" "ws_apply C now u s = (s', Ok ())"
  shows "session_inv s'"
proof (cases u)
  case (W_Fast masked fl body)
  have "session_inv (s\<lparr>ss_messages := ms\<rparr>)" for ms
    using assms(1) by (simp add: session_inv_def)
  with W_Fast assms show ?thesis
    by (auto split: if_splits sum.splits dest: dispatch_ws_binary_inv)
next
  case (W_Frame h raw)
  have "session_inv ((send_empty_ws_close s)\<lparr>ss_state := StClosed\<rparr>)" "session_inv (s\<lparr>ss_state := StClosed\<rparr>)"
    "session_inv (queue_ws_pong b s)" for b
    using assms(1) outbound_inv [OF queue_ws_close_outbound [of s "[]"]]
      outbound_inv [OF queue_ws_pong_outbound [of s b]]
    by (simp_all add: session_inv_def send_empty_ws_close_def)
  with W_Frame assms show ?thesis
    by (auto split: if_splits dest: ws_data_payload_inv ws_close_inv)
qed

section \<open>The drive loop implements the machine\<close>

lemma take_ws_payload_flat:
  assumes "cb_wf b" "n \<le> length (cb_flat b)"
  obtains b' where "take_ws_payload n h b = (ws_unmask h (take n (cb_flat b)), b')"
    "cb_flat b' = drop n (cb_flat b)" "cb_wf b'"
proof -
  from split_to_exact [OF assms] obtain b' where
    "split_to n b = (payload_from_slice (take n (cb_flat b)), b')" "cb_flat b' = drop n (cb_flat b)" "cb_wf b'"
    by (cases "split_to n b") simp
  then show ?thesis
    by (intro that [of b']) (simp_all add: take_ws_payload_def ws_unmask_def view_simps)
qed

text \<open>One frame whose header is consumed: the payload is taken off the buffer and applied.\<close>

lemma ws_opcode_round:
  assumes wf: "cb_wf b" and n: "n \<le> length (cb_flat b)" and u_def: "u = W_Frame h (take n (cb_flat b))"
  shows "\<exists>b' more. ws_opcode_dispatch C now n h \<lparr>cn_session = s, cn_in_buf = b\<rparr>
      = (\<lparr>cn_session = fst (ws_apply C now u s), cn_in_buf = b'\<rparr>, rbind (snd (ws_apply C now u s)) (\<lambda>_. Ok more))
    \<and> (snd (ws_apply C now u s) = Ok () \<longrightarrow> cb_wf b' \<and> cb_flat b' = drop n (cb_flat b)
         \<and> (more \<or> ss_state (fst (ws_apply C now u s)) = StClosed))"
proof -
  from take_ws_payload_flat [OF wf n, of h] obtain b' where
    take: "take_ws_payload n h b = (ws_unmask h (take n (cb_flat b)), b')"
      "cb_flat b' = drop n (cb_flat b)" "cb_wf b'" .
  from split_to_exact [OF wf n] obtain b2 where
    split: "split_to n b = (payload_from_slice (take n (cb_flat b)), b2)"
      "cb_flat b2 = drop n (cb_flat b)" "cb_wf b2" by (cases "split_to n b") simp
  have adv: "cb_flat (cb_advance n b) = drop n (cb_flat b)" "cb_wf (cb_advance n b)"
    using cb_advance_refines [OF wf n] by simp_all
  consider (data) "wh_opcode h = OP_BINARY \<or> wh_opcode h = OP_CONTINUATION" | (close) "wh_opcode h = OP_CLOSE"
    | (ping) "wh_opcode h = OP_PING" | (pong) "wh_opcode h = OP_PONG"
    | (other) "wh_opcode h \<notin> {OP_BINARY, OP_CONTINUATION, OP_CLOSE, OP_PING, OP_PONG}" by blast
  then show ?thesis
  proof cases
    case data
    then show ?thesis
      using take by (force simp: u_def ws_opcode_dispatch_def handle_ws_data_frame_def split: prod.split)
  next
    case close
    have *: "wh_opcode h \<noteq> OP_BINARY" "wh_opcode h \<noteq> OP_CONTINUATION" using close by (simp_all add: ws_consts)
    show ?thesis
    proof (cases "n = 0")
      case True
      then show ?thesis
        using close * wf by (auto simp: u_def ws_opcode_dispatch_def handle_ws_close_def Let_def)
    next
      case False
      then have ne: "take n (cb_flat b) \<noteq> []" using n by auto
      obtain s' r where close_with: "ws_close_with h (take n (cb_flat b)) s = (s', r)" by (metis surj_pair)
      then have "r = Ok () \<Longrightarrow> ss_state s' = StClosed"
        by (auto simp: ws_close_with_def Let_def split: list.splits)
      with False ne close * close_with split show ?thesis
        by (auto simp: u_def ws_opcode_dispatch_def handle_ws_close_def Let_def view_simps)
    qed
  next
    case ping
    then have *: "wh_opcode h \<noteq> OP_BINARY" "wh_opcode h \<noteq> OP_CONTINUATION" "wh_opcode h \<noteq> OP_CLOSE"
      by (simp_all add: ws_consts)
    show ?thesis
    proof (cases "n = 0")
      case True
      then have "ws_unmask h (take n (cb_flat b)) = []"
        by (simp add: ws_unmask_def apply_mask_cycle)
      with True ping * wf show ?thesis by (auto simp: u_def ws_opcode_dispatch_def handle_ws_ping_def)
    next
      case False
      with ping * take show ?thesis by (auto simp: u_def ws_opcode_dispatch_def handle_ws_ping_def)
    qed
  next
    case pong
    then have "wh_opcode h \<noteq> OP_BINARY" "wh_opcode h \<noteq> OP_CONTINUATION" "wh_opcode h \<noteq> OP_CLOSE"
      "wh_opcode h \<noteq> OP_PING" by (simp_all add: ws_consts)
    with pong adv show ?thesis by (auto simp: u_def ws_opcode_dispatch_def)
  next
    case other
    then show ?thesis by (simp add: u_def ws_opcode_dispatch_def)
  qed
qed

lemma ws_slow_round:
  assumes wf: "cb_wf b" and dec: "ws_dec peer s (cb_flat b) = ws_slow_dec peer s (cb_flat b)"
  shows "round_ok (ws_dec peer) (ws_apply C now) s b (ws_slow C now peer \<lparr>cn_session = s, cn_in_buf = b\<rparr>)"
proof -
  note peek = peek_ws_header_flat [OF wf]
  consider (err) e where "ws_hdr peer (cb_flat b) = Err e" | (wait) "ws_hdr peer (cb_flat b) = Ok None"
    | (hdr) h where "ws_hdr peer (cb_flat b) = Ok (Some h)"
    by (metis option.exhaust sum.exhaust)
  then show ?thesis
  proof cases
    case hdr
    let ?n = "wh_payload_len h" and ?hl = "wh_header_len h"
    note bounds = ws_hdr_bounds [OF hdr]
    have size: "\<not> usize_max < ?n" "\<not> isize_max < ?n" "checked_add ?hl ?n = Some (?hl + ?n)"
      using bounds by (simp_all add: checked_add_def usize_max_def isize_max_def)
    have slow: "ws_slow C now peer \<lparr>cn_session = s, cn_in_buf = b\<rparr> =
       (if (case ws_payload_cap s of Some cap \<Rightarrow> cap < ?n | None \<Rightarrow> False)
        then (\<lparr>cn_session = s, cn_in_buf = b\<rparr>, Err (Protocol ''WS frame too large: {payload_len} bytes (max {cap})''))
        else if cb_len b < ?hl + ?n then (\<lparr>cn_session = s, cn_in_buf = b\<rparr>, Ok False)
        else ws_opcode_dispatch C now ?n h \<lparr>cn_session = s, cn_in_buf = cb_advance ?hl b\<rparr>)"
      using size by (simp add: ws_slow_def peek hdr Let_def)
    show ?thesis
    proof (cases "(case ws_payload_cap s of Some cap \<Rightarrow> cap < ?n | None \<Rightarrow> False) \<or> length (cb_flat b) < ?hl + ?n")
      case True
      then show ?thesis
        unfolding slow using wf by (auto simp: round_ok_def dec ws_slow_dec_def hdr cb_len_flat)
    next
      case False
      let ?a = "cb_advance ?hl b" and ?raw = "take ?n (drop ?hl (cb_flat b))"
      have adv: "cb_flat ?a = drop ?hl (cb_flat b)" "cb_wf ?a"
        using cb_advance_refines [OF wf bounds(4)] by simp_all
      have "?n \<le> length (cb_flat ?a)" using False adv(1) by auto
      note op = ws_opcode_round [OF adv(2) this refl, of C now h s, unfolded adv(1)]
      have unit: "ws_dec peer s (cb_flat b) = Ok (Some (W_Frame h ?raw, ?hl + ?n))"
        using False by (simp add: dec ws_slow_dec_def hdr)
      have out: "ws_slow C now peer \<lparr>cn_session = s, cn_in_buf = b\<rparr>
          = ws_opcode_dispatch C now ?n h \<lparr>cn_session = s, cn_in_buf = ?a\<rparr>"
        unfolding slow using False wf by (simp add: cb_len_flat)
      have closed: "ss_state t = StClosed \<Longrightarrow> ws_dec peer t xs = Ok None" for t xs
        by (simp add: ws_dec_def)
      from op closed show ?thesis
        unfolding round_ok_def unit out by (auto simp: add.commute simp del: ws_apply.simps)
    qed
  qed (simp_all add: round_ok_def dec ws_slow_dec_def ws_slow_def peek)
qed

lemma ws_fast_dispatch_round:
  assumes wf: "cb_wf b" and n: "0 < n" "fast_header_len peer + n \<le> length (cb_flat b)"
    and u_def: "u = ws_fast_unit peer n (cb_flat b)"
    and key: "key = (if peer = WsClient then take 4 (drop 2 (cb_flat b)) else [0, 0, 0, 0])"
  shows "\<exists>b'. ws_fast_dispatch C now (peer = WsClient) key (fast_header_len peer) (n - 1) \<lparr>cn_session = s, cn_in_buf = b\<rparr>
      = (\<lparr>cn_session = fst (ws_apply C now u s), cn_in_buf = b'\<rparr>, rbind (snd (ws_apply C now u s)) (\<lambda>_. Ok (Some True)))
    \<and> (snd (ws_apply C now u s) = Ok () \<longrightarrow> cb_wf b' \<and> cb_flat b' = drop (fast_header_len peer + n) (cb_flat b))"
proof -
  let ?hl = "fast_header_len peer" and ?xs = "cb_flat b"
  let ?a = "cb_advance ?hl b" and ?body = "take (n - 1) (drop (?hl + 1) ?xs)"
  have adv: "cb_flat ?a = drop ?hl ?xs" "cb_wf ?a"
    using cb_advance_refines [OF wf, of ?hl] n by simp_all
  have "1 \<le> length (cb_flat ?a)" using n adv(1) by simp
  from read_into_refines [OF adv(2) this] obtain b1 where
    one: "read_into 1 ?a = ([?xs ! ?hl], b1)" "cb_flat b1 = drop (?hl + 1) ?xs" "cb_wf b1"
    using n by (cases "read_into 1 ?a") (simp add: adv(1) take_Suc hd_drop_conv_nth)
  have len: "n - 1 \<le> length (cb_flat b1)" using n one(2) by simp
  from split_to_exact [OF one(3) len] obtain b2 where
    split: "split_to (n - 1) b1 = (payload_from_slice ?body, b2)" "cb_flat b2 = drop (?hl + n) ?xs" "cb_wf b2"
    using n by (cases "split_to (n - 1) b1") (simp add: one(2) add.commute)
  from read_into_refines [OF one(3) len] obtain b3 where
    read: "read_into (n - 1) b1 = (?body, b3)" "cb_flat b3 = drop (?hl + n) ?xs" "cb_wf b3"
    using n by (cases "read_into (n - 1) b1") (simp add: one(2) add.commute)
  let ?masked = "peer = WsClient"
  let ?flag = "if ?masked then ?xs ! ?hl XOR key ! 0 else ?xs ! ?hl"
  let ?data = "if ?masked then apply_mask_offset ?body key 1 else ?body"
  let ?p = "if ?masked then payload_from_bytes ?data else payload_from_slice ?data"
  have unit: "u = W_Fast ?masked ?flag ?data"
    by (simp add: u_def ws_fast_unit_def key Let_def)
  have taken: "(if 0 < n - 1 then split_to (n - 1) b1 else (payload_new, b1)) = (payload_from_slice ?body, b2)"
    "(if 0 < n - 1 then read_into (n - 1) b1 else ([], b1)) = (?body, b3)"
    using split(1) read(1) by (auto simp: split_to_def read_into_def payload_from_slice_def payload_inline_def)
  have pay: "(if 0 < n - 1 \<and> ?masked then payload_from_bytes (apply_mask_offset (payload_as_bytes (payload_from_slice ?body)) key 1)
      else payload_from_slice ?body) = ?p"
  proof (cases "n - 1 = 0")
    case True
    then show ?thesis
      by (simp add: payload_from_slice_def payload_inline_def payload_from_bytes_def apply_mask_offset_cycle)
  next
    case False
    then show ?thesis by (simp add: payload_as_bytes_slice payload_from_slice_slice)
  qed
  have body: "(if ?masked \<and> 0 < n - 1 then apply_mask_offset ?body key 1 else ?body) = ?data"
    by (auto simp: apply_mask_offset_cycle)
  have blen: "length ?data = n - 1" using len one(2) by (auto simp: apply_mask_offset_cycle)
  show ?thesis
  proof (cases "?flag = ZWS_FLAG_FINAL")
    case True
    have "ws_fast_dispatch C now ?masked key ?hl (n - 1) \<lparr>cn_session = s, cn_in_buf = b\<rparr>
      = (\<lparr>cn_session = s\<lparr>ss_messages := ss_messages s @ [from_inline ?data]\<rparr>, cn_in_buf = b3\<rparr>, Ok (Some True))"
      unfolding ws_fast_dispatch_def connection.simps one(1) prod.case nth_Cons_0 Let_def taken(2) body
      using True blen by (simp add: from_inline_def)
    with True read show ?thesis by (simp add: unit)
  next
    case False
    show ?thesis
    proof (cases "zws_to_flags ?flag")
      case (Inl e)
      have "ws_fast_dispatch C now ?masked key ?hl (n - 1) \<lparr>cn_session = s, cn_in_buf = b\<rparr>
        = (\<lparr>cn_session = s, cn_in_buf = b1\<rparr>, Err e)"
        unfolding ws_fast_dispatch_def connection.simps one(1) prod.case nth_Cons_0 Let_def
        using False Inl by simp
      with False Inl show ?thesis by (simp add: unit)
    next
      case (Inr flags)
      obtain s' r where d: "dispatch_ws_binary C now flags ?p s = (s', r)" by (metis surj_pair)
      have "ws_fast_dispatch C now ?masked key ?hl (n - 1) \<lparr>cn_session = s, cn_in_buf = b\<rparr>
        = (\<lparr>cn_session = s', cn_in_buf = b2\<rparr>, rbind r (\<lambda>_. Ok (Some True)))"
        unfolding ws_fast_dispatch_def connection.simps one(1) prod.case nth_Cons_0 Let_def taken(1) pay
        using False Inr d by simp
      moreover have "ws_apply C now u s = (s', r)"
        using False Inr d by (simp add: unit)
      ultimately show ?thesis using split by simp
    qed
  qed
qed

lemma ws_fast_round:
  assumes wf: "cb_wf b" and st: "fast_state s" and len: "2 \<le> length (cb_flat b)"
    and fast: "fast_frame peer (cb_flat b)"
  shows "case try_advance_ready_ws C now peer \<lparr>cn_session = s, cn_in_buf = b\<rparr> of
      (c, Inl e) \<Rightarrow> round_ok (ws_dec peer) (ws_apply C now) s b (c, Err e)
    | (c, Inr (Some x)) \<Rightarrow> round_ok (ws_dec peer) (ws_apply C now) s b (c, Ok x)
    | (c, Inr None) \<Rightarrow> False"
proof -
  let ?xs = "cb_flat b" and ?hl = "fast_header_len peer"
  let ?n = "unat (?xs ! 1 AND 0x7F)" and ?c = "\<lparr>cn_session = s, cn_in_buf = b\<rparr>"
  let ?key = "if peer = WsClient then take 4 (drop 2 ?xs) else [0, 0, 0, 0]"
  have n: "0 < ?n" "?n - 1 \<le> MAX_INLINE_MESSAGE" "?n < 126"
    using fast by (auto simp: fast_frame_def MAX_INLINE_MESSAGE_def)
  have peek: "peek_array 2 b = Some (take 2 ?xs)" "take 2 ?xs ! 0 = ?xs ! 0" "take 2 ?xs ! 1 = ?xs ! 1"
    using wf len by (simp_all add: peek_array_flat)
  have key: "(if peer = WsClient then map_option (\<lambda>hdr. take 4 (drop 2 hdr)) (peek_array 6 b) else Some [0, 0, 0, 0])
      = Some ?key" if "?hl + ?n \<le> length ?xs"
    using that wf by (auto simp: peek_array_flat fast_header_len_def drop_take)
  have tried: "try_advance_ready_ws C now peer ?c =
     (if length ?xs < ?hl + ?n then (?c, Ok (Some False))
      else case over_limit s (?n - 1) of
             Some e \<Rightarrow> (?c, Err e)
           | None \<Rightarrow> ws_fast_dispatch C now (peer = WsClient) ?key ?hl (?n - 1) ?c)"
    unfolding try_advance_ready_ws_def connection.simps peek option.case Let_def
    using fast n key cb_len_flat [OF wf]
    by (simp add: fast_frame_def fast_header_len_def split: option.split)
  have closed: "ss_state s \<noteq> StClosed" using st by (simp add: fast_state_def)
  then have dec: "ws_dec peer s ?xs = ws_fast_dec peer s ?xs"
    using st len fast by (simp add: ws_dec_def)
  consider (part) "length ?xs < ?hl + ?n" | (big) e where "?hl + ?n \<le> length ?xs" "over_limit s (?n - 1) = Some e"
    | (whole) "?hl + ?n \<le> length ?xs" "over_limit s (?n - 1) = None"
    by (meson not_le option.exhaust)
  then show ?thesis
  proof cases
    case whole
    from ws_fast_dispatch_round [OF wf n(1) whole(1) refl refl, of C now s] obtain b' where
      "ws_fast_dispatch C now (peer = WsClient) ?key ?hl (?n - 1) ?c
        = (\<lparr>cn_session = fst (ws_apply C now (ws_fast_unit peer ?n ?xs) s), cn_in_buf = b'\<rparr>,
           rbind (snd (ws_apply C now (ws_fast_unit peer ?n ?xs) s)) (\<lambda>_. Ok (Some True)))"
      "snd (ws_apply C now (ws_fast_unit peer ?n ?xs) s) = Ok () \<longrightarrow> cb_wf b' \<and> cb_flat b' = drop (?hl + ?n) ?xs"
      by blast
    with whole show ?thesis
      by (cases "snd (ws_apply C now (ws_fast_unit peer ?n ?xs) s)")
        (simp_all add: tried round_ok_def dec ws_fast_dec_def Let_def)
  qed (simp_all add: tried round_ok_def dec ws_fast_dec_def Let_def)
qed

lemma ws_not_fast:
  assumes wf: "cb_wf b" and len: "2 \<le> length (cb_flat b)" and slow: "\<not> fast_frame peer (cb_flat b)"
  shows "try_advance_ready_ws C now peer \<lparr>cn_session = s, cn_in_buf = b\<rparr> = (\<lparr>cn_session = s, cn_in_buf = b\<rparr>, Ok None)"
proof -
  let ?xs = "cb_flat b"
  have peek: "peek_array 2 b = Some (take 2 ?xs)" "take 2 ?xs ! 0 = ?xs ! 0" "take 2 ?xs ! 1 = ?xs ! 1"
    using wf len by (simp_all add: peek_array_flat)
  show ?thesis
    unfolding try_advance_ready_ws_def connection.simps peek option.case Let_def
    using slow by (auto simp: fast_frame_def)
qed

lemma ws_round:
  assumes wf: "cb_wf b"
  shows "round_ok (ws_dec peer) (ws_apply C now) s b (ws_step C now peer \<lparr>cn_session = s, cn_in_buf = b\<rparr>)"
proof -
  let ?c = "\<lparr>cn_session = s, cn_in_buf = b\<rparr>"
  consider (closed) "ss_state s = StClosed"
    | (short) "ss_state s \<noteq> StClosed" "length (cb_flat b) < 2"
    | (fast) "fast_state s" "2 \<le> length (cb_flat b)" "fast_frame peer (cb_flat b)"
    | (slow) "ss_state s \<noteq> StClosed" "2 \<le> length (cb_flat b)" "\<not> (fast_state s \<and> fast_frame peer (cb_flat b))"
    by (meson leI)
  then show ?thesis
  proof cases
    case closed
    then show ?thesis by (simp add: ws_step_def round_ok_def ws_dec_def)
  next
    case short
    then have "ws_dec peer s (cb_flat b) = Ok None" "ws_hdr peer (cb_flat b) = Ok None" "peek_array 2 b = None"
      using wf by (simp_all add: ws_dec_def ws_hdr_def peek_array_flat)
    with short wf show ?thesis
      by (simp add: round_ok_def ws_step_def ws_slow_def try_advance_ready_ws_def peek_ws_header_flat)
  next
    case fast
    have "ws_step C now peer ?c = (case try_advance_ready_ws C now peer ?c of
              (c, Inl e) \<Rightarrow> (c, Err e)
            | (c, Inr (Some b)) \<Rightarrow> (c, Ok b)
            | (c, Inr None) \<Rightarrow> ws_slow C now peer c)"
      using fast(1) by (simp add: ws_step_def fast_state_def)
    with ws_fast_round [OF wf fast, of C now] show ?thesis
      by (auto split: prod.splits sum.splits option.splits)
  next
    case slow
    then have "ws_step C now peer ?c = ws_slow C now peer ?c"
      using ws_not_fast [OF wf slow(2)] by (auto simp: ws_step_def fast_state_def)
    moreover have "ws_dec peer s (cb_flat b) = ws_slow_dec peer s (cb_flat b)"
      using slow by (auto simp: ws_dec_def)
    ultimately show ?thesis using ws_slow_round [OF wf] by simp
  qed
qed

interpretation ws_driver: driver "ws_dec peer" "ws_apply C now" "ws_step C now peer" for C now peer
  by (intro driver.intro driver_axioms.intro stream_machine.intro ws_dec_stream)
    (auto simp: ws_round intro: ws_apply_inv)

end
