(* ===== verification/Connection.thy ===== *)
theory Connection
  imports Connection_Ws
begin

text \<open>
  A connection as its users see it: bytes in, messages and events out.  The
  first part states that \<open>handle_input\<close> runs the machine of its framing on the
  bytes received so far, whatever the reads were; the properties follow from
  runs of that machine.
\<close>

section \<open>What every transition keeps\<close>

definition link_kept :: "session \<Rightarrow> session \<Rightarrow> bool" where
  "link_kept s s' \<longleftrightarrow> ss_config s' = ss_config s \<and> ss_ws_role s' = ss_ws_role s
     \<and> ss_front_consumed s' = ss_front_consumed s
     \<and> ss_state s' \<in> {ss_state s, MechanismHandshake, StReady, StClosed}"

lemma link_refl [simp]: "link_kept s s"
  by (simp add: link_kept_def)

lemma link_outbound: "outbound_only s s' \<Longrightarrow> link_kept s s'"
  using outbound_only_fields by (simp add: link_kept_def)

lemma link_trans: "link_kept s t \<Longrightarrow> link_kept t u \<Longrightarrow> link_kept s u"
  by (auto simp: link_kept_def)

lemma link_update [simp]:
  "link_kept s (s\<lparr>ss_messages := ms\<rparr>)" "link_kept s (s\<lparr>ss_events := es\<rparr>)"
  "link_kept s (s\<lparr>ss_rng := r, ss_mechanism := m\<rparr>)" "link_kept s (s\<lparr>ss_mechanism := m\<rparr>)"
  "link_kept s (s\<lparr>ss_transform := t\<rparr>)" "link_kept s (s\<lparr>ss_ws_fragment := f\<rparr>)"
  "link_kept s (s\<lparr>ss_state := StClosed\<rparr>)"
  "link_kept s (s\<lparr>ss_transform := t, ss_state := StReady, ss_events := es\<rparr>)"
  "link_kept s (s\<lparr>ss_peer_minor := x, ss_peer_greeting := g, ss_state := MechanismHandshake,
     ss_mechanism := m\<rparr>)"
  by (simp_all add: link_kept_def)

lemma write_outbound_link: "write_outbound_commands C cmds s = (s', r) \<Longrightarrow> link_kept s s'"
  using link_outbound [OF write_outbound_commands_outbound [of s C cmds]] by simp

lemma absorb_link: "absorb_data_frame mor p s = (s', r) \<Longrightarrow> link_kept s s'"
  by (auto simp: absorb_data_frame_def absorb_part_def link_kept_def Let_def split: option.splits if_splits)

lemma drop_flag_fst: "drop_flag r = (s', x) \<Longrightarrow> s' = fst r"
  by (auto simp: drop_flag_def split: prod.splits sum.splits)

lemma post_handshake_link: "handle_post_handshake_command C cmd s = (s', r) \<Longrightarrow> link_kept s s'"
  by (auto simp: handle_post_handshake_command_def split: command.splits
    dest: write_outbound_link simp del: write_outbound_commands.simps)

lemma dispatch_decrypted_link: "dispatch_decrypted C cmdf mor pt s = (s', r) \<Longrightarrow> link_kept s s'"
  using absorb_link [of mor "payload_from_bytes pt" s]
  by (auto simp: dispatch_decrypted_def split: if_splits sum.splits
    dest: post_handshake_link dest!: drop_flag_fst intro: absorb_link prod.collapse [symmetric])

lemma decode_assembled_link: "decode_assembled_frame C fl p s = (s', r) \<Longrightarrow> link_kept s s'"
  by (auto simp: decode_assembled_frame_def Let_def split: option.splits if_splits prod.splits sum.splits
    dest: post_handshake_link dest!: drop_flag_fst dispatch_decrypted_link
    intro: absorb_link prod.collapse [symmetric] link_trans [OF link_update(5)])

lemma complete_handshake_link: "complete_handshake props s = (s', r) \<Longrightarrow> link_kept s s'"
  by (auto simp: complete_handshake_def split: option.splits if_splits sum.splits)

lemma mechanism_frame_link: "mechanism_frame C now fl body s = (s', r) \<Longrightarrow> link_kept s s'"
  by (auto simp: mechanism_frame_def process_mechanism_command_def Let_def
    split: if_splits sum.splits prod.splits mechanism_step.splits
    dest!: write_outbound_link complete_handshake_link
    intro: link_trans [OF link_update(3)] link_trans [OF link_trans [OF link_update(3)]])

lemma accept_greeting_link: "accept_greeting C g raw s = (s', r) \<Longrightarrow> link_kept s s'"
  by (auto simp: accept_greeting_def start_handshake_def Let_def split: if_splits sum.splits prod.splits
    dest!: write_outbound_link
    intro: link_trans [OF link_update(9)])

lemma zmtp_apply_link: "zmtp_apply C now u s = (s', r) \<Longrightarrow> link_kept s s'"
  by (cases u) (auto split: if_splits dest: accept_greeting_link mechanism_frame_link decode_assembled_link)

lemma dispatch_ws_binary_link: "dispatch_ws_binary C now fl p s = (s', r) \<Longrightarrow> link_kept s s'"
  by (auto simp: dispatch_ws_binary_def split: conn_state.splits dest: mechanism_frame_link decode_assembled_link)

lemma ws_data_payload_link: "ws_data_payload C now op fin raw s = (s', r) \<Longrightarrow> link_kept s s'"
  by (auto simp: ws_data_payload_def dispatch_ws_payload_def Let_def split: if_splits option.splits sum.splits
    dest!: dispatch_ws_binary_link intro: link_trans [OF link_update(6)])

lemma ws_close_link:
  "link_kept s ((queue_ws_close b s)\<lparr>ss_state := StClosed\<rparr>)" "link_kept s (queue_ws_pong b s)"
  using link_trans [OF link_outbound [OF queue_ws_close_outbound] link_update(7)]
    link_outbound [OF queue_ws_pong_outbound] by blast+

lemma ws_close_with_link: "ws_close_with h raw s = (s', r) \<Longrightarrow> link_kept s s'"
  by (auto simp: ws_close_with_def send_ws_close_def Let_def ws_close_link split: list.splits if_splits)

lemma ws_apply_link: "ws_apply C now u s = (s', r) \<Longrightarrow> link_kept s s'"
  by (cases u) (auto simp: send_empty_ws_close_def ws_close_link split: if_splits sum.splits
    dest: dispatch_ws_binary_link ws_data_payload_link ws_close_with_link)

section \<open>Input as a run of the machine\<close>

definition conn_dec :: "session \<Rightarrow> bytes \<Rightarrow> bool" where
  "conn_dec s xs \<longleftrightarrow>
     (case ss_ws_role s of
        None \<Rightarrow> zmtp_dec s xs = Ok None
      | Some rl \<Rightarrow> ws_dec (peer_ws_role rl) s xs = Ok None)"

definition conn_run :: "crypto \<Rightarrow> nat \<Rightarrow> session \<Rightarrow> bytes \<Rightarrow> session \<times> unit result \<times> bytes" where
  "conn_run C now s xs =
     (case ss_ws_role s of
        None \<Rightarrow> run_machine zmtp_dec (zmtp_apply C now) s xs
      | Some rl \<Rightarrow> run_machine (ws_dec (peer_ws_role rl)) (ws_apply C now) s xs)"

text \<open>A connection between calls: everything that could be decoded has been.\<close>

definition settled :: "connection \<Rightarrow> bool" where
  "settled c \<longleftrightarrow> session_inv (cn_session c) \<and> cb_wf (cn_in_buf c)
     \<and> conn_dec (cn_session c) (cb_flat (cn_in_buf c))"

definition accepting :: "session \<Rightarrow> bool" where
  "accepting s \<longleftrightarrow> ss_state s \<in> {AwaitingGreeting, MechanismHandshake, StReady}"

definition feed :: "crypto \<Rightarrow> nat \<Rightarrow> connection \<Rightarrow> bytes list \<Rightarrow> connection \<times> unit result" where
  "feed C now c pieces =
     foldl (\<lambda>(c, r) p. case r of Inl e \<Rightarrow> (c, Err e) | Inr _ \<Rightarrow> handle_input C now p c) (c, Ok ()) pieces"

lemma conn_run_link:
  assumes "conn_run C now s xs = (s', res, rest)"
  shows "link_kept s s'"
proof -
  show ?thesis
  proof (cases "ss_ws_role s")
    case None
    with assms have "run_machine zmtp_dec (zmtp_apply C now) s xs = (s', res, rest)"
      by (simp add: conn_run_def)
    then show ?thesis
      by (rule zmtp_driver.run_invariant [where P = "link_kept s", rotated])
        (auto intro: link_trans dest: zmtp_apply_link)
  next
    case (Some rl)
    with assms have "run_machine (ws_dec (peer_ws_role rl)) (ws_apply C now) s xs = (s', res, rest)"
      by (simp add: conn_run_def)
    then show ?thesis
      by (rule ws_driver.run_invariant [where P = "link_kept s", rotated])
        (auto intro: link_trans dest: ws_apply_link)
  qed
qed

lemma conn_run_role:
  "ss_ws_role s = None \<Longrightarrow> conn_run C now s xs = run_machine zmtp_dec (zmtp_apply C now) s xs"
  "ss_ws_role s = Some rl \<Longrightarrow> conn_run C now s xs = run_machine (ws_dec (peer_ws_role rl)) (ws_apply C now) s xs"
  by (simp_all add: conn_run_def)

lemma conn_run_append:
  assumes "conn_run C now s xs = (s', Ok (), r)"
  shows "conn_run C now s (xs @ ys) = conn_run C now s' (r @ ys)"
proof -
  have role: "ss_ws_role s' = ss_ws_role s" using conn_run_link [OF assms] by (simp add: link_kept_def)
  show ?thesis
  proof (cases "ss_ws_role s")
    case None
    with role assms show ?thesis by (simp add: conn_run_role(1) zmtp_driver.run_append)
  next
    case (Some rl)
    with role assms show ?thesis by (simp add: conn_run_role(2) ws_driver.run_append)
  qed
qed

lemma conn_run_append_Err:
  assumes "conn_run C now s xs = (s', Err e, r)"
  shows "conn_run C now s (xs @ ys) = (s', Err e, r @ ys)"
proof (cases "ss_ws_role s")
  case None
  with assms show ?thesis by (simp add: conn_run_role(1) zmtp_driver.run_append)
next
  case (Some rl)
  with assms show ?thesis by (simp add: conn_run_role(2) ws_driver.run_append)
qed

lemma conn_run_settled:
  assumes "conn_run C now s xs = (s', Ok (), r)"
  shows "conn_dec s' r"
proof -
  have role: "ss_ws_role s' = ss_ws_role s" using conn_run_link [OF assms] by (simp add: link_kept_def)
  show ?thesis
  proof (cases "ss_ws_role s")
    case None
    with role assms zmtp_driver.run_residue show ?thesis by (simp add: conn_run_role(1) conn_dec_def)
  next
    case (Some rl)
    with role assms ws_driver.run_residue show ?thesis by (simp add: conn_run_role(2) conn_dec_def)
  qed
qed

lemma conn_run_wait: "conn_dec s xs \<Longrightarrow> conn_run C now s xs = (s, Ok (), xs)"
  by (simp add: conn_run_def conn_dec_def zmtp_driver.run_wait ws_driver.run_wait split: option.splits)

lemma drive_conn_run:
  assumes "session_inv s" "cb_wf b"
  shows "\<exists>b' s' res rest. drive C now \<lparr>cn_session = s, cn_in_buf = b\<rparr> = (\<lparr>cn_session = s', cn_in_buf = b'\<rparr>, res)
    \<and> conn_run C now s (cb_flat b) = (s', res, rest)
    \<and> (res = Ok () \<longrightarrow> settled \<lparr>cn_session = s', cn_in_buf = b'\<rparr> \<and> cb_flat b' = rest)"
proof -
  have "\<exists>b' s' res rest. drive C now \<lparr>cn_session = s, cn_in_buf = b\<rparr> = (\<lparr>cn_session = s', cn_in_buf = b'\<rparr>, res)
    \<and> conn_run C now s (cb_flat b) = (s', res, rest)
    \<and> (res = Ok () \<longrightarrow> session_inv s' \<and> cb_wf b' \<and> cb_flat b' = rest)"
  proof (cases "ss_ws_role s")
    case None
    then show ?thesis
      using zmtp_driver.drive_run [OF assms, of C now] by (simp add: drive_def drive_zmtp_def conn_run_role(1))
  next
    case (Some rl)
    then show ?thesis
      using ws_driver.drive_run [OF assms, of C now "peer_ws_role rl"]
      by (simp add: drive_def drive_ws_def conn_run_role(2))
  qed
  then obtain b' s' res rest where
    r: "drive C now \<lparr>cn_session = s, cn_in_buf = b\<rparr> = (\<lparr>cn_session = s', cn_in_buf = b'\<rparr>, res)"
      "conn_run C now s (cb_flat b) = (s', res, rest)"
      "res = Ok () \<longrightarrow> session_inv s' \<and> cb_wf b' \<and> cb_flat b' = rest" by blast
  have "settled \<lparr>cn_session = s', cn_in_buf = b'\<rparr> \<and> cb_flat b' = rest" if "res = Ok ()"
    using r(3) that conn_run_settled [of C now s "cb_flat b" s' rest] r(2) by (simp add: settled_def)
  with r(1,2) show ?thesis by blast
qed

lemma handle_input_run:
  assumes "settled c" "accepting (cn_session c)"
  shows "\<exists>b' s' res rest. handle_input C now src c = (\<lparr>cn_session = s', cn_in_buf = b'\<rparr>, res)
    \<and> conn_run C now (cn_session c) (cb_flat (cn_in_buf c) @ src) = (s', res, rest)
    \<and> (res = Ok () \<longrightarrow> settled \<lparr>cn_session = s', cn_in_buf = b'\<rparr> \<and> cb_flat b' = rest)"
proof -
  obtain s b where c: "c = \<lparr>cn_session = s, cn_in_buf = b\<rparr>" by (cases c)
  have inv: "session_inv s" "cb_wf b" "conn_dec s (cb_flat b)"
    using assms(1) by (simp_all add: c settled_def)
  have state: "ss_state s = AwaitingGreeting \<or> ss_state s = MechanismHandshake \<or> ss_state s = StReady"
    using assms(2) by (simp add: c accepting_def)
  show ?thesis
  proof (cases "src = []")
    case True
    then have "handle_input C now src c = (\<lparr>cn_session = s, cn_in_buf = b\<rparr>, Ok ())"
      using state by (auto simp: c handle_input_def)
    then show ?thesis
      using True assms(1) conn_run_wait [OF inv(3), of C now] by (simp add: c)
  next
    case False
    let ?b = "cb_push b src"
    have b: "cb_wf ?b" "cb_flat ?b = cb_flat b @ src"
      using inv(2) by (simp_all add: cb_push_flat wf_intros)
    have "handle_input C now src c = drive C now \<lparr>cn_session = s, cn_in_buf = ?b\<rparr>"
      using state False by (auto simp: c handle_input_def)
    with drive_conn_run [OF inv(1) b(1), of C now] show ?thesis
      unfolding b(2) by (simp add: c)
  qed
qed

lemma accepting_link: "link_kept s s' \<Longrightarrow> accepting s \<Longrightarrow> ss_state s' \<noteq> StClosed \<Longrightarrow> accepting s'"
  by (auto simp: accepting_def link_kept_def)

lemma conn_run_closed: "ss_state s = StClosed \<Longrightarrow> conn_run C now s xs = (s, Ok (), xs)"
  by (rule conn_run_wait) (simp add: conn_dec_def zmtp_dec_def ws_dec_def split: option.split)

lemma feed_Err: "foldl (\<lambda>(c, r) p. case r of Inl e \<Rightarrow> (c, Err e) | Inr _ \<Rightarrow> handle_input C now p c) (c, Err e) ps = (c, Err e)"
  by (induction ps) simp_all

lemma feed_Cons:
  "feed C now c (p # ps) =
     (case handle_input C now p c of (c, Inl e) \<Rightarrow> (c, Err e) | (c, Inr _) \<Rightarrow> feed C now c ps)"
  by (cases "handle_input C now p c") (auto simp: feed_def feed_Err split: sum.split)

lemma feed_run:
  assumes "settled c" "accepting (cn_session c)"
    and "conn_run C now (cn_session c) (cb_flat (cn_in_buf c) @ concat ps) = (s', res, rest)"
    and "ss_state s' \<noteq> StClosed"
  shows "\<exists>b'. feed C now c ps = (\<lparr>cn_session = s', cn_in_buf = b'\<rparr>, res)
    \<and> (res = Ok () \<longrightarrow> settled \<lparr>cn_session = s', cn_in_buf = b'\<rparr> \<and> cb_flat b' = rest)"
  using assms
proof (induction ps arbitrary: c)
  case Nil
  then show ?case
    using conn_run_wait [of "cn_session c" "cb_flat (cn_in_buf c)" C now]
    by (cases c) (auto simp: feed_def settled_def)
next
  case (Cons p ps)
  let ?s = "cn_session c" and ?x = "cb_flat (cn_in_buf c)"
  from handle_input_run [OF Cons.prems(1,2), of C now p] obtain b1 s1 res1 rest1 where
    h: "handle_input C now p c = (\<lparr>cn_session = s1, cn_in_buf = b1\<rparr>, res1)"
      "conn_run C now ?s (?x @ p) = (s1, res1, rest1)"
      "res1 = Ok () \<longrightarrow> settled \<lparr>cn_session = s1, cn_in_buf = b1\<rparr> \<and> cb_flat b1 = rest1" by blast
  show ?case
  proof (cases res1)
    case (Inl e)
    with h(2) Cons.prems(3) conn_run_append_Err [of C now ?s "?x @ p" s1 e rest1 "concat ps"]
    have "s' = s1" "res = Err e" by simp_all
    with h(1) Inl show ?thesis by (simp add: feed_Cons)
  next
    case (Inr x)
    then have ok: "res1 = Ok ()" by simp
    with h(2) Cons.prems(3) conn_run_append [of C now ?s "?x @ p" s1 rest1 "concat ps"]
    have run: "conn_run C now s1 (rest1 @ concat ps) = (s', res, rest)" by simp
    have "ss_state s1 \<noteq> StClosed"
      using run Cons.prems(4) conn_run_closed [of s1 C now "rest1 @ concat ps"] by auto
    then have acc: "accepting s1"
      using accepting_link [OF conn_run_link [OF h(2)] Cons.prems(2)] by simp
    from h(3) ok have st: "settled \<lparr>cn_session = s1, cn_in_buf = b1\<rparr>" "cb_flat b1 = rest1" by simp_all
    from Cons.IH [OF st(1)] acc run st(2) Cons.prems(4) have
      "\<exists>b'. feed C now \<lparr>cn_session = s1, cn_in_buf = b1\<rparr> ps = (\<lparr>cn_session = s', cn_in_buf = b'\<rparr>, res)
        \<and> (res = Ok () \<longrightarrow> settled \<lparr>cn_session = s', cn_in_buf = b'\<rparr> \<and> cb_flat b' = rest)" by simp
    with h(1) ok show ?thesis by (simp add: feed_Cons)
  qed
qed

lemma feed_run_single:
  assumes "settled c" "accepting (cn_session c)" "feed C now c [xs] = (c', res)"
  shows "\<exists>rest. conn_run C now (cn_session c) (cb_flat (cn_in_buf c) @ xs) = (cn_session c', res, rest)
    \<and> (res = Ok () \<longrightarrow> settled c' \<and> cb_flat (cn_in_buf c') = rest)"
proof -
  from handle_input_run [OF assms(1,2), of C now xs] obtain b' s' r rest where
    h: "handle_input C now xs c = (\<lparr>cn_session = s', cn_in_buf = b'\<rparr>, r)"
      "conn_run C now (cn_session c) (cb_flat (cn_in_buf c) @ xs) = (s', r, rest)"
      "r = Ok () \<longrightarrow> settled \<lparr>cn_session = s', cn_in_buf = b'\<rparr> \<and> cb_flat b' = rest" by blast
  from h(1) assms(3) have "c' = \<lparr>cn_session = s', cn_in_buf = b'\<rparr>" "res = r"
    by (cases r; simp add: feed_Cons; simp add: feed_def)+
  with h(2,3) show ?thesis by simp
qed

section \<open>A new connection\<close>

lemma conn_dec_Nil: "conn_dec s []"
  by (simp add: conn_dec_def zmtp_dec_def ws_dec_def greeting_dec_def bounded_frame_dec_def frame_hdr_def
    split: option.split conn_state.split)

lemma settled_new:
  "ss_pending_parts s = [] \<Longrightarrow> ss_pending_size s = 0 \<Longrightarrow> settled \<lparr>cn_session = s, cn_in_buf = cb_new\<rparr>"
  by (simp add: settled_def session_inv_def conn_dec_Nil wf_intros)

lemma init_ws_mode_fields:
  assumes "init_ws_mode C s = Ok s'"
  shows "ss_pending_parts s' = ss_pending_parts s \<and> ss_pending_size s' = ss_pending_size s
    \<and> ss_events s' = ss_events s \<and> ss_messages s' = ss_messages s \<and> ss_config s' = ss_config s
    \<and> ss_ws_role s' = ss_ws_role s \<and> ss_front_consumed s' = ss_front_consumed s
    \<and> ss_state s' \<in> {MechanismHandshake, StClosed}"
proof -
  let ?s = "s\<lparr>ss_state := MechanismHandshake\<rparr>"
  obtain m cmds r where st: "mechanism_start C (ss_mechanism ?s) (our_props (ss_config ?s)) [] = (m, cmds, r)"
    by (metis surj_pair)
  obtain t q where w: "write_outbound_commands C cmds (?s\<lparr>ss_mechanism := m\<rparr>) = (t, q)" by (metis surj_pair)
  note f = outbound_only_fields [OF write_outbound_commands_outbound [of "?s\<lparr>ss_mechanism := m\<rparr>" C cmds, unfolded w fst_conv]]
  show ?thesis
    using assms st w f by (cases r; cases q) (auto simp: init_ws_mode_def Let_def split: if_splits)
qed

lemma connection_new_fields:
  assumes "connection_new C cfg r = Ok c"
  shows "settled c" "accepting (cn_session c) \<or> ss_state (cn_session c) = StClosed"
    "ss_events (cn_session c) = []" "ss_messages (cn_session c) = []" "ss_pending_parts (cn_session c) = []"
    "ss_config (cn_session c) = cfg" "ss_ws_role (cn_session c) = cfg_ws_role cfg"
    "ss_front_consumed (cn_session c) = 0" "ss_pending_size (cn_session c) = 0"
    "ss_state (cn_session c) \<in> {AwaitingGreeting, MechanismHandshake, StClosed}"
proof -
  obtain m r' where b: "mechanism_build C (cfg_mechanism cfg) r = (m, r')" by (metis surj_pair)
  let ?s = "session_init cfg m r'"
  have c: "cn_in_buf c = cb_new \<and> (if cfg_ws_role cfg \<noteq> None then init_ws_mode C ?s = Ok (cn_session c)
      else cn_session c = queue_greeting ?s)"
    using assms by (auto simp: connection_new_def b Let_def session_init_def rbind_Ok_iff split: if_splits)
  have "ss_pending_parts (cn_session c) = [] \<and> ss_pending_size (cn_session c) = 0 \<and> ss_events (cn_session c) = []
    \<and> ss_messages (cn_session c) = [] \<and> ss_config (cn_session c) = cfg \<and> ss_ws_role (cn_session c) = cfg_ws_role cfg
    \<and> ss_front_consumed (cn_session c) = 0
    \<and> ss_state (cn_session c) \<in> {AwaitingGreeting, MechanismHandshake, StClosed}"
  proof (cases "cfg_ws_role cfg")
    case None
    with c show ?thesis by (simp add: queue_greeting_def push_chunk_def session_init_def Let_def)
  next
    case (Some rl)
    with c init_ws_mode_fields [of C ?s "cn_session c"] show ?thesis by (auto simp: session_init_def)
  qed
  then show "settled c" "accepting (cn_session c) \<or> ss_state (cn_session c) = StClosed"
    "ss_events (cn_session c) = []" "ss_messages (cn_session c) = []" "ss_pending_parts (cn_session c) = []"
    "ss_config (cn_session c) = cfg" "ss_ws_role (cn_session c) = cfg_ws_role cfg"
    "ss_front_consumed (cn_session c) = 0" "ss_pending_size (cn_session c) = 0"
    "ss_state (cn_session c) \<in> {AwaitingGreeting, MechanismHandshake, StClosed}"
    using c settled_new [of "cn_session c"] by (cases c, auto simp: accepting_def)+
qed

lemma feed_closed:
  assumes "ss_state (cn_session c) = StClosed"
  shows "fst (feed C now c [xs]) = c"
  using assms by (simp add: feed_Cons handle_input_def)

text \<open>
  C4.  Reads do not matter: whatever bytes a peer sends to a new connection, in
  either framing, the session after handling them (messages, events, queued
  output, mechanism and cipher state) and the result are the same however the
  transport cuts them into reads, and so are the bytes left over; provided the
  peer has not closed the WebSocket, after which every further read is refused.
\<close>

theorem connection_chunking:
  assumes "connection_new C cfg r = Ok c" "feed C now c [concat pieces] = (c', res)"
    and "ss_state (cn_session c') \<noteq> StClosed"
  shows "\<exists>b. feed C now c pieces = (\<lparr>cn_session = cn_session c', cn_in_buf = b\<rparr>, res)
    \<and> (res = Ok () \<longrightarrow> cb_flat b = cb_flat (cn_in_buf c'))"
proof -
  have st: "settled c" by (rule connection_new_fields [OF assms(1)])
  have acc: "accepting (cn_session c)"
    using connection_new_fields(2) [OF assms(1)] feed_closed [of c C now "concat pieces"] assms(2,3) by auto
  from feed_run_single [OF st acc assms(2)] obtain rest where
    "conn_run C now (cn_session c) (cb_flat (cn_in_buf c) @ concat pieces) = (cn_session c', res, rest)"
    "res = Ok () \<longrightarrow> settled c' \<and> cb_flat (cn_in_buf c') = rest" by blast
  with feed_run [OF st acc this(1) assms(3)] show ?thesis by auto
qed

definition pull_config :: connection_config where
  "pull_config = config_new RoleServer Pull"

definition old_greeting :: bytes where
  "old_greeting = [0xFF, 0, 0, 0, 0, 0, 0, 0, 1, 0x7F, 2]"

theorem connection_chunking_witness:
  "\<exists>c c' b. connection_new clear_crypto pull_config zero_rng = Ok c
    \<and> feed clear_crypto 0 c [concat [take 4 old_greeting, drop 4 old_greeting]]
        = (c', Err (UnsupportedZmtpVersion 2 0))
    \<and> feed clear_crypto 0 c [take 4 old_greeting, drop 4 old_greeting]
        = (\<lparr>cn_session = cn_session c', cn_in_buf = b\<rparr>, Err (UnsupportedZmtpVersion 2 0))"
proof -
  let ?ps = "[take 4 old_greeting, drop 4 old_greeting]"
  obtain c where c: "connection_new clear_crypto pull_config zero_rng = Ok c"
    "ss_state (cn_session c) = AwaitingGreeting" "ss_ws_role (cn_session c) = None" "cb_flat (cn_in_buf c) = []"
    by (simp add: connection_new_def pull_config_def config_new_def mechanism_build_def session_init_def
      queue_greeting_def push_chunk_def Let_def)
  note f = connection_new_fields [OF c(1)]
  have acc: "accepting (cn_session c)" using c(2) by (simp add: accepting_def)
  have "zmtp_dec (cn_session c) old_greeting = Err (UnsupportedZmtpVersion 2 0)"
    using c(2) by (simp add: zmtp_dec_def greeting_dec_def old_greeting_def)
  then have run: "conn_run clear_crypto 0 (cn_session c) old_greeting
      = (cn_session c, Err (UnsupportedZmtpVersion 2 0), old_greeting)"
    using c(3) by (simp add: conn_run_role(1) zmtp_driver.run_error)
  obtain c' res where fed: "feed clear_crypto 0 c [concat ?ps] = (c', res)" by (metis surj_pair)
  from feed_run_single [OF f(1) acc fed] run c(4) have res:
    "cn_session c' = cn_session c" "res = Err (UnsupportedZmtpVersion 2 0)" by auto
  have "ss_state (cn_session c') \<noteq> StClosed" using res c(2) by simp
  from connection_chunking [OF c(1) fed this] fed c(1) res(2) show ?thesis by blast
qed

end
