(* ===== verification/Transmit.thy ===== *)
theory Transmit
  imports Connection_Out
begin

text \<open>
  The outbound queue of a connection as a queue of bytes: \<open>out_ok\<close> is its
  representation invariant, \<open>poll_transmit\<close> its content.  Sending appends the wire
  form of frames, acknowledging drops bytes from the front, and the gather
  views hand out exactly the pending bytes.
\<close>

section \<open>The queue\<close>

definition out_ok :: "session \<Rightarrow> bool" where
  "out_ok s \<longleftrightarrow> ss_out_bytes_total s = length (concat (ss_out_chunks s))
     \<and> (case ss_out_chunks s of
          [] \<Rightarrow> ss_front_consumed s = 0
        | c # _ \<Rightarrow> ss_front_consumed s = 0 \<or> ss_front_consumed s < length c)"

lemma poll_transmit_drop: "out_ok s \<Longrightarrow> poll_transmit s = drop (ss_front_consumed s) (concat (ss_out_chunks s))"
  by (auto simp: poll_transmit_def out_ok_def split: list.splits)

lemma front_le: "out_ok s \<Longrightarrow> ss_front_consumed s \<le> length (concat (ss_out_chunks s))"
  by (auto simp: out_ok_def split: list.splits)

lemma push_chunk_out:
  assumes "out_ok s"
  shows "out_ok (push_chunk c s)" "poll_transmit (push_chunk c s) = poll_transmit s @ c"
  using assms
  by (auto simp: out_ok_def push_chunk_def poll_transmit_def split: list.splits)

lemma out_ok_update:
  "out_ok s \<Longrightarrow> out_ok (s\<lparr>ss_rng := r\<rparr>)" "poll_transmit (s\<lparr>ss_rng := r\<rparr>) = poll_transmit s"
  "out_ok s \<Longrightarrow> out_ok (s\<lparr>ss_transform := t\<rparr>)" "poll_transmit (s\<lparr>ss_transform := t\<rparr>) = poll_transmit s"
  by (simp_all add: out_ok_def poll_transmit_def split: list.splits)

lemma concat_capped:
  "length out + length cs \<le> mx \<Longrightarrow> concat (capped_chunks mx 0 out cs) = concat out @ concat cs"
  by (induction cs arbitrary: out) auto

lemma transmit_chunks_concat: "out_ok s \<Longrightarrow> concat (transmit_chunks s) = poll_transmit s"
  by (auto simp: transmit_chunks_def transmit_chunks_capped_def poll_transmit_def out_ok_def concat_capped
    split: list.splits)

lemma capped_take:
  "capped_chunks mx st out cs = take (max mx (length out)) (out @ cloned_chunks st cs)"
proof (induction cs arbitrary: st out)
  case Nil
  then show ?case by simp
next
  case (Cons c cs)
  then show ?case by (cases "mx \<le> length out") (auto simp: max_def)
qed

lemma transmit_capped_prefix: "transmit_chunks_capped s mx = take mx (clone_transmit_chunks s)"
  by (simp add: transmit_chunks_capped_def clone_transmit_chunks_def capped_take)

lemma cloned_concat: "concat (cloned_chunks 0 cs) = concat cs"
  by (induction cs) auto

lemma clone_transmit_concat: "out_ok s \<Longrightarrow> concat (clone_transmit_chunks s) = poll_transmit s"
  by (auto simp: clone_transmit_chunks_def poll_transmit_def out_ok_def cloned_concat split: list.splits)

lemma advance_chunks_drop:
  assumes "tot = length (concat cs)" "case cs of [] \<Rightarrow> fc = 0 | c # _ \<Rightarrow> fc = 0 \<or> fc < length c"
    and "n + fc \<le> length (concat cs)" "advance_chunks n cs fc tot = (cs', fc', tot')"
  shows "drop fc' (concat cs') = drop (n + fc) (concat cs) \<and> tot' = length (concat cs')
    \<and> (case cs' of [] \<Rightarrow> fc' = 0 | c # _ \<Rightarrow> fc' = 0 \<or> fc' < length c)"
  using assms
proof (induction cs arbitrary: n fc tot)
  case Nil
  then show ?case by simp
next
  case (Cons c cs)
  have fc: "fc \<le> length c" using Cons.prems(2) by auto
  consider "n = 0" | "0 < n" "n < length c - fc" | "0 < n" "length c - fc \<le> n" by linarith
  then show ?case
  proof cases
    case 3
    then have "advance_chunks (n - (length c - fc)) cs 0 (tot - length c) = (cs', fc', tot')"
      using Cons.prems(4) by (simp add: Let_def)
    from Cons.IH [OF _ _ _ this] have "drop fc' (concat cs') = drop (n - (length c - fc)) (concat cs)
        \<and> tot' = length (concat cs') \<and> (case cs' of [] \<Rightarrow> fc' = 0 | c # _ \<Rightarrow> fc' = 0 \<or> fc' < length c)"
      using Cons.prems(1,3) fc 3 by (simp split: list.split)
    moreover have "drop (n + fc) (concat (c # cs)) = drop (n - (length c - fc)) (concat cs)"
      using fc 3 by simp
    ultimately show ?thesis by simp
  qed (use Cons.prems in \<open>auto simp: add.commute\<close>)
qed

lemma advance_transmit_out:
  assumes "out_ok s" "n \<le> length (poll_transmit s)"
  shows "out_ok (advance_transmit n s)" "poll_transmit (advance_transmit n s) = drop n (poll_transmit s)"
proof -
  obtain cs' fc' tot' where
    a: "advance_chunks n (ss_out_chunks s) (ss_front_consumed s) (ss_out_bytes_total s) = (cs', fc', tot')"
    by (metis surj_pair)
  have "n + ss_front_consumed s \<le> length (concat (ss_out_chunks s))"
    using assms(2) front_le [OF assms(1)] by (simp add: poll_transmit_drop [OF assms(1)])
  with advance_chunks_drop [OF _ _ this a] assms(1) have
    r: "drop fc' (concat cs') = drop (n + ss_front_consumed s) (concat (ss_out_chunks s))"
      "tot' = length (concat cs')" "case cs' of [] \<Rightarrow> fc' = 0 | c # _ \<Rightarrow> fc' = 0 \<or> fc' < length c"
    by (simp_all add: out_ok_def)
  then show ok: "out_ok (advance_transmit n s)"
    by (simp add: out_ok_def advance_transmit_def a split: list.splits)
  show "poll_transmit (advance_transmit n s) = drop n (poll_transmit s)"
    unfolding poll_transmit_drop [OF ok] poll_transmit_drop [OF assms(1)]
    using r(1) by (simp add: advance_transmit_def a)
qed

section \<open>The wire form of a frame\<close>

definition frame_wire :: "session \<Rightarrow> frame_flags \<times> bytes \<Rightarrow> bytes" where
  "frame_wire s f =
     (case ss_ws_role s of
        None \<Rightarrow> frame_enc f
      | Some rl \<Rightarrow>
          (case encode_ws_binary_header (1 + length (snd f)) rl (ss_rng s) of
             (hdr, Some k, _) \<Rightarrow> hdr @ apply_mask (flags_to_zws (fst f) # snd f) k
           | (hdr, None, _) \<Rightarrow> hdr @ flags_to_zws (fst f) # snd f))"

lemma mask_first: "apply_mask (fl # body) k = (fl XOR k ! 0) # apply_mask_offset body k 1"
  by (simp add: apply_mask_cycle apply_mask_offset_cycle)

lemma emit_frame_out:
  assumes "out_ok s" "payload_wf p"
  shows "out_ok (emit_frame fl p s)"
    "poll_transmit (emit_frame fl p s) = poll_transmit s @ frame_wire s (fl, payload_as_slice p)"
proof -
  let ?body = "payload_as_slice p" and ?z = "flags_to_zws fl"
  have "out_ok (emit_frame fl p s)
    \<and> poll_transmit (emit_frame fl p s) = poll_transmit s @ frame_wire s (fl, ?body)"
  proof (cases "ss_ws_role s")
    case None
    have "emit_frame fl p s = (if ?body = [] then push_chunk (frame_header fl (length ?body)) s
        else push_chunk ?body (push_chunk (frame_header fl (length ?body)) s))"
      using None assms(2)
      by (simp add: emit_frame_def encode_frame_into_eq push_chunk_def payload_len_slice Let_def wire_simps)
    with None assms(1) show ?thesis
      by (simp add: push_chunk_out frame_wire_def frame_enc_def)
  next
    case (Some rl)
    obtain hdr k r where h: "encode_ws_binary_header (1 + length ?body) rl (ss_rng s) = (hdr, k, r)"
      by (metis surj_pair)
    let ?s = "s\<lparr>ss_rng := r\<rparr>"
    have ok: "out_ok ?s" "poll_transmit ?s = poll_transmit s" using assms(1) by (simp_all add: out_ok_update)
    show ?thesis
    proof (cases k)
      case None
      have "emit_frame fl p s = (if ?body \<noteq> [] then push_chunk ?body (push_chunk (hdr @ [?z]) ?s)
          else push_chunk (hdr @ [?z]) ?s)"
        using Some h None by (simp add: emit_frame_def emit_ws_frame_def Let_def view_simps)
      with Some h None ok show ?thesis by (simp add: frame_wire_def push_chunk_out)
    next
      case key: (Some key)
      have "emit_frame fl p s = (if ?body \<noteq> [] then push_chunk (apply_mask_offset ?body key 1) (push_chunk (hdr @ [?z XOR key ! 0]) ?s)
          else push_chunk (hdr @ [?z XOR key ! 0]) ?s)"
        using Some h key by (simp add: emit_frame_def emit_ws_frame_def Let_def view_simps)
      moreover have "frame_wire s (fl, ?body) = hdr @ (?z XOR key ! 0) # apply_mask_offset ?body key 1"
        using Some h key by (simp add: frame_wire_def mask_first)
      ultimately show ?thesis
        using ok by (simp add: push_chunk_out apply_mask_offset_cycle)
    qed
  qed
  then show "out_ok (emit_frame fl p s)"
    "poll_transmit (emit_frame fl p s) = poll_transmit s @ frame_wire s (fl, payload_as_slice p)" by simp_all
qed

section \<open>Sending appends\<close>

lemma write_outbound_out:
  "out_ok s \<Longrightarrow> out_ok (fst (write_outbound_commands C cmds s))"
proof (induction cmds arbitrary: s)
  case Nil
  then show ?case by simp
next
  case (Cons c cs)
  have "out_ok (fst (write_outbound_commands C cs (emit_command_frame b t)))" if "out_ok t" for b t
    using that by (intro Cons.IH) (simp add: emit_command_frame_def emit_frame_out wf_intros)
  with Cons.prems show ?case by (auto simp: out_ok_update split: option.split prod.split sum.split)
qed

lemma send_part_curve_out: "out_ok s \<Longrightarrow> out_ok (fst (send_part_curve C mor p s))"
  by (auto simp: send_part_curve_def out_ok_update emit_frame_out wf_intros
    split: option.split prod.split sum.split)

lemma send_parts_out:
  "out_ok s \<Longrightarrow> list_all payload_wf ps \<Longrightarrow> out_ok (fst (send_parts C n i ps s))"
proof (induction ps arbitrary: i s)
  case Nil
  then show ?case by simp
next
  case (Cons p ps)
  obtain t r where "send_part_curve C (i + 1 < n) p s = (t, r)" by (metis surj_pair)
  with send_part_curve_out [OF Cons.prems(1), of C "i + 1 < n" p] Cons show ?case
    by (cases r) (auto simp: Let_def emit_frame_out)
qed

lemma encode_ws_control_shape:
  "encode_ws_control chunks tot op b rl r = (chunks', tot', r') \<Longrightarrow>
     \<exists>f. chunks' = chunks @ [f] \<and> tot' = tot + length f"
  by (auto simp: encode_ws_control_def Let_def split: prod.splits)

lemma queue_control_out:
  assumes "out_ok s"
  shows "out_ok (queue_ws_close b s)" "out_ok (queue_ws_pong b s)"
proof -
  have "out_ok (s\<lparr>ss_ws_close_sent := cl, ss_out_chunks := ch, ss_out_bytes_total := tot, ss_rng := r'\<rparr>)"
    "out_ok (s\<lparr>ss_out_chunks := ch, ss_out_bytes_total := tot, ss_rng := r'\<rparr>)"
    if "encode_ws_control (ss_out_chunks s) (ss_out_bytes_total s) op b rl r = (ch, tot, r')" for cl ch tot r' op rl r
    using assms encode_ws_control_shape [OF that] by (auto simp: out_ok_def split: list.splits)
  with assms show "out_ok (queue_ws_close b s)" "out_ok (queue_ws_pong b s)"
    by (auto simp: queue_ws_close_def queue_ws_pong_def Let_def split: prod.split)
qed

section \<open>Draining and sending commute\<close>

text \<open>
  Two sessions that differ in their queues only, the second having still
  queued \<open>d\<close>, which the first has already handed to the transport.
\<close>

definition queue_free :: "session \<Rightarrow> session" where
  "queue_free s = s\<lparr>ss_out_chunks := [], ss_front_consumed := 0, ss_out_bytes_total := 0\<rparr>"

definition ahead :: "session \<Rightarrow> session \<Rightarrow> bytes \<Rightarrow> bool" where
  "ahead s t d \<longleftrightarrow> out_ok s \<and> out_ok t \<and> queue_free s = queue_free t \<and> poll_transmit t = d @ poll_transmit s"

lemma queue_free_fields:
  assumes "queue_free s = queue_free t"
  shows "ss_transform s = ss_transform t" "ss_ws_role s = ss_ws_role t" "ss_rng s = ss_rng t" "ss_state s = ss_state t"
    "ss_peer_minor s = ss_peer_minor t" "ss_config s = ss_config t" "ss_mechanism s = ss_mechanism t"
  using arg_cong [OF assms, of ss_transform] arg_cong [OF assms, of ss_ws_role] arg_cong [OF assms, of ss_rng]
    arg_cong [OF assms, of ss_state] arg_cong [OF assms, of ss_peer_minor] arg_cong [OF assms, of ss_config]
    arg_cong [OF assms, of ss_mechanism]
  by (simp_all add: queue_free_def)

lemma ahead_fields:
  assumes "ahead s t d"
  shows "ss_transform s = ss_transform t" "ss_state s = ss_state t"
  using assms by (auto simp: ahead_def intro: queue_free_fields)

lemma queue_free_push: "queue_free (push_chunk c s) = queue_free s"
  by (simp add: queue_free_def push_chunk_def)

lemma queue_free_update:
  "queue_free (s\<lparr>ss_rng := r\<rparr>) = (queue_free s)\<lparr>ss_rng := r\<rparr>"
  "queue_free (s\<lparr>ss_transform := tr\<rparr>) = (queue_free s)\<lparr>ss_transform := tr\<rparr>"
  by (simp_all add: queue_free_def)

lemma queue_free_emit:
  "queue_free (emit_frame fl p s) =
     (case ss_ws_role s of
        None \<Rightarrow> queue_free s
      | Some rl \<Rightarrow> (queue_free s)\<lparr>ss_rng := snd (snd (encode_ws_binary_header (1 + length (payload_as_bytes p)) rl (ss_rng s)))\<rparr>)"
  by (cases s) (auto simp: emit_frame_def emit_ws_frame_def queue_free_def push_chunk_def Let_def split: option.split prod.split)

lemma ahead_emit:
  assumes "ahead s t d" "payload_wf p"
  shows "ahead (emit_frame fl p s) (emit_frame fl p t) d"
proof -
  have a: "out_ok s" "out_ok t" "queue_free s = queue_free t" "poll_transmit t = d @ poll_transmit s"
    using assms(1) by (simp_all add: ahead_def)
  have "frame_wire s f = frame_wire t f" for f
    unfolding frame_wire_def queue_free_fields(2,3) [OF a(3)] ..
  moreover have "queue_free (emit_frame fl p s) = queue_free (emit_frame fl p t)"
    unfolding queue_free_emit a(3) queue_free_fields(2,3) [OF a(3)] ..
  ultimately show ?thesis
    using a emit_frame_out [OF a(1) assms(2)] emit_frame_out [OF a(2) assms(2)] by (simp add: ahead_def)
qed

lemma ahead_transform: "ahead s t d \<Longrightarrow> ahead (s\<lparr>ss_transform := tr\<rparr>) (t\<lparr>ss_transform := tr\<rparr>) d"
  by (simp add: ahead_def out_ok_update queue_free_update)

lemma ahead_advance:
  assumes "ahead s t d" "n \<le> length (poll_transmit s)"
  shows "ahead (advance_transmit n s) t (d @ take n (poll_transmit s))"
proof -
  have a: "out_ok s" "out_ok t" "queue_free s = queue_free t" "poll_transmit t = d @ poll_transmit s"
    using assms(1) by (simp_all add: ahead_def)
  have "queue_free (advance_transmit n s) = queue_free s"
    by (simp add: queue_free_def advance_transmit_def split: prod.split)
  with a advance_transmit_out [OF a(1) assms(2)] show ?thesis by (simp add: ahead_def)
qed

lemma ahead_curve:
  assumes "ahead s t d"
  shows "ahead (fst (send_part_curve C mor p s)) (fst (send_part_curve C mor p t)) d
    \<and> snd (send_part_curve C mor p s) = snd (send_part_curve C mor p t)"
proof -
  have "ss_transform s = ss_transform t" by (rule ahead_fields [OF assms])
  with assms show ?thesis
    by (auto simp: send_part_curve_def ahead_transform ahead_emit wf_intros split: option.split prod.split sum.split)
qed

lemma ahead_parts:
  "ahead s t d \<Longrightarrow> list_all payload_wf ps \<Longrightarrow>
     ahead (fst (send_parts C n i ps s)) (fst (send_parts C n i ps t)) d"
proof (induction ps arbitrary: i s t)
  case Nil
  then show ?case by simp
next
  case (Cons p ps)
  have tr: "ss_transform s = ss_transform t" by (rule ahead_fields [OF Cons.prems(1)])
  obtain s1 r t1 r' where c: "send_part_curve C (i + 1 < n) p s = (s1, r)" "send_part_curve C (i + 1 < n) p t = (t1, r')"
    by (metis surj_pair)
  from ahead_curve [OF Cons.prems(1), of C "i + 1 < n" p] c have "ahead s1 t1 d" "r = r'" by simp_all
  with Cons tr c show ?case
    by (cases "ss_transform t = None"; cases r) (auto simp: Let_def intro: ahead_emit)
qed

lemma ahead_commands:
  "ahead s t d \<Longrightarrow> ahead (fst (write_outbound_commands C cmds s)) (fst (write_outbound_commands C cmds t)) d"
proof (induction cmds arbitrary: s t)
  case Nil
  then show ?case by simp
next
  case (Cons c cs)
  have "ss_transform s = ss_transform t" "ss_state s = ss_state t" by (rule ahead_fields [OF Cons.prems(1)])+
  moreover have "ahead (emit_command_frame b s) (emit_command_frame b t) d"
    if "ahead s t d" for b s t
    using that by (simp add: emit_command_frame_def ahead_emit wf_intros)
  ultimately show ?case
    using Cons by (auto simp: ahead_transform split: option.split prod.split sum.split)
qed

text \<open>
  What an owner of a connection does with its queue: send, and hand some of the
  gathered bytes to the transport, which may take fewer.
\<close>

datatype out_op = OpSend message | OpCommand command | OpWrite nat nat

fun out_step :: "crypto \<Rightarrow> session \<times> bytes \<Rightarrow> out_op \<Rightarrow> session \<times> bytes" where
  "out_step C (s, w) (OpSend m) = (fst (send_message C m s), w)"
| "out_step C (s, w) (OpCommand c) = (fst (send_command C c s), w)"
| "out_step C (s, w) (OpWrite max_chunks accepted) =
     (let bs = concat (transmit_chunks_capped s max_chunks); n = min accepted (length bs)
      in (advance_transmit n s, w @ take n bs))"

fun op_wf :: "out_op \<Rightarrow> bool" where
  "op_wf (OpSend m) = message_wf m"
| "op_wf _ = True"

fun is_write :: "out_op \<Rightarrow> bool" where
  "is_write (OpWrite _ _) = True"
| "is_write _ = False"

lemma capped_is_prefix:
  assumes "out_ok s"
  obtains rest where "poll_transmit s = concat (transmit_chunks_capped s mx) @ rest"
proof
  have "concat (clone_transmit_chunks s) =
      concat (take mx (clone_transmit_chunks s)) @ concat (drop mx (clone_transmit_chunks s))"
    by (metis append_take_drop_id concat_append)
  then show "poll_transmit s = concat (transmit_chunks_capped s mx) @ concat (drop mx (clone_transmit_chunks s))"
    using clone_transmit_concat [OF assms] by (simp add: transmit_capped_prefix)
qed

lemma ahead_send:
  assumes "ahead s t w" "op_wf op" "\<not> is_write op"
  shows "ahead (fst (out_step C (s, w) op)) (fst (out_step C (t, []) op)) w"
proof (cases op)
  case (OpSend m)
  with assms ahead_fields(2) [OF assms(1)] show ?thesis
    by (simp add: send_message_def Let_def ahead_parts parts_payload_wf)
next
  case (OpCommand c)
  with assms ahead_fields(2) [OF assms(1)] show ?thesis
    by (simp add: send_command_def ahead_commands del: write_outbound_commands.simps)
qed (use assms(3) in simp)

lemma ahead_write:
  assumes "ahead s t w" "out_step C (s, w) (OpWrite mx k) = (s', w')"
  shows "ahead s' t w'"
proof -
  let ?bs = "concat (transmit_chunks_capped s mx)"
  have "out_ok s" using assms(1) by (simp add: ahead_def)
  then obtain rest where poll: "poll_transmit s = ?bs @ rest" by (rule capped_is_prefix)
  have "s' = advance_transmit (min k (length ?bs)) s" "w' = w @ take (min k (length ?bs)) (poll_transmit s)"
    using assms(2) by (simp_all add: Let_def poll)
  with ahead_advance [OF assms(1), of "min k (length ?bs)"] poll show ?thesis by simp
qed

lemma out_step_sent: "\<not> is_write op \<Longrightarrow> snd (out_step C (s, w) op) = w"
  by (cases op) simp_all

lemma ahead_run:
  assumes "ahead s t w" "list_all op_wf ops" "foldl (out_step C) (s, w) ops = (s', w')"
  shows "ahead s' (fst (foldl (out_step C) (t, []) (filter (\<lambda>op. \<not> is_write op) ops))) w'"
  using assms
proof (induction ops arbitrary: s t w)
  case Nil
  then show ?case by simp
next
  case (Cons op ops)
  obtain s1 w1 where one: "out_step C (s, w) op = (s1, w1)" by (metis surj_pair)
  show ?case
  proof (cases "is_write op")
    case True
    then obtain mx k where "op = OpWrite mx k" by (cases op) simp_all
    with ahead_write [OF Cons.prems(1)] one have "ahead s1 t w1" by simp
    with Cons.IH [of s1 t w1] Cons.prems one True show ?thesis by simp
  next
    case False
    obtain t1 x where two: "out_step C (t, []) op = (t1, x)" by (metis surj_pair)
    from ahead_send [OF Cons.prems(1) _ False, of C] Cons.prems(2) one two out_step_sent [OF False, of C s w]
      out_step_sent [OF False, of C t "[]"] have "ahead s1 t1 w" "w1 = w" "x = []" by simp_all
    with Cons.IH [of s1 t1 w] Cons.prems one two False show ?thesis by simp
  qed
qed

text \<open>
  C7.  The outbound stream: whatever messages and commands are sent, and however
  partial gathered writes are interleaved with them, the bytes handed to the
  transport so far followed by the bytes still queued are the bytes the same
  sends produce with no write in between; the pending count is the number of
  bytes queued, and an idle queue is an empty one.
\<close>

theorem transmit_order:
  assumes "out_ok s" "list_all op_wf ops" "foldl (out_step C) (s, []) ops = (s', written)"
  shows "written @ poll_transmit s'
      = poll_transmit (fst (foldl (out_step C) (s, []) (filter (\<lambda>op. \<not> is_write op) ops)))
    \<and> concat (transmit_chunks s') = poll_transmit s'
    \<and> pending_transmit_size s' = length (poll_transmit s')
    \<and> (has_pending_transmit s' \<longleftrightarrow> poll_transmit s' \<noteq> [])"
proof -
  have "ahead s s []" using assms(1) by (simp add: ahead_def)
  from ahead_run [OF this assms(2,3)] have
    r: "out_ok s'" "poll_transmit (fst (foldl (out_step C) (s, []) (filter (\<lambda>op. \<not> is_write op) ops)))
      = written @ poll_transmit s'" by (simp_all add: ahead_def)
  have "pending_transmit_size s' = length (poll_transmit s')"
    using r(1) by (simp add: pending_transmit_size_def poll_transmit_drop) (simp add: out_ok_def)
  moreover have "has_pending_transmit s' \<longleftrightarrow> pending_transmit_size s' \<noteq> 0"
    by (auto simp: has_pending_transmit_def pending_transmit_size_def)
  ultimately show ?thesis using r transmit_chunks_concat [OF r(1)] by simp
qed

definition idle_session :: session where
  "idle_session =
     \<lparr>ss_config = config_new RoleServer Push, ss_state = StReady, ss_mechanism = MNull null_new, ss_transform = None,
      ss_our_greeting = [], ss_peer_greeting = [], ss_peer_minor = ZMTP_MINOR,
      ss_out_chunks = [], ss_front_consumed = 0, ss_out_bytes_total = 0, ss_events = [],
      ss_messages = [], ss_pending_parts = [], ss_pending_size = 0,
      ss_ws_role = None, ss_ws_close_sent = False, ss_ws_fragment = None, ss_rng = zero_rng\<rparr>"

theorem transmit_order_witness:
  "\<exists>s' w. foldl (out_step clear_crypto) (idle_session, [])
      [OpSend (single [1, 2]), OpWrite 1 1, OpSend (single [3]), OpWrite 9 2] = (s', w)
    \<and> w = [0, 2, 1] \<and> poll_transmit s' = [2, 0, 1, 3]
    \<and> w @ poll_transmit s' = poll_transmit (fst (foldl (out_step clear_crypto) (idle_session, [])
        [OpSend (single [1, 2]), OpSend (single [3])]))"
proof -
  let ?ops = "[OpSend (single [1, 2]), OpWrite 1 1, OpSend (single [3]), OpWrite 9 2]"
  obtain s' w where run: "foldl (out_step clear_crypto) (idle_session, []) ?ops = (s', w)" by (metis surj_pair)
  have "snd (foldl (out_step clear_crypto) (idle_session, []) ?ops) = [0, 2, 1]"
    "poll_transmit (fst (foldl (out_step clear_crypto) (idle_session, []) ?ops)) = [2, 0, 1, 3]"
    by code_simp+
  with run have "w = [0, 2, 1] \<and> poll_transmit s' = [2, 0, 1, 3]" by simp
  moreover have "out_ok idle_session" "list_all op_wf ?ops"
    by (simp_all add: idle_session_def out_ok_def wf_intros)
  ultimately show ?thesis using transmit_order [OF _ _ run] run by simp
qed

end
