(* ===== verification/Delivery.thy ===== *)
theory Delivery
  imports Connection Transmit
begin

text \<open>
  The two halves together: what one end sends, the other end delivers.  The
  first part reads one frame off the wire in either framing; the second tracks
  a message through its parts, in the clear or encrypted.
\<close>

section \<open>One frame over the wire\<close>

text \<open>Two sessions at the ends of one connection: same framing, opposite WebSocket roles.\<close>

definition linked :: "session \<Rightarrow> session \<Rightarrow> bool" where
  "linked s t \<longleftrightarrow> ss_ws_role s = map_option peer_ws_role (ss_ws_role t)"

definition one_flag :: "frame_flags \<Rightarrow> bool" where
  "one_flag fl \<longleftrightarrow> \<not> (ff_command fl \<and> ff_more fl)"

definition rx_open :: "session \<Rightarrow> bool" where
  "rx_open t \<longleftrightarrow> ss_state t = StReady \<and> session_inv t \<and> ss_ws_fragment t = None"

lemma zws_flags_inverse: "one_flag fl \<Longrightarrow> zws_to_flags (flags_to_zws fl) = Ok fl"
  by (cases fl) (auto simp: one_flag_def zws_to_flags_def flags_to_zws_def ZWS_FLAG_FINAL_def
    ZWS_FLAG_MORE_def ZWS_FLAG_COMMAND_def FF_LAST_def FF_MORE_def FF_COMMAND_def)

lemma flags_final_iff: "one_flag fl \<Longrightarrow> flags_to_zws fl = ZWS_FLAG_FINAL \<longleftrightarrow> fl = FF_LAST"
  by (cases fl) (auto simp: one_flag_def flags_to_zws_def ZWS_FLAG_FINAL_def
    ZWS_FLAG_MORE_def ZWS_FLAG_COMMAND_def FF_LAST_def)

lemma receive_zmtp:
  assumes "ss_state t = StReady" "ss_ws_role t = None" "over_limit t (length body) = None"
    and "one_flag fl" "length body < isize_max"
    and "decode_assembled_frame C fl (payload_from_slice body) t = (t', Ok ())"
  shows "conn_run C now t (frame_enc (fl, body) @ rest) = conn_run C now t' rest"
proof -
  have ok: "frame_ok (fl, body)" using assms(4,5) by (simp add: frame_ok_def one_flag_def)
  have hdr: "frame_hdr (frame_enc (fl, body) @ rest)
      = Ok (Some \<lparr>ph_flags = fl, ph_header_len = header_len_for (length body), ph_payload_len = length body\<rparr>)"
    using assms(4,5) by (simp add: frame_enc_def frame_hdr_header one_flag_def)
  have "zmtp_dec t (frame_enc (fl, body) @ rest) = Ok (Some (U_Frame fl body, length (frame_enc (fl, body))))"
    using assms(1,3) by (simp add: zmtp_dec_def bounded_frame_dec_def hdr frame_dec_enc [OF ok])
  from zmtp_driver.run_unit [OF this, of C now] assms(1,6) have
    "run_machine zmtp_dec (zmtp_apply C now) t (frame_enc (fl, body) @ rest)
      = run_machine zmtp_dec (zmtp_apply C now) t' rest" by simp
  moreover have "ss_ws_role t' = None"
    using decode_assembled_link [OF assms(6)] assms(2) by (simp add: link_kept_def)
  ultimately show ?thesis using assms(2) by (simp add: conn_run_role(1))
qed

text \<open>The bytes of a binary frame after its header, and what the receiver's parser makes of them.\<close>

lemma ws_wire_header:
  assumes "ss_ws_role s = Some rl" "length body < isize_max"
  obtains hdr key r where
    "encode_ws_header OP_BINARY (1 + length body) rl (ss_rng s) = (hdr, key, r)"
    "frame_wire s (fl, body) = hdr @ (case key of Some k \<Rightarrow> apply_mask (flags_to_zws fl # body) k
        | None \<Rightarrow> flags_to_zws fl # body)"
    "ws_hdr rl (frame_wire s (fl, body) @ rest) = Ok (Some \<lparr>wh_fin = True, wh_opcode = OP_BINARY,
        wh_payload_len = 1 + length body, wh_header_len = length hdr, wh_masked = (rl = WsClient),
        wh_mask_key = (case key of Some k \<Rightarrow> k | None \<Rightarrow> [0, 0, 0, 0])\<rparr>)"
    "key \<noteq> None \<longleftrightarrow> rl = WsClient"
proof -
  obtain hdr key r where e: "encode_ws_header OP_BINARY (1 + length body) rl (ss_rng s) = (hdr, key, r)"
    by (metis surj_pair)
  have wire: "frame_wire s (fl, body) = hdr @ (case key of Some k \<Rightarrow> apply_mask (flags_to_zws fl # body) k
        | None \<Rightarrow> flags_to_zws fl # body)"
    using e assms(1) by (simp add: frame_wire_def encode_ws_binary_header_def split: option.split)
  have "ws_sendable OP_BINARY (1 + length body)"
    using assms(2) by (simp add: ws_sendable_def isize_max_def)
  note h = ws_hdr_encode [OF e this]
  have "key \<noteq> None \<longleftrightarrow> rl = WsClient"
    using e by (auto simp: encode_ws_header_def Let_def split: if_splits prod.splits)
  then show ?thesis using that e wire h [of "_ @ rest"] by simp
qed

lemma ws_header_short:
  assumes "encode_ws_header OP_BINARY n rl r = (hdr, key, r')"
  shows "2 \<le> length hdr"
    "n \<le> 125 \<Longrightarrow> hdr = [0x82, if rl = WsClient then 0x80 OR of_nat n else of_nat n] @ (case key of Some k \<Rightarrow> k | None \<Rightarrow> [])"
    "125 < n \<Longrightarrow> hdr ! 1 AND 0x7F = 126 \<or> hdr ! 1 AND 0x7F = 127"
    "key = Some k \<Longrightarrow> length k = 4"
proof -
  obtain k' r1 where k': "generate_mask_key r = (k', r1)" "length k' = 4"
    by (metis fill_bytesE generate_mask_key_def)
  show "2 \<le> length hdr"
    "n \<le> 125 \<Longrightarrow> hdr = [0x82, if rl = WsClient then 0x80 OR of_nat n else of_nat n] @ (case key of Some k \<Rightarrow> k | None \<Rightarrow> [])"
    "125 < n \<Longrightarrow> hdr ! 1 AND 0x7F = 126 \<or> hdr ! 1 AND 0x7F = 127"
    "key = Some k \<Longrightarrow> length k = 4"
    using assms k' by (cases rl; auto simp: encode_ws_header_def Let_def ws_consts split: if_splits)+
qed

lemma apply_mask_involution: "apply_mask (apply_mask data k) k = data"
  by (simp add: apply_mask_cycle xor_cycle_involution)

lemma over_limit_exact:
  "over_limit t n = None \<Longrightarrow> n < isize_max \<Longrightarrow> cfg_max_message_size (ss_config t) = Some mx \<Longrightarrow> n + 64 \<le> mx"
  by (auto simp: over_limit_def sat_add_def PAYLOAD_SIZE_def usize_max_def isize_max_def split: if_splits)

lemma ws_slow_unit:
  assumes rx: "ss_state t = StReady" "ss_ws_role s = Some rl" "over_limit t (length body) = None"
    and fl: "length body < isize_max"
    and slow: "ws_dec rl t (frame_wire s (fl, body) @ rest) = ws_slow_dec rl t (frame_wire s (fl, body) @ rest)"
  shows "\<exists>h raw. ws_dec rl t (frame_wire s (fl, body) @ rest) = Ok (Some (W_Frame h raw, length (frame_wire s (fl, body))))
    \<and> wh_opcode h = OP_BINARY \<and> wh_fin h \<and> ws_unmask h raw = flags_to_zws fl # body"
proof -
  let ?z = "flags_to_zws fl"
  from ws_wire_header [OF rx(2) fl, of fl rest] obtain hdr key r where
    wire: "frame_wire s (fl, body) = hdr @ (case key of Some k \<Rightarrow> apply_mask (?z # body) k | None \<Rightarrow> ?z # body)" and
    hdr: "ws_hdr rl (frame_wire s (fl, body) @ rest) = Ok (Some \<lparr>wh_fin = True, wh_opcode = OP_BINARY,
        wh_payload_len = 1 + length body, wh_header_len = length hdr, wh_masked = (rl = WsClient),
        wh_mask_key = (case key of Some k \<Rightarrow> k | None \<Rightarrow> [0, 0, 0, 0])\<rparr>)" and
    client: "key \<noteq> None \<longleftrightarrow> rl = WsClient" by blast
  define raw where "raw = (case key of Some k \<Rightarrow> apply_mask (?z # body) k | None \<Rightarrow> ?z # body)"
  define h where "h = \<lparr>wh_fin = True, wh_opcode = OP_BINARY,
        wh_payload_len = 1 + length body, wh_header_len = length hdr, wh_masked = (rl = WsClient),
        wh_mask_key = (case key of Some k \<Rightarrow> k | None \<Rightarrow> [0, 0, 0, 0])\<rparr>"
  have len: "length raw = 1 + length body"
    by (simp add: raw_def apply_mask_cycle split: option.split)
  have cap: "\<not> (case ws_payload_cap t of Some cap \<Rightarrow> cap < 1 + length body | None \<Rightarrow> False)"
    using rx(1) over_limit_exact [OF rx(3) fl] by (auto simp: ws_payload_cap_def split: option.split)
  have "ws_dec rl t (frame_wire s (fl, body) @ rest) = Ok (Some (W_Frame h raw, length hdr + (1 + length body)))"
    using cap len unfolding slow ws_slow_dec_def hdr
    by (simp add: wire h_def raw_def [symmetric] split: option.splits)
  moreover have "ws_unmask h raw = ?z # body"
    using client by (cases key) (auto simp: ws_unmask_def h_def raw_def apply_mask_involution)
  moreover have "length (frame_wire s (fl, body)) = length hdr + (1 + length body)"
    using len by (simp add: wire raw_def [symmetric])
  ultimately show ?thesis
    by (intro exI [of _ h] exI [of _ raw]) (simp add: h_def)
qed

lemma receive_ws_slow:
  assumes rx: "rx_open t" "ss_ws_role s = Some rl" "over_limit t (length body) = None"
    and fl: "one_flag fl" "length body < isize_max"
    and slow: "ws_dec rl t (frame_wire s (fl, body) @ rest) = ws_slow_dec rl t (frame_wire s (fl, body) @ rest)"
    and dec: "decode_assembled_frame C fl (payload_from_bytes body) t = (t', Ok ())"
  shows "run_machine (ws_dec rl) (ws_apply C now) t (frame_wire s (fl, body) @ rest)
    = run_machine (ws_dec rl) (ws_apply C now) t' rest"
proof -
  let ?z = "flags_to_zws fl"
  have "ss_state t = StReady" using rx(1) by (simp add: rx_open_def)
  from ws_slow_unit [OF this rx(2,3) fl(2) slow] obtain h raw where
    unit: "ws_dec rl t (frame_wire s (fl, body) @ rest) = Ok (Some (W_Frame h raw, length (frame_wire s (fl, body))))" and
    h: "wh_opcode h = OP_BINARY" "wh_fin h" "ws_unmask h raw = ?z # body" by blast
  have pl: "(if 1 < length (?z # body) then payload_from_bytes (drop 1 (?z # body)) else payload_new) = payload_from_bytes body"
    by (simp add: payload_from_bytes_def)
  have "ws_apply C now (W_Frame h raw) t = (t', Ok ())"
    using rx(1) dec fl(1) h
    by (simp add: ws_data_payload_def rx_open_def dispatch_ws_payload_def pl [simplified] zws_flags_inverse
      dispatch_ws_binary_def)
  with ws_driver.run_unit [OF unit, of C now] show ?thesis by simp
qed

lemma fast_frame_wire:
  assumes "ss_ws_role s = Some rl" "length body \<le> MAX_INLINE_MESSAGE"
  shows "fast_frame rl (frame_wire s (fl, body))"
proof -
  have len: "length body < isize_max" using assms(2) by (simp add: MAX_INLINE_MESSAGE_def isize_max_def)
  obtain hdr key r where
    e: "encode_ws_header OP_BINARY (1 + length body) rl (ss_rng s) = (hdr, key, r)" and
    wire: "frame_wire s (fl, body) = hdr @ (case key of Some k \<Rightarrow> apply_mask (flags_to_zws fl # body) k
        | None \<Rightarrow> flags_to_zws fl # body)" and
    "ws_hdr rl (frame_wire s (fl, body) @ []) = Ok (Some \<lparr>wh_fin = True, wh_opcode = OP_BINARY,
        wh_payload_len = 1 + length body, wh_header_len = length hdr, wh_masked = (rl = WsClient),
        wh_mask_key = (case key of Some k \<Rightarrow> k | None \<Rightarrow> [0, 0, 0, 0])\<rparr>)" and
    "key \<noteq> None \<longleftrightarrow> rl = WsClient"
    by (rule ws_wire_header [OF assms(1) len, of fl "[]"])
  have n: "1 + length body \<le> 125" using assms(2) by (simp add: MAX_INLINE_MESSAGE_def)
  note b = len7_bits [OF n]
  from ws_header_short(2) [OF e n] have hdr: "frame_wire s (fl, body) ! 0 = 0x82"
    "frame_wire s (fl, body) ! 1 = (if rl = WsClient then 0x80 OR of_nat (1 + length body) else of_nat (1 + length body))"
    by (simp_all add: wire)
  show ?thesis
    unfolding fast_frame_def hdr using b assms(2) by (cases rl) (simp_all del: of_nat_add of_nat_Suc)
qed

lemma ws_fast_unit_wire:
  assumes rl: "ss_ws_role s = Some rl" and len: "length body < isize_max"
    and fast: "fast_frame rl (frame_wire s (fl, body) @ rest)"
  shows "unat ((frame_wire s (fl, body) @ rest) ! 1 AND 0x7F) = 1 + length body"
    "length (frame_wire s (fl, body)) = fast_header_len rl + (1 + length body)"
    "ws_fast_unit rl (1 + length body) (frame_wire s (fl, body) @ rest) = W_Fast (rl = WsClient) (flags_to_zws fl) body"
    "length body \<le> MAX_INLINE_MESSAGE"
proof -
  let ?z = "flags_to_zws fl" and ?n = "1 + length body"
  obtain hdr key r where
    e: "encode_ws_header OP_BINARY ?n rl (ss_rng s) = (hdr, key, r)" and
    wire: "frame_wire s (fl, body) = hdr @ (case key of Some k \<Rightarrow> apply_mask (?z # body) k | None \<Rightarrow> ?z # body)" and
    "ws_hdr rl (frame_wire s (fl, body) @ rest) = Ok (Some \<lparr>wh_fin = True, wh_opcode = OP_BINARY,
        wh_payload_len = 1 + length body, wh_header_len = length hdr, wh_masked = (rl = WsClient),
        wh_mask_key = (case key of Some k \<Rightarrow> k | None \<Rightarrow> [0, 0, 0, 0])\<rparr>)" and
    client: "key \<noteq> None \<longleftrightarrow> rl = WsClient"
    by (rule ws_wire_header [OF rl len, of fl rest])
  note sh = ws_header_short [OF e]
  have one: "(frame_wire s (fl, body) @ rest) ! 1 = hdr ! 1" using sh(1) by (simp add: wire nth_append)
  have n: "?n \<le> 125"
  proof (rule ccontr)
    assume "\<not> ?n \<le> 125"
    with sh(3) have "unat (hdr ! 1 AND 0x7F) \<ge> 126" by auto
    moreover have "unat (hdr ! 1 AND 0x7F) - 1 \<le> 55"
      using fast unfolding fast_frame_def one MAX_INLINE_MESSAGE_def by blast
    ultimately show False by linarith
  qed
  note hdr = sh(2) [OF n]
  have seven: "unat (hdr ! 1 AND 0x7F) = ?n" unfolding hdr by (simp add: len7_bits [OF n] del: of_nat_Suc plus_nat.simps) (simp add: len7_bits [OF n, simplified])
  then show "unat ((frame_wire s (fl, body) @ rest) ! 1 AND 0x7F) = ?n" using one by simp
  show "length body \<le> MAX_INLINE_MESSAGE" using fast one seven by (simp add: fast_frame_def)
  show "length (frame_wire s (fl, body)) = fast_header_len rl + ?n"
    using client sh(4) by (cases key) (auto simp: wire hdr fast_header_len_def apply_mask_cycle)
  show "ws_fast_unit rl ?n (frame_wire s (fl, body) @ rest) = W_Fast (rl = WsClient) ?z body"
  proof (cases key)
    case None
    with client show ?thesis by (simp add: ws_fast_unit_def fast_header_len_def wire hdr)
  next
    case (Some k)
    define d ds where "d = ?z XOR k ! 0" and "ds = apply_mask_offset body k 1"
    then have m: "apply_mask (?z # body) k = d # ds" "length ds = length body"
      by (simp_all add: mask_first apply_mask_offset_cycle)
    have "apply_mask (d # ds) k = ?z # body" unfolding m(1) [symmetric] by (rule apply_mask_involution)
    then have un: "d XOR k ! 0 = ?z" "apply_mask_offset ds k 1 = body" by (simp_all add: mask_first)
    have xs: "frame_wire s (fl, body) @ rest = [0x82, 0x80 OR of_nat ?n] @ k @ d # ds @ rest"
      using Some client by (simp add: wire hdr m(1))
    show ?thesis
      using Some client sh(4) [OF Some] un m(2)
      unfolding ws_fast_unit_def xs by (simp add: fast_header_len_def nth_append Let_def)
  qed
qed

lemma ws_wire_length:
  assumes "ss_ws_role s = Some rl" "length body < isize_max"
  shows "2 \<le> length (frame_wire s (fl, body))"
proof -
  obtain hdr key r where
    e: "encode_ws_header OP_BINARY (1 + length body) rl (ss_rng s) = (hdr, key, r)" and
    w: "frame_wire s (fl, body) = hdr @ (case key of Some k \<Rightarrow> apply_mask (flags_to_zws fl # body) k
        | None \<Rightarrow> flags_to_zws fl # body)" and
    "ws_hdr rl (frame_wire s (fl, body) @ []) = Ok (Some \<lparr>wh_fin = True, wh_opcode = OP_BINARY,
        wh_payload_len = 1 + length body, wh_header_len = length hdr, wh_masked = (rl = WsClient),
        wh_mask_key = (case key of Some k \<Rightarrow> k | None \<Rightarrow> [0, 0, 0, 0])\<rparr>)" and
    "key \<noteq> None \<longleftrightarrow> rl = WsClient"
    by (rule ws_wire_header [OF assms, of fl "[]"])
  then show ?thesis using ws_header_short(1) [OF e] by (simp add: w)
qed

text \<open>The payload the fast path builds: a masked frame is copied out, an unmasked one sliced.\<close>

definition fast_payload :: "ws_role \<Rightarrow> frame_flags \<Rightarrow> bytes \<Rightarrow> payload" where
  "fast_payload rl fl body =
     (if rl = WsClient \<and> fl \<noteq> FF_LAST then payload_from_bytes body else payload_from_slice body)"

lemma receive_ws_fast:
  assumes rx: "session_inv t" "ss_ws_role s = Some rl" "over_limit t (length body) = None"
    and fl: "one_flag fl" "length body < isize_max"
    and True: "fast_state t \<and> fast_frame rl (frame_wire s (fl, body))"
    and dec: "decode_assembled_frame C fl (fast_payload rl fl body) t = (t', Ok ())"
  shows "run_machine (ws_dec rl) (ws_apply C now) t (frame_wire s (fl, body) @ rest)
    = run_machine (ws_dec rl) (ws_apply C now) t' rest"
proof -
  note w2 = ws_wire_length [OF rx(2) fl(2), of fl]
  let ?xs = "frame_wire s (fl, body) @ rest" and ?z = "flags_to_zws fl"
  note u = ws_fast_unit_wire [OF rx(2) fl(2) conjunct2 [OF True, folded fast_frame_append [OF w2, of rl rest]]]
  have "0 < fast_header_len rl" by (simp add: fast_header_len_def)
  then have unit: "ws_dec rl t ?xs = Ok (Some (W_Fast (rl = WsClient) ?z body, length (frame_wire s (fl, body))))"
    using True w2 rx(1,3) u by (simp add: fast_frame_append ws_dec_def ws_fast_dec_def fast_state_def Let_def)
  have "ws_apply C now (W_Fast (rl = WsClient) ?z body) t = (t', Ok ())"
    if "decode_assembled_frame C fl (fast_payload rl fl body) t = (t', Ok ())" for t'
  proof (cases "fl = FF_LAST")
    case last: True
    have "absorb_data_frame False (payload_from_slice body) t
        = (t\<lparr>ss_messages := ss_messages t @ [from_inline body]\<rparr>, Ok True)"
      using absorb_small [of t body] rx u(4) True by (simp add: fast_state_def)
    moreover have "flags_to_zws FF_LAST = ZWS_FLAG_FINAL" "\<not> ff_command FF_LAST" "\<not> ff_more FF_LAST"
      by (simp_all add: flags_final_iff one_flag_def FF_LAST_def)
    ultimately show ?thesis using that last True
      by (simp add: fast_payload_def decode_assembled_frame_def fast_state_def has_frame_transform_def drop_flag_def)
  next
    case False
    with that True show ?thesis
      by (simp add: flags_final_iff [OF fl(1)] zws_flags_inverse [OF fl(1)] dispatch_ws_binary_def fast_state_def
        fast_payload_def split: if_splits)
  qed
  from this [OF dec] show ?thesis
    using ws_driver.run_unit [OF unit, of C now] by simp
qed

lemma receive_frame:
  assumes rx: "rx_open t" "linked s t" "over_limit t (length body) = None"
    and fl: "one_flag fl" "length body < isize_max"
  shows "\<exists>p. payload_wf p \<and> payload_as_slice p = body \<and>
    (\<forall>t'. decode_assembled_frame C fl p t = (t', Ok ()) \<longrightarrow>
       (\<forall>rest. conn_run C now t (frame_wire s (fl, body) @ rest) = conn_run C now t' rest))"
proof (cases "ss_ws_role t")
  case None
  with rx(2) have "frame_wire s (fl, body) = frame_enc (fl, body)" by (simp add: linked_def frame_wire_def)
  with receive_zmtp [OF _ None rx(3) fl, of C] rx(1) show ?thesis
    by (intro exI [of _ "payload_from_slice body"]) (simp add: rx_open_def view_simps wf_intros)
next
  case (Some r)
  let ?rl = "peer_ws_role r" and ?w = "frame_wire s (fl, body)"
  have rl: "ss_ws_role s = Some ?rl" using rx(2) Some by (simp add: linked_def)
  let ?p = "if fast_state t \<and> fast_frame ?rl ?w then fast_payload ?rl fl body else payload_from_bytes body"
  have run: "run_machine (ws_dec ?rl) (ws_apply C now) t (?w @ rest) = run_machine (ws_dec ?rl) (ws_apply C now) t' rest"
    if dec: "decode_assembled_frame C fl ?p t = (t', Ok ())" for t' rest
  proof (cases "fast_state t \<and> fast_frame ?rl ?w")
    case True
    from receive_ws_fast [OF _ rl rx(3) fl True] rx(1) dec True show ?thesis by (simp add: rx_open_def)
  next
    case False
    have w2: "2 \<le> length ?w" by (rule ws_wire_length [OF rl fl(2)])
    have "ws_dec ?rl t (?w @ rest) = ws_slow_dec ?rl t (?w @ rest)"
      using False rx(1) w2 by (auto simp: ws_dec_def rx_open_def fast_frame_append)
    from receive_ws_slow [OF rx(1) rl rx(3) fl this, of C] dec False show ?thesis by simp
  qed
  have "conn_run C now t (?w @ rest) = conn_run C now t' rest"
    if dec: "decode_assembled_frame C fl ?p t = (t', Ok ())" for t' rest
    using run [OF dec] decode_assembled_link [OF dec] Some by (simp add: conn_run_role(2) link_kept_def)
  moreover have "payload_wf ?p" "payload_as_slice ?p = body"
    by (simp_all add: fast_payload_def view_simps wf_intros)
  ultimately show ?thesis by blast
qed

section \<open>Messages over the wire\<close>

text \<open>
  A sender and a receiver after the handshake: in the clear, or with the two
  ends of one CURVE channel.
\<close>

definition channel :: "crypto \<Rightarrow> session \<Rightarrow> session \<Rightarrow> bool" where
  "channel C s t \<longleftrightarrow> linked s t \<and>
     (case (ss_transform s, ss_transform t) of
        (None, None) \<Rightarrow> True
      | (Some tx, Some rx) \<Rightarrow> tx_rx C tx rx
      | _ \<Rightarrow> False)"

text \<open>An encrypted part travels in a MESSAGE command with a counter, a tag and a flag byte.\<close>

definition part_overhead :: "session \<Rightarrow> nat" where
  "part_overhead t = (if ss_transform t = None then 0 else 33)"

definition part_fits :: "session \<Rightarrow> nat \<Rightarrow> bool" where
  "part_fits t n \<longleftrightarrow> n + 33 < isize_max \<and>
     (case cfg_max_message_size (ss_config t) of
        None \<Rightarrow> True | Some mx \<Rightarrow> n + part_overhead t + PAYLOAD_SIZE \<le> mx)"

definition size_fits :: "session \<Rightarrow> nat \<Rightarrow> bool" where
  "size_fits t n \<longleftrightarrow>
     (case cfg_max_message_size (ss_config t) of None \<Rightarrow> True | Some mx \<Rightarrow> ss_pending_size t + n \<le> mx)"

definition message_fits :: "session \<Rightarrow> bytes list \<Rightarrow> bool" where
  "message_fits t bs \<longleftrightarrow> list_all (\<lambda>b. part_fits t (length b)) bs
     \<and> size_fits t (sum_list (map (\<lambda>b. length b + PAYLOAD_SIZE) bs))"

lemma absorb_fits:
  assumes "payload_wf q" "size_fits t (length (payload_as_slice q) + PAYLOAD_SIZE)"
  shows "\<exists>sz. absorb_data_frame mor q t = (absorb_part mor q (t\<lparr>ss_pending_size := sz\<rparr>), Ok True)
    \<and> sz \<le> ss_pending_size t + (length (payload_as_slice q) + PAYLOAD_SIZE)"
  using assms by (auto simp: absorb_data_frame_def size_fits_def sat_add_def payload_len_slice Let_def
    split: option.splits)

lemma encrypt_length:
  assumes "crypto_laws C" "encrypt_message C tx mor cmd pt = (tx', Ok body)"
  shows "length (message_command_frame body) = 33 + length pt"
proof -
  let ?m = "((if mor then 1 else 0) OR push_bit 1 (if cmd then 1 else 0)) # pt"
  from encrypt_message_Ok [OF assms(2)] obtain tag ct n where
    body: "body = u64_be (ct_out_counter tx') @ tag @ ct"
      "cr_box_seal_detached C (ct_peer_public tx) (ct_our_secret tx) n ?m = (tag, ct)" by blast
  then have "length tag = 16" "length ct = 1 + length pt"
    using crypto_lawsD(5,6) [OF assms(1), of "ct_peer_public tx" "ct_our_secret tx" n ?m] by simp_all
  then show ?thesis by (simp add: body(1) message_command_frame_def ascii_def)
qed

text \<open>What one part does at both ends.\<close>

definition part_sent :: "crypto \<Rightarrow> nat \<Rightarrow> bool \<Rightarrow> payload \<Rightarrow> session \<Rightarrow> session \<Rightarrow> session \<Rightarrow> session \<Rightarrow> bool" where
  "part_sent C now mor p s s1 t t1 \<longleftrightarrow> out_ok s1 \<and> channel C s1 t1 \<and>
     (\<exists>w. poll_transmit s1 = poll_transmit s @ w \<and> (\<forall>rest. conn_run C now t (w @ rest) = conn_run C now t1 rest)) \<and>
     (\<exists>q sz tr. payload_wf q \<and> payload_as_slice q = payload_as_slice p
        \<and> sz \<le> ss_pending_size t + (length (payload_as_slice p) + PAYLOAD_SIZE)
        \<and> (tr = None \<longleftrightarrow> ss_transform t = None)
        \<and> t1 = absorb_part mor q (t\<lparr>ss_transform := tr, ss_pending_size := sz\<rparr>))"

lemma absorb_part_keeps [simp]:
  "ss_transform (absorb_part mor q t) = ss_transform t" "ss_ws_role (absorb_part mor q t) = ss_ws_role t"
  "ss_config (absorb_part mor q t) = ss_config t" "ss_state (absorb_part mor q t) = ss_state t"
  "ss_events (absorb_part mor q t) = ss_events t" "ss_ws_fragment (absorb_part mor q t) = ss_ws_fragment t"
  by (simp_all add: absorb_part_def Let_def)

lemma emit_frame_kept: "ss_ws_role (emit_frame fl p s) = ss_ws_role s" "ss_transform (emit_frame fl p s) = ss_transform s"
  by (auto simp: emit_frame_def emit_ws_frame_def push_chunk_def Let_def split: option.split prod.split)

lemma part_flags: "one_flag (if mor then FF_MORE else FF_LAST)"
  "ff_more (if mor then FF_MORE else FF_LAST) = mor" "\<not> ff_command (if mor then FF_MORE else FF_LAST)"
  by (simp_all add: one_flag_def FF_MORE_def FF_LAST_def)

lemma clear_part_sent:
  assumes ch: "channel C s t" "ss_transform s = None" and rx: "rx_open t" and s: "out_ok s" "payload_wf p"
    and fits: "part_fits t (length (payload_as_slice p))" "size_fits t (length (payload_as_slice p) + PAYLOAD_SIZE)"
  shows "\<exists>t1. part_sent C now mor p s (emit_frame (if mor then FF_MORE else FF_LAST) p s) t t1"
proof -
  let ?fl = "if mor then FF_MORE else FF_LAST" and ?b = "payload_as_slice p"
  have tr: "ss_transform t = None" and link: "linked s t"
    using ch by (auto simp: channel_def split: option.splits)
  have lim: "over_limit t (length ?b) = None" "length ?b < isize_max"
    using fits(1) tr by (auto simp: part_fits_def over_limit_def part_overhead_def sat_add_def split: option.splits)
  from receive_frame [OF rx link lim(1) part_flags(1) lim(2), where C = C and now = now and mor1 = mor] obtain q where
    q: "payload_wf q" "payload_as_slice q = ?b" "\<forall>t'. decode_assembled_frame C ?fl q t = (t', Ok ()) \<longrightarrow>
       (\<forall>rest. conn_run C now t (frame_wire s (?fl, ?b) @ rest) = conn_run C now t' rest)" by blast
  from absorb_fits [of q t mor] q(1,2) fits(2) obtain sz where
    sz: "absorb_data_frame mor q t = (absorb_part mor q (t\<lparr>ss_pending_size := sz\<rparr>), Ok True)"
      "sz \<le> ss_pending_size t + (length ?b + PAYLOAD_SIZE)" by auto
  let ?t1 = "absorb_part mor q (t\<lparr>ss_pending_size := sz\<rparr>)"
  have "decode_assembled_frame C ?fl q t = (?t1, Ok ())"
    using tr sz(1) part_flags by (simp add: decode_assembled_frame_def drop_flag_def)
  with q(3) have run: "\<forall>rest. conn_run C now t (frame_wire s (?fl, ?b) @ rest) = conn_run C now ?t1 rest" by blast
  have "channel C (emit_frame ?fl p s) ?t1"
    using ch tr by (simp add: channel_def linked_def emit_frame_kept)
  moreover have "t\<lparr>ss_pending_size := sz\<rparr> = t\<lparr>ss_transform := None, ss_pending_size := sz\<rparr>" using tr by simp
  ultimately show ?thesis
    unfolding part_sent_def using emit_frame_out [OF s, of ?fl] run q(1,2) sz(2) tr by metis
qed

lemma curve_part_sent:
  assumes laws: "crypto_laws C" and ch: "channel C s t" "ss_transform s \<noteq> None" and rx: "rx_open t" and s: "out_ok s"
    and fits: "part_fits t (length (payload_as_slice p))" "size_fits t (length (payload_as_slice p) + PAYLOAD_SIZE)"
    and send: "send_part_curve C mor p s = (s1, Ok ())"
  shows "\<exists>t1. part_sent C now mor p s s1 t t1"
proof -
  let ?fl = "if mor then FF_MORE else FF_LAST" and ?pt = "payload_as_slice p"
  from ch obtain tx rx' where tr: "ss_transform s = Some tx" "ss_transform t = Some rx'" "tx_rx C tx rx'" "linked s t"
    by (auto simp: channel_def split: option.splits)
  from send tr(1) obtain tx1 body where
    enc: "encrypt_message C tx mor False ?pt = (tx1, Ok body)" and
    s1: "s1 = emit_frame ?fl (payload_from_bytes (message_command_frame body)) (s\<lparr>ss_transform := Some tx1\<rparr>)"
    by (auto simp: send_part_curve_def view_simps split: prod.splits sum.splits)
  let ?b = "message_command_frame body" and ?s = "s\<lparr>ss_transform := Some tx1\<rparr>"
  from decrypt_encrypt [OF laws tr(3) enc] obtain rx1 where
    dec: "decrypt_message C rx' body = (rx1, Ok (mor, False, ?pt))" "tx_rx C tx1 rx1" by blast
  have len: "length ?b = 33 + length ?pt" by (rule encrypt_length [OF laws enc])
  have lim: "over_limit t (length ?b) = None" "length ?b < isize_max"
    using fits(1) tr(2) len by (auto simp: part_fits_def over_limit_def part_overhead_def sat_add_def split: option.splits)
  have link: "linked ?s t" using tr(4) by (simp add: linked_def)
  from receive_frame [OF rx link lim(1) part_flags(1) lim(2), where C = C and now = now and mor1 = mor] obtain q where
    q: "payload_as_slice q = ?b" "\<forall>t'. decode_assembled_frame C ?fl q t = (t', Ok ()) \<longrightarrow>
       (\<forall>rest. conn_run C now t (frame_wire ?s (?fl, ?b) @ rest) = conn_run C now t' rest)" by blast
  let ?t = "t\<lparr>ss_transform := Some rx1\<rparr>" and ?q = "payload_from_bytes ?pt"
  have q': "payload_wf ?q" "payload_as_slice ?q = ?pt" by (simp_all add: view_simps wf_intros)
  have "size_fits ?t (length ?pt + PAYLOAD_SIZE)" using fits(2) by (simp add: size_fits_def split: option.splits)
  with absorb_fits [OF q'(1), of ?t mor] obtain sz where
    sz: "absorb_data_frame mor ?q ?t = (absorb_part mor ?q (?t\<lparr>ss_pending_size := sz\<rparr>), Ok True)"
      "sz \<le> ss_pending_size t + (length ?pt + PAYLOAD_SIZE)" by (auto simp: q'(2))
  let ?t1 = "absorb_part mor ?q (t\<lparr>ss_transform := Some rx1, ss_pending_size := sz\<rparr>)"
  have "payload_as_bytes q = CURVE_MESSAGE_PREFIX @ body"
    by (simp add: payload_as_bytes_slice q(1) message_command_frame_def CURVE_MESSAGE_PREFIX_def ascii_def)
  then have "decode_assembled_frame C ?fl q t = (?t1, Ok ())"
    using tr(2) dec(1) sz(1) by (simp add: decode_assembled_frame_def dispatch_decrypted_def drop_flag_def)
  with q(2) have run: "\<forall>rest. conn_run C now t (frame_wire ?s (?fl, ?b) @ rest) = conn_run C now ?t1 rest" by blast
  have "out_ok ?s" "poll_transmit ?s = poll_transmit s" using s by (simp_all add: out_ok_update)
  then have "out_ok s1" "poll_transmit s1 = poll_transmit s @ frame_wire ?s (?fl, ?b)"
    unfolding s1 by (simp_all add: emit_frame_out payload_from_bytes_wf payload_from_bytes_slice)
  moreover have "channel C s1 ?t1"
    using ch tr dec(2) by (simp add: channel_def linked_def emit_frame_kept s1)
  ultimately show ?thesis
    unfolding part_sent_def using run q' sz(2) tr(2) by (metis option.distinct(1))
qed

lemma send_parts_step:
  assumes "crypto_laws C" "channel C s t" "rx_open t" "out_ok s" "payload_wf p"
    and "part_fits t (length (payload_as_slice p))" "size_fits t (length (payload_as_slice p) + PAYLOAD_SIZE)"
    and "send_parts C n i (p # ps) s = (s2, Ok ())"
  shows "\<exists>s1 t1. send_parts C n (i + 1) ps s1 = (s2, Ok ()) \<and> part_sent C now (i + 1 < n) p s s1 t t1"
proof (cases "ss_transform s = None")
  case True
  with clear_part_sent [OF assms(2) True assms(3,4,5,6,7)] assms(8) show ?thesis by (fastforce simp: Let_def)
next
  case False
  with assms(8) obtain s1 where "send_part_curve C (i + 1 < n) p s = (s1, Ok ())" "send_parts C n (i + 1) ps s1 = (s2, Ok ())"
    by (auto simp: Let_def split: prod.splits sum.splits)
  with curve_part_sent [OF assms(1,2) False assms(3,4,6,7)] show ?thesis by blast
qed

text \<open>
  What the receiver has gained: the bytes the sender queued take it to a state
  with the new messages, and the two ends are again in step.
\<close>

definition delivered ::
  "crypto \<Rightarrow> nat \<Rightarrow> session \<Rightarrow> session \<Rightarrow> session \<Rightarrow> session \<Rightarrow> bytes list list \<Rightarrow> bool" where
  "delivered C now s s2 t t2 bss \<longleftrightarrow> out_ok s2 \<and> channel C s2 t2 \<and> rx_open t2 \<and> ss_pending_parts t2 = [] \<and>
     (\<exists>w. poll_transmit s2 = poll_transmit s @ w \<and> (\<forall>rest. conn_run C now t (w @ rest) = conn_run C now t2 rest)) \<and>
     (\<exists>ms. ss_messages t2 = ss_messages t @ ms \<and> map parts ms = bss) \<and>
     ss_events t2 = ss_events t \<and> ss_config t2 = ss_config t \<and> (ss_transform t2 = None \<longleftrightarrow> ss_transform t = None)"

lemma absorb_more:
  "absorb_part True q t = t\<lparr>ss_pending_parts := ss_pending_parts t @ [q]\<rparr>"
  by (simp add: absorb_part_def)

lemma part_sent_fits:
  assumes "part_sent C now mor p s s1 t t1"
  shows "part_fits t1 n = part_fits t n"
    "mor \<Longrightarrow> size_fits t (length (payload_as_slice p) + PAYLOAD_SIZE + k) \<Longrightarrow> size_fits t1 k"
    "rx_open t \<Longrightarrow> rx_open t1" "ss_config t1 = ss_config t" "ss_transform t1 = None \<longleftrightarrow> ss_transform t = None"
    "ss_events t1 = ss_events t"
proof -
  from assms obtain q sz tr where t1: "payload_wf q" "payload_as_slice q = payload_as_slice p"
      "sz \<le> ss_pending_size t + (length (payload_as_slice p) + PAYLOAD_SIZE)" "tr = None \<longleftrightarrow> ss_transform t = None"
      "t1 = absorb_part mor q (t\<lparr>ss_transform := tr, ss_pending_size := sz\<rparr>)"
    unfolding part_sent_def by (elim conjE exE) (rule that; assumption)
  then show "ss_config t1 = ss_config t" "ss_transform t1 = None \<longleftrightarrow> ss_transform t = None" "ss_events t1 = ss_events t"
    by simp_all
  with t1 show "part_fits t1 n = part_fits t n" by (simp add: part_fits_def part_overhead_def split: option.split)
  show "mor \<Longrightarrow> size_fits t (length (payload_as_slice p) + PAYLOAD_SIZE + k) \<Longrightarrow> size_fits t1 k"
    using t1(3,5) by (auto simp: size_fits_def absorb_more split: option.splits)
  show "rx_open t \<Longrightarrow> rx_open t1"
    using t1(5) by (auto simp: rx_open_def session_inv_def absorb_part_def Let_def split: if_splits)
qed

lemma part_sent_last:
  assumes "part_sent C now False p s s1 t t1" "rx_open t"
  shows "delivered C now s s1 t t1 [map payload_as_slice (ss_pending_parts t @ [p])]"
proof -
  from assms obtain q sz tr where t1: "payload_wf q" "payload_as_slice q = payload_as_slice p"
      "t1 = absorb_part False q (t\<lparr>ss_transform := tr, ss_pending_size := sz\<rparr>)"
    unfolding part_sent_def by blast
  have "\<exists>m. ss_messages t1 = ss_messages t @ [m] \<and> parts m = map payload_as_slice (ss_pending_parts t @ [q])"
    unfolding t1(3) by (auto simp: absorb_part_def Let_def view_simps)
  then have "\<exists>ms. ss_messages t1 = ss_messages t @ ms
      \<and> map parts ms = [map payload_as_slice (ss_pending_parts t @ [p])]"
    by (elim exE) (rule_tac x = "[m]" in exI, simp add: t1(2))
  moreover have "ss_pending_parts t1 = []" unfolding t1(3) by (auto simp: absorb_part_def Let_def)
  moreover have "out_ok s1" "channel C s1 t1"
    "\<exists>w. poll_transmit s1 = poll_transmit s @ w \<and> (\<forall>rest. conn_run C now t (w @ rest) = conn_run C now t1 rest)"
    using assms(1) unfolding part_sent_def by blast+
  ultimately show ?thesis
    unfolding delivered_def using part_sent_fits(3-6) [OF assms(1)] assms(2) by (intro conjI) simp_all
qed

lemma delivered_trans:
  assumes "delivered C now s s1 t t1 a" "delivered C now s1 s2 t1 t2 b"
  shows "delivered C now s s2 t t2 (a @ b)"
proof -
  from assms obtain v w where
    v: "poll_transmit s1 = poll_transmit s @ v" "\<forall>rest. conn_run C now t (v @ rest) = conn_run C now t1 rest" and
    w: "poll_transmit s2 = poll_transmit s1 @ w" "\<forall>rest. conn_run C now t1 (w @ rest) = conn_run C now t2 rest"
    unfolding delivered_def by (elim conjE exE) (rule that; assumption)
  from assms obtain ms ns where
    ms: "ss_messages t1 = ss_messages t @ ms" "map parts ms = a" "ss_messages t2 = ss_messages t1 @ ns" "map parts ns = b"
    unfolding delivered_def by (elim conjE exE) (rule that; assumption)
  have "poll_transmit s2 = poll_transmit s @ (v @ w)"
    "\<forall>rest. conn_run C now t ((v @ w) @ rest) = conn_run C now t2 rest"
    using v w by simp_all
  moreover have "ss_messages t2 = ss_messages t @ (ms @ ns)" "map parts (ms @ ns) = a @ b" using ms by simp_all
  ultimately show ?thesis
    using assms unfolding delivered_def by (intro conjI exI) (assumption | simp)+
qed

lemma delivered_step:
  assumes "part_sent C now True p s s1 t t1" "delivered C now s1 s2 t1 t2 [bs]"
  shows "delivered C now s s2 t t2 [bs]"
proof -
  from assms obtain v w where
    v: "poll_transmit s1 = poll_transmit s @ v" "\<forall>rest. conn_run C now t (v @ rest) = conn_run C now t1 rest" and
    w: "poll_transmit s2 = poll_transmit s1 @ w" "\<forall>rest. conn_run C now t1 (w @ rest) = conn_run C now t2 rest"
    unfolding delivered_def part_sent_def by (elim conjE exE) (rule that; assumption)
  have "poll_transmit s2 = poll_transmit s @ (v @ w)"
    "\<forall>rest. conn_run C now t ((v @ w) @ rest) = conn_run C now t2 rest"
    using v w by simp_all
  moreover have "ss_messages t1 = ss_messages t"
    using assms(1) unfolding part_sent_def by (auto simp: absorb_more)
  ultimately show ?thesis
    using assms(2) part_sent_fits(4-6) [OF assms(1)] unfolding delivered_def
    by (intro conjI exI [of _ "v @ w"]) simp_all
qed

lemma part_sent_pending:
  assumes "part_sent C now True p s s1 t t1"
  shows "map payload_as_slice (ss_pending_parts t1) = map payload_as_slice (ss_pending_parts t @ [p])"
    "out_ok s1" "channel C s1 t1"
  using assms unfolding part_sent_def by (auto simp: absorb_more)

lemma send_parts_received:
  assumes "crypto_laws C" "channel C s t" "rx_open t" "out_ok s" "list_all payload_wf ps" "ps \<noteq> []" "i + length ps = n"
    and "list_all (\<lambda>p. part_fits t (length (payload_as_slice p))) ps"
    and "size_fits t (sum_list (map (\<lambda>p. length (payload_as_slice p) + PAYLOAD_SIZE) ps))"
    and "send_parts C n i ps s = (s2, Ok ())"
  shows "\<exists>t2. delivered C now s s2 t t2 [map payload_as_slice (ss_pending_parts t @ ps)]"
  using assms
proof (induction ps arbitrary: i s t)
  case Nil
  then show ?case by simp
next
  case (Cons p ps)
  let ?k = "sum_list (map (\<lambda>p. length (payload_as_slice p) + PAYLOAD_SIZE) ps)"
  have fits: "part_fits t (length (payload_as_slice p))" "size_fits t (length (payload_as_slice p) + PAYLOAD_SIZE)"
    using Cons.prems(8,9) by (auto simp: size_fits_def split: option.splits)
  have "payload_wf p" using Cons.prems(5) by simp
  from send_parts_step [OF Cons.prems(1-4) this fits Cons.prems(10)] obtain s1 t1 where
    step: "send_parts C n (i + 1) ps s1 = (s2, Ok ())" "part_sent C now (i + 1 < n) p s s1 t t1" by blast
  show ?case
  proof (cases "ps = []")
    case True
    with Cons.prems(7) step have "s1 = s2" "part_sent C now False p s s1 t t1" by simp_all
    with part_sent_last [OF _ Cons.prems(3)] True show ?thesis by blast
  next
    case False
    then have "i + 1 < n" using Cons.prems(7) by (cases ps) auto
    with step have sent: "part_sent C now True p s s1 t t1" by simp
    note k = part_sent_fits [OF sent] and pend = part_sent_pending [OF sent]
    have "size_fits t1 ?k" using k(2) Cons.prems(9) by (simp add: add.assoc)
    with Cons.IH [OF Cons.prems(1) pend(3) k(3) [OF Cons.prems(3)] pend(2) _ False _ _ _ step(1)] Cons.prems(5,7,8) k(1)
    obtain t2 where "delivered C now s1 s2 t1 t2 [map payload_as_slice (ss_pending_parts t1 @ ps)]" by auto
    with delivered_step [OF sent] pend(1) show ?thesis by auto
  qed
qed

fun send_all :: "crypto \<Rightarrow> message list \<Rightarrow> session \<Rightarrow> session \<times> unit result" where
  "send_all C [] s = (s, Ok ())"
| "send_all C (m # ms) s =
     (case send_message C m s of (s, Inl e) \<Rightarrow> (s, Err e) | (s, Inr _) \<Rightarrow> send_all C ms s)"

definition sendable :: "session \<Rightarrow> message \<Rightarrow> bool" where
  "sendable t m \<longleftrightarrow> message_wf m \<and> parts m \<noteq> [] \<and> message_fits t (parts m)"

lemma message_fits_cong:
  assumes "ss_config t' = ss_config t" "ss_transform t' = None \<longleftrightarrow> ss_transform t = None"
    and "ss_pending_size t' = ss_pending_size t"
  shows "message_fits t' bs = message_fits t bs"
  using assms by (simp add: message_fits_def part_fits_def size_fits_def part_overhead_def split: option.split)

lemma send_message_received:
  assumes "crypto_laws C" "channel C s t" "rx_open t" "ss_pending_parts t = []" "out_ok s" "sendable t m"
    and "send_message C m s = (s2, Ok ())"
  shows "\<exists>t2. delivered C now s s2 t t2 [parts m]"
proof -
  let ?ps = "parts_payload m"
  have "send_parts C (length ?ps) 0 ?ps s = (s2, Ok ())"
    using assms(7) by (simp add: send_message_def Let_def split: if_splits)
  moreover have v: "map payload_as_slice ?ps = parts m" by (rule parts_payload_view)
  moreover have "list_all payload_wf ?ps" "?ps \<noteq> []"
    using assms(6) v by (auto simp: sendable_def parts_payload_wf)
  moreover have "list_all (\<lambda>p. part_fits t (length (payload_as_slice p))) ?ps"
    "size_fits t (sum_list (map (\<lambda>p. length (payload_as_slice p) + PAYLOAD_SIZE) ?ps))"
    using assms(6) unfolding sendable_def message_fits_def v [symmetric]
    by (simp_all add: list.pred_map comp_def)
  ultimately show ?thesis
    using send_parts_received [OF assms(1,2,3,5), of ?ps 0 "length ?ps"] assms(4) by simp
qed

lemma send_all_received:
  assumes "crypto_laws C" "channel C s t" "rx_open t" "ss_pending_parts t = []" "out_ok s" "list_all (sendable t) ms"
    and "send_all C ms s = (s2, Ok ())"
  shows "\<exists>t2. delivered C now s s2 t t2 (map parts ms)"
  using assms
proof (induction ms arbitrary: s t)
  case Nil
  then show ?case by (intro exI [of _ t]) (simp add: delivered_def)
next
  case (Cons m ms)
  from Cons.prems(7) obtain s1 where
    s1: "send_message C m s = (s1, Ok ())" "send_all C ms s1 = (s2, Ok ())"
    by (auto split: prod.splits sum.splits)
  from send_message_received [OF Cons.prems(1-5) _ s1(1)] Cons.prems(6) obtain t1 where
    t1: "delivered C now s s1 t t1 [parts m]" by auto
  then have k: "out_ok s1" "channel C s1 t1" "rx_open t1" "ss_pending_parts t1 = []" "ss_config t1 = ss_config t"
    "ss_transform t1 = None \<longleftrightarrow> ss_transform t = None" unfolding delivered_def by blast+
  have "ss_pending_size t1 = ss_pending_size t"
    using k(3,4) Cons.prems(3,4) by (simp add: rx_open_def session_inv_def)
  with message_fits_cong [OF k(5,6)] Cons.prems(6) have "list_all (sendable t1) ms"
    by (simp add: sendable_def list_all_iff)
  from Cons.IH [OF Cons.prems(1) k(2,3,4,1) this s1(2)] obtain t2 where
    "delivered C now s1 s2 t1 t2 (map parts ms)" by blast
  with delivered_trans [OF t1] show ?case by auto
qed

text \<open>Two ends ready for application traffic, with nothing in flight.\<close>

definition in_step :: "crypto \<Rightarrow> session \<Rightarrow> connection \<Rightarrow> bool" where
  "in_step C s c \<longleftrightarrow> out_ok s \<and> poll_transmit s = [] \<and> channel C s (cn_session c)
     \<and> settled c \<and> rx_open (cn_session c) \<and> ss_pending_parts (cn_session c) = [] \<and> cb_flat (cn_in_buf c) = []"

lemma delivered_whole:
  assumes "crypto_laws C" "in_step C s c" "list_all (sendable (cn_session c)) ms"
    and "send_all C ms s = (s', Ok ())" "concat pieces = poll_transmit s'"
  shows "\<exists>c' ns. feed C now c pieces = (c', Ok ())
    \<and> ss_messages (cn_session c') = ss_messages (cn_session c) @ ns \<and> map parts ns = map parts ms
    \<and> ss_events (cn_session c') = ss_events (cn_session c)
    \<and> in_step C (advance_transmit (length (poll_transmit s')) s') c'"
proof -
  let ?t = "cn_session c"
  have i: "out_ok s" "poll_transmit s = []" "channel C s ?t" "settled c" "rx_open ?t" "ss_pending_parts ?t = []"
    "cb_flat (cn_in_buf c) = []" using assms(2) by (simp_all add: in_step_def)
  from send_all_received [OF assms(1) i(3,5,6,1) assms(3,4)] obtain t2 where
    d: "delivered C now s s' ?t t2 (map parts ms)" by blast
  then obtain w ms' where
    w: "poll_transmit s' = poll_transmit s @ w" "\<forall>rest. conn_run C now ?t (w @ rest) = conn_run C now t2 rest" and
    m: "ss_messages t2 = ss_messages ?t @ ms'" "map parts ms' = map parts ms"
    unfolding delivered_def by (elim conjE exE) (rule that; assumption)
  from d have k: "out_ok s'" "channel C s' t2" "rx_open t2" "ss_pending_parts t2 = []" "ss_events t2 = ss_events ?t"
    unfolding delivered_def by blast+
  have "conn_run C now ?t (cb_flat (cn_in_buf c) @ concat pieces) = (t2, Ok (), [])"
    using w(2) [rule_format, of "[]"] w(1) i(2,7) assms(5) conn_run_wait [OF conn_dec_Nil, of C now t2] by simp
  from feed_run [OF i(4) _ this] i(5) k(3) obtain b where
    b: "feed C now c pieces = (\<lparr>cn_session = t2, cn_in_buf = b\<rparr>, Ok ())"
      "settled \<lparr>cn_session = t2, cn_in_buf = b\<rparr>" "cb_flat b = []"
    by (auto simp: rx_open_def accepting_def)
  let ?s = "advance_transmit (length (poll_transmit s')) s'"
  have "out_ok ?s" "poll_transmit ?s = []" using advance_transmit_out [OF k(1)] by simp_all
  moreover have "channel C ?s t2"
    using k(2) by (simp add: channel_def linked_def advance_transmit_def split: prod.split)
  ultimately have "in_step C ?s \<lparr>cn_session = t2, cn_in_buf = b\<rparr>"
    using b(2,3) k(3,4) by (simp add: in_step_def)
  with b(1) m k(5) show ?thesis by (intro exI [of _ "\<lparr>cn_session = t2, cn_in_buf = b\<rparr>"] exI [of _ ms']) simp
qed

text \<open>
  C1.  Delivery: messages sent on a ready connection, over TCP or WebSocket
  framing and with or without CURVE encryption, are received by the other end
  as the same sequence of messages with the same parts, however the transport
  cuts the bytes into reads; nothing else is delivered, no byte is left over, and
  the two ends stay in step.
\<close>

theorem message_delivery:
  assumes "crypto_laws C" "in_step C s c" "list_all (sendable (cn_session c)) ms"
    and "send_all C ms s = (s', Ok ())" "concat pieces = poll_transmit s'"
  shows "\<exists>c' ns. feed C now c pieces = (c', Ok ())
    \<and> ss_messages (cn_session c') = ss_messages (cn_session c) @ ns \<and> map parts ns = map parts ms
    \<and> ss_events (cn_session c') = ss_events (cn_session c)
    \<and> in_step C (advance_transmit (length (poll_transmit s')) s') c'"
  by (rule delivered_whole [OF assms])

definition ready_session :: "curve_transform \<Rightarrow> ws_role \<Rightarrow> session" where
  "ready_session tx rl = (session_init pull_config (MNull null_new) zero_rng)
     \<lparr>ss_state := StReady, ss_transform := Some tx, ss_ws_role := Some rl\<rparr>"

definition two_messages :: "message list" where
  "two_messages = [multipart [[1], [2, 3]], single [7]]"

lemma two_messages_sent:
  "\<exists>s'. send_all clear_crypto two_messages (ready_session clear_tx WsClient) = (s', Ok ())"
  by (simp add: two_messages_def send_message_def Let_def send_part_curve_def encrypt_message_def
    ready_session_def session_init_def clear_tx_def build_transform_def checked_succ_def clear_crypto_def
    emit_frame_kept outbound_only_fields(2) [OF emit_frame_outbound] multipart_from_vec from_payloads_vec_def
    single_def from_payload_def from_inline_def MAX_INLINE_MESSAGE_def)

lemma ready_sessions_in_step:
  "in_step clear_crypto (ready_session clear_tx WsClient)
     \<lparr>cn_session = ready_session clear_rx WsServer, cn_in_buf = cb_new\<rparr>"
proof -
  have "tx_rx clear_crypto clear_tx clear_rx"
    by (simp add: tx_rx_def clear_tx_def clear_rx_def build_transform_def)
  then show ?thesis
    using conn_dec_Nil cb_new_wf
    by (simp add: in_step_def ready_session_def session_init_def out_ok_def poll_transmit_def channel_def linked_def
      settled_def session_inv_def rx_open_def peer_ws_role_def)
qed

theorem message_delivery_witness:
  "\<exists>s' c' ns. send_all clear_crypto two_messages (ready_session clear_tx WsClient) = (s', Ok ())
    \<and> feed clear_crypto 0 \<lparr>cn_session = ready_session clear_rx WsServer, cn_in_buf = cb_new\<rparr>
        [take 5 (poll_transmit s'), drop 5 (poll_transmit s')] = (c', Ok ())
    \<and> ss_messages (cn_session c') = ns \<and> map parts ns = [[[1], [2, 3]], [[7]]]"
proof -
  obtain s' where s': "send_all clear_crypto two_messages (ready_session clear_tx WsClient) = (s', Ok ())"
    using two_messages_sent by blast
  let ?c = "\<lparr>cn_session = ready_session clear_rx WsServer, cn_in_buf = cb_new\<rparr>"
  have "list_all (sendable (cn_session ?c)) two_messages"
    by (simp add: two_messages_def sendable_def view_simps wf_intros message_fits_def part_fits_def size_fits_def
      ready_session_def session_init_def pull_config_def config_new_def isize_max_def)
  moreover have "concat [take 5 (poll_transmit s'), drop 5 (poll_transmit s')] = poll_transmit s'" by simp
  ultimately show ?thesis
    using message_delivery [OF clear_crypto_laws(1) ready_sessions_in_step _ s', of _ 0] s'
    by (fastforce simp: two_messages_def view_simps ready_session_def session_init_def)
qed

end
