(* ===== verification/Handshake.thy ===== *)
theory Handshake
  imports Delivery
begin

text \<open>
  The life of a connection: the handshake gate.  Nothing reaches the
  application before the handshake is complete, it completes once and only with
  a peer of a compatible socket type, and a connection configured for CURVE
  never carries unencrypted data after it.
\<close>

section \<open>The gate of a session\<close>

fun is_curve :: "security_mechanism \<Rightarrow> bool" where
  "is_curve (MCurve _) = True"
| "is_curve _ = False"

definition opens_with :: "socket_type \<Rightarrow> event \<Rightarrow> bool" where
  "opens_with st e \<longleftrightarrow>
     (case e of
        HandshakeSucceeded _ props \<Rightarrow>
          (case pp_socket_type props of Some pt \<Rightarrow> is_compatible st pt | None \<Rightarrow> False)
      | _ \<Rightarrow> False)"

definition is_command_event :: "event \<Rightarrow> bool" where
  "is_command_event e \<longleftrightarrow> (case e of EvCommand _ \<Rightarrow> True | _ \<Rightarrow> False)"

text \<open>\<open>evs\<close> and \<open>ms\<close> are the events and messages the owner has already taken out.\<close>

definition gate :: "event list \<Rightarrow> message list \<Rightarrow> session \<Rightarrow> bool" where
  "gate evs ms s \<longleftrightarrow> is_curve (ss_mechanism s) = setup_has_frame_transform (cfg_mechanism (ss_config s)) \<and>
     (case evs @ ss_events s of
        [] \<Rightarrow> ms = [] \<and> ss_messages s = [] \<and> ss_pending_parts s = [] \<and> ss_transform s = None
          \<and> ss_state s \<in> {AwaitingGreeting, MechanismHandshake, StClosed}
      | e # es \<Rightarrow> opens_with (cfg_socket_type (ss_config s)) e \<and> list_all is_command_event es
          \<and> ss_state s \<notin> {AwaitingGreeting, MechanismHandshake}
          \<and> (ss_transform s \<noteq> None \<longleftrightarrow> setup_has_frame_transform (cfg_mechanism (ss_config s))))"

lemma gate_state:
  assumes "gate evs ms s"
  shows "ss_state s \<in> {AwaitingGreeting, MechanismHandshake} \<Longrightarrow>
      evs = [] \<and> ms = [] \<and> ss_events s = [] \<and> ss_messages s = [] \<and> ss_pending_parts s = [] \<and> ss_transform s = None"
    "ss_state s \<notin> {AwaitingGreeting, MechanismHandshake, StClosed} \<Longrightarrow> evs @ ss_events s \<noteq> []"
  using assms by (auto simp: gate_def split: list.splits)

text \<open>Steps that do not concern the gate.\<close>

definition quiet :: "session \<Rightarrow> session \<Rightarrow> bool" where
  "quiet s s' \<longleftrightarrow> ss_config s' = ss_config s \<and> ss_state s' = ss_state s \<and> ss_events s' = ss_events s
     \<and> ss_messages s' = ss_messages s \<and> ss_pending_parts s' = ss_pending_parts s
     \<and> (ss_transform s' = None \<longleftrightarrow> ss_transform s = None) \<and> is_curve (ss_mechanism s') = is_curve (ss_mechanism s)"

lemma gate_quiet: "quiet s s' \<Longrightarrow> gate evs ms s' \<longleftrightarrow> gate evs ms s"
  by (simp add: quiet_def gate_def split: list.split)

lemma quiet_refl [simp]: "quiet s s"
  by (simp add: quiet_def)

lemma quiet_trans: "quiet s t \<Longrightarrow> quiet t u \<Longrightarrow> quiet s u"
  by (simp add: quiet_def)

lemma quiet_outbound:
  assumes "outbound_only s s'" "ss_transform s' = None \<longleftrightarrow> ss_transform s = None"
  shows "quiet s s'"
  using assms(2) outbound_only_fields [OF assms(1)] by (simp add: quiet_def)

lemma write_outbound_transform:
  "ss_transform (fst (write_outbound_commands C cmds s)) = None \<longleftrightarrow> ss_transform s = None"
proof (induction cmds arbitrary: s)
  case Nil
  then show ?case by simp
next
  case (Cons c cs)
  then show ?case
    by (simp add: emit_command_frame_def emit_frame_kept del: not_None_eq split: option.split prod.split sum.split)
qed

lemma write_outbound_quiet: "write_outbound_commands C cmds s = (s', r) \<Longrightarrow> quiet s s'"
  using quiet_outbound [OF write_outbound_commands_outbound write_outbound_transform, of s C cmds] by simp

lemma send_parts_transform:
  "ss_transform (fst (send_parts C n i ps s)) = None \<longleftrightarrow> ss_transform s = None"
proof (induction ps arbitrary: i s)
  case Nil
  then show ?case by simp
next
  case (Cons p ps)
  have one: "ss_transform (fst (send_part_curve C mor p s)) = None \<longleftrightarrow> ss_transform s = None" for mor
    by (auto simp: send_part_curve_def emit_frame_kept split: option.split prod.split sum.split)
  obtain t r where "send_part_curve C (i + 1 < n) p s = (t, r)" by (metis surj_pair)
  with one [of "i + 1 < n"] Cons.IH show ?case
    by (cases r) (auto simp: Let_def emit_frame_kept)
qed

lemma send_quiet:
  "quiet s (fst (send_message C m s))" "quiet s (fst (send_command C cmd s))"
  "quiet s (advance_transmit n s)"
proof -
  show "quiet s (fst (send_message C m s))"
    by (rule quiet_outbound [OF send_message_outbound])
      (simp add: send_message_def Let_def send_parts_transform)
  show "quiet s (fst (send_command C cmd s))"
    using write_outbound_quiet [of C "[cmd]" s] by (cases "write_outbound_commands C [cmd] s")
      (simp add: send_command_def del: write_outbound_commands.simps)
  show "quiet s (advance_transmit n s)"
    by (simp add: quiet_def advance_transmit_def split: prod.split)
qed

lemma mechanism_start_kind: "mechanism_start C m p out = (m', out', r) \<Longrightarrow> is_curve m' = is_curve m"
  by (auto simp: mechanism_start_def split: security_mechanism.splits prod.splits)

lemma mechanism_on_command_kind:
  "mechanism_on_command C now r m cmd out = (r', m', out', st) \<Longrightarrow> is_curve m' = is_curve m"
  by (auto simp: mechanism_on_command_def split: security_mechanism.splits prod.splits)

lemma build_transform_kind: "mechanism_build_transform m = Ok t \<Longrightarrow> t \<noteq> None \<longleftrightarrow> is_curve m"
  by (cases m) (auto simp: mechanism_build_transform_def rbind_Ok_iff)

section \<open>Dispatch keeps the gate\<close>

text \<open>After the handshake: only command events and messages are added.\<close>

lemma gate_open:
  assumes "gate evs ms s" "evs @ ss_events s \<noteq> []" "ss_config s' = ss_config s"
    and "ss_state s' \<notin> {AwaitingGreeting, MechanismHandshake}"
    and "ss_events s' = ss_events s @ es" "list_all is_command_event es"
    and "ss_transform s' = None \<longleftrightarrow> ss_transform s = None" "is_curve (ss_mechanism s') = is_curve (ss_mechanism s)"
  shows "gate evs ms s'"
proof -
  from assms(2) obtain e l where "evs @ ss_events s = e # l" by (cases "evs @ ss_events s") auto
  with assms show ?thesis
    by (simp add: gate_def list_all_append [symmetric] append_assoc [symmetric] del: append_assoc)
qed

definition open_step :: "session \<Rightarrow> session \<Rightarrow> bool" where
  "open_step s s' \<longleftrightarrow> ss_config s' = ss_config s \<and> ss_state s' = ss_state s
     \<and> (\<exists>es. ss_events s' = ss_events s @ es \<and> list_all is_command_event es)
     \<and> (ss_transform s' = None \<longleftrightarrow> ss_transform s = None) \<and> is_curve (ss_mechanism s') = is_curve (ss_mechanism s)"

lemma open_step_gate:
  assumes "open_step s s'" "gate evs ms s" "ss_state s \<notin> {AwaitingGreeting, MechanismHandshake, StClosed}"
  shows "gate evs ms s'"
  using assms gate_open [OF assms(2) gate_state(2) [OF assms(2,3)], of s'] by (auto simp: open_step_def)

lemma quiet_open_step: "quiet s s' \<Longrightarrow> open_step s s'"
  by (simp add: quiet_def open_step_def)

lemma open_step_trans:
  assumes "open_step s t" "open_step t u"
  shows "open_step s u"
proof -
  from assms obtain es fs where "ss_events t = ss_events s @ es" "list_all is_command_event es"
      "ss_events u = ss_events t @ fs" "list_all is_command_event fs"
    unfolding open_step_def by (elim conjE exE) (rule that; assumption)
  then have "ss_events u = ss_events s @ (es @ fs)" "list_all is_command_event (es @ fs)" by simp_all
  with assms show ?thesis unfolding open_step_def by (intro conjI exI [of _ "es @ fs"]) simp_all
qed

lemma absorb_open: "absorb_data_frame mor p s = (s', r) \<Longrightarrow> open_step s s'"
  by (auto simp: absorb_data_frame_def absorb_part_def open_step_def Let_def split: option.splits if_splits)

lemma post_handshake_open: "handle_post_handshake_command C cmd s = (s', r) \<Longrightarrow> open_step s s'"
  by (auto simp: handle_post_handshake_command_def open_step_def is_command_event_def
    split: command.splits simp del: write_outbound_commands.simps
    dest: write_outbound_quiet [THEN quiet_open_step, unfolded open_step_def])

lemma drop_flag_absorb_open: "drop_flag (absorb_data_frame mor p s) = (s', r) \<Longrightarrow> open_step s s'"
  using absorb_open [of mor p s] by (cases "absorb_data_frame mor p s") (auto dest: drop_flag_fst)

lemma dispatch_decrypted_open: "dispatch_decrypted C cmdf mor pt s = (s', r) \<Longrightarrow> open_step s s'"
  by (auto simp: dispatch_decrypted_def quiet_open_step split: if_splits sum.splits
    dest: post_handshake_open drop_flag_absorb_open)

lemma decode_assembled_open: "decode_assembled_frame C fl p s = (s', r) \<Longrightarrow> open_step s s'"
proof -
  have tr: "open_step s (s\<lparr>ss_transform := Some tx\<rparr>)" if "ss_transform s \<noteq> None" for tx
    using that by (simp add: open_step_def)
  assume "decode_assembled_frame C fl p s = (s', r)"
  then show ?thesis
    using tr
    by (auto simp: decode_assembled_frame_def Let_def quiet_open_step split: option.splits if_splits prod.splits sum.splits
      dest: post_handshake_open drop_flag_absorb_open dispatch_decrypted_open intro: open_step_trans)
qed

text \<open>During it: the session stays closed to the application or opens.\<close>

lemma complete_handshake_gate:
  assumes "gate evs ms s" "ss_state s = MechanismHandshake" "complete_handshake props s = (s', r)"
  shows "gate evs ms s'"
proof -
  have "evs = [] \<and> ms = [] \<and> ss_events s = []"
    using gate_state(1) [OF assms(1)] assms(2) by simp
  with assms(1,3) show ?thesis
    by (auto simp: complete_handshake_def gate_def opens_with_def split: option.splits if_splits sum.splits
      dest: build_transform_kind)
qed

lemma mechanism_frame_gate:
  assumes "gate evs ms s" "ss_state s = MechanismHandshake" "mechanism_frame C now fl body s = (s', r)"
  shows "gate evs ms s'"
proof (cases "\<not> ff_command fl \<or> (\<exists>e. decode_command_raw body = Err e)")
  case True
  with assms show ?thesis by (auto simp: mechanism_frame_def process_mechanism_command_def split: if_splits)
next
  case False
  then obtain cmd where cmd: "ff_command fl" "decode_command_raw body = Ok cmd"
    by (cases "decode_command_raw body") auto
  obtain r1 m cmds st where on: "mechanism_on_command C now (ss_rng s) (ss_mechanism s) cmd [] = (r1, m, cmds, st)"
    by (metis surj_pair)
  let ?s = "s\<lparr>ss_rng := r1, ss_mechanism := m\<rparr>"
  have q: "quiet s ?s" using mechanism_on_command_kind [OF on] by (simp add: quiet_def)
  obtain s1 w where wr: "write_outbound_commands C cmds ?s = (s1, w)" by (metis surj_pair)
  have q1: "quiet s s1" by (rule quiet_trans [OF q write_outbound_quiet [OF wr]])
  then have g1: "gate evs ms s1" "ss_state s1 = MechanismHandshake"
    using assms(1,2) gate_quiet [OF q1] by (simp_all add: quiet_def)
  have "gate evs ms ?s" using gate_quiet [OF q] assms(1) by simp
  with assms(3) cmd on wr g1 complete_handshake_gate [OF g1] show ?thesis
    by (auto simp: mechanism_frame_def process_mechanism_command_def Let_def split: sum.splits mechanism_step.splits)
qed

lemma accept_greeting_gate:
  assumes "gate evs ms s" "ss_state s = AwaitingGreeting" "accept_greeting C g raw s = (s', r)"
  shows "gate evs ms s'"
proof (cases "s' = s")
  case False
  obtain m cmds st where on: "mechanism_start C (ss_mechanism s) (our_props (ss_config s)) [] = (m, cmds, st)"
    by (metis surj_pair)
  let ?s = "s\<lparr>ss_peer_minor := effective_minor (gr_minor g), ss_peer_greeting := raw,
      ss_state := MechanismHandshake, ss_mechanism := m\<rparr>"
  have "gate evs ms ?s"
    using assms(1,2) gate_state(1) [OF assms(1)] mechanism_start_kind [OF on] by (simp add: gate_def)
  moreover obtain s1 w where wr: "write_outbound_commands C cmds ?s = (s1, w)" by (metis surj_pair)
  ultimately have "gate evs ms s1" using gate_quiet [OF write_outbound_quiet [OF wr]] by simp
  with \<open>gate evs ms ?s\<close> assms(3) on wr False show ?thesis
    by (auto simp: accept_greeting_def start_handshake_def Let_def split: sum.splits if_splits)
qed (use assms(1) in simp)

lemma zmtp_unit_gate:
  assumes "gate evs ms s" "zmtp_dec s xs = Ok (Some (u, k))" "zmtp_apply C now u s = (s', r)"
  shows "gate evs ms s'"
proof (cases u)
  case (U_Greeting g raw)
  with assms(2) have "ss_state s = AwaitingGreeting"
    by (auto simp: zmtp_dec_def bounded_frame_dec_def rbind_Ok_iff split: conn_state.splits sum.splits option.splits)
  with U_Greeting assms accept_greeting_gate show ?thesis by simp
next
  case (U_Frame fl body)
  with assms(2) have "ss_state s = MechanismHandshake \<or> ss_state s = StReady"
    by (auto simp: zmtp_dec_def rbind_Ok_iff split: conn_state.splits)
  then show ?thesis
  proof
    assume "ss_state s = MechanismHandshake"
    with U_Frame assms(1,3) show ?thesis by (auto dest: mechanism_frame_gate)
  next
    assume "ss_state s = StReady"
    with U_Frame assms(1,3) show ?thesis by (auto dest!: decode_assembled_open dest: open_step_gate)
  qed
qed

lemma dispatch_ws_binary_gate:
  "gate evs ms s \<Longrightarrow> dispatch_ws_binary C now fl p s = (s', r) \<Longrightarrow> gate evs ms s'"
  by (auto simp: dispatch_ws_binary_def split: conn_state.splits
    dest: mechanism_frame_gate open_step_gate [OF decode_assembled_open])

lemma ws_data_payload_gate:
  assumes "gate evs ms s" "ws_data_payload C now op fin raw s = (s', r)"
  shows "gate evs ms s'"
proof -
  have "gate evs ms (s\<lparr>ss_ws_fragment := f\<rparr>)" for f
    using assms(1) gate_quiet [of s "s\<lparr>ss_ws_fragment := f\<rparr>"] by (simp add: quiet_def)
  with assms show ?thesis
    by (auto simp: ws_data_payload_def dispatch_ws_payload_def Let_def split: if_splits option.splits sum.splits
      dest: dispatch_ws_binary_gate)
qed

lemma gate_closed: "gate evs ms s \<Longrightarrow> gate evs ms (s\<lparr>ss_state := StClosed\<rparr>)"
  by (cases "evs @ ss_events s") (simp_all add: gate_def)

lemma queue_control_quiet: "quiet s (queue_ws_close b s)" "quiet s (queue_ws_pong b s)"
proof -
  have "ss_transform (queue_ws_close b s) = ss_transform s" "ss_transform (queue_ws_pong b s) = ss_transform s"
    by (simp_all add: queue_ws_close_def queue_ws_pong_def Let_def split: prod.split)
  then show "quiet s (queue_ws_close b s)" "quiet s (queue_ws_pong b s)"
    by (simp_all add: quiet_outbound queue_ws_close_outbound queue_ws_pong_outbound)
qed

lemma close_gate: "gate evs ms s \<Longrightarrow> gate evs ms ((queue_ws_close b s)\<lparr>ss_state := StClosed\<rparr>)"
  using gate_quiet [OF queue_control_quiet(1)] gate_closed by blast

lemma ws_unit_gate:
  assumes "gate evs ms s" "ws_dec peer s xs = Ok (Some (u, k))" "ws_apply C now u s = (s', r)"
  shows "gate evs ms s'"
proof (cases u)
  case (W_Fast masked fl body)
  with assms(2) have "fast_state s"
    by (auto simp: ws_dec_def ws_slow_dec_def split: if_splits sum.splits option.splits)
  then have "ss_state s = StReady" by (simp add: fast_state_def)
  then have "gate evs ms (s\<lparr>ss_messages := l\<rparr>)" for l
    by (intro open_step_gate [OF _ assms(1)]) (simp_all add: open_step_def)
  with W_Fast assms show ?thesis by (auto split: if_splits sum.splits dest: dispatch_ws_binary_gate)
next
  case (W_Frame h raw)
  with assms show ?thesis
    by (auto simp: ws_close_with_def send_ws_close_def send_empty_ws_close_def Let_def close_gate gate_closed
      gate_quiet [OF queue_control_quiet(2)] split: if_splits list.splits dest: ws_data_payload_gate)
qed

lemma conn_run_gate:
  assumes "conn_run C now s xs = (s', res, rest)" "gate evs ms s"
  shows "gate evs ms s'"
proof (cases "ss_ws_role s")
  case None
  with assms(1) have run: "run_machine zmtp_dec (zmtp_apply C now) s xs = (s', res, rest)" by (simp add: conn_run_def)
  show ?thesis by (rule zmtp_driver.run_invariant [where P = "gate evs ms", OF _ run assms(2)]) (rule zmtp_unit_gate)
next
  case (Some rl)
  with assms(1) have run: "run_machine (ws_dec (peer_ws_role rl)) (ws_apply C now) s xs = (s', res, rest)"
    by (simp add: conn_run_def)
  show ?thesis by (rule ws_driver.run_invariant [where P = "gate evs ms", OF _ run assms(2)]) (rule ws_unit_gate)
qed

section \<open>The life of a connection\<close>

text \<open>
  Every use of a connection by its owner up to the first error, with what the
  owner has taken out: events and messages.
\<close>

inductive conn_trace :: "crypto \<Rightarrow> connection_config \<Rightarrow> connection \<Rightarrow> event list \<Rightarrow> message list \<Rightarrow> bool"
  for C cfg where
  trace_new: "connection_new C cfg r = Ok c \<Longrightarrow> conn_trace C cfg c [] []"
| trace_input: "conn_trace C cfg c evs ms \<Longrightarrow> handle_input C now src c = (c', Ok ()) \<Longrightarrow> conn_trace C cfg c' evs ms"
| trace_event: "conn_trace C cfg c evs ms \<Longrightarrow> poll_event (cn_session c) = (s, Some e)
    \<Longrightarrow> conn_trace C cfg (c\<lparr>cn_session := s\<rparr>) (evs @ [e]) ms"
| trace_message: "conn_trace C cfg c evs ms \<Longrightarrow> poll_message (cn_session c) = (s, Some m)
    \<Longrightarrow> conn_trace C cfg (c\<lparr>cn_session := s\<rparr>) evs (ms @ [m])"
| trace_swap: "conn_trace C cfg c evs ms \<Longrightarrow> swap_messages [] (cn_session c) = (s, l)
    \<Longrightarrow> conn_trace C cfg (c\<lparr>cn_session := s\<rparr>) evs (ms @ l)"
| trace_send: "conn_trace C cfg c evs ms
    \<Longrightarrow> conn_trace C cfg (c\<lparr>cn_session := fst (send_message C m (cn_session c))\<rparr>) evs ms"
| trace_command: "conn_trace C cfg c evs ms
    \<Longrightarrow> conn_trace C cfg (c\<lparr>cn_session := fst (send_command C cmd (cn_session c))\<rparr>) evs ms"
| trace_advance: "conn_trace C cfg c evs ms
    \<Longrightarrow> conn_trace C cfg (c\<lparr>cn_session := advance_transmit n (cn_session c)\<rparr>) evs ms"
| trace_close: "conn_trace C cfg c evs ms \<Longrightarrow> conn_trace C cfg (c\<lparr>cn_session := conn_close (cn_session c)\<rparr>) evs ms"
| trace_begin: "conn_trace C cfg c evs ms \<Longrightarrow> begin_supplied_payload c = (c', Some n) \<Longrightarrow> conn_trace C cfg c' evs ms"
| trace_begin_prefix: "conn_trace C cfg c evs ms \<Longrightarrow> begin_supplied_payload_with_prefix c = (c', Some np)
    \<Longrightarrow> conn_trace C cfg c' evs ms"
| trace_supply: "conn_trace C cfg c evs ms \<Longrightarrow> supply_payload C now data c = (c', Ok ()) \<Longrightarrow> conn_trace C cfg c' evs ms"

definition on_track :: "connection_config \<Rightarrow> connection \<Rightarrow> event list \<Rightarrow> message list \<Rightarrow> bool" where
  "on_track cfg c evs ms \<longleftrightarrow> settled c \<and> gate evs ms (cn_session c) \<and> ss_config (cn_session c) = cfg"

text \<open>What the decoder reads of a session.\<close>

lemma settled_same:
  assumes "settled c"
    and k: "ss_config s' = ss_config (cn_session c)" "ss_state s' = ss_state (cn_session c)"
      "ss_pending_parts s' = ss_pending_parts (cn_session c)"
      "ss_transform s' = None \<longleftrightarrow> ss_transform (cn_session c) = None"
      "ss_ws_role s' = ss_ws_role (cn_session c)" "ss_pending_size s' = ss_pending_size (cn_session c)"
  shows "settled (c\<lparr>cn_session := s'\<rparr>)"
proof -
  let ?s = "cn_session c"
  have lim: "over_limit s' = over_limit ?s" "fast_state s' = fast_state ?s" "ws_payload_cap s' = ws_payload_cap ?s"
    using k by (auto simp: over_limit_def fast_state_def has_frame_transform_def ws_payload_cap_def)
  have "zmtp_dec s' xs = zmtp_dec ?s xs" "ws_dec peer s' xs = ws_dec peer ?s xs" for xs peer
    unfolding zmtp_dec_def ws_dec_def ws_fast_dec_def ws_slow_dec_def lim k(2) by (rule refl)+
  then have "conn_dec s' xs = conn_dec ?s xs" for xs by (simp add: conn_dec_def k(5) split: option.split)
  then show ?thesis using assms(1) k(3,6) by (simp add: settled_def session_inv_def)
qed

lemma on_track_quiet:
  assumes "on_track cfg c evs ms" "quiet (cn_session c) s'"
    "ss_ws_role s' = ss_ws_role (cn_session c)" "ss_pending_size s' = ss_pending_size (cn_session c)"
  shows "on_track cfg (c\<lparr>cn_session := s'\<rparr>) evs ms"
  using assms settled_same [of c s'] gate_quiet [OF assms(2)] by (simp add: on_track_def quiet_def)

lemma on_track_send:
  assumes "on_track cfg c evs ms"
  shows "on_track cfg (c\<lparr>cn_session := fst (send_message C m (cn_session c))\<rparr>) evs ms"
    "on_track cfg (c\<lparr>cn_session := fst (send_command C cmd (cn_session c))\<rparr>) evs ms"
    "on_track cfg (c\<lparr>cn_session := advance_transmit n (cn_session c)\<rparr>) evs ms"
proof -
  let ?s = "cn_session c"
  have "outbound_only ?s (fst (send_command C cmd ?s))"
    using write_outbound_commands_outbound [of ?s C "[cmd]"]
    by (simp add: send_command_def del: write_outbound_commands.simps)
  note o = outbound_only_fields(9,10) [OF this] outbound_only_fields(9,10) [OF send_message_outbound [of ?s C m]]
  show "on_track cfg (c\<lparr>cn_session := fst (send_message C m ?s)\<rparr>) evs ms"
    "on_track cfg (c\<lparr>cn_session := fst (send_command C cmd ?s)\<rparr>) evs ms"
    "on_track cfg (c\<lparr>cn_session := advance_transmit n ?s\<rparr>) evs ms"
    using o by (simp_all add: on_track_quiet [OF assms send_quiet(1)] on_track_quiet [OF assms send_quiet(2)]
      on_track_quiet [OF assms send_quiet(3)])
      (rule on_track_quiet [OF assms send_quiet(3)]; simp add: advance_transmit_def split: prod.split)
qed

lemma drive_track:
  assumes "session_inv (cn_session c)" "cb_wf (cn_in_buf c)" "gate evs ms (cn_session c)"
    and "drive C now c = (c', res)"
  shows "gate evs ms (cn_session c') \<and> ss_config (cn_session c') = ss_config (cn_session c) \<and> (res = Ok () \<longrightarrow> settled c')"
proof -
  obtain s b where c: "c = \<lparr>cn_session = s, cn_in_buf = b\<rparr>" by (cases c)
  from drive_conn_run [of s b C now] assms(1,2) obtain b' s' r rest where
    d: "drive C now c = (\<lparr>cn_session = s', cn_in_buf = b'\<rparr>, r)" "conn_run C now s (cb_flat b) = (s', r, rest)"
      "r = Ok () \<longrightarrow> settled \<lparr>cn_session = s', cn_in_buf = b'\<rparr> \<and> cb_flat b' = rest" by (auto simp: c)
  with assms(3,4) conn_run_gate [OF d(2)] conn_run_link [OF d(2)] show ?thesis by (auto simp: c link_kept_def)
qed

lemma input_track:
  assumes "on_track cfg c evs ms" "handle_input C now src c = (c', res)"
  shows "gate evs ms (cn_session c') \<and> ss_config (cn_session c') = cfg \<and> (res = Ok () \<longrightarrow> settled c')"
proof (cases "c' = c")
  case True
  with assms(1) show ?thesis by (simp add: on_track_def)
next
  case False
  let ?c = "c\<lparr>cn_in_buf := cb_push (cn_in_buf c) src\<rparr>"
  have "drive C now ?c = (c', res)"
    using assms(2) False by (auto simp: handle_input_def split: conn_state.splits if_splits)
  moreover have "cb_wf (cn_in_buf ?c)" using assms(1) by (simp add: on_track_def settled_def wf_intros)
  ultimately show ?thesis
    using drive_track [of ?c] assms(1) by (auto simp: on_track_def settled_def)
qed

lemma await_track:
  assumes "on_track cfg c evs ms" "suppliable_header c = Some hdr" "cb_wf buf"
  shows "on_track cfg (await_payload hdr buf c) evs ms"
proof -
  have st: "ss_state (cn_session c) = StReady" "ss_ws_role (cn_session c) = None"
    using assms(2) by (auto simp: suppliable_header_def Let_def split: if_splits)
  let ?s = "(cn_session c)\<lparr>ss_state := AwaitingSuppliedPayload (ph_flags hdr) (ph_payload_len hdr)\<rparr>"
  have "gate evs ms ?s"
    using assms(1) st gate_open [of evs ms "cn_session c" ?s "[]"] gate_state(2) [of evs ms "cn_session c"]
    by (simp add: on_track_def)
  with assms(1,3) st(2) show ?thesis
    by (simp add: on_track_def await_payload_def settled_def session_inv_def conn_dec_def zmtp_dec_def)
qed

lemma begin_track:
  assumes "on_track cfg c evs ms"
  shows "begin_supplied_payload c = (c', Some n) \<Longrightarrow> on_track cfg c' evs ms"
    "begin_supplied_payload_with_prefix c = (c', Some np) \<Longrightarrow> on_track cfg c' evs ms"
proof -
  have wf: "cb_wf (cn_in_buf c)" using assms by (simp add: on_track_def settled_def)
  have adv: "cb_wf (cb_advance n (cn_in_buf c))" if "n \<le> cb_len (cn_in_buf c)" for n
    using cb_advance_refines [OF wf] that by (simp add: cb_len_flat [OF wf])
  have spl: "cb_wf b'" if "cb_wf b" "n \<le> cb_len b" "split_to n b = (p, b')" for n b p b'
    using split_to_refines [OF that(1), of n] that(2,3) by (simp add: cb_len_flat [OF that(1)])
  show "begin_supplied_payload c = (c', Some n) \<Longrightarrow> on_track cfg c' evs ms"
    by (auto simp: begin_supplied_payload_def split: option.splits if_splits intro!: await_track [OF assms] adv)
  show "begin_supplied_payload_with_prefix c = (c', Some np) \<Longrightarrow> on_track cfg c' evs ms"
    by (auto simp: begin_supplied_payload_with_prefix_def Let_def split: option.splits if_splits prod.splits
      intro!: await_track [OF assms] adv dest: spl [OF adv, rotated 2])
qed

lemma supply_track:
  assumes "on_track cfg c evs ms" "supply_payload C now data c = (c', Ok ())"
  shows "on_track cfg c' evs ms"
proof -
  let ?s = "(cn_session c)\<lparr>ss_state := StReady\<rparr>"
  from assms(2) obtain fl n s where st: "ss_state (cn_session c) = AwaitingSuppliedPayload fl n"
      "decode_assembled_frame C fl (payload_from_bytes data) ?s = (s, Ok ())" "drive C now (c\<lparr>cn_session := s\<rparr>) = (c', Ok ())"
    by (auto simp: supply_payload_def split: conn_state.splits if_splits prod.splits sum.splits)
  have "session_inv ?s" "cb_wf (cn_in_buf c)" using assms(1) by (simp_all add: on_track_def settled_def session_inv_def)
  moreover have "gate evs ms ?s"
    using assms(1) st(1) gate_open [of evs ms "cn_session c" ?s "[]"] gate_state(2) [of evs ms "cn_session c"]
    by (simp add: on_track_def)
  ultimately have "session_inv s" "gate evs ms s" "ss_config s = ss_config ?s"
    using decode_assembled_inv [OF _ st(2)] open_step_gate [OF decode_assembled_open [OF st(2)]]
      decode_assembled_open [OF st(2)] by (simp_all add: open_step_def)
  with drive_track [OF _ _ _ st(3)] \<open>cb_wf (cn_in_buf c)\<close> assms(1) show ?thesis by (simp add: on_track_def)
qed

lemma init_ws_mode_gate:
  assumes "gate [] [] s" "ss_events s = []" "init_ws_mode C s = Ok s'"
  shows "gate [] [] s'"
proof -
  let ?s = "s\<lparr>ss_state := MechanismHandshake\<rparr>"
  obtain m cmds r where st: "mechanism_start C (ss_mechanism ?s) (our_props (ss_config ?s)) [] = (m, cmds, r)"
    by (metis surj_pair)
  let ?t = "?s\<lparr>ss_mechanism := m\<rparr>"
  obtain t q where w: "write_outbound_commands C cmds ?t = (t, q)" by (metis surj_pair)
  have "gate [] [] ?t" using assms(1,2) mechanism_start_kind [OF st] by (simp add: gate_def)
  with gate_quiet [OF write_outbound_quiet [OF w]] have "gate [] [] t" by simp
  with \<open>gate [] [] ?t\<close> assms(3) st w show ?thesis
    by (cases r; cases q) (auto simp: init_ws_mode_def Let_def gate_closed split: if_splits dest: gate_closed)
qed

lemma build_kind: "mechanism_build C m r = (m', r') \<Longrightarrow> is_curve m' = setup_has_frame_transform m"
  by (cases m) (auto simp: mechanism_build_def split: prod.splits)

lemma new_track:
  assumes "connection_new C cfg r = Ok c"
  shows "on_track cfg c [] []"
proof -
  obtain m r' where b: "mechanism_build C (cfg_mechanism cfg) r = (m, r')" by (metis surj_pair)
  let ?s = "session_init cfg m r'"
  have "gate [] [] ?s" "ss_events ?s = []" using build_kind [OF b] by (simp_all add: gate_def session_init_def)
  moreover have "quiet s (queue_greeting s)" for s by (simp add: quiet_def queue_greeting_def push_chunk_def Let_def)
  ultimately have "gate [] [] (cn_session c)"
    using assms init_ws_mode_gate [of ?s C] gate_quiet [of ?s "queue_greeting ?s"]
    by (auto simp: connection_new_def b Let_def rbind_Ok_iff split: if_splits)
  with connection_new_fields [OF assms] show ?thesis by (simp add: on_track_def)
qed

lemma poll_track:
  assumes "on_track cfg c evs ms"
  shows "poll_event (cn_session c) = (s, Some e) \<Longrightarrow> on_track cfg (c\<lparr>cn_session := s\<rparr>) (evs @ [e]) ms"
    "poll_message (cn_session c) = (s, Some m) \<Longrightarrow> on_track cfg (c\<lparr>cn_session := s\<rparr>) evs (ms @ [m])"
    "swap_messages [] (cn_session c) = (s, l) \<Longrightarrow> on_track cfg (c\<lparr>cn_session := s\<rparr>) evs (ms @ l)"
    "on_track cfg (c\<lparr>cn_session := conn_close (cn_session c)\<rparr>) evs ms"
proof -
  let ?s = "cn_session c"
  have st: "settled c" "gate evs ms ?s" "ss_config ?s = cfg" using assms by (simp_all add: on_track_def)
  have kept: "settled (c\<lparr>cn_session := ?s\<lparr>ss_events := es\<rparr>\<rparr>)" "settled (c\<lparr>cn_session := ?s\<lparr>ss_messages := l\<rparr>\<rparr>)" for es l
    by (rule settled_same [OF st(1)]; simp)+
  have g: "gate evs (ms @ l) (?s\<lparr>ss_messages := k\<rparr>)" if "ss_messages ?s = l @ k" for l k
    using st(2) that by (auto simp: gate_def split: list.splits)
  show "poll_event ?s = (s, Some e) \<Longrightarrow> on_track cfg (c\<lparr>cn_session := s\<rparr>) (evs @ [e]) ms"
    using kept(1) st by (auto simp: poll_event_def on_track_def gate_def split: list.splits)
  show "poll_message ?s = (s, Some m) \<Longrightarrow> on_track cfg (c\<lparr>cn_session := s\<rparr>) evs (ms @ [m])"
    using kept(2) st(3) g [of "[m]"] by (auto simp: poll_message_def on_track_def split: list.splits)
  show "swap_messages [] ?s = (s, l) \<Longrightarrow> on_track cfg (c\<lparr>cn_session := s\<rparr>) evs (ms @ l)"
    using kept(2) [of "[]"] st(3) g [of l "[]"] by (auto simp: swap_messages_def on_track_def)
  show "on_track cfg (c\<lparr>cn_session := conn_close ?s\<rparr>) evs ms"
    using st gate_closed [OF st(2)] by (simp add: on_track_def conn_close_def settled_def session_inv_def conn_dec_def
      zmtp_dec_def ws_dec_def split: option.split)
qed

lemma trace_track: "conn_trace C cfg c evs ms \<Longrightarrow> on_track cfg c evs ms"
proof (induction rule: conn_trace.induct)
  case (trace_input c evs ms now src c')
  then show ?case using input_track [OF trace_input.IH trace_input.hyps(2)] by (simp add: on_track_def)
qed (rule new_track poll_track on_track_send begin_track supply_track; assumption)+

lemma is_command_event_iff: "is_command_event e \<longleftrightarrow> (\<exists>cmd. e = EvCommand cmd)"
  by (cases e) (simp_all add: is_command_event_def)

lemma gate_es:
  assumes "gate evs ms s"
  shows "evs @ ss_events s = [] \<Longrightarrow> ms = [] \<and> ss_messages s = [] \<and> ss_state s \<noteq> StReady"
    "evs @ ss_events s = e # es \<Longrightarrow>
       (\<exists>minor props pt. e = HandshakeSucceeded minor props \<and> pp_socket_type props = Some pt
          \<and> is_compatible (cfg_socket_type (ss_config s)) pt)
       \<and> (\<forall>x \<in> set es. \<exists>cmd. x = EvCommand cmd)
       \<and> (has_frame_transform s \<longleftrightarrow> setup_has_frame_transform (cfg_mechanism (ss_config s)))"
  using assms
  by (auto simp: gate_def opens_with_def is_command_event_iff list_all_iff has_frame_transform_def
    split: event.splits option.splits)

text \<open>
  C3.  The handshake gate: through every use of a connection, up to and including
  the read that fails, nothing is handed to the application before the
  connection is ready; the first event is the completed handshake, with a peer
  whose declared socket type is compatible with ours, and no second one follows;
  from then on frames are encrypted exactly if the configured mechanism is
  CURVE, so a peer can neither skip the handshake nor talk the connection out of
  encryption.
\<close>

theorem handshake_gate:
  assumes "conn_trace C cfg c evs ms" "handle_input C now src c = (c', res)"
  shows "case evs @ ss_events (cn_session c') of
      [] \<Rightarrow> ms = [] \<and> ss_messages (cn_session c') = [] \<and> \<not> is_ready (cn_session c')
    | e # es \<Rightarrow>
        (\<exists>minor props pt. e = HandshakeSucceeded minor props \<and> pp_socket_type props = Some pt
           \<and> is_compatible (cfg_socket_type cfg) pt)
        \<and> (\<forall>x \<in> set es. \<exists>cmd. x = EvCommand cmd)
        \<and> (has_frame_transform (cn_session c') \<longleftrightarrow> setup_has_frame_transform (cfg_mechanism cfg))"
proof -
  from input_track [OF trace_track [OF assms(1)] assms(2)] have
    "gate evs ms (cn_session c')" "ss_config (cn_session c') = cfg" by simp_all
  with gate_es [of evs ms "cn_session c'"] show ?thesis
    by (simp add: is_ready_def split: list.split)
qed

section \<open>The NULL handshake between two connections\<close>

definition null_config :: "connection_config \<Rightarrow> bool" where
  "null_config cfg \<longleftrightarrow> cfg_mechanism cfg = SetupNull \<and> cfg_ws_role cfg = None \<and> length (cfg_identity cfg) \<le> 255"

definition null_greeting :: bytes where
  "null_greeting = greeting_encode (greeting_current MECH_NULL False) []"

definition ready_body :: "peer_properties \<Rightarrow> bytes" where
  "ready_body p = 5 # ascii ''READY'' @ props_wire p"

lemma our_props_ok: "null_config cfg \<Longrightarrow> props_ok (our_props cfg) \<and> length (props_wire (our_props cfg)) \<le> 400"
proof -
  have "\<forall>t. length (as_str t) \<le> 20" by code_simp
  then have "length (as_str (cfg_socket_type cfg)) \<le> 20" ..
  moreover have "length (ascii ''Socket-Type'') = 11" "length (ascii ''Identity'') = 8" by code_simp+
  moreover assume "null_config cfg"
  ultimately show ?thesis
    by (auto simp: our_props_def null_config_def props_ok_def props_wire_def prop_bytes_def with_socket_type_def
      with_identity_def props_new_def Let_def)
qed

lemma cmd_encode_ready: "props_ok p \<Longrightarrow> cmd_encode (Ready p) [] = Some (ready_body p)"
  by (simp add: encode_properties_eq write_name_def NAME_READY_def ready_body_def ascii_def)

lemma decode_raw_ready: "decode_command_raw (ready_body p) = Ok (Unknown (ascii ''READY'') (props_wire p))"
  by (simp add: decode_command_raw_def ready_body_def ascii_def)

lemma null_greeting_ok: "greeting_ok (greeting_current MECH_NULL False)"
  by code_simp

lemma null_greeting_step:
  assumes cfg: "null_config (ss_config s)" and s: "ss_state s = AwaitingGreeting" "ss_ws_role s = None"
    "ss_mechanism s = MNull st" "ss_transform s = None"
  shows "conn_run C now s (null_greeting @ rest) = conn_run C now
    (emit_command_frame (ready_body (our_props (ss_config s)))
      (s\<lparr>ss_peer_minor := ZMTP_MINOR, ss_peer_greeting := null_greeting, ss_state := MechanismHandshake,
         ss_mechanism := MNull NullAwaitingReady\<rparr>)) rest" (is "_ = conn_run C now ?s1 rest")
proof -
  let ?g = "greeting_current MECH_NULL False"
  have dec: "zmtp_dec s (null_greeting @ rest) = Ok (Some (U_Greeting ?g null_greeting, length null_greeting))"
    using s(1) greeting_dec_encode [OF null_greeting_ok, of rest] length_greeting_encode [OF null_greeting_ok]
    by (simp add: zmtp_dec_def null_greeting_def)
  have "mechanism_name_of (ss_config s) = MECH_NULL" using cfg by (simp add: null_config_def mechanism_name_of_def)
  then have "zmtp_apply C now (U_Greeting ?g null_greeting) s = (?s1, Ok ())"
    using s cmd_encode_ready [of "our_props (ss_config s)"] our_props_ok [OF cfg]
    by (simp add: accept_greeting_def start_handshake_def mechanism_start_def null_start_def greeting_current_def
      effective_minor_def Let_def del: cmd_encode.simps)
  with zmtp_driver.run_unit [OF dec, of C now] have
    "run_machine zmtp_dec (zmtp_apply C now) s (null_greeting @ rest) = run_machine zmtp_dec (zmtp_apply C now) ?s1 rest" by simp
  with s(2) show ?thesis by (simp add: conn_run_role(1) emit_command_frame_def emit_frame_kept)
qed

lemma null_ready_step:
  assumes s: "ss_state s = MechanismHandshake" "ss_ws_role s = None" "ss_mechanism s = MNull NullAwaitingReady"
    and p: "props_ok p" "length (props_wire p) \<le> 400" "pp_socket_type p = Some pt"
      "is_compatible (cfg_socket_type (ss_config s)) pt"
  shows "conn_run C now s (frame_enc (FF_COMMAND, ready_body p) @ rest) = conn_run C now
    (s\<lparr>ss_mechanism := MNull NullDone, ss_transform := None, ss_state := StReady,
       ss_events := ss_events s @ [HandshakeSucceeded (ss_peer_minor s) p]\<rparr>) rest" (is "_ = conn_run C now ?s1 rest")
proof -
  let ?b = "ready_body p"
  have len: "length ?b \<le> 500" using p(2) by (simp add: ready_body_def ascii_def)
  then have ok: "frame_ok (FF_COMMAND, ?b)" by (simp add: frame_ok_def FF_COMMAND_def isize_max_def)
  have hdr: "frame_hdr (frame_enc (FF_COMMAND, ?b) @ rest)
      = Ok (Some \<lparr>ph_flags = FF_COMMAND, ph_header_len = header_len_for (length ?b), ph_payload_len = length ?b\<rparr>)"
    using len by (simp add: frame_enc_def frame_hdr_header FF_COMMAND_def isize_max_def)
  have dec: "zmtp_dec s (frame_enc (FF_COMMAND, ?b) @ rest)
      = Ok (Some (U_Frame FF_COMMAND ?b, length (frame_enc (FF_COMMAND, ?b))))"
    using s(1) len by (simp add: zmtp_dec_def bounded_frame_dec_def hdr frame_dec_enc [OF ok] handshake_limit_def
      MAX_HANDSHAKE_COMMAND_def)
  have "zmtp_apply C now (U_Frame FF_COMMAND ?b) s = (?s1, Ok ())"
    using s p by (simp add: mechanism_frame_def FF_COMMAND_def process_mechanism_command_def decode_raw_ready
      mechanism_on_command_def null_on_ready complete_handshake_def mechanism_build_transform_def Let_def)
  with zmtp_driver.run_unit [OF dec, of C now] have
    "run_machine zmtp_dec (zmtp_apply C now) s (frame_enc (FF_COMMAND, ?b) @ rest) = run_machine zmtp_dec (zmtp_apply C now) ?s1 rest"
    by simp
  with s(2) show ?thesis by (simp add: conn_run_role(1))
qed

lemma our_props_type: "pp_socket_type (our_props cfg) = Some (cfg_socket_type cfg)"
  by (simp add: our_props_def with_socket_type_def with_identity_def props_new_def Let_def)

lemma null_new:
  assumes "connection_new C cfg r = Ok c" "null_config cfg"
  shows "ss_state (cn_session c) = AwaitingGreeting" "ss_ws_role (cn_session c) = None"
    "ss_mechanism (cn_session c) = MNull NullNotStarted" "ss_transform (cn_session c) = None"
    "ss_config (cn_session c) = cfg" "out_ok (cn_session c)" "poll_transmit (cn_session c) = null_greeting"
    "cb_flat (cn_in_buf c) = []" "settled c" "ss_pending_parts (cn_session c) = []" "ss_ws_fragment (cn_session c) = None"
    "ss_events (cn_session c) = []"
proof -
  have n: "mechanism_name_of cfg = MECH_NULL" using assms(2) by (simp add: null_config_def mechanism_name_of_def)
  have "out_ok (session_init cfg m r')" "poll_transmit (session_init cfg m r') = []" for m r'
    by (simp_all add: out_ok_def session_init_def poll_transmit_def)
  then have q: "out_ok (push_chunk b ((session_init cfg m r')\<lparr>ss_our_greeting := g\<rparr>))"
    "poll_transmit (push_chunk b ((session_init cfg m r')\<lparr>ss_our_greeting := g\<rparr>)) = b" for b m r' g
    by (simp_all add: out_ok_def push_chunk_def poll_transmit_def session_init_def)
  have c: "c = \<lparr>cn_session = queue_greeting (session_init cfg (MNull null_new) r), cn_in_buf = cb_new\<rparr>"
    using assms by (simp add: connection_new_def null_config_def mechanism_build_def session_init_def Let_def)
  show "settled c" by (rule connection_new_fields [OF assms(1)])
  show "ss_state (cn_session c) = AwaitingGreeting" "ss_ws_role (cn_session c) = None"
    "ss_mechanism (cn_session c) = MNull NullNotStarted" "ss_transform (cn_session c) = None"
    "ss_config (cn_session c) = cfg" "cb_flat (cn_in_buf c) = []" "ss_pending_parts (cn_session c) = []"
    "ss_ws_fragment (cn_session c) = None" "ss_events (cn_session c) = []"
    using assms(2) by (simp_all add: c queue_greeting_def push_chunk_def session_init_def Let_def null_new_def null_config_def)
  show "out_ok (cn_session c)" "poll_transmit (cn_session c) = null_greeting"
    using q n by (simp_all add: c queue_greeting_def Let_def null_greeting_def) (simp_all add: session_init_def)
qed

definition null_ready_session :: "session \<Rightarrow> session" where
  "null_ready_session s = emit_command_frame (ready_body (our_props (ss_config s)))
     (s\<lparr>ss_peer_minor := ZMTP_MINOR, ss_peer_greeting := null_greeting, ss_state := MechanismHandshake,
        ss_mechanism := MNull NullAwaitingReady\<rparr>)"

lemma input_run_all:
  assumes "settled c" "accepting (cn_session c)" "cb_flat (cn_in_buf c) = []"
    and "conn_run C now (cn_session c) src = conn_run C now s' []"
  shows "\<exists>b'. handle_input C now src c = (\<lparr>cn_session = s', cn_in_buf = b'\<rparr>, Ok ())
    \<and> settled \<lparr>cn_session = s', cn_in_buf = b'\<rparr> \<and> cb_flat b' = []"
  using handle_input_run [OF assms(1,2), of C now src] assms(3,4) conn_run_wait [OF conn_dec_Nil, of C now s'] by auto

lemma null_first_round:
  assumes "connection_new C cfg r = Ok c" "null_config cfg"
  shows "\<exists>b. handle_input C now null_greeting c = (\<lparr>cn_session = null_ready_session (cn_session c), cn_in_buf = b\<rparr>, Ok ())
    \<and> settled \<lparr>cn_session = null_ready_session (cn_session c), cn_in_buf = b\<rparr> \<and> cb_flat b = []"
proof -
  note n = null_new [OF assms]
  from null_greeting_step [OF _ n(1,2,3,4), of C now "[]"] assms(2) n(5) show ?thesis
    by (intro input_run_all [OF n(9) _ n(8)]) (simp_all add: accepting_def n(1) null_ready_session_def)
qed

lemma null_ready_session_fields:
  assumes "connection_new C cfg r = Ok c" "null_config cfg"
  defines "s \<equiv> null_ready_session (cn_session c)"
  shows "ss_state s = MechanismHandshake" "ss_ws_role s = None" "ss_mechanism s = MNull NullAwaitingReady"
    "ss_config s = cfg" "out_ok s" "ss_transform s = None" "ss_pending_parts s = []" "ss_ws_fragment s = None"
    "ss_events s = []" "ss_peer_minor s = ZMTP_MINOR"
    "poll_transmit s = null_greeting @ frame_enc (FF_COMMAND, ready_body (our_props cfg))"
proof -
  note n = null_new [OF assms(1,2)]
  let ?s = "(cn_session c)\<lparr>ss_peer_minor := ZMTP_MINOR, ss_peer_greeting := null_greeting,
      ss_state := MechanismHandshake, ss_mechanism := MNull NullAwaitingReady\<rparr>"
  have s: "s = emit_frame FF_COMMAND (payload_from_bytes (ready_body (our_props cfg))) ?s"
    by (simp add: s_def null_ready_session_def emit_command_frame_def n(5))
  note f = outbound_only_fields [OF emit_frame_outbound, of FF_COMMAND "payload_from_bytes (ready_body (our_props cfg))" ?s]
  have ok: "out_ok ?s" "poll_transmit ?s = null_greeting"
    using n(6,7) by (simp_all add: out_ok_def poll_transmit_def split: list.splits)
  show "ss_state s = MechanismHandshake" "ss_ws_role s = None" "ss_mechanism s = MNull NullAwaitingReady"
    "ss_config s = cfg" "ss_transform s = None" "ss_pending_parts s = []" "ss_ws_fragment s = None"
    "ss_events s = []" "ss_peer_minor s = ZMTP_MINOR"
    unfolding s f emit_frame_kept using n by simp_all
  show "out_ok s" "poll_transmit s = null_greeting @ frame_enc (FF_COMMAND, ready_body (our_props cfg))"
    unfolding s using emit_frame_out [OF ok(1) payload_from_bytes_wf] ok(2) n(2)
    by (simp_all add: payload_from_bytes_slice frame_wire_def)
qed

lemma null_second_round:
  assumes new: "connection_new C cfg r = Ok c" "null_config cfg"
    and b: "settled \<lparr>cn_session = null_ready_session (cn_session c), cn_in_buf = b\<rparr>" "cb_flat b = []"
    and peer: "null_config cfg'" "is_compatible (cfg_socket_type cfg) (cfg_socket_type cfg')"
  shows "\<exists>c'. handle_input C now (frame_enc (FF_COMMAND, ready_body (our_props cfg')))
        \<lparr>cn_session = null_ready_session (cn_session c), cn_in_buf = b\<rparr> = (c', Ok ())
    \<and> is_ready (cn_session c') \<and> ss_events (cn_session c') = [HandshakeSucceeded ZMTP_MINOR (our_props cfg')]
    \<and> settled c' \<and> cb_flat (cn_in_buf c') = [] \<and> rx_open (cn_session c') \<and> ss_pending_parts (cn_session c') = []
    \<and> out_ok (cn_session c') \<and> ss_transform (cn_session c') = None \<and> ss_ws_role (cn_session c') = None"
proof -
  let ?s = "null_ready_session (cn_session c)" and ?p = "our_props cfg'"
  let ?c = "\<lparr>cn_session = ?s, cn_in_buf = b\<rparr>"
  let ?t = "?s\<lparr>ss_mechanism := MNull NullDone, ss_transform := None, ss_state := StReady,
       ss_events := ss_events ?s @ [HandshakeSucceeded (ss_peer_minor ?s) ?p]\<rparr>"
  note f = null_ready_session_fields [OF new]
  have "conn_run C now ?s (frame_enc (FF_COMMAND, ready_body ?p) @ []) = conn_run C now ?t []"
    using our_props_ok [OF peer(1)] peer(2)
    by (intro null_ready_step) (simp_all add: f our_props_type)
  with input_run_all [OF b(1), of C now _ ?t] b(2) f(1) obtain b' where
    in2: "handle_input C now (frame_enc (FF_COMMAND, ready_body ?p)) ?c = (\<lparr>cn_session = ?t, cn_in_buf = b'\<rparr>, Ok ())"
      "settled \<lparr>cn_session = ?t, cn_in_buf = b'\<rparr>" "cb_flat b' = []" by (auto simp: accepting_def)
  moreover have "out_ok ?t" using f(5) by (simp add: out_ok_def split: list.splits)
  ultimately show ?thesis
    using f b(1) by (intro exI [of _ "\<lparr>cn_session = ?t, cn_in_buf = b'\<rparr>"])
      (simp add: is_ready_def rx_open_def settled_def session_inv_def)
qed

text \<open>
  C6.  The NULL handshake completes: two new connections over a byte stream,
  with compatible socket types, that are given each other's output become ready
  in two rounds; each reports the other's declared properties, nothing is left
  over, and messages can flow both ways.
\<close>

theorem null_handshake_completes:
  assumes "null_config ca" "null_config cb" "is_compatible (cfg_socket_type ca) (cfg_socket_type cb)"
    and "connection_new C ca ra = Ok a" "connection_new C cb rb = Ok b"
  shows "\<exists>a1 b1 a2 b2.
      handle_input C now (poll_transmit (cn_session b)) a = (a1, Ok ())
    \<and> handle_input C now (poll_transmit (cn_session a)) b = (b1, Ok ())
    \<and> handle_input C now (drop (length (poll_transmit (cn_session b))) (poll_transmit (cn_session b1))) a1 = (a2, Ok ())
    \<and> handle_input C now (drop (length (poll_transmit (cn_session a))) (poll_transmit (cn_session a1))) b1 = (b2, Ok ())
    \<and> is_ready (cn_session a2) \<and> is_ready (cn_session b2)
    \<and> ss_events (cn_session a2) = [HandshakeSucceeded ZMTP_MINOR (our_props cb)]
    \<and> ss_events (cn_session b2) = [HandshakeSucceeded ZMTP_MINOR (our_props ca)]
    \<and> in_step C (advance_transmit (length (poll_transmit (cn_session a2))) (cn_session a2)) b2
    \<and> in_step C (advance_transmit (length (poll_transmit (cn_session b2))) (cn_session b2)) a2"
proof -
  note na = null_new [OF assms(4,1)] and nb = null_new [OF assms(5,2)]
  note fa = null_ready_session_fields [OF assms(4,1)] and fb = null_ready_session_fields [OF assms(5,2)]
  have comp: "is_compatible (cfg_socket_type cb) (cfg_socket_type ca)"
    using assms(3) is_compatible_sym by blast
  from null_first_round [OF assms(4,1), of now] obtain ba where
    a1: "handle_input C now null_greeting a = (\<lparr>cn_session = null_ready_session (cn_session a), cn_in_buf = ba\<rparr>, Ok ())"
      "settled \<lparr>cn_session = null_ready_session (cn_session a), cn_in_buf = ba\<rparr>" "cb_flat ba = []" by blast
  from null_first_round [OF assms(5,2), of now] obtain bb where
    b1: "handle_input C now null_greeting b = (\<lparr>cn_session = null_ready_session (cn_session b), cn_in_buf = bb\<rparr>, Ok ())"
      "settled \<lparr>cn_session = null_ready_session (cn_session b), cn_in_buf = bb\<rparr>" "cb_flat bb = []" by blast
  from null_second_round [OF assms(4,1) a1(2,3) assms(2,3), of now] obtain a2 where
    a2: "handle_input C now (frame_enc (FF_COMMAND, ready_body (our_props cb)))
        \<lparr>cn_session = null_ready_session (cn_session a), cn_in_buf = ba\<rparr> = (a2, Ok ())"
      "is_ready (cn_session a2)" "ss_events (cn_session a2) = [HandshakeSucceeded ZMTP_MINOR (our_props cb)]"
      "settled a2" "cb_flat (cn_in_buf a2) = []" "rx_open (cn_session a2)" "ss_pending_parts (cn_session a2) = []"
      "out_ok (cn_session a2)" "ss_transform (cn_session a2) = None" "ss_ws_role (cn_session a2) = None" by blast
  from null_second_round [OF assms(5,2) b1(2,3) assms(1) comp, of now] obtain b2 where
    b2: "handle_input C now (frame_enc (FF_COMMAND, ready_body (our_props ca)))
        \<lparr>cn_session = null_ready_session (cn_session b), cn_in_buf = bb\<rparr> = (b2, Ok ())"
      "is_ready (cn_session b2)" "ss_events (cn_session b2) = [HandshakeSucceeded ZMTP_MINOR (our_props ca)]"
      "settled b2" "cb_flat (cn_in_buf b2) = []" "rx_open (cn_session b2)" "ss_pending_parts (cn_session b2) = []"
      "out_ok (cn_session b2)" "ss_transform (cn_session b2) = None" "ss_ws_role (cn_session b2) = None" by blast
  have in_step: "in_step C (advance_transmit (length (poll_transmit s)) s) c"
    if "out_ok s" "ss_transform s = None" "ss_ws_role s = None" "settled c" "cb_flat (cn_in_buf c) = []"
      "rx_open (cn_session c)" "ss_pending_parts (cn_session c) = []" "ss_transform (cn_session c) = None"
      "ss_ws_role (cn_session c) = None" for s c
    using that advance_transmit_out [OF that(1)]
    by (simp add: in_step_def channel_def linked_def) (simp add: advance_transmit_def split: prod.split)
  show ?thesis
    using a1(1) b1(1) a2(1-3) b2(1-3) na(7) nb(7) fa(11) fb(11) in_step [OF a2(8-10) b2(4-7,9,10)] in_step [OF b2(8-10) a2(4-7,9,10)]
    by (intro exI [of _ "\<lparr>cn_session = null_ready_session (cn_session a), cn_in_buf = ba\<rparr>"]
        exI [of _ "\<lparr>cn_session = null_ready_session (cn_session b), cn_in_buf = bb\<rparr>"] exI [of _ a2] exI [of _ b2])
      simp
qed

definition push_config :: connection_config where
  "push_config = config_new RoleClient Push"

lemma push_pull_new:
  "null_config push_config" "null_config pull_config"
  "is_compatible (cfg_socket_type push_config) (cfg_socket_type pull_config)"
  "\<exists>c. connection_new clear_crypto push_config zero_rng = Ok c"
  "\<exists>c. connection_new clear_crypto pull_config zero_rng = Ok c"
proof -
  have "is_compatible Push Pull" by code_simp
  then show "null_config push_config" "null_config pull_config"
    "is_compatible (cfg_socket_type push_config) (cfg_socket_type pull_config)"
    by (simp_all add: null_config_def push_config_def pull_config_def config_new_def)
  show "\<exists>c. connection_new clear_crypto push_config zero_rng = Ok c"
    "\<exists>c. connection_new clear_crypto pull_config zero_rng = Ok c"
    by (simp_all add: connection_new_def push_config_def pull_config_def config_new_def mechanism_build_def
      session_init_def Let_def)
qed

theorem null_handshake_completes_witness:
  "\<exists>a b a1 b1 a2 b2.
      connection_new clear_crypto push_config zero_rng = Ok a \<and> connection_new clear_crypto pull_config zero_rng = Ok b
    \<and> handle_input clear_crypto 0 (poll_transmit (cn_session b)) a = (a1, Ok ())
    \<and> handle_input clear_crypto 0 (poll_transmit (cn_session a)) b = (b1, Ok ())
    \<and> handle_input clear_crypto 0 (drop (length (poll_transmit (cn_session b))) (poll_transmit (cn_session b1))) a1 = (a2, Ok ())
    \<and> is_ready (cn_session a2)"
proof -
  from push_pull_new(4,5) obtain a b where
    "connection_new clear_crypto push_config zero_rng = Ok a" "connection_new clear_crypto pull_config zero_rng = Ok b"
    by blast
  with null_handshake_completes [OF push_pull_new(1-3) this, of 0] show ?thesis by blast
qed

theorem handshake_gate_witness:
  "\<exists>c1 c2. conn_trace clear_crypto push_config c1 [] []
    \<and> handle_input clear_crypto 0 (frame_enc (FF_COMMAND, ready_body (our_props pull_config))) c1 = (c2, Ok ())
    \<and> (\<exists>minor props pt. ss_events (cn_session c2) = [HandshakeSucceeded minor props]
        \<and> pp_socket_type props = Some pt \<and> is_compatible Push pt)
    \<and> \<not> has_frame_transform (cn_session c2)"
proof -
  from push_pull_new(4) obtain c where c: "connection_new clear_crypto push_config zero_rng = Ok c" by blast
  from null_first_round [OF c push_pull_new(1), of 0] obtain b where
    b: "handle_input clear_crypto 0 null_greeting c
        = (\<lparr>cn_session = null_ready_session (cn_session c), cn_in_buf = b\<rparr>, Ok ())"
      "settled \<lparr>cn_session = null_ready_session (cn_session c), cn_in_buf = b\<rparr>" "cb_flat b = []" by blast
  let ?c1 = "\<lparr>cn_session = null_ready_session (cn_session c), cn_in_buf = b\<rparr>"
  have tr: "conn_trace clear_crypto push_config ?c1 [] []"
    by (rule trace_input [OF trace_new [OF c] b(1)])
  from null_second_round [OF c push_pull_new(1) b(2,3) push_pull_new(2,3), of 0] obtain c2 where
    c2: "handle_input clear_crypto 0 (frame_enc (FF_COMMAND, ready_body (our_props pull_config))) ?c1 = (c2, Ok ())"
      "ss_events (cn_session c2) = [HandshakeSucceeded ZMTP_MINOR (our_props pull_config)]" by blast
  have "cfg_socket_type push_config = Push" "\<not> setup_has_frame_transform (cfg_mechanism push_config)"
    by (simp_all add: push_config_def config_new_def)
  with handshake_gate [OF tr c2(1)] c2 tr show ?thesis
    by (intro exI [of _ ?c1] exI [of _ c2]) simp
qed

end
