(* ===== verification/Connection_Props.thy ===== *)
theory Connection_Props
  imports Handshake
begin

text \<open>
  Further properties of a connection: supplying a large payload from outside is
  the same as reading it, the configured size limit bounds every delivered
  message, and two places where the code does not do what it means to.
\<close>

section \<open>Supplied payloads\<close>

lemma payload_from_slice_large: "MAX_INLINE_PAYLOAD < length b \<Longrightarrow> payload_from_slice b = payload_from_bytes b"
  by (simp add: payload_from_slice_def)

lemma begin_prefix_exact:
  assumes c: "settled c" "begin_supplied_payload_with_prefix c = (c1, Some (n, pre))"
  shows "\<exists>h b. frame_hdr (cb_flat (cn_in_buf c)) = Ok (Some h) \<and> ph_payload_len h = n
    \<and> over_limit (cn_session c) n = None \<and> ph_header_len h \<le> length (cb_flat (cn_in_buf c))
    \<and> payload_as_slice pre = drop (ph_header_len h) (cb_flat (cn_in_buf c)) \<and> length (payload_as_slice pre) < n
    \<and> c1 = await_payload h b c \<and> cb_flat b = [] \<and> cb_wf b
    \<and> ss_state (cn_session c) = StReady \<and> ss_ws_role (cn_session c) = None"
proof -
  let ?s = "cn_session c" and ?b = "cn_in_buf c"
  let ?xs = "cb_flat ?b"
  have wf: "cb_wf ?b" and dec: "conn_dec ?s ?xs" using c(1) by (simp_all add: settled_def)
  from c(2) obtain h where h: "suppliable_header c = Some h" "\<not> cb_len ?b < ph_header_len h"
    by (auto simp: begin_supplied_payload_with_prefix_def split: option.splits if_splits)
  then have st: "ss_state ?s = StReady" "ss_ws_role ?s = None" "frame_hdr ?xs = Ok (Some h)"
      "over_limit ?s (ph_payload_len h) = None"
    using peek_frame_header_flat [OF wf]
    by (auto simp: suppliable_header_def Let_def split: if_splits sum.splits option.splits)
  have hl: "ph_header_len h \<le> length ?xs" using h(2) by (simp add: cb_len_flat [OF wf])
  have short: "length ?xs < ph_header_len h + ph_payload_len h"
    using dec st by (auto simp: conn_dec_def zmtp_dec_def bounded_frame_dec_def frame_dec_def rbind_Ok_iff split: if_splits)
  let ?a = "cb_advance (ph_header_len h) ?b"
  have a: "cb_wf ?a" "cb_flat ?a = drop (ph_header_len h) ?xs" using cb_advance_refines [OF wf hl] by simp_all
  have len: "min (cb_len ?a) (ph_payload_len h) = length (cb_flat ?a)"
    using short by (simp add: cb_len_flat [OF a(1)] a(2))
  obtain p b where pb: "(if 0 < length (cb_flat ?a) then split_to (length (cb_flat ?a)) ?a else (payload_new, ?a)) = (p, b)"
    by (metis surj_pair)
  have "payload_as_slice p = cb_flat ?a \<and> cb_flat b = [] \<and> cb_wf b"
    using pb split_to_refines [OF a(1), of "length (cb_flat ?a)"] a(1)
    by (auto simp: payload_new_def split: if_splits)
  moreover have "begin_supplied_payload_with_prefix c = (await_payload h b c, Some (ph_payload_len h, p))"
    unfolding begin_supplied_payload_with_prefix_def h(1) option.case Let_def len pb using h(2) by simp
  then have "c1 = await_payload h b c" "n = ph_payload_len h" "pre = p" using c(2) by simp_all
  ultimately show ?thesis using st hl short a(2) by auto
qed

text \<open>
  C24.  Supplied payloads: taking a frame's header and buffered prefix out of the
  connection, reading the rest of a payload too large to be stored inline
  directly from the transport and supplying it whole leaves the connection, its
  messages and the result as if the rest had been given to it as input.
\<close>

theorem supplied_payload_equivalent:
  assumes "settled c" "begin_supplied_payload_with_prefix c = (c1, Some (n, pre))"
    and "length (payload_as_slice pre @ data) = n" "MAX_INLINE_PAYLOAD < n"
  shows "\<exists>s' b b' res. handle_input C now data c = (\<lparr>cn_session = s', cn_in_buf = b\<rparr>, res)
    \<and> supply_payload C now (payload_as_slice pre @ data) c1 = (\<lparr>cn_session = s', cn_in_buf = b'\<rparr>, res)
    \<and> (res = Ok () \<longrightarrow> cb_flat b = cb_flat b')"
proof -
  let ?s = "cn_session c" and ?xs = "cb_flat (cn_in_buf c)"
  from begin_prefix_exact [OF assms(1,2)] obtain h b0 where
    h: "frame_hdr ?xs = Ok (Some h)" "ph_payload_len h = n" "over_limit ?s n = None" "ph_header_len h \<le> length ?xs"
      "payload_as_slice pre = drop (ph_header_len h) ?xs" "length (payload_as_slice pre) < n"
      "c1 = await_payload h b0 c" "cb_flat b0 = []" "cb_wf b0" "ss_state ?s = StReady" "ss_ws_role ?s = None" by blast
  let ?p = "payload_as_slice pre @ data" and ?fl = "ph_flags h"
  have len: "length (?xs @ data) = ph_header_len h + n" "drop (ph_header_len h) (?xs @ data) = ?p"
    using assms(3) h(4,5) by simp_all
  have "frame_dec (?xs @ data) = Ok (Some ((?fl, ?p), ph_header_len h + n))"
    using assms(3) h(2) len by (simp add: frame_dec_def frame_hdr_stable(1) [OF h(1)] del: drop_append)
  then have "zmtp_dec ?s (?xs @ data) = Ok (Some (U_Frame ?fl ?p, ph_header_len h + n))"
    using h(2,3,10) by (simp add: zmtp_dec_def bounded_frame_dec_def frame_hdr_stable(1) [OF h(1)])
  note run = zmtp_driver.run_unit [OF this, of C now]
  obtain s1 r1 where d: "decode_assembled_frame C ?fl (payload_from_bytes ?p) ?s = (s1, r1)" by (metis surj_pair)
  have "zmtp_apply C now (U_Frame ?fl ?p) ?s = (s1, r1)"
    using d h(10) assms(3,4) payload_from_slice_large [of ?p] by simp
  then have cr: "conn_run C now ?s (?xs @ data) = (s1, r1, [])"
    using run len(1) h(11) conn_run_wait [OF conn_dec_Nil, of C now s1] decode_assembled_link [OF d]
    by (cases r1) (simp_all add: conn_run_role(1) link_kept_def)
  from handle_input_run [OF assms(1), of C now data] cr h(10) obtain b where
    inp: "handle_input C now data c = (\<lparr>cn_session = s1, cn_in_buf = b\<rparr>, r1)" "r1 = Ok () \<longrightarrow> cb_flat b = []"
    by (auto simp: accepting_def)
  have sup: "supply_payload C now ?p c1 = (case r1 of Inl e \<Rightarrow> (\<lparr>cn_session = s1, cn_in_buf = b0\<rparr>, Err e)
      | Inr _ \<Rightarrow> drive C now \<lparr>cn_session = s1, cn_in_buf = b0\<rparr>)"
  proof -
    have "(cn_session c1)\<lparr>ss_state := StReady\<rparr> = ?s" using h(7,10) by (simp add: await_payload_def)
    then show ?thesis
      using d assms(3) h(2,7) by (cases c; cases r1) (simp_all add: supply_payload_def await_payload_def)
  qed
  show ?thesis
  proof (cases r1)
    case (Inl e)
    with inp sup show ?thesis by auto
  next
    case (Inr u)
    have "session_inv ?s" using assms(1) by (simp add: settled_def)
    then have "session_inv s1" using decode_assembled_inv d Inr by simp
    from drive_conn_run [OF this h(9), of C now] h(8) conn_run_wait [OF conn_dec_Nil, of C now s1] obtain b' where
      "drive C now \<lparr>cn_session = s1, cn_in_buf = b0\<rparr> = (\<lparr>cn_session = s1, cn_in_buf = b'\<rparr>, Ok ())" "cb_flat b' = []"
      by auto
    with inp sup Inr show ?thesis by auto
  qed
qed

definition half_read :: connection where
  "half_read = \<lparr>cn_session = idle_session, cn_in_buf = cb_push cb_new [0, 100, 1, 2, 3]\<rparr>"

theorem supplied_payload_equivalent_witness:
  "\<exists>c1 pre s' b b' res. begin_supplied_payload_with_prefix half_read = (c1, Some (100, pre))
    \<and> handle_input clear_crypto 0 (replicate 97 9) half_read = (\<lparr>cn_session = s', cn_in_buf = b\<rparr>, res)
    \<and> supply_payload clear_crypto 0 (payload_as_slice pre @ replicate 97 9) c1 = (\<lparr>cn_session = s', cn_in_buf = b'\<rparr>, res)"
proof -
  have wf: "cb_wf (cb_push cb_new [0, 100, 1, 2, 3])" by (simp add: wf_intros)
  have "zmtp_dec idle_session [0, 100, 1, 2, 3] = Ok None"
    by (simp add: zmtp_dec_def idle_session_def bounded_frame_dec_def frame_hdr_def frame_dec_def Let_def over_limit_def
      config_new_def)
  then have st: "settled half_read"
    using wf by (simp add: settled_def half_read_def cb_push_flat wf_intros conn_dec_def session_inv_def idle_session_def)
  have "map_option (map_prod id payload_as_slice) (snd (begin_supplied_payload_with_prefix half_read)) = Some (100, [1, 2, 3])"
    by code_simp
  then obtain c1 n pre where b: "begin_supplied_payload_with_prefix half_read = (c1, Some (n, pre))"
    "payload_as_slice pre = [1, 2, 3]" "n = 100" by (cases "begin_supplied_payload_with_prefix half_read") auto
  from supplied_payload_equivalent [OF st b(1), of "replicate 97 9" clear_crypto 0] b show ?thesis
    by (auto simp: MAX_INLINE_PAYLOAD_def)
qed

section \<open>A refused PLAIN client\<close>

lemma decode_raw_named:
  assumes "length name \<le> 255"
  shows "decode_command_raw (of_nat (length name) # name @ body) = Ok (Unknown name body)"
  using assms by (simp add: decode_command_raw_def unat_of_nat_u8)

text \<open>
  C37.  A refused PLAIN client is not told: the mechanism queues an ERROR command
  with the reason and reports the failure, and the connection gives up on the
  failure before it writes what the mechanism queued; the handshake fails with
  no byte added to the output.
\<close>

theorem plain_refusal_not_sent:
  assumes "ss_mechanism s = MPlain (PlainServer ps)" "ps_state ps = PsAwaitingHello"
    and "decode_hello hello = Ok (u, pw)" "\<not> ps_authenticator ps (plain_peer_info u pw)"
  shows "plain_on_command (PlainServer ps) (Unknown (ascii ''HELLO'') hello) []
      = (PlainServer ps, [CmdError (ascii ''Authentication failed'')], Err (HandshakeFailed ''PLAIN credentials rejected''))
    \<and> process_mechanism_command C now (5 # ascii ''HELLO'' @ hello) s
      = (s, Err (HandshakeFailed ''PLAIN credentials rejected''))"
proof -
  have on: "plain_on_command (PlainServer ps) (Unknown (ascii ''HELLO'') hello) []
      = (PlainServer ps, [CmdError (ascii ''Authentication failed'')], Err (HandshakeFailed ''PLAIN credentials rejected''))"
    using assms by (simp add: plain_on_command_def plain_server_on_command_def auth_allow_def command_words_neq Let_def)
  have five: "of_nat (length (ascii ''HELLO'')) = (5 :: u8)" by code_simp
  have "decode_command_raw (5 # ascii ''HELLO'' @ hello) = Ok (Unknown (ascii ''HELLO'') hello)"
    using decode_raw_named [of "ascii ''HELLO''" hello] unfolding five by (simp add: ascii_def)
  moreover have "s\<lparr>ss_rng := ss_rng s, ss_mechanism := MPlain (PlainServer ps)\<rparr> = s" using assms(1) by simp
  ultimately show ?thesis
    using on assms(1) by (simp add: process_mechanism_command_def mechanism_on_command_def Let_def)
qed

definition refusing_session :: session where
  "refusing_session = idle_session\<lparr>ss_state := MechanismHandshake,
     ss_mechanism := MPlain (PlainServer \<lparr>ps_authenticator = (\<lambda>_. False), ps_our_props = props_new, ps_state = PsAwaitingHello\<rparr>)\<rparr>"

theorem plain_refusal_not_sent_witness:
  "decode_hello [1, 0x61, 1, 0x62] = Ok ([0x61], [0x62])
   \<and> process_mechanism_command clear_crypto 0 (5 # ascii ''HELLO'' @ [1, 0x61, 1, 0x62]) refusing_session
      = (refusing_session, Err (HandshakeFailed ''PLAIN credentials rejected''))"
proof -
  have d: "decode_hello [1, 0x61, 1, 0x62] = Ok ([0x61], [0x62])" by code_simp
  moreover have "ss_mechanism refusing_session = MPlain (PlainServer \<lparr>ps_authenticator = (\<lambda>_. False),
      ps_our_props = props_new, ps_state = PsAwaitingHello\<rparr>)" by (simp add: refusing_session_def)
  ultimately show ?thesis using plain_refusal_not_sent [OF _ _ d, of refusing_session] by simp
qed

section \<open>A short message inside a fragmented one\<close>

text \<open>
  While a fragmented WebSocket message is open, a further binary frame
  violates the protocol and the general path refuses it; but the short path,
  taken when the part fits an inline message, does not look at the fragment: it
  delivers the frame and the interrupted message continues.
\<close>

lemma ws_interleaved_frame:
  assumes "session_inv t" "fast_state t" "ss_ws_fragment t = Some part" "ss_ws_role t = Some r"
    and "ss_ws_role s = Some (peer_ws_role r)" "over_limit t (length body) = None" "length body < isize_max"
  shows "if length body \<le> MAX_INLINE_MESSAGE
    then conn_run C now t (frame_wire s (FF_LAST, body) @ rest)
      = conn_run C now (t\<lparr>ss_messages := ss_messages t @ [from_inline body]\<rparr>) rest
    else conn_run C now t (frame_wire s (FF_LAST, body) @ rest)
      = (t, Err (Protocol ''new WS binary frame before fragmented message completed''), rest)"
proof -
  let ?rl = "peer_ws_role r" and ?w = "frame_wire s (FF_LAST, body)"
  have fl: "one_flag FF_LAST" by (simp add: one_flag_def FF_LAST_def)
  have st: "ss_state t = StReady" "ss_pending_parts t = []" "ss_transform t = None"
    using assms(2) by (auto simp: fast_state_def has_frame_transform_def)
  show ?thesis
  proof (cases "length body \<le> MAX_INLINE_MESSAGE")
    case True
    let ?t = "t\<lparr>ss_messages := ss_messages t @ [from_inline body]\<rparr>"
    have "decode_assembled_frame C FF_LAST (fast_payload ?rl FF_LAST body) t = (?t, Ok ())"
      using absorb_small [OF assms(1) st(2) assms(6) True] st(3)
      by (simp add: decode_assembled_frame_def fast_payload_def drop_flag_def FF_LAST_def)
    from receive_ws_fast [OF assms(1,5,6) fl assms(7) _ this, of now rest] fast_frame_wire [OF assms(5) True] assms(2)
    have "run_machine (ws_dec ?rl) (ws_apply C now) t (?w @ rest) = run_machine (ws_dec ?rl) (ws_apply C now) ?t rest" by simp
    with True assms(4) show ?thesis by (simp add: conn_run_role(2))
  next
    case False
    have w2: "2 \<le> length ?w" by (rule ws_wire_length [OF assms(5,7)])
    have "\<not> fast_frame ?rl (?w @ rest)" using ws_fast_unit_wire(4) [OF assms(5,7), of FF_LAST rest] False by blast
    then have "ws_dec ?rl t (?w @ rest) = ws_slow_dec ?rl t (?w @ rest)"
      using w2 st(1) by (simp add: ws_dec_def)
    from ws_slow_unit [OF st(1) assms(5,6,7) this] obtain h raw where
      unit: "ws_dec ?rl t (?w @ rest) = Ok (Some (W_Frame h raw, length ?w))" and h: "wh_opcode h = OP_BINARY" by blast
    have "ws_apply C now (W_Frame h raw) t = (t, Err (Protocol ''new WS binary frame before fragmented message completed''))"
      using h assms(3) by (simp add: ws_data_payload_def)
    with ws_driver.run_unit [OF unit, of C now] False assms(4) show ?thesis by (simp add: conn_run_role(2))
  qed
qed

definition fragmented_session :: session where
  "fragmented_session = idle_session\<lparr>ss_ws_role := Some WsServer, ss_ws_fragment := Some [0, 1]\<rparr>"

theorem ws_interleaved_frame_witness:
  "\<exists>rest. conn_run clear_crypto 0 fragmented_session
      (frame_wire (idle_session\<lparr>ss_ws_role := Some WsClient\<rparr>) (FF_LAST, [7]) @ rest)
    = conn_run clear_crypto 0 (fragmented_session\<lparr>ss_messages := [from_inline [7]]\<rparr>) rest"
proof -
  have f: "session_inv fragmented_session" "fast_state fragmented_session" "ss_ws_fragment fragmented_session = Some [0, 1]"
    "ss_ws_role fragmented_session = Some WsServer"
    "ss_ws_role (idle_session\<lparr>ss_ws_role := Some WsClient\<rparr>) = Some (peer_ws_role WsServer)"
    "over_limit fragmented_session (length [7 :: u8]) = None" "length [7 :: u8] < isize_max"
    by (simp_all add: fragmented_session_def idle_session_def session_inv_def fast_state_def has_frame_transform_def
      peer_ws_role_def over_limit_def config_new_def isize_max_def)
  have "ss_messages fragmented_session = []" by (simp add: fragmented_session_def idle_session_def)
  with ws_interleaved_frame [OF f, of clear_crypto 0 "[]"] show ?thesis
    by (intro exI [of _ "[]"]) (simp add: MAX_INLINE_MESSAGE_def)
qed

section \<open>Invariants of the received data\<close>

text \<open>
  The part of a session the size limit is about.  Everything but \<open>absorb_data_frame\<close>
  and the two inline paths leaves it alone, so an invariant of it has to be
  checked there only.
\<close>

definition data_same :: "session \<Rightarrow> session \<Rightarrow> bool" where
  "data_same s s' \<longleftrightarrow> ss_config s' = ss_config s \<and> ss_messages s' = ss_messages s
     \<and> ss_pending_parts s' = ss_pending_parts s \<and> ss_pending_size s' = ss_pending_size s"

lemma data_same_outbound: "outbound_only s s' \<Longrightarrow> data_same s s'"
  using outbound_only_fields by (simp add: data_same_def)

lemma data_same_refl [simp]: "data_same s s"
  by (simp add: data_same_def)

lemma data_same_trans: "data_same s t \<Longrightarrow> data_same t u \<Longrightarrow> data_same s u"
  by (simp add: data_same_def)

lemma data_same_update [simp]:
  "data_same s (s\<lparr>ss_events := es\<rparr>)" "data_same s (s\<lparr>ss_rng := r, ss_mechanism := m\<rparr>)"
  "data_same s (s\<lparr>ss_transform := tr\<rparr>)" "data_same s (s\<lparr>ss_ws_fragment := f\<rparr>)" "data_same s (s\<lparr>ss_state := st\<rparr>)"
  "data_same s (s\<lparr>ss_peer_minor := x, ss_peer_greeting := g, ss_state := st, ss_mechanism := m\<rparr>)"
  "data_same s (s\<lparr>ss_transform := tr, ss_state := st, ss_events := es\<rparr>)"
  by (simp_all add: data_same_def)

lemma write_outbound_data: "write_outbound_commands C cmds s = (s', r) \<Longrightarrow> data_same s s'"
  using data_same_outbound [OF write_outbound_commands_outbound [of s C cmds]] by simp

lemma post_handshake_data: "handle_post_handshake_command C cmd s = (s', r) \<Longrightarrow> data_same s s'"
  by (auto simp: handle_post_handshake_command_def split: command.splits
    dest: write_outbound_data simp del: write_outbound_commands.simps)

lemma complete_handshake_data: "complete_handshake props s = (s', r) \<Longrightarrow> data_same s s'"
  by (auto simp: complete_handshake_def split: option.splits if_splits sum.splits)

lemma mechanism_frame_data: "mechanism_frame C now fl body s = (s', r) \<Longrightarrow> data_same s s'"
  by (auto simp: mechanism_frame_def process_mechanism_command_def Let_def
    split: if_splits sum.splits prod.splits mechanism_step.splits
    dest!: write_outbound_data complete_handshake_data
    intro: data_same_trans [OF data_same_update(2)] data_same_trans [OF data_same_trans [OF data_same_update(2)]])

lemma accept_greeting_data: "accept_greeting C g raw s = (s', r) \<Longrightarrow> data_same s s'"
  by (auto simp: accept_greeting_def start_handshake_def Let_def split: if_splits sum.splits prod.splits
    dest!: write_outbound_data intro: data_same_trans [OF data_same_update(6)])

lemma ws_control_data:
  "data_same s ((queue_ws_close b s)\<lparr>ss_state := st\<rparr>)" "data_same s (queue_ws_pong b s)"
  using data_same_trans [OF data_same_outbound [OF queue_ws_close_outbound] data_same_update(5)]
    data_same_outbound [OF queue_ws_pong_outbound] by blast+

locale data_invariant =
  fixes P :: "session \<Rightarrow> bool"
  assumes same: "P s \<Longrightarrow> data_same s s' \<Longrightarrow> P s'"
    and absorb: "P s \<Longrightarrow> payload_wf p \<Longrightarrow> absorb_data_frame mor p s = (s', r) \<Longrightarrow> P s'"
    and inline: "P s \<Longrightarrow> ss_pending_parts s = [] \<Longrightarrow> over_limit s (length body) = None \<Longrightarrow>
      length body \<le> MAX_INLINE_MESSAGE \<Longrightarrow> P (s\<lparr>ss_messages := ss_messages s @ [from_inline body]\<rparr>)"
begin

lemma drop_absorb: "P s \<Longrightarrow> payload_wf p \<Longrightarrow> drop_flag (absorb_data_frame mor p s) = (s', r) \<Longrightarrow> P s'"
  using absorb [of s p mor] by (cases "absorb_data_frame mor p s") (auto dest: drop_flag_fst)

lemma decrypted_kept: "P s \<Longrightarrow> dispatch_decrypted C cmdf mor pt s = (s', r) \<Longrightarrow> P s'"
  by (auto simp: dispatch_decrypted_def split: if_splits sum.splits
    dest: post_handshake_data same drop_absorb [OF _ payload_from_bytes_wf])

lemma assembled_kept:
  assumes "P s" "payload_wf p" "decode_assembled_frame C fl p s = (s', r)"
  shows "P s'"
proof -
  have "P (s\<lparr>ss_transform := tr\<rparr>)" for tr using assms(1) same by simp
  with assms show ?thesis
    by (auto simp: decode_assembled_frame_def Let_def split: option.splits if_splits prod.splits sum.splits
      dest: post_handshake_data same drop_absorb decrypted_kept)
qed

lemma zmtp_kept: "P s \<Longrightarrow> zmtp_apply C now u s = (s', r) \<Longrightarrow> P s'"
  by (cases u) (auto split: if_splits
    dest: accept_greeting_data mechanism_frame_data same assembled_kept [OF _ payload_from_slice_wf])

lemma ws_binary_kept: "P s \<Longrightarrow> payload_wf p \<Longrightarrow> dispatch_ws_binary C now fl p s = (s', r) \<Longrightarrow> P s'"
  by (auto simp: dispatch_ws_binary_def split: conn_state.splits dest: mechanism_frame_data same assembled_kept)

lemma ws_dispatch_kept: "P s \<Longrightarrow> dispatch_ws_payload C now raw s = (s', r) \<Longrightarrow> P s'"
proof -
  have "payload_wf payload_new" using payload_from_bytes_wf [of "[]"] by (simp add: payload_from_bytes_def)
  then show "P s \<Longrightarrow> dispatch_ws_payload C now raw s = (s', r) \<Longrightarrow> P s'"
    by (auto simp: dispatch_ws_payload_def split: if_splits sum.splits
      dest: ws_binary_kept ws_binary_kept [OF _ payload_from_bytes_wf])
qed

lemma ws_payload_kept:
  assumes "P s" "ws_data_payload C now op fin raw s = (s', r)"
  shows "P s'"
proof -
  have "P (s\<lparr>ss_ws_fragment := None\<rparr>)" and some: "\<And>x. P (s\<lparr>ss_ws_fragment := Some x\<rparr>)"
    using assms(1) same by simp_all
  with assms show ?thesis
    by (auto simp: ws_data_payload_def Let_def some split: if_splits option.splits dest: ws_dispatch_kept)
qed

lemma ws_kept:
  assumes "P s" "ws_dec peer s xs = Ok (Some (u, k))" "ws_apply C now u s = (s', r)"
  shows "P s'"
proof (cases u)
  case (W_Fast masked fl body)
  with assms(2) have fast: "fast_state s" "fast_frame peer xs" and dec: "ws_fast_dec peer s xs = Ok (Some (u, k))"
    by (auto simp: ws_dec_def ws_slow_dec_def split: if_splits sum.splits option.splits)
  let ?n = "unat (xs ! 1 AND 0x7F)"
  have n: "length body \<le> ?n - 1" "over_limit s (?n - 1) = None"
    using dec W_Fast by (auto simp: ws_fast_dec_def ws_fast_unit_def Let_def apply_mask_offset_cycle
      split: if_splits option.splits)
  then have "over_limit s (length body) = None"
    by (auto simp: over_limit_def sat_add_def split: option.splits if_splits)
  moreover have "length body \<le> MAX_INLINE_MESSAGE" using n(1) fast(2) by (auto simp: fast_frame_def)
  ultimately have "P (s\<lparr>ss_messages := ss_messages s @ [from_inline body]\<rparr>)"
    using inline [OF assms(1)] fast(1) by (simp add: fast_state_def)
  with W_Fast assms show ?thesis
    by (auto split: if_splits sum.splits
      dest: ws_binary_kept [OF _ payload_from_bytes_wf] ws_binary_kept [OF _ payload_from_slice_wf])
next
  case (W_Frame h raw)
  have ctl: "P ((queue_ws_close b s)\<lparr>ss_state := StClosed\<rparr>)" "P (queue_ws_pong b s)" "P (s\<lparr>ss_state := StClosed\<rparr>)" for b
    using same [OF assms(1)] ws_control_data by simp_all
  with W_Frame assms show ?thesis
    by (auto simp: ws_close_with_def send_ws_close_def send_empty_ws_close_def Let_def
      split: if_splits list.splits dest: ws_payload_kept)
qed

lemma run_kept:
  assumes "conn_run C now s xs = (s', res, rest)" "P s"
  shows "P s'"
proof (cases "ss_ws_role s")
  case None
  with assms(1) have run: "run_machine zmtp_dec (zmtp_apply C now) s xs = (s', res, rest)" by (simp add: conn_run_def)
  show ?thesis by (rule zmtp_driver.run_invariant [where P = P, OF _ run assms(2)]) (rule zmtp_kept)
next
  case (Some rl)
  with assms(1) have run: "run_machine (ws_dec (peer_ws_role rl)) (ws_apply C now) s xs = (s', res, rest)"
    by (simp add: conn_run_def)
  show ?thesis by (rule ws_driver.run_invariant [where P = P, OF _ run assms(2)]) (rule ws_kept)
qed

lemma input_kept:
  assumes "settled c" "P (cn_session c)" "handle_input C now src c = (c', res)"
  shows "P (cn_session c')"
proof (cases "accepting (cn_session c)")
  case True
  from handle_input_run [OF assms(1) True, of C now src] assms(2,3) run_kept show ?thesis by fastforce
next
  case False
  then have "c' = c" using assms(3) by (auto simp: handle_input_def accepting_def split: conn_state.splits if_splits)
  with assms(2) show ?thesis by simp
qed

lemma supply_kept:
  assumes "settled c" "P (cn_session c)" "supply_payload C now data c = (c', Ok ())"
  shows "P (cn_session c')"
proof -
  let ?s = "(cn_session c)\<lparr>ss_state := StReady\<rparr>"
  from assms(3) obtain fl n s where st: "ss_state (cn_session c) = AwaitingSuppliedPayload fl n"
      "decode_assembled_frame C fl (payload_from_bytes data) ?s = (s, Ok ())" "drive C now (c\<lparr>cn_session := s\<rparr>) = (c', Ok ())"
    by (auto simp: supply_payload_def split: conn_state.splits if_splits prod.splits sum.splits)
  have "session_inv ?s" "cb_wf (cn_in_buf c)" using assms(1) by (simp_all add: settled_def session_inv_def)
  moreover have "P ?s" using same [OF assms(2)] by simp
  ultimately have "session_inv s" "P s"
    using decode_assembled_inv [OF _ st(2)] assembled_kept [OF _ payload_from_bytes_wf st(2)] by simp_all
  with drive_conn_run [of s "cn_in_buf c" C now] \<open>cb_wf (cn_in_buf c)\<close> st(3) run_kept show ?thesis
    by (cases c) fastforce
qed

end

section \<open>The size limit\<close>

text \<open>What a message counts against the limit: its bytes and the size of a payload for each part.\<close>

definition cost :: "bytes list \<Rightarrow> nat" where
  "cost bs = sum_list (map (\<lambda>b. length b + PAYLOAD_SIZE) bs)"

definition within_limit :: "nat \<Rightarrow> message list \<Rightarrow> session \<Rightarrow> bool" where
  "within_limit mx ms s \<longleftrightarrow> cfg_max_message_size (ss_config s) = Some mx \<and> mx < usize_max
     \<and> ss_pending_size s \<le> usize_max \<and> cost (map payload_as_slice (ss_pending_parts s)) \<le> ss_pending_size s
     \<and> list_all (\<lambda>m. cost (parts m) \<le> mx) (ms @ ss_messages s)"

lemma cost_append: "cost (a @ b) = cost a + cost b"
  by (simp add: cost_def)

lemma absorb_within:
  assumes "within_limit mx ms s" "payload_wf p" "absorb_data_frame mor p s = (s', r)"
  shows "within_limit mx ms s'"
proof -
  let ?sz = "sat_add (ss_pending_size s) (payload_len p + PAYLOAD_SIZE)"
  have w: "cfg_max_message_size (ss_config s) = Some mx" "mx < usize_max" "ss_pending_size s \<le> usize_max"
    "cost (map payload_as_slice (ss_pending_parts s)) \<le> ss_pending_size s"
    "list_all (\<lambda>m. cost (parts m) \<le> mx) (ms @ ss_messages s)"
    using assms(1) by (simp_all add: within_limit_def)
  have sz: "ss_pending_size s \<le> ?sz" "?sz \<le> usize_max"
    "?sz \<le> mx \<Longrightarrow> ?sz = ss_pending_size s + (length (payload_as_slice p) + PAYLOAD_SIZE)"
    using w(2,3) assms(2) by (auto simp: sat_add_def payload_len_slice min_def split: if_splits)
  have one: "cost [payload_as_slice p] = length (payload_as_slice p) + PAYLOAD_SIZE" by (simp add: cost_def)
  show ?thesis
  proof (cases "?sz \<le> mx")
    case False
    with assms(3) w sz(1,2) show ?thesis
      by (auto simp: absorb_data_frame_def within_limit_def Let_def)
  next
    case True
    then have "s' = absorb_part mor p (s\<lparr>ss_pending_size := ?sz\<rparr>)"
      using assms(3) w(1) by (auto simp: absorb_data_frame_def Let_def)
    with w sz(2) sz(3) [OF True] True one show ?thesis
      by (auto simp: absorb_part_def within_limit_def cost_append view_simps Let_def cost_def [of "[]"])
  qed
qed

interpretation limit: data_invariant "within_limit mx ms" for mx ms
proof
  show "within_limit mx ms s \<Longrightarrow> data_same s s' \<Longrightarrow> within_limit mx ms s'" for s s'
    by (simp add: within_limit_def data_same_def)
  show "within_limit mx ms s \<Longrightarrow> payload_wf p \<Longrightarrow> absorb_data_frame mor p s = (s', r) \<Longrightarrow> within_limit mx ms s'"
    for s p mor s' r by (rule absorb_within)
  fix s and body :: bytes
  assume a: "within_limit mx ms s" "ss_pending_parts s = []" "over_limit s (length body) = None"
    "length body \<le> MAX_INLINE_MESSAGE"
  then have "length body + PAYLOAD_SIZE \<le> mx"
    using over_limit_exact [OF a(3), of mx] by (simp add: within_limit_def PAYLOAD_SIZE_def isize_max_def MAX_INLINE_MESSAGE_def)
  with a show "within_limit mx ms (s\<lparr>ss_messages := ss_messages s @ [from_inline body]\<rparr>)"
    by (simp add: within_limit_def view_simps cost_def)
qed

lemma trace_within:
  assumes "conn_trace C cfg c evs ms" "cfg_max_message_size cfg = Some mx" "mx < usize_max"
  shows "within_limit mx ms (cn_session c)"
  using assms(1)
proof (induction rule: conn_trace.induct)
  case (trace_new r c)
  with connection_new_fields [OF trace_new] assms(2,3) show ?case by (simp add: within_limit_def cost_def)
next
  case (trace_input c evs ms now src c')
  have "settled c" using trace_track [OF trace_input.hyps(1)] by (simp add: on_track_def)
  from limit.input_kept [OF this trace_input.IH trace_input.hyps(2)] show ?case .
next
  case (trace_event c evs ms s e)
  then show ?case by (auto simp: poll_event_def within_limit_def split: list.splits)
next
  case (trace_message c evs ms s m)
  then show ?case by (auto simp: poll_message_def within_limit_def split: list.splits)
next
  case (trace_swap c evs ms s l)
  then show ?case by (auto simp: swap_messages_def within_limit_def)
next
  case (trace_send c evs ms m)
  then show ?case using limit.same [OF trace_send.IH data_same_outbound [OF send_message_outbound]] by simp
next
  case (trace_command c evs ms cmd)
  have "data_same (cn_session c) (fst (send_command C cmd (cn_session c)))"
    using data_same_outbound [OF write_outbound_commands_outbound [of "cn_session c" C "[cmd]"]]
    by (simp add: send_command_def del: write_outbound_commands.simps)
  from limit.same [OF trace_command.IH this] show ?case by simp
next
  case (trace_advance c evs ms n)
  then show ?case using limit.same [OF trace_advance.IH, of "advance_transmit n (cn_session c)"]
    by (simp add: data_same_def advance_transmit_def split: prod.splits)
next
  case (trace_close c evs ms)
  then show ?case using limit.same [OF trace_close.IH data_same_update(5)] by (simp add: conn_close_def)
next
  case (trace_begin c evs ms c' n)
  then show ?case using limit.same [OF trace_begin.IH data_same_update(5)]
    by (auto simp: begin_supplied_payload_def await_payload_def split: option.splits if_splits)
next
  case (trace_begin_prefix c evs ms c' np)
  then show ?case using limit.same [OF trace_begin_prefix.IH data_same_update(5)]
    by (auto simp: begin_supplied_payload_with_prefix_def await_payload_def Let_def split: option.splits if_splits prod.splits)
next
  case (trace_supply c evs ms now data c')
  have "settled c" using trace_track [OF trace_supply.hyps(1)] by (simp add: on_track_def)
  from limit.supply_kept [OF this trace_supply.IH trace_supply.hyps(2)] show ?case .
qed

text \<open>
  C23.  The size limit: with \<open>max_message_size\<close> configured, every message a
  connection delivers, through every use of it, single or multipart, clear or
  encrypted, inline or not, costs at most the limit, where each part costs its
  length and the size of a payload.
\<close>

theorem max_message_size_bounds:
  assumes "conn_trace C cfg c evs ms" "cfg_max_message_size cfg = Some mx" "mx < usize_max"
    and "handle_input C now src c = (c', res)" "m \<in> set (ms @ ss_messages (cn_session c'))"
  shows "cost (parts m) \<le> mx"
proof -
  have "settled c" using trace_track [OF assms(1)] by (simp add: on_track_def)
  from limit.input_kept [OF this trace_within [OF assms(1-3)] assms(4)] assms(5) show ?thesis
    by (auto simp: within_limit_def list_all_iff)
qed

definition small_config :: connection_config where
  "small_config = pull_config\<lparr>cfg_max_message_size := Some 1000\<rparr>"

theorem max_message_size_bounds_witness:
  "\<exists>c c' m. conn_trace clear_crypto small_config c [] []
    \<and> handle_input clear_crypto 0 (frame_enc (FF_LAST, [7])) c = (c', Ok ())
    \<and> m \<in> set (ss_messages (cn_session c')) \<and> parts m = [[7]] \<and> cost (parts m) \<le> 1000"
proof -
  have cfg: "null_config small_config" "cfg_max_message_size small_config = Some 1000"
    "is_compatible (cfg_socket_type small_config) (cfg_socket_type push_config)"
    using push_pull_new is_compatible_sym by (auto simp: small_config_def null_config_def)
  obtain c0 where new: "connection_new clear_crypto small_config zero_rng = Ok c0"
    by (simp add: connection_new_def small_config_def pull_config_def config_new_def mechanism_build_def
      session_init_def Let_def)
  from null_first_round [OF new cfg(1), of 0] obtain b where
    b: "handle_input clear_crypto 0 null_greeting c0
        = (\<lparr>cn_session = null_ready_session (cn_session c0), cn_in_buf = b\<rparr>, Ok ())"
      "settled \<lparr>cn_session = null_ready_session (cn_session c0), cn_in_buf = b\<rparr>" "cb_flat b = []" by blast
  from null_second_round [OF new cfg(1) b(2,3) push_pull_new(1) cfg(3), of 0] obtain c where
    c: "handle_input clear_crypto 0 (frame_enc (FF_COMMAND, ready_body (our_props push_config)))
        \<lparr>cn_session = null_ready_session (cn_session c0), cn_in_buf = b\<rparr> = (c, Ok ())"
      "settled c" "cb_flat (cn_in_buf c) = []" "rx_open (cn_session c)" "ss_pending_parts (cn_session c) = []"
      "ss_transform (cn_session c) = None" "ss_ws_role (cn_session c) = None" by blast
  have tr: "conn_trace clear_crypto small_config c [] []"
    by (rule trace_input [OF trace_input [OF trace_new [OF new] b(1)] c(1)])
  have k: "ss_config (cn_session c) = small_config" using trace_track [OF tr] by (simp add: on_track_def)
  let ?s = "cn_session c"
  let ?t = "?s\<lparr>ss_messages := ss_messages ?s @ [from_inline [7]]\<rparr>"
  have lim: "over_limit ?s (length [7 :: u8]) = None"
    using k cfg(2) by (simp add: over_limit_def sat_add_def PAYLOAD_SIZE_def)
  have "decode_assembled_frame clear_crypto FF_LAST (payload_from_slice [7]) ?s = (?t, Ok ())"
    using absorb_small [of ?s "[7]"] c(4-6) lim
    by (simp add: decode_assembled_frame_def drop_flag_def FF_LAST_def rx_open_def MAX_INLINE_MESSAGE_def)
  from receive_zmtp [OF _ c(7) lim _ _ this, of 0 "[]"] c(4)
  have "conn_run clear_crypto 0 ?s (frame_enc (FF_LAST, [7])) = conn_run clear_crypto 0 ?t []"
    by (simp add: rx_open_def one_flag_def FF_LAST_def isize_max_def)
  from input_run_all [OF c(2) _ c(3) this] c(4) obtain b' where
    i: "handle_input clear_crypto 0 (frame_enc (FF_LAST, [7])) c = (\<lparr>cn_session = ?t, cn_in_buf = b'\<rparr>, Ok ())"
    by (auto simp: accepting_def rx_open_def)
  from max_message_size_bounds [OF tr cfg(2) _ i, of "from_inline [7]"] have "cost (parts (from_inline [7])) \<le> 1000"
    by (simp add: usize_max_def)
  with tr i show ?thesis
    by (intro exI [of _ c] exI [of _ "\<lparr>cn_session = ?t, cn_in_buf = b'\<rparr>"] exI [of _ "from_inline [7]"])
      (simp add: view_simps MAX_INLINE_MESSAGE_def)
qed

end
