(* ===== verification/Type_State.thy ===== *)
theory Type_State
  imports Message Socket_Type
begin

text \<open>
  Per-socket-type state and message transforms, \<^verbatim>\<open>omq-proto/src/type_state.rs\<close>: the REQ
  and REP envelopes, their alternation, and the single-frame discipline of the
  draft socket types.  A request and its reply pass through both ends
  unchanged, and the sends a REQ or REP socket accepts are exactly those the
  alternation allows.
\<close>

section \<open>Operations\<close>

record type_state =
  req_awaiting_reply :: bool
  rep_envelope :: "bytes list option"

definition type_state_new :: type_state where
  "type_state_new = \<lparr>req_awaiting_reply = False, rep_envelope = None\<rparr>"

definition on_peer_disconnected :: "type_state \<Rightarrow> type_state" where
  "on_peer_disconnected s = s\<lparr>req_awaiting_reply := False, rep_envelope := None\<rparr>"

definition send_discipline :: "socket_type \<Rightarrow> message \<Rightarrow> error option" where
  "send_discipline t msg =
     (if t \<in> {Client, Scatter, Gather, Channel} \<and> msg_len msg \<noteq> 1
      then Some (Protocol ''{t:?} socket requires single-part messages (got {})'')
      else if t = Server \<and> (msg_len msg \<noteq> 1 \<or> routing_id msg = None)
      then Some (Protocol ''SERVER socket requires one part with a routing ID'')
      else if t = Stream \<and> msg_len msg \<noteq> 2
      then Some (Protocol ''{t:?} socket requires [routing_id, body] (2 parts)'')
      else None)"

definition pre_send :: "socket_type \<Rightarrow> message \<Rightarrow> type_state \<Rightarrow> type_state \<times> message result" where
  "pre_send t msg s =
     (case send_discipline t msg of
        Some e \<Rightarrow> (s, Err e)
      | None \<Rightarrow>
          if t = Req then
            (if req_awaiting_reply s
             then (s, Err (Protocol ''REQ socket must receive a reply before sending again''))
             else (s\<lparr>req_awaiting_reply := True\<rparr>, Ok (prepend_empty_delimiter msg)))
          else if t = Rep then
            (case rep_envelope s of
               None \<Rightarrow> (s\<lparr>rep_envelope := None\<rparr>, Err (Protocol ''REP socket must receive a request before replying''))
             | Some envelope \<Rightarrow> (s\<lparr>rep_envelope := None\<rparr>, Ok (with_rep_envelope envelope msg)))
          else (s, Ok msg))"

definition strip_reply :: "message \<Rightarrow> type_state \<Rightarrow> type_state \<times> message option" where
  "strip_reply msg s =
     (case into_parts_payload msg of
        [] \<Rightarrow> (s, None)
      | p # ps \<Rightarrow>
          if \<not> payload_is_empty p then (s, None)
          else (s\<lparr>req_awaiting_reply := False\<rparr>, Some (from_payloads_vec ps)))"

definition post_recv_req_direct :: "message \<Rightarrow> type_state \<Rightarrow> type_state \<times> message option" where
  "post_recv_req_direct msg s = strip_reply msg s"

fun find_delimiter :: "payload list \<Rightarrow> nat option" where
  "find_delimiter [] = None"
| "find_delimiter (p # ps) = (if payload_is_empty p then Some 0 else map_option Suc (find_delimiter ps))"

definition post_recv :: "socket_type \<Rightarrow> message \<Rightarrow> type_state \<Rightarrow> type_state \<times> message option result" where
  "post_recv t msg s =
     (if t = Req then
        (if \<not> req_awaiting_reply s then (s, Ok None)
         else case strip_reply msg s of (s, m) \<Rightarrow> (s, Ok m))
      else if t = Dish then (s, if msg_len msg \<noteq> 2 then Ok None else Ok (Some msg))
      else if t = Rep then
        (let ps = into_parts_payload msg
         in case find_delimiter ps of
              None \<Rightarrow> (s, Ok None)
            | Some i \<Rightarrow>
                (s\<lparr>rep_envelope := Some (map payload_as_bytes (take i ps))\<rparr>,
                 Ok (Some (from_payloads_vec (drop (i + 1) ps)))))
      else (s, Ok (Some msg)))"

section \<open>Lemmas\<close>

lemma find_delimiter_append:
  assumes "list_all payload_wf ps" "list_all (\<lambda>p. payload_as_slice p \<noteq> []) ps"
  shows "find_delimiter (ps @ qs) = map_option (\<lambda>i. length ps + i) (find_delimiter qs)"
  using assms by (induction ps; cases "find_delimiter qs") (auto simp: payload_is_empty_slice)

text \<open>The wire form of a request or reply: envelope, empty delimiter, body.\<close>

lemma parts_split:
  assumes "message_wf m" "parts m = env @ [] # body" "[] \<notin> set env"
  obtains ps p qs where "into_parts_payload m = ps @ p # qs" "map payload_as_slice ps = env"
    "payload_is_empty p" "map payload_as_slice qs = body" "list_all payload_wf ps"
    "list_all (\<lambda>p. payload_as_slice p \<noteq> []) ps"
proof -
  have v: "map payload_as_slice (into_parts_payload m) = env @ [] # body"
    using assms(2) by (simp add: into_parts_payload_eq parts_payload_view)
  have wf: "list_all payload_wf (into_parts_payload m)"
    using assms(1) by (simp add: into_parts_payload_eq parts_payload_wf)
  from v obtain ps p qs where s: "into_parts_payload m = ps @ p # qs" "map payload_as_slice ps = env"
      "payload_as_slice p = []" "map payload_as_slice qs = body"
    by (auto simp: map_eq_append_conv map_eq_Cons_conv)
  moreover have "list_all (\<lambda>p. payload_as_slice p \<noteq> []) ps"
    using s(2) assms(3) by (force simp: list_all_iff)
  moreover have "list_all payload_wf ps" "payload_is_empty p"
    using wf s(1,3) by (simp_all add: payload_is_empty_slice)
  ultimately show ?thesis using that by blast
qed

lemma rep_receives:
  assumes "message_wf m" "parts m = env @ [] # body" "[] \<notin> set env"
  shows "\<exists>m'. post_recv Rep m s = (s\<lparr>rep_envelope := Some env\<rparr>, Ok (Some m')) \<and> parts m' = body"
proof -
  from parts_split [OF assms] obtain ps p qs where
    s: "into_parts_payload m = ps @ p # qs" "map payload_as_slice ps = env" "payload_is_empty p"
      "map payload_as_slice qs = body" "list_all payload_wf ps" "list_all (\<lambda>p. payload_as_slice p \<noteq> []) ps" .
  have "payload_as_bytes = payload_as_slice" by (rule ext) (rule payload_as_bytes_slice)
  with s show ?thesis
    by (simp add: post_recv_def find_delimiter_append parts_from_payloads_vec)
qed

lemma req_receives:
  assumes "message_wf m" "parts m = [] # body" "req_awaiting_reply s"
  shows "\<exists>m'. post_recv Req m s = (s\<lparr>req_awaiting_reply := False\<rparr>, Ok (Some m')) \<and> parts m' = body"
proof -
  have "parts m = [] @ [] # body" "[] \<notin> set ([] :: bytes list)" using assms(2) by simp_all
  from parts_split [OF assms(1) this] obtain p qs where
    "into_parts_payload m = p # qs" "payload_is_empty p" "map payload_as_slice qs = body"
    by (metis append_Nil list.map_disc_iff)
  then show ?thesis using assms(3) by (simp add: post_recv_def strip_reply_def parts_from_payloads_vec)
qed

section \<open>Histories\<close>

datatype type_op = TySend message | TyRecv message | TyGone

datatype outcome = Accepted | Refused | Received | Dropped | Lost

fun type_step :: "socket_type \<Rightarrow> type_op \<Rightarrow> type_state \<Rightarrow> type_state \<times> outcome" where
  "type_step t (TySend m) s =
     (case pre_send t m s of (s, r) \<Rightarrow> (s, case r of Inl _ \<Rightarrow> Refused | Inr _ \<Rightarrow> Accepted))"
| "type_step t (TyRecv m) s =
     (case post_recv t m s of (s, r) \<Rightarrow> (s, case r of Inr (Some _) \<Rightarrow> Received | _ \<Rightarrow> Dropped))"
| "type_step t TyGone s = (on_peer_disconnected s, Lost)"

fun outcomes :: "socket_type \<Rightarrow> type_op list \<Rightarrow> type_state \<Rightarrow> outcome list" where
  "outcomes t [] s = []"
| "outcomes t (op # ops) s = (case type_step t op s of (s, o') \<Rightarrow> o' # outcomes t ops s)"

text \<open>The alternation as an automaton on what the application sees.\<close>

fun req_alternates :: "bool \<Rightarrow> outcome list \<Rightarrow> bool" where
  "req_alternates waiting [] = True"
| "req_alternates waiting (Accepted # l) = (\<not> waiting \<and> req_alternates True l)"
| "req_alternates waiting (Refused # l) = (waiting \<and> req_alternates True l)"
| "req_alternates waiting (Received # l) = (waiting \<and> req_alternates False l)"
| "req_alternates waiting (Dropped # l) = req_alternates waiting l"
| "req_alternates waiting (Lost # l) = req_alternates False l"

fun rep_alternates :: "bool \<Rightarrow> outcome list \<Rightarrow> bool" where
  "rep_alternates pending [] = True"
| "rep_alternates pending (Accepted # l) = (pending \<and> rep_alternates False l)"
| "rep_alternates pending (Refused # l) = (\<not> pending \<and> rep_alternates False l)"
| "rep_alternates pending (Received # l) = rep_alternates True l"
| "rep_alternates pending (Dropped # l) = rep_alternates pending l"
| "rep_alternates pending (Lost # l) = rep_alternates False l"

lemma strip_reply_cases:
  "strip_reply m s = (s, None) \<or> (\<exists>m'. strip_reply m s = (s\<lparr>req_awaiting_reply := False\<rparr>, Some m'))"
  by (auto simp: strip_reply_def split: list.split)

lemma req_step:
  assumes "type_step Req op s = (s', o')"
  shows "req_alternates (req_awaiting_reply s) (o' # l) \<longleftrightarrow> req_alternates (req_awaiting_reply s') l"
proof (cases op)
  case (TyRecv m)
  with assms strip_reply_cases [of m s] show ?thesis
    by (cases "req_awaiting_reply s") (auto simp: post_recv_def split: prod.splits)
qed (use assms in \<open>auto simp: pre_send_def send_discipline_def on_peer_disconnected_def split: if_splits\<close>)

lemma rep_step:
  assumes "type_step Rep op s = (s', o')"
  shows "rep_alternates (rep_envelope s \<noteq> None) (o' # l) \<longleftrightarrow> rep_alternates (rep_envelope s' \<noteq> None) l"
  using assms
  by (cases op) (auto simp: pre_send_def post_recv_def send_discipline_def on_peer_disconnected_def Let_def
    split: option.splits)

section \<open>Properties\<close>

text \<open>
  C29.  Alternation: in every history of a REQ socket sends and replies alternate
  strictly, a send is refused exactly while a reply is awaited and a reply is
  delivered only then; in every history of a REP socket a reply is accepted
  exactly if a request was received since the last one.  A lost peer resets both.
\<close>

theorem req_rep_alternation:
  "req_alternates False (outcomes Req ops type_state_new) \<and> rep_alternates False (outcomes Rep ops type_state_new)"
proof -
  have "req_alternates (req_awaiting_reply s) (outcomes Req ops s)" for s
  proof (induction ops arbitrary: s)
    case (Cons op ops)
    then show ?case using req_step [of op s] by (auto split: prod.split)
  qed simp
  moreover have "rep_alternates (rep_envelope s \<noteq> None) (outcomes Rep ops s)" for s
  proof (induction ops arbitrary: s)
    case (Cons op ops)
    then show ?case using rep_step [of op s] by (auto split: prod.split)
  qed simp
  ultimately show ?thesis
    by (metis select_convs(1) select_convs(2) type_state_new_def)
qed

text \<open>
  C28.  A request and its reply.  What a REQ socket puts on the wire, behind whatever
  routing envelope it collects on the way, reaches the application of the REP socket:
  with the same parts, or, when the message was already stored with an empty
  delimiter of its own (\<^verbatim>\<open>Message::with_prefix\<close> with an empty prefix), without its first, empty
  part, because the REQ socket then adds no delimiter and the REP socket takes
  the message's own for it.  The reply goes out under the envelope and an empty
  delimiter, and once the envelope is stripped on the way back the REQ socket delivers
  the reply's parts and may send again.
\<close>

theorem request_reply_round_trip:
  assumes "pre_send Req m c = (c1, Ok m1)" and "[] \<notin> set env" and "message_wf q" "parts q = env @ parts m1"
  shows "\<exists>d1 m' d2 r1.
      post_recv Rep q d = (d1, Ok (Some m'))
    \<and> (\<not> already_delimited m \<longrightarrow> parts m' = parts m) \<and> (already_delimited m \<longrightarrow> parts m = [] # parts m')
    \<and> pre_send Rep r d1 = (d2, Ok r1) \<and> rep_envelope d2 = None \<and> parts r1 = env @ [] # parts r
    \<and> (message_wf a \<and> parts r1 = env @ parts a \<longrightarrow>
         (\<exists>c2 r'. post_recv Req a c1 = (c2, Ok (Some r')) \<and> parts r' = parts r \<and> \<not> req_awaiting_reply c2))"
proof -
  let ?body = "if already_delimited m then tl (parts m) else parts m" and ?d = "d\<lparr>rep_envelope := Some env\<rparr>"
  have c1: "m1 = prepend_empty_delimiter m" "req_awaiting_reply c1"
    using assms(1) by (auto simp: pre_send_def send_discipline_def split: if_splits)
  have del: "already_delimited m \<Longrightarrow> parts m = [] # tl (parts m)"
    by (cases m) (simp_all add: already_delimited_def)
  then have "parts q = env @ [] # ?body"
    using assms(4) c1(1) by (simp add: parts_prepend_empty_delimiter)
  from rep_receives [OF assms(3) this assms(2), of d] obtain m' where
    m': "post_recv Rep q d = (?d, Ok (Some m'))" "parts m' = ?body" by blast
  have rep: "pre_send Rep r ?d = (?d\<lparr>rep_envelope := None\<rparr>, Ok (with_rep_envelope env r))"
    by (simp add: pre_send_def send_discipline_def)
  have "\<exists>c2 r'. post_recv Req a c1 = (c2, Ok (Some r')) \<and> parts r' = parts r \<and> \<not> req_awaiting_reply c2"
    if "message_wf a" "parts (with_rep_envelope env r) = env @ parts a"
    using req_receives [of a "parts r" c1] that c1(2) by (auto simp: parts_with_rep_envelope)
  then show ?thesis
    using m' rep del by (intro exI conjI) (assumption | simp add: parts_with_rep_envelope)+
qed

theorem request_reply_round_trip_witness:
  "(\<exists>c1 m1 d1 m'. pre_send Req (single [1]) type_state_new = (c1, Ok m1) \<and> parts m1 = [[], [1]]
     \<and> post_recv Rep (multipart [[9], [], [1]]) type_state_new = (d1, Ok (Some m')) \<and> parts m' = [[1]])
   \<and> (\<exists>c1 m1 d1 m'. pre_send Req (with_prefix [] (single [1])) type_state_new = (c1, Ok m1)
     \<and> parts (with_prefix [] (single [1])) = [[], [1]]
     \<and> post_recv Rep m1 type_state_new = (d1, Ok (Some m')) \<and> parts m' = [[1]])"
proof -
  let ?m = "with_prefix [] (single [1])" and ?c = "type_state_new\<lparr>req_awaiting_reply := True\<rparr>"
  have e: "pre_send Req (single [1]) type_state_new = (?c, Ok (prepend_empty_delimiter (single [1])))"
    "pre_send Req ?m type_state_new = (?c, Ok (prepend_empty_delimiter ?m))"
    by (simp_all add: pre_send_def send_discipline_def type_state_new_def)
  have p: "parts (prepend_empty_delimiter (single [1])) = [[], [1]]" "parts (prepend_empty_delimiter ?m) = [[], [1]]"
    "parts ?m = [[], [1]]" "parts (single [1]) = [[1]]" "\<not> already_delimited (single [1])" "already_delimited ?m"
    by code_simp+
  have w: "message_wf (prepend_empty_delimiter ?m)" "message_wf (multipart [[9], [], [1]])" by (simp_all add: wf_intros)
  have "parts (multipart [[9], [], [1]]) = [[9]] @ parts (prepend_empty_delimiter (single [1]))"
    by (simp add: view_simps p(1))
  from request_reply_round_trip [OF e(1) _ w(2) this] p e(1)
  have one: "\<exists>c1 m1 d1 m'. pre_send Req (single [1]) type_state_new = (c1, Ok m1) \<and> parts m1 = [[], [1]]
     \<and> post_recv Rep (multipart [[9], [], [1]]) type_state_new = (d1, Ok (Some m')) \<and> parts m' = [[1]]" by fastforce
  from request_reply_round_trip [OF e(2) _ w(1), of "[]"] p e(2)
  have "\<exists>c1 m1 d1 m'. pre_send Req ?m type_state_new = (c1, Ok m1) \<and> parts ?m = [[], [1]]
     \<and> post_recv Rep m1 type_state_new = (d1, Ok (Some m')) \<and> parts m' = [[1]]" by fastforce
  with one show ?thesis by blast
qed

end
