(* ===== verification/Z85.thy ===== *)
theory Z85
  imports Omq_Prelude
begin

text \<open>
  Z85 text encoding of keys: \<^verbatim>\<open>omq-proto/src/proto/z85.rs\<close> and the conversions of
  \<^verbatim>\<open>mechanism/curve_keys.rs\<close>.  Encoding and decoding are inverse to each other on
  exactly the valid inputs.  Text is its UTF-8 bytes.
\<close>

section \<open>Operations\<close>

definition ALPHABET :: bytes where
  "ALPHABET = ascii ''0123456789abcdefghijklmnopqrstuvwxyzABCDEFGHIJKLMNOPQRSTUVWXYZ.-:+=^!/*?&<>()[]{}@%$#''"

fun build_decoder_loop :: "nat \<Rightarrow> bytes \<Rightarrow> bytes" where
  "build_decoder_loop 0 t = t"
| "build_decoder_loop (Suc i) t = (build_decoder_loop i t)[unat (ALPHABET ! i) := of_nat i]"

definition DECODER :: bytes where
  "DECODER = build_decoder_loop 85 (replicate 256 0xFF)"

definition z85_chunk :: "bytes \<Rightarrow> bytes" where
  "z85_chunk chunk =
     (let value = be_val chunk;
          d4 = (value div 85 ^ 4) mod 85; d3 = (value div 85 ^ 3) mod 85; d2 = (value div 85 ^ 2) mod 85;
          d1 = (value div 85) mod 85; d0 = value mod 85
      in [ALPHABET ! d4, ALPHABET ! d3, ALPHABET ! d2, ALPHABET ! d1, ALPHABET ! d0])"

fun z85_encode_chunks :: "bytes \<Rightarrow> bytes" where
  "z85_encode_chunks (a # b # c # d # rest) = z85_chunk [a, b, c, d] @ z85_encode_chunks rest"
| "z85_encode_chunks _ = []"

definition z85_encode :: "bytes \<Rightarrow> bytes result" where
  "z85_encode data =
     (if length data mod 4 \<noteq> 0 then Err (Protocol ''Z85 input must be a multiple of 4 bytes, got {}'')
      else Ok (z85_encode_chunks data))"

fun z85_value :: "nat \<Rightarrow> bytes \<Rightarrow> nat result" where
  "z85_value value [] = Ok value"
| "z85_value value (c # cs) =
     (let d = DECODER ! unat c
      in if d = 0xFF then Err (Protocol ''Z85 invalid character: {:?}'')
         else z85_value (value * 85 + unat d) cs)"

fun z85_decode_chunks :: "bytes \<Rightarrow> bytes \<Rightarrow> bytes result" where
  "z85_decode_chunks out (a # b # c # d # e # rest) =
     rbind (z85_value 0 [a, b, c, d, e]) (\<lambda>value.
       if 2 ^ 32 - 1 < value then Err (Protocol ''Z85 chunk overflowed u32'')
       else z85_decode_chunks (out @ be_bytes 4 value) rest)"
| "z85_decode_chunks out _ = Ok out"

definition z85_decode :: "bytes \<Rightarrow> bytes result" where
  "z85_decode s =
     (if length s mod 5 \<noteq> 0 then Err (Protocol ''Z85 input must be a multiple of 5 chars, got {}'')
      else z85_decode_chunks [] s)"

text \<open>\<open>CurvePublicKey\<close> and \<open>CurveSecretKey\<close> differ in the word of the message only.\<close>

definition from_z85 :: "bytes \<Rightarrow> bytes result" where
  "from_z85 s =
     rbind (z85_decode s) (\<lambda>raw.
       if length raw \<noteq> 32 then Err (Protocol ''CURVE public key must decode to 32 bytes, got {}'') else Ok raw)"

definition to_z85 :: "bytes \<Rightarrow> bytes result" where
  "to_z85 key = (case z85_encode key of Inl _ \<Rightarrow> Err (Panic ''32 bytes is a multiple of 4'') | Inr s \<Rightarrow> Ok s)"

section \<open>Digits\<close>

lemma alphabet: "length ALPHABET = 85" "distinct ALPHABET"
proof -
  show "length ALPHABET = 85" by (simp add: ALPHABET_def)
  have "map unat ALPHABET =
     [48, 49, 50, 51, 52, 53, 54, 55, 56, 57, 97, 98, 99, 100, 101, 102, 103, 104, 105, 106,
      107, 108, 109, 110, 111, 112, 113, 114, 115, 116, 117, 118, 119, 120, 121, 122, 65, 66, 67, 68,
      69, 70, 71, 72, 73, 74, 75, 76, 77, 78, 79, 80, 81, 82, 83, 84, 85, 86, 87, 88,
      89, 90, 46, 45, 58, 43, 61, 94, 33, 47, 42, 63, 38, 60, 62, 40, 41, 91, 93, 123,
      125, 64, 37, 36, 35]"
    by (simp add: ALPHABET_def ascii_def)
  then have "distinct (map unat ALPHABET)" by simp
  then show "distinct ALPHABET" by (simp add: distinct_map)
qed

lemma length_build_decoder [simp]: "length (build_decoder_loop n t) = length t"
  by (induction n) simp_all

lemma build_decoder_hit:
  "n \<le> 85 \<Longrightarrow> length t = 256 \<Longrightarrow> d < n \<Longrightarrow> build_decoder_loop n t ! unat (ALPHABET ! d) = of_nat d"
proof (induction n)
  case (Suc n)
  have "unat (ALPHABET ! d) < 256" by (rule unat_u8_lt)
  moreover have "unat (ALPHABET ! n) \<noteq> unat (ALPHABET ! d)" if "d \<noteq> n"
    using that Suc.prems alphabet(1,2) by (simp add: nth_eq_iff_index_eq word_unat_eq_iff [symmetric])
  ultimately show ?case using Suc by (cases "d = n") auto
qed simp

lemma build_decoder_miss:
  "\<forall>d < n. unat (ALPHABET ! d) \<noteq> k \<Longrightarrow> build_decoder_loop n t ! k = t ! k"
  by (induction n) auto

lemma decoder_alphabet: "d < 85 \<Longrightarrow> DECODER ! unat (ALPHABET ! d) = of_nat d"
  by (simp add: DECODER_def build_decoder_hit)

lemma alphabet_decoder:
  assumes "DECODER ! unat c \<noteq> 0xFF"
  shows "unat (DECODER ! unat c) < 85 \<and> ALPHABET ! unat (DECODER ! unat c) = c"
proof -
  have "unat c < 256" by (rule unat_u8_lt)
  with assms obtain d where d: "d < 85" "unat (ALPHABET ! d) = unat c"
    using build_decoder_miss [of 85 "unat c" "replicate 256 0xFF"] by (auto simp: DECODER_def)
  then have "ALPHABET ! d = c" by (simp add: word_unat_eq_iff)
  with d(1) decoder_alphabet [OF d(1)] show ?thesis by (simp add: unat_of_nat_u8)
qed

text \<open>Five digits in base 85, most significant first.\<close>

definition z85_digits :: "nat \<Rightarrow> nat list" where
  "z85_digits v = [(v div 85 ^ 4) mod 85, (v div 85 ^ 3) mod 85, (v div 85 ^ 2) mod 85, (v div 85) mod 85, v mod 85]"

definition from_digits :: "nat \<Rightarrow> nat list \<Rightarrow> nat" where
  "from_digits = foldl (\<lambda>v d. v * 85 + d)"

lemma from_digits_digits:
  assumes "v < 85 ^ 5"
  shows "from_digits 0 (z85_digits v) = v"
proof -
  have split: "a div 85 * 85 + a mod 85 = a" for a :: nat by simp
  have d: "v div 85 ^ 2 = v div 85 div 85" "v div 85 ^ 3 = v div 85 div 85 div 85"
    "v div 85 ^ 4 = v div 85 div 85 div 85 div 85"
    by (simp_all add: div_mult2_eq [symmetric])
  have "v div 85 div 85 div 85 div 85 < 85"
    using assms by (simp add: div_mult2_eq [symmetric] less_mult_imp_div_less)
  then show ?thesis
    unfolding from_digits_def z85_digits_def d by (simp only: foldl_Cons foldl_Nil mult_0 add_0 mod_less split)
qed

lemma digits_from_digits:
  assumes "a < 85" "b < 85" "c < 85" "d < 85" "e < 85"
  shows "z85_digits (from_digits 0 [a, b, c, d, e]) = [a, b, c, d, e]"
proof -
  have step: "(q * 85 + r) div 85 = q" "(q * 85 + r) mod 85 = r" if "r < 85" for q r :: nat using that by simp_all
  have dv: "v div 85 ^ 2 = v div 85 div 85" "v div 85 ^ 3 = v div 85 div 85 div 85"
    "v div 85 ^ 4 = v div 85 div 85 div 85 div 85" for v :: nat
    by (simp_all add: div_mult2_eq [symmetric])
  show ?thesis
    unfolding z85_digits_def from_digits_def dv
    using assms by (simp only: foldl_Cons foldl_Nil mult_0 add_0 step mod_less)
qed

lemma z85_chunk_digits: "z85_chunk ch = map ((!) ALPHABET) (z85_digits (be_val ch))"
  by (simp add: z85_chunk_def z85_digits_def Let_def)

lemma z85_value_digits:
  "list_all (\<lambda>d. d < 85) ds \<Longrightarrow> z85_value v (map ((!) ALPHABET) ds) = Ok (from_digits v ds)"
proof (induction ds arbitrary: v)
  case (Cons d ds)
  have "of_nat d \<noteq> (0xFF :: u8)" "unat (of_nat d :: u8) = d"
    using Cons.prems by (auto simp: unat_of_nat_u8 word_unat_eq_iff)
  with Cons show ?case by (simp add: decoder_alphabet from_digits_def Let_def)
qed (simp add: from_digits_def)

lemma z85_value_Ok:
  assumes "z85_value v cs = Ok w"
  shows "\<exists>ds. list_all (\<lambda>d. d < 85) ds \<and> cs = map ((!) ALPHABET) ds \<and> w = from_digits v ds"
  using assms
proof (induction cs arbitrary: v)
  case (Cons c cs)
  let ?d = "DECODER ! unat c"
  from Cons.prems have d: "?d \<noteq> 0xFF" "z85_value (v * 85 + unat ?d) cs = Ok w"
    by (auto simp: Let_def split: if_splits)
  from Cons.IH [OF d(2)] obtain ds where "list_all (\<lambda>d. d < 85) ds" "cs = map ((!) ALPHABET) ds"
      "w = from_digits (v * 85 + unat ?d) ds" by blast
  with alphabet_decoder [OF d(1)] show ?case
    by (intro exI [of _ "unat ?d # ds"]) (simp add: from_digits_def)
qed (simp add: from_digits_def)

section \<open>Chunks\<close>

lemma digits_small: "list_all (\<lambda>d. d < 85) (z85_digits v)"
  by (simp add: z85_digits_def)

lemma be_val_u32: "length ch = 4 \<Longrightarrow> be_val ch < 2 ^ 32"
  using be_val_lt [of ch] by simp

lemma z85_value_chunk:
  assumes "length ch = 4"
  shows "z85_value 0 (z85_chunk ch) = Ok (be_val ch)"
  using be_val_u32 [OF assms] z85_value_digits [OF digits_small, of 0 "be_val ch"]
  by (simp add: z85_chunk_digits from_digits_digits)

lemma decode_chunk_step:
  assumes "length ch = 4"
  shows "z85_decode_chunks out (z85_chunk ch @ rest) = z85_decode_chunks (out @ ch) rest"
proof -
  have five: "z85_chunk ch @ rest = z85_chunk ch ! 0 # z85_chunk ch ! 1 # z85_chunk ch ! 2 # z85_chunk ch ! 3
      # z85_chunk ch ! 4 # rest"
    "[z85_chunk ch ! 0, z85_chunk ch ! 1, z85_chunk ch ! 2, z85_chunk ch ! 3, z85_chunk ch ! 4] = z85_chunk ch"
    by (simp_all add: z85_chunk_def Let_def)
  have "be_bytes 4 (be_val ch) = ch" using be_bytes_be_val [of ch] assms by simp
  then show ?thesis
    unfolding five(1) z85_decode_chunks.simps(1) five(2) z85_value_chunk [OF assms]
    using be_val_u32 [OF assms] by simp
qed

lemma decode_encode_chunks:
  "length data mod 4 = 0 \<Longrightarrow> z85_decode_chunks out (z85_encode_chunks data) = Ok (out @ data)"
proof (induction data arbitrary: out rule: z85_encode_chunks.induct)
  case (1 a b c d rest)
  then show ?case using decode_chunk_step [of "[a, b, c, d]"] by simp
qed auto

lemma list_of_four:
  assumes "length xs = 4"
  obtains a b c d where "xs = [a, b, c, d]"
  using assms by (auto simp: numeral_eq_Suc length_Suc_conv)

lemma encode_decode_chunks:
  "length s mod 5 = 0 \<Longrightarrow> z85_decode_chunks out s = Ok r \<Longrightarrow>
     \<exists>d. r = out @ d \<and> length d mod 4 = 0 \<and> z85_encode_chunks d = s"
proof (induction out s rule: z85_decode_chunks.induct)
  case (1 out a b c d e rest)
  from 1(3) obtain v where v: "z85_value 0 [a, b, c, d, e] = Ok v" "v < 2 ^ 32"
      "z85_decode_chunks (out @ be_bytes 4 v) rest = Ok r"
    by (cases "z85_value 0 [a, b, c, d, e]") (auto split: if_splits)
  have "\<not> 2 ^ 32 - 1 < v" "length rest mod 5 = 0" using v(2) 1(2) by simp_all
  from 1(1) [OF this v(3)] obtain x where
    x: "r = (out @ be_bytes 4 v) @ x" "length x mod 4 = 0" "z85_encode_chunks x = rest"
    by (elim exE conjE) (rule that; assumption)
  from z85_value_Ok [OF v(1)] obtain ds where
    ds: "list_all (\<lambda>d. d < 85) ds" "[a, b, c, d, e] = map ((!) ALPHABET) ds" "v = from_digits 0 ds"
    by (elim exE conjE) (rule that; assumption)
  from ds(2) have "length [a, b, c, d, e] = length ds" by (metis length_map)
  then have "length ds = 5" by simp
  then obtain d1 d2 d3 d4 d5 where "ds = [d1, d2, d3, d4, d5]" by (auto simp: numeral_eq_Suc length_Suc_conv)
  with ds digits_from_digits have dig: "z85_digits v = ds" by auto
  from list_of_four [OF length_be_bytes] obtain b1 b2 b3 b4 where bs: "be_bytes 4 v = [b1, b2, b3, b4]" .
  have "be_val (be_bytes 4 v) = v" using v(2) by simp
  then have "z85_chunk [b1, b2, b3, b4] = [a, b, c, d, e]"
    by (simp add: z85_chunk_digits bs [symmetric] dig ds(2))
  with x show ?case by (intro exI [of _ "[b1, b2, b3, b4] @ x"]) (simp add: bs)
qed auto

section \<open>Properties\<close>

text \<open>
  C40.  Z85 is exact: a text decodes to some bytes exactly if they encode to it,
  so the decoder accepts the canonical text of each input and nothing else;
  encoding succeeds exactly on multiples of four bytes and yields five
  characters for each.
\<close>

theorem z85_exact:
  "(z85_encode data = Ok s \<longleftrightarrow> z85_decode s = Ok data)
   \<and> ((\<exists>s. z85_encode data = Ok s \<and> length s = length data div 4 * 5) \<longleftrightarrow> length data mod 4 = 0)"
proof -
  have len: "length d mod 4 = 0 \<Longrightarrow> length (z85_encode_chunks d) = length d div 4 * 5" for d
    by (induction d rule: z85_encode_chunks.induct) (auto simp: z85_chunk_def Let_def)
  have "z85_decode s = Ok data" if "z85_encode data = Ok s"
    using that decode_encode_chunks [of data "[]"] len [of data]
    by (auto simp: z85_encode_def z85_decode_def split: if_splits)
  moreover have "z85_encode data = Ok s" if "z85_decode s = Ok data"
    using that encode_decode_chunks [of s "[]" data] by (auto simp: z85_encode_def z85_decode_def split: if_splits)
  moreover have "(\<exists>s. z85_encode data = Ok s \<and> length s = length data div 4 * 5) \<longleftrightarrow> length data mod 4 = 0"
    using len [of data] by (auto simp: z85_encode_def)
  ultimately show ?thesis by blast
qed

end
