(* ===== verification/Subscription.thy ===== *)
theory Subscription
  imports Omq_Prelude
begin

text \<open>
  The prefix-subscription matcher of publishers, \<^verbatim>\<open>omq-proto/src/subscription.rs\<close>.  The
  Patricia set it is built on is a library: a record of its operations, with
  what its documentation promises of them as named laws over the set of stored
  keys.
\<close>

record 's patricia =
  pt_empty :: 's
  pt_insert :: "bytes \<Rightarrow> 's \<Rightarrow> 's"
  pt_remove :: "bytes \<Rightarrow> 's \<Rightarrow> 's"
  pt_longest_common_prefix :: "'s \<Rightarrow> bytes \<Rightarrow> bytes option"

text \<open>
  \<open>get_longest_common_prefix\<close> returns the longest stored key that is a prefix of
  the value.
\<close>

definition longest_prefix :: "bytes set \<Rightarrow> bytes \<Rightarrow> bytes option \<Rightarrow> bool" where
  "longest_prefix keys topic r \<longleftrightarrow>
     (case r of
        None \<Rightarrow> \<not> (\<exists>k \<in> keys. prefix k topic)
      | Some k \<Rightarrow> k \<in> keys \<and> prefix k topic \<and> (\<forall>k' \<in> keys. prefix k' topic \<longrightarrow> length k' \<le> length k))"

definition patricia_laws :: "('s, 'e) patricia_scheme \<Rightarrow> ('s \<Rightarrow> bytes set) \<Rightarrow> bool" where
  "patricia_laws T keys \<longleftrightarrow> keys (pt_empty T) = {}
     \<and> (\<forall>k s. keys (pt_insert T k s) = insert k (keys s))
     \<and> (\<forall>k s. keys (pt_remove T k s) = keys s - {k})
     \<and> (\<forall>s topic. longest_prefix (keys s) topic (pt_longest_common_prefix T s topic))"

section \<open>Operations\<close>

record 's subscription_set =
  sub_set :: 's
  sub_subscribe_all :: bool

definition sub_new :: "('s, 'e) patricia_scheme \<Rightarrow> 's subscription_set" where
  "sub_new T = \<lparr>sub_set = pt_empty T, sub_subscribe_all = False\<rparr>"

definition sub_add :: "('s, 'e) patricia_scheme \<Rightarrow> bytes \<Rightarrow> 's subscription_set \<Rightarrow> 's subscription_set" where
  "sub_add T pre s =
     (if pre = [] then s\<lparr>sub_subscribe_all := True\<rparr> else s\<lparr>sub_set := pt_insert T pre (sub_set s)\<rparr>)"

definition sub_remove :: "('s, 'e) patricia_scheme \<Rightarrow> bytes \<Rightarrow> 's subscription_set \<Rightarrow> 's subscription_set" where
  "sub_remove T pre s =
     (if pre = [] then s\<lparr>sub_subscribe_all := False\<rparr> else s\<lparr>sub_set := pt_remove T pre (sub_set s)\<rparr>)"

definition is_subscribe_all :: "'s subscription_set \<Rightarrow> bool" where
  "is_subscribe_all s = sub_subscribe_all s"

definition sub_matches :: "('s, 'e) patricia_scheme \<Rightarrow> bytes \<Rightarrow> 's subscription_set \<Rightarrow> bool" where
  "sub_matches T topic s =
     (if sub_subscribe_all s then True else pt_longest_common_prefix T (sub_set s) topic \<noteq> None)"

section \<open>Properties\<close>

datatype sub_op = Subscribe_To bytes | Cancel_To bytes

fun sub_step :: "('s, 'e) patricia_scheme \<Rightarrow> 's subscription_set \<Rightarrow> sub_op \<Rightarrow> 's subscription_set" where
  "sub_step T s (Subscribe_To p) = sub_add T p s"
| "sub_step T s (Cancel_To p) = sub_remove T p s"

text \<open>The reference: the set of prefixes subscribed and not cancelled since.\<close>

fun active_step :: "bytes set \<Rightarrow> sub_op \<Rightarrow> bytes set" where
  "active_step A (Subscribe_To p) = insert p A"
| "active_step A (Cancel_To p) = A - {p}"

definition sub_view :: "('s \<Rightarrow> bytes set) \<Rightarrow> 's subscription_set \<Rightarrow> bytes set" where
  "sub_view keys s = keys (sub_set s) \<union> (if sub_subscribe_all s then {[]} else {})"

definition sub_wf :: "('s \<Rightarrow> bytes set) \<Rightarrow> 's subscription_set \<Rightarrow> bool" where
  "sub_wf keys s \<longleftrightarrow> [] \<notin> keys (sub_set s)"

lemma sub_step_view:
  assumes "patricia_laws T keys" "sub_wf keys s"
  shows "sub_view keys (sub_step T s op) = active_step (sub_view keys s) op \<and> sub_wf keys (sub_step T s op)"
  using assms
  by (cases op) (auto simp: patricia_laws_def sub_add_def sub_remove_def sub_view_def sub_wf_def)

lemma sub_history_view:
  assumes "patricia_laws T keys"
  shows "sub_wf keys s \<Longrightarrow> sub_view keys (foldl (sub_step T) s ops) = foldl active_step (sub_view keys s) ops"
proof (induction ops arbitrary: s)
  case (Cons op ops)
  with sub_step_view [OF assms Cons.prems, of op] show ?case by simp
qed simp

lemma sub_matches_view:
  assumes "patricia_laws T keys"
  shows "sub_matches T topic s \<longleftrightarrow> (\<exists>p \<in> sub_view keys s. prefix p topic)"
proof -
  have "longest_prefix (keys (sub_set s)) topic (pt_longest_common_prefix T (sub_set s) topic)"
    using assms by (simp add: patricia_laws_def)
  then show ?thesis
    by (cases "pt_longest_common_prefix T (sub_set s) topic")
      (auto simp: sub_matches_def sub_view_def longest_prefix_def)
qed

text \<open>
  C38.  Subscription matching: after any history of subscribing and cancelling, a
  topic matches exactly if one of the prefixes subscribed and not cancelled since
  is a prefix of it, the empty prefix included; subscribing twice counts once.
\<close>

theorem subscription_matching:
  assumes "patricia_laws T keys"
  shows "sub_matches T topic (foldl (sub_step T) (sub_new T) ops)
    \<longleftrightarrow> (\<exists>p \<in> foldl active_step {} ops. prefix p topic)"
proof -
  have new: "sub_wf keys (sub_new T)" "sub_view keys (sub_new T) = {}"
    using assms by (simp_all add: sub_new_def sub_wf_def sub_view_def patricia_laws_def)
  show ?thesis
    unfolding sub_matches_view [OF assms] sub_history_view [OF assms new(1)] new(2) ..
qed

text \<open>A set kept as a list, with the library's interface.\<close>

definition list_patricia :: "bytes list patricia" where
  "list_patricia =
     \<lparr>pt_empty = [], pt_insert = List.insert, pt_remove = (\<lambda>k. filter (\<lambda>x. x \<noteq> k)),
      pt_longest_common_prefix = (\<lambda>ks topic.
        fold (\<lambda>k r. if prefix k topic \<and> (case r of None \<Rightarrow> True | Some b \<Rightarrow> length b \<le> length k) then Some k else r) ks None)\<rparr>"

lemma list_longest_fold:
  "longest_prefix A topic r \<Longrightarrow> longest_prefix (A \<union> set ks) topic
     (fold (\<lambda>k r. if prefix k topic \<and> (case r of None \<Rightarrow> True | Some b \<Rightarrow> length b \<le> length k) then Some k else r) ks r)"
proof (induction ks arbitrary: A r)
  case (Cons k ks)
  let ?r = "if prefix k topic \<and> (case r of None \<Rightarrow> True | Some b \<Rightarrow> length b \<le> length k) then Some k else r"
  have "longest_prefix (insert k A) topic ?r"
    using Cons.prems by (cases r) (auto simp: longest_prefix_def)
  from Cons.IH [OF this] show ?case by (simp add: Un_commute)
qed simp

lemma list_patricia_laws: "patricia_laws list_patricia set"
proof -
  have "longest_prefix {} topic None" for topic by (simp add: longest_prefix_def)
  from list_longest_fold [OF this] show ?thesis
    by (auto simp: patricia_laws_def list_patricia_def)
qed

theorem subscription_matching_witness:
  "patricia_laws list_patricia set
   \<and> sub_matches list_patricia [1, 2] (foldl (sub_step list_patricia) (sub_new list_patricia)
       [Subscribe_To [], Subscribe_To [1], Cancel_To []])"
proof -
  have "foldl active_step {} [Subscribe_To [], Subscribe_To [1], Cancel_To []] = {[1]}" by auto
  with subscription_matching [OF list_patricia_laws, of "[1, 2]" "[Subscribe_To [], Subscribe_To [1], Cancel_To []]"]
    list_patricia_laws show ?thesis by simp
qed

end
