(* ===== verification/Flow.thy ===== *)
theory Flow
  imports Omq_Prelude
begin

text \<open>
  Outbound flow control and reconnect backoff: \<^verbatim>\<open>omq-proto/src/flow.rs\<close> and
  \<^verbatim>\<open>omq-proto/src/backoff.rs\<close>, with \<^verbatim>\<open>ReconnectPolicy\<close> of \<^verbatim>\<open>options.rs\<close>.  A \<^verbatim>\<open>Duration\<close> is its
  number of nanoseconds, at most \<open>duration_max\<close>.  The random draw of the jitter is
  an argument with the bound the source asks of the generator.
\<close>

section \<open>Drain budget\<close>

record drain_budget =
  db_msgs :: nat
  db_bytes :: nat
  db_max_msgs :: nat
  db_max_bytes :: nat

definition budget_new :: "nat \<Rightarrow> nat \<Rightarrow> drain_budget" where
  "budget_new max_msgs max_bytes =
     \<lparr>db_msgs = 0, db_bytes = 0, db_max_msgs = max_msgs, db_max_bytes = max_bytes\<rparr>"

definition WORKER :: drain_budget where "WORKER = budget_new 256 (2 * 1024 * 1024)"
definition WIRE_DRAIN :: drain_budget where "WIRE_DRAIN = budget_new 1024 (1024 * 1024)"

definition budget_account :: "nat \<Rightarrow> drain_budget \<Rightarrow> drain_budget \<times> bool" where
  "budget_account byte_len b =
     (let b = b\<lparr>db_msgs := db_msgs b + 1, db_bytes := sat_add (db_bytes b) byte_len\<rparr>
      in (b, db_msgs b < db_max_msgs b \<and> db_bytes b < db_max_bytes b))"

definition budget_exhausted :: "drain_budget \<Rightarrow> bool" where
  "budget_exhausted b \<longleftrightarrow> db_max_msgs b \<le> db_msgs b \<or> db_max_bytes b \<le> db_bytes b"

definition budget_reset :: "drain_budget \<Rightarrow> drain_budget" where
  "budget_reset b = b\<lparr>db_msgs := 0, db_bytes := 0\<rparr>"

definition remaining_msgs :: "drain_budget \<Rightarrow> nat" where
  "remaining_msgs b = db_max_msgs b - db_msgs b"

text \<open>\<^verbatim>\<open>clamp\<close> panics when its bounds are crossed.\<close>

definition fair_share :: "nat \<Rightarrow> nat \<Rightarrow> nat \<Rightarrow> nat result" where
  "fair_share queue_len peers cap =
     (if peers \<le> 1 then Ok cap
      else if cap < 1 then Err (Panic ''assertion failed: min <= max'')
      else Ok (min (max (queue_len div peers) 1) cap))"

section \<open>Backoff\<close>

definition duration_max :: nat where
  "duration_max = (2 ^ 64 - 1) * 10 ^ 9 + 999999999"

datatype reconnect_policy =
    Reconnect_Disabled
  | Reconnect_Fixed nat
  | Reconnect_Exponential nat nat

definition default_reconnect :: reconnect_policy where
  "default_reconnect = Reconnect_Fixed (100 * 10 ^ 6)"

definition duration_from_millis :: "nat \<Rightarrow> nat" where
  "duration_from_millis ms =
     (let secs = ms div 1000; millis = ms mod 1000
      in if 2 ^ 64 - 1 < secs then (2 ^ 64 - 1) * 10 ^ 9 + 999000000
         else secs * 10 ^ 9 + millis * 1000000)"

definition jitter_delta :: "nat \<Rightarrow> nat" where
  "jitter_delta d = max (d div 10 ^ 6) 1 div 10"

definition jitter :: "nat \<Rightarrow> nat \<Rightarrow> nat" where
  "jitter draw d =
     (if d = 0 then d
      else let ms = max (d div 10 ^ 6) 1; delta = ms div 10; offset = draw - delta
        in duration_from_millis (ms + offset))"

definition exponential_base :: "nat \<Rightarrow> nat \<Rightarrow> nat \<Rightarrow> nat" where
  "exponential_base mn mx attempt =
     (let shift = min (attempt - 1) 20; scale = (2 :: nat) ^ shift
      in min (min (mn * (scale mod 2 ^ 32)) duration_max) mx)"

definition next_delay :: "nat \<Rightarrow> reconnect_policy \<Rightarrow> nat \<Rightarrow> nat option" where
  "next_delay draw policy attempt =
     (case policy of
        Reconnect_Disabled \<Rightarrow> None
      | Reconnect_Fixed d \<Rightarrow> Some (jitter draw d)
      | Reconnect_Exponential mn mx \<Rightarrow>
          Some (jitter draw (exponential_base mn mx attempt)))"

section \<open>Properties\<close>

text \<open>A drain loop over the sizes of the queued items: it stops when the budget says so.\<close>

fun drain_loop :: "drain_budget \<Rightarrow> nat list \<Rightarrow> nat list" where
  "drain_loop b [] = []"
| "drain_loop b (n # ns) =
     (case budget_account n b of (b, go) \<Rightarrow> n # (if go then drain_loop b ns else []))"

lemma drain_loop_prefix: "prefix (drain_loop b ns) ns"
  by (induction ns arbitrary: b) (auto split: prod.split)

lemma drain_loop_bounds:
  fixes b :: drain_budget
  assumes "db_msgs b < db_max_msgs b" "db_bytes b < db_max_bytes b" "db_max_bytes b \<le> usize_max"
  shows "db_msgs b + length (drain_loop b ns) \<le> db_max_msgs b
    \<and> (drain_loop b ns \<noteq> [] \<longrightarrow> db_bytes b + sum_list (butlast (drain_loop b ns)) < db_max_bytes b)"
  using assms
proof (induction ns arbitrary: b)
  case (Cons n ns)
  let ?b = "fst (budget_account n b)"
  have b: "db_msgs ?b = db_msgs b + 1" "db_bytes ?b = sat_add (db_bytes b) n" "db_max_msgs ?b = db_max_msgs b"
    "db_max_bytes ?b = db_max_bytes b"
    "snd (budget_account n b) \<longleftrightarrow> db_msgs ?b < db_max_msgs b \<and> db_bytes ?b < db_max_bytes b"
    by (simp_all add: budget_account_def Let_def)
  show ?case
  proof (cases "snd (budget_account n b)")
    case True
    with b(5) Cons.prems(3) have ex: "sat_add (db_bytes b) n = db_bytes b + n"
      by (auto simp: sat_add_def b(2) split: if_splits)
    from Cons.IH [of ?b] True b Cons.prems(3) have
      "db_msgs b + 1 + length (drain_loop ?b ns) \<le> db_max_msgs b"
      "drain_loop ?b ns \<noteq> [] \<longrightarrow> db_bytes b + n + sum_list (butlast (drain_loop ?b ns)) < db_max_bytes b"
      by (simp_all add: ex)
    with True Cons.prems(2) show ?thesis by (auto split: prod.split)
  next
    case False
    with Cons.prems show ?thesis by (auto split: prod.split)
  qed
qed simp

text \<open>
  The drain budget: a loop that accounts each item it takes and stops when
  the budget says so takes items in order, at most the message cap of them, and
  crosses the byte cap with the last one at most; and it stops only when the
  queue is empty or a cap is reached.
\<close>

lemma drain_budget_bounds:
  assumes "0 < max_msgs" "0 < max_bytes" "max_bytes \<le> usize_max"
  shows "prefix (drain_loop (budget_new max_msgs max_bytes) ns) ns
    \<and> length (drain_loop (budget_new max_msgs max_bytes) ns) \<le> max_msgs
    \<and> (ns \<noteq> [] \<longrightarrow> sum_list (butlast (drain_loop (budget_new max_msgs max_bytes) ns)) < max_bytes)
    \<and> (drain_loop (budget_new max_msgs max_bytes) ns = ns
       \<or> length (drain_loop (budget_new max_msgs max_bytes) ns) = max_msgs
       \<or> max_bytes \<le> sum_list (drain_loop (budget_new max_msgs max_bytes) ns))"
proof -
  let ?b = "budget_new max_msgs max_bytes"
  have "drain_loop b ns = ns \<or> db_msgs b + length (drain_loop b ns) = db_max_msgs b
      \<or> db_max_bytes b \<le> db_bytes b + sum_list (drain_loop b ns)"
    if "db_msgs b < db_max_msgs b" "db_bytes b < db_max_bytes b" for b :: drain_budget
    using that
  proof (induction ns arbitrary: b)
    case (Cons n ns)
    let ?c = "fst (budget_account n b)"
    have c: "db_msgs ?c = db_msgs b + 1" "db_bytes ?c \<le> db_bytes b + n" "db_max_msgs ?c = db_max_msgs b"
      "db_max_bytes ?c = db_max_bytes b"
      "snd (budget_account n b) \<longleftrightarrow> db_msgs ?c < db_max_msgs b \<and> db_bytes ?c < db_max_bytes b"
      by (simp_all add: budget_account_def Let_def sat_add_def)
    show ?case
    proof (cases "snd (budget_account n b)")
      case True
      with Cons.IH [of ?c] c show ?thesis by (fastforce split: prod.split)
    next
      case False
      with c Cons.prems have "db_msgs b + 1 = db_max_msgs b \<or> db_max_bytes b \<le> db_bytes b + n" by linarith
      with False show ?thesis by (auto split: prod.split)
    qed
  qed simp
  from this [of ?b] drain_loop_bounds [of ?b ns] assms drain_loop_prefix [of ?b ns] show ?thesis
    by (cases ns) (auto simp: budget_new_def split: prod.split)
qed

theorem drain_budget_bounds_witness:
  "length (drain_loop (budget_new 3 100) [40, 40, 40, 40]) \<le> 3
   \<and> drain_loop (budget_new 3 100) [40, 40, 40, 40] = [40, 40, 40]"
proof -
  have "drain_loop (budget_new 3 100) [40, 40, 40, 40] = [40, 40, 40]"
    by (simp add: budget_new_def budget_account_def sat_add_def usize_max_def)
  then show ?thesis
    using drain_budget_bounds [of 3 100 "[40, 40, 40, 40]"] by (simp add: usize_max_def)
qed

lemma duration_from_millis_eq:
  "duration_from_millis ms =
     (if 2 ^ 64 - 1 < ms div 1000 then (2 ^ 64 - 1) * 10 ^ 9 + 999000000 else ms * 10 ^ 6)"
proof -
  have "q * 1000000000 + r * 1000000 = (q * 1000 + r) * 1000000" for q r :: nat by simp
  from this [of "ms div 1000" "ms mod 1000"] show ?thesis by (simp add: duration_from_millis_def Let_def)
qed

lemma duration_from_millis_mono:
  assumes "a \<le> b"
  shows "duration_from_millis a \<le> duration_from_millis b"
proof -
  have "a div 1000 \<le> b div 1000" using assms by (rule div_le_mono)
  moreover have "a * 10 ^ 6 \<le> (2 ^ 64 - 1) * 10 ^ 9 + 999000000" if "\<not> 2 ^ 64 - 1 < a div 1000"
  proof -
    have "a < (2 ^ 64) * 1000" using that by (simp add: div_less_iff_less_mult)
    then show ?thesis by simp
  qed
  ultimately show ?thesis using assms unfolding duration_from_millis_eq by auto
qed

text \<open>
  Reconnect delays: with a draw the generator may return, a delay is never
  shorter than the policy's interval in whole milliseconds and at most a tenth
  longer; the exponential interval never decreases from one attempt to the next
  and never exceeds its maximum.  The source documents the jitter as a tenth
  either way.
\<close>

lemma backoff_bounds:
  assumes "0 < d" "d \<le> duration_max" "draw \<le> 2 * jitter_delta d"
  shows "d div 10 ^ 6 * 10 ^ 6 \<le> jitter draw d
    \<and> jitter draw d \<le> (max (d div 10 ^ 6) 1 + jitter_delta d) * 10 ^ 6
    \<and> next_delay draw (Reconnect_Fixed d) attempt = Some (jitter draw d)
    \<and> next_delay draw (Reconnect_Exponential mn mx) attempt = Some (jitter draw (exponential_base mn mx attempt))
    \<and> exponential_base mn mx attempt \<le> mx
    \<and> exponential_base mn mx attempt \<le> exponential_base mn mx (attempt + 1)"
proof -
  let ?ms = "max (d div 10 ^ 6) 1"
  have j: "jitter draw d = duration_from_millis (?ms + (draw - jitter_delta d))"
    using assms(1) by (simp add: jitter_def jitter_delta_def Let_def)
  have "d div 10 ^ 6 < 2 ^ 64 * 1000" using assms(2) by (simp add: duration_max_def)
  then have "d div 10 ^ 6 * 10 ^ 6 = duration_from_millis (d div 10 ^ 6)"
    by (simp add: duration_from_millis_eq div_less_iff_less_mult)
  also have "\<dots> \<le> jitter draw d" unfolding j by (rule duration_from_millis_mono) simp
  finally have low: "d div 10 ^ 6 * 10 ^ 6 \<le> jitter draw d" .
  have le: "duration_from_millis m \<le> m * 10 ^ 6" for m
    by (auto simp: duration_from_millis_eq)
  have "draw - jitter_delta d \<le> jitter_delta d" using assms(3) by simp
  then have "?ms + (draw - jitter_delta d) \<le> ?ms + jitter_delta d" by simp
  then have high: "jitter draw d \<le> (?ms + jitter_delta d) * 10 ^ 6"
    unfolding j by (meson le le_trans mult_le_mono1)
  have "(2 :: nat) ^ min (attempt - 1) 20 \<le> 2 ^ min attempt 20" by (rule power_increasing) auto
  then have step: "mn * 2 ^ min (attempt - 1) 20 \<le> mn * 2 ^ min attempt 20" by (rule mult_le_mono2)
  have small: "(2 :: nat) ^ min k 20 mod 2 ^ 32 = 2 ^ min k 20" for k
  proof -
    have "(2 :: nat) ^ min k 20 \<le> 2 ^ 20" by (rule power_increasing) auto
    then show ?thesis by simp
  qed
  have "exponential_base mn mx attempt \<le> exponential_base mn mx (attempt + 1)"
    unfolding exponential_base_def Let_def small add_diff_cancel_right' by (intro min.mono step order_refl)
  moreover have "exponential_base mn mx attempt \<le> mx" unfolding exponential_base_def Let_def by (rule min.cobounded2)
  moreover have "next_delay draw (Reconnect_Fixed d) attempt = Some (jitter draw d)"
    "next_delay draw (Reconnect_Exponential mn mx) attempt = Some (jitter draw (exponential_base mn mx attempt))"
    unfolding next_delay_def by simp_all
  ultimately show ?thesis using low high by blast
qed

theorem backoff_bounds_witness:
  "jitter_delta (100 * 10 ^ 6) = 10 \<and> 100 * 10 ^ 6 \<le> jitter 20 (100 * 10 ^ 6) \<and> jitter 20 (100 * 10 ^ 6) \<le> 110 * 10 ^ 6"
  using backoff_bounds [of "100 * 10 ^ 6" 20] by (simp add: jitter_delta_def duration_max_def)

end
