(* ===== verification/Yring.thy ===== *)
theory Yring
  imports Omq_Prelude
begin

text \<open>
  The bounded single-producer single-consumer ring \<^verbatim>\<open>yring/src/lib.rs\<close>: the ring with
  its two atomic cursors, the producer's private write cursor and cached head,
  the consumer's private read cursor and cached tail, all 64-bit and wrapping.

  The shared allocation is one record that both halves reach.  A slot is \<open>None\<close>
  while it holds no item: never written, or moved out.  The value an acquire
  load of the other side's cursor returns is an argument of the operation: the
  release and acquire pairs promise only that it is one the other side has
  stored, not older than one already seen, so every interleaving and every
  stale read of the two threads is a sequence of these operations with some
  loaded values.  \<open>fresh_head\<close> and \<open>fresh_tail\<close> are that promise.
\<close>

type_synonym cursor = "64 word"

record 'a ring =
  rg_buf :: "'a option list"
  rg_mask :: cursor
  rg_head :: cursor
  rg_tail :: cursor
  rg_producer_dropped :: bool
  rg_consumer_dropped :: bool

record 'a spsc =
  sp_ring :: "'a ring"
  sp_cursor :: cursor
  sp_cached_head :: cursor
  sp_head :: cursor
  sp_cached_tail :: cursor

section \<open>The ring\<close>

fun next_power_of_two :: "nat \<Rightarrow> nat \<Rightarrow> nat \<Rightarrow> nat option" where
  "next_power_of_two 0 p n = None"
| "next_power_of_two (Suc k) p n = (if n \<le> p then Some p else next_power_of_two k (2 * p) n)"

text \<open>Of the 64 powers of two a \<^verbatim>\<open>usize\<close> can hold, the least not below \<open>n\<close>.\<close>

definition checked_next_power_of_two :: "nat \<Rightarrow> nat option" where
  "checked_next_power_of_two n = next_power_of_two 64 1 n"

definition ring_new :: "nat \<Rightarrow> 'a ring result" where
  "ring_new capacity =
     (if capacity = 0 then Err (Panic ''capacity must be > 0'')
      else case checked_next_power_of_two capacity of
             None \<Rightarrow> Err (Panic ''capacity must fit in the next power of two'')
           | Some cap \<Rightarrow>
               if usize_max div 2 < cap then Err (Panic ''capacity must be <= half the cursor range'')
               else Ok \<lparr>rg_buf = replicate cap None, rg_mask = of_nat (cap - 1), rg_head = 0, rg_tail = 0,
                        rg_producer_dropped = False, rg_consumer_dropped = False\<rparr>)"

definition ring_capacity :: "'a ring \<Rightarrow> cursor" where
  "ring_capacity r = rg_mask r + 1"

definition ring_distance :: "cursor \<Rightarrow> cursor \<Rightarrow> cursor" where
  "ring_distance from_c to_c = from_c - to_c"

definition ring_index :: "'a ring \<Rightarrow> cursor \<Rightarrow> nat" where
  "ring_index r c = unat (c AND rg_mask r)"

text \<open>\<open>loaded\<close> is what the load of \<open>head\<close> returns, if it is made.\<close>

definition ring_refresh :: "'a ring \<Rightarrow> cursor \<Rightarrow> cursor \<Rightarrow> cursor \<Rightarrow> cursor" where
  "ring_refresh r loaded c cached_head =
     (if ring_capacity r \<le> ring_distance c cached_head then loaded else cached_head)"

definition ring_push :: "cursor \<Rightarrow> 'a \<Rightarrow> 'a ring \<Rightarrow> cursor \<Rightarrow> cursor \<Rightarrow> 'a ring \<times> cursor \<times> cursor \<times> ('a + unit)" where
  "ring_push loaded v r c cached_head =
     (let cached_head = ring_refresh r loaded c cached_head
      in if ring_capacity r \<le> ring_distance c cached_head then (r, c, cached_head, Inl v)
         else (r\<lparr>rg_buf := (rg_buf r)[ring_index r c := Some v]\<rparr>, c + 1, cached_head, Inr ()))"

datatype flush_result = Flushed cursor bool | NothingToFlush

definition ring_flush_to :: "cursor \<Rightarrow> cursor \<Rightarrow> 'a ring \<Rightarrow> cursor \<Rightarrow> 'a ring \<times> cursor \<times> flush_result" where
  "ring_flush_to loaded c r cached_head =
     (let prev_tail = rg_tail r
      in if c = prev_tail then (r, cached_head, NothingToFlush)
         else (r\<lparr>rg_tail := c\<rparr>, loaded, Flushed (ring_distance c prev_tail) (prev_tail = loaded)))"

definition ring_is_full :: "cursor \<Rightarrow> cursor \<Rightarrow> 'a ring \<Rightarrow> cursor \<Rightarrow> cursor \<times> bool" where
  "ring_is_full loaded c r cached_head =
     (if ring_capacity r \<le> ring_distance c cached_head
      then (loaded, ring_capacity r \<le> ring_distance c loaded) else (cached_head, False))"

definition ring_producer_len :: "cursor \<Rightarrow> cursor \<Rightarrow> cursor" where
  "ring_producer_len loaded c = c - loaded"

definition ring_producer_is_empty :: "cursor \<Rightarrow> cursor \<Rightarrow> bool" where
  "ring_producer_is_empty loaded c \<longleftrightarrow> c = loaded"

text \<open>Reading a slot that holds no item would be undefined behaviour; it is an error here.\<close>

definition ring_pop :: "'a ring \<Rightarrow> cursor \<Rightarrow> cursor \<Rightarrow> 'a ring \<times> cursor \<times> 'a option result" where
  "ring_pop r head cached_tail =
     (if head = cached_tail then (r, head, Ok None)
      else case rg_buf r ! ring_index r head of
             None \<Rightarrow> (r, head, Err (Panic ''read of an empty slot''))
           | Some v \<Rightarrow> (r\<lparr>rg_buf := (rg_buf r)[ring_index r head := None]\<rparr>, head + 1, Ok (Some v)))"

definition ring_release :: "cursor \<Rightarrow> 'a ring \<Rightarrow> 'a ring" where
  "ring_release head r = r\<lparr>rg_head := head\<rparr>"

definition ring_prefetch :: "cursor \<Rightarrow> cursor \<Rightarrow> cursor \<times> cursor" where
  "ring_prefetch loaded cached_tail = (loaded, loaded - cached_tail)"

definition ring_consumer_is_empty :: "cursor \<Rightarrow> cursor \<Rightarrow> cursor \<Rightarrow> bool" where
  "ring_consumer_is_empty loaded head cached_tail \<longleftrightarrow> head = cached_tail \<and> loaded = head"

definition ring_consumer_len :: "cursor \<Rightarrow> cursor \<Rightarrow> cursor" where
  "ring_consumer_len loaded head = loaded - head"

fun drop_items :: "nat \<Rightarrow> cursor \<Rightarrow> cursor \<Rightarrow> 'a ring \<Rightarrow> 'a ring \<times> 'a list result" where
  "drop_items 0 i end_c r = (r, Err (Panic ''drop loop does not stop''))"
| "drop_items (Suc fuel) i end_c r =
     (if i = end_c then (r, Ok [])
      else case rg_buf r ! ring_index r i of
             None \<Rightarrow> (r, Err (Panic ''drop of an empty slot''))
           | Some v \<Rightarrow>
               (case drop_items fuel (i + 1) end_c (r\<lparr>rg_buf := (rg_buf r)[ring_index r i := None]\<rparr>) of
                  (r, res) \<Rightarrow> (r, rbind res (\<lambda>vs. Ok (v # vs)))))"

text \<open>One round for each slot and one to stop; the result is the items dropped.\<close>

definition drop_remaining :: "'a ring \<Rightarrow> 'a ring \<times> 'a list result" where
  "drop_remaining r =
     drop_items (Suc (length (rg_buf r))) (rg_head r) (rg_tail r) (r\<lparr>rg_head := rg_tail r\<rparr>)"

section \<open>The two halves\<close>

definition spsc_new :: "nat \<Rightarrow> 'a spsc result" where
  "spsc_new capacity =
     rbind (ring_new capacity) (\<lambda>r.
       Ok \<lparr>sp_ring = r, sp_cursor = 0, sp_cached_head = 0, sp_head = 0, sp_cached_tail = 0\<rparr>)"

definition producer_push :: "cursor \<Rightarrow> 'a \<Rightarrow> 'a spsc \<Rightarrow> 'a spsc \<times> ('a + unit)" where
  "producer_push loaded v s =
     (case ring_push loaded v (sp_ring s) (sp_cursor s) (sp_cached_head s) of
        (r, c, ch, res) \<Rightarrow> (s\<lparr>sp_ring := r, sp_cursor := c, sp_cached_head := ch\<rparr>, res))"

definition producer_flush :: "'a spsc \<Rightarrow> 'a spsc" where
  "producer_flush s = s\<lparr>sp_ring := (sp_ring s)\<lparr>rg_tail := sp_cursor s\<rparr>\<rparr>"

definition producer_flush_and_check :: "cursor \<Rightarrow> 'a spsc \<Rightarrow> 'a spsc \<times> flush_result" where
  "producer_flush_and_check loaded s =
     (case ring_flush_to loaded (sp_cursor s) (sp_ring s) (sp_cached_head s) of
        (r, ch, res) \<Rightarrow> (s\<lparr>sp_ring := r, sp_cached_head := ch\<rparr>, res))"

definition producer_push_and_flush :: "cursor \<Rightarrow> 'a \<Rightarrow> 'a spsc \<Rightarrow> 'a spsc \<times> ('a + unit)" where
  "producer_push_and_flush loaded v s =
     (case producer_push loaded v s of
        (s, Inl e) \<Rightarrow> (s, Inl e)
      | (s, Inr _) \<Rightarrow> (producer_flush s, Inr ()))"

definition producer_is_full :: "cursor \<Rightarrow> 'a spsc \<Rightarrow> 'a spsc \<times> bool" where
  "producer_is_full loaded s =
     (case ring_is_full loaded (sp_cursor s) (sp_ring s) (sp_cached_head s) of
        (ch, full) \<Rightarrow> (s\<lparr>sp_cached_head := ch\<rparr>, full))"

definition producer_len :: "cursor \<Rightarrow> 'a spsc \<Rightarrow> cursor" where
  "producer_len loaded s = ring_producer_len loaded (sp_cursor s)"

definition is_consumer_dropped :: "'a spsc \<Rightarrow> bool" where
  "is_consumer_dropped s = rg_consumer_dropped (sp_ring s)"

definition producer_close :: "'a spsc \<Rightarrow> 'a spsc" where
  "producer_close s =
     (let s = producer_flush s in s\<lparr>sp_ring := (sp_ring s)\<lparr>rg_producer_dropped := True\<rparr>\<rparr>)"

definition consumer_pop :: "'a spsc \<Rightarrow> 'a spsc \<times> 'a option result" where
  "consumer_pop s =
     (case ring_pop (sp_ring s) (sp_head s) (sp_cached_tail s) of
        (r, h, res) \<Rightarrow> (s\<lparr>sp_ring := r, sp_head := h\<rparr>, res))"

definition consumer_release :: "'a spsc \<Rightarrow> 'a spsc" where
  "consumer_release s = s\<lparr>sp_ring := ring_release (sp_head s) (sp_ring s)\<rparr>"

definition consumer_prefetch :: "cursor \<Rightarrow> 'a spsc \<Rightarrow> 'a spsc \<times> cursor" where
  "consumer_prefetch loaded s =
     (case ring_prefetch loaded (sp_cached_tail s) of (ct, n) \<Rightarrow> (s\<lparr>sp_cached_tail := ct\<rparr>, n))"

definition prefetch_and_pop :: "cursor \<Rightarrow> 'a spsc \<Rightarrow> 'a spsc \<times> 'a option result" where
  "prefetch_and_pop loaded s =
     (let s = (if sp_head s = sp_cached_tail s then fst (consumer_prefetch loaded s) else s)
      in case consumer_pop s of
           (s, Inr (Some v)) \<Rightarrow> (consumer_release s, Ok (Some v))
         | (s, res) \<Rightarrow> (s, res))"

definition prefetch_and_pop_with_full :: "cursor \<Rightarrow> 'a spsc \<Rightarrow> 'a spsc \<times> ('a \<times> bool) option result" where
  "prefetch_and_pop_with_full loaded s =
     (let s = fst (consumer_prefetch loaded s);
          was_full = ring_capacity (sp_ring s) \<le> sp_cached_tail s - sp_head s
      in case consumer_pop s of
           (s, Inr (Some v)) \<Rightarrow> (consumer_release s, Ok (Some (v, was_full)))
         | (s, Inr None) \<Rightarrow> (s, Ok None)
         | (s, Inl e) \<Rightarrow> (s, Err e))"

definition consumer_is_empty :: "cursor \<Rightarrow> 'a spsc \<Rightarrow> bool" where
  "consumer_is_empty loaded s = ring_consumer_is_empty loaded (sp_head s) (sp_cached_tail s)"

definition is_disconnected :: "cursor \<Rightarrow> 'a spsc \<Rightarrow> bool" where
  "is_disconnected loaded s \<longleftrightarrow> rg_producer_dropped (sp_ring s) \<and> sp_head s = loaded"

definition consumer_len :: "cursor \<Rightarrow> 'a spsc \<Rightarrow> cursor" where
  "consumer_len loaded s = ring_consumer_len loaded (sp_head s)"

definition consumer_close :: "'a spsc \<Rightarrow> 'a spsc" where
  "consumer_close s =
     (let s = consumer_release s in s\<lparr>sp_ring := (sp_ring s)\<lparr>rg_consumer_dropped := True\<rparr>\<rparr>)"

text \<open>What a load of the other side's cursor may return.\<close>

definition fresh_head :: "'a spsc \<Rightarrow> cursor \<Rightarrow> bool" where
  "fresh_head s h \<longleftrightarrow> h - sp_cached_head s \<le> rg_head (sp_ring s) - sp_cached_head s"

definition fresh_tail :: "'a spsc \<Rightarrow> cursor \<Rightarrow> bool" where
  "fresh_tail s t \<longleftrightarrow> t - sp_cached_tail s \<le> rg_tail (sp_ring s) - sp_cached_tail s"

section \<open>Cursors as counters\<close>

text \<open>
  Behind the wrapping cursors are counters that only grow.  Differences of
  cursors are differences of counters because no two are farther apart than the
  capacity, which is at most half the cursor range.
\<close>

lemma cursor_diff:
  assumes "b \<le> a" "a - b < 2 ^ 64"
  shows "unat (of_nat a - of_nat b :: cursor) = a - b"
proof -
  have "(of_nat a - of_nat b :: cursor) = of_nat (a - b)" using assms(1) by (simp add: of_nat_diff)
  then show ?thesis using assms(2) by (simp add: unat_of_nat)
qed

lemma cursor_eq_iff:
  assumes "b \<le> a" "a - b < 2 ^ 64"
  shows "(of_nat a :: cursor) = of_nat b \<longleftrightarrow> a = b"
  using cursor_diff [OF assms] assms(1) by (metis diff_diff_cancel diff_self diff_zero unat_0)

lemma cursor_index:
  assumes "k < 64"
  shows "unat ((of_nat i :: cursor) AND of_nat (2 ^ k - 1)) = i mod 2 ^ k"
proof -
  have m: "(of_nat (2 ^ k - 1) :: cursor) = mask k" by (simp add: mask_eq_exp_minus_1 of_nat_diff)
  have "unat ((of_nat i :: cursor) AND mask k) = take_bit k (unat (of_nat i :: cursor))"
    unfolding take_bit_eq_mask [symmetric] by (rule unsigned_take_bit_eq)
  also have "\<dots> = (i mod 2 ^ 64) mod 2 ^ k" by (simp only: take_bit_eq_mod unat_of_nat) simp
  also have "\<dots> = i mod 2 ^ k" using assms by (intro mod_mod_cancel le_imp_power_dvd) simp
  finally show ?thesis unfolding m .
qed

lemma mod_window_inj:
  assumes "(i :: nat) mod c = j mod c" "i \<le> j" "j < i + c"
  shows "i = j"
proof (rule ccontr)
  assume "i \<noteq> j"
  with assms(2) have "0 < j - i" by simp
  moreover have "c dvd j - i" using assms(1,2) by (metis mod_eq_dvd_iff_nat)
  ultimately have "c \<le> j - i" by (rule dvd_imp_le [rotated])
  with assms(2,3) show False by simp
qed

text \<open>
  The invariant, over the items pushed and popped so far, the counters behind
  the two published cursors and the two cached ones.
\<close>

definition ring_inv :: "nat \<Rightarrow> 'a list \<Rightarrow> 'a list \<Rightarrow> nat \<Rightarrow> nat \<Rightarrow> nat \<Rightarrow> nat \<Rightarrow> 'a spsc \<Rightarrow> bool" where
  "ring_inv k P Q hd_n ch tl_n ct s \<longleftrightarrow>
     k < 63 \<and> length (rg_buf (sp_ring s)) = 2 ^ k \<and> rg_mask (sp_ring s) = of_nat (2 ^ k - 1)
     \<and> ch \<le> hd_n \<and> hd_n \<le> length Q \<and> length Q \<le> ct \<and> ct \<le> tl_n \<and> tl_n \<le> length P \<and> length P \<le> ch + 2 ^ k
     \<and> rg_head (sp_ring s) = of_nat hd_n \<and> rg_tail (sp_ring s) = of_nat tl_n
     \<and> sp_cursor s = of_nat (length P) \<and> sp_cached_head s = of_nat ch
     \<and> sp_head s = of_nat (length Q) \<and> sp_cached_tail s = of_nat ct
     \<and> Q = take (length Q) P
     \<and> (\<forall>i. length Q \<le> i \<and> i < length P \<longrightarrow> rg_buf (sp_ring s) ! (i mod 2 ^ k) = Some (P ! i))"

lemma ring_invD:
  assumes "ring_inv k P Q hd_n ch tl_n ct s"
  shows "k < 63" "length (rg_buf (sp_ring s)) = 2 ^ k" "rg_mask (sp_ring s) = of_nat (2 ^ k - 1)"
    "ch \<le> hd_n" "hd_n \<le> length Q" "length Q \<le> ct" "ct \<le> tl_n" "tl_n \<le> length P" "length P \<le> ch + 2 ^ k"
    "rg_head (sp_ring s) = of_nat hd_n" "rg_tail (sp_ring s) = of_nat tl_n"
    "sp_cursor s = of_nat (length P)" "sp_cached_head s = of_nat ch"
    "sp_head s = of_nat (length Q)" "sp_cached_tail s = of_nat ct" "Q = take (length Q) P"
    "length Q \<le> i \<Longrightarrow> i < length P \<Longrightarrow> rg_buf (sp_ring s) ! (i mod 2 ^ k) = Some (P ! i)"
  using assms by (simp_all add: ring_inv_def)

lemma capacity_nat:
  assumes "ring_inv k P Q hd_n ch tl_n ct s"
  shows "unat (ring_capacity (sp_ring s)) = 2 ^ k" "(2 :: nat) ^ k < 2 ^ 63"
proof -
  note d = ring_invD [OF assms]
  show lt: "(2 :: nat) ^ k < 2 ^ 63" using d(1) by (rule power_strict_increasing) simp
  have "ring_capacity (sp_ring s) = of_nat (2 ^ k)" by (simp add: ring_capacity_def d(3) of_nat_diff)
  then show "unat (ring_capacity (sp_ring s)) = 2 ^ k"
    using lt by (simp only: unat_of_nat) simp
qed

lemma index_nat:
  assumes "ring_inv k P Q hd_n ch tl_n ct s"
  shows "ring_index (sp_ring s) (of_nat i) = i mod 2 ^ k"
proof -
  have "k < 64" using ring_invD(1) [OF assms] by simp
  from cursor_index [OF this, of i] show ?thesis by (simp only: ring_index_def ring_invD(3) [OF assms])
qed

lemma distance_nat:
  assumes "ring_inv k P Q hd_n ch tl_n ct s" "ch \<le> c'" "c' \<le> length P"
  shows "ring_capacity (sp_ring s) \<le> ring_distance (sp_cursor s) (of_nat c') \<longleftrightarrow> 2 ^ k \<le> length P - c'"
proof -
  note d = ring_invD [OF assms(1)] and cap = capacity_nat [OF assms(1)]
  have "length P - c' < 2 ^ 64" using d(9) assms(2) cap(2) by simp
  then have "unat (ring_distance (sp_cursor s) (of_nat c')) = length P - c'"
    unfolding ring_distance_def d(12) by (rule cursor_diff [OF assms(3)])
  then show ?thesis by (simp add: word_le_nat_alt cap(1))
qed

lemma fresh_counter:
  assumes "(h :: cursor) - of_nat a \<le> of_nat b - of_nat a" "a \<le> b" "b - a < 2 ^ 64"
  shows "\<exists>c. h = of_nat c \<and> a \<le> c \<and> c \<le> b"
proof -
  let ?x = "unat (h - of_nat a)"
  have "?x \<le> b - a" using assms(1) cursor_diff [OF assms(2,3)] by (simp add: word_le_nat_alt)
  moreover have "h = of_nat (a + ?x)" by simp
  ultimately show ?thesis using assms(2) by (intro exI [of _ "a + ?x"]) simp
qed

lemma fresh_head_counter:
  assumes "ring_inv k P Q hd_n ch tl_n ct s" "fresh_head s h"
  shows "\<exists>c. h = of_nat c \<and> ch \<le> c \<and> c \<le> hd_n"
proof -
  note d = ring_invD [OF assms(1)] and cap = capacity_nat [OF assms(1)]
  have "hd_n - ch < 2 ^ 64" using d(4-9) cap(2) by simp
  with fresh_counter [of h ch hd_n] assms(2) d(4) show ?thesis by (simp add: fresh_head_def d(10,13))
qed

lemma fresh_tail_counter:
  assumes "ring_inv k P Q hd_n ch tl_n ct s" "fresh_tail s t"
  shows "\<exists>c. t = of_nat c \<and> ct \<le> c \<and> c \<le> tl_n"
proof -
  note d = ring_invD [OF assms(1)] and cap = capacity_nat [OF assms(1)]
  have "tl_n - ct < 2 ^ 64" using d(4-9) cap(2) by simp
  with fresh_counter [of t ct tl_n] assms(2) d(7) show ?thesis by (simp add: fresh_tail_def d(11,15))
qed

section \<open>Operations on the counters\<close>

lemma write_slot:
  assumes inv: "ring_inv k P Q hd_n ch tl_n ct s" and c: "ch \<le> c" "c \<le> hd_n" "length P < c + 2 ^ k"
  shows "ring_inv k (P @ [v]) Q hd_n c tl_n ct
    (s\<lparr>sp_ring := (sp_ring s)\<lparr>rg_buf := (rg_buf (sp_ring s))[length P mod 2 ^ k := Some v]\<rparr>,
       sp_cursor := sp_cursor s + 1, sp_cached_head := of_nat c\<rparr>)"
proof -
  note d = ring_invD [OF inv]
  have "i mod 2 ^ k \<noteq> length P mod 2 ^ k" if "length Q \<le> i" "i < length P" for i
    using mod_window_inj [of i "2 ^ k" "length P"] that c d(5) by auto
  then have "(rg_buf (sp_ring s))[length P mod 2 ^ k := Some v] ! (i mod 2 ^ k) = Some ((P @ [v]) ! i)"
    if "length Q \<le> i" "i < Suc (length P)" for i
    using that d(2,17) by (cases "i = length P") (simp_all add: nth_append nth_list_update_neq [OF not_sym])
  with d c show ?thesis by (simp add: ring_inv_def)
qed

lemma push_inv:
  assumes inv: "ring_inv k P Q hd_n ch tl_n ct s" and h: "fresh_head s h" and p: "producer_push h v s = (s', r)"
  shows "\<exists>c. ch \<le> c \<and> c \<le> hd_n \<and>
    (r = Inl v \<and> ring_inv k P Q hd_n c tl_n ct s' \<and> length P = c + 2 ^ k \<and> h = of_nat c
     \<or> r = Inr () \<and> ring_inv k (P @ [v]) Q hd_n c tl_n ct s')"
proof -
  note d = ring_invD [OF inv]
  from fresh_head_counter [OF inv h] obtain c' where c': "h = of_nat c'" "ch \<le> c'" "c' \<le> hd_n" by blast
  define c where "c = (if 2 ^ k \<le> length P - ch then c' else ch)"
  have c: "ch \<le> c" "c \<le> hd_n" "c \<le> length P" using c' d(4-8) by (auto simp: c_def)
  have ref: "ring_refresh (sp_ring s) h (sp_cursor s) (sp_cached_head s) = of_nat c"
    using distance_nat [OF inv, of ch] d(4-8) by (auto simp: ring_refresh_def d(13) c'(1) c_def)
  note full = distance_nat [OF inv c(1,3)]
  show ?thesis
  proof (cases "2 ^ k \<le> length P - c")
    case True
    then have "s' = s\<lparr>sp_cached_head := of_nat c\<rparr>" "r = Inl v"
      using p full by (simp_all add: producer_push_def ring_push_def ref)
    moreover have "length P = c + 2 ^ k" using True d(9) c(1,3) by linarith
    moreover have "ring_inv k P Q hd_n c tl_n ct (s\<lparr>sp_cached_head := of_nat c\<rparr>)"
      using inv c by (simp add: ring_inv_def)
    moreover have "h = of_nat c" using True c'(1) by (auto simp: c_def split: if_splits)
    ultimately show ?thesis using c by blast
  next
    case False
    then have "s' = s\<lparr>sp_ring := (sp_ring s)\<lparr>rg_buf := (rg_buf (sp_ring s))[length P mod 2 ^ k := Some v]\<rparr>,
        sp_cursor := sp_cursor s + 1, sp_cached_head := of_nat c\<rparr>" "r = Inr ()"
      using p full index_nat [OF inv, of "length P"]
      by (simp_all add: producer_push_def ring_push_def ref) (simp_all add: d(12))
    moreover have "length P < c + 2 ^ k" using False c(3) by simp
    ultimately show ?thesis using write_slot [OF inv c(1,2)] c by blast
  qed
qed

lemma pop_inv:
  assumes inv: "ring_inv k P Q hd_n ch tl_n ct s" and p: "consumer_pop s = (s', r)"
  shows "if length Q = ct then s' = s \<and> r = Ok None
    else r = Ok (Some (P ! length Q)) \<and> ring_inv k P (Q @ [P ! length Q]) hd_n ch tl_n ct s'"
proof -
  note d = ring_invD [OF inv] and cap = capacity_nat [OF inv]
  have "ct - length Q < 2 ^ 64" using d(4-9) cap(2) by simp
  then have eq: "sp_head s = sp_cached_tail s \<longleftrightarrow> length Q = ct"
    unfolding d(14,15) using cursor_eq_iff [OF d(6)] by metis
  show ?thesis
  proof (cases "length Q = ct")
    case True
    then show ?thesis using p eq by (simp add: consumer_pop_def ring_pop_def)
  next
    case False
    then have q: "length Q < length P" using d(6-8) by simp
    let ?s = "s\<lparr>sp_ring := (sp_ring s)\<lparr>rg_buf := (rg_buf (sp_ring s))[length Q mod 2 ^ k := None]\<rparr>, sp_head := sp_head s + 1\<rparr>"
    have res: "s' = ?s" "r = Ok (Some (P ! length Q))"
      using p eq False d(17) [of "length Q"] q index_nat [OF inv, of "length Q"]
      by (simp_all add: consumer_pop_def ring_pop_def d(14))
    have "i mod 2 ^ k \<noteq> length Q mod 2 ^ k" if "length Q < i" "i < length P" for i
      using mod_window_inj [of "length Q" "2 ^ k" i] that d(4,5,9) by auto
    then have "rg_buf (sp_ring ?s) ! (i mod 2 ^ k) = Some (P ! i)" if "Suc (length Q) \<le> i" "i < length P" for i
      using that d(17) [of i] by (simp add: nth_list_update_neq [OF not_sym])
    moreover have "Q @ [P ! length Q] = take (Suc (length Q)) P"
      using d(16) q by (metis take_Suc_conv_app_nth)
    ultimately have "ring_inv k P (Q @ [P ! length Q]) hd_n ch tl_n ct ?s"
      using d False by (simp add: ring_inv_def)
    with res False show ?thesis by simp
  qed
qed

lemma flush_inv:
  assumes "ring_inv k P Q hd_n ch tl_n ct s"
  shows "ring_inv k P Q hd_n ch (length P) ct (producer_flush s)"
  using assms by (simp add: ring_inv_def producer_flush_def)

lemma flush_and_check_inv:
  assumes inv: "ring_inv k P Q hd_n ch tl_n ct s" and h: "fresh_head s h"
    and p: "producer_flush_and_check h s = (s', r)"
  shows "\<exists>c. ring_inv k P Q hd_n c (length P) ct s'"
proof -
  note d = ring_invD [OF inv] and cap = capacity_nat [OF inv]
  have "length P - tl_n < 2 ^ 64" using d(4-9) cap(2) by simp
  then have eq: "sp_cursor s = rg_tail (sp_ring s) \<longleftrightarrow> tl_n = length P"
    unfolding d(11,12) using cursor_eq_iff [OF d(8)] by metis
  show ?thesis
  proof (cases "tl_n = length P")
    case True
    then have "s' = s" using p eq by (simp add: producer_flush_and_check_def ring_flush_to_def)
    with inv True show ?thesis by blast
  next
    case False
    from fresh_head_counter [OF inv h] obtain c where c: "h = of_nat c" "ch \<le> c" "c \<le> hd_n" by blast
    have "s' = (producer_flush s)\<lparr>sp_cached_head := of_nat c\<rparr>"
      using p eq False by (auto simp: producer_flush_and_check_def ring_flush_to_def producer_flush_def c(1) Let_def)
    with flush_inv [OF inv] c show ?thesis by (intro exI [of _ c]) (simp add: ring_inv_def)
  qed
qed

lemma is_full_inv:
  assumes inv: "ring_inv k P Q hd_n ch tl_n ct s" and h: "fresh_head s h" and p: "producer_is_full h s = (s', r)"
  shows "\<exists>c. ring_inv k P Q hd_n c tl_n ct s'"
proof -
  from fresh_head_counter [OF inv h] obtain c where c: "h = of_nat c" "ch \<le> c" "c \<le> hd_n" by blast
  have "s' = s\<lparr>sp_cached_head := of_nat c\<rparr> \<or> s' = s"
    using p by (auto simp: producer_is_full_def ring_is_full_def c(1) split: if_splits)
  moreover have "ring_inv k P Q hd_n c tl_n ct (s\<lparr>sp_cached_head := of_nat c\<rparr>)"
    using inv c by (simp add: ring_inv_def)
  ultimately show ?thesis using inv by blast
qed

lemma release_inv:
  assumes "ring_inv k P Q hd_n ch tl_n ct s"
  shows "ring_inv k P Q (length Q) ch tl_n ct (consumer_release s)"
  using assms by (simp add: ring_inv_def consumer_release_def ring_release_def)

lemma prefetch_inv:
  assumes inv: "ring_inv k P Q hd_n ch tl_n ct s" and t: "fresh_tail s t"
  shows "\<exists>c. t = of_nat c \<and> ct \<le> c \<and> c \<le> tl_n \<and> ring_inv k P Q hd_n ch tl_n c (fst (consumer_prefetch t s))"
proof -
  from fresh_tail_counter [OF inv t] obtain c where c: "t = of_nat c" "ct \<le> c" "c \<le> tl_n" by blast
  then have "ring_inv k P Q hd_n ch tl_n c (fst (consumer_prefetch t s))"
    using inv by (simp add: ring_inv_def consumer_prefetch_def ring_prefetch_def)
  with c show ?thesis by blast
qed

section \<open>Any interleaving of the two threads\<close>

datatype 'a spsc_op =
    Push cursor 'a
  | PushAndFlush cursor 'a
  | FlushOp
  | FlushAndCheck cursor
  | IsFull cursor
  | CloseProducer
  | Pop
  | Release
  | Prefetch cursor
  | PrefetchAndPop cursor
  | PrefetchAndPopWithFull cursor
  | CloseConsumer

text \<open>One call, with the items it took from its caller and the items it handed out.\<close>

fun spsc_step :: "'a spsc_op \<Rightarrow> 'a spsc \<Rightarrow> 'a spsc \<times> 'a list \<times> 'a list result" where
  "spsc_step (Push h v) s = (case producer_push h v s of (s, r) \<Rightarrow> (s, if r = Inr () then [v] else [], Ok []))"
| "spsc_step (PushAndFlush h v) s =
     (case producer_push_and_flush h v s of (s, r) \<Rightarrow> (s, if r = Inr () then [v] else [], Ok []))"
| "spsc_step FlushOp s = (producer_flush s, [], Ok [])"
| "spsc_step (FlushAndCheck h) s = (fst (producer_flush_and_check h s), [], Ok [])"
| "spsc_step (IsFull h) s = (fst (producer_is_full h s), [], Ok [])"
| "spsc_step CloseProducer s = (producer_close s, [], Ok [])"
| "spsc_step Pop s = (case consumer_pop s of (s, r) \<Rightarrow> (s, [], rbind r (\<lambda>x. Ok (case x of None \<Rightarrow> [] | Some v \<Rightarrow> [v]))))"
| "spsc_step Release s = (consumer_release s, [], Ok [])"
| "spsc_step (Prefetch t) s = (fst (consumer_prefetch t s), [], Ok [])"
| "spsc_step (PrefetchAndPop t) s =
     (case prefetch_and_pop t s of (s, r) \<Rightarrow> (s, [], rbind r (\<lambda>x. Ok (case x of None \<Rightarrow> [] | Some v \<Rightarrow> [v]))))"
| "spsc_step (PrefetchAndPopWithFull t) s =
     (case prefetch_and_pop_with_full t s of (s, r) \<Rightarrow> (s, [], rbind r (\<lambda>x. Ok (case x of None \<Rightarrow> [] | Some (v, _) \<Rightarrow> [v]))))"
| "spsc_step CloseConsumer s = (consumer_close s, [], Ok [])"

text \<open>A half calls only until it is closed, and a load returns a value the other half stored.\<close>

fun spsc_allowed :: "'a spsc_op \<Rightarrow> 'a spsc \<Rightarrow> bool" where
  "spsc_allowed (Push h v) s \<longleftrightarrow> \<not> rg_producer_dropped (sp_ring s) \<and> fresh_head s h"
| "spsc_allowed (PushAndFlush h v) s \<longleftrightarrow> \<not> rg_producer_dropped (sp_ring s) \<and> fresh_head s h"
| "spsc_allowed FlushOp s \<longleftrightarrow> \<not> rg_producer_dropped (sp_ring s)"
| "spsc_allowed (FlushAndCheck h) s \<longleftrightarrow> \<not> rg_producer_dropped (sp_ring s) \<and> fresh_head s h"
| "spsc_allowed (IsFull h) s \<longleftrightarrow> \<not> rg_producer_dropped (sp_ring s) \<and> fresh_head s h"
| "spsc_allowed CloseProducer s \<longleftrightarrow> \<not> rg_producer_dropped (sp_ring s)"
| "spsc_allowed Pop s \<longleftrightarrow> \<not> rg_consumer_dropped (sp_ring s)"
| "spsc_allowed Release s \<longleftrightarrow> \<not> rg_consumer_dropped (sp_ring s)"
| "spsc_allowed (Prefetch t) s \<longleftrightarrow> \<not> rg_consumer_dropped (sp_ring s) \<and> fresh_tail s t"
| "spsc_allowed (PrefetchAndPop t) s \<longleftrightarrow> \<not> rg_consumer_dropped (sp_ring s) \<and> fresh_tail s t"
| "spsc_allowed (PrefetchAndPopWithFull t) s \<longleftrightarrow> \<not> rg_consumer_dropped (sp_ring s) \<and> fresh_tail s t"
| "spsc_allowed CloseConsumer s \<longleftrightarrow> \<not> rg_consumer_dropped (sp_ring s)"

text \<open>All that was pushed and all that was popped on the way to a state.\<close>

inductive spsc_trace :: "nat \<Rightarrow> 'a list \<Rightarrow> 'a list \<Rightarrow> 'a spsc \<Rightarrow> bool" for cap where
  trace_new: "spsc_new cap = Ok s \<Longrightarrow> spsc_trace cap [] [] s"
| trace_step: "spsc_trace cap P Q s \<Longrightarrow> spsc_allowed op s \<Longrightarrow> spsc_step op s = (s', p, Ok q)
    \<Longrightarrow> spsc_trace cap (P @ p) (Q @ q) s'"

text \<open>The counters may be chosen, and a closed half has published all it did.\<close>

definition spsc_inv :: "nat \<Rightarrow> 'a list \<Rightarrow> 'a list \<Rightarrow> 'a spsc \<Rightarrow> bool" where
  "spsc_inv k P Q s \<longleftrightarrow>
     (\<exists>hd_n ch tl_n ct. ring_inv k P Q hd_n ch tl_n ct s
        \<and> (rg_producer_dropped (sp_ring s) \<longrightarrow> tl_n = length P)
        \<and> (rg_consumer_dropped (sp_ring s) \<longrightarrow> hd_n = length Q))"

lemma spsc_invI:
  assumes "ring_inv k P Q hd_n ch tl_n ct s"
    and "rg_producer_dropped (sp_ring s) \<longrightarrow> tl_n = length P" "rg_consumer_dropped (sp_ring s) \<longrightarrow> hd_n = length Q"
  shows "spsc_inv k P Q s"
  using assms unfolding spsc_inv_def by blast

lemma spsc_invE:
  assumes "spsc_inv k P Q s"
  obtains hd_n ch tl_n ct where "ring_inv k P Q hd_n ch tl_n ct s"
    "rg_producer_dropped (sp_ring s) \<longrightarrow> tl_n = length P" "rg_consumer_dropped (sp_ring s) \<longrightarrow> hd_n = length Q"
  using assms unfolding spsc_inv_def by blast

lemma dropped_flags:
  "rg_consumer_dropped (sp_ring (fst (producer_push h v s))) = rg_consumer_dropped (sp_ring s)"
  "rg_producer_dropped (sp_ring (fst (producer_push h v s))) = rg_producer_dropped (sp_ring s)"
  "rg_consumer_dropped (sp_ring (producer_flush s)) = rg_consumer_dropped (sp_ring s)"
  "rg_producer_dropped (sp_ring (producer_flush s)) = rg_producer_dropped (sp_ring s)"
  "rg_consumer_dropped (sp_ring (fst (producer_flush_and_check h s))) = rg_consumer_dropped (sp_ring s)"
  "rg_consumer_dropped (sp_ring (fst (producer_is_full h s))) = rg_consumer_dropped (sp_ring s)"
  "rg_producer_dropped (sp_ring (fst (producer_is_full h s))) = rg_producer_dropped (sp_ring s)"
  "rg_producer_dropped (sp_ring (fst (consumer_pop s))) = rg_producer_dropped (sp_ring s)"
  "rg_consumer_dropped (sp_ring (fst (consumer_pop s))) = rg_consumer_dropped (sp_ring s)"
  "rg_producer_dropped (sp_ring (consumer_release s)) = rg_producer_dropped (sp_ring s)"
  "rg_consumer_dropped (sp_ring (consumer_release s)) = rg_consumer_dropped (sp_ring s)"
  "rg_producer_dropped (sp_ring (fst (consumer_prefetch t s))) = rg_producer_dropped (sp_ring s)"
  "rg_consumer_dropped (sp_ring (fst (consumer_prefetch t s))) = rg_consumer_dropped (sp_ring s)"
  by (simp_all add: producer_push_def ring_push_def Let_def producer_flush_def producer_flush_and_check_def
      ring_flush_to_def producer_is_full_def ring_is_full_def consumer_pop_def ring_pop_def consumer_release_def
      ring_release_def consumer_prefetch_def ring_prefetch_def split: option.split)

lemma step_push:
  assumes inv: "spsc_inv k P Q s" and a: "spsc_allowed (Push h v) s" and p: "producer_push h v s = (s', r)"
  shows "r = Inl v \<and> spsc_inv k P Q s' \<or> r = Inr () \<and> spsc_inv k (P @ [v]) Q s'"
proof -
  obtain hd_n ch tl_n ct where i: "ring_inv k P Q hd_n ch tl_n ct s"
    and f: "rg_consumer_dropped (sp_ring s) \<longrightarrow> hd_n = length Q" using inv by (rule spsc_invE)
  have fl: "rg_consumer_dropped (sp_ring s') \<longrightarrow> hd_n = length Q" "\<not> rg_producer_dropped (sp_ring s')"
    using f a dropped_flags(1,2) [of h v s] p by simp_all
  have "fresh_head s h" using a by simp
  from push_inv [OF i this p] show ?thesis using fl by (auto intro: spsc_invI)
qed

lemma step_flush:
  assumes "spsc_inv k P Q s"
  shows "spsc_inv k P Q (producer_flush s)"
  using assms by (rule spsc_invE) (auto intro: spsc_invI flush_inv simp: dropped_flags)

lemma step_pop:
  assumes inv: "spsc_inv k P Q s" and a: "spsc_allowed Pop s" and p: "consumer_pop s = (s', r)"
  shows "r = Ok None \<and> s' = s \<or> r = Ok (Some (P ! length Q)) \<and> spsc_inv k P (Q @ [P ! length Q]) s'"
proof -
  obtain hd_n ch tl_n ct where i: "ring_inv k P Q hd_n ch tl_n ct s"
    and f: "rg_producer_dropped (sp_ring s) \<longrightarrow> tl_n = length P" using inv by (rule spsc_invE)
  have fl: "rg_producer_dropped (sp_ring s') \<longrightarrow> tl_n = length P" "\<not> rg_consumer_dropped (sp_ring s')"
    using f a dropped_flags(8,9) [of s] p by simp_all
  from pop_inv [OF i p] show ?thesis using fl by (auto intro: spsc_invI split: if_splits)
qed

lemma step_release:
  assumes "spsc_inv k P Q s"
  shows "spsc_inv k P Q (consumer_release s)"
  using assms by (rule spsc_invE) (auto intro: spsc_invI release_inv simp: dropped_flags)

lemma step_prefetch:
  assumes inv: "spsc_inv k P Q s" and t: "fresh_tail s t"
  shows "spsc_inv k P Q (fst (consumer_prefetch t s))"
proof -
  obtain hd_n ch tl_n ct where i: "ring_inv k P Q hd_n ch tl_n ct s"
    and f: "rg_producer_dropped (sp_ring s) \<longrightarrow> tl_n = length P" "rg_consumer_dropped (sp_ring s) \<longrightarrow> hd_n = length Q"
    using inv by (rule spsc_invE)
  from prefetch_inv [OF i t] f show ?thesis by (auto intro: spsc_invI simp: dropped_flags)
qed

lemma step_close:
  assumes "spsc_inv k P Q s"
  shows "spsc_inv k P Q (producer_close s)" "spsc_inv k P Q (consumer_close s)"
proof -
  obtain hd_n ch tl_n ct where i: "ring_inv k P Q hd_n ch tl_n ct s"
    and f: "rg_producer_dropped (sp_ring s) \<longrightarrow> tl_n = length P" "rg_consumer_dropped (sp_ring s) \<longrightarrow> hd_n = length Q"
    using assms by (rule spsc_invE)
  have "ring_inv k P Q hd_n ch (length P) ct (producer_close s)"
    "ring_inv k P Q (length Q) ch tl_n ct (consumer_close s)"
    using i by (simp_all add: ring_inv_def producer_close_def producer_flush_def consumer_close_def
        consumer_release_def ring_release_def)
  moreover have "rg_consumer_dropped (sp_ring (producer_close s)) = rg_consumer_dropped (sp_ring s)"
    "rg_producer_dropped (sp_ring (consumer_close s)) = rg_producer_dropped (sp_ring s)"
    by (simp_all add: producer_close_def dropped_flags consumer_close_def Let_def)
  ultimately show "spsc_inv k P Q (producer_close s)" "spsc_inv k P Q (consumer_close s)"
    using f by (auto intro: spsc_invI)
qed

lemma step_check:
  assumes inv: "spsc_inv k P Q s" and h: "fresh_head s h" and a: "\<not> rg_producer_dropped (sp_ring s)"
  shows "spsc_inv k P Q (fst (producer_flush_and_check h s))" "spsc_inv k P Q (fst (producer_is_full h s))"
proof -
  obtain hd_n ch tl_n ct where i: "ring_inv k P Q hd_n ch tl_n ct s"
    and f: "rg_consumer_dropped (sp_ring s) \<longrightarrow> hd_n = length Q" using inv by (rule spsc_invE)
  obtain c where "ring_inv k P Q hd_n c (length P) ct (fst (producer_flush_and_check h s))"
    using flush_and_check_inv [OF i h surjective_pairing] by blast
  moreover obtain c' where "ring_inv k P Q hd_n c' tl_n ct (fst (producer_is_full h s))"
    using is_full_inv [OF i h surjective_pairing] by blast
  ultimately show "spsc_inv k P Q (fst (producer_flush_and_check h s))" "spsc_inv k P Q (fst (producer_is_full h s))"
    using f a by (auto intro: spsc_invI simp: dropped_flags)
qed

lemma step_prefetch_pop:
  assumes inv: "spsc_inv k P Q s" and a: "spsc_allowed (PrefetchAndPop t) s"
  shows "\<exists>s' q. spsc_step (PrefetchAndPop t) s = (s', [], Ok q) \<and> spsc_inv k P (Q @ q) s'"
    "\<exists>s' q. spsc_step (PrefetchAndPopWithFull t) s = (s', [], Ok q) \<and> spsc_inv k P (Q @ q) s'"
proof -
  have *: "(\<exists>s'. consumer_pop u = (s', Ok None) \<and> spsc_inv k P Q s') \<or>
      (\<exists>s' v. consumer_pop u = (s', Ok (Some v)) \<and> spsc_inv k P (Q @ [v]) (consumer_release s'))"
    if "spsc_inv k P Q u" "\<not> rg_consumer_dropped (sp_ring u)" for u
  proof (cases "consumer_pop u")
    case (Pair s' r)
    from step_pop [OF that(1) _ this] that step_release [of k P _ s'] Pair show ?thesis by auto
  qed
  define u where "u = fst (consumer_prefetch t s)"
  have u: "spsc_inv k P Q u" "\<not> rg_consumer_dropped (sp_ring u)"
    using step_prefetch [OF inv, of t] a by (simp_all add: u_def dropped_flags)
  have "spsc_inv k P Q (if sp_head s = sp_cached_tail s then u else s)"
    "\<not> rg_consumer_dropped (sp_ring (if sp_head s = sp_cached_tail s then u else s))"
    using u inv a by simp_all
  from * [OF this] show "\<exists>s' q. spsc_step (PrefetchAndPop t) s = (s', [], Ok q) \<and> spsc_inv k P (Q @ q) s'"
    by (auto simp: prefetch_and_pop_def Let_def u_def [symmetric])
  from * [OF u] show "\<exists>s' q. spsc_step (PrefetchAndPopWithFull t) s = (s', [], Ok q) \<and> spsc_inv k P (Q @ q) s'"
    by (auto simp: prefetch_and_pop_with_full_def Let_def u_def [symmetric])
qed

lemma spsc_step_inv:
  assumes inv: "spsc_inv k P Q s" and a: "spsc_allowed op s"
  shows "\<exists>s' p q. spsc_step op s = (s', p, Ok q) \<and> spsc_inv k (P @ p) (Q @ q) s'"
proof (cases op)
  case (Push h v)
  then show ?thesis using step_push [OF inv, of h v] a by (cases "producer_push h v s") auto
next
  case (PushAndFlush h v)
  then show ?thesis using step_push [OF inv, of h v] a step_flush
    by (cases "producer_push h v s") (auto simp: producer_push_and_flush_def)
next
  case Pop
  then show ?thesis using step_pop [OF inv] a inv by (cases "consumer_pop s") auto
next
  case (PrefetchAndPop t)
  with step_prefetch_pop(1) [OF inv, of t] a show ?thesis by auto
next
  case (PrefetchAndPopWithFull t)
  with step_prefetch_pop(2) [OF inv, of t] a show ?thesis by auto
qed (use inv a step_flush [OF inv] step_release [OF inv] step_prefetch [OF inv] step_close [OF inv] step_check [OF inv] in auto)

lemma next_power_of_two_some:
  "next_power_of_two f (2 ^ j) n = Some p \<Longrightarrow> \<exists>k. p = 2 ^ k \<and> n \<le> p"
proof (induction f arbitrary: j)
  case (Suc f)
  then show ?case using Suc.IH [of "Suc j"] by (auto split: if_splits)
qed simp

lemma spsc_new_inv:
  assumes "spsc_new cap = Ok s"
  shows "\<exists>k. cap \<le> 2 ^ k \<and> spsc_inv k [] [] s"
proof -
  from assms obtain n where n: "checked_next_power_of_two cap = Some n" "n \<le> usize_max div 2"
    and s: "s = \<lparr>sp_ring = \<lparr>rg_buf = replicate n None, rg_mask = of_nat (n - 1), rg_head = 0, rg_tail = 0,
        rg_producer_dropped = False, rg_consumer_dropped = False\<rparr>,
      sp_cursor = 0, sp_cached_head = 0, sp_head = 0, sp_cached_tail = 0\<rparr>"
    by (auto simp: spsc_new_def ring_new_def split: if_splits option.splits)
  from next_power_of_two_some [of 64 0 cap n] n(1) obtain k where k: "n = 2 ^ k" "cap \<le> n"
    by (auto simp: checked_next_power_of_two_def)
  have "(2 :: nat) ^ k < 2 ^ 63" using n(2) by (simp add: k usize_max_def)
  then have "k < 63" by (rule power_less_imp_less_exp [rotated]) simp
  then have "ring_inv k [] [] 0 0 0 0 s" by (simp add: ring_inv_def s k)
  then have "spsc_inv k [] [] s" by (rule spsc_invI) (simp_all add: s)
  with k show ?thesis by blast
qed

lemma spsc_trace_inv:
  "spsc_trace cap P Q s \<Longrightarrow> \<exists>k. cap \<le> 2 ^ k \<and> spsc_inv k P Q s"
proof (induction rule: spsc_trace.induct)
  case (trace_step P Q s op s' p q)
  then obtain k where "cap \<le> 2 ^ k" "spsc_inv k P Q s" by blast
  with spsc_step_inv [OF this(2) trace_step.hyps(2)] trace_step.hyps(3) show ?case by auto
qed (rule spsc_new_inv)

lemma drop_items_filled:
  assumes "k < 63" "e - i < fuel" "i \<le> e" "e - i \<le> 2 ^ k"
    and "length (rg_buf r) = 2 ^ k" "rg_mask r = of_nat (2 ^ k - 1)"
    and "\<And>j. i \<le> j \<Longrightarrow> j < e \<Longrightarrow> rg_buf r ! (j mod 2 ^ k) = Some (P ! j)"
  shows "snd (drop_items fuel (of_nat i) (of_nat e) r) = Ok (map ((!) P) [i..<e])"
  using assms(2-)
proof (induction fuel arbitrary: i r)
  case (Suc fuel)
  have lt: "(2 :: nat) ^ k < 2 ^ 63" using assms(1) by (rule power_strict_increasing) simp
  then have "e - i < 2 ^ 64" using Suc.prems(3) by simp
  then have eq: "(of_nat i :: cursor) = of_nat e \<longleftrightarrow> i = e"
    using cursor_eq_iff [OF Suc.prems(2)] by metis
  show ?case
  proof (cases "i = e")
    case False
    then have ie: "i < e" using Suc.prems(2) by simp
    have idx: "ring_index r (of_nat i) = i mod 2 ^ k"
      using cursor_index [of k i] assms(1) Suc.prems(5) by (simp only: ring_index_def) 
    let ?r = "r\<lparr>rg_buf := (rg_buf r)[i mod 2 ^ k := None]\<rparr>"
    have "i mod 2 ^ k \<noteq> j mod 2 ^ k" if "Suc i \<le> j" "j < e" for j
      using mod_window_inj [of i "2 ^ k" j] that Suc.prems(2,3) by linarith
    then have "snd (drop_items fuel (of_nat (Suc i)) (of_nat e) ?r) = Ok (map ((!) P) [Suc i..<e])"
      using ie Suc.prems by (intro Suc.IH) simp_all
    moreover have "[i..<e] = i # [Suc i..<e]" using ie by (rule upt_conv_Cons)
    ultimately show ?thesis
      using eq False idx Suc.prems(6) [of i] ie by (auto simp: ac_simps split: prod.split)
  qed simp
qed simp

lemma drop_remaining_exact:
  assumes inv: "spsc_inv k P Q s" and "rg_producer_dropped (sp_ring s)" "rg_consumer_dropped (sp_ring s)"
  shows "snd (drop_remaining (sp_ring s)) = Ok (drop (length Q) P)"
proof -
  from inv assms(2,3) obtain ch ct where i: "ring_inv k P Q (length Q) ch (length P) ct s"
    by (auto simp: spsc_inv_def)
  note d = ring_invD [OF i]
  have "length Q \<le> length P" "length P - length Q \<le> 2 ^ k" using d(4-9) by simp_all
  then have "snd (drop_remaining (sp_ring s)) = Ok (map ((!) P) [length Q..<length P])"
    unfolding drop_remaining_def d(10,11) using d(1-3,17) by (intro drop_items_filled) simp_all
  moreover have "map ((!) P) [length Q..<length P] = drop (length Q) P"
    by (rule nth_equalityI) simp_all
  ultimately show ?thesis by simp
qed

lemma push_decides:
  assumes inv: "spsc_inv k P Q s" and rel: "rg_head (sp_ring s) = sp_head s"
  shows "snd (producer_push (rg_head (sp_ring s)) v s) = (if length P - length Q = 2 ^ k then Inl v else Inr ())"
proof -
  obtain hd_n ch tl_n ct where i: "ring_inv k P Q hd_n ch tl_n ct s" using inv by (rule spsc_invE)
  note d = ring_invD [OF i] and cap = capacity_nat [OF i]
  have "length Q - hd_n < 2 ^ 64" using d(4-9) cap(2) by simp
  then have hd: "hd_n = length Q"
    using rel cursor_eq_iff [OF d(5)] unfolding d(10,14) by metis
  have "fresh_head s (rg_head (sp_ring s))" by (simp add: fresh_head_def)
  from push_inv [OF i this surjective_pairing, of v] obtain c where c: "ch \<le> c" "c \<le> hd_n"
    and r: "snd (producer_push (rg_head (sp_ring s)) v s) = Inl v \<and> length P = c + 2 ^ k \<and> rg_head (sp_ring s) = of_nat c
      \<or> snd (producer_push (rg_head (sp_ring s)) v s) = Inr () \<and> length P < c + 2 ^ k"
    by (auto simp: ring_inv_def)
  have "hd_n - c < 2 ^ 64" using c d(4-9) cap(2) by simp
  then have "rg_head (sp_ring s) = of_nat c \<Longrightarrow> c = hd_n" using cursor_eq_iff [OF c(2)] unfolding d(10) by metis
  moreover have "length P - length Q \<noteq> 2 ^ k" if "length P < c + 2 ^ k"
    using that c hd zero_less_power [of "2 :: nat" k] by linarith
  ultimately show ?thesis using r hd by auto
qed

lemma pop_published:
  assumes inv: "spsc_inv k P Q s" and flushed: "rg_tail (sp_ring s) = sp_cursor s"
  shows "snd (prefetch_and_pop (rg_tail (sp_ring s)) s) = Ok (if P = Q then None else Some (P ! length Q))"
proof -
  obtain hd_n ch tl_n ct where i: "ring_inv k P Q hd_n ch tl_n ct s" using inv by (rule spsc_invE)
  note d = ring_invD [OF i] and cap = capacity_nat [OF i]
  have lt: "ct - length Q < 2 ^ 64" "length P - tl_n < 2 ^ 64" using d(4-9) cap(2) by simp_all
  have eq: "sp_head s = sp_cached_tail s \<longleftrightarrow> length Q = ct"
    unfolding d(14,15) using cursor_eq_iff [OF d(6) lt(1)] by metis
  have PQ: "P = Q \<longleftrightarrow> length Q = length P" using d(16) by (metis take_all_iff order_refl)
  define u where "u = (if sp_head s = sp_cached_tail s then fst (consumer_prefetch (rg_tail (sp_ring s)) s) else s)"
  define c where "c = (if length Q = ct then length P else ct)"
  have tl: "tl_n = length P" using flushed cursor_eq_iff [OF d(8) lt(2)] unfolding d(11,12) by metis
  have "ring_inv k P Q hd_n ch tl_n c u"
    using i eq tl d(6-8) by (simp add: u_def c_def ring_inv_def consumer_prefetch_def ring_prefetch_def)
  from pop_inv [OF this surjective_pairing]
  have "snd (consumer_pop u) = Ok (if length Q = c then None else Some (P ! length Q))" by simp
  moreover have "length Q = c \<longleftrightarrow> P = Q" using tl d(6,7) unfolding PQ by (auto simp: c_def)
  ultimately have "snd (consumer_pop u) = Ok (if P = Q then None else Some (P ! length Q))" by simp
  then show ?thesis
    unfolding prefetch_and_pop_def Let_def u_def [symmetric] by (cases "consumer_pop u") (simp split: if_splits)
qed

lemma disconnected_drained:
  assumes inv: "spsc_inv k P Q s" and dis: "is_disconnected (rg_tail (sp_ring s)) s"
  shows "P = Q"
proof -
  obtain hd_n ch tl_n ct where i: "ring_inv k P Q hd_n ch tl_n ct s"
    and "rg_producer_dropped (sp_ring s) \<longrightarrow> tl_n = length P" using inv by (rule spsc_invE)
  with dis have t: "tl_n = length P" "sp_head s = rg_tail (sp_ring s)" by (simp_all add: is_disconnected_def)
  note d = ring_invD [OF i] and cap = capacity_nat [OF i]
  have "length Q \<le> length P" "length P - length Q < 2 ^ 64" using d(4-9) cap(2) by simp_all
  then have "length Q = length P" using t cursor_eq_iff [of "length Q" "length P"] unfolding d(11,14) by metis
  then show ?thesis using d(16) by simp
qed

section \<open>The ring is a bounded queue\<close>

text \<open>
  C5.  Whatever the two threads interleave and however stale the cursors they
  load are, what the consumer has popped is a prefix of what the producer has
  pushed, and never more than the capacity, which is at least the one asked for,
  is in between.  No call ever reads a slot without an item.  When the producer
  has flushed, the consumer gets the oldest item in between, or nothing exactly
  if there is none.  When the consumer has released, a push is refused exactly at
  capacity.  A disconnected consumer has popped everything, and after both
  halves are gone every item left is dropped once, in order.
\<close>

theorem spsc_fifo:
  assumes "spsc_trace cap P Q s"
  shows "(\<exists>R. P = Q @ R \<and> length R \<le> unat (ring_capacity (sp_ring s))
      \<and> (rg_tail (sp_ring s) = sp_cursor s \<longrightarrow>
           snd (prefetch_and_pop (rg_tail (sp_ring s)) s) = Ok (case R of [] \<Rightarrow> None | x # _ \<Rightarrow> Some x))
      \<and> (rg_head (sp_ring s) = sp_head s \<longrightarrow>
           snd (producer_push (rg_head (sp_ring s)) v s)
             = (if length R = unat (ring_capacity (sp_ring s)) then Inl v else Inr ()))
      \<and> (is_disconnected (rg_tail (sp_ring s)) s \<longrightarrow> R = [])
      \<and> (rg_producer_dropped (sp_ring s) \<and> rg_consumer_dropped (sp_ring s) \<longrightarrow>
           snd (drop_remaining (sp_ring s)) = Ok R))
    \<and> cap \<le> unat (ring_capacity (sp_ring s))
    \<and> (spsc_allowed op s \<longrightarrow> (\<exists>s' p q. spsc_step op s = (s', p, Ok q)))"
proof -
  from spsc_trace_inv [OF assms] obtain k where k: "cap \<le> 2 ^ k" "spsc_inv k P Q s" by blast
  from k(2) obtain hd_n ch tl_n ct where i: "ring_inv k P Q hd_n ch tl_n ct s" by (rule spsc_invE)
  note d = ring_invD [OF i] and cap = capacity_nat(1) [OF i]
  let ?R = "drop (length Q) P"
  have P: "P = Q @ ?R" using d(16) by (metis append_take_drop_id)
  have R: "length ?R \<le> 2 ^ k" using d(4-9) by simp
  have "(if P = Q then None else Some (P ! length Q)) = (case ?R of [] \<Rightarrow> None | x # _ \<Rightarrow> Some x)"
    using P by (cases ?R) (auto simp: nth_append)
  note pop = pop_published [OF k(2), unfolded this]
  note push = push_decides [OF k(2), of v]
  have step: "spsc_allowed op s \<longrightarrow> (\<exists>s' p q. spsc_step op s = (s', p, Ok q))"
    using spsc_step_inv [OF k(2), of op] by blast
  from P R k(1) pop push disconnected_drained [OF k(2)] drop_remaining_exact [OF k(2)]
  show ?thesis unfolding cap by (intro conjI exI [of _ ?R] step) auto
qed

text \<open>A sequence of calls on a fresh ring, as a function: \<open>None\<close> if one is not allowed.\<close>

fun spsc_calls :: "'a spsc_op list \<Rightarrow> 'a spsc \<times> 'a list \<times> 'a list \<Rightarrow> ('a spsc \<times> 'a list \<times> 'a list) option" where
  "spsc_calls [] x = Some x"
| "spsc_calls (op # ops) (s, P, Q) =
     (if spsc_allowed op s
      then case spsc_step op s of (s, p, Inr q) \<Rightarrow> spsc_calls ops (s, P @ p, Q @ q) | (_, _, Inl _) \<Rightarrow> None
      else None)"

lemma spsc_calls_trace:
  assumes "spsc_trace cap P Q s" "spsc_calls ops (s, P, Q) = Some (s', P', Q')"
  shows "spsc_trace cap P' Q' s'"
  using assms
proof (induction ops arbitrary: s P Q)
  case (Cons op ops)
  then obtain t p q where "spsc_step op s = (t, p, Ok q)" "spsc_allowed op s"
    "spsc_calls ops (t, P @ p, Q @ q) = Some (s', P', Q')"
    by (auto split: if_splits prod.splits sum.splits)
  with Cons.IH [of "P @ p" "Q @ q" t] trace_step [OF Cons.prems(1)] show ?case by blast
qed simp

definition three_calls :: "nat spsc" where
  "three_calls = \<lparr>sp_ring = \<lparr>rg_buf = [Some 12, Some 11], rg_mask = 1, rg_head = 1, rg_tail = 3,
       rg_producer_dropped = False, rg_consumer_dropped = False\<rparr>,
     sp_cursor = 3, sp_cached_head = 1, sp_head = 1, sp_cached_tail = 1\<rparr>"

lemma three_calls_trace: "spsc_trace 2 [10, 11, 12 :: nat] [10] three_calls"
proof (rule spsc_calls_trace)
  let ?s = "\<lparr>sp_ring = \<lparr>rg_buf = [None, None], rg_mask = 1, rg_head = 0, rg_tail = 0,
       rg_producer_dropped = False, rg_consumer_dropped = False\<rparr>,
     sp_cursor = 0, sp_cached_head = 0, sp_head = 0, sp_cached_tail = 0\<rparr> :: nat spsc"
  show "spsc_trace 2 [] [] ?s" by (rule trace_new) code_simp
  show "spsc_calls [PushAndFlush 0 10, Push 0 11, Push 0 99, PrefetchAndPop 1, PushAndFlush 1 12] (?s, [], [])
      = Some (three_calls, [10, 11, 12], [10])"
    by code_simp
qed

lemma spsc_fifo_witness:
  "snd (prefetch_and_pop 3 three_calls) = Ok (Some 11) \<and> snd (producer_push 1 13 three_calls) = Inl 13
   \<and> (\<exists>s' p q. spsc_step Pop three_calls = (s', p, Ok q))"
proof -
  have f: "rg_tail (sp_ring three_calls) = 3" "rg_head (sp_ring three_calls) = 1" "sp_cursor three_calls = 3"
    "sp_head three_calls = 1" "unat (ring_capacity (sp_ring three_calls)) = 2" "spsc_allowed Pop three_calls"
    by (simp_all add: three_calls_def ring_capacity_def)
  from spsc_fifo [OF three_calls_trace, of 13 Pop] f show ?thesis by auto
qed

end
