(* ===== verification/Frame_Buffer.thy ===== *)
theory Frame_Buffer
  imports Ws_Codec
begin

text \<open>
  The encoded output queue \<^verbatim>\<open>omq-proto/src/frame_buffer.rs\<close> and the loop of
  \<^verbatim>\<open>omq-tokio/src/engine/driver.rs\<close> that writes it out.

  A frame buffer holds small data in an arena and large payloads as separate
  chunks; an entry is a range of the arena or such a chunk.  \<open>fb_view\<close> is the byte
  stream it stands for: its entries in order and then the arena bytes no entry
  covers yet.  Offsets into the arena are 32-bit, written out where they are
  computed.  The capacity hints that only size allocations are left out, and so
  is the second argument of the operations that ignore it.
\<close>

datatype fb_entry = Arena_Entry nat nat bool | External_Entry bytes bool

record frame_buffer =
  fb_entries :: "fb_entry list"
  fb_total :: nat
  fb_arena :: bytes
  fb_threshold :: nat
  fb_mark :: nat

definition ARENA_THRESHOLD :: nat where "ARENA_THRESHOLD = 4 * 1024"

definition with_config :: "nat \<Rightarrow> frame_buffer" where
  "with_config arena_threshold =
     \<lparr>fb_entries = [], fb_total = 0, fb_arena = [], fb_threshold = arena_threshold, fb_mark = 0\<rparr>"

definition one_shot :: frame_buffer where
  "one_shot = with_config ARENA_THRESHOLD"

fun entry_len :: "fb_entry \<Rightarrow> nat" where
  "entry_len (Arena_Entry off len prot) = len"
| "entry_len (External_Entry b prot) = length b"

fun is_protected :: "fb_entry \<Rightarrow> bool" where
  "is_protected (Arena_Entry off len prot) = prot"
| "is_protected (External_Entry b prot) = prot"

definition fb_is_empty :: "frame_buffer \<Rightarrow> bool" where
  "fb_is_empty s \<longleftrightarrow> fb_entries s = [] \<and> length (fb_arena s) = fb_mark s"

text \<open>
  The debug assertion of \<^verbatim>\<open>clear_arena\<close>, that no entry is left, is off in a release
  build: entries left are kept, while the total is reset.
\<close>

definition clear_arena :: "frame_buffer \<Rightarrow> frame_buffer" where
  "clear_arena s = s\<lparr>fb_arena := [], fb_mark := 0, fb_total := 0\<rparr>"

definition has_arena_only :: "frame_buffer \<Rightarrow> bool" where
  "has_arena_only s \<longleftrightarrow> fb_entries s = [] \<and> fb_arena s \<noteq> []"

definition advance_arena :: "nat \<Rightarrow> frame_buffer \<Rightarrow> frame_buffer" where
  "advance_arena n s =
     (if length (fb_arena s) \<le> n then clear_arena s
      else s\<lparr>fb_arena := drop n (fb_arena s), fb_total := fb_total s - n\<rparr>)"

definition uncommitted_arena :: "frame_buffer \<Rightarrow> bytes" where
  "uncommitted_arena s = drop (fb_mark s) (fb_arena s)"

definition take_arena_bytes :: "frame_buffer \<Rightarrow> frame_buffer \<times> bytes" where
  "take_arena_bytes s = (s\<lparr>fb_arena := [], fb_mark := 0, fb_total := 0\<rparr>, fb_arena s)"

text \<open>Replacing the arena by a longer one accounts for what was appended.\<close>

definition grow_arena :: "bytes \<Rightarrow> frame_buffer \<Rightarrow> frame_buffer" where
  "grow_arena a s = s\<lparr>fb_arena := a, fb_total := fb_total s + (length a - length (fb_arena s))\<rparr>"

definition push_pre_framed :: "bytes \<Rightarrow> frame_buffer \<Rightarrow> frame_buffer" where
  "push_pre_framed data s = grow_arena (fb_arena s @ data) s"

definition commit_arena_range :: "frame_buffer \<Rightarrow> frame_buffer" where
  "commit_arena_range s =
     (let e = length (fb_arena s) mod 2 ^ 32
      in if fb_mark s < e
         then s\<lparr>fb_entries := fb_entries s @ [Arena_Entry (fb_mark s) (e - fb_mark s) False], fb_mark := e\<rparr>
         else s)"

definition push_external :: "bool \<Rightarrow> bytes \<Rightarrow> frame_buffer \<Rightarrow> frame_buffer" where
  "push_external prot b s =
     s\<lparr>fb_total := fb_total s + length b, fb_entries := fb_entries s @ [External_Entry b prot]\<rparr>"

definition frame_inline :: "message \<Rightarrow> frame_buffer \<Rightarrow> frame_buffer" where
  "frame_inline msg s = grow_arena (encode_message_flat msg (fb_arena s)) s"

text \<open>One part: its header in the arena, a range for what is there, its payload apart.\<close>

definition gather_part :: "bool \<Rightarrow> payload \<Rightarrow> frame_buffer \<Rightarrow> frame_buffer" where
  "gather_part mor p s =
     (let s = commit_arena_range
                (grow_arena (write_frame_header (fb_arena s) mor (payload_len p)) s);
          b = payload_as_bytes p
      in if b = [] then s else push_external False b s)"

fun gather_parts :: "nat \<Rightarrow> nat \<Rightarrow> payload list \<Rightarrow> frame_buffer \<Rightarrow> frame_buffer" where
  "gather_parts n i [] s = s"
| "gather_parts n i (p # ps) s = gather_parts n (i + 1) ps (gather_part (i + 1 < n) p s)"

definition frame_gather :: "message \<Rightarrow> frame_buffer \<Rightarrow> frame_buffer" where
  "frame_gather msg s = (let ps = parts_payload msg in gather_parts (length ps) 0 ps s)"

definition frame_ws :: "message \<Rightarrow> bool \<Rightarrow> rng \<Rightarrow> frame_buffer \<Rightarrow> frame_buffer \<times> rng" where
  "frame_ws msg masked r s =
     (if masked
      then (case encode_message_flat_ws_masked msg r (fb_arena s) of (a, r) \<Rightarrow> (grow_arena a s, r))
      else (grow_arena (encode_message_flat_ws msg (fb_arena s)) s, r))"

definition frame_prefixed_inline :: "bytes \<Rightarrow> message \<Rightarrow> frame_buffer \<Rightarrow> frame_buffer" where
  "frame_prefixed_inline pre msg s = grow_arena (encode_message_prefixed_flat pre msg (fb_arena s)) s"

definition frame_message :: "message \<Rightarrow> frame_buffer \<Rightarrow> frame_buffer" where
  "frame_message msg s =
     (if byte_len msg < fb_threshold s then frame_inline msg s else frame_gather msg s)"

definition frame_rep :: "message \<Rightarrow> frame_buffer \<Rightarrow> frame_buffer" where
  "frame_rep msg s =
     (let s = grow_arena (write_frame_header (fb_arena s) (msg_len msg \<noteq> 0) 0) s
      in if msg_len msg = 0 then s
         else let ps = parts_payload msg in gather_parts (length ps) 0 ps s)"

definition prefixed_part :: "bytes \<Rightarrow> bool \<Rightarrow> payload \<Rightarrow> frame_buffer \<Rightarrow> frame_buffer" where
  "prefixed_part pre mor p s =
     (let s = commit_arena_range
                (grow_arena (write_frame_header (fb_arena s) mor (length pre + payload_len p)) s);
          s = push_external False pre s;
          b = payload_as_bytes p
      in if b = [] then s else push_external False b s)"

fun prefixed_gather_parts :: "bytes \<Rightarrow> nat \<Rightarrow> nat \<Rightarrow> payload list \<Rightarrow> frame_buffer \<Rightarrow> frame_buffer" where
  "prefixed_gather_parts pre n i [] s = s"
| "prefixed_gather_parts pre n i (p # ps) s =
     prefixed_gather_parts pre n (i + 1) ps (prefixed_part pre (i + 1 < n) p s)"

definition frame_prefixed_gather :: "bytes \<Rightarrow> message \<Rightarrow> frame_buffer \<Rightarrow> frame_buffer" where
  "frame_prefixed_gather pre msg s =
     (let ps = parts_payload msg in prefixed_gather_parts pre (length ps) 0 ps s)"

definition frame_prefixed :: "bytes \<Rightarrow> message \<Rightarrow> frame_buffer \<Rightarrow> frame_buffer" where
  "frame_prefixed pre msg s =
     (if byte_len msg + length pre * msg_len msg < fb_threshold s
      then frame_prefixed_inline pre msg s else frame_prefixed_gather pre msg s)"

definition push_raw_with_protection :: "bytes list \<Rightarrow> bool \<Rightarrow> frame_buffer \<Rightarrow> frame_buffer" where
  "push_raw_with_protection chunks prot s = fold (push_external prot) chunks (commit_arena_range s)"

definition push_shared_chunks :: "bytes list \<Rightarrow> frame_buffer \<Rightarrow> frame_buffer" where
  "push_shared_chunks chunks s = fold (push_external False) chunks (commit_arena_range s)"

definition clear_empty_arena :: "frame_buffer \<Rightarrow> frame_buffer" where
  "clear_empty_arena s =
     (if fb_entries s = [] \<and> length (fb_arena s) = fb_mark s then s\<lparr>fb_arena := [], fb_mark := 0\<rparr> else s)"

definition remove_entry :: "nat \<Rightarrow> frame_buffer \<Rightarrow> frame_buffer" where
  "remove_entry i s =
     clear_empty_arena (s\<lparr>fb_entries := take i (fb_entries s) @ drop (Suc i) (fb_entries s),
       fb_total := fb_total s - entry_len (fb_entries s ! i)\<rparr>)"

definition pop_front_entry :: "frame_buffer \<Rightarrow> frame_buffer \<times> bool" where
  "pop_front_entry s =
     (let s = commit_arena_range s
      in if fb_entries s = [] then (s, False) else (remove_entry 0 s, True))"

definition pop_oldest_unprotected_entry :: "frame_buffer \<Rightarrow> frame_buffer \<times> bool" where
  "pop_oldest_unprotected_entry s =
     (let s = commit_arena_range s
      in case position (\<lambda>e. \<not> is_protected e) (fb_entries s) of
           None \<Rightarrow> (s, False)
         | Some i \<Rightarrow> (remove_entry i s, True))"

text \<open>Slicing the frozen arena out of range panics.\<close>

definition resolve_entry :: "bytes option \<Rightarrow> fb_entry \<Rightarrow> bytes result" where
  "resolve_entry frozen e =
     (case e of
        External_Entry b _ \<Rightarrow> Ok b
      | Arena_Entry off len _ \<Rightarrow>
          (case frozen of
             None \<Rightarrow> Err (Panic ''arena entry without arena data'')
           | Some a \<Rightarrow>
               if off + len \<le> length a then Ok (take len (drop off a))
               else Err (Panic ''range end out of bounds'')))"

fun drain_entries :: "bytes option \<Rightarrow> fb_entry list \<Rightarrow> bytes list result" where
  "drain_entries frozen [] = Ok []"
| "drain_entries frozen (e # es) =
     rbind (resolve_entry frozen e) (\<lambda>b. rbind (drain_entries frozen es) (\<lambda>bs. Ok (b # bs)))"

fun resolve_rest :: "bytes \<Rightarrow> fb_entry list \<Rightarrow> fb_entry list result" where
  "resolve_rest a [] = Ok []"
| "resolve_rest a (e # es) =
     rbind (resolve_entry (Some a) e) (\<lambda>b.
       rbind (resolve_rest a es) (\<lambda>es'. Ok (External_Entry b (is_protected e) # es')))"

definition freeze :: "bytes \<Rightarrow> bytes option" where
  "freeze a = (if a = [] then None else Some a)"

definition resolve_frozen :: "bytes option \<Rightarrow> fb_entry list \<Rightarrow> fb_entry list result" where
  "resolve_frozen frozen es = (case frozen of None \<Rightarrow> Ok es | Some a \<Rightarrow> resolve_rest a es)"

definition fb_drain :: "nat \<Rightarrow> frame_buffer \<Rightarrow> (frame_buffer \<times> bytes list \<times> nat) result" where
  "fb_drain max_chunks s =
     (let s = commit_arena_range s
      in if fb_entries s = [] then Ok (s, [], 0)
         else let frozen = freeze (fb_arena s);
                  k = min max_chunks (length (fb_entries s));
                  out = take k (fb_entries s); rest = drop k (fb_entries s)
           in rbind (drain_entries frozen out) (\<lambda>bs.
              rbind (resolve_frozen frozen rest) (\<lambda>rest.
              Ok (s\<lparr>fb_entries := rest, fb_arena := [], fb_mark := 0,
                     fb_total := fold (\<lambda>b t. t - length b) bs (fb_total s)\<rparr>,
                  bs, length (filter is_protected out)))))"

fun unwritten :: "nat \<Rightarrow> nat \<Rightarrow> bytes list \<Rightarrow> bytes list" where
  "unwritten consumed written [] = []"
| "unwritten consumed written (c # cs) =
     (if written \<le> consumed then c # unwritten consumed written cs
      else if consumed + length c \<le> written then unwritten (consumed + length c) written cs
      else drop (written - consumed) c # unwritten written written cs)"

definition put_back_unwritten :: "bytes list \<Rightarrow> nat \<Rightarrow> frame_buffer \<Rightarrow> frame_buffer" where
  "put_back_unwritten returned written s =
     (let restore = unwritten 0 written returned
      in s\<lparr>fb_total := fb_total s + length (concat restore),
           fb_entries := map (\<lambda>c. External_Entry c False) restore @ fb_entries s\<rparr>)"

section \<open>Flushing to a writer\<close>

text \<open>
  \<^verbatim>\<open>flush_frame_buffer\<close> of \<^verbatim>\<open>omq-tokio/src/engine/driver.rs\<close> writes until the buffer is
  empty.  \<open>ns\<close> is what the writer answers to the successive calls; when they are
  used up the call is pending, with the chunks drained and not yet written.
\<close>

datatype flush_status = Flushed_All | Flush_Pending "bytes list" | Write_Zero

fun flush_arena :: "nat list \<Rightarrow> bytes \<Rightarrow> frame_buffer \<Rightarrow> frame_buffer \<times> bytes \<times> flush_status" where
  "flush_arena ns out s =
     (if fb_arena s = [] then (s, out, Flushed_All)
      else case ns of
             [] \<Rightarrow> (s, out, Flush_Pending [])
           | n # ns \<Rightarrow>
               if n = 0 then (s, out, Write_Zero)
               else flush_arena ns (out @ take n (fb_arena s)) (advance_arena n s))"

declare flush_arena.simps [simp del]

fun flush_chunks :: "nat list \<Rightarrow> bytes \<Rightarrow> frame_buffer \<Rightarrow> (frame_buffer \<times> bytes \<times> flush_status) result" where
  "flush_chunks ns out s =
     rbind (fb_drain 1024 s) (\<lambda>(s, bs, _).
       if bs = [] then Ok (s, out, Flushed_All)
       else case ns of
              [] \<Rightarrow> Ok (s, out, Flush_Pending bs)
            | n # ns \<Rightarrow>
                if n = 0 then Ok (s, out, Write_Zero)
                else flush_chunks ns (out @ take n (concat bs))
                       (if n < length (concat bs) then put_back_unwritten bs n s else s))"

declare flush_chunks.simps [simp del]

definition flush_frame_buffer :: "nat list \<Rightarrow> frame_buffer \<Rightarrow> (frame_buffer \<times> bytes \<times> flush_status) result" where
  "flush_frame_buffer ns s =
     (if has_arena_only s then Ok (flush_arena ns [] s) else flush_chunks ns [] s)"

section \<open>The byte stream a buffer stands for\<close>

fun entry_view :: "bytes \<Rightarrow> fb_entry \<Rightarrow> bytes" where
  "entry_view a (Arena_Entry off len _) = take len (drop off a)"
| "entry_view a (External_Entry b _) = b"

definition fb_view :: "frame_buffer \<Rightarrow> bytes" where
  "fb_view s = concat (map (entry_view (fb_arena s)) (fb_entries s)) @ drop (fb_mark s) (fb_arena s)"

fun entry_ok :: "nat \<Rightarrow> fb_entry \<Rightarrow> bool" where
  "entry_ok m (Arena_Entry off len _) \<longleftrightarrow> 0 < len \<and> off + len \<le> m"
| "entry_ok m (External_Entry b _) \<longleftrightarrow> True"

definition fb_inv :: "frame_buffer \<Rightarrow> bool" where
  "fb_inv s \<longleftrightarrow> fb_mark s \<le> length (fb_arena s) \<and> list_all (entry_ok (fb_mark s)) (fb_entries s)
     \<and> (fb_entries s = [] \<longrightarrow> fb_mark s = 0) \<and> fb_total s = length (fb_view s)"

lemma entry_ok_mono: "entry_ok m e \<Longrightarrow> m \<le> m' \<Longrightarrow> entry_ok m' e"
  by (cases e) simp_all

lemma entry_view_append: "entry_ok m e \<Longrightarrow> m \<le> length a \<Longrightarrow> entry_view (a @ x) e = entry_view a e"
  by (cases e) simp_all

lemma entry_len_view: "entry_ok m e \<Longrightarrow> m \<le> length a \<Longrightarrow> entry_len e = length (entry_view a e)"
  by (cases e) auto

lemma entries_view_append:
  "list_all (entry_ok m) es \<Longrightarrow> m \<le> length a \<Longrightarrow> map (entry_view (a @ x)) es = map (entry_view a) es"
  by (auto simp: list_all_iff intro: entry_view_append)

lemma fb_inv_new: "fb_inv (with_config n)" "fb_view (with_config n) = []"
  by (simp_all add: fb_inv_def fb_view_def with_config_def)

lemma grow_arena_inv:
  assumes "fb_inv s" "a = fb_arena s @ x"
  shows "fb_inv (grow_arena a s)" "fb_view (grow_arena a s) = fb_view s @ x"
    "fb_threshold (grow_arena a s) = fb_threshold s"
proof -
  show v: "fb_view (grow_arena a s) = fb_view s @ x"
    using assms by (simp add: fb_inv_def fb_view_def grow_arena_def entries_view_append [of "fb_mark s"])
  show "fb_inv (grow_arena a s)" using assms v by (simp add: fb_inv_def) (simp add: grow_arena_def)
qed (simp add: grow_arena_def)

lemma commit_inv:
  assumes "fb_inv s" "length (fb_arena s) < 2 ^ 32"
  shows "fb_inv (commit_arena_range s)" "fb_view (commit_arena_range s) = fb_view s"
    "fb_mark (commit_arena_range s) = length (fb_arena s)" "fb_arena (commit_arena_range s) = fb_arena s"
    "fb_threshold (commit_arena_range s) = fb_threshold s" "fb_total (commit_arena_range s) = fb_total s"
proof -
  have e: "length (fb_arena s) mod 2 ^ 32 = length (fb_arena s)" using assms(2) by simp
  show a: "fb_mark (commit_arena_range s) = length (fb_arena s)" "fb_arena (commit_arena_range s) = fb_arena s"
    "fb_threshold (commit_arena_range s) = fb_threshold s" "fb_total (commit_arena_range s) = fb_total s"
    using assms(1) e by (auto simp: commit_arena_range_def fb_inv_def Let_def)
  show v: "fb_view (commit_arena_range s) = fb_view s"
    using assms(1) e by (auto simp: fb_view_def commit_arena_range_def fb_inv_def Let_def)
  have "list_all (entry_ok (length (fb_arena s))) (fb_entries (commit_arena_range s))"
    using assms(1) e by (auto simp: commit_arena_range_def fb_inv_def Let_def list_all_iff intro: entry_ok_mono)
  moreover have "fb_entries (commit_arena_range s) = [] \<longrightarrow> length (fb_arena s) = 0"
    using assms(1) e by (auto simp: commit_arena_range_def fb_inv_def Let_def)
  ultimately show "fb_inv (commit_arena_range s)"
    using assms(1) a v by (simp add: fb_inv_def)
qed

lemma push_external_inv:
  assumes "fb_inv s" "fb_mark s = length (fb_arena s)"
  shows "fb_inv (push_external p b s)" "fb_view (push_external p b s) = fb_view s @ b"
    "fb_mark (push_external p b s) = length (fb_arena (push_external p b s))"
    "fb_arena (push_external p b s) = fb_arena s" "fb_threshold (push_external p b s) = fb_threshold s"
proof -
  show v: "fb_view (push_external p b s) = fb_view s @ b"
    using assms by (simp add: fb_view_def push_external_def)
  show "fb_inv (push_external p b s)"
    using assms v by (simp add: fb_inv_def) (simp add: push_external_def)
qed (simp_all add: push_external_def assms)

lemma fold_push_external_inv:
  assumes "fb_inv s" "fb_mark s = length (fb_arena s)"
  shows "fb_inv (fold (push_external p) bs s) \<and> fb_view (fold (push_external p) bs s) = fb_view s @ concat bs
    \<and> fb_arena (fold (push_external p) bs s) = fb_arena s
    \<and> fb_threshold (fold (push_external p) bs s) = fb_threshold s"
  using assms
proof (induction bs arbitrary: s)
  case (Cons b bs)
  show ?case using Cons.IH [OF push_external_inv(1,3) [OF Cons.prems, of p b]] push_external_inv [OF Cons.prems]
    by simp
qed simp

text \<open>Each way to append extends the stream by the bytes of its message.\<close>

definition fb_appends :: "frame_buffer \<Rightarrow> bytes \<Rightarrow> frame_buffer \<Rightarrow> bool" where
  "fb_appends s x s' \<longleftrightarrow> fb_inv s' \<and> fb_view s' = fb_view s @ x \<and> fb_threshold s' = fb_threshold s
     \<and> length (fb_arena s') \<le> length (fb_arena s) + length x"

definition wire :: "bytes list \<Rightarrow> bytes" where
  "wire ps = concat (map frame_enc (data_frames ps))"

lemma fb_appends_trans:
  "fb_appends s x t \<Longrightarrow> fb_appends t y u \<Longrightarrow> fb_appends s (x @ y) u"
  by (simp add: fb_appends_def)

lemma grow_appends: "fb_inv s \<Longrightarrow> fb_appends s x (grow_arena (fb_arena s @ x) s)"
  by (simp add: fb_appends_def grow_arena_inv) (simp add: grow_arena_def)

lemma commit_appends:
  "fb_inv s \<Longrightarrow> length (fb_arena s) < 2 ^ 32 \<Longrightarrow> fb_appends s [] (commit_arena_range s)"
  by (simp add: fb_appends_def commit_inv)

lemma external_appends:
  "fb_inv s \<Longrightarrow> fb_mark s = length (fb_arena s) \<Longrightarrow> fb_appends s b (push_external p b s)"
  by (simp add: fb_appends_def push_external_inv)

lemma header_committed:
  assumes "fb_inv s" "length (fb_arena s) + length (frame_header \<lparr>ff_more = mor, ff_command = False\<rparr> n) < 2 ^ 32"
  shows "fb_appends s (frame_header \<lparr>ff_more = mor, ff_command = False\<rparr> n)
      (commit_arena_range (grow_arena (write_frame_header (fb_arena s) mor n) s))"
    "fb_mark (commit_arena_range (grow_arena (write_frame_header (fb_arena s) mor n) s))
      = length (fb_arena (commit_arena_range (grow_arena (write_frame_header (fb_arena s) mor n) s)))"
proof -
  let ?h = "frame_header \<lparr>ff_more = mor, ff_command = False\<rparr> n"
  let ?g = "grow_arena (write_frame_header (fb_arena s) mor n) s"
  have g: "fb_appends s ?h ?g" "fb_arena ?g = fb_arena s @ ?h"
    using grow_appends [OF assms(1), of ?h] by (simp_all add: write_frame_header_eq grow_arena_def)
  have l: "length (fb_arena ?g) < 2 ^ 32" using g(2) assms(2) by simp
  have i: "fb_inv ?g" using g(1) by (simp add: fb_appends_def)
  from fb_appends_trans [OF g(1) commit_appends [OF i l]]
  show "fb_appends s ?h (commit_arena_range ?g)" by simp
  show "fb_mark (commit_arena_range ?g) = length (fb_arena (commit_arena_range ?g))"
    using commit_inv(3,4) [OF i l] by simp
qed

lemma frame_enc_data:
  "frame_enc (mk_data mor b) = frame_header \<lparr>ff_more = mor, ff_command = False\<rparr> (length b) @ b"
  by (simp add: frame_enc_def mk_data_def)

lemma gather_part_appends:
  assumes "fb_inv s" "payload_wf p" "length (fb_arena s) + length (frame_enc (mk_data mor (payload_as_slice p))) < 2 ^ 32"
  shows "fb_appends s (frame_enc (mk_data mor (payload_as_slice p))) (gather_part mor p s)"
proof -
  let ?t = "commit_arena_range (grow_arena (write_frame_header (fb_arena s) mor (payload_len p)) s)"
  note n = payload_len_slice [OF assms(2)]
  have "length (fb_arena s) + length (frame_header \<lparr>ff_more = mor, ff_command = False\<rparr> (payload_len p)) < 2 ^ 32"
    using assms(3) n by (simp add: frame_enc_data)
  note h = header_committed [OF assms(1) this]
  have "fb_inv ?t" using h(1) by (simp add: fb_appends_def)
  from fb_appends_trans [OF h(1) external_appends [OF this h(2)], of "payload_as_slice p" False] h(1)
  show ?thesis by (auto simp: gather_part_def Let_def payload_as_bytes_slice frame_enc_data n)
qed

lemma gather_parts_appends:
  assumes "fb_inv s" "list_all payload_wf ps" "n = i + length ps"
    and "length (fb_arena s) + length (wire (map payload_as_slice ps)) < 2 ^ 32"
  shows "fb_appends s (wire (map payload_as_slice ps)) (gather_parts n i ps s)"
  using assms
proof (induction ps arbitrary: i s)
  case Nil
  then show ?case by (simp add: wire_def fb_appends_def)
next
  case (Cons p ps)
  let ?x = "frame_enc (mk_data (ps \<noteq> []) (payload_as_slice p))"
  have w: "wire (map payload_as_slice (p # ps)) = ?x @ wire (map payload_as_slice ps)"
    by (simp add: wire_def)
  have m: "(i + 1 < n) = (ps \<noteq> [])" using Cons.prems(3) by auto
  have a: "fb_appends s ?x (gather_part (i + 1 < n) p s)"
    using gather_part_appends [OF Cons.prems(1), of p "ps \<noteq> []"] Cons.prems(2,4) w m by simp
  have "fb_appends (gather_part (i + 1 < n) p s) (wire (map payload_as_slice ps))
      (gather_parts n (i + 1) ps (gather_part (i + 1 < n) p s))"
    using a Cons.prems(2-4) w by (intro Cons.IH) (simp_all add: fb_appends_def)
  from fb_appends_trans [OF a this] w show ?case by simp
qed

lemma prefixed_part_appends:
  assumes "fb_inv s" "payload_wf p"
    and "length (fb_arena s) + length (frame_enc (mk_data mor (pre @ payload_as_slice p))) < 2 ^ 32"
  shows "fb_appends s (frame_enc (mk_data mor (pre @ payload_as_slice p))) (prefixed_part pre mor p s)"
proof -
  let ?n = "length pre + payload_len p"
  let ?t = "commit_arena_range (grow_arena (write_frame_header (fb_arena s) mor ?n) s)"
  note n = payload_len_slice [OF assms(2)]
  have "length (fb_arena s) + length (frame_header \<lparr>ff_more = mor, ff_command = False\<rparr> ?n) < 2 ^ 32"
    using assms(3) n by (simp add: frame_enc_data)
  note h = header_committed [OF assms(1) this]
  have t: "fb_inv ?t" using h(1) by (simp add: fb_appends_def)
  note e = push_external_inv(1,3) [OF t h(2), of False pre]
  note p = fb_appends_trans [OF h(1) external_appends [OF t h(2)], of pre False]
  from fb_appends_trans [OF p external_appends [OF e], of "payload_as_slice p" False] p
  show ?thesis by (auto simp: prefixed_part_def Let_def payload_as_bytes_slice frame_enc_data n)
qed

lemma prefixed_gather_parts_appends:
  assumes "fb_inv s" "list_all payload_wf ps" "n = i + length ps"
    and "length (fb_arena s) + length (wire (map (\<lambda>p. pre @ payload_as_slice p) ps)) < 2 ^ 32"
  shows "fb_appends s (wire (map (\<lambda>p. pre @ payload_as_slice p) ps)) (prefixed_gather_parts pre n i ps s)"
  using assms
proof (induction ps arbitrary: i s)
  case Nil
  then show ?case by (simp add: wire_def fb_appends_def)
next
  case (Cons p ps)
  let ?x = "frame_enc (mk_data (ps \<noteq> []) (pre @ payload_as_slice p))"
  let ?w = "\<lambda>ps. wire (map (\<lambda>p. pre @ payload_as_slice p) ps)"
  have w: "?w (p # ps) = ?x @ ?w ps" by (simp add: wire_def)
  have m: "(i + 1 < n) = (ps \<noteq> [])" using Cons.prems(3) by auto
  have a: "fb_appends s ?x (prefixed_part pre (i + 1 < n) p s)"
    using prefixed_part_appends [OF Cons.prems(1), of p "ps \<noteq> []" pre] Cons.prems(2,4) w m by simp
  have "fb_appends (prefixed_part pre (i + 1 < n) p s) (?w ps)
      (prefixed_gather_parts pre n (i + 1) ps (prefixed_part pre (i + 1 < n) p s))"
    using a Cons.prems(2-4) w by (intro Cons.IH) (simp_all add: fb_appends_def)
  from fb_appends_trans [OF a this] w show ?case by simp
qed

lemma frame_gather_appends:
  assumes "fb_inv s" "message_wf m" "length (fb_arena s) + length (wire (parts m)) < 2 ^ 32"
  shows "fb_appends s (wire (parts m)) (frame_gather m s)"
  using gather_parts_appends [OF assms(1) parts_payload_wf [OF assms(2)] refl, of 0] assms(3)
  by (simp add: frame_gather_def Let_def parts_payload_view)

lemma frame_inline_appends:
  "fb_inv s \<Longrightarrow> message_wf m \<Longrightarrow> fb_appends s (wire (parts m)) (frame_inline m s)"
  by (simp add: frame_inline_def encode_message_flat_eq wire_def grow_appends)

lemma frame_message_appends:
  assumes "fb_inv s" "message_wf m" "length (fb_arena s) + length (wire (parts m)) < 2 ^ 32"
  shows "fb_appends s (wire (parts m)) (frame_message m s)"
  using frame_gather_appends [OF assms] frame_inline_appends [OF assms(1,2)] by (simp add: frame_message_def)

lemma frame_prefixed_appends:
  assumes "fb_inv s" "message_wf m" "length (fb_arena s) + length (wire (map ((@) pre) (parts m))) < 2 ^ 32"
  shows "fb_appends s (wire (map ((@) pre) (parts m))) (frame_prefixed pre m s)"
proof -
  have v: "map (\<lambda>p. pre @ payload_as_slice p) (parts_payload m) = map ((@) pre) (parts m)"
    by (simp flip: parts_payload_view)
  have "fb_appends s (wire (map ((@) pre) (parts m))) (frame_prefixed_inline pre m s)"
    using assms(1,2)
    by (simp add: frame_prefixed_inline_def encode_message_prefixed_flat_eq wire_def grow_appends)
  moreover have "fb_appends s (wire (map ((@) pre) (parts m))) (frame_prefixed_gather pre m s)"
    using prefixed_gather_parts_appends [OF assms(1) parts_payload_wf [OF assms(2)], of _ 0 pre] assms(3) v
    by (simp add: frame_prefixed_gather_def Let_def)
  ultimately show ?thesis by (simp add: frame_prefixed_def)
qed

lemma frame_rep_appends:
  assumes "fb_inv s" "message_wf m" "length (fb_arena s) + length (wire ([] # parts m)) < 2 ^ 32"
  shows "fb_appends s (wire ([] # parts m)) (frame_rep m s)"
proof -
  let ?h = "frame_enc (mk_data (parts m \<noteq> []) [])"
  let ?g = "grow_arena (write_frame_header (fb_arena s) (msg_len m \<noteq> 0) 0) s"
  have n: "msg_len m = length (parts m)" by (rule msg_len_parts)
  have w: "wire ([] # parts m) = ?h @ wire (parts m)" by (simp add: wire_def)
  have g: "fb_appends s ?h ?g"
    using grow_appends [OF assms(1), of ?h] by (simp add: write_frame_header_eq frame_enc_data n)
  have "fb_appends ?g (wire (parts m)) (frame_gather m ?g)"
    using g assms(2,3) w by (intro frame_gather_appends) (simp_all add: fb_appends_def)
  from fb_appends_trans [OF g this] g w n show ?thesis
    by (auto simp: frame_rep_def frame_gather_def Let_def wire_def)
qed

lemma flat_ws_append: "flat_ws_parts n i ss buf = buf @ flat_ws_parts n i ss []"
  by (induction ss arbitrary: i buf) (simp, metis append_assoc append_Nil flat_ws_parts.simps(2))

lemma flat_ws_masked_append:
  "flat_ws_parts_masked n i ss r buf
     = (buf @ fst (flat_ws_parts_masked n i ss r []), snd (flat_ws_parts_masked n i ss r []))"
proof (induction ss arbitrary: i r buf)
  case (Cons s ss)
  obtain k r' where k: "generate_mask_key r = (k, r')" by fastforce
  let ?x = "[0x82] @ ws_len_bytes 0x80 (1 + length s) @ k
           @ [(if i + 1 < n then ZWS_FLAG_MORE else ZWS_FLAG_FINAL) XOR k ! 0] @ apply_mask_offset s k 1"
  show ?case using Cons.IH [of "i + 1" r' "buf @ ?x"] Cons.IH [of "i + 1" r' ?x] k by simp
qed simp

definition wire_ws :: "message \<Rightarrow> bool \<Rightarrow> rng \<Rightarrow> bytes" where
  "wire_ws m masked r =
     (if masked then fst (encode_message_flat_ws_masked m r []) else encode_message_flat_ws m [])"

lemma frame_ws_appends: "fb_inv s \<Longrightarrow> fb_appends s (wire_ws m masked r) (fst (frame_ws m masked r s))"
  using flat_ws_append [of "msg_len m" 0 "iter_slices m" "fb_arena s"]
    flat_ws_masked_append [of "msg_len m" 0 "iter_slices m" r "fb_arena s"]
  by (simp add: frame_ws_def wire_ws_def encode_message_flat_ws_def encode_message_flat_ws_masked_def grow_appends)

lemma push_raw_appends:
  assumes "fb_inv s" "length (fb_arena s) < 2 ^ 32"
  shows "fb_appends s (concat bs) (push_raw_with_protection bs p s)"
proof -
  note c = commit_inv [OF assms]
  have "fb_mark (commit_arena_range s) = length (fb_arena (commit_arena_range s))" using c by simp
  from fold_push_external_inv [OF c(1) this, of p bs] c
  show ?thesis by (simp add: fb_appends_def push_raw_with_protection_def)
qed

lemma push_shared_raw: "push_shared_chunks bs s = push_raw_with_protection bs False s"
  by (simp add: push_shared_chunks_def push_raw_with_protection_def)

section \<open>Taking bytes out\<close>

lemma resolve_entry_ok:
  assumes "entry_ok m e" "m \<le> length a"
  shows "resolve_entry (freeze a) e = Ok (entry_view a e)" "resolve_entry (Some a) e = Ok (entry_view a e)"
proof -
  show "resolve_entry (Some a) e = Ok (entry_view a e)"
    using assms by (cases e) (simp_all add: resolve_entry_def)
  then show "resolve_entry (freeze a) e = Ok (entry_view a e)"
    using assms by (cases e) (auto simp: resolve_entry_def freeze_def)
qed

lemma drain_entries_ok:
  assumes "list_all (entry_ok m) es" "m \<le> length a"
  shows "drain_entries (freeze a) es = Ok (map (entry_view a) es)"
  using assms(1) by (induction es) (auto simp: resolve_entry_ok(1) [OF _ assms(2)])

lemma resolve_rest_ok:
  assumes "list_all (entry_ok m) es" "m \<le> length a"
  shows "resolve_rest a es = Ok (map (\<lambda>e. External_Entry (entry_view a e) (is_protected e)) es)"
  using assms(1) by (induction es) (auto simp: resolve_entry_ok(2) [OF _ assms(2)])

lemma entry_view_nil: "entry_ok 0 e \<Longrightarrow> External_Entry (entry_view [] e) (is_protected e) = e"
  by (cases e) simp_all

lemma resolve_rest_frozen:
  assumes "list_all (entry_ok (length a)) es"
  shows "resolve_frozen (freeze a) es
    = Ok (map (\<lambda>e. External_Entry (entry_view a e) (is_protected e)) es)"
proof (cases "a = []")
  case True
  then have "map (\<lambda>e. External_Entry (entry_view a e) (is_protected e)) es = es"
    using assms by (intro map_idI) (auto simp: list_all_iff entry_view_nil)
  with True show ?thesis by (simp add: freeze_def resolve_frozen_def)
next
  case False
  then show ?thesis using resolve_rest_ok [OF assms] by (simp add: freeze_def resolve_frozen_def)
qed

lemma concat_map_take_drop: "concat (map f es) = concat (map f (take k es)) @ concat (map f (drop k es))"
  by (simp flip: concat_append map_append)

lemma fold_minus: "fold (\<lambda>b t. t - length b) bs n = n - length (concat bs)"
  by (induction bs arbitrary: n) simp_all

text \<open>A drain takes the first entries and leaves the rest as chunks of their own.\<close>

definition drained :: "nat \<Rightarrow> frame_buffer \<Rightarrow> frame_buffer \<times> bytes list \<times> nat" where
  "drained k s =
     (let es = fb_entries (commit_arena_range s); a = fb_arena s
      in (s\<lparr>fb_entries := map (\<lambda>e. External_Entry (entry_view a e) (is_protected e)) (drop k es),
            fb_arena := [], fb_mark := 0, fb_total := length (concat (map (entry_view a) (drop k es)))\<rparr>,
          map (entry_view a) (take k es), length (filter is_protected (take k es))))"

lemma fb_drain_exact:
  assumes inv: "fb_inv s" and l: "length (fb_arena s) < 2 ^ 32"
  shows "fb_drain k s = Ok (drained k s)"
proof -
  let ?c = "commit_arena_range s"
  let ?es = "fb_entries ?c" and ?a = "fb_arena s"
  note c = commit_inv [OF inv l]
  have ok: "list_all (entry_ok (length ?a)) ?es" using c by (simp add: fb_inv_def)
  have ks: "list_all (entry_ok (length ?a)) (take k ?es)" "list_all (entry_ok (length ?a)) (drop k ?es)"
    using ok by (auto simp: list_all_iff dest: in_set_takeD in_set_dropD)
  have tot: "fb_total s = length (concat (map (entry_view ?a) (take k ?es))) + length (concat (map (entry_view ?a) (drop k ?es)))"
  proof -
    have "fb_total s = length (fb_view ?c)" using inv c(2) by (simp add: fb_inv_def)
    also have "fb_view ?c = concat (map (entry_view ?a) ?es)" by (simp add: fb_view_def c(3,4))
    finally show ?thesis by (simp add: concat_map_take_drop [of _ ?es k])
  qed
  show ?thesis
  proof (cases "?es = []")
    case True
    then have "?c = s" "fb_mark s = 0" "?a = []" "fb_total s = 0"
      using inv c(3) tot by (auto simp: commit_arena_range_def Let_def fb_inv_def split: if_splits)
    with True show ?thesis by (simp add: fb_drain_def drained_def)
  next
    case False
    have "?c\<lparr>fb_entries := X, fb_arena := [], fb_mark := 0, fb_total := n\<rparr>
        = s\<lparr>fb_entries := X, fb_arena := [], fb_mark := 0, fb_total := n\<rparr>" for X n
      by (simp add: commit_arena_range_def Let_def)
    moreover have "take (min k (length ?es)) ?es = take k ?es" "drop (min k (length ?es)) ?es = drop k ?es"
      by (simp_all add: min_def)
    ultimately show ?thesis
      using False tot drain_entries_ok [OF ks(1) order_refl] resolve_rest_frozen [OF ks(2)]
      by (simp add: fb_drain_def drained_def c(4,6) fold_minus Let_def)
  qed
qed

lemma drained_inv:
  assumes "fb_inv s" "length (fb_arena s) < 2 ^ 32" "drained k s = (s', bs, n)"
  shows "fb_inv s'" "fb_view s = concat bs @ fb_view s'" "fb_arena s' = []" "fb_threshold s' = fb_threshold s"
    "length bs = min k (length (fb_entries (commit_arena_range s)))" "fb_mark s' = 0"
    "0 < k \<Longrightarrow> bs = [] \<Longrightarrow> fb_view s = []"
proof -
  note c = commit_inv [OF assms(1,2)]
  let ?es = "fb_entries (commit_arena_range s)"
  have e: "fb_entries s' = map (\<lambda>e. External_Entry (entry_view (fb_arena s) e) (is_protected e)) (drop k ?es)"
    "bs = map (entry_view (fb_arena s)) (take k ?es)" and t: "fb_total s' = length (concat (map (entry_view (fb_arena s)) (drop k ?es)))"
    using assms(3) by (auto simp: drained_def Let_def)
  show a: "fb_arena s' = []" "fb_threshold s' = fb_threshold s" "fb_mark s' = 0"
    using assms(3) by (auto simp: drained_def Let_def)
  have v: "fb_view s' = concat (map (entry_view (fb_arena s)) (drop k ?es))"
    by (simp add: fb_view_def a e comp_def)
  show "fb_inv s'" using t by (simp add: fb_inv_def v a) (simp add: e list_all_iff)
  show "fb_view s = concat bs @ fb_view s'"
    unfolding v e(2) concat_map_take_drop [of _ ?es k, symmetric] c(2) [symmetric]
    by (simp add: fb_view_def c(3,4))
  show "length bs = min k (length ?es)" by (simp add: e min.commute)
  show "fb_view s = []" if "0 < k" "bs = []"
    using that c by (simp add: e fb_view_def)
qed

lemma unwritten_concat:
  "c \<le> w \<Longrightarrow> concat (unwritten c w cs) = drop (w - c) (concat cs)"
proof (induction cs arbitrary: c)
  case (Cons x cs)
  have full: "unwritten w w ys = ys" for ys by (induction ys) simp_all
  show ?case
    using Cons by (cases "w = c") (auto simp: full not_le drop_append)
qed simp

lemma put_back_inv:
  assumes "fb_inv s" "fb_arena s = []"
  shows "fb_inv (put_back_unwritten bs n s)" "fb_view (put_back_unwritten bs n s) = drop n (concat bs) @ fb_view s"
    "fb_arena (put_back_unwritten bs n s) = []" "fb_threshold (put_back_unwritten bs n s) = fb_threshold s"
proof -
  let ?s = "put_back_unwritten bs n s"
  have m: "fb_mark s = 0" using assms by (simp add: fb_inv_def)
  have "concat (map (entry_view a) (map (\<lambda>c. External_Entry c False) cs)) = concat cs" for a cs
    by (simp add: comp_def)
  then show v: "fb_view ?s = drop n (concat bs) @ fb_view s"
    using assms(2) m by (simp add: fb_view_def put_back_unwritten_def Let_def unwritten_concat comp_def)
  show a: "fb_arena ?s = []" "fb_threshold ?s = fb_threshold s"
    using assms(2) by (simp_all add: put_back_unwritten_def Let_def)
  show "fb_inv ?s"
    using assms(1) a v m by (simp add: fb_inv_def)
      (auto simp: put_back_unwritten_def Let_def list_all_iff unwritten_concat)
qed

text \<open>Removing an entry removes its bytes and no others.\<close>

lemma remove_entry_inv:
  assumes "fb_inv s" "fb_mark s = length (fb_arena s)" "i < length (fb_entries s)"
  shows "fb_inv (remove_entry i s)"
    "\<exists>x y. fb_view s = x @ entry_view (fb_arena s) (fb_entries s ! i) @ y \<and> fb_view (remove_entry i s) = x @ y"
    "map (entry_view (fb_arena (remove_entry i s))) (fb_entries (remove_entry i s))
      = map (entry_view (fb_arena s)) (take i (fb_entries s) @ drop (Suc i) (fb_entries s))"
    "map is_protected (fb_entries (remove_entry i s)) = map is_protected (take i (fb_entries s) @ drop (Suc i) (fb_entries s))"
    "fb_threshold (remove_entry i s) = fb_threshold s"
proof -
  let ?es = "fb_entries s" and ?a = "fb_arena s" and ?r = "remove_entry i s"
  let ?es' = "take i ?es @ drop (Suc i) ?es"
  have ok: "list_all (entry_ok (length ?a)) ?es" using assms(1,2) by (simp add: fb_inv_def)
  have e: "fb_entries ?r = ?es'" "fb_threshold ?r = fb_threshold s" and m: "fb_mark ?r = length (fb_arena ?r)"
    and a: "fb_arena ?r = (if ?es' = [] then [] else ?a)"
    using assms(2) by (auto simp: remove_entry_def clear_empty_arena_def)
  show mv: "map (entry_view (fb_arena ?r)) (fb_entries ?r) = map (entry_view ?a) ?es'"
  proof (cases "?es' = []")
    case True
    show ?thesis unfolding e True by simp
  qed (simp only: e a if_False)
  show "map is_protected (fb_entries ?r) = map is_protected ?es'" "fb_threshold ?r = fb_threshold s"
    by (simp_all add: e)
  have es: "?es = take i ?es @ ?es ! i # drop (Suc i) ?es" using assms(3) by (rule id_take_nth_drop)
  let ?x = "concat (map (entry_view ?a) (take i ?es))" and ?y = "concat (map (entry_view ?a) (drop (Suc i) ?es))"
  have v: "fb_view s = ?x @ entry_view ?a (?es ! i) @ ?y"
    by (subst fb_view_def, subst es) (simp add: assms(2))
  have v': "fb_view ?r = ?x @ ?y" using mv m by (simp add: fb_view_def)
  from v v' show "\<exists>x y. fb_view s = x @ entry_view ?a (?es ! i) @ y \<and> fb_view ?r = x @ y" by blast
  have "entry_len (?es ! i) = length (entry_view ?a (?es ! i))"
    using ok assms(3) by (intro entry_len_view) (auto simp: list_all_length)
  then have "fb_total ?r = length (fb_view ?r)"
    using assms(1) v v' by (simp add: fb_inv_def remove_entry_def clear_empty_arena_def)
  moreover have "list_all (entry_ok (fb_mark ?r)) (fb_entries ?r)"
    using ok by (auto simp: m a e list_all_iff dest: in_set_takeD in_set_dropD)
  ultimately show "fb_inv ?r" using e m a by (simp add: fb_inv_def)
qed

section \<open>Flushing writes the stream\<close>

lemma advance_arena_inv:
  assumes "fb_inv s" "fb_entries s = []"
  shows "fb_inv (advance_arena n s)" "fb_entries (advance_arena n s) = []"
    "fb_view (advance_arena n s) = drop n (fb_view s)" "fb_view s = fb_arena s"
proof -
  show v: "fb_view s = fb_arena s" using assms by (simp add: fb_view_def fb_inv_def)
  show e: "fb_entries (advance_arena n s) = []" using assms(2) by (simp add: advance_arena_def clear_arena_def)
  show v': "fb_view (advance_arena n s) = drop n (fb_view s)"
    using assms by (simp add: v) (simp add: fb_view_def fb_inv_def advance_arena_def clear_arena_def)
  show "fb_inv (advance_arena n s)"
    using assms v by (auto simp: fb_inv_def v' e) (auto simp: advance_arena_def clear_arena_def)
qed

lemma flush_arena_exact:
  assumes "fb_inv s" "fb_entries s = []"
  shows "case flush_arena ns out s of (s', out', st) \<Rightarrow> fb_inv s' \<and> fb_entries s' = [] \<and> length (fb_arena s') \<le> length (fb_arena s)
    \<and> out' @ fb_view s' = out @ fb_view s
    \<and> (st = Flushed_All \<longrightarrow> fb_view s' = []) \<and> (\<forall>bs. st = Flush_Pending bs \<longrightarrow> bs = [])
    \<and> (length (fb_view s) \<le> length ns \<and> 0 \<notin> set ns \<longrightarrow> st = Flushed_All)"
  using assms
proof (induction ns arbitrary: out s)
  case Nil
  show ?case using Nil.prems advance_arena_inv(4) [OF Nil.prems] by (simp add: flush_arena.simps)
next
  case (Cons n ns)
  note a = advance_arena_inv(1-3) [OF Cons.prems, of n] advance_arena_inv(4) [OF Cons.prems]
  show ?case
  proof (cases "fb_arena s = [] \<or> n = 0")
    case True
    then show ?thesis using Cons.prems a(4) by (auto simp: flush_arena.simps)
  next
    case False
    have "length (fb_arena (advance_arena n s)) < length (fb_arena s)"
      using False a(2,4) advance_arena_inv(3,4) [OF a(1,2)] by (simp add: advance_arena_def clear_arena_def)
    then show ?thesis
      using Cons.IH [OF a(1,2), of "out @ take n (fb_arena s)"] False a(3,4)
      by (subst flush_arena.simps) (auto split: prod.splits)
  qed
qed

definition fb_solid :: "frame_buffer \<Rightarrow> bool" where
  "fb_solid s \<longleftrightarrow> list_all (\<lambda>e. 0 < entry_len e) (fb_entries s)"

lemma unwritten_nonempty: "[] \<notin> set bs \<Longrightarrow> [] \<notin> set (unwritten c w bs)"
  by (induction bs arbitrary: c) auto

lemma drained_solid:
  assumes "fb_inv s" "length (fb_arena s) < 2 ^ 32" "fb_solid s" "drained k s = (s', bs, n)"
  shows "fb_solid s'" "[] \<notin> set bs"
proof -
  let ?es = "fb_entries (commit_arena_range s)"
  note c = commit_inv [OF assms(1,2)]
  have "list_all (entry_ok (length (fb_arena s))) ?es" using c by (simp add: fb_inv_def)
  moreover have "list_all (\<lambda>e. 0 < entry_len e) ?es"
    using assms(3) by (auto simp: fb_solid_def commit_arena_range_def Let_def)
  ultimately have ne: "\<forall>e \<in> set ?es. entry_view (fb_arena s) e \<noteq> []"
    using entry_len_view [of "length (fb_arena s)" _ "fb_arena s"] by (fastforce simp: list_all_iff)
  have d: "fb_entries s' = map (\<lambda>e. External_Entry (entry_view (fb_arena s) e) (is_protected e)) (drop k ?es)"
    "bs = map (entry_view (fb_arena s)) (take k ?es)"
    using assms(4) by (auto simp: drained_def Let_def)
  show "fb_solid s'" using ne by (auto simp: fb_solid_def d list_all_iff dest: in_set_dropD)
  show "[] \<notin> set bs" using ne by (force simp: d dest: in_set_takeD)
qed

lemma put_back_solid:
  assumes "fb_solid s" "[] \<notin> set bs"
  shows "fb_solid (put_back_unwritten bs n s)"
  using assms unwritten_nonempty [OF assms(2), of 0 n]
  by (auto simp: fb_solid_def put_back_unwritten_def Let_def list_all_iff)

lemma flush_chunks_exact:
  assumes "fb_inv s" "length (fb_arena s) < 2 ^ 32"
  shows "\<exists>s' out' st lost. flush_chunks ns out s = Ok (s', out', st) \<and> fb_inv s' \<and> fb_arena s' = []
    \<and> out @ fb_view s = out' @ lost @ fb_view s' \<and> (st = Flushed_All \<longrightarrow> lost = [] \<and> fb_view s' = [])
    \<and> (\<forall>bs. st = Flush_Pending bs \<longrightarrow> lost = concat bs)
    \<and> (fb_solid s \<longrightarrow> fb_solid s')
    \<and> (fb_solid s \<and> length (fb_view s) \<le> length ns \<and> 0 \<notin> set ns \<longrightarrow> st = Flushed_All)"
  using assms
proof (induction ns arbitrary: out s)
  case Nil
  obtain s1 bs k where d: "drained 1024 s = (s1, bs, k)" by (metis prod_cases3)
  note i = drained_inv [OF Nil.prems d] and ds = drained_solid [OF Nil.prems _ d]
  have "flush_chunks [] out s = Ok (if bs = [] then (s1, out, Flushed_All) else (s1, out, Flush_Pending bs))"
    by (simp add: flush_chunks.simps fb_drain_exact [OF Nil.prems] d)
  moreover have "bs = []" if "fb_solid s" "fb_view s = []"
    using ds(2) [OF that(1)] that(2) i(2) by (cases bs) auto
  ultimately show ?case using i ds(1) by (cases "bs = []") auto
next
  case (Cons n ns)
  obtain s1 bs k where d: "drained 1024 s = (s1, bs, k)" by (metis prod_cases3)
  note i = drained_inv [OF Cons.prems d] and ds = drained_solid [OF Cons.prems _ d]
  show ?case
  proof (cases "bs = [] \<or> n = 0")
    case True
    have "flush_chunks (n # ns) out s = Ok (if bs = [] then (s1, out, Flushed_All) else (s1, out, Write_Zero))"
      using True by (auto simp: flush_chunks.simps [of "n # ns"] fb_drain_exact [OF Cons.prems] d)
    then show ?thesis using i ds(1) True by (cases "bs = []") auto
  next
    case False
    define s2 where "s2 = (if n < length (concat bs) then put_back_unwritten bs n s1 else s1)"
    have e: "flush_chunks (n # ns) out s = flush_chunks ns (out @ take n (concat bs)) s2"
      using False by (simp add: flush_chunks.simps [of "n # ns"] fb_drain_exact [OF Cons.prems] d s2_def)
    have s2: "fb_inv s2" "fb_arena s2 = []" "fb_view s2 = drop n (concat bs) @ fb_view s1"
      using put_back_inv [OF i(1,3)] i(1,3) by (auto simp: s2_def)
    have v: "fb_view s = take n (concat bs) @ fb_view s2" using i(2) s2(3) by simp
    have sol: "fb_solid s2 \<and> length (fb_view s2) < length (fb_view s)" if "fb_solid s"
      using ds [OF that] put_back_solid [OF ds [OF that], of n] False v by (cases bs) (auto simp: s2_def)
    have "length (fb_arena s2) < 2 ^ 32" using s2(2) by simp
    from Cons.IH [OF s2(1) this, of "out @ take n (concat bs)"] obtain s' out' st lost
      where r: "flush_chunks ns (out @ take n (concat bs)) s2 = Ok (s', out', st)" "fb_inv s'" "fb_arena s' = []"
        "(out @ take n (concat bs)) @ fb_view s2 = out' @ lost @ fb_view s'"
        "st = Flushed_All \<longrightarrow> lost = [] \<and> fb_view s' = []" "\<forall>bs. st = Flush_Pending bs \<longrightarrow> lost = concat bs"
        "fb_solid s2 \<longrightarrow> fb_solid s'"
        and p: "fb_solid s2 \<and> length (fb_view s2) \<le> length ns \<and> 0 \<notin> set ns \<longrightarrow> st = Flushed_All"
      by (elim exE conjE) (rule that; assumption)
    have "fb_solid s \<and> length (fb_view s) \<le> length (n # ns) \<and> 0 \<notin> set (n # ns) \<longrightarrow> st = Flushed_All"
      using p sol by auto
    moreover have "out @ fb_view s = out' @ lost @ fb_view s'" using r(4) v by simp
    moreover have "fb_solid s \<longrightarrow> fb_solid s'" using r(7) sol by blast
    ultimately show ?thesis unfolding e using r by blast
  qed
qed

lemma flush_frame_buffer_exact:
  assumes "fb_inv s" "length (fb_arena s) < 2 ^ 32" "fb_solid s"
  obtains s' out st lost where "flush_frame_buffer ns s = Ok (s', out, st)" "fb_inv s'" "fb_solid s'"
    "length (fb_arena s') < 2 ^ 32" "fb_view s = out @ lost @ fb_view s'"
    "st = Flushed_All \<Longrightarrow> lost = [] \<and> fb_view s' = []" "\<And>bs. st = Flush_Pending bs \<Longrightarrow> lost = concat bs"
    "length (fb_view s) \<le> length ns \<Longrightarrow> 0 \<notin> set ns \<Longrightarrow> st = Flushed_All"
proof (cases "has_arena_only s")
  case True
  then have e: "fb_entries s = []" by (simp add: has_arena_only_def)
  obtain s' out st where f: "flush_arena ns [] s = (s', out, st)" by (metis prod_cases3)
  note x = flush_arena_exact [OF assms(1) e, where ns = ns and out = "[]", unfolded f prod.case append_Nil]
  show thesis
  proof (rule that)
    show "flush_frame_buffer ns s = Ok (s', out, st)" using True f by (simp add: flush_frame_buffer_def)
    show "fb_view s = out @ [] @ fb_view s'" using x by simp
    show "fb_inv s'" "fb_solid s'" "length (fb_arena s') < 2 ^ 32" using x assms(2) by (simp_all add: fb_solid_def)
  qed (use x in auto)
next
  case False
  from flush_chunks_exact [OF assms(1,2), where ns = ns and out = "[]"] obtain s' out st lost
    where x: "flush_chunks ns [] s = Ok (s', out, st)" "fb_inv s'" "fb_arena s' = []"
        "[] @ fb_view s = out @ lost @ fb_view s'"
        "st = Flushed_All \<longrightarrow> lost = [] \<and> fb_view s' = []" "\<forall>bs. st = Flush_Pending bs \<longrightarrow> lost = concat bs"
        "fb_solid s \<longrightarrow> fb_solid s'"
        "fb_solid s \<and> length (fb_view s) \<le> length ns \<and> 0 \<notin> set ns \<longrightarrow> st = Flushed_All"
    by (elim exE conjE) (rule that; assumption)
  show thesis
  proof (rule that)
    show "flush_frame_buffer ns s = Ok (s', out, st)" using False x(1) by (simp add: flush_frame_buffer_def)
    show "fb_view s = out @ lost @ fb_view s'" using x(4) by simp
    show "fb_inv s'" "fb_solid s'" "length (fb_arena s') < 2 ^ 32" using x(2,3,7) assms(3) by simp_all
  qed (use x assms(3) in auto)
qed

section \<open>A buffer is a byte queue\<close>

datatype fb_op =
    Op_Frame message
  | Op_Prefixed bytes message
  | Op_Rep message
  | Op_Ws message bool rng
  | Op_Raw "bytes list" bool
  | Op_Framed bytes

fun fb_do :: "fb_op \<Rightarrow> frame_buffer \<Rightarrow> frame_buffer" where
  "fb_do (Op_Frame m) s = frame_message m s"
| "fb_do (Op_Prefixed pre m) s = frame_prefixed pre m s"
| "fb_do (Op_Rep m) s = frame_rep m s"
| "fb_do (Op_Ws m masked r) s = fst (frame_ws m masked r s)"
| "fb_do (Op_Raw bs prot) s = push_raw_with_protection bs prot s"
| "fb_do (Op_Framed data) s = push_pre_framed data s"

fun fb_bytes :: "fb_op \<Rightarrow> bytes" where
  "fb_bytes (Op_Frame m) = wire (parts m)"
| "fb_bytes (Op_Prefixed pre m) = wire (map ((@) pre) (parts m))"
| "fb_bytes (Op_Rep m) = wire ([] # parts m)"
| "fb_bytes (Op_Ws m masked r) = wire_ws m masked r"
| "fb_bytes (Op_Raw bs prot) = concat bs"
| "fb_bytes (Op_Framed data) = data"

fun fb_op_ok :: "fb_op \<Rightarrow> bool" where
  "fb_op_ok (Op_Frame m) \<longleftrightarrow> message_wf m"
| "fb_op_ok (Op_Prefixed pre m) \<longleftrightarrow> message_wf m \<and> pre \<noteq> []"
| "fb_op_ok (Op_Rep m) \<longleftrightarrow> message_wf m"
| "fb_op_ok (Op_Ws m masked r) \<longleftrightarrow> True"
| "fb_op_ok (Op_Raw bs prot) \<longleftrightarrow> [] \<notin> set bs"
| "fb_op_ok (Op_Framed data) \<longleftrightarrow> True"

lemma fb_do_appends:
  assumes "fb_inv s" "fb_op_ok op" "length (fb_arena s) + length (fb_bytes op) < 2 ^ 32"
  shows "fb_appends s (fb_bytes op) (fb_do op s)"
proof (cases op)
  case (Op_Frame m)
  then show ?thesis using assms by (simp add: frame_message_appends)
next
  case (Op_Prefixed pre m)
  then show ?thesis using assms by (simp add: frame_prefixed_appends)
next
  case (Op_Rep m)
  then show ?thesis using assms by (simp add: frame_rep_appends)
next
  case (Op_Ws m masked r)
  then show ?thesis using assms by (simp add: frame_ws_appends)
next
  case (Op_Raw bs prot)
  then show ?thesis using assms by (simp add: push_raw_appends)
next
  case (Op_Framed data)
  then show ?thesis using assms by (simp add: push_pre_framed_def grow_appends)
qed

lemma solid_simps:
  "fb_solid (grow_arena a s) = fb_solid s" "fb_solid s \<Longrightarrow> fb_solid (commit_arena_range s)"
  "fb_solid s \<Longrightarrow> b \<noteq> [] \<Longrightarrow> fb_solid (push_external p b s)"
  by (auto simp: fb_solid_def grow_arena_def commit_arena_range_def push_external_def Let_def)

lemma gather_parts_solid: "fb_solid s \<Longrightarrow> fb_solid (gather_parts n i ps s)"
  by (induction ps arbitrary: i s) (simp_all add: gather_part_def Let_def solid_simps)

lemma prefixed_gather_parts_solid: "fb_solid s \<Longrightarrow> pre \<noteq> [] \<Longrightarrow> fb_solid (prefixed_gather_parts pre n i ps s)"
  by (induction ps arbitrary: i s) (simp_all add: prefixed_part_def Let_def solid_simps)

lemma fold_push_solid: "fb_solid s \<Longrightarrow> [] \<notin> set bs \<Longrightarrow> fb_solid (fold (push_external p) bs s)"
  by (induction bs arbitrary: s) (auto simp: solid_simps)

lemma fb_do_solid: "fb_solid s \<Longrightarrow> fb_op_ok op \<Longrightarrow> fb_solid (fb_do op s)"
  by (cases op) (auto simp: frame_message_def frame_inline_def frame_gather_def Let_def frame_prefixed_def
      frame_prefixed_inline_def frame_prefixed_gather_def frame_rep_def frame_ws_def push_raw_with_protection_def
      push_pre_framed_def solid_simps gather_parts_solid prefixed_gather_parts_solid fold_push_solid split: prod.split)

text \<open>
  Any use of a buffer: \<open>A\<close> is all that was queued and \<open>W\<close> what the writer took.  A
  drain hands out chunks of which some prefix is written and the rest put back.
  The arena stays below the range of its 32-bit offsets.
\<close>

inductive fb_trace :: "nat \<Rightarrow> bytes \<Rightarrow> bytes \<Rightarrow> frame_buffer \<Rightarrow> bool" for th where
  fb_new: "fb_trace th [] [] (with_config th)"
| fb_append: "fb_trace th A W s \<Longrightarrow> fb_op_ok op \<Longrightarrow> length (fb_arena s) + length (fb_bytes op) < 2 ^ 32
    \<Longrightarrow> fb_trace th (A @ fb_bytes op) W (fb_do op s)"
| fb_write: "fb_trace th A W s \<Longrightarrow> fb_drain k s = Ok (s', bs, n)
    \<Longrightarrow> fb_trace th A (W @ take w (concat bs)) (put_back_unwritten bs w s')"
| fb_flush: "fb_trace th A W s \<Longrightarrow> flush_frame_buffer ns s = Ok (s', out, st)
    \<Longrightarrow> st = Flushed_All \<or> st = Flush_Pending [] \<Longrightarrow> fb_trace th A (W @ out) s'"

lemma fb_trace_inv:
  "fb_trace th A W s \<Longrightarrow> fb_inv s \<and> fb_solid s \<and> length (fb_arena s) < 2 ^ 32 \<and> W @ fb_view s = A"
proof (induction rule: fb_trace.induct)
  case fb_new
  then show ?case by (simp add: fb_inv_new fb_solid_def) (simp add: with_config_def)
next
  case (fb_append A W s op)
  with fb_do_appends [of s op] fb_do_solid [of s op] show ?case by (auto simp: fb_appends_def)
next
  case (fb_write A W s k s' bs n w)
  then have s: "fb_inv s" "length (fb_arena s) < 2 ^ 32" "fb_solid s" and d: "drained k s = (s', bs, n)"
    by (auto simp: fb_drain_exact)
  note i = drained_inv [OF s(1,2) d] and ds = drained_solid [OF s d]
  from put_back_inv [OF i(1,3), of bs w] put_back_solid [OF ds, of w] i(2) fb_write.IH show ?case by auto
next
  case (fb_flush A W s ns s' out st)
  then have s: "fb_inv s" "length (fb_arena s) < 2 ^ 32" "fb_solid s" by auto
  from s show ?case
  proof (rule flush_frame_buffer_exact [where ns = ns])
    fix s1 out1 st1 lost
    assume "flush_frame_buffer ns s = Ok (s1, out1, st1)" "fb_inv s1" "fb_solid s1" "length (fb_arena s1) < 2 ^ 32"
      "fb_view s = out1 @ lost @ fb_view s1" "st1 = Flushed_All \<Longrightarrow> lost = [] \<and> fb_view s1 = []"
      "\<And>bs. st1 = Flush_Pending bs \<Longrightarrow> lost = concat bs"
    then show ?thesis using fb_flush.hyps fb_flush.IH by force
  qed
qed

lemma fb_is_empty_view: "fb_inv s \<Longrightarrow> fb_solid s \<Longrightarrow> fb_is_empty s \<longleftrightarrow> fb_view s = []"
proof -
  assume s: "fb_inv s" "fb_solid s"
  have "fb_view s \<noteq> []" if "fb_entries s = e # es" for e es
  proof -
    have "entry_len e = length (entry_view (fb_arena s) e)" "0 < entry_len e"
      using s that by (auto simp: fb_inv_def fb_solid_def intro!: entry_len_view)
    then show ?thesis by (auto simp: fb_view_def that)
  qed
  then show ?thesis using s by (cases "fb_entries s") (auto simp: fb_is_empty_def fb_view_def fb_inv_def)
qed

text \<open>
  C17.  The output queue is a byte queue: after any mix of messages encoded into the
  arena or gathered from it, prefixed and WebSocket messages, raw chunks, drains
  that are written in part and put back and flushes, the bytes the writer took
  followed by those the buffer stands for are the bytes of all that was queued, in
  order; the byte count and the emptiness test agree with that.  A flush never
  panics, writes a prefix of what is queued whatever the writer answers, writes
  all of it when it reports success, and does so if the writer takes at least a
  byte each time.
\<close>

theorem frame_buffer_stream:
  assumes "fb_trace th A W s"
  shows "W @ fb_view s = A \<and> fb_total s = length A - length W \<and> (fb_is_empty s \<longleftrightarrow> W = A)
    \<and> (\<exists>s' out st. flush_frame_buffer ns s = Ok (s', out, st) \<and> prefix (W @ out) A
         \<and> (st = Flushed_All \<longrightarrow> W @ out = A \<and> fb_is_empty s')
         \<and> (length A - length W \<le> length ns \<and> 0 \<notin> set ns \<longrightarrow> st = Flushed_All))"
proof -
  from fb_trace_inv [OF assms] have s: "fb_inv s" "length (fb_arena s) < 2 ^ 32" "fb_solid s" and A: "A = W @ fb_view s"
    by simp_all
  have "\<exists>s' out st. flush_frame_buffer ns s = Ok (s', out, st) \<and> prefix (W @ out) A
         \<and> (st = Flushed_All \<longrightarrow> W @ out = A \<and> fb_is_empty s')
         \<and> (length A - length W \<le> length ns \<and> 0 \<notin> set ns \<longrightarrow> st = Flushed_All)"
    using s
  proof (rule flush_frame_buffer_exact [where ns = ns])
    fix s' out st lost
    assume x: "flush_frame_buffer ns s = Ok (s', out, st)" "fb_inv s'" "fb_solid s'"
      "fb_view s = out @ lost @ fb_view s'" "st = Flushed_All \<Longrightarrow> lost = [] \<and> fb_view s' = []"
      "length (fb_view s) \<le> length ns \<Longrightarrow> 0 \<notin> set ns \<Longrightarrow> st = Flushed_All"
    have "prefix (W @ out) A" using x(4) A by simp
    moreover have "st = Flushed_All \<longrightarrow> W @ out = A \<and> fb_is_empty s'"
      using x(4,5) A fb_is_empty_view [OF x(2,3)] by auto
    moreover have "length A - length W \<le> length ns \<and> 0 \<notin> set ns \<longrightarrow> st = Flushed_All" using x(6) A by simp
    ultimately show ?thesis using x(1) by (intro exI conjI) assumption+
  qed
  then show ?thesis using s A fb_is_empty_view [OF s(1,3)] by (simp add: fb_inv_def)
qed

definition demo_buffer :: frame_buffer where
  "demo_buffer = fb_do (Op_Rep (message_from_slice [9])) (fb_do (Op_Frame (multipart [[1], [2, 3, 4, 5]])) (with_config 4))"

lemma frame_buffer_stream_witness:
  "fb_view demo_buffer = [1, 1, 1, 0, 4, 2, 3, 4, 5, 1, 0, 0, 1, 9] \<and> fb_total demo_buffer = 14
   \<and> (\<exists>s' out st. flush_frame_buffer (replicate 14 1) demo_buffer = Ok (s', out, st) \<and> st = Flushed_All)"
proof -
  have a: "fb_bytes (Op_Frame (multipart [[1], [2, 3, 4, 5]])) = [1, 1, 1, 0, 4, 2, 3, 4, 5]"
    "fb_bytes (Op_Rep (message_from_slice [9])) = [1, 0, 0, 1, 9]"
    by code_simp+
  have ok: "fb_op_ok (Op_Frame (multipart [[1], [2, 3, 4, 5]]))" "fb_op_ok (Op_Rep (message_from_slice [9]))"
    by code_simp+
  let ?s = "fb_do (Op_Frame (multipart [[1], [2, 3, 4, 5]])) (with_config 4)"
  have "length (fb_arena (with_config 4)) = 0" by (simp add: with_config_def)
  with fb_append [OF fb_new ok(1), of 4] a have "fb_trace 4 [1, 1, 1, 0, 4, 2, 3, 4, 5] [] ?s" by simp
  moreover have "length (fb_arena ?s) \<le> 9"
    using fb_do_appends [OF fb_inv_new(1) ok(1), of 4] a by (simp add: fb_appends_def) (simp add: with_config_def)
  ultimately have t: "fb_trace 4 [1, 1, 1, 0, 4, 2, 3, 4, 5, 1, 0, 0, 1, 9] [] demo_buffer"
    using fb_append [of 4 _ _ ?s, OF _ ok(2)] a by (fastforce simp: demo_buffer_def)
  from frame_buffer_stream [OF t, of "replicate 14 1"] show ?thesis by auto
qed

end
