(* ===== verification/Fan_Out_Frame.thy ===== *)
theory Fan_Out_Frame
  imports Frame_Buffer
begin

text \<open>
  Encoding one message for many destinations, \<^verbatim>\<open>omq-proto/src/fan_out_frame.rs\<close>: the
  message is encoded once into a scratch buffer and each destination gets the
  bytes, copied from the arena when that is cheap and as shared chunks otherwise.
\<close>

definition frame_header_len :: "nat \<Rightarrow> nat" where
  "frame_header_len n = (if 255 < n then 9 else 2)"

definition encoded_message_len :: "message \<Rightarrow> nat" where
  "encoded_message_len msg =
     fold (\<lambda>part n. sat_add (sat_add n (frame_header_len (length part))) (length part)) (iter_slices msg) 0"

definition encode_fan_out_message :: "frame_buffer \<Rightarrow> message \<Rightarrow> nat \<Rightarrow> nat \<Rightarrow> frame_buffer" where
  "encode_fan_out_message eq msg target_count copy_budget =
     (if copy_budget < sat_mul (encoded_message_len msg) target_count
      then frame_gather msg eq else frame_message msg eq)"

datatype fan_out_frame = Fan_Arena bytes | Fan_Chunks "bytes list"

text \<open>The product is not a saturating one here: it wraps at the width of a \<^verbatim>\<open>usize\<close>.\<close>

definition finish_fan_out_frame :: "frame_buffer \<Rightarrow> nat \<Rightarrow> nat \<Rightarrow> (frame_buffer \<times> fan_out_frame) result" where
  "finish_fan_out_frame eq target_count copy_budget =
     (if has_arena_only eq \<and> (length (uncommitted_arena eq) * target_count) mod 2 ^ 64 \<le> copy_budget
      then Ok (eq, Fan_Arena (uncommitted_arena eq))
      else rbind (fb_drain 1024 eq) (\<lambda>(eq, chunks, _). Ok (eq, Fan_Chunks chunks)))"

definition build_fan_out_frame :: "frame_buffer \<Rightarrow> message \<Rightarrow> nat \<Rightarrow> nat \<Rightarrow> (frame_buffer \<times> fan_out_frame) result" where
  "build_fan_out_frame eq msg target_count copy_budget =
     finish_fan_out_frame (encode_fan_out_message eq msg target_count copy_budget) target_count copy_budget"

definition clear_fan_out_frame :: "frame_buffer \<Rightarrow> frame_buffer" where
  "clear_fan_out_frame eq = clear_arena eq"

fun fanout_frame_chunk :: "fan_out_frame \<Rightarrow> bytes" where
  "fanout_frame_chunk (Fan_Arena raw) = raw"
| "fanout_frame_chunk (Fan_Chunks chunks) = (if length chunks = 1 then chunks ! 0 else concat chunks)"

lemma fanout_frame_chunk_chunks: "fanout_frame_chunk (Fan_Chunks bs) = concat bs"
  by (cases bs) auto

section \<open>The entries a gathered message makes\<close>

definition chunk_views :: "frame_buffer \<Rightarrow> bytes list" where
  "chunk_views s = map (entry_view (fb_arena s)) (fb_entries s)"

definition gather_chunks :: "bool \<Rightarrow> bytes \<Rightarrow> bytes list" where
  "gather_chunks mor b =
     frame_header \<lparr>ff_more = mor, ff_command = False\<rparr> (length b) # (if b = [] then [] else [b])"

lemma gather_part_chunks:
  assumes "fb_inv s" "fb_mark s = length (fb_arena s)" "payload_wf p"
    and "length (fb_arena s) + length (frame_enc (mk_data mor (payload_as_slice p))) < 2 ^ 32"
  shows "chunk_views (gather_part mor p s) = chunk_views s @ gather_chunks mor (payload_as_slice p)"
    "fb_mark (gather_part mor p s) = length (fb_arena (gather_part mor p s))"
proof -
  let ?b = "payload_as_slice p"
  let ?h = "frame_header \<lparr>ff_more = mor, ff_command = False\<rparr> (length ?b)"
  let ?g = "grow_arena (fb_arena s @ ?h) s"
  have "0 < length ?h" by (simp add: frame_header_def Let_def)
  moreover have "length (fb_arena s @ ?h) < 2 ^ 32" using assms(4) by (simp add: frame_enc_data)
  ultimately have c: "commit_arena_range ?g = ?g\<lparr>fb_entries := fb_entries s @
      [Arena_Entry (length (fb_arena s)) (length ?h) False], fb_mark := length (fb_arena s) + length ?h\<rparr>"
    using assms(2) by (simp add: commit_arena_range_def grow_arena_def Let_def)
  have "list_all (entry_ok (fb_mark s)) (fb_entries s)" using assms(1) by (simp add: fb_inv_def)
  then have "map (entry_view (fb_arena s @ ?h)) (fb_entries s) = map (entry_view (fb_arena s)) (fb_entries s)"
    using entries_view_append [of "fb_mark s"] assms(2) by simp
  then show "chunk_views (gather_part mor p s) = chunk_views s @ gather_chunks mor ?b"
    "fb_mark (gather_part mor p s) = length (fb_arena (gather_part mor p s))"
    unfolding gather_part_def Let_def payload_len_slice [OF assms(3)] payload_as_bytes_slice write_frame_header_eq c
    by (cases "?b = []"; simp add: chunk_views_def gather_chunks_def push_external_def grow_arena_def)+
qed

fun message_chunks :: "bytes list \<Rightarrow> bytes list" where
  "message_chunks [] = []"
| "message_chunks (b # bs) = gather_chunks (bs \<noteq> []) b @ message_chunks bs"

lemma gather_parts_chunks:
  assumes "fb_inv s" "fb_mark s = length (fb_arena s)" "list_all payload_wf ps" "n = i + length ps"
    and "length (fb_arena s) + length (wire (map payload_as_slice ps)) < 2 ^ 32"
  shows "chunk_views (gather_parts n i ps s) = chunk_views s @ message_chunks (map payload_as_slice ps)
    \<and> fb_mark (gather_parts n i ps s) = length (fb_arena (gather_parts n i ps s))"
  using assms
proof (induction ps arbitrary: i s)
  case (Cons p ps)
  let ?x = "frame_enc (mk_data (ps \<noteq> []) (payload_as_slice p))" and ?g = "gather_part (i + 1 < n) p s"
  have w: "wire (map payload_as_slice (p # ps)) = ?x @ wire (map payload_as_slice ps)" by (simp add: wire_def)
  have m: "(i + 1 < n) = (ps \<noteq> [])" using Cons.prems(4) by auto
  have l: "length (fb_arena s) + length ?x < 2 ^ 32" using Cons.prems(5) w by simp
  have a: "fb_appends s ?x ?g"
    using gather_part_appends [OF Cons.prems(1) _ l] Cons.prems(3) m by simp
  note c = gather_part_chunks [OF Cons.prems(1,2) _ l]
  have "chunk_views (gather_parts n (i + 1) ps ?g) = chunk_views ?g @ message_chunks (map payload_as_slice ps)
    \<and> fb_mark (gather_parts n (i + 1) ps ?g) = length (fb_arena (gather_parts n (i + 1) ps ?g))"
    using a c m Cons.prems(3-5) w by (intro Cons.IH) (simp_all add: fb_appends_def)
  then show ?case using c Cons.prems(3) m by simp
qed (simp add: chunk_views_def)

lemma message_chunks_wire: "concat (message_chunks bs) = wire bs"
  by (induction bs) (simp_all add: wire_def gather_chunks_def frame_enc_data)

lemma message_chunks_length: "length (message_chunks bs) \<le> 2 * length bs"
  by (induction bs) (simp_all add: gather_chunks_def)

lemma message_chunks_take:
  "[] \<notin> set bs \<Longrightarrow> concat (take (2 * n) (message_chunks bs)) = concat (map frame_enc (take n (data_frames bs)))"
proof (induction bs arbitrary: n)
  case (Cons b bs)
  then show ?case by (cases n) (auto simp: gather_chunks_def frame_enc_data)
qed simp

lemma message_chunks_drop:
  "[] \<notin> set bs \<Longrightarrow> concat (drop (2 * n) (message_chunks bs)) = concat (map frame_enc (drop n (data_frames bs)))"
proof (induction bs arbitrary: n)
  case (Cons b bs)
  then show ?case by (cases n) (auto simp: gather_chunks_def frame_enc_data message_chunks_wire wire_def)
qed simp

section \<open>Frames and what is left behind\<close>

lemma drained_chunks:
  assumes "fb_inv s" "fb_mark s = length (fb_arena s)" "length (fb_arena s) < 2 ^ 32" "drained k s = (s', bs, n)"
  shows "bs = take k (chunk_views s)" "fb_entries (clear_arena s') = fb_entries s'"
    "fb_view (clear_arena s') = concat (drop k (chunk_views s))"
proof -
  have c: "commit_arena_range s = s" using assms(2,3) by (simp add: commit_arena_range_def)
  show "bs = take k (chunk_views s)" "fb_entries (clear_arena s') = fb_entries s'"
    using assms(4) by (auto simp: drained_def c chunk_views_def clear_arena_def take_map Let_def)
  show "fb_view (clear_arena s') = concat (drop k (chunk_views s))"
    using assms(4) by (auto simp: drained_def c chunk_views_def clear_arena_def fb_view_def drop_map comp_def Let_def)
qed

definition fb_fresh :: "frame_buffer \<Rightarrow> bool" where
  "fb_fresh s \<longleftrightarrow> fb_entries s = [] \<and> fb_arena s = [] \<and> fb_mark s = 0 \<and> fb_total s = 0"

lemma fb_fresh_inv: "fb_fresh s \<Longrightarrow> fb_inv s" "fb_fresh s \<Longrightarrow> fb_view s = []" "fb_fresh s \<Longrightarrow> chunk_views s = []"
  by (simp_all add: fb_fresh_def fb_inv_def fb_view_def chunk_views_def)

definition gathered :: "frame_buffer \<Rightarrow> message \<Rightarrow> nat \<Rightarrow> nat \<Rightarrow> bool" where
  "gathered eq m tc budget \<longleftrightarrow> budget < sat_mul (encoded_message_len m) tc \<or> fb_threshold eq \<le> byte_len m"

lemma encode_gathered:
  "encode_fan_out_message eq m tc budget = (if gathered eq m tc budget then frame_gather m eq else frame_inline m eq)"
  by (auto simp: encode_fan_out_message_def gathered_def frame_message_def)

lemma build_inline:
  assumes "fb_fresh eq" "message_wf m" "length (wire (parts m)) < 2 ^ 32" "\<not> gathered eq m tc budget"
  shows "\<exists>eq' f. build_fan_out_frame eq m tc budget = Ok (eq', f) \<and> fanout_frame_chunk f = wire (parts m)
    \<and> fb_fresh (clear_fan_out_frame eq')"
proof -
  let ?s = "frame_inline m eq"
  note a = frame_inline_appends [OF fb_fresh_inv(1) [OF assms(1)] assms(2)]
  have s: "fb_arena ?s = wire (parts m)" "fb_entries ?s = []" "fb_mark ?s = 0"
    using assms(1,2) by (simp_all add: frame_inline_def grow_arena_def encode_message_flat_eq wire_def fb_fresh_def)
  have i: "fb_inv ?s" using a by (simp add: fb_appends_def)
  obtain s1 bs n where d: "drained 1024 ?s = (s1, bs, n)" by (metis prod_cases3)
  have l: "length (fb_arena ?s) < 2 ^ 32" using s(1) assms(3) by simp
  have c: "fb_entries (commit_arena_range ?s) = (if wire (parts m) = [] then [] else [Arena_Entry 0 (length (wire (parts m))) False])"
    using s assms(3) by (simp add: commit_arena_range_def Let_def)
  have "fb_entries s1 = []" "concat bs = wire (parts m)"
    using d c s(1) by (auto simp: drained_def Let_def split: if_splits)
  then show ?thesis
    using assms(4) s fb_drain_exact [OF i l] d
    by (auto simp: build_fan_out_frame_def encode_gathered finish_fan_out_frame_def uncommitted_arena_def
        clear_fan_out_frame_def clear_arena_def fb_fresh_def simp del: fanout_frame_chunk.simps(2)
        simp add: fanout_frame_chunk_chunks)
qed

lemma build_gathered:
  assumes "fb_fresh eq" "message_wf m" "length (wire (parts m)) < 2 ^ 32" "gathered eq m tc budget"
  shows "\<exists>eq' f. build_fan_out_frame eq m tc budget = Ok (eq', f)
    \<and> fanout_frame_chunk f = concat (take 1024 (message_chunks (parts m)))
    \<and> fb_view (clear_fan_out_frame eq') = concat (drop 1024 (message_chunks (parts m)))
    \<and> (length (message_chunks (parts m)) \<le> 1024 \<longrightarrow> fb_fresh (clear_fan_out_frame eq'))"
proof -
  let ?s = "frame_gather m eq"
  have e: "fb_mark eq = length (fb_arena eq)" "length (fb_arena eq) = 0" using assms(1) by (simp_all add: fb_fresh_def)
  note f = fb_fresh_inv [OF assms(1)]
  have a: "fb_appends eq (wire (parts m)) ?s" using frame_gather_appends [OF f(1) assms(2)] assms(3) e(2) by simp
  have c: "chunk_views ?s = message_chunks (parts m)" "fb_mark ?s = length (fb_arena ?s)"
    using gather_parts_chunks [OF f(1) e(1) parts_payload_wf [OF assms(2)], of _ 0] assms(3) e(2) f(3)
    by (simp_all add: frame_gather_def Let_def parts_payload_view)
  have i: "fb_inv ?s" "length (fb_arena ?s) < 2 ^ 32" using a assms(3) e(2) by (simp_all add: fb_appends_def)
  obtain s1 bs n where d: "drained 1024 ?s = (s1, bs, n)" by (metis prod_cases3)
  note dc = drained_chunks [OF i(1) c(2) i(2) d] and di = drained_inv [OF i d]
  have n: "length (fb_entries ?s) = length (message_chunks (parts m))"
    using arg_cong [OF c(1), of length] by (simp add: chunk_views_def)
  have "commit_arena_range ?s = ?s" using c(2) i(2) by (simp add: commit_arena_range_def)
  then have "fb_entries s1 = []" if "length (message_chunks (parts m)) \<le> 1024"
    using d that n by (auto simp: drained_def Let_def)
  then have "length (message_chunks (parts m)) \<le> 1024 \<longrightarrow> fb_fresh (clear_fan_out_frame s1)"
    by (simp add: fb_fresh_def clear_fan_out_frame_def clear_arena_def)
  moreover have "\<not> has_arena_only ?s" using i(1) c(2) by (auto simp: has_arena_only_def fb_inv_def)
  then have "build_fan_out_frame eq m tc budget = Ok (s1, Fan_Chunks bs)"
    using assms(4) fb_drain_exact [OF i] d
    by (simp add: build_fan_out_frame_def encode_gathered finish_fan_out_frame_def)
  moreover have "fanout_frame_chunk (Fan_Chunks bs) = concat (take 1024 (message_chunks (parts m)))"
    using dc(1) c(1) by (simp only: fanout_frame_chunk_chunks)
  moreover have "fb_view (clear_fan_out_frame s1) = concat (drop 1024 (message_chunks (parts m)))"
    using dc(3) c(1) by (simp add: clear_fan_out_frame_def)
  ultimately show ?thesis by blast
qed

text \<open>
  C20.  Encoding for fan-out: with the scratch buffer fresh, a message of at most 512
  parts is encoded to exactly the bytes of its frames, however they are stored,
  and clearing leaves the buffer fresh.  A longer message whose parts are
  gathered is cut after its 512th frame, in the middle of the message, and the
  remaining frames stay in the buffer after it is cleared, ahead of whatever is
  encoded next.
\<close>

theorem fan_out_frame_exact:
  assumes "fb_fresh eq" "message_wf m" "length (wire (parts m)) < 2 ^ 32"
  shows "\<exists>eq' f. build_fan_out_frame eq m tc budget = Ok (eq', f)
    \<and> (length (parts m) \<le> 512 \<longrightarrow> fanout_frame_chunk f = wire (parts m) \<and> fb_fresh (clear_fan_out_frame eq'))
    \<and> (512 < length (parts m) \<and> [] \<notin> set (parts m) \<and> gathered eq m tc budget \<longrightarrow>
         fanout_frame_chunk f = concat (map frame_enc (take 512 (data_frames (parts m))))
         \<and> fb_view (clear_fan_out_frame eq') = concat (map frame_enc (drop 512 (data_frames (parts m)))))"
proof (cases "gathered eq m tc budget")
  case False
  with build_inline [OF assms False] show ?thesis by blast
next
  case True
  let ?cs = "message_chunks (parts m)"
  from build_gathered [OF assms True] obtain eq' f where b: "build_fan_out_frame eq m tc budget = Ok (eq', f)"
    and f: "fanout_frame_chunk f = concat (take 1024 ?cs)" "fb_view (clear_fan_out_frame eq') = concat (drop 1024 ?cs)"
    and c: "length ?cs \<le> 1024 \<longrightarrow> fb_fresh (clear_fan_out_frame eq')"
    by (elim exE conjE) (rule that; assumption)
  have "length ?cs \<le> 1024" if "length (parts m) \<le> 512"
    using message_chunks_length [of "parts m"] that by simp
  then have "length (parts m) \<le> 512 \<longrightarrow> fanout_frame_chunk f = wire (parts m) \<and> fb_fresh (clear_fan_out_frame eq')"
    using f(1) c by (simp add: message_chunks_wire)
  moreover have "[] \<notin> set (parts m) \<longrightarrow>
      fanout_frame_chunk f = concat (map frame_enc (take 512 (data_frames (parts m))))
      \<and> fb_view (clear_fan_out_frame eq') = concat (map frame_enc (drop 512 (data_frames (parts m))))"
    using message_chunks_take [of "parts m" 512] message_chunks_drop [of "parts m" 512] f by simp
  ultimately show ?thesis using b by blast
qed

definition long_message :: message where
  "long_message = Multi (replicate 513 (PSingle [7]))"

lemma fan_out_frame_exact_witness:
  "\<exists>eq' f. build_fan_out_frame one_shot long_message 8 8192 = Ok (eq', f)
     \<and> fanout_frame_chunk f = concat (replicate 512 [1, 1, 7]) \<and> fb_view (clear_fan_out_frame eq') = [0, 1, 7]"
proof -
  have p: "parts long_message = replicate 513 [7]" by (simp add: long_message_def)
  have fs: "data_frames (replicate (Suc n) [7]) = replicate n (mk_data True [7]) @ [mk_data False [7]]" for n :: nat
    by (induction n) (simp_all add: replicate_append_same [symmetric])
  have f: "data_frames (replicate 513 [7]) = replicate 512 (mk_data True [7]) @ [mk_data False [7]]"
    using fs [of 512] by simp
  have e: "frame_enc (mk_data True [7]) = [1, 1, 7]" "frame_enc (mk_data False [7]) = [0, 1, 7]"
    by (simp_all add: frame_enc_def mk_data_def frame_header_def)
  have w: "wire (parts long_message) = concat (replicate 512 [1, 1, 7]) @ [0, 1, 7]"
    by (simp add: wire_def p f e)
  have "length (concat (replicate n [1 :: u8, 1, 7])) = 3 * n" for n by (induction n) simp_all
  then have l: "length (wire (parts long_message)) < 2 ^ 32" by (simp add: w)
  have "3 * n + k \<le> usize_max \<Longrightarrow>
      fold (\<lambda>part m. sat_add (sat_add m (frame_header_len (length part))) (length part)) (replicate n [7 :: u8]) k = 3 * n + k"
    for n k :: nat
    by (induction n arbitrary: k) (simp_all add: sat_add_def frame_header_len_def)
  from this [of 513 0] have "encoded_message_len long_message = 1539"
    by (simp add: encoded_message_len_def long_message_def usize_max_def)
  then have "gathered one_shot long_message 8 8192" by (simp add: gathered_def sat_mul_def usize_max_def)
  moreover have "fb_fresh one_shot" "message_wf long_message"
    by (simp_all add: fb_fresh_def one_shot_def with_config_def long_message_def list_all_iff)
  ultimately show ?thesis
    using fan_out_frame_exact [of one_shot long_message 8 8192] l by (simp add: p f e)
qed

end
