(* ===== verification/Data_Signal.thy ===== *)
theory Data_Signal
  imports Omq_Prelude
begin

text \<open>
  The coalesced wake-up \<^verbatim>\<open>omq-tokio/src/engine/signal.rs\<close> (\<^verbatim>\<open>DataSignal\<close>) as the send
  pipe and the transmit slot use it: producers push and mark, one consumer drains, clears
  and waits.

  Each method is a little machine whose step is one access to the shared state
  word; \<open>spurious\<close> is the failure \<^verbatim>\<open>compare_exchange_weak\<close> may report for no reason.
  The system of producers and consumer interleaves such steps freely.  With
  \<open>buffered\<close> set, a push becomes visible to the consumer only later, as release
  and acquire ordering permits; a read-modify-write of the pushing thread waits
  for it.  The send pipe takes items after \<^verbatim>\<open>begin_drain\<close>, always clears and looks
  into its ring before it waits; the transmit slot takes them before
  \<^verbatim>\<open>begin_drain\<close>, clears only when it has emptied its queue (\<open>skip\<close>) and waits without
  looking (\<open>wait\<close>).  Closing, which wakes all waiters, is not part of the system.
  \<^verbatim>\<open>tokio::sync::Notify\<close> is a parameter: what \<^verbatim>\<open>notify_one\<close> does to it, and
  whether the wait of the parked consumer completes.
\<close>

section \<open>The methods, one access at a time\<close>

datatype sig = IDLE | PENDING | DRAINING | DIRTY

datatype mark_pc = Mark_Load | Mark_Try sig | Mark_Notify | Mark_Done

definition mark_at :: "sig \<Rightarrow> mark_pc" where
  "mark_at s = (if s = PENDING \<or> s = DIRTY then Mark_Done else Mark_Try s)"

fun mark_step :: "bool \<Rightarrow> mark_pc \<Rightarrow> sig \<Rightarrow> mark_pc \<times> sig" where
  "mark_step spurious Mark_Load st = (mark_at st, st)"
| "mark_step spurious (Mark_Try s) st =
     (if st = s \<and> \<not> spurious
      then (if s = IDLE then (Mark_Notify, PENDING) else (Mark_Done, DIRTY))
      else (mark_at st, st))"
| "mark_step spurious Mark_Notify st = (Mark_Done, st)"
| "mark_step spurious Mark_Done st = (Mark_Done, st)"

datatype begin_pc = Begin_Load | Begin_Try | Begin_Done

fun begin_step :: "begin_pc \<Rightarrow> sig \<Rightarrow> begin_pc \<times> sig" where
  "begin_step Begin_Load st = (if st = PENDING then Begin_Try else Begin_Done, st)"
| "begin_step Begin_Try st = (Begin_Done, if st = PENDING then DRAINING else st)"
| "begin_step Begin_Done st = (Begin_Done, st)"

datatype clear_pc = Clear_Load | Clear_Try sig | Rearm_Load | Rearm_Try sig | Rearm_Notify | Clear_Done

definition clear_start :: "bool \<Rightarrow> clear_pc" where
  "clear_start is_empty = (if is_empty then Clear_Load else Rearm_Load)"

definition clear_at :: "sig \<Rightarrow> clear_pc" where
  "clear_at s = (case s of DRAINING \<Rightarrow> Clear_Try s | DIRTY \<Rightarrow> Rearm_Load | _ \<Rightarrow> Clear_Done)"

definition rearm_at :: "sig \<Rightarrow> clear_pc" where
  "rearm_at s = (if s = PENDING then Clear_Done else Rearm_Try s)"

fun clear_step :: "bool \<Rightarrow> clear_pc \<Rightarrow> sig \<Rightarrow> clear_pc \<times> sig" where
  "clear_step spurious Clear_Load st = (clear_at st, st)"
| "clear_step spurious (Clear_Try s) st =
     (if st = s \<and> \<not> spurious then (Clear_Done, IDLE) else (clear_at st, st))"
| "clear_step spurious Rearm_Load st = (rearm_at st, st)"
| "clear_step spurious (Rearm_Try s) st =
     (if st = s \<and> \<not> spurious then (Rearm_Notify, PENDING) else (rearm_at st, st))"
| "clear_step spurious Rearm_Notify st = (Clear_Done, st)"
| "clear_step spurious Clear_Done st = (Clear_Done, st)"

text \<open>Run without interference, the methods are these functions.\<close>

definition sig_mark :: "sig \<Rightarrow> sig \<times> bool" where
  "sig_mark st = (case st of IDLE \<Rightarrow> (PENDING, True) | DRAINING \<Rightarrow> (DIRTY, False) | _ \<Rightarrow> (st, False))"

definition sig_begin_drain :: "sig \<Rightarrow> sig" where
  "sig_begin_drain st = (if st = PENDING then DRAINING else st)"

definition sig_rearm :: "sig \<Rightarrow> sig \<times> bool" where
  "sig_rearm st = (PENDING, st \<noteq> PENDING)"

definition sig_clear_after :: "bool \<Rightarrow> sig \<Rightarrow> sig \<times> bool" where
  "sig_clear_after is_empty st =
     (if \<not> is_empty then sig_rearm st
      else case st of DRAINING \<Rightarrow> (IDLE, False) | DIRTY \<Rightarrow> sig_rearm st | _ \<Rightarrow> (st, False))"

section \<open>Producers and consumer\<close>

record 'n notify =
  nf_notify_one :: "'n \<Rightarrow> 'n"
  nf_enable :: "'n \<Rightarrow> 'n"
  nf_poll :: "'n \<Rightarrow> 'n option"
  nf_drop :: "'n \<Rightarrow> 'n"

text \<open>Documented of \<^verbatim>\<open>Notify\<close>: after \<^verbatim>\<open>notify_one\<close> the wait completes.  Nothing is asked of
  registering a wait or of dropping it.\<close>

definition notify_laws :: "'n notify \<Rightarrow> bool" where
  "notify_laws N \<longleftrightarrow> (\<forall>n. nf_poll N (nf_notify_one N n) \<noteq> None)"

datatype consumer_pc = C_Begin begin_pc | C_Take | C_Clear clear_pc | C_Ready | C_Idle | C_Enabled | C_Park

record ('p, 'n) signal_sys =
  sy_queue :: nat
  sy_hidden :: "'p \<Rightarrow> nat"
  sy_sig :: sig
  sy_notify :: 'n
  sy_mark :: "'p \<Rightarrow> mark_pc"
  sy_consumer :: consumer_pc

definition signal_new :: "'n \<Rightarrow> ('p, 'n) signal_sys" where
  "signal_new n = \<lparr>sy_queue = 0, sy_hidden = (\<lambda>_. 0), sy_sig = IDLE, sy_notify = n,
     sy_mark = (\<lambda>_. Mark_Done), sy_consumer = C_Ready\<rparr>"

definition locked :: "mark_pc \<Rightarrow> bool" where
  "locked pc = (case pc of Mark_Try _ \<Rightarrow> True | _ \<Rightarrow> False)"

inductive signal_step :: "bool \<Rightarrow> 'n notify \<Rightarrow> ('p, 'n) signal_sys \<Rightarrow> ('p, 'n) signal_sys \<Rightarrow> bool"
  for buffered :: bool and N :: "'n notify" where
  push: "sy_mark s p = Mark_Done \<Longrightarrow> signal_step buffered N s
    ((if buffered then s\<lparr>sy_hidden := (sy_hidden s)(p := Suc (sy_hidden s p))\<rparr> else s\<lparr>sy_queue := Suc (sy_queue s)\<rparr>)
       \<lparr>sy_mark := (sy_mark s)(p := Mark_Load)\<rparr>)"
| publish: "signal_step buffered N s
    (s\<lparr>sy_queue := sy_queue s + sy_hidden s p, sy_hidden := (sy_hidden s)(p := 0)\<rparr>)"
| mark: "mark_step spurious (sy_mark s p) (sy_sig s) = (pc, st) \<Longrightarrow> locked (sy_mark s p) \<longrightarrow> sy_hidden s p = 0
    \<Longrightarrow> signal_step buffered N s
      (s\<lparr>sy_mark := (sy_mark s)(p := pc), sy_sig := st,
         sy_notify := (if sy_mark s p = Mark_Notify then nf_notify_one N (sy_notify s) else sy_notify s)\<rparr>)"
| begin_drain: "sy_consumer s = C_Begin b \<Longrightarrow> begin_step b (sy_sig s) = (b', st)
    \<Longrightarrow> signal_step buffered N s (s\<lparr>sy_consumer := (if b' = Begin_Done then C_Take else C_Begin b'), sy_sig := st\<rparr>)"
| take: "sy_consumer s = C_Take \<or> sy_consumer s = C_Begin b \<Longrightarrow> 0 < sy_queue s
    \<Longrightarrow> signal_step buffered N s (s\<lparr>sy_queue := sy_queue s - 1\<rparr>)"
| check: "sy_consumer s = C_Take
    \<Longrightarrow> signal_step buffered N s (s\<lparr>sy_consumer := C_Clear (clear_start (sy_queue s = 0))\<rparr>)"
| skip: "sy_consumer s = C_Take \<Longrightarrow> 0 < sy_queue s
    \<Longrightarrow> signal_step buffered N s (s\<lparr>sy_consumer := C_Ready\<rparr>)"
| clear: "sy_consumer s = C_Clear c \<Longrightarrow> clear_step spurious c (sy_sig s) = (c', st)
    \<Longrightarrow> signal_step buffered N s
      (s\<lparr>sy_consumer := (if c' = Clear_Done then C_Ready else C_Clear c'), sy_sig := st,
         sy_notify := (if c = Rearm_Notify then nf_notify_one N (sy_notify s) else sy_notify s)\<rparr>)"
| ready: "sy_consumer s = C_Ready
    \<Longrightarrow> signal_step buffered N s (s\<lparr>sy_consumer := (if 0 < sy_queue s then C_Begin Begin_Load else C_Idle)\<rparr>)"
| wait: "sy_consumer s = C_Ready
    \<Longrightarrow> signal_step buffered N s (s\<lparr>sy_consumer := C_Enabled, sy_notify := nf_enable N (sy_notify s)\<rparr>)"
| idle: "sy_consumer s = C_Idle
    \<Longrightarrow> signal_step buffered N s
      (if sy_sig s \<noteq> IDLE then s\<lparr>sy_consumer := C_Begin Begin_Load\<rparr>
       else s\<lparr>sy_consumer := C_Enabled, sy_notify := nf_enable N (sy_notify s)\<rparr>)"
| enabled: "sy_consumer s = C_Enabled
    \<Longrightarrow> signal_step buffered N s
      (if sy_sig s \<noteq> IDLE then s\<lparr>sy_consumer := C_Ready, sy_notify := nf_drop N (sy_notify s)\<rparr>
       else s\<lparr>sy_consumer := C_Park\<rparr>)"
| wake: "sy_consumer s = C_Park \<Longrightarrow> nf_poll N (sy_notify s) = Some n
    \<Longrightarrow> signal_step buffered N s (s\<lparr>sy_consumer := C_Ready, sy_notify := n\<rparr>)"
| cancel: "sy_consumer s = C_Park
    \<Longrightarrow> signal_step buffered N s (s\<lparr>sy_consumer := C_Ready, sy_notify := nf_drop N (sy_notify s)\<rparr>)"

inductive signal_reach :: "bool \<Rightarrow> 'n notify \<Rightarrow> ('p, 'n) signal_sys \<Rightarrow> bool" for buffered N where
  reach_new: "signal_reach buffered N (signal_new n)"
| reach_step: "signal_reach buffered N s \<Longrightarrow> signal_step buffered N s t \<Longrightarrow> signal_reach buffered N t"

section \<open>No wake-up is lost when pushes are visible at once\<close>

definition marking :: "('p, 'n) signal_sys \<Rightarrow> bool" where
  "marking s \<longleftrightarrow> (\<exists>p. sy_mark s p = Mark_Load \<or> locked (sy_mark s p))"

definition clearing :: "consumer_pc \<Rightarrow> bool" where
  "clearing c \<longleftrightarrow> c = C_Clear Clear_Load \<or> (\<exists>s. c = C_Clear (Clear_Try s))"

definition try_seen :: "('p, 'n) signal_sys \<Rightarrow> bool" where
  "try_seen s \<longleftrightarrow> (\<forall>p x. sy_mark s p = Mark_Try x \<longrightarrow> x = IDLE \<or> x = DRAINING) \<and>
     (\<forall>x. sy_consumer s = C_Clear (Clear_Try x) \<longrightarrow> x = DRAINING)"

definition no_lost_item :: "('p, 'n) signal_sys \<Rightarrow> bool" where
  "no_lost_item s \<longleftrightarrow> sy_queue s = 0 \<or> marking s \<or>
     (sy_sig s \<noteq> IDLE \<and> (clearing (sy_consumer s) \<longrightarrow> sy_sig s \<noteq> DRAINING))"

definition no_lost_wake :: "'n notify \<Rightarrow> ('p, 'n) signal_sys \<Rightarrow> bool" where
  "no_lost_wake N s \<longleftrightarrow> (sy_consumer s = C_Park \<longrightarrow> sy_sig s = IDLE \<or>
     nf_poll N (sy_notify s) \<noteq> None \<or> (\<exists>p. sy_mark s p = Mark_Notify))"

definition unhidden :: "('p, 'n) signal_sys \<Rightarrow> bool" where
  "unhidden s \<longleftrightarrow> (\<forall>p. sy_hidden s p = 0)"

lemmas signal_defs = marking_def clearing_def try_seen_def no_lost_item_def no_lost_wake_def unhidden_def
  mark_at_def clear_at_def rearm_at_def clear_start_def locked_def

lemma unhidden_step:
  assumes "signal_step False N s t" and "unhidden s"
  shows "unhidden t"
  using assms by cases (auto simp: unhidden_def)

lemma try_seen_step:
  assumes "signal_step b N s t" and "try_seen s"
  shows "try_seen t"
  using assms(1)
proof cases
  case (mark spurious p pc st)
  then show ?thesis using assms(2)
    by (cases "sy_mark s p"; cases "sy_sig s") (auto simp: signal_defs split: if_splits)
next
  case (clear c spurious c' st)
  then show ?thesis using assms(2)
    by (cases c; cases "sy_sig s") (auto simp: signal_defs split: if_splits)
qed (use assms(2) in \<open>auto simp: try_seen_def clear_start_def\<close>)

lemma mark_step_marking:
  assumes "mark_step spurious pc st = (pc', st')" and "\<forall>x. pc = Mark_Try x \<longrightarrow> x = IDLE \<or> x = DRAINING"
  shows "pc' = Mark_Load \<or> locked pc' \<or> pc' = pc \<and> st' = st \<or> pc = Mark_Notify \<and> st' = st \<or>
    st' = PENDING \<or> st' = DIRTY"
  using assms by (cases pc; cases st) (auto simp: mark_at_def locked_def split: if_splits)

lemma no_lost_item_mark:
  assumes "no_lost_item s" and "try_seen s"
    and "mark_step spurious (sy_mark s p) (sy_sig s) = (pc, st)"
  shows "no_lost_item (s\<lparr>sy_mark := (sy_mark s)(p := pc), sy_sig := st, sy_notify := n\<rparr>)"
proof -
  have "pc = Mark_Load \<or> locked pc \<or> pc = sy_mark s p \<and> st = sy_sig s \<or>
      sy_mark s p = Mark_Notify \<and> st = sy_sig s \<or> st = PENDING \<or> st = DIRTY"
    using assms(2) by (intro mark_step_marking [OF assms(3)]) (simp add: try_seen_def)
  then show ?thesis
  proof (elim disjE)
    assume n: "sy_mark s p = Mark_Notify \<and> st = sy_sig s"
    then have "marking (s\<lparr>sy_mark := (sy_mark s)(p := pc), sy_sig := st, sy_notify := n\<rparr>)" if "marking s"
    proof -
      from that obtain q where q: "sy_mark s q = Mark_Load \<or> locked (sy_mark s q)"
        by (auto simp: marking_def)
      with n have "q \<noteq> p" by (auto simp: locked_def)
      with q show ?thesis unfolding marking_def by (intro exI [of _ q]) simp
    qed
    then show ?thesis using assms(1) n by (auto simp: no_lost_item_def)
  qed (use assms(1) in \<open>auto simp: no_lost_item_def marking_def\<close>)
qed

lemma no_lost_item_clear:
  assumes "no_lost_item s" and "try_seen s" and "sy_consumer s = C_Clear c"
    and "clear_step spurious c (sy_sig s) = (c', st)"
  shows "no_lost_item (s\<lparr>sy_consumer := (if c' = Clear_Done then C_Ready else C_Clear c'), sy_sig := st,
    sy_notify := n\<rparr>)"
  using assms by (cases c; cases "sy_sig s") (auto simp: signal_defs split: if_splits)

lemma no_lost_item_step:
  assumes "signal_step False N s t" and "no_lost_item s" and "try_seen s" and "unhidden s"
  shows "no_lost_item t"
  using assms(1)
proof cases
  case (push p)
  then show ?thesis by (auto simp: no_lost_item_def marking_def)
next
  case (publish p)
  then show ?thesis using assms(2,4) by (auto simp: no_lost_item_def marking_def unhidden_def)
next
  case (mark spurious p pc st)
  then show ?thesis using no_lost_item_mark [OF assms(2,3)] by auto
next
  case (begin_drain b b' st)
  then show ?thesis using assms(2)
    by (cases b) (auto simp: no_lost_item_def marking_def clearing_def split: if_splits)
next
  case (clear c spurious c' st)
  then show ?thesis using no_lost_item_clear [OF assms(2,3)] by auto
qed (use assms(2) in \<open>auto simp: no_lost_item_def marking_def clearing_def clear_start_def\<close>)

lemma no_lost_wake_mark:
  assumes "no_lost_wake N s" and "notify_laws N"
    and "mark_step spurious (sy_mark s p) (sy_sig s) = (pc, st)"
  shows "no_lost_wake N (s\<lparr>sy_mark := (sy_mark s)(p := pc), sy_sig := st,
    sy_notify := (if sy_mark s p = Mark_Notify then nf_notify_one N (sy_notify s) else sy_notify s)\<rparr>)"
proof (cases "sy_mark s p = Mark_Notify")
  case True
  then show ?thesis using assms(2) by (simp add: no_lost_wake_def notify_laws_def)
next
  case False
  have "st = sy_sig s \<or> sy_sig s \<noteq> IDLE \<or> pc = Mark_Notify"
    using assms(3) by (cases "sy_mark s p") (auto split: if_splits)
  then show ?thesis using assms(1) False by (auto simp: no_lost_wake_def)
qed

lemma no_lost_wake_step:
  assumes "signal_step b N s t" and "no_lost_wake N s" and "notify_laws N"
  shows "no_lost_wake N t"
  using assms(1)
proof cases
  case (push p)
  have "q \<noteq> p" if "sy_mark s q = Mark_Notify" for q
    using that push by auto
  then show ?thesis using assms(2) push by (auto simp: no_lost_wake_def)
next
  case (mark spurious p pc st)
  then show ?thesis using no_lost_wake_mark [OF assms(2,3)] by auto
qed (use assms(2) in \<open>auto simp: no_lost_wake_def\<close>)

text \<open>
  C12.  No wake-up is lost.  However the accesses of any number of producers and
  of the consumer interleave, when a push is visible to the consumer at once (a
  queue behind a mutex), a state in which the consumer is parked, no producer is
  inside \<^verbatim>\<open>mark\<close> and items are queued is a state in which the consumer's wait
  completes; and a parked consumer whose signal word is not \<^verbatim>\<open>IDLE\<close> is woken or
  about to be.
\<close>

theorem no_lost_wakeup:
  assumes reach: "signal_reach False N s" and laws: "notify_laws N"
    and parked: "sy_consumer s = C_Park"
  shows "(0 < sy_queue s \<and> (\<forall>p. sy_mark s p = Mark_Done) \<longrightarrow>
            (\<exists>n. nf_poll N (sy_notify s) = Some n)) \<and>
         (sy_sig s \<noteq> IDLE \<longrightarrow> (\<exists>n. nf_poll N (sy_notify s) = Some n) \<or> (\<exists>p. sy_mark s p = Mark_Notify))"
proof -
  have "unhidden s \<and> try_seen s \<and> no_lost_item s \<and> no_lost_wake N s"
    using reach
  proof induction
    case (reach_new n)
    then show ?case by (simp add: signal_defs signal_new_def)
  next
    case (reach_step s t)
    then show ?case
      using unhidden_step try_seen_step no_lost_item_step no_lost_wake_step laws by blast
  qed
  then show ?thesis using parked
    by (auto simp: no_lost_item_def no_lost_wake_def marking_def locked_def)
qed

section \<open>A wake-up can be lost when a push becomes visible late\<close>

definition flag_notify :: "bool notify" where
  "flag_notify = \<lparr>nf_notify_one = (\<lambda>_. True), nf_enable = (\<lambda>b. b),
     nf_poll = (\<lambda>b. if b then Some False else None), nf_drop = (\<lambda>b. b)\<rparr>"

definition signal_at :: "nat \<Rightarrow> nat \<Rightarrow> sig \<Rightarrow> bool \<Rightarrow> mark_pc \<Rightarrow> consumer_pc \<Rightarrow> (unit, bool) signal_sys" where
  "signal_at q h st n m c = \<lparr>sy_queue = q, sy_hidden = (\<lambda>_. h), sy_sig = st, sy_notify = n,
     sy_mark = (\<lambda>_. m), sy_consumer = c\<rparr>"

lemma unit_upd: "f(() := x) = (\<lambda>_. x)"
  by auto

lemma at_hidden_push:
  "signal_reach True flag_notify (signal_at q h st n Mark_Done c)
    \<Longrightarrow> signal_reach True flag_notify (signal_at q (Suc h) st n Mark_Load c)"
  by (drule reach_step, rule signal_step.push [where p = "()"])
     (simp_all add: signal_at_def flag_notify_def unit_upd)

lemma at_push:
  "signal_reach False flag_notify (signal_at q h st n Mark_Done c)
    \<Longrightarrow> signal_reach False flag_notify (signal_at (Suc q) h st n Mark_Load c)"
  by (drule reach_step, rule signal_step.push [where p = "()"])
     (simp_all add: signal_at_def flag_notify_def unit_upd)

lemma at_publish:
  "signal_reach b flag_notify (signal_at q h st n m c)
    \<Longrightarrow> signal_reach b flag_notify (signal_at (q + h) 0 st n m c)"
  by (drule reach_step, rule signal_step.publish [where p = "()"])
     (simp_all add: signal_at_def flag_notify_def unit_upd)

lemma at_mark:
  "signal_reach b flag_notify (signal_at q h st n m c) \<Longrightarrow> mark_step False m st = (m', st') \<Longrightarrow> locked m \<longrightarrow> h = 0
    \<Longrightarrow> signal_reach b flag_notify (signal_at q h st' (n \<or> m = Mark_Notify) m' c)"
  by (drule reach_step, rule signal_step.mark [where p = "()" and spurious = False])
     (auto simp: signal_at_def flag_notify_def unit_upd split: if_splits)

lemma at_begin:
  "signal_reach b flag_notify (signal_at q h st n m (C_Begin x)) \<Longrightarrow> begin_step x st = (x', st')
    \<Longrightarrow> signal_reach b flag_notify (signal_at q h st' n m (if x' = Begin_Done then C_Take else C_Begin x'))"
  by (drule reach_step, rule signal_step.begin_drain)
     (simp_all add: signal_at_def flag_notify_def unit_upd)

lemma at_take:
  "signal_reach b flag_notify (signal_at (Suc q) h st n m C_Take)
    \<Longrightarrow> signal_reach b flag_notify (signal_at q h st n m C_Take)"
  by (drule reach_step, rule signal_step.take)
     (simp_all add: signal_at_def flag_notify_def unit_upd)

lemma at_check:
  "signal_reach b flag_notify (signal_at q h st n m C_Take)
    \<Longrightarrow> signal_reach b flag_notify (signal_at q h st n m (C_Clear (clear_start (q = 0))))"
  by (drule reach_step, rule signal_step.check)
     (simp_all add: signal_at_def flag_notify_def unit_upd)

lemma at_clear:
  "signal_reach b flag_notify (signal_at q h st n m (C_Clear c)) \<Longrightarrow> clear_step False c st = (c', st')
    \<Longrightarrow> signal_reach b flag_notify (signal_at q h st' (n \<or> c = Rearm_Notify) m (if c' = Clear_Done then C_Ready else C_Clear c'))"
  by (drule reach_step, rule signal_step.clear [where spurious = False])
     (auto simp: signal_at_def flag_notify_def unit_upd split: if_splits)

lemma at_ready:
  "signal_reach b flag_notify (signal_at q h st n m C_Ready)
    \<Longrightarrow> signal_reach b flag_notify (signal_at q h st n m (if 0 < q then C_Begin Begin_Load else C_Idle))"
  by (drule reach_step, rule signal_step.ready)
     (simp_all add: signal_at_def flag_notify_def unit_upd)

lemma at_idle:
  "signal_reach b flag_notify (signal_at q h st n m C_Idle)
    \<Longrightarrow> signal_reach b flag_notify (signal_at q h st n m (if st \<noteq> IDLE then C_Begin Begin_Load else C_Enabled))"
  by (drule reach_step, rule signal_step.idle)
     (auto simp: signal_at_def flag_notify_def unit_upd split: if_splits)

lemma at_enabled:
  "signal_reach b flag_notify (signal_at q h IDLE n m C_Enabled)
    \<Longrightarrow> signal_reach b flag_notify (signal_at q h IDLE n m C_Park)"
  by (drule reach_step, rule signal_step.enabled)
     (simp_all add: signal_at_def flag_notify_def unit_upd)

lemma at_wake:
  "signal_reach b flag_notify (signal_at q h st True m C_Park)
    \<Longrightarrow> signal_reach b flag_notify (signal_at q h st False m C_Ready)"
  by (drule reach_step, rule signal_step.wake)
     (simp_all add: signal_at_def flag_notify_def unit_upd)

lemma at_new: "signal_reach b flag_notify (signal_at 0 0 IDLE False Mark_Done C_Ready)"
  using reach_new [of b flag_notify False] by (simp add: signal_new_def signal_at_def)

theorem no_lost_wakeup_witness:
  "\<exists>n. nf_poll flag_notify (sy_notify (signal_at 1 0 PENDING True Mark_Done C_Park)) = Some n"
proof -
  have "signal_reach False flag_notify (signal_at 0 0 IDLE False Mark_Done C_Park)"
    using at_enabled [of False 0 0 False Mark_Done] at_idle [of False 0 0 IDLE False Mark_Done]
      at_ready [OF at_new, of False] by simp
  from at_push [OF this]
  have "signal_reach False flag_notify (signal_at 1 0 IDLE False (Mark_Try IDLE) C_Park)"
    using at_mark [of False 1 0 IDLE False Mark_Load C_Park "Mark_Try IDLE" IDLE]
    by (simp add: mark_at_def locked_def)
  then have "signal_reach False flag_notify (signal_at 1 0 PENDING False Mark_Notify C_Park)"
    using at_mark [of False 1 0 IDLE False "Mark_Try IDLE" C_Park Mark_Notify PENDING] by simp
  then have "signal_reach False flag_notify (signal_at 1 0 PENDING True Mark_Done C_Park)"
    using at_mark [of False 1 0 PENDING False Mark_Notify C_Park Mark_Done PENDING]
    by (simp add: locked_def)
  from no_lost_wakeup [OF this] show ?thesis
    by (simp add: notify_laws_def flag_notify_def signal_at_def)
qed

text \<open>
  The send pipe publishes with a release store and \<^verbatim>\<open>mark\<close> returns on an acquire
  load that finds \<^verbatim>\<open>PENDING\<close>.  Nothing orders the two for the consumer, so the store
  may become visible after the consumer has taken the signal to \<^verbatim>\<open>DRAINING\<close>, seen an
  empty ring and cleared: the item is queued, the producer is done, and the
  consumer is parked without a notification.
\<close>

lemma second_push_unnoticed:
  "signal_reach True flag_notify (signal_at 1 1 PENDING True Mark_Done (C_Begin Begin_Try))"
proof -
  have "signal_reach True flag_notify (signal_at 1 0 IDLE False (Mark_Try IDLE) C_Ready)"
    using at_mark [OF at_publish [OF at_hidden_push [OF at_new]], of "Mark_Try IDLE" IDLE]
    by (simp add: mark_at_def locked_def)
  then have "signal_reach True flag_notify (signal_at 1 0 PENDING False Mark_Notify C_Ready)"
    using at_mark [of True 1 0 IDLE False "Mark_Try IDLE" C_Ready Mark_Notify PENDING] by simp
  then have "signal_reach True flag_notify (signal_at 1 0 PENDING True Mark_Done C_Ready)"
    using at_mark [of True 1 0 PENDING False Mark_Notify C_Ready Mark_Done PENDING]
    by (simp add: locked_def)
  then have "signal_reach True flag_notify (signal_at 1 0 PENDING True Mark_Done (C_Begin Begin_Try))"
    using at_ready [of True 1 0 PENDING True Mark_Done]
      at_begin [of True 1 0 PENDING True Mark_Done Begin_Load Begin_Try PENDING] by simp
  from at_hidden_push [OF this] show ?thesis
    using at_mark [of True 1 1 PENDING True Mark_Load "C_Begin Begin_Try" Mark_Done PENDING]
    by (simp add: mark_at_def locked_def)
qed

theorem wakeup_lost_when_buffered:
  "notify_laws flag_notify \<and>
   (\<exists>s :: (unit, bool) signal_sys. signal_reach True flag_notify s \<and> sy_consumer s = C_Park \<and>
      0 < sy_queue s \<and> (\<forall>p. sy_mark s p = Mark_Done \<and> sy_hidden s p = 0) \<and>
      nf_poll flag_notify (sy_notify s) = None)"
proof -
  have "signal_reach True flag_notify (signal_at 0 1 DRAINING True Mark_Done C_Take)"
    using at_begin [OF second_push_unnoticed, of Begin_Done DRAINING] at_take [of True 0] by simp
  from at_check [OF this]
  have "signal_reach True flag_notify (signal_at 0 1 DRAINING True Mark_Done (C_Clear (Clear_Try DRAINING)))"
    using at_clear [of True 0 1 DRAINING True Mark_Done Clear_Load "Clear_Try DRAINING" DRAINING]
    by (simp add: clear_start_def clear_at_def)
  then have "signal_reach True flag_notify (signal_at 0 1 IDLE True Mark_Done C_Ready)"
    using at_clear [of True 0 1 DRAINING True Mark_Done "Clear_Try DRAINING" Clear_Done IDLE] by simp
  then have "signal_reach True flag_notify (signal_at 0 1 IDLE False Mark_Done C_Ready)"
    using at_wake [of True 0 1 IDLE Mark_Done] at_enabled [of True 0 1 True Mark_Done]
      at_idle [of True 0 1 IDLE True Mark_Done] at_ready [of True 0 1 IDLE True Mark_Done] by simp
  then have "signal_reach True flag_notify (signal_at 0 1 IDLE False Mark_Done C_Park)"
    using at_enabled [of True 0 1 False Mark_Done] at_idle [of True 0 1 IDLE False Mark_Done]
      at_ready [of True 0 1 IDLE False Mark_Done] by simp
  from at_publish [OF this] show ?thesis
    by (intro conjI exI [of _ "signal_at 1 0 IDLE False Mark_Done C_Park"])
      (simp_all add: notify_laws_def flag_notify_def signal_at_def)
qed

text \<open>Run to the end without interference, the step machines are the plain functions.\<close>

lemma mark_alone:
  "\<exists>k. ((\<lambda>(pc, st). mark_step False pc st) ^^ k) (Mark_Load, st) = (Mark_Done, fst (sig_mark st))"
  by (cases st)
    (auto simp: sig_mark_def mark_at_def numeral_2_eq_2 numeral_3_eq_3
       intro: exI [of _ 1] exI [of _ 2] exI [of _ 3])

lemma clear_alone:
  "\<exists>k. ((\<lambda>(pc, st). clear_step False pc st) ^^ k) (clear_start e, st) = (Clear_Done, fst (sig_clear_after e st))"
  by (cases st; cases e)
    (auto simp: sig_clear_after_def sig_rearm_def clear_start_def clear_at_def rearm_at_def eval_nat_numeral
       intro: exI [of _ 1] exI [of _ 2] exI [of _ 3] exI [of _ 4])

end
