(* ===== verification/Transmit_Slot.thy ===== *)
theory Transmit_Slot
  imports Fan_Out_Frame Data_Signal
begin

text \<open>
  The per-peer send queue \<^verbatim>\<open>omq-tokio/src/engine/transmit_slot.rs\<close> and the policy
  \<^verbatim>\<open>omq-proto/src/handle_frame.rs\<close> that decides whether a sender may encode into it.

  Each method is one step on the slot.  The wake-ups it makes are counted:
  \<open>ts_notified\<close> for the data signal, \<open>ts_changed\<close> for the space signal and
  \<open>ts_callbacks\<close> for the fan-out reactivation callback.
\<close>

section \<open>The policy\<close>

record handle_frame_caps =
  hc_byte_cap :: nat
  hc_message_cap :: nat

record handle_frame_state =
  hs_uses_crypto :: bool
  hs_handshake_done :: bool
  hs_has_transform :: bool
  hs_passthrough :: "(bytes \<times> nat) option"
  hs_is_ws :: bool
  hs_queued_bytes :: nat
  hs_queued_messages :: nat

datatype handle_frame_decision =
  Plain_Frame | Web_Socket | Transform_Passthrough bytes | Frame_Full | Frame_Ineligible

definition decide_handle_frame :: "handle_frame_state \<Rightarrow> handle_frame_caps \<Rightarrow> message \<Rightarrow> handle_frame_decision" where
  "decide_handle_frame st caps msg =
     (if hs_uses_crypto st \<or> \<not> hs_handshake_done st then Frame_Ineligible
      else if hc_byte_cap caps \<le> hs_queued_bytes st \<or> hc_message_cap caps \<le> hs_queued_messages st then Frame_Full
      else if hs_is_ws st then if hs_has_transform st then Frame_Ineligible else Web_Socket
      else if \<not> hs_has_transform st then Plain_Frame
      else case hs_passthrough st of
             Some (sentinel, threshold) \<Rightarrow>
               if list_all (\<lambda>part. length part < threshold) (iter_slices msg)
               then Transform_Passthrough sentinel else Frame_Ineligible
           | None \<Rightarrow> Frame_Ineligible)"

definition can_push_pre_framed :: "handle_frame_state \<Rightarrow> handle_frame_caps \<Rightarrow> bool" where
  "can_push_pre_framed st caps \<longleftrightarrow> \<not> hs_uses_crypto st \<and> hs_handshake_done st \<and> \<not> hs_has_transform st \<and>
     \<not> hs_is_ws st \<and> hs_queued_bytes st < hc_byte_cap caps \<and> hs_queued_messages st < hc_message_cap caps"

section \<open>The slot\<close>

datatype try_frame_result = TF_Ok | TF_Dead | TF_Full | TF_Ineligible

record transmit_slot =
  ts_eq :: frame_buffer
  ts_cap :: nat
  ts_msg_cap :: nat
  ts_sig :: sig
  ts_handshake_done :: bool
  ts_has_transform :: bool
  ts_passthrough :: "(bytes \<times> nat) option"
  ts_is_ws :: bool
  ts_ws_masked :: bool
  ts_dead :: bool
  ts_queued :: nat
  ts_dict_queued :: bool
  ts_dict_shipped :: bool
  ts_fanout_active :: bool
  ts_above_lwm :: bool
  ts_reactivation :: bool
  ts_notified :: nat
  ts_changed :: nat
  ts_callbacks :: nat

definition TRANSMIT_SLOT_LWM_DIVISOR :: nat where "TRANSMIT_SLOT_LWM_DIVISOR = 2"

definition slot_new :: "bool \<Rightarrow> (bytes \<times> nat) option \<Rightarrow> nat \<Rightarrow> nat \<Rightarrow> nat \<Rightarrow> bool \<Rightarrow> bool \<Rightarrow> transmit_slot" where
  "slot_new has_transform passthrough arena_threshold cap msg_cap is_ws ws_masked =
     \<lparr>ts_eq = with_config arena_threshold, ts_cap = cap, ts_msg_cap = max msg_cap 1, ts_sig = IDLE,
      ts_handshake_done = False, ts_has_transform = has_transform, ts_passthrough = passthrough,
      ts_is_ws = is_ws, ts_ws_masked = ws_masked, ts_dead = False, ts_queued = 0,
      ts_dict_queued = False, ts_dict_shipped = False, ts_fanout_active = True, ts_above_lwm = False,
      ts_reactivation = False, ts_notified = 0, ts_changed = 0, ts_callbacks = 0\<rparr>"

definition slot_is_below_lwm :: "nat \<Rightarrow> nat \<Rightarrow> transmit_slot \<Rightarrow> bool" where
  "slot_is_below_lwm queued_bytes queued_messages s \<longleftrightarrow>
     queued_bytes \<le> ts_cap s div TRANSMIT_SLOT_LWM_DIVISOR \<and>
     queued_messages \<le> ts_msg_cap s div TRANSMIT_SLOT_LWM_DIVISOR"

definition mark_above_lwm_if_needed :: "transmit_slot \<Rightarrow> transmit_slot" where
  "mark_above_lwm_if_needed s =
     (if slot_is_below_lwm (fb_total (ts_eq s)) (ts_queued s) s then s else s\<lparr>ts_above_lwm := True\<rparr>)"

definition slot_is_full :: "transmit_slot \<Rightarrow> bool" where
  "slot_is_full s \<longleftrightarrow> ts_cap s \<le> fb_total (ts_eq s) \<or> ts_msg_cap s \<le> ts_queued s"

definition signal_encoded :: "transmit_slot \<Rightarrow> transmit_slot" where
  "signal_encoded s = (case sig_mark (ts_sig s) of
     (st, woke) \<Rightarrow> s\<lparr>ts_sig := st, ts_notified := ts_notified s + of_bool woke\<rparr>)"

text \<open>What every accepted message does to the counters.\<close>

definition slot_count :: "frame_buffer \<Rightarrow> transmit_slot \<Rightarrow> transmit_slot" where
  "slot_count eq s = mark_above_lwm_if_needed (s\<lparr>ts_eq := eq, ts_queued := ts_queued s + 1\<rparr>)"

definition slot_decision :: "transmit_slot \<Rightarrow> message \<Rightarrow> handle_frame_decision" where
  "slot_decision s msg =
     decide_handle_frame
       \<lparr>hs_uses_crypto = False, hs_handshake_done = True, hs_has_transform = ts_has_transform s,
        hs_passthrough = ts_passthrough s, hs_is_ws = ts_is_ws s,
        hs_queued_bytes = fb_total (ts_eq s), hs_queued_messages = ts_queued s\<rparr>
       \<lparr>hc_byte_cap = ts_cap s, hc_message_cap = ts_msg_cap s\<rparr> msg"

definition try_encode :: "message \<Rightarrow> rng \<Rightarrow> transmit_slot \<Rightarrow> transmit_slot \<times> rng \<times> try_frame_result" where
  "try_encode msg r s =
     (if ts_dead s then (s, r, TF_Dead)
      else if \<not> ts_handshake_done s then (s, r, TF_Ineligible)
      else case slot_decision s msg of
             Frame_Full \<Rightarrow> (s\<lparr>ts_above_lwm := True\<rparr>, r, TF_Full)
           | Frame_Ineligible \<Rightarrow> (s, r, TF_Ineligible)
           | Plain_Frame \<Rightarrow> (signal_encoded (slot_count (frame_message msg (ts_eq s)) s), r, TF_Ok)
           | Transform_Passthrough sentinel \<Rightarrow>
               (signal_encoded (slot_count (frame_prefixed sentinel msg (ts_eq s)) s), r, TF_Ok)
           | Web_Socket \<Rightarrow>
               (case frame_ws msg (ts_ws_masked s) r (ts_eq s) of
                  (eq, r) \<Rightarrow> (signal_encoded (slot_count eq s), r, TF_Ok)))"

definition try_push_encoded :: "bytes list \<Rightarrow> transmit_slot \<Rightarrow> transmit_slot \<times> try_frame_result" where
  "try_push_encoded chunks s =
     (if ts_dead s then (s, TF_Dead)
      else if ts_msg_cap s \<le> ts_queued s \<or>
              (0 < ts_queued s \<and> ts_cap s \<le> sat_add (fb_total (ts_eq s)) (length (concat chunks)))
      then (s\<lparr>ts_above_lwm := True\<rparr>, TF_Full)
      else (signal_encoded (slot_count (push_shared_chunks chunks (ts_eq s)) s), TF_Ok))"

definition try_push_pre_framed_no_signal :: "bytes \<Rightarrow> transmit_slot \<Rightarrow> transmit_slot \<times> try_frame_result" where
  "try_push_pre_framed_no_signal data s =
     (if ts_dead s then (s, TF_Dead)
      else if slot_is_full s then (s\<lparr>ts_above_lwm := True\<rparr>, TF_Full)
      else (slot_count (push_pre_framed data (ts_eq s)) s, TF_Ok))"

text \<open>
  The eviction loop, with the local copy of the message count; \<open>None\<close> is the early
  return when only protected entries are left.
\<close>

fun evict_oldest :: "transmit_slot \<Rightarrow> nat \<Rightarrow> nat \<Rightarrow> frame_buffer \<Rightarrow> frame_buffer \<times> nat option" where
  "evict_oldest s len 0 eq = (eq, Some 0)"
| "evict_oldest s len (Suc q) eq =
     (if ts_cap s \<le> sat_add (fb_total eq) len \<or> ts_msg_cap s \<le> Suc q
      then case pop_oldest_unprotected_entry eq of
             (eq, popped) \<Rightarrow> if popped then evict_oldest s len q eq else (eq, None)
      else (eq, Some (Suc q)))"

definition try_push_fanout_drop_oldest :: "fan_out_frame \<Rightarrow> bool \<Rightarrow> transmit_slot \<Rightarrow> transmit_slot \<times> try_frame_result" where
  "try_push_fanout_drop_oldest f prot s =
     (if ts_dead s then (s, TF_Dead)
      else let chunk = fanout_frame_chunk f
      in case evict_oldest s (length chunk) (ts_queued s) (ts_eq s) of
           (eq, None) \<Rightarrow> (s\<lparr>ts_eq := eq, ts_above_lwm := True\<rparr>, TF_Full)
         | (eq, Some q) \<Rightarrow>
             (let s = s\<lparr>ts_eq := push_raw_with_protection [chunk] prot eq,
                        ts_dict_queued := (prot \<or> ts_dict_queued s), ts_queued := q + 1\<rparr>
              in (signal_encoded (mark_above_lwm_if_needed s), TF_Ok)))"

definition fanout_dict_queued_or_shipped :: "transmit_slot \<Rightarrow> bool" where
  "fanout_dict_queued_or_shipped s \<longleftrightarrow> ts_dict_queued s \<or> ts_dict_shipped s"

definition mark_fanout_dict_shipped :: "transmit_slot \<Rightarrow> transmit_slot" where
  "mark_fanout_dict_shipped s = s\<lparr>ts_dict_queued := False, ts_dict_shipped := True\<rparr>"

definition deactivate_fanout :: "transmit_slot \<Rightarrow> transmit_slot \<times> bool" where
  "deactivate_fanout s = (s\<lparr>ts_fanout_active := False\<rparr>, ts_fanout_active s)"

definition set_fanout_reactivation :: "transmit_slot \<Rightarrow> transmit_slot" where
  "set_fanout_reactivation s = s\<lparr>ts_reactivation := True\<rparr>"

definition slot_begin_drain :: "transmit_slot \<Rightarrow> transmit_slot" where
  "slot_begin_drain s = s\<lparr>ts_sig := sig_begin_drain (ts_sig s)\<rparr>"

definition clear_data_signal_and_rearm :: "transmit_slot \<Rightarrow> transmit_slot" where
  "clear_data_signal_and_rearm s = (case sig_clear_after (fb_is_empty (ts_eq s)) (ts_sig s) of
     (st, woke) \<Rightarrow> s\<lparr>ts_sig := st, ts_notified := ts_notified s + of_bool woke\<rparr>)"

text \<open>How every drain ends: announce the space and reactivate fan-out below the mark.\<close>

definition announce_space :: "nat \<Rightarrow> nat \<Rightarrow> transmit_slot \<Rightarrow> transmit_slot \<times> bool" where
  "announce_space eq_bytes queued_msgs s =
     (if slot_is_below_lwm eq_bytes queued_msgs s
      then (s\<lparr>ts_above_lwm := False, ts_fanout_active := True,
              ts_callbacks := ts_callbacks s + of_bool (\<not> ts_fanout_active s \<and> ts_reactivation s)\<rparr>,
            ts_above_lwm s)
      else (s, False))"

definition try_drain_arena_only :: "transmit_slot \<Rightarrow> (transmit_slot \<times> bytes \<times> bool) option" where
  "try_drain_arena_only s =
     (if \<not> has_arena_only (ts_eq s) then None
      else let out = fb_arena (ts_eq s);
               s = slot_begin_drain (s\<lparr>ts_eq := clear_arena (ts_eq s)\<rparr>);
               s = clear_data_signal_and_rearm (s\<lparr>ts_queued := 0\<rparr>)
           in case announce_space 0 0 s of (s, space) \<Rightarrow> Some (s, out, space))"

text \<open>
  \<open>n\<close> is what the direct writer took of the arena, none when it failed; the slot
  then clears its signal or reschedules the consumer.
\<close>

definition slot_after_write :: "transmit_slot \<Rightarrow> transmit_slot" where
  "slot_after_write s =
     (if fb_is_empty (ts_eq s) then clear_data_signal_and_rearm (s\<lparr>ts_queued := 0\<rparr>)
      else s\<lparr>ts_notified := ts_notified s + 1\<rparr>)"

definition slot_write :: "nat \<Rightarrow> transmit_slot \<Rightarrow> transmit_slot" where
  "slot_write n s = slot_begin_drain (if 0 < n then s\<lparr>ts_eq := advance_arena n (ts_eq s)\<rparr> else s)"

definition try_direct_write_arena_only :: "nat option \<Rightarrow> transmit_slot \<Rightarrow> transmit_slot \<times> bool option" where
  "try_direct_write_arena_only n s =
     (if \<not> has_arena_only (ts_eq s) then (s, Some False)
      else case n of
             None \<Rightarrow> (s, None)
           | Some n \<Rightarrow>
               (let eq_bytes = fb_total (ts_eq (slot_write n s));
                    s = slot_after_write (slot_write n s)
                in case announce_space eq_bytes (ts_queued s) s of
                     (s, space) \<Rightarrow> (s\<lparr>ts_changed := ts_changed s + of_bool space\<rparr>, Some True)))"

text \<open>The bookkeeping of a drain that handed out \<open>n\<close> chunks, \<open>prot\<close> of them protected.\<close>

definition slot_drained :: "frame_buffer \<Rightarrow> nat \<Rightarrow> nat \<Rightarrow> transmit_slot \<Rightarrow> transmit_slot" where
  "slot_drained eq n prot s =
     (let s = slot_begin_drain (s\<lparr>ts_eq := eq\<rparr>);
          s = (if 0 < prot then mark_fanout_dict_shipped s else s);
          s = s\<lparr>ts_queued := ts_queued s - n\<rparr>
      in if fb_is_empty eq then clear_data_signal_and_rearm (s\<lparr>ts_queued := 0\<rparr>) else s)"

definition slot_drain :: "nat \<Rightarrow> transmit_slot \<Rightarrow> (transmit_slot \<times> bytes list \<times> bool) result" where
  "slot_drain max_chunks s =
     rbind (fb_drain max_chunks (ts_eq s)) (\<lambda>(eq, bs, prot).
       let s = slot_drained eq (length bs) prot s
       in case announce_space (fb_total eq) (ts_queued s) s of (s, space) \<Rightarrow> Ok (s, bs, space))"

definition slot_mark_dead :: "transmit_slot \<Rightarrow> transmit_slot" where
  "slot_mark_dead s =
     s\<lparr>ts_dead := True, ts_eq := one_shot, ts_queued := 0, ts_dict_queued := False,
       ts_dict_shipped := False, ts_fanout_active := False, ts_above_lwm := False,
       ts_sig := PENDING, ts_changed := ts_changed s + 1\<rparr>"

section \<open>The slot is a byte queue with back-pressure\<close>

definition slot_bytes :: "transmit_slot \<Rightarrow> message \<Rightarrow> rng \<Rightarrow> bytes" where
  "slot_bytes s msg r =
     (case slot_decision s msg of
        Plain_Frame \<Rightarrow> wire (parts msg)
      | Transform_Passthrough pre \<Rightarrow> wire (map ((@) pre) (parts msg))
      | Web_Socket \<Rightarrow> wire_ws msg (ts_ws_masked s) r
      | _ \<Rightarrow> [])"

definition slot_room :: "nat \<Rightarrow> bytes \<Rightarrow> transmit_slot \<Rightarrow> bool" where
  "slot_room B x s \<longleftrightarrow> length x \<le> B \<and> length (fb_arena (ts_eq s)) + length x < 2 ^ 32"

text \<open>
  Any use of a slot until it dies: \<open>A\<close> is all that was accepted, \<open>W\<close> what was drained,
  \<open>R\<close> tells that a sender was refused for lack of space and none was announced since,
  \<open>U\<close> that pre-framed data was pushed and not signalled yet, and \<open>enc\<close> whether
  encoded chunks are pushed at all.  No message takes more than \<open>B\<close> bytes and the
  arena stays below the range of its 32-bit offsets.
\<close>

inductive slot_trace :: "bool \<Rightarrow> nat \<Rightarrow> bytes \<Rightarrow> bytes \<Rightarrow> bool \<Rightarrow> bool \<Rightarrow> transmit_slot \<Rightarrow> bool" for enc B where
  st_new: "(\<And>pre n. pt = Some (pre, n) \<Longrightarrow> pre \<noteq> [])
    \<Longrightarrow> slot_trace enc B [] [] False False (slot_new tr pt th cap mc ws masked)"
| st_handshake: "slot_trace enc B A W R U s \<Longrightarrow> slot_trace enc B A W R U (s\<lparr>ts_handshake_done := True\<rparr>)"
| st_encode: "slot_trace enc B A W R U s \<Longrightarrow> message_wf m \<Longrightarrow> slot_room B (slot_bytes s m r) s
    \<Longrightarrow> try_encode m r s = (s', r', res)
    \<Longrightarrow> slot_trace enc B (if res = TF_Ok then A @ slot_bytes s m r else A) W (R \<or> res = TF_Full)
          (U \<and> res \<noteq> TF_Ok) s'"
| st_push: "slot_trace enc B A W R U s \<Longrightarrow> enc \<Longrightarrow> [] \<notin> set bs \<Longrightarrow> slot_room B (concat bs) s
    \<Longrightarrow> try_push_encoded bs s = (s', res)
    \<Longrightarrow> slot_trace enc B (if res = TF_Ok then A @ concat bs else A) W (R \<or> res = TF_Full)
          (U \<and> res \<noteq> TF_Ok) s'"
| st_framed: "slot_trace enc B A W R U s \<Longrightarrow> slot_room B data s
    \<Longrightarrow> try_push_pre_framed_no_signal data s = (s', res)
    \<Longrightarrow> slot_trace enc B (if res = TF_Ok then A @ data else A) W (R \<or> res = TF_Full)
          (U \<or> res = TF_Ok) s'"
| st_signal: "slot_trace enc B A W R U s \<Longrightarrow> slot_trace enc B A W R False (signal_encoded s)"
| st_drain: "slot_trace enc B A W R U s \<Longrightarrow> slot_drain k s = Ok (s', bs, space)
    \<Longrightarrow> slot_trace enc B A (W @ concat bs) (R \<and> \<not> space) U s'"
| st_arena: "slot_trace enc B A W R U s \<Longrightarrow> try_drain_arena_only s = Some (s', out, space)
    \<Longrightarrow> slot_trace enc B A (W @ out) (R \<and> \<not> space) U s'"
| st_direct: "slot_trace enc B A W R U s \<Longrightarrow> has_arena_only (ts_eq s)
    \<Longrightarrow> try_direct_write_arena_only (Some n) s = (s', x)
    \<Longrightarrow> slot_trace enc B A (W @ take n (fb_arena (ts_eq s))) (R \<and> ts_changed s' = ts_changed s) U s'"

definition slot_ok :: "bool \<Rightarrow> nat \<Rightarrow> bytes \<Rightarrow> bytes \<Rightarrow> bool \<Rightarrow> bool \<Rightarrow> transmit_slot \<Rightarrow> bool" where
  "slot_ok enc B A W R U s \<longleftrightarrow>
     fb_inv (ts_eq s) \<and> fb_solid (ts_eq s) \<and> length (fb_arena (ts_eq s)) < 2 ^ 32 \<and>
     W @ fb_view (ts_eq s) = A \<and> ts_queued s \<le> ts_msg_cap s \<and>
     (fb_view (ts_eq s) \<noteq> [] \<and> \<not> U \<longrightarrow> ts_sig s \<noteq> IDLE) \<and> (R \<longrightarrow> ts_above_lwm s) \<and>
     (\<not> enc \<longrightarrow> fb_total (ts_eq s) \<le> ts_cap s + B) \<and>
     (\<forall>pre n. ts_passthrough s = Some (pre, n) \<longrightarrow> pre \<noteq> [])"

lemma slot_ok_refuse:
  "slot_ok enc B A W R U s \<Longrightarrow> slot_ok enc B A W R' U (s\<lparr>ts_above_lwm := True\<rparr>)"
  by (simp add: slot_ok_def)

lemma slot_ok_signal:
  "slot_ok enc B A W R U s \<Longrightarrow> slot_ok enc B A W R False (signal_encoded s)"
  by (cases "ts_sig s") (auto simp: slot_ok_def signal_encoded_def sig_mark_def)

lemma slot_ok_append:
  assumes "slot_ok enc B A W R U s" and "fb_appends (ts_eq s) x eq" and "fb_solid eq"
    and "slot_room B x s" and "ts_queued s < ts_msg_cap s" and "enc \<or> fb_total (ts_eq s) \<le> ts_cap s"
  shows "slot_ok enc B (A @ x) W R True (slot_count eq s)"
proof -
  have "fb_total eq = fb_total (ts_eq s) + length x" "length (fb_arena eq) < 2 ^ 32"
    "W @ fb_view eq = A @ x" "fb_inv eq"
    using assms(1,2,4) by (auto simp: slot_ok_def fb_appends_def fb_inv_def slot_room_def)
  then show ?thesis using assms
    by (auto simp: slot_ok_def slot_count_def mark_above_lwm_if_needed_def slot_room_def)
qed

lemma slot_ok_take:
  assumes "slot_ok enc B A W R U s" and "fb_inv eq" "fb_solid eq" "fb_view (ts_eq s) = x @ fb_view eq"
    and "length (fb_arena eq) < 2 ^ 32"
  shows "slot_ok enc B A (W @ x) R U (slot_begin_drain (s\<lparr>ts_eq := eq\<rparr>))"
proof -
  have "fb_total eq \<le> fb_total (ts_eq s)"
    using assms(1,2,4) by (simp add: slot_ok_def fb_inv_def)
  then show ?thesis using assms
    by (auto simp: slot_ok_def slot_begin_drain_def sig_begin_drain_def)
qed

lemma slot_ok_clear:
  assumes "slot_ok enc B A W R U s" and "fb_is_empty (ts_eq s)"
  shows "slot_ok enc B A W R U (clear_data_signal_and_rearm (s\<lparr>ts_queued := 0\<rparr>))"
  using assms fb_is_empty_view [of "ts_eq s"]
  by (auto simp: slot_ok_def clear_data_signal_and_rearm_def split: prod.split)

lemma slot_ok_drained:
  assumes "slot_ok enc B A W R U s" and "fb_inv eq" "fb_solid eq" "fb_view (ts_eq s) = x @ fb_view eq"
    and "length (fb_arena eq) < 2 ^ 32"
  shows "slot_ok enc B A (W @ x) R U (slot_drained eq n prot s)" "ts_eq (slot_drained eq n prot s) = eq"
proof -
  note t = slot_ok_take [OF assms]
  let ?s = "(if 0 < prot then mark_fanout_dict_shipped else id) (slot_begin_drain (s\<lparr>ts_eq := eq\<rparr>))"
  let ?q = "?s\<lparr>ts_queued := ts_queued ?s - n\<rparr>"
  have q: "slot_ok enc B A (W @ x) R U ?q" using t by (auto simp: slot_ok_def mark_fanout_dict_shipped_def)
  have e: "ts_eq ?q = eq" by (simp add: mark_fanout_dict_shipped_def slot_begin_drain_def)
  have d: "slot_drained eq n prot s = (if fb_is_empty eq then clear_data_signal_and_rearm (?q\<lparr>ts_queued := 0\<rparr>) else ?q)"
    by (simp add: slot_drained_def Let_def)
  show "slot_ok enc B A (W @ x) R U (slot_drained eq n prot s)"
    unfolding d using q slot_ok_clear [OF q] e by simp
  show "ts_eq (slot_drained eq n prot s) = eq"
    unfolding d using e by (auto simp: clear_data_signal_and_rearm_def split: prod.split)
qed

lemma slot_ok_announce:
  assumes "slot_ok enc B A W R U s" and "announce_space b q s = (s', space)"
  shows "slot_ok enc B A W (R \<and> \<not> space) U s'" "R \<Longrightarrow> slot_is_below_lwm b q s \<Longrightarrow> space"
  using assms by (auto simp: slot_ok_def announce_space_def split: if_splits)

lemma decision_room:
  "slot_decision s m \<noteq> Frame_Full \<Longrightarrow> fb_total (ts_eq s) < ts_cap s \<and> ts_queued s < ts_msg_cap s"
  by (simp add: slot_decision_def decide_handle_frame_def split: if_splits)

lemma decision_sentinel:
  "slot_decision s m = Transform_Passthrough pre \<Longrightarrow> \<exists>n. ts_passthrough s = Some (pre, n)"
  by (auto simp: slot_decision_def decide_handle_frame_def split: if_splits option.splits prod.splits)

lemma slot_ok_op:
  assumes "slot_ok enc B A W R U s" and "fb_op_ok op" and "slot_room B (fb_bytes op) s"
    and "ts_queued s < ts_msg_cap s" and "enc \<or> fb_total (ts_eq s) \<le> ts_cap s"
  shows "slot_ok enc B (A @ fb_bytes op) W R True (slot_count (fb_do op (ts_eq s)) s)"
proof -
  have "fb_inv (ts_eq s)" "fb_solid (ts_eq s)" using assms(1) by (simp_all add: slot_ok_def)
  then show ?thesis
    using assms by (intro slot_ok_append fb_do_appends fb_do_solid) (simp_all add: slot_room_def)
qed

lemma slot_ok_encode:
  assumes "slot_ok enc B A W R U s" and "message_wf m" and "slot_room B (slot_bytes s m r) s"
    and "try_encode m r s = (s', r', res)"
  shows "slot_ok enc B (if res = TF_Ok then A @ slot_bytes s m r else A) W (R \<or> res = TF_Full) (U \<and> res \<noteq> TF_Ok) s'"
proof (cases "ts_dead s \<or> \<not> ts_handshake_done s")
  case True
  then show ?thesis using assms(1,4) by (auto simp: try_encode_def split: if_splits)
next
  case False
  note op = slot_ok_signal [OF slot_ok_op [OF assms(1)]]
  show ?thesis
  proof (cases "slot_decision s m")
    case Plain_Frame
    then show ?thesis using op [of "Op_Frame m"] assms(2-) False decision_room [of s m]
      by (auto simp: try_encode_def slot_bytes_def)
  next
    case Web_Socket
    then show ?thesis using op [of "Op_Ws m (ts_ws_masked s) r"] assms(2-) False decision_room [of s m]
      by (auto simp: try_encode_def slot_bytes_def split: prod.splits)
  next
    case (Transform_Passthrough pre)
    then have "pre \<noteq> []" using decision_sentinel assms(1) by (auto simp: slot_ok_def)
    then show ?thesis using op [of "Op_Prefixed pre m"] assms(2-) False decision_room [of s m] Transform_Passthrough
      by (auto simp: try_encode_def slot_bytes_def)
  next
    case Frame_Full
    then show ?thesis using slot_ok_refuse [OF assms(1)] assms(4) False by (auto simp: try_encode_def)
  next
    case Frame_Ineligible
    then show ?thesis using assms(1,4) False by (auto simp: try_encode_def)
  qed
qed

lemma slot_ok_push:
  assumes "slot_ok True B A W R U s" and "[] \<notin> set bs" and "slot_room B (concat bs) s"
    and "try_push_encoded bs s = (s', res)"
  shows "slot_ok True B (if res = TF_Ok then A @ concat bs else A) W (R \<or> res = TF_Full) (U \<and> res \<noteq> TF_Ok) s'"
  using slot_ok_signal [OF slot_ok_op [OF assms(1), of "Op_Raw bs False"]] slot_ok_refuse [OF assms(1)] assms
  by (auto simp: try_push_encoded_def push_shared_raw split: if_splits)

lemma slot_ok_framed:
  assumes "slot_ok enc B A W R U s" and "slot_room B data s"
    and "try_push_pre_framed_no_signal data s = (s', res)"
  shows "slot_ok enc B (if res = TF_Ok then A @ data else A) W (R \<or> res = TF_Full) (U \<or> res = TF_Ok) s'"
  using slot_ok_op [OF assms(1), of "Op_Framed data"] slot_ok_refuse [OF assms(1)] assms
  by (auto simp: try_push_pre_framed_no_signal_def slot_is_full_def split: if_splits)

lemma slot_ok_drain:
  assumes "slot_ok enc B A W R U s"
  obtains s' bs space where "slot_drain k s = Ok (s', bs, space)" "slot_ok enc B A (W @ concat bs) (R \<and> \<not> space) U s'"
    "0 < k \<Longrightarrow> W \<noteq> A \<Longrightarrow> bs \<noteq> []" "R \<Longrightarrow> slot_is_below_lwm (fb_total (ts_eq s')) (ts_queued s') s' \<Longrightarrow> space"
proof -
  have i: "fb_inv (ts_eq s)" "length (fb_arena (ts_eq s)) < 2 ^ 32" "fb_solid (ts_eq s)" and A: "A = W @ fb_view (ts_eq s)"
    using assms by (auto simp: slot_ok_def)
  obtain eq bs n where d: "drained k (ts_eq s) = (eq, bs, n)" by (metis prod_cases3)
  note di = drained_inv [OF i(1,2) d] and ds = drained_solid [OF i d]
  let ?s1 = "slot_drained eq (length bs) n s"
  have s1: "slot_ok enc B A (W @ concat bs) R U ?s1" "ts_eq ?s1 = eq"
    using di ds by (auto intro!: slot_ok_drained [OF assms])
  obtain s' space where a: "announce_space (fb_total eq) (ts_queued ?s1) ?s1 = (s', space)" by fastforce
  have "slot_drain k s = Ok (s', bs, space)"
    using a by (simp add: slot_drain_def fb_drain_exact [OF i(1,2)] d)
  moreover have "ts_eq s' = eq" "ts_queued s' = ts_queued ?s1" "slot_is_below_lwm b q s' = slot_is_below_lwm b q ?s1" for b q
    using a s1(2) by (auto simp: announce_space_def slot_is_below_lwm_def split: if_splits)
  moreover have "0 < k \<Longrightarrow> W \<noteq> A \<Longrightarrow> bs \<noteq> []" using di(7) A by auto
  ultimately show thesis
    using slot_ok_announce [OF s1(1) a] by (intro that [of s' bs space]) simp_all
qed


lemma slot_ok_arena:
  assumes "slot_ok enc B A W R U s" and "try_drain_arena_only s = Some (s', out, space)"
  shows "slot_ok enc B A (W @ out) (R \<and> \<not> space) U s'"
proof -
  let ?eq = "clear_arena (ts_eq s)"
  have e: "fb_entries (ts_eq s) = []" and o: "out = fb_arena (ts_eq s)"
    using assms(2) by (auto simp: try_drain_arena_only_def Let_def has_arena_only_def split: if_splits prod.splits)
  have "fb_view (ts_eq s) = fb_arena (ts_eq s)"
    using assms(1) e by (intro advance_arena_inv(4)) (simp_all add: slot_ok_def)
  then have t: "slot_ok enc B A (W @ out) R U (slot_begin_drain (s\<lparr>ts_eq := ?eq\<rparr>))"
    using e o by (intro slot_ok_take [OF assms(1)])
      (simp_all add: clear_arena_def fb_inv_def fb_view_def fb_solid_def)
  have "fb_is_empty (ts_eq (slot_begin_drain (s\<lparr>ts_eq := ?eq\<rparr>)))"
    using e by (simp add: slot_begin_drain_def fb_is_empty_def clear_arena_def)
  from slot_ok_announce(1) [OF slot_ok_clear [OF t this]] show ?thesis
    using assms(2) by (auto simp: try_drain_arena_only_def Let_def split: if_splits prod.splits)
qed

lemma slot_ok_direct:
  assumes "slot_ok enc B A W R U s" and a: "has_arena_only (ts_eq s)"
    and d: "try_direct_write_arena_only (Some n) s = (s', x)"
  shows "slot_ok enc B A (W @ take n (fb_arena (ts_eq s))) (R \<and> ts_changed s' = ts_changed s) U s'"
proof -
  have i: "fb_inv (ts_eq s)" "fb_entries (ts_eq s) = []" using assms(1) a by (simp_all add: slot_ok_def has_arena_only_def)
  note v = advance_arena_inv(1-3) [OF i, of n] advance_arena_inv(4) [OF i]
  let ?t = "slot_write n s" and ?u = "slot_after_write (slot_write n s)"
  have "(if 0 < n then s\<lparr>ts_eq := advance_arena n (ts_eq s)\<rparr> else s) = s\<lparr>ts_eq := advance_arena n (ts_eq s)\<rparr>"
    using a by (simp add: advance_arena_def has_arena_only_def)
  moreover have "slot_ok enc B A (W @ take n (fb_arena (ts_eq s))) R U (slot_begin_drain (s\<lparr>ts_eq := advance_arena n (ts_eq s)\<rparr>))"
    using v assms(1) by (intro slot_ok_take [OF assms(1)])
      (auto simp: slot_ok_def fb_solid_def advance_arena_def clear_arena_def)
  ultimately have t: "slot_ok enc B A (W @ take n (fb_arena (ts_eq s))) R U ?t" by (simp add: slot_write_def)
  then have u: "slot_ok enc B A (W @ take n (fb_arena (ts_eq s))) R U ?u"
    using slot_ok_clear [OF t] by (auto simp: slot_after_write_def slot_ok_def)
  have c: "ts_changed ?u = ts_changed s"
    by (simp add: slot_after_write_def slot_write_def slot_begin_drain_def clear_data_signal_and_rearm_def split: prod.split)
  obtain w space where w: "announce_space (fb_total (ts_eq ?t)) (ts_queued ?u) ?u = (w, space)" by fastforce
  have "s' = w\<lparr>ts_changed := ts_changed w + of_bool space\<rparr>"
    using d a w by (simp add: try_direct_write_arena_only_def)
  moreover have "ts_changed w = ts_changed s"
    using w c by (auto simp: announce_space_def split: if_splits)
  ultimately show ?thesis using slot_ok_announce(1) [OF u w] by (auto simp: slot_ok_def)
qed

lemma slot_trace_ok: "slot_trace enc B A W R U s \<Longrightarrow> slot_ok enc B A W R U s"
proof (induction rule: slot_trace.induct)
  case (st_new pt tr th cap mc ws masked)
  then show ?case by (auto simp: slot_ok_def slot_new_def fb_inv_new fb_solid_def) (simp_all add: with_config_def)
next
  case (st_handshake A W R U s)
  then show ?case by (simp add: slot_ok_def)
next
  case (st_push A W R U s bs s' res)
  then show ?case using slot_ok_push [of B A W R U s bs s' res] by simp
next
  case (st_drain A W R U s k s' bs space)
  from st_drain.IH show ?case by (rule slot_ok_drain [where k = k]) (use st_drain.hyps in simp)
qed (blast intro: slot_ok_encode slot_ok_framed slot_ok_signal slot_ok_arena slot_ok_direct)+

text \<open>
  A run of senders with no drain in between, from \<open>s\<close>: \<open>n\<close> is the number of messages
  accepted in it.
\<close>

inductive slot_burst :: "transmit_slot \<Rightarrow> nat \<Rightarrow> transmit_slot \<Rightarrow> bool" for s where
  sb_start: "slot_burst s 0 s"
| sb_encode: "slot_burst s n t \<Longrightarrow> try_encode m r t = (t', r', res) \<Longrightarrow> slot_burst s (n + of_bool (res = TF_Ok)) t'"
| sb_push: "slot_burst s n t \<Longrightarrow> try_push_encoded bs t = (t', res) \<Longrightarrow> slot_burst s (n + of_bool (res = TF_Ok)) t'"
| sb_framed: "slot_burst s n t \<Longrightarrow> try_push_pre_framed_no_signal data t = (t', res)
    \<Longrightarrow> slot_burst s (n + of_bool (res = TF_Ok)) t'"
| sb_signal: "slot_burst s n t \<Longrightarrow> slot_burst s n (signal_encoded t)"

lemma slot_count_fields [simp]:
  "ts_queued (slot_count eq s) = ts_queued s + 1" "ts_msg_cap (slot_count eq s) = ts_msg_cap s"
  "ts_queued (signal_encoded s) = ts_queued s" "ts_msg_cap (signal_encoded s) = ts_msg_cap s"
  by (simp_all add: slot_count_def mark_above_lwm_if_needed_def signal_encoded_def split: prod.split)

text \<open>A sender adds one to the message count exactly when its message is accepted, and then below the cap.\<close>

definition slot_counts :: "transmit_slot \<Rightarrow> try_frame_result \<Rightarrow> transmit_slot \<Rightarrow> bool" where
  "slot_counts s res s' \<longleftrightarrow> ts_msg_cap s' = ts_msg_cap s \<and> ts_queued s' = ts_queued s + of_bool (res = TF_Ok) \<and>
     (res = TF_Ok \<longrightarrow> ts_queued s < ts_msg_cap s)"

lemma try_encode_counts: "try_encode m r s = (s', r', res) \<Longrightarrow> slot_counts s res s'"
  using decision_room [of s m]
  by (cases "slot_decision s m") (auto simp: try_encode_def slot_counts_def split: if_splits prod.splits)

lemma try_push_counts:
  "try_push_encoded bs s = (s', res) \<Longrightarrow> slot_counts s res s'"
  "try_push_pre_framed_no_signal data s = (s', res) \<Longrightarrow> slot_counts s res s'"
  by (auto simp: try_push_encoded_def try_push_pre_framed_no_signal_def slot_is_full_def slot_counts_def split: if_splits)

lemma slot_burst_counts:
  "slot_burst s n t \<Longrightarrow> ts_queued s \<le> ts_msg_cap s
    \<Longrightarrow> ts_msg_cap t = ts_msg_cap s \<and> ts_queued t = ts_queued s + n \<and> ts_queued t \<le> ts_msg_cap s"
proof (induction rule: slot_burst.induct)
  case (sb_encode n t m r t' r' res)
  then show ?case using try_encode_counts [OF sb_encode.hyps(2)] by (auto simp: slot_counts_def)
next
  case (sb_push n t bs t' res)
  then show ?case using try_push_counts(1) [OF sb_push.hyps(2)] by (auto simp: slot_counts_def)
next
  case (sb_framed n t data t' res)
  then show ?case using try_push_counts(2) [OF sb_framed.hyps(2)] by (auto simp: slot_counts_def)
qed simp_all

text \<open>
  C15.  The send queue of a peer is a byte queue with back-pressure.  After any mix of
  encoded, pre-encoded and pre-framed messages, drains, arena drains and direct
  writes, what was drained followed by what is queued is what was accepted, in
  order; the message counter never exceeds the cap and, unless encoded chunks are
  pushed, the bytes never exceed theirs by more than one message; queued and
  signalled data keeps the signal off idle.  Until the next drain the senders get
  exactly as many messages accepted as the counter rises, so together with the
  counter never more than the cap.  (The counter itself falls by chunks, not by
  messages, in a drain: \<open>slot_message_cap_exceeded\<close> below shows that across drains
  more messages than the cap may be queued.)  A drain never panics, hands out
  something when there is something, and announces space when a sender was
  refused and the queue is at or below the low-water mark.
\<close>

theorem slot_backpressure:
  assumes "slot_trace enc B A W R U s"
  shows "W @ fb_view (ts_eq s) = A \<and> fb_total (ts_eq s) = length A - length W \<and> ts_queued s \<le> ts_msg_cap s
    \<and> (slot_burst s n t \<longrightarrow> ts_queued t = ts_queued s + n \<and> ts_queued s + n \<le> ts_msg_cap s)
    \<and> (\<not> enc \<longrightarrow> length A - length W \<le> ts_cap s + B) \<and> (W \<noteq> A \<and> \<not> U \<longrightarrow> ts_sig s \<noteq> IDLE)
    \<and> (\<exists>s' bs space. slot_drain k s = Ok (s', bs, space) \<and> prefix (W @ concat bs) A \<and> (0 < k \<and> W \<noteq> A \<longrightarrow> bs \<noteq> [])
         \<and> (R \<and> slot_is_below_lwm (fb_total (ts_eq s')) (ts_queued s') s' \<longrightarrow> space))"
proof -
  note ok = slot_trace_ok [OF assms]
  from ok show ?thesis
  proof (rule slot_ok_drain [where k = k])
    fix s' bs space
    assume d: "slot_drain k s = Ok (s', bs, space)" "slot_ok enc B A (W @ concat bs) (R \<and> \<not> space) U s'"
      "0 < k \<Longrightarrow> W \<noteq> A \<Longrightarrow> bs \<noteq> []" "R \<Longrightarrow> slot_is_below_lwm (fb_total (ts_eq s')) (ts_queued s') s' \<Longrightarrow> space"
    have "prefix (W @ concat bs) A" using d(2) by (auto simp: slot_ok_def)
    moreover have "0 < k \<and> W \<noteq> A \<longrightarrow> bs \<noteq> []" "R \<and> slot_is_below_lwm (fb_total (ts_eq s')) (ts_queued s') s' \<longrightarrow> space"
      using d(3,4) by simp_all
    moreover have "slot_burst s n t \<longrightarrow> ts_queued t = ts_queued s + n \<and> ts_queued s + n \<le> ts_msg_cap s"
      using slot_burst_counts [of s n t] ok by (auto simp: slot_ok_def)
    moreover have "W @ fb_view (ts_eq s) = A" "fb_total (ts_eq s) = length (fb_view (ts_eq s))" "ts_queued s \<le> ts_msg_cap s"
      "\<not> enc \<longrightarrow> fb_total (ts_eq s) \<le> ts_cap s + B" "fb_view (ts_eq s) \<noteq> [] \<and> \<not> U \<longrightarrow> ts_sig s \<noteq> IDLE"
      using ok by (auto simp: slot_ok_def fb_inv_def)
    ultimately show ?thesis using d(1) by (intro conjI exI) (assumption | force)+
  qed
qed


definition demo_slot :: transmit_slot where
  "demo_slot = (slot_new False None 4096 100 1 False False)\<lparr>ts_handshake_done := True\<rparr>"

definition demo_one :: transmit_slot where
  "demo_one = fst (try_encode (message_from_slice [9]) zero_rng demo_slot)"

definition demo_full :: transmit_slot where
  "demo_full = fst (try_encode (message_from_slice [9]) zero_rng demo_one)"

lemma slot_backpressure_witness:
  "fb_view (ts_eq demo_full) = [0, 1, 9] \<and> ts_queued demo_full = 1 \<and> ts_msg_cap demo_slot = 1 \<and>
   slot_burst demo_slot 1 demo_full \<and> ts_queued demo_full = ts_queued demo_slot + 1 \<and> ts_queued demo_slot + 1 \<le> ts_msg_cap demo_slot \<and>
   (\<exists>s' bs space. slot_drain 8 demo_full = Ok (s', bs, space) \<and> bs \<noteq> [])"
proof -
  let ?m = "message_from_slice [9]"
  have e: "snd (snd (try_encode ?m zero_rng demo_slot)) = TF_Ok" "slot_bytes demo_slot ?m zero_rng = [0, 1, 9]"
    "length (fb_arena (ts_eq demo_slot)) = 0" "snd (snd (try_encode ?m zero_rng demo_one)) = TF_Full"
    "slot_bytes demo_one ?m zero_rng = []" "length (fb_arena (ts_eq demo_one)) = 3" "ts_queued demo_full = 1"
    and wf: "message_wf ?m"
    by code_simp+
  obtain r1 r2 where s1: "try_encode ?m zero_rng demo_slot = (demo_one, r1, TF_Ok)"
    and s2: "try_encode ?m zero_rng demo_one = (demo_full, r2, TF_Full)"
    using e(1,4) by (cases "try_encode ?m zero_rng demo_slot"; cases "try_encode ?m zero_rng demo_one")
      (auto simp: demo_full_def demo_one_def)
  have b: "slot_burst demo_slot 1 demo_full"
    using sb_encode [OF sb_encode [OF sb_start s1] s2] by simp
  have t0: "slot_trace False 3 [] [] False False demo_slot"
    unfolding demo_slot_def by (intro st_handshake st_new) simp
  have mc: "ts_msg_cap demo_slot = 1" by code_simp
  from st_encode [OF t0 wf _ s1] e have "slot_trace False 3 [0, 1, 9] [] False False demo_one"
    by (simp add: slot_room_def)
  from st_encode [OF this wf _ s2] e have "slot_trace False 3 [0, 1, 9] [] True False demo_full"
    by (simp add: slot_room_def)
  from slot_backpressure [OF this, of 0 demo_full 8] slot_backpressure [OF t0, of 1 demo_full 8] e(7) b mc show ?thesis by auto
qed

section \<open>Fan-out: the oldest messages make room\<close>

definition slot_items :: "frame_buffer \<Rightarrow> (bytes \<times> bool) list" where
  "slot_items eq = map (\<lambda>e. (entry_view (fb_arena eq) e, is_protected e)) (fb_entries eq)"

fun drop_unprotected :: "nat \<Rightarrow> ('a \<times> bool) list \<Rightarrow> ('a \<times> bool) list" where
  "drop_unprotected 0 xs = xs"
| "drop_unprotected (Suc n) [] = []"
| "drop_unprotected (Suc n) ((x, prot) # xs) =
     (if prot then (x, prot) # drop_unprotected (Suc n) xs else drop_unprotected n xs)"

lemma drop_unprotected_protected: "filter snd (drop_unprotected n xs) = filter snd xs"
  by (induction n xs rule: drop_unprotected.induct) simp_all

lemma drop_unprotected_Suc: "drop_unprotected (Suc n) xs = drop_unprotected n (drop_unprotected 1 xs)"
proof (induction xs)
  case Nil
  then show ?case by (cases n) simp_all
next
  case (Cons x xs)
  then show ?case by (cases x; cases n) auto
qed

lemma drop_unprotected_position:
  "position (\<lambda>x. \<not> snd x) xs = Some i \<Longrightarrow> drop_unprotected 1 xs = take i xs @ drop (Suc i) xs"
proof (induction xs arbitrary: i)
  case (Cons x xs)
  then show ?case by (cases x) (auto split: if_splits)
qed simp

lemma drop_unprotected_none:
  "position (\<lambda>x. \<not> snd x) xs = None \<Longrightarrow> drop_unprotected n xs = xs"
  by (induction n xs rule: drop_unprotected.induct) (auto split: if_splits)

definition fan_ok :: "frame_buffer \<Rightarrow> bool" where
  "fan_ok eq \<longleftrightarrow> fb_inv eq \<and> fb_mark eq = length (fb_arena eq) \<and> length (fb_arena eq) < 2 ^ 32"

lemma position_map: "position p (map f xs) = position (p \<circ> f) xs"
  by (induction xs) simp_all

lemma fan_ok_pop:
  assumes "fan_ok eq" and "pop_oldest_unprotected_entry eq = (eq', popped)"
  shows "fan_ok eq'" "slot_items eq' = drop_unprotected 1 (slot_items eq)"
    "popped \<longleftrightarrow> (\<exists>x \<in> set (slot_items eq). \<not> snd x)"
proof -
  have c: "commit_arena_range eq = eq" using assms(1) by (simp add: fan_ok_def commit_arena_range_def)
  have p: "position (\<lambda>e. \<not> is_protected e) (fb_entries eq) = position (\<lambda>x. \<not> snd x) (slot_items eq)"
    by (simp add: slot_items_def position_map comp_def)
  have "fan_ok eq' \<and> slot_items eq' = drop_unprotected 1 (slot_items eq) \<and> (popped \<longleftrightarrow> (\<exists>x \<in> set (slot_items eq). \<not> snd x))"
  proof (cases "position (\<lambda>x. \<not> snd x) (slot_items eq)")
    case None
    then show ?thesis
      using assms drop_unprotected_none [OF None] p None [unfolded position_None_iff]
      by (auto simp: pop_oldest_unprotected_entry_def c)
  next
    case (Some i)
    note ps = position_SomeD [OF Some]
    have i: "fb_inv eq" "fb_mark eq = length (fb_arena eq)" "i < length (fb_entries eq)"
      using assms(1) ps by (simp_all add: fan_ok_def slot_items_def)
    note r = remove_entry_inv [OF i]
    have e: "eq' = remove_entry i eq" "popped" using assms(2) p Some by (simp_all add: pop_oldest_unprotected_entry_def c)
    have "slot_items eq' = zip (map (entry_view (fb_arena eq')) (fb_entries eq')) (map is_protected (fb_entries eq'))"
      by (simp add: slot_items_def zip_map_map zip_same_conv_map)
    also have "\<dots> = take i (slot_items eq) @ drop (Suc i) (slot_items eq)"
      unfolding e(1) r(3,4) by (simp add: slot_items_def zip_map_map zip_same_conv_map take_map drop_map)
    finally have "slot_items eq' = drop_unprotected 1 (slot_items eq)" using drop_unprotected_position [OF Some] by simp
    moreover have "fan_ok eq'"
      using r(1) assms(1) by (auto simp: e(1) fan_ok_def) (auto simp: remove_entry_def clear_empty_arena_def)
    ultimately show ?thesis using e(2) ps nth_mem by blast
  qed
  then show "fan_ok eq'" "slot_items eq' = drop_unprotected 1 (slot_items eq)"
    "popped \<longleftrightarrow> (\<exists>x \<in> set (slot_items eq). \<not> snd x)" by simp_all
qed


definition items_bytes :: "(bytes \<times> bool) list \<Rightarrow> nat" where
  "items_bytes xs = length (concat (map fst xs))"

definition fits :: "transmit_slot \<Rightarrow> nat \<Rightarrow> nat \<Rightarrow> (bytes \<times> bool) list \<Rightarrow> bool" where
  "fits s len q xs \<longleftrightarrow> q = 0 \<or> sat_add (items_bytes xs) len < ts_cap s \<and> q < ts_msg_cap s"

lemma fan_ok_total: "fan_ok eq \<Longrightarrow> fb_total eq = items_bytes (slot_items eq)"
  by (simp add: fan_ok_def fb_inv_def fb_view_def items_bytes_def slot_items_def comp_def)

lemma evict_oldest_items:
  assumes "fan_ok eq" and "evict_oldest s len q eq = (eq', r)"
  shows "\<exists>j \<le> q. fan_ok eq' \<and> slot_items eq' = drop_unprotected j (slot_items eq) \<and>
    (\<forall>i < j. \<not> fits s len (q - i) (drop_unprotected i (slot_items eq))) \<and>
    (case r of Some q' \<Rightarrow> q' = q - j \<and> fits s len q' (slot_items eq')
     | None \<Rightarrow> \<not> fits s len (q - j) (slot_items eq') \<and> (\<forall>x \<in> set (slot_items eq'). snd x))"
  using assms
proof (induction s len q eq rule: evict_oldest.induct)
  case (1 s len eq)
  then show ?case by (auto simp: fits_def)
next
  case (2 s len q eq)
  note t = fan_ok_total [OF 2(2)]
  show ?case
  proof (cases "fits s len (Suc q) (slot_items eq)")
    case True
    then have "\<not> (ts_cap s \<le> sat_add (fb_total eq) len \<or> ts_msg_cap s \<le> Suc q)" by (auto simp: fits_def t)
    then have "eq' = eq" "r = Some (Suc q)" using 2(3) by simp_all
    then show ?thesis using True 2(2) by (intro exI [of _ 0]) simp
  next
    case False
    then have c: "ts_cap s \<le> sat_add (fb_total eq) len \<or> ts_msg_cap s \<le> Suc q" by (auto simp: fits_def t)
    obtain eq1 popped where p: "pop_oldest_unprotected_entry eq = (eq1, popped)" by fastforce
    note fp = fan_ok_pop [OF 2(2) p]
    show ?thesis
    proof (cases popped)
      case True
      with 2(3) c p have "evict_oldest s len q eq1 = (eq', r)" by simp
      from 2(1) [OF c p [symmetric] True fp(1) this] obtain j where j: "j \<le> q" "fan_ok eq'"
        "slot_items eq' = drop_unprotected j (slot_items eq1)"
        "\<forall>i < j. \<not> fits s len (q - i) (drop_unprotected i (slot_items eq1))"
        "case r of Some q' \<Rightarrow> q' = q - j \<and> fits s len q' (slot_items eq')
         | None \<Rightarrow> \<not> fits s len (q - j) (slot_items eq') \<and> (\<forall>x \<in> set (slot_items eq'). snd x)"
        by (elim exE conjE) (rule that; assumption)
      have r: "Suc q - Suc j = q - j" by simp
      have d: "drop_unprotected (Suc n) (slot_items eq) = drop_unprotected n (slot_items eq1)" for n
        unfolding fp(2) by (rule drop_unprotected_Suc)
      have "\<not> fits s len (Suc q - i) (drop_unprotected i (slot_items eq))" if "i < Suc j" for i
        using that j(4) False d by (cases i) simp_all
      then show ?thesis unfolding Ball_def
        using j [unfolded Ball_def] d r by (intro exI [of _ "Suc j"]) (simp split: option.splits, blast?)
    next
      case np: False
      with 2(3) c p have "eq' = eq1" "r = None" by simp_all
      moreover have "slot_items eq1 = slot_items eq" "\<forall>x \<in> set (slot_items eq). snd x"
        using fp(2,3) np drop_unprotected_none [of "slot_items eq" 1] by (auto simp: position_None_iff)
      ultimately show ?thesis using fp(1) False by (intro exI [of _ 0]) simp
    qed
  qed
qed

lemma slot_items_push:
  assumes "fan_ok eq"
  shows "slot_items (push_raw_with_protection [b] prot eq) = slot_items eq @ [(b, prot)]"
    "fan_ok (push_raw_with_protection [b] prot eq)"
proof -
  have c: "commit_arena_range eq = eq" using assms by (simp add: fan_ok_def commit_arena_range_def)
  show "slot_items (push_raw_with_protection [b] prot eq) = slot_items eq @ [(b, prot)]"
    by (simp add: push_raw_with_protection_def c slot_items_def push_external_def)
  show "fan_ok (push_raw_with_protection [b] prot eq)"
    using assms push_external_inv [of eq prot b] by (simp add: push_raw_with_protection_def c fan_ok_def)
qed

text \<open>
  C18.  A fan-out push to a full slot drops the oldest unprotected messages, no more
  than it must, whole and in order, and appends the new one; protected messages
  are never dropped.  It is refused only when all that is left is protected and
  still leaves no room, and then every unprotected message has already been
  dropped while the message count still counts them.
\<close>

theorem fan_out_drop_oldest:
  assumes "fan_ok (ts_eq s)" and "\<not> ts_dead s"
    and push: "try_push_fanout_drop_oldest f prot s = (t, res)"
  shows "fan_ok (ts_eq t) \<and>
    (\<exists>j \<le> ts_queued s.
       (\<forall>i < j. \<not> fits s (length (fanout_frame_chunk f)) (ts_queued s - i) (drop_unprotected i (slot_items (ts_eq s)))) \<and>
       (if res = TF_Ok
        then fits s (length (fanout_frame_chunk f)) (ts_queued s - j) (drop_unprotected j (slot_items (ts_eq s))) \<and>
             slot_items (ts_eq t) = drop_unprotected j (slot_items (ts_eq s)) @ [(fanout_frame_chunk f, prot)] \<and>
             ts_queued t = ts_queued s - j + 1 \<and> ts_sig t \<noteq> IDLE
        else res = TF_Full \<and> slot_items (ts_eq t) = filter snd (slot_items (ts_eq s)) \<and> ts_queued t = ts_queued s \<and>
             \<not> fits s (length (fanout_frame_chunk f)) (ts_queued s - j) (filter snd (slot_items (ts_eq s)))))"
proof -
  let ?len = "length (fanout_frame_chunk f)"
  obtain eq r where e: "evict_oldest s ?len (ts_queued s) (ts_eq s) = (eq, r)" by fastforce
  from evict_oldest_items [OF assms(1) e] obtain j where j: "j \<le> ts_queued s" "fan_ok eq"
    "slot_items eq = drop_unprotected j (slot_items (ts_eq s))"
    "\<forall>i < j. \<not> fits s ?len (ts_queued s - i) (drop_unprotected i (slot_items (ts_eq s)))"
    "case r of Some q' \<Rightarrow> q' = ts_queued s - j \<and> fits s ?len q' (slot_items eq)
     | None \<Rightarrow> \<not> fits s ?len (ts_queued s - j) (slot_items eq) \<and> (\<forall>x \<in> set (slot_items eq). snd x)"
    by blast
  show ?thesis
  proof (cases r)
    case None
    then have t: "t = s\<lparr>ts_eq := eq, ts_above_lwm := True\<rparr>" "res = TF_Full"
      using push e assms(2) by (simp_all add: try_push_fanout_drop_oldest_def)
    have "slot_items eq = filter snd (slot_items eq)" using j(5) None by simp
    then have "slot_items eq = filter snd (slot_items (ts_eq s))" using j(3) drop_unprotected_protected by metis
    then show ?thesis using j None t by auto
  next
    case (Some q)
    let ?u = "s\<lparr>ts_eq := push_raw_with_protection [fanout_frame_chunk f] prot eq,
      ts_dict_queued := (prot \<or> ts_dict_queued s), ts_queued := q + 1\<rparr>"
    have t: "t = signal_encoded (mark_above_lwm_if_needed ?u)" "res = TF_Ok"
      using push e assms(2) Some by (simp_all add: try_push_fanout_drop_oldest_def Let_def)
    have "ts_eq t = ts_eq ?u" "ts_queued t = q + 1" "ts_sig t \<noteq> IDLE"
      unfolding t(1) by (cases "ts_sig s"; simp add: signal_encoded_def mark_above_lwm_if_needed_def sig_mark_def)+
    then show ?thesis using j Some t(2) slot_items_push [OF j(2)] by auto
  qed
qed

definition demo_fan_slot :: transmit_slot where
  "demo_fan_slot =
     fst (try_push_fanout_drop_oldest (Fan_Arena [2, 2, 2]) False
       (fst (try_push_fanout_drop_oldest (Fan_Arena [1, 1, 1]) True (slot_new False None 4096 10 9 False False))))"

lemma fan_out_drop_oldest_witness:
  "slot_items (ts_eq demo_fan_slot) = [([1, 1, 1], True), ([2, 2, 2], False)] \<and> ts_queued demo_fan_slot = 2 \<and>
   (\<exists>t. try_push_fanout_drop_oldest (Fan_Arena (replicate 8 3)) False demo_fan_slot = (t, TF_Full) \<and>
      slot_items (ts_eq t) = [([1, 1, 1], True)] \<and> ts_queued t = 2)"
proof -
  have e: "slot_items (ts_eq demo_fan_slot) = [([1, 1, 1], True), ([2, 2, 2], False)]" "ts_queued demo_fan_slot = 2"
    "\<not> ts_dead demo_fan_slot" "snd (try_push_fanout_drop_oldest (Fan_Arena (replicate 8 3)) False demo_fan_slot) = TF_Full"
    "fb_entries (ts_eq demo_fan_slot) = [External_Entry [1, 1, 1] True, External_Entry [2, 2, 2] False]"
    "fb_arena (ts_eq demo_fan_slot) = []" "fb_mark (ts_eq demo_fan_slot) = 0" "fb_total (ts_eq demo_fan_slot) = 6"
    by code_simp+
  then have ok: "fan_ok (ts_eq demo_fan_slot)" by (simp add: fan_ok_def fb_inv_def fb_view_def)
  obtain t where t: "try_push_fanout_drop_oldest (Fan_Arena (replicate 8 3)) False demo_fan_slot = (t, TF_Full)"
    using e(4) by (cases "try_push_fanout_drop_oldest (Fan_Arena (replicate 8 3)) False demo_fan_slot") auto
  from fan_out_drop_oldest [OF ok e(3) t] e(1,2) t show ?thesis by auto
qed

text \<open>
  The message count goes up by messages and down by chunks.  With room for two
  messages of two chunks each and one of them drained, the slot takes two more:
  three messages are queued.
\<close>

definition push_two :: "transmit_slot \<Rightarrow> transmit_slot \<times> try_frame_result" where
  "push_two s = try_push_encoded [[0, 1], [7]] (fst (try_push_encoded [[0, 1], [7]] s))"

definition refilled :: "(transmit_slot \<times> bytes list \<times> bool) result \<Rightarrow> (bytes list \<times> (bytes \<times> bool) list \<times> try_frame_result) option" where
  "refilled r = (case r of
      Inl _ \<Rightarrow> None
    | Inr (s, bs, _) \<Rightarrow> Some (bs, slot_items (ts_eq (fst (push_two s))), snd (push_two s)))"

lemma slot_message_cap_exceeded:
  "ts_msg_cap (slot_new False None 4096 100 2 False False) = 2 \<and>
   refilled (slot_drain 2 (fst (push_two (slot_new False None 4096 100 2 False False)))) =
     Some ([[0, 1], [7]],
       [([0, 1], False), ([7], False), ([0, 1], False), ([7], False), ([0, 1], False), ([7], False)], TF_Ok)"
  by code_simp

end
