(* ===== verification/Send_Pipe.thy ===== *)
theory Send_Pipe
  imports Message Yring Data_Signal
begin

text \<open>
  The send pipe of a peer, \<^verbatim>\<open>omq-tokio/src/engine/send_pipe.rs\<close>: a ring of messages, or
  one slot that keeps the last message (conflate), with the data signal that wakes
  the consumer and the space signal that wakes a refused producer.

  Both halves are one record.  Each method is one step and the loads it makes
  return the current values; the interleaving of the single accesses is the
  subject of \<open>Yring\<close> and \<open>Data_Signal\<close>.  \<open>pp_notified\<close> counts the wake-ups of the
  consumer and \<open>pp_space\<close> is the generation of the space signal.
\<close>

section \<open>The pipe\<close>

datatype send_pipe_mode = Pipe_Queue | Pipe_Conflate

datatype send_pipe_error = Pipe_Full message | Pipe_Closed message

record conflate_state =
  cf_slot :: "message option"
  cf_producer_dropped :: bool
  cf_consumer_dropped :: bool

datatype pipe_inner = Queue_Inner "message spsc" | Conflate_Inner conflate_state

record send_pipe =
  pp_inner :: pipe_inner
  pp_sig :: sig
  pp_notified :: nat
  pp_space :: u64
  pp_above_lwm :: bool

definition SEND_PIPE_LWM_DIVISOR :: nat where "SEND_PIPE_LWM_DIVISOR = 2"

definition send_pipe_with_mode :: "nat \<Rightarrow> send_pipe_mode \<Rightarrow> send_pipe result" where
  "send_pipe_with_mode capacity mode =
     rbind (spsc_new (max capacity 1)) (\<lambda>ring.
       Ok \<lparr>pp_inner = (case mode of
              Pipe_Queue \<Rightarrow> Queue_Inner ring
            | Pipe_Conflate \<Rightarrow> Conflate_Inner \<lparr>cf_slot = None, cf_producer_dropped = False, cf_consumer_dropped = False\<rparr>),
           pp_sig = IDLE, pp_notified = 0, pp_space = 0, pp_above_lwm = False\<rparr>)"

definition pipe_mark :: "send_pipe \<Rightarrow> send_pipe" where
  "pipe_mark p = (case sig_mark (pp_sig p) of
     (st, woke) \<Rightarrow> p\<lparr>pp_sig := st, pp_notified := pp_notified p + of_bool woke\<rparr>)"

definition notify_space :: "send_pipe \<Rightarrow> send_pipe" where
  "notify_space p = p\<lparr>pp_space := pp_space p + 1\<rparr>"

definition try_send_conflate :: "message \<Rightarrow> conflate_state \<Rightarrow> send_pipe \<Rightarrow> send_pipe \<times> (send_pipe_error + unit)" where
  "try_send_conflate msg c p =
     (if cf_consumer_dropped c then (p, Inl (Pipe_Closed msg))
      else (pipe_mark (p\<lparr>pp_inner := Conflate_Inner (c\<lparr>cf_slot := Some msg\<rparr>)\<rparr>), Inr ()))"

definition pipe_try_send :: "message \<Rightarrow> send_pipe \<Rightarrow> send_pipe \<times> (send_pipe_error + unit)" where
  "pipe_try_send msg p =
     (case pp_inner p of
        Conflate_Inner c \<Rightarrow> try_send_conflate msg c p
      | Queue_Inner r \<Rightarrow>
          if is_consumer_dropped r then (p, Inl (Pipe_Closed msg))
          else case producer_push (rg_head (sp_ring r)) msg r of
                 (r, Inr _) \<Rightarrow> (pipe_mark (p\<lparr>pp_inner := Queue_Inner (producer_flush r)\<rparr>), Inr ())
               | (r, Inl returned) \<Rightarrow>
                   if is_consumer_dropped r then (p\<lparr>pp_inner := Queue_Inner r\<rparr>, Inl (Pipe_Closed returned))
                   else (p\<lparr>pp_inner := Queue_Inner r, pp_above_lwm := True\<rparr>, Inl (Pipe_Full returned)))"

text \<open>
  The loop of \<^verbatim>\<open>try_send_many\<close>: what is pushed, what is left of the messages, and why
  it stopped.  A refused message is put back in front.
\<close>

datatype push_stop = Stop_Done | Stop_Closed | Stop_Full

fun push_many :: "nat \<Rightarrow> message list \<Rightarrow> nat \<Rightarrow> message spsc \<Rightarrow> message spsc \<times> nat \<times> message list \<times> push_stop" where
  "push_many 0 msgs count r = (r, count, msgs, Stop_Done)"
| "push_many (Suc n) [] count r = (r, count, [], Stop_Done)"
| "push_many (Suc n) (msg # msgs) count r =
     (case producer_push (rg_head (sp_ring r)) msg r of
        (r, Inr _) \<Rightarrow> push_many n msgs (count + 1) r
      | (r, Inl returned) \<Rightarrow>
          (r, count, returned # msgs, if is_consumer_dropped r then Stop_Closed else Stop_Full))"

lemma push_many_code [code]:
  "push_many n msgs k r =
     (if n = 0 then (r, k, msgs, Stop_Done)
      else case msgs of
             [] \<Rightarrow> (r, k, [], Stop_Done)
           | msg # msgs \<Rightarrow>
               (case producer_push (rg_head (sp_ring r)) msg r of
                  (r, Inr _) \<Rightarrow> push_many (n - 1) msgs (k + 1) r
                | (r, Inl returned) \<Rightarrow>
                    (r, k, returned # msgs, if is_consumer_dropped r then Stop_Closed else Stop_Full)))"
  by (cases n; cases msgs) (auto split: prod.split sum.split)

definition pipe_try_send_many ::
  "message list \<Rightarrow> nat \<Rightarrow> send_pipe \<Rightarrow> send_pipe \<times> message list \<times> (send_pipe_error + nat)" where
  "pipe_try_send_many msgs m p =
     (case pp_inner p of
        Conflate_Inner c \<Rightarrow>
          (case msgs of
             [] \<Rightarrow> (p, [], Inr 0)
           | msg # msgs \<Rightarrow>
               (case try_send_conflate msg c p of
                  (p, Inr _) \<Rightarrow> (p, msgs, Inr 1)
                | (p, Inl e) \<Rightarrow> (p, msgs, Inl e)))
      | Queue_Inner r \<Rightarrow>
          if is_consumer_dropped r
          then (case msgs of [] \<Rightarrow> (p, [], Inr 0) | msg # msgs \<Rightarrow> (p, msgs, Inl (Pipe_Closed msg)))
          else case push_many m msgs 0 r of
                 (r, count, msgs, stop) \<Rightarrow>
                   (let p = (if stop = Stop_Full then p\<lparr>pp_above_lwm := True\<rparr> else p)
                    in if 0 < count
                       then (pipe_mark (p\<lparr>pp_inner := Queue_Inner (producer_flush r)\<rparr>), msgs, Inr count)
                       else let p = p\<lparr>pp_inner := Queue_Inner r\<rparr>
                            in case stop of
                                 Stop_Done \<Rightarrow> (p, msgs, Inr 0)
                               | Stop_Closed \<Rightarrow> (p, tl msgs, Inl (Pipe_Closed (hd msgs)))
                               | Stop_Full \<Rightarrow> (p, tl msgs, Inl (Pipe_Full (hd msgs)))))"

definition pipe_is_alive :: "send_pipe \<Rightarrow> bool" where
  "pipe_is_alive p = (case pp_inner p of
      Queue_Inner r \<Rightarrow> \<not> is_consumer_dropped r
    | Conflate_Inner c \<Rightarrow> \<not> cf_consumer_dropped c)"

definition pipe_producer_is_empty :: "send_pipe \<Rightarrow> bool" where
  "pipe_producer_is_empty p = (case pp_inner p of
      Queue_Inner r \<Rightarrow> ring_producer_is_empty (rg_head (sp_ring r)) (sp_cursor r)
    | Conflate_Inner c \<Rightarrow> cf_slot c = None)"

definition pipe_is_below_lwm :: "send_pipe \<Rightarrow> bool" where
  "pipe_is_below_lwm p = (case pp_inner p of
      Queue_Inner r \<Rightarrow>
        unat (producer_len (rg_head (sp_ring r)) r) \<le> unat (ring_capacity (sp_ring r)) div SEND_PIPE_LWM_DIVISOR
    | Conflate_Inner c \<Rightarrow> True)"

definition pipe_producer_drop :: "send_pipe \<Rightarrow> send_pipe" where
  "pipe_producer_drop p =
     notify_space (p\<lparr>pp_inner := (case pp_inner p of
        Queue_Inner r \<Rightarrow> Queue_Inner (producer_close r)
      | Conflate_Inner c \<Rightarrow> Conflate_Inner (c\<lparr>cf_producer_dropped := True\<rparr>)),
      pp_sig := PENDING\<rparr>)"

section \<open>The consumer\<close>

definition pipe_is_empty :: "send_pipe \<Rightarrow> bool" where
  "pipe_is_empty p = (case pp_inner p of
      Queue_Inner r \<Rightarrow> consumer_is_empty (rg_tail (sp_ring r)) r
    | Conflate_Inner c \<Rightarrow> cf_slot c = None)"

definition pipe_is_disconnected :: "send_pipe \<Rightarrow> bool" where
  "pipe_is_disconnected p = (case pp_inner p of
      Queue_Inner r \<Rightarrow> is_disconnected (rg_tail (sp_ring r)) r
    | Conflate_Inner c \<Rightarrow> cf_producer_dropped c \<and> cf_slot c = None)"

definition pipe_ready :: "send_pipe \<Rightarrow> bool" where
  "pipe_ready p \<longleftrightarrow> \<not> pipe_is_empty p \<or> pipe_is_disconnected p \<or> pp_sig p \<noteq> IDLE"

fun pop_batch :: "nat \<Rightarrow> nat \<Rightarrow> nat \<Rightarrow> message spsc \<Rightarrow> message spsc \<times> message list result" where
  "pop_batch 0 bytes max_bytes r = (r, Ok [])"
| "pop_batch (Suc n) bytes max_bytes r =
     (if max_bytes \<le> bytes then (r, Ok [])
      else case consumer_pop r of
             (r, Inl e) \<Rightarrow> (r, Err e)
           | (r, Inr None) \<Rightarrow> (r, Ok [])
           | (r, Inr (Some msg)) \<Rightarrow>
               (case pop_batch n (bytes + byte_len msg) max_bytes r of
                  (r, res) \<Rightarrow> (r, rbind res (\<lambda>msgs. Ok (msg # msgs)))))"

definition pipe_clear_after :: "bool \<Rightarrow> send_pipe \<Rightarrow> send_pipe" where
  "pipe_clear_after is_empty p = (case sig_clear_after is_empty (pp_sig p) of
     (st, woke) \<Rightarrow> p\<lparr>pp_sig := st, pp_notified := pp_notified p + of_bool woke\<rparr>)"

definition drain_conflate :: "nat \<Rightarrow> nat \<Rightarrow> conflate_state \<Rightarrow> send_pipe \<Rightarrow> send_pipe \<times> message list" where
  "drain_conflate max_msgs max_bytes c p =
     (if max_msgs = 0 \<or> max_bytes = 0 then (pipe_clear_after (cf_slot c = None) p, [])
      else (pipe_clear_after True (p\<lparr>pp_inner := Conflate_Inner (c\<lparr>cf_slot := None\<rparr>)\<rparr>),
            case cf_slot c of None \<Rightarrow> [] | Some msg \<Rightarrow> [msg]))"

text \<open>After a batch was popped: release the slots and announce space below the mark.\<close>

definition pipe_release :: "message spsc \<Rightarrow> send_pipe \<Rightarrow> send_pipe" where
  "pipe_release r p =
     (let r = consumer_release r; p = p\<lparr>pp_inner := Queue_Inner r\<rparr>
      in if unat (consumer_len (rg_tail (sp_ring r)) r) \<le> unat (ring_capacity (sp_ring r)) div SEND_PIPE_LWM_DIVISOR \<and>
            pp_above_lwm p
         then notify_space (p\<lparr>pp_above_lwm := False\<rparr>) else p)"

definition drain_into :: "nat \<Rightarrow> nat \<Rightarrow> send_pipe \<Rightarrow> send_pipe \<times> message list result" where
  "drain_into max_msgs max_bytes p =
     (let p = p\<lparr>pp_sig := sig_begin_drain (pp_sig p)\<rparr>
      in case pp_inner p of
           Conflate_Inner c \<Rightarrow> (case drain_conflate max_msgs max_bytes c p of (p, msgs) \<Rightarrow> (p, Ok msgs))
         | Queue_Inner r \<Rightarrow>
             (case pop_batch max_msgs 0 max_bytes (fst (consumer_prefetch (rg_tail (sp_ring r)) r)) of
                (r, Inl e) \<Rightarrow> (p\<lparr>pp_inner := Queue_Inner r\<rparr>, Err e)
              | (r, Inr msgs) \<Rightarrow>
                  (let p = (if msgs \<noteq> [] then pipe_release r p else p\<lparr>pp_inner := Queue_Inner r\<rparr>)
                   in (pipe_clear_after (pipe_is_empty p) p, Ok msgs))))"

definition pipe_consumer_drop :: "send_pipe \<Rightarrow> send_pipe" where
  "pipe_consumer_drop p =
     notify_space (p\<lparr>pp_inner := (case pp_inner p of
        Queue_Inner r \<Rightarrow> Queue_Inner (consumer_close r)
      | Conflate_Inner c \<Rightarrow> Conflate_Inner (c\<lparr>cf_consumer_dropped := True\<rparr>))\<rparr>)"

section \<open>What a pipe holds\<close>

definition ring_items :: "'a spsc \<Rightarrow> 'a list" where
  "ring_items r = map (\<lambda>i. the (rg_buf (sp_ring r) ! ring_index (sp_ring r) (sp_head r + of_nat i)))
     [0..<unat (sp_cursor r - sp_head r)]"

definition pipe_items :: "send_pipe \<Rightarrow> message list" where
  "pipe_items p = (case pp_inner p of
      Queue_Inner r \<Rightarrow> ring_items r
    | Conflate_Inner c \<Rightarrow> (case cf_slot c of None \<Rightarrow> [] | Some m \<Rightarrow> [m]))"

definition pipe_capacity :: "send_pipe \<Rightarrow> nat" where
  "pipe_capacity p = (case pp_inner p of Queue_Inner r \<Rightarrow> unat (ring_capacity (sp_ring r)) | Conflate_Inner c \<Rightarrow> 1)"

definition pipe_accept :: "message \<Rightarrow> send_pipe \<Rightarrow> message list" where
  "pipe_accept m p = (case pp_inner p of Queue_Inner r \<Rightarrow> pipe_items p @ [m] | Conflate_Inner c \<Rightarrow> [m])"

definition pipe_has_room :: "send_pipe \<Rightarrow> bool" where
  "pipe_has_room p = (case pp_inner p of
      Queue_Inner r \<Rightarrow> length (pipe_items p) < pipe_capacity p | Conflate_Inner c \<Rightarrow> True)"

text \<open>Between method calls all that was pushed is flushed and all that was popped is released.\<close>

definition settled :: "'a spsc \<Rightarrow> bool" where
  "settled r \<longleftrightarrow> (\<exists>k P Q ch ct. ring_inv k P Q (length Q) ch (length P) ct r)"

definition pipe_ok :: "send_pipe \<Rightarrow> bool" where
  "pipe_ok p \<longleftrightarrow> (case pp_inner p of Queue_Inner r \<Rightarrow> settled r | Conflate_Inner c \<Rightarrow> True) \<and>
     (pipe_items p \<noteq> [] \<longrightarrow> pp_sig p \<noteq> IDLE)"

lemma ring_items_inv:
  assumes "ring_inv k P Q hd_n ch tl_n ct r"
  shows "ring_items r = drop (length Q) P"
proof -
  note d = ring_invD [OF assms] and cap = capacity_nat [OF assms]
  have "length Q \<le> length P" "length P - length Q < 2 ^ 64" using d(4-9) cap(2) by simp_all
  then have n: "unat (sp_cursor r - sp_head r) = length P - length Q"
    unfolding d(12,14) using cursor_diff [of "length Q" "length P"] by simp
  have "the (rg_buf (sp_ring r) ! ring_index (sp_ring r) (sp_head r + of_nat i)) = P ! (length Q + i)"
    if "i < length P - length Q" for i
    using that d(17) [of "length Q + i"] index_nat [OF assms, of "length Q + i"] by (simp add: d(14))
  then show ?thesis unfolding ring_items_def n by (intro nth_equalityI) simp_all
qed

lemma settledI: "ring_inv k P Q (length Q) ch (length P) ct r \<Longrightarrow> settled r"
  unfolding settled_def by blast

lemma settled_push:
  assumes s: "settled r" and p: "producer_push (rg_head (sp_ring r)) m r = (r', res)"
  shows "(res = Inr () \<and> settled (producer_flush r') \<and> ring_items (producer_flush r') = ring_items r @ [m]
        \<and> length (ring_items r) < unat (ring_capacity (sp_ring r)))
    \<or> (res = Inl m \<and> settled r' \<and> ring_items r' = ring_items r
        \<and> length (ring_items r) = unat (ring_capacity (sp_ring r)))"
proof -
  from s obtain k P Q ch ct where i: "ring_inv k P Q (length Q) ch (length P) ct r" by (auto simp: settled_def)
  note d = ring_invD [OF i] and cap = capacity_nat [OF i]
  have "fresh_head r (rg_head (sp_ring r))" by (simp add: fresh_head_def)
  from push_inv [OF i this p] obtain c where c: "ch \<le> c" "c \<le> length Q"
    "res = Inl m \<and> ring_inv k P Q (length Q) c (length P) ct r' \<and> length P = c + 2 ^ k \<and> rg_head (sp_ring r) = of_nat c
     \<or> res = Inr () \<and> ring_inv k (P @ [m]) Q (length Q) c (length P) ct r'" by blast
  from c(3) show ?thesis
  proof
    assume x: "res = Inl m \<and> ring_inv k P Q (length Q) c (length P) ct r' \<and> length P = c + 2 ^ k \<and> rg_head (sp_ring r) = of_nat c"
    have "length Q - c < 2 ^ 64" using c d(4-9) cap(2) by simp
    then have "c = length Q" using x cursor_eq_iff [OF c(2)] unfolding d(10) by metis
    moreover have "settled r'" using x by (blast intro: settledI)
    ultimately show ?thesis using x i cap(1) d(5-8) by (auto simp: ring_items_inv)
  next
    assume x: "res = Inr () \<and> ring_inv k (P @ [m]) Q (length Q) c (length P) ct r'"
    then have f: "ring_inv k (P @ [m]) Q (length Q) c (length (P @ [m])) ct (producer_flush r')" using flush_inv by blast
    have "length (P @ [m]) \<le> c + 2 ^ k" using x by (simp add: ring_inv_def)
    then have "length P - length Q < 2 ^ k" using c(2) d(6-8) by simp
    then show ?thesis using x settledI [OF f] cap(1) d(6-8) ring_items_inv [OF f] ring_items_inv [OF i] by auto
  qed
qed

lemma pipe_mark_simps:
  "pp_inner (pipe_mark p) = pp_inner p" "pp_sig (pipe_mark p) \<noteq> IDLE" "pp_above_lwm (pipe_mark p) = pp_above_lwm p"
  "pp_space (pipe_mark p) = pp_space p"
  by (cases "pp_sig p"; simp add: pipe_mark_def sig_mark_def)+

lemma pipe_inner_cong:
  "pp_inner p = pp_inner q \<Longrightarrow> pipe_items p = pipe_items q" "pp_inner p = pp_inner q \<Longrightarrow> pipe_capacity p = pipe_capacity q"
  "pp_inner p = pp_inner q \<Longrightarrow> pipe_is_alive p = pipe_is_alive q"
  by (simp_all add: pipe_items_def pipe_capacity_def pipe_is_alive_def)

definition same_mode :: "send_pipe \<Rightarrow> send_pipe \<Rightarrow> bool" where
  "same_mode p q \<longleftrightarrow> pipe_capacity p = pipe_capacity q \<and> pipe_is_alive p = pipe_is_alive q \<and>
     (case (pp_inner p, pp_inner q) of (Queue_Inner _, Queue_Inner _) \<Rightarrow> True | (Conflate_Inner _, Conflate_Inner _) \<Rightarrow> True
      | _ \<Rightarrow> False)"

lemma producer_push_keeps:
  "ring_capacity (sp_ring (fst (producer_push h m r))) = ring_capacity (sp_ring r)"
  "ring_capacity (sp_ring (producer_flush r)) = ring_capacity (sp_ring r)"
  by (simp_all add: producer_push_def ring_push_def Let_def ring_capacity_def producer_flush_def)

lemma pipe_try_send_cases:
  assumes ok: "pipe_ok p" and t: "pipe_try_send m p = (p', res)"
  shows "pipe_ok p' \<and> same_mode p p' \<and>
    (res = Inr () \<and> pipe_is_alive p \<and> pipe_has_room p \<and> pipe_items p' = pipe_accept m p \<or>
     res = Inl (Pipe_Full m) \<and> pipe_is_alive p \<and> \<not> pipe_has_room p \<and> pipe_items p' = pipe_items p \<and> pp_above_lwm p' \<or>
     res = Inl (Pipe_Closed m) \<and> \<not> pipe_is_alive p \<and> p' = p)"
proof (cases "pp_inner p")
  case (Conflate_Inner c)
  then show ?thesis using t ok
    by (auto simp: pipe_try_send_def try_send_conflate_def pipe_ok_def same_mode_def pipe_is_alive_def
        pipe_has_room_def pipe_items_def pipe_accept_def pipe_capacity_def pipe_mark_simps split: if_splits)
next
  case (Queue_Inner r)
  show ?thesis
  proof (cases "is_consumer_dropped r")
    case True
    then show ?thesis using t ok Queue_Inner by (simp add: pipe_try_send_def same_mode_def pipe_is_alive_def)
  next
    case False
    obtain r' x where x: "producer_push (rg_head (sp_ring r)) m r = (r', x)" by fastforce
    have s: "settled r" using ok Queue_Inner by (simp add: pipe_ok_def)
    have k: "is_consumer_dropped r' = is_consumer_dropped r" "ring_capacity (sp_ring r') = ring_capacity (sp_ring r)"
      "is_consumer_dropped (producer_flush r') = is_consumer_dropped r"
      using dropped_flags(1) [of "rg_head (sp_ring r)" m r] dropped_flags(3) [of r']
        producer_push_keeps(1) [of "rg_head (sp_ring r)" m r] x
      by (simp_all add: is_consumer_dropped_def)
    from settled_push [OF s x] False t ok Queue_Inner x k producer_push_keeps(2) [of r'] show ?thesis
      by (auto simp: pipe_try_send_def pipe_ok_def same_mode_def pipe_is_alive_def pipe_has_room_def
          pipe_items_def pipe_accept_def pipe_capacity_def pipe_mark_simps)
  qed
qed

text \<open>What a drain takes: messages until one of the two budgets is used up.\<close>

fun budget_take :: "nat \<Rightarrow> nat \<Rightarrow> nat \<Rightarrow> message list \<Rightarrow> message list" where
  "budget_take 0 bytes max_bytes ms = []"
| "budget_take (Suc n) bytes max_bytes [] = []"
| "budget_take (Suc n) bytes max_bytes (m # ms) =
     (if max_bytes \<le> bytes then [] else m # budget_take n (bytes + byte_len m) max_bytes ms)"

lemma pop_batch_inv:
  assumes "ring_inv k P Q hd_n ch tl_n (length P) r"
  shows "\<exists>r'. pop_batch n b mb r = (r', Ok (budget_take n b mb (drop (length Q) P)))
    \<and> ring_inv k P (Q @ budget_take n b mb (drop (length Q) P)) hd_n ch tl_n (length P) r'
    \<and> is_consumer_dropped r' = is_consumer_dropped r \<and> ring_capacity (sp_ring r') = ring_capacity (sp_ring r)"
  using assms
proof (induction n arbitrary: b Q r)
  case (Suc n)
  obtain r1 x where x: "consumer_pop r = (r1, x)" by fastforce
  have keep: "is_consumer_dropped r1 = is_consumer_dropped r" "ring_capacity (sp_ring r1) = ring_capacity (sp_ring r)"
    using x dropped_flags(9) [of r]
    by (auto simp: is_consumer_dropped_def consumer_pop_def ring_pop_def ring_capacity_def split: if_splits option.splits)
  have le: "length Q \<le> length P" and Q: "Q = take (length Q) P" using ring_invD(6,16) [OF Suc.prems] by simp_all
  show ?case
  proof (cases "mb \<le> b \<or> length Q = length P")
    case True
    then have "budget_take (Suc n) b mb (drop (length Q) P) = []" by (cases "drop (length Q) P") auto
    then show ?thesis using True pop_inv [OF Suc.prems x] x Suc.prems by auto
  next
    case False
    let ?m = "P ! length Q"
    have pop: "x = Ok (Some ?m)" "ring_inv k P (Q @ [?m]) hd_n ch tl_n (length P) r1"
      using pop_inv [OF Suc.prems x] False by simp_all
    have d: "drop (length Q) P = ?m # drop (length (Q @ [?m])) P" using False le by (simp add: Cons_nth_drop_Suc)
    from Suc.IH [OF pop(2), of "b + byte_len ?m"] obtain r2 where
      "pop_batch n (b + byte_len ?m) mb r1 = (r2, Ok (budget_take n (b + byte_len ?m) mb (drop (length (Q @ [?m])) P)))"
      "ring_inv k P ((Q @ [?m]) @ budget_take n (b + byte_len ?m) mb (drop (length (Q @ [?m])) P)) hd_n ch tl_n (length P) r2"
      "is_consumer_dropped r2 = is_consumer_dropped r1" "ring_capacity (sp_ring r2) = ring_capacity (sp_ring r1)" by blast
    then show ?thesis using False x pop(1) keep unfolding d by simp
  qed
qed simp

lemma budget_take_prefix: "\<exists>ys. xs = budget_take n b mb xs @ ys"
  by (induction n b mb xs rule: budget_take.induct) auto

lemma budget_take_progress: "0 < n \<Longrightarrow> 0 < mb \<Longrightarrow> xs \<noteq> [] \<Longrightarrow> budget_take n 0 mb xs \<noteq> []"
  by (cases n; cases xs) auto

lemma clear_after_simps:
  "pp_inner (pipe_clear_after e p) = pp_inner p" "\<not> e \<Longrightarrow> pp_sig (pipe_clear_after e p) \<noteq> IDLE"
  "pp_above_lwm (pipe_clear_after e p) = pp_above_lwm p" "pp_space (pipe_clear_after e p) = pp_space p"
  by (cases "pp_sig p"; simp add: pipe_clear_after_def sig_clear_after_def sig_rearm_def)+

lemma settled_empty:
  assumes "settled r"
  shows "consumer_is_empty (rg_tail (sp_ring r)) r \<longrightarrow> ring_items r = []"
    "sp_head r = sp_cached_tail r \<Longrightarrow> ring_items r = [] \<Longrightarrow> consumer_is_empty (rg_tail (sp_ring r)) r"
    "unat (consumer_len (rg_tail (sp_ring r)) r) = length (ring_items r)"
    "unat (producer_len (rg_head (sp_ring r)) r) = length (ring_items r)"
proof -
  from assms obtain k P Q ch ct where i: "ring_inv k P Q (length Q) ch (length P) ct r" by (auto simp: settled_def)
  note d = ring_invD [OF i] and cap = capacity_nat [OF i] and it = ring_items_inv [OF i]
  have l: "length Q \<le> length P" "length P - length Q < 2 ^ 64" using d(4-9) cap(2) by simp_all
  note e = cursor_eq_iff [OF l]
  show "consumer_is_empty (rg_tail (sp_ring r)) r \<longrightarrow> ring_items r = []"
    using e it by (auto simp: consumer_is_empty_def ring_consumer_is_empty_def d(11,14))
  show "sp_head r = sp_cached_tail r \<Longrightarrow> ring_items r = [] \<Longrightarrow> consumer_is_empty (rg_tail (sp_ring r)) r"
    using it l by (simp add: consumer_is_empty_def ring_consumer_is_empty_def d(11,14))
  show "unat (consumer_len (rg_tail (sp_ring r)) r) = length (ring_items r)"
    "unat (producer_len (rg_head (sp_ring r)) r) = length (ring_items r)"
    using cursor_diff [OF l] it
    by (simp_all add: consumer_len_def ring_consumer_len_def producer_len_def ring_producer_len_def d(10-12,14))
qed

definition pipe_announces :: "message list \<Rightarrow> send_pipe \<Rightarrow> bool" where
  "pipe_announces msgs p \<longleftrightarrow> msgs \<noteq> [] \<and> pp_above_lwm p \<and>
     length (pipe_items p) - length msgs \<le> pipe_capacity p div SEND_PIPE_LWM_DIVISOR"

lemma pipe_release_simps:
  assumes "settled (consumer_release r)" and "ring_capacity (sp_ring r) = c"
  shows "pp_inner (pipe_release r p) = Queue_Inner (consumer_release r)"
    "pp_sig (pipe_release r p) = pp_sig p"
    "pp_space (pipe_release r p) = pp_space p +
       of_bool (pp_above_lwm p \<and> length (ring_items (consumer_release r)) \<le> unat c div SEND_PIPE_LWM_DIVISOR)"
    "pp_above_lwm (pipe_release r p) \<longleftrightarrow> pp_above_lwm p \<and>
       \<not> length (ring_items (consumer_release r)) \<le> unat c div SEND_PIPE_LWM_DIVISOR"
proof -
  have "ring_capacity (sp_ring (consumer_release r)) = c"
    using assms(2) by (simp add: consumer_release_def ring_release_def ring_capacity_def)
  then show "pp_inner (pipe_release r p) = Queue_Inner (consumer_release r)"
    "pp_sig (pipe_release r p) = pp_sig p"
    "pp_space (pipe_release r p) = pp_space p +
       of_bool (pp_above_lwm p \<and> length (ring_items (consumer_release r)) \<le> unat c div SEND_PIPE_LWM_DIVISOR)"
    "pp_above_lwm (pipe_release r p) \<longleftrightarrow> pp_above_lwm p \<and>
       \<not> length (ring_items (consumer_release r)) \<le> unat c div SEND_PIPE_LWM_DIVISOR"
    unfolding pipe_release_def Let_def settled_empty(3) [OF assms(1)] by (auto simp: notify_space_def)
qed

lemma drain_ring:
  assumes ok: "settled r" and msgs: "msgs = budget_take a 0 b (ring_items r)"
  shows "\<exists>r'. pop_batch a 0 b (fst (consumer_prefetch (rg_tail (sp_ring r)) r)) = (r', Ok msgs) \<and>
    settled (if msgs = [] then r' else consumer_release r') \<and>
    ring_items r = msgs @ ring_items (if msgs = [] then r' else consumer_release r') \<and>
    is_consumer_dropped (if msgs = [] then r' else consumer_release r') = is_consumer_dropped r \<and>
    ring_capacity (sp_ring r') = ring_capacity (sp_ring r) \<and>
    (consumer_is_empty (rg_tail (sp_ring r')) (if msgs = [] then r' else consumer_release r') \<longrightarrow>
       ring_items (if msgs = [] then r' else consumer_release r') = [])"
proof -
  from ok obtain k P Q ch ct where i: "ring_inv k P Q (length Q) ch (length P) ct r" by (auto simp: settled_def)
  let ?f = "fst (consumer_prefetch (rg_tail (sp_ring r)) r)"
  have f: "ring_inv k P Q (length Q) ch (length P) (length P) ?f"
    using i by (simp add: ring_inv_def consumer_prefetch_def ring_prefetch_def)
  have m: "msgs = budget_take a 0 b (drop (length Q) P)" using msgs ring_items_inv [OF i] by simp
  have keep: "is_consumer_dropped ?f = is_consumer_dropped r" "ring_capacity (sp_ring ?f) = ring_capacity (sp_ring r)"
    by (simp_all add: is_consumer_dropped_def consumer_prefetch_def ring_prefetch_def ring_capacity_def)
  from pop_batch_inv [OF f, of a 0 b] keep obtain r' where r': "pop_batch a 0 b ?f = (r', Ok msgs)"
    "ring_inv k P (Q @ msgs) (length Q) ch (length P) (length P) r'"
    "is_consumer_dropped r' = is_consumer_dropped r" "ring_capacity (sp_ring r') = ring_capacity (sp_ring r)"
    unfolding m [symmetric] by auto
  let ?e = "if msgs = [] then r' else consumer_release r'"
  have e: "ring_inv k P (Q @ msgs) (length (Q @ msgs)) ch (length P) (length P) ?e"
    using r'(2) release_inv [OF r'(2)] by (cases "msgs = []") simp_all
  have se: "settled ?e" using e by (rule settledI)
  have "ring_items r = msgs @ ring_items ?e"
  proof -
    obtain ys where "drop (length Q) P = msgs @ ys" unfolding m using budget_take_prefix by blast
    moreover have "drop (length (Q @ msgs)) P = drop (length msgs) (drop (length Q) P)" by (simp add: add.commute)
    ultimately show ?thesis using ring_items_inv [OF i] ring_items_inv [OF e] by simp
  qed
  moreover have "is_consumer_dropped ?e = is_consumer_dropped r" using r'(3) dropped_flags(11) [of r']
    by (simp add: is_consumer_dropped_def)
  moreover have "rg_tail (sp_ring r') = rg_tail (sp_ring ?e)"
    by (simp add: consumer_release_def ring_release_def)
  then have "consumer_is_empty (rg_tail (sp_ring r')) ?e \<longrightarrow> ring_items ?e = []"
    using settled_empty(1) [OF se] by simp
  ultimately show ?thesis using r'(1,4) se by (intro exI [of _ r'] conjI)
qed

lemma drain_into_queue:
  assumes ok: "pipe_ok p" and q: "pp_inner p = Queue_Inner r"
  shows "\<exists>p' msgs. drain_into a b p = (p', Ok msgs) \<and> pipe_ok p' \<and> same_mode p p' \<and>
    pipe_items p = msgs @ pipe_items p' \<and> msgs = budget_take a 0 b (pipe_items p) \<and>
    pp_space p' = pp_space p + of_bool (pipe_announces msgs p) \<and>
    (pp_above_lwm p' \<longleftrightarrow> pp_above_lwm p \<and> \<not> pipe_announces msgs p)"
proof -
  have s: "settled r" using ok q by (simp add: pipe_ok_def)
  define msgs where "msgs = budget_take a 0 b (ring_items r)"
  from drain_ring [OF s msgs_def] obtain r' where r': "pop_batch a 0 b (fst (consumer_prefetch (rg_tail (sp_ring r)) r)) = (r', Ok msgs)"
    and d: "settled (if msgs = [] then r' else consumer_release r')"
      "ring_items r = msgs @ ring_items (if msgs = [] then r' else consumer_release r')"
      "is_consumer_dropped (if msgs = [] then r' else consumer_release r') = is_consumer_dropped r"
      "ring_capacity (sp_ring r') = ring_capacity (sp_ring r)"
    by (elim exE conjE) (rule that; assumption)
  let ?p = "p\<lparr>pp_sig := sig_begin_drain (pp_sig p)\<rparr>"
  let ?q = "if msgs \<noteq> [] then pipe_release r' ?p else ?p\<lparr>pp_inner := Queue_Inner r'\<rparr>"
  let ?e = "if msgs = [] then r' else consumer_release r'"
  have res: "drain_into a b p = (pipe_clear_after (pipe_is_empty ?q) ?q, Ok msgs)"
    using q r' by (simp add: drain_into_def Let_def)
  have in_q: "pp_inner ?q = Queue_Inner ?e"
    using d(1) pipe_release_simps(1) [OF _ d(4), of ?p] by (cases "msgs = []") simp_all
  have cap: "ring_capacity (sp_ring ?e) = ring_capacity (sp_ring r)"
    using d(4) by (simp add: consumer_release_def ring_release_def ring_capacity_def)
  have it: "pipe_items p = msgs @ ring_items ?e" "pipe_items ?q = ring_items ?e"
    using q d(2) in_q by (simp_all add: pipe_items_def)
  have "pipe_is_empty ?q \<longrightarrow> ring_items ?e = []" using settled_empty(1) [OF d(1)] in_q by (simp add: pipe_is_empty_def)
  then have "pipe_ok (pipe_clear_after (pipe_is_empty ?q) ?q)"
    using d(1) in_q it clear_after_simps(1,2) [of "pipe_is_empty ?q" ?q]
    by (cases "pipe_is_empty ?q") (simp_all add: pipe_ok_def pipe_items_def)
  moreover have "same_mode p (pipe_clear_after (pipe_is_empty ?q) ?q)"
    using q in_q cap d(3) by (simp add: same_mode_def clear_after_simps pipe_capacity_def pipe_is_alive_def)
  moreover have "pp_space ?q = pp_space p + of_bool (pipe_announces msgs p) \<and>
    (pp_above_lwm ?q \<longleftrightarrow> pp_above_lwm p \<and> \<not> pipe_announces msgs p)"
  proof (cases "msgs = []")
    case False
    with d(1) have "settled (consumer_release r')" by simp
    note pr = pipe_release_simps(3,4) [OF this d(4), of ?p]
    have "pipe_announces msgs p \<longleftrightarrow> pp_above_lwm p \<and>
        length (ring_items (consumer_release r')) \<le> unat (ring_capacity (sp_ring r)) div SEND_PIPE_LWM_DIVISOR"
      using it(1) False q by (simp add: pipe_announces_def pipe_capacity_def)
    then show ?thesis using False pr by auto
  qed (simp add: pipe_announces_def)
  moreover have "pipe_items p = ring_items r" using q by (simp add: pipe_items_def)
  ultimately show ?thesis
    using it in_q by (intro exI conjI) (rule res | simp add: clear_after_simps pipe_items_def msgs_def)+
qed

lemma drain_into_conflate:
  assumes ok: "pipe_ok p" and q: "pp_inner p = Conflate_Inner c"
  shows "\<exists>p' msgs. drain_into a b p = (p', Ok msgs) \<and> pipe_ok p' \<and> same_mode p p' \<and>
    pipe_items p = msgs @ pipe_items p' \<and> msgs = (if a = 0 \<or> b = 0 then [] else pipe_items p) \<and>
    pp_space p' = pp_space p \<and> pp_above_lwm p' = pp_above_lwm p"
  using assms
  by (auto simp: drain_into_def drain_conflate_def pipe_ok_def same_mode_def pipe_capacity_def pipe_is_alive_def
      pipe_items_def clear_after_simps split: option.splits)

lemma drain_into_items:
  assumes "pipe_ok p" "drain_into a b p = (p', Ok out)"
  shows "pipe_items p = out @ pipe_items p'"
proof (cases "pp_inner p")
  case (Queue_Inner r)
  from drain_into_queue [OF assms(1) this, of a b] obtain q y where "drain_into a b p = (q, Ok y)" "pipe_items p = y @ pipe_items q"
    by (elim exE conjE) (rule that; assumption)
  then show ?thesis using assms(2) by simp
next
  case (Conflate_Inner c)
  from drain_into_conflate [OF assms(1) this, of a b] obtain q y where "drain_into a b p = (q, Ok y)" "pipe_items p = y @ pipe_items q"
    by (elim exE conjE) (rule that; assumption)
  then show ?thesis using assms(2) by simp
qed

lemma push_many_inv:
  assumes "ring_inv k P Q (length Q) ch tl_n ct r" and "\<not> is_consumer_dropped r"
    and "push_many n msgs count r = (r', count', msgs', stop)"
  shows "\<exists>j c. j \<le> n \<and> j \<le> length msgs \<and> count' = count + j \<and> msgs' = drop j msgs \<and>
    ring_inv k (P @ take j msgs) Q (length Q) c tl_n ct r' \<and> ring_capacity (sp_ring r') = ring_capacity (sp_ring r) \<and>
    \<not> is_consumer_dropped r' \<and>
    (stop = Stop_Done \<and> j = min n (length msgs) \<or>
     stop = Stop_Full \<and> j < length msgs \<and> length P + j - length Q = 2 ^ k)"
  using assms
proof (induction n msgs count r arbitrary: P ch rule: push_many.induct)
  case (1 msgs count r)
  then show ?case by (intro exI [of _ 0] exI [of _ ch]) auto
next
  case (2 n count r)
  then show ?case by (intro exI [of _ 0] exI [of _ ch]) auto
next
  case (3 n msg msgs count r)
  obtain r1 x where x: "producer_push (rg_head (sp_ring r)) msg r = (r1, x)" by fastforce
  have keep: "ring_capacity (sp_ring r1) = ring_capacity (sp_ring r)" "\<not> is_consumer_dropped r1"
    using x producer_push_keeps(1) [of "rg_head (sp_ring r)" msg r] dropped_flags(1) [of "rg_head (sp_ring r)" msg r] 3(3)
    by (simp_all add: is_consumer_dropped_def)
  have "fresh_head r (rg_head (sp_ring r))" by (simp add: fresh_head_def)
  from push_inv [OF 3(2) this x] obtain c where c: "ch \<le> c" "c \<le> length Q"
    "x = Inl msg \<and> ring_inv k P Q (length Q) c tl_n ct r1 \<and> length P = c + 2 ^ k \<and> rg_head (sp_ring r) = of_nat c
     \<or> x = Inr () \<and> ring_inv k (P @ [msg]) Q (length Q) c tl_n ct r1" by blast
  from c(3) show ?case
  proof
    assume f: "x = Inl msg \<and> ring_inv k P Q (length Q) c tl_n ct r1 \<and> length P = c + 2 ^ k \<and> rg_head (sp_ring r) = of_nat c"
    have "length Q - c < 2 ^ 64"
      using c ring_invD(4-9) [OF 3(2)] capacity_nat(2) [OF 3(2)] by simp
    then have "c = length Q" using f cursor_eq_iff [OF c(2)] unfolding ring_invD(10) [OF 3(2)] by metis
    then show ?thesis using f x keep 3(4) by (intro exI [of _ 0] exI [of _ c]) auto
  next
    assume f: "x = Inr () \<and> ring_inv k (P @ [msg]) Q (length Q) c tl_n ct r1"
    then have i: "ring_inv k (P @ [msg]) Q (length Q) c tl_n ct r1" by simp
    have p: "push_many n msgs (count + 1) r1 = (r', count', msgs', stop)" using 3(4) x f by simp
    have u: "x = Inr ()" using f by simp
    from 3(1) [OF x [symmetric] u i keep(2) p] obtain j d where j: "j \<le> n" "j \<le> length msgs" "count' = count + 1 + j"
      "msgs' = drop j msgs" "ring_inv k ((P @ [msg]) @ take j msgs) Q (length Q) d tl_n ct r'"
      "ring_capacity (sp_ring r') = ring_capacity (sp_ring r1)" "\<not> is_consumer_dropped r'"
      "stop = Stop_Done \<and> j = min n (length msgs) \<or>
       stop = Stop_Full \<and> j < length msgs \<and> length (P @ [msg]) + j - length Q = 2 ^ k"
      by (elim exE conjE) (rule that; assumption)
    then show ?thesis using keep(1) by (intro exI [of _ "Suc j"] exI [of _ d]) auto
  qed
qed

lemma pipe_try_send_many_queue:
  assumes ok: "pipe_ok p" and q: "pp_inner p = Queue_Inner r" and t: "pipe_try_send_many msgs m p = (p', msgs', res)"
  shows "pipe_ok p' \<and> same_mode p p' \<and>
    (\<exists>j \<le> m. j \<le> length msgs \<and> pipe_items p' = pipe_items p @ take j msgs \<and>
      (res = Inr j \<and> msgs' = drop j msgs \<or>
       res = Inl (Pipe_Full (hd msgs)) \<and> j = 0 \<and> msgs \<noteq> [] \<and> msgs' = tl msgs \<and> \<not> pipe_has_room p \<and> pp_above_lwm p' \<or>
       res = Inl (Pipe_Closed (hd msgs)) \<and> j = 0 \<and> msgs \<noteq> [] \<and> msgs' = tl msgs \<and> \<not> pipe_is_alive p))"
proof (cases "is_consumer_dropped r")
  case True
  then have "p' = p \<and> (msgs = [] \<and> msgs' = [] \<and> res = Inr 0 \<or> msgs \<noteq> [] \<and> msgs' = tl msgs \<and> res = Inl (Pipe_Closed (hd msgs)))"
    using t q by (cases msgs) (auto simp: pipe_try_send_many_def)
  then show ?thesis using ok q True by (auto simp: same_mode_def pipe_is_alive_def intro!: exI [of _ 0])
next
  case False
  obtain r' n rest stop where pm: "push_many m msgs 0 r = (r', n, rest, stop)" by (metis prod_cases4)
  from ok q have "settled r" by (simp add: pipe_ok_def)
  then obtain k P Q ch ct where i: "ring_inv k P Q (length Q) ch (length P) ct r" by (auto simp: settled_def)
  from push_many_inv [OF i False pm] obtain j c where j: "j \<le> m" "j \<le> length msgs" "n = j" "rest = drop j msgs"
    "ring_inv k (P @ take j msgs) Q (length Q) c (length P) ct r'" "ring_capacity (sp_ring r') = ring_capacity (sp_ring r)"
    "\<not> is_consumer_dropped r'"
    "stop = Stop_Done \<and> j = min m (length msgs) \<or> stop = Stop_Full \<and> j < length msgs \<and> length P + j - length Q = 2 ^ k"
    by auto
  note d = ring_invD(5-8) [OF i] and cap = capacity_nat(1) [OF i] and it = ring_items_inv [OF i]
  have f: "ring_inv k (P @ take j msgs) Q (length Q) c (length (P @ take j msgs)) ct (producer_flush r')"
    by (rule flush_inv [OF j(5)])
  have itf: "ring_items (producer_flush r') = ring_items r @ take j msgs" "settled (producer_flush r')"
    using ring_items_inv [OF f] it d settledI [OF f] by simp_all
  have keep: "ring_capacity (sp_ring (producer_flush r')) = ring_capacity (sp_ring r)" "\<not> is_consumer_dropped (producer_flush r')"
    using j(6,7) producer_push_keeps(2) [of r'] dropped_flags(3) [of r'] by (simp_all add: is_consumer_dropped_def)
  show ?thesis
  proof (cases "j = 0")
    case z: True
    then have s: "settled r'" "ring_items r' = ring_items r" using j(5) it ring_items_inv settledI by auto
    have "length (ring_items r) = unat (ring_capacity (sp_ring r))" if "stop = Stop_Full" using that j(8) z it cap by simp
    then show ?thesis using t q False pm j(2-4,6-8) z s ok
      by (auto simp: pipe_try_send_many_def Let_def pipe_ok_def pipe_items_def same_mode_def pipe_capacity_def
          pipe_is_alive_def pipe_has_room_def hd_drop_conv_nth split: if_splits)
  next
    case False
    let ?p = "if stop = Stop_Full then p\<lparr>pp_above_lwm := True\<rparr> else p"
    have "p' = pipe_mark (?p\<lparr>pp_inner := Queue_Inner (producer_flush r')\<rparr>)" "msgs' = drop j msgs" "res = Inr j"
      using t q \<open>\<not> is_consumer_dropped r\<close> pm j(3,4) False by (auto simp: pipe_try_send_many_def Let_def)
    then show ?thesis using q j(1,2) itf keep \<open>\<not> is_consumer_dropped r\<close>
      by (auto simp: pipe_ok_def pipe_items_def same_mode_def pipe_capacity_def pipe_is_alive_def pipe_mark_simps)
  qed
qed

section \<open>The pipe is a bounded queue with back-pressure\<close>

text \<open>
  Any use of a pipe: \<open>S\<close> is all that was accepted, \<open>D\<close> all that was drained and \<open>R\<close> tells
  that a message was refused and no space was announced since.
\<close>

inductive pipe_trace :: "nat \<Rightarrow> send_pipe_mode \<Rightarrow> message list \<Rightarrow> message list \<Rightarrow> bool \<Rightarrow> send_pipe \<Rightarrow> bool" for cap mode where
  pt_new: "send_pipe_with_mode cap mode = Ok p \<Longrightarrow> pipe_trace cap mode [] [] False p"
| pt_send: "pipe_trace cap mode S D R p \<Longrightarrow> pipe_try_send m p = (p', res)
    \<Longrightarrow> pipe_trace cap mode (if res = Inr () then S @ [m] else S) D (R \<or> res = Inl (Pipe_Full m)) p'"
| pt_many: "pipe_trace cap mode S D R p \<Longrightarrow> pipe_try_send_many ms n p = (p', rest, res)
    \<Longrightarrow> pipe_trace cap mode (S @ (case res of Inr j \<Rightarrow> take j ms | Inl _ \<Rightarrow> [])) D
          (R \<or> res = Inl (Pipe_Full (hd ms))) p'"
| pt_drain: "pipe_trace cap mode S D R p \<Longrightarrow> drain_into a b p = (p', Ok out)
    \<Longrightarrow> pipe_trace cap mode S (D @ out) (R \<and> pp_space p' = pp_space p) p'"

definition pipe_hist :: "nat \<Rightarrow> send_pipe_mode \<Rightarrow> message list \<Rightarrow> message list \<Rightarrow> bool \<Rightarrow> send_pipe \<Rightarrow> bool" where
  "pipe_hist cap mode S D R p \<longleftrightarrow> pipe_ok p \<and> (R \<longrightarrow> pp_above_lwm p) \<and>
     (case (mode, pp_inner p) of
        (Pipe_Queue, Queue_Inner _) \<Rightarrow> S = D @ pipe_items p \<and> cap \<le> pipe_capacity p
      | (Pipe_Conflate, Conflate_Inner _) \<Rightarrow>
          \<not> R \<and> (\<exists>S'. subseq D S' \<and> prefix S' S \<and> (pipe_items p = [] \<or> S' \<noteq> S \<and> pipe_items p = [last S]))
      | _ \<Rightarrow> False)"

lemma pipe_hist_queue:
  "pipe_hist cap Pipe_Queue S D R p \<longleftrightarrow> (\<exists>r. pp_inner p = Queue_Inner r) \<and> pipe_ok p \<and> (R \<longrightarrow> pp_above_lwm p) \<and>
     S = D @ pipe_items p \<and> cap \<le> pipe_capacity p"
  by (cases "pp_inner p") (auto simp: pipe_hist_def)

lemma pipe_hist_conflate:
  "pipe_hist cap Pipe_Conflate S D R p \<longleftrightarrow> (\<exists>c. pp_inner p = Conflate_Inner c) \<and> pipe_ok p \<and> \<not> R \<and>
     (\<exists>S'. subseq D S' \<and> prefix S' S \<and> (pipe_items p = [] \<or> S' \<noteq> S \<and> pipe_items p = [last S]))"
  by (cases "pp_inner p") (auto simp: pipe_hist_def)

lemma same_mode_inner:
  "same_mode p p' \<Longrightarrow> pp_inner p = Queue_Inner r \<Longrightarrow> \<exists>r'. pp_inner p' = Queue_Inner r'"
  "same_mode p p' \<Longrightarrow> pp_inner p = Conflate_Inner c \<Longrightarrow> \<exists>c'. pp_inner p' = Conflate_Inner c'"
  by (cases "pp_inner p'"; simp add: same_mode_def)+

lemma pipe_hist_new:
  assumes "send_pipe_with_mode cap mode = Ok p"
  shows "pipe_hist cap mode [] [] False p"
proof -
  from assms obtain r where r: "spsc_new (max cap 1) = Ok r"
    and p: "pp_inner p = (case mode of Pipe_Queue \<Rightarrow> Queue_Inner r
      | Pipe_Conflate \<Rightarrow> Conflate_Inner \<lparr>cf_slot = None, cf_producer_dropped = False, cf_consumer_dropped = False\<rparr>)"
    by (cases "spsc_new (max cap 1) :: message spsc result") (auto simp: send_pipe_with_mode_def)
  from spsc_new_inv [OF r] obtain k where k: "max cap 1 \<le> 2 ^ k" "spsc_inv k [] [] r" by blast
  from k(2) obtain hd_n ch tl_n ct where i: "ring_inv k [] [] hd_n ch tl_n ct r" by (rule spsc_invE)
  then have "ring_inv k [] [] (length ([] :: message list)) ch (length ([] :: message list)) ct r"
    by (auto simp: ring_inv_def)
  note i = this
  show ?thesis
    using p settledI [OF i] ring_items_inv [OF i] capacity_nat(1) [OF i] k(1)
    by (cases mode) (auto simp: pipe_hist_def pipe_ok_def pipe_items_def pipe_capacity_def)
qed

lemma pipe_hist_send:
  assumes h: "pipe_hist cap mode S D R p" and t: "pipe_try_send m p = (p', res)"
  shows "pipe_hist cap mode (if res = Inr () then S @ [m] else S) D (R \<or> res = Inl (Pipe_Full m)) p'"
proof -
  have ok: "pipe_ok p" using h by (simp add: pipe_hist_def)
  note c = pipe_try_send_cases [OF ok t]
  show ?thesis
  proof (cases mode)
    case Pipe_Queue
    with h obtain r where r: "pp_inner p = Queue_Inner r" by (auto simp: pipe_hist_queue)
    obtain r' where "pp_inner p' = Queue_Inner r'" using same_mode_inner(1) [OF _ r] c by blast
    moreover have "R \<longrightarrow> pp_above_lwm p'" using h t r Pipe_Queue
      by (auto simp: pipe_hist_queue pipe_try_send_def pipe_mark_simps split: if_splits prod.splits sum.splits)
    ultimately show ?thesis using c h Pipe_Queue r by (auto simp: pipe_hist_queue pipe_accept_def same_mode_def)
  next
    case Pipe_Conflate
    with h obtain x where r: "pp_inner p = Conflate_Inner x" by (auto simp: pipe_hist_conflate)
    obtain x' where x': "pp_inner p' = Conflate_Inner x'" using same_mode_inner(2) [OF _ r] c by blast
    from h Pipe_Conflate obtain S' where S': "subseq D S'" "prefix S' S" by (auto simp: pipe_hist_conflate)
    have "prefix S' (S @ [m])" "S' \<noteq> S @ [m]" using S'(2) by (auto simp: prefix_def)
    then show ?thesis using c h r x' S'(1) Pipe_Conflate by (auto simp: pipe_hist_conflate pipe_has_room_def pipe_accept_def)
  qed
qed

lemma many_keeps_mark:
  assumes "pipe_try_send_many ms n p = (p', rest, res)" and "pp_above_lwm p"
  shows "pp_above_lwm p'"
  using assms
  by (auto simp: pipe_try_send_many_def try_send_conflate_def Let_def pipe_mark_simps
      split: pipe_inner.splits list.splits if_splits prod.splits push_stop.splits)

lemma pipe_hist_many:
  assumes h: "pipe_hist cap mode S D R p" and t: "pipe_try_send_many ms n p = (p', rest, res)"
  shows "pipe_hist cap mode (S @ (case res of Inr j \<Rightarrow> take j ms | Inl _ \<Rightarrow> [])) D
    (R \<or> res = Inl (Pipe_Full (hd ms))) p'"
proof (cases mode)
  case Pipe_Queue
  with h obtain r where r: "pp_inner p = Queue_Inner r" and ok: "pipe_ok p" by (auto simp: pipe_hist_queue)
  note c = pipe_try_send_many_queue [OF ok r t]
  obtain r' where "pp_inner p' = Queue_Inner r'" using same_mode_inner(1) [OF _ r] c by blast
  then show ?thesis using c h Pipe_Queue many_keeps_mark [OF t]
    by (auto simp: pipe_hist_queue same_mode_def)
next
  case Pipe_Conflate
  with h obtain x where r: "pp_inner p = Conflate_Inner x" by (auto simp: pipe_hist_conflate)
  show ?thesis
  proof (cases ms)
    case Nil
    then show ?thesis using h t r Pipe_Conflate by (auto simp: pipe_try_send_many_def pipe_hist_conflate)
  next
    case (Cons m ms')
    obtain q y where y: "pipe_try_send m p = (q, y)" by fastforce
    have e: "p' = q" "res = (case y of Inr _ \<Rightarrow> Inr 1 | Inl e \<Rightarrow> Inl e)"
      using t y r Cons by (auto simp: pipe_try_send_many_def pipe_try_send_def split: prod.splits sum.splits)
    have "y = Inr () \<or> y = Inl (Pipe_Closed m)" using y r
      by (auto simp: pipe_try_send_def try_send_conflate_def split: if_splits)
    with pipe_hist_send [OF h y] e Cons show ?thesis by auto
  qed
qed

lemma pipe_drain_step:
  assumes h: "pipe_hist cap mode S D R p"
  shows "\<exists>p' out. drain_into a b p = (p', Ok out) \<and>
    pipe_hist cap mode S (D @ out) (R \<and> pp_space p' = pp_space p) p' \<and>
    (0 < a \<and> 0 < b \<and> pipe_items p \<noteq> [] \<longrightarrow> out \<noteq> []) \<and>
    (R \<and> out \<noteq> [] \<and> length (pipe_items p') \<le> pipe_capacity p' div SEND_PIPE_LWM_DIVISOR \<longrightarrow> pp_space p' \<noteq> pp_space p)"
proof (cases mode)
  case Pipe_Queue
  with h obtain r where r: "pp_inner p = Queue_Inner r" and ok: "pipe_ok p" by (auto simp: pipe_hist_queue)
  from drain_into_queue [OF ok r, of a b] obtain p' out where d: "drain_into a b p = (p', Ok out)" "pipe_ok p'"
    "same_mode p p'" "pipe_items p = out @ pipe_items p'" "out = budget_take a 0 b (pipe_items p)"
    "pp_space p' = pp_space p + of_bool (pipe_announces out p)" "pp_above_lwm p' \<longleftrightarrow> pp_above_lwm p \<and> \<not> pipe_announces out p"
    by (elim exE conjE) (rule that; assumption)
  obtain r' where "pp_inner p' = Queue_Inner r'" using same_mode_inner(1) [OF d(3) r] by blast
  moreover have "pipe_capacity p' = pipe_capacity p" using d(3) by (simp add: same_mode_def)
  moreover have "out \<noteq> []" if "0 < a" "0 < b" "pipe_items p \<noteq> []" using budget_take_progress that d(5) by simp
  ultimately show ?thesis using h d(1-4,6,7) Pipe_Queue
    by (intro exI [of _ p'] exI [of _ out]) (auto simp: pipe_hist_queue pipe_announces_def)
next
  case Pipe_Conflate
  with h obtain x where r: "pp_inner p = Conflate_Inner x" and ok: "pipe_ok p" by (auto simp: pipe_hist_conflate)
  from drain_into_conflate [OF ok r, of a b] obtain p' out where d: "drain_into a b p = (p', Ok out)" "pipe_ok p'"
    "same_mode p p'" "pipe_items p = out @ pipe_items p'" "out = (if a = 0 \<or> b = 0 then [] else pipe_items p)"
    by (elim exE conjE) (rule that; assumption)
  obtain x' where x': "pp_inner p' = Conflate_Inner x'" using same_mode_inner(2) [OF d(3) r] by blast
  from h Pipe_Conflate obtain S' where S': "subseq D S'" "prefix S' S" "pipe_items p = [] \<or> S' \<noteq> S \<and> pipe_items p = [last S]"
    and R: "\<not> R" by (auto simp: pipe_hist_conflate)
  have "\<exists>S'. subseq (D @ out) S' \<and> prefix S' S \<and> (pipe_items p' = [] \<or> S' \<noteq> S \<and> pipe_items p' = [last S])"
  proof (cases "out = []")
    case True
    then show ?thesis using S' d(4) by auto
  next
    case False
    then have e: "out = pipe_items p" using d(5) by (simp split: if_splits)
    then have o: "out = [last S]" "pipe_items p' = []" "S' \<noteq> S" using S'(3) d(4) False by auto
    from S'(2) o(3) obtain y ys where "S = S' @ y # ys" by (metis prefixE append_Nil2 neq_Nil_conv)
    then have "subseq (D @ [last S]) S" using S'(1)
      by (auto intro!: list_emb_append_mono simp: subseq_singleton_left)
    then show ?thesis using o by blast
  qed
  then have "pipe_hist cap mode S (D @ out) False p'" using d(2) x' Pipe_Conflate by (simp add: pipe_hist_conflate)
  moreover have "0 < a \<and> 0 < b \<and> pipe_items p \<noteq> [] \<longrightarrow> out \<noteq> []" by (simp add: d(5))
  ultimately show ?thesis using d(1) R by (intro exI [of _ p'] exI [of _ out]) simp
qed

lemma pipe_trace_hist: "pipe_trace cap mode S D R p \<Longrightarrow> pipe_hist cap mode S D R p"
proof (induction rule: pipe_trace.induct)
  case (pt_new p)
  then show ?case by (rule pipe_hist_new)
next
  case (pt_send S D R p m p' res)
  from pipe_hist_send [OF pt_send.IH pt_send.hyps(2)] show ?case .
next
  case (pt_many S D R p ms n p' rest res)
  from pipe_hist_many [OF pt_many.IH pt_many.hyps(2)] show ?case .
next
  case (pt_drain S D R p a b p' out)
  from pipe_drain_step [OF pt_drain.IH, of a b] obtain q out' where
    "drain_into a b p = (q, Ok out')" "pipe_hist cap mode S (D @ out') (R \<and> pp_space q = pp_space p) q"
    by (elim exE conjE) (rule that; assumption)
  with pt_drain.hyps(2) show ?case by simp
qed

section \<open>The consumer is woken\<close>

text \<open>
  Between method calls the signal is idle or pending.  A consumer that finds the pipe
  not ready waits for a notification, so that an accepted message must raise the signal
  from idle and notify.
\<close>

definition at_rest :: "send_pipe \<Rightarrow> bool" where
  "at_rest p \<longleftrightarrow> pp_sig p = IDLE \<or> pp_sig p = PENDING"

definition raised :: "send_pipe \<Rightarrow> send_pipe \<Rightarrow> bool" where
  "raised p p' \<longleftrightarrow> pp_sig p' = PENDING \<and> pp_notified p' = pp_notified p + of_bool (pp_sig p = IDLE)"

lemma raised_at_rest: "raised p p' \<Longrightarrow> at_rest p'"
  by (simp add: raised_def at_rest_def)

lemma pipe_mark_raises:
  "at_rest p \<Longrightarrow> pp_sig q = pp_sig p \<Longrightarrow> pp_notified q = pp_notified p \<Longrightarrow> raised p (pipe_mark q)"
  by (auto simp: at_rest_def raised_def pipe_mark_def sig_mark_def)

lemma try_send_raises:
  assumes "at_rest p" and "pipe_try_send m p = (p', res)"
  shows "res = Inr () \<longrightarrow> raised p p'" "at_rest p'"
proof -
  note raise = pipe_mark_raises [OF assms(1)]
  have "(res = Inr () \<and> raised p p') \<or> (res \<noteq> Inr () \<and> pp_sig p' = pp_sig p)"
    using assms(2) by (auto simp: pipe_try_send_def try_send_conflate_def intro: raise
        split: pipe_inner.splits if_splits prod.splits sum.splits)
  then show "res = Inr () \<longrightarrow> raised p p'" "at_rest p'"
    using assms(1) raised_at_rest by (auto simp: at_rest_def)
qed

lemma try_send_many_raises:
  assumes "at_rest p" and "pipe_try_send_many ms n p = (p', rest, res)"
  shows "res = Inr j \<and> 0 < j \<longrightarrow> raised p p'" "at_rest p'"
proof -
  note raise = pipe_mark_raises [OF assms(1)]
  have "raised p p' \<or> ((\<forall>j. res = Inr j \<longrightarrow> j = 0) \<and> pp_sig p' = pp_sig p)"
    using assms(2) by (auto simp: pipe_try_send_many_def try_send_conflate_def Let_def intro: raise
        split: pipe_inner.splits list.splits if_splits prod.splits push_stop.splits)
  then show "res = Inr j \<and> 0 < j \<longrightarrow> raised p p'" "at_rest p'"
    using assms(1) raised_at_rest by (auto simp: at_rest_def)
qed

lemma clear_after_rests:
  assumes "at_rest p" and "pp_sig q = sig_begin_drain (pp_sig p)" "pp_notified q = pp_notified p"
  shows "at_rest (pipe_clear_after e q)"
    and "\<not> e \<Longrightarrow> pp_sig (pipe_clear_after e q) = PENDING \<and> pp_notified (pipe_clear_after e q) = pp_notified p + 1"
  using assms
  by (auto simp: at_rest_def pipe_clear_after_def sig_clear_after_def sig_rearm_def sig_begin_drain_def)

lemma pipe_release_sig: "pp_sig (pipe_release r p) = pp_sig p" "pp_notified (pipe_release r p) = pp_notified p"
  by (simp_all add: pipe_release_def notify_space_def Let_def)

lemma drain_rests:
  assumes "at_rest p" and "drain_into a b p = (p', Ok out)"
  shows "at_rest p'" "\<not> pipe_is_empty p' \<Longrightarrow> pp_sig p' = PENDING \<and> pp_notified p' = pp_notified p + 1"
proof -
  have "\<exists>q. p' = pipe_clear_after (pipe_is_empty p') q \<and> pp_sig q = sig_begin_drain (pp_sig p) \<and> pp_notified q = pp_notified p"
  proof (cases "pp_inner p")
    case (Queue_Inner r)
    obtain r' x where x: "pop_batch a 0 b (fst (consumer_prefetch (rg_tail (sp_ring r)) r)) = (r', x)" by fastforce
    let ?p = "p\<lparr>pp_sig := sig_begin_drain (pp_sig p)\<rparr>"
    let ?q = "if out \<noteq> [] then pipe_release r' ?p else ?p\<lparr>pp_inner := Queue_Inner r'\<rparr>"
    have "p' = pipe_clear_after (pipe_is_empty ?q) ?q"
      using assms(2) x Queue_Inner by (auto simp: drain_into_def Let_def split: sum.splits)
    moreover have "pipe_is_empty (pipe_clear_after e q) = pipe_is_empty q" for e q
      by (simp add: pipe_is_empty_def clear_after_simps(1))
    ultimately show ?thesis by (intro exI [of _ ?q]) (auto simp: pipe_release_sig)
  next
    case (Conflate_Inner c)
    let ?p = "p\<lparr>pp_sig := sig_begin_drain (pp_sig p)\<rparr>"
    let ?q = "if a = 0 \<or> b = 0 then ?p else ?p\<lparr>pp_inner := Conflate_Inner (c\<lparr>cf_slot := None\<rparr>)\<rparr>"
    show ?thesis using assms(2) Conflate_Inner
      by (intro exI [of _ ?q]) (auto simp: drain_into_def drain_conflate_def Let_def pipe_is_empty_def clear_after_simps(1))
  qed
  then obtain q where q: "p' = pipe_clear_after (pipe_is_empty p') q" "pp_sig q = sig_begin_drain (pp_sig p)"
    "pp_notified q = pp_notified p" by blast
  note c = clear_after_rests [OF assms(1) q(2,3), of "pipe_is_empty p'", folded q(1)]
  show "at_rest p'" by (rule c(1))
  show "\<not> pipe_is_empty p' \<Longrightarrow> pp_sig p' = PENDING \<and> pp_notified p' = pp_notified p + 1" by (rule c(2))
qed

lemma pipe_trace_rests: "pipe_trace cap mode S D R p \<Longrightarrow> at_rest p"
proof (induction rule: pipe_trace.induct)
  case (pt_new p)
  then show ?case by (auto simp: send_pipe_with_mode_def rbind_Ok_iff at_rest_def)
next
  case (pt_drain S D R p a b p' out)
  then show ?case using drain_rests(1) by blast
qed (blast intro: try_send_raises(2) try_send_many_raises(2))+

lemma pipe_held_not_empty:
  "pipe_ok p \<Longrightarrow> pipe_items p \<noteq> [] \<Longrightarrow> \<not> pipe_is_empty p"
  using settled_empty(1)
  by (auto simp: pipe_ok_def pipe_items_def pipe_is_empty_def split: pipe_inner.splits option.splits)

text \<open>
  C16.  A send pipe is a bounded queue with back-pressure and wake-ups.  After any
  sequence of single sends, batched sends and drains of a pipe in queue mode, what was
  accepted is what was drained followed by what the ring holds, in order, and the
  ring has at least the capacity asked for; a conflating pipe holds at most the
  last message accepted and drains a subsequence.  The data signal is pending while
  messages are held; a send, single or batched, that is accepted while the
  consumer finds nothing to do raises the signal and notifies it, and a drain that
  leaves messages raises the signal again and notifies.  A drain never reads an
  empty slot, takes something when its budgets are not zero and something is held, and
  announces space when a message was refused and at most half of the capacity
  remains used.
\<close>

theorem send_pipe_contract:
  assumes "pipe_trace cap mode S D R p"
  shows "(mode = Pipe_Queue \<longrightarrow> S = D @ pipe_items p \<and> cap \<le> pipe_capacity p) \<and>
    (mode = Pipe_Conflate \<longrightarrow> subseq D S \<and> (pipe_items p = [] \<or> pipe_items p = [last S])) \<and>
    (pipe_items p \<noteq> [] \<longrightarrow> pp_sig p = PENDING) \<and>
    (\<not> pipe_ready p \<and> pipe_try_send m p = (p1, Inr ()) \<longrightarrow>
       pp_sig p1 = PENDING \<and> pp_notified p1 = pp_notified p + 1) \<and>
    (\<not> pipe_ready p \<and> pipe_try_send_many ms n p = (p2, rest, Inr j) \<and> 0 < j \<longrightarrow>
       pp_sig p2 = PENDING \<and> pp_notified p2 = pp_notified p + 1) \<and>
    (\<exists>p' out. drain_into a b p = (p', Ok out) \<and> pipe_items p = out @ pipe_items p' \<and>
       (0 < a \<and> 0 < b \<and> pipe_items p \<noteq> [] \<longrightarrow> out \<noteq> []) \<and>
       (pipe_items p' \<noteq> [] \<longrightarrow> pp_sig p' = PENDING \<and> pp_notified p' = pp_notified p + 1) \<and>
       (R \<and> out \<noteq> [] \<and> length (pipe_items p') \<le> pipe_capacity p' div SEND_PIPE_LWM_DIVISOR \<longrightarrow>
          pp_space p' \<noteq> pp_space p))"
proof -
  note h = pipe_trace_hist [OF assms] and rest = pipe_trace_rests [OF assms]
  have ok: "pipe_ok p" using h by (simp add: pipe_hist_def)
  from pipe_drain_step [OF h, of a b] obtain p' out where d: "drain_into a b p = (p', Ok out)"
    "pipe_hist cap mode S (D @ out) (R \<and> pp_space p' = pp_space p) p'"
    "0 < a \<and> 0 < b \<and> pipe_items p \<noteq> [] \<longrightarrow> out \<noteq> []"
    "R \<and> out \<noteq> [] \<and> length (pipe_items p') \<le> pipe_capacity p' div SEND_PIPE_LWM_DIVISOR \<longrightarrow> pp_space p' \<noteq> pp_space p"
    by (elim exE conjE) (rule that; assumption)
  have "pipe_ok p'" using d(2) by (simp add: pipe_hist_def)
  then have "pipe_items p' \<noteq> [] \<longrightarrow> pp_sig p' = PENDING \<and> pp_notified p' = pp_notified p + 1"
    using drain_rests(2) [OF rest d(1)] pipe_held_not_empty by blast
  moreover have "pipe_items p = out @ pipe_items p'" using drain_into_items [OF ok d(1)] .
  moreover have "mode = Pipe_Queue \<longrightarrow> S = D @ pipe_items p \<and> cap \<le> pipe_capacity p" using h by (auto simp: pipe_hist_queue)
  moreover have "mode = Pipe_Conflate \<longrightarrow> subseq D S \<and> (pipe_items p = [] \<or> pipe_items p = [last S])"
    using h by (auto simp: pipe_hist_conflate prefix_def)
  moreover have "pipe_items p \<noteq> [] \<longrightarrow> pp_sig p = PENDING" using ok rest by (auto simp: pipe_ok_def at_rest_def)
  moreover have "\<not> pipe_ready p \<and> pipe_try_send m p = (p1, Inr ()) \<longrightarrow>
      pp_sig p1 = PENDING \<and> pp_notified p1 = pp_notified p + 1"
    using try_send_raises(1) [OF rest, of m p1 "Inr ()"] by (auto simp: pipe_ready_def raised_def)
  moreover have "\<not> pipe_ready p \<and> pipe_try_send_many ms n p = (p2, rest', Inr j) \<and> 0 < j \<longrightarrow>
      pp_sig p2 = PENDING \<and> pp_notified p2 = pp_notified p + 1" for rest'
    using try_send_many_raises(1) [OF rest, of ms n p2 rest' "Inr j" j] by (auto simp: pipe_ready_def raised_def)
  ultimately show ?thesis using d(1,3,4) by (intro conjI exI) assumption+
qed

definition fresh_pipe :: send_pipe where
  "fresh_pipe =
     \<lparr>pp_inner = Queue_Inner \<lparr>sp_ring = \<lparr>rg_buf = [None], rg_mask = 0, rg_head = 0, rg_tail = 0,
         rg_producer_dropped = False, rg_consumer_dropped = False\<rparr>,
       sp_cursor = 0, sp_cached_head = 0, sp_head = 0, sp_cached_tail = 0\<rparr>,
      pp_sig = IDLE, pp_notified = 0, pp_space = 0, pp_above_lwm = False\<rparr>"

definition held_pipe :: send_pipe where
  "held_pipe = fst (pipe_try_send (Multi [PSingle [1]]) fresh_pipe)"

definition full_pipe :: send_pipe where
  "full_pipe = fst (pipe_try_send (Multi [PSingle [2]]) held_pipe)"

lemma full_pipe_trace:
  "pipe_trace 1 Pipe_Queue [Multi [PSingle [1]]] [] True full_pipe"
proof -
  have e: "send_pipe_with_mode 1 Pipe_Queue = Ok fresh_pipe" "snd (pipe_try_send (Multi [PSingle [1]]) fresh_pipe) = Inr ()"
    "snd (pipe_try_send (Multi [PSingle [2]]) held_pipe) = Inl (Pipe_Full (Multi [PSingle [2]]))"
    by code_simp+
  have s1: "pipe_try_send (Multi [PSingle [1]]) fresh_pipe = (held_pipe, Inr ())"
    using e(2) by (simp add: held_pipe_def prod_eq_iff)
  have s2: "pipe_try_send (Multi [PSingle [2]]) held_pipe = (full_pipe, Inl (Pipe_Full (Multi [PSingle [2]])))"
    using e(3) by (simp add: full_pipe_def prod_eq_iff)
  from pt_send [OF pt_send [OF pt_new [OF e(1)] s1] s2] show ?thesis by simp
qed

lemma send_pipe_contract_witness:
  "pipe_items full_pipe = [Multi [PSingle [1]]] \<and> pp_sig full_pipe = PENDING \<and>
   (\<exists>p1. pipe_try_send (Multi [PSingle [1]]) fresh_pipe = (p1, Inr ()) \<and> pp_notified p1 = pp_notified fresh_pipe + 1) \<and>
   (\<exists>p' out. drain_into 8 100 full_pipe = (p', Ok out) \<and> out \<noteq> [] \<and>
      (length (pipe_items p') \<le> pipe_capacity p' div SEND_PIPE_LWM_DIVISOR \<longrightarrow> pp_space p' \<noteq> pp_space full_pipe))"
proof -
  have e: "send_pipe_with_mode 1 Pipe_Queue = Ok fresh_pipe" "\<not> pipe_ready fresh_pipe"
    "snd (pipe_try_send (Multi [PSingle [1]]) fresh_pipe) = Inr ()"
    by code_simp+
  then have s: "pipe_try_send (Multi [PSingle [1]]) fresh_pipe = (held_pipe, Inr ())"
    by (simp add: held_pipe_def prod_eq_iff)
  note c = send_pipe_contract [OF pt_new [OF e(1)], of "Multi [PSingle [1]]" held_pipe]
  have "pp_notified held_pipe = pp_notified fresh_pipe + 1" using c e(2) s by blast
  moreover note send_pipe_contract [OF full_pipe_trace, of "Multi []" full_pipe "[]" 0 full_pipe "[]" 0 8 100]
  ultimately show ?thesis using s by auto
qed

end
