(* ===== verification/Round_Robin.thy ===== *)
theory Round_Robin
  imports Send_Pipe "HOL-Library.Multiset"
begin

text \<open>
  The round-robin send strategy \<^verbatim>\<open>omq-tokio/src/routing/round_robin.rs\<close>: the pipes of the
  connected peers, those with room and those found full, a cursor into the
  former, and the sender that tries them from the cursor on.

  The strategy uses a pipe through six operations; \<open>pipe_ops\<close> packs them, the locale
  \<open>pipe_laws\<close> says what the strategy relies on, and the send pipe is its instance.
  The seed of the generator, taken from the clock, is an argument.
\<close>

section \<open>The pipes\<close>

record 'p pipe_ops =
  po_try_send :: "message \<Rightarrow> 'p \<Rightarrow> 'p \<times> (send_pipe_error + unit)"
  po_try_send_many :: "message list \<Rightarrow> nat \<Rightarrow> 'p \<Rightarrow> 'p \<times> message list \<times> (send_pipe_error + nat)"
  po_reopen :: "'p \<Rightarrow> 'p option"
  po_is_alive :: "'p \<Rightarrow> bool"
  po_is_empty :: "'p \<Rightarrow> bool"
  po_notify_space :: "'p \<Rightarrow> 'p"

record 'p active_pipes =
  ap_active :: "(u64 \<times> 'p) list"
  ap_inactive :: "(u64 \<times> 'p) list"
  ap_peers :: "u64 set"
  ap_cursor :: nat
  ap_random :: u64
  ap_inactive_cursor :: nat

definition active_pipes_new :: "u64 \<Rightarrow> 'p active_pipes" where
  "active_pipes_new seed = \<lparr>ap_active = [], ap_inactive = [], ap_peers = {}, ap_cursor = 0,
     ap_random = max seed 1, ap_inactive_cursor = 0\<rparr>"

definition remove_at :: "nat \<Rightarrow> 'a list \<Rightarrow> 'a list" where
  "remove_at i xs = take i xs @ drop (Suc i) xs"

definition insert_at :: "nat \<Rightarrow> 'a \<Rightarrow> 'a list \<Rightarrow> 'a list" where
  "insert_at i x xs = take i xs @ x # drop i xs"

text \<open>
  The space signal of every pipe is notified before the pipes are dropped; the
  signals are shared with the senders waiting on them, so \<open>ap_clear\<close> also returns the
  pipes as they are left.
\<close>

definition ap_clear :: "'p pipe_ops \<Rightarrow> 'p active_pipes \<Rightarrow> 'p active_pipes \<times> (u64 \<times> 'p) list" where
  "ap_clear ops a =
     (let active = map (map_prod id (po_notify_space ops)) (ap_active a);
          inactive = map (map_prod id (po_notify_space ops)) (ap_inactive a)
      in (a\<lparr>ap_active := [], ap_inactive := [], ap_peers := {}, ap_cursor := 0, ap_inactive_cursor := 0\<rparr>,
          active @ inactive))"

unbundle bit_operations_syntax

definition random_index :: "nat \<Rightarrow> 'p active_pipes \<Rightarrow> 'p active_pipes \<times> nat" where
  "random_index len a =
     (let x = ap_random a;
          x = x XOR push_bit 13 x;
          x = x XOR drop_bit 7 x;
          x = x XOR push_bit 17 x
      in (a\<lparr>ap_random := max x 1\<rparr>, unat x mod len))"

text \<open>Where the cursor goes when the pipe at \<open>pos\<close> has left the list of active pipes.\<close>

definition cursor_after_remove :: "nat \<Rightarrow> 'p active_pipes \<Rightarrow> 'p active_pipes" where
  "cursor_after_remove pos a =
     (if ap_active a = [] then a\<lparr>ap_cursor := 0\<rparr>
      else let c = (if pos < ap_cursor a then ap_cursor a - 1 else ap_cursor a)
           in a\<lparr>ap_cursor := (if length (ap_active a) \<le> c then 0 else c)\<rparr>)"

definition ap_deactivate :: "nat \<Rightarrow> 'p active_pipes \<Rightarrow> 'p active_pipes" where
  "ap_deactivate pos a =
     (let was_empty = ap_inactive a = [];
          pipe = ap_active a ! pos;
          a = a\<lparr>ap_active := remove_at pos (ap_active a), ap_inactive := ap_inactive a @ [pipe]\<rparr>;
          a = (if was_empty
               then case random_index (length (ap_inactive a)) a of (a, i) \<Rightarrow> a\<lparr>ap_inactive_cursor := i\<rparr>
               else a)
      in cursor_after_remove pos a)"

definition try_reactivate_one :: "'p pipe_ops \<Rightarrow> 'p active_pipes \<Rightarrow> 'p active_pipes" where
  "try_reactivate_one ops a =
     (if ap_inactive a = [] then a
      else let len = length (ap_inactive a);
               i = ap_inactive_cursor a mod len;
               a = a\<lparr>ap_inactive_cursor := (i + 1) mod len\<rparr>
           in case po_reopen ops (snd (ap_inactive a ! i)) of
                None \<Rightarrow> a
              | Some p \<Rightarrow>
                  (let pipe = (fst (ap_inactive a ! i), p);
                       a = a\<lparr>ap_inactive := remove_at i (ap_inactive a), ap_active := ap_active a @ [pipe]\<rparr>
                   in if ap_inactive a = [] then a\<lparr>ap_inactive_cursor := 0\<rparr>
                      else if i < ap_inactive_cursor a then a\<lparr>ap_inactive_cursor := ap_inactive_cursor a - 1\<rparr>
                      else a))"

fun probe_inactive :: "nat \<Rightarrow> 'p pipe_ops \<Rightarrow> 'p active_pipes \<Rightarrow> 'p active_pipes" where
  "probe_inactive 0 ops a = a"
| "probe_inactive (Suc n) ops a =
     (let a = try_reactivate_one ops a in if ap_active a \<noteq> [] then a else probe_inactive n ops a)"

definition try_reactivate_when_empty :: "'p pipe_ops \<Rightarrow> 'p active_pipes \<Rightarrow> 'p active_pipes" where
  "try_reactivate_when_empty ops a = probe_inactive (length (ap_inactive a)) ops a"

definition remove_peer :: "u64 \<Rightarrow> 'p active_pipes \<Rightarrow> 'p active_pipes" where
  "remove_peer peer a =
     (let a = a\<lparr>ap_peers := ap_peers a - {peer}\<rparr>
      in case position (\<lambda>x. fst x = peer) (ap_active a) of
           Some pos \<Rightarrow> cursor_after_remove pos (a\<lparr>ap_active := remove_at pos (ap_active a)\<rparr>)
         | None \<Rightarrow>
             (case position (\<lambda>x. fst x = peer) (ap_inactive a) of
                Some pos \<Rightarrow>
                  (let a = a\<lparr>ap_inactive := remove_at pos (ap_inactive a)\<rparr>
                   in if ap_inactive a = [] then a\<lparr>ap_inactive_cursor := 0\<rparr>
                      else a\<lparr>ap_inactive_cursor := ap_inactive_cursor a mod length (ap_inactive a)\<rparr>)
              | None \<Rightarrow> a))"

definition has_pipe :: "u64 \<Rightarrow> 'p active_pipes \<Rightarrow> bool" where
  "has_pipe peer a \<longleftrightarrow> peer \<in> ap_peers a"

definition insert_pipe :: "u64 \<Rightarrow> 'p \<Rightarrow> 'p active_pipes \<Rightarrow> 'p active_pipes" where
  "insert_pipe peer tx a =
     (let a = remove_peer peer a; a = a\<lparr>ap_peers := insert peer (ap_peers a)\<rparr>
      in case random_index (length (ap_active a) + 1) a of
           (a, pos) \<Rightarrow> a\<lparr>ap_active := insert_at pos (peer, tx) (ap_active a)\<rparr>)"

definition has_any_pipe :: "'p active_pipes \<Rightarrow> bool" where
  "has_any_pipe a \<longleftrightarrow> ap_active a \<noteq> [] \<or> ap_inactive a \<noteq> []"

section \<open>Sending\<close>

definition set_active :: "nat \<Rightarrow> 'p \<Rightarrow> 'p active_pipes \<Rightarrow> 'p active_pipes" where
  "set_active i p a = a\<lparr>ap_active := (ap_active a)[i := (fst (ap_active a ! i), p)]\<rparr>"

definition drop_active :: "nat \<Rightarrow> 'p active_pipes \<Rightarrow> 'p active_pipes" where
  "drop_active i a = a\<lparr>ap_peers := ap_peers a - {fst (ap_active a ! i)}, ap_active := remove_at i (ap_active a)\<rparr>"

definition advance_cursor :: "'p active_pipes \<Rightarrow> 'p active_pipes" where
  "advance_cursor a =
     a\<lparr>ap_cursor := (if length (ap_active a) \<le> ap_cursor a + 1 then 0 else ap_cursor a + 1)\<rparr>"

text \<open>
  The scan of \<^verbatim>\<open>try_send\<close>.  \<open>None\<close> is a scan that does not end, an error one that
  indexes out of bounds; the value is the message when it was not sent.
\<close>

partial_function (option) rr_scan ::
  "'p pipe_ops \<Rightarrow> message \<Rightarrow> nat \<Rightarrow> 'p active_pipes \<Rightarrow> ('p active_pipes \<times> (message + unit)) result option" where
  "rr_scan ops msg scanned a =
     (if \<not> scanned < length (ap_active a) then Some (Ok (a, Inl msg))
      else let i = ap_cursor a;
               a = advance_cursor a
           in if \<not> i < length (ap_active a) then Some (Err (Panic ''index out of bounds''))
              else case po_try_send ops msg (snd (ap_active a ! i)) of
                     (p, Inr _) \<Rightarrow> Some (Ok (set_active i p a, Inr ()))
                   | (p, Inl (Pipe_Full msg)) \<Rightarrow>
                       (let a = ap_deactivate i (set_active i p a)
                        in if ap_active a = [] then Some (Ok (a, Inl msg))
                           else rr_scan ops msg (scanned + 1 - 1) a)
                   | (p, Inl (Pipe_Closed msg)) \<Rightarrow>
                       (let a = drop_active i a
                        in if ap_active a = [] then Some (Ok (a\<lparr>ap_cursor := 0\<rparr>, Inl msg))
                           else rr_scan ops msg (scanned + 1 - 1) (cursor_after_remove i a)))"

record 'p round_robin =
  rr_pipes :: "'p active_pipes"
  rr_pipe_cap :: nat
  rr_pipe_mode :: send_pipe_mode
  rr_closed :: bool
  rr_changed :: u64

datatype try_send_error = TS_Full message | TS_Closed

definition rr_reactivate :: "'p pipe_ops \<Rightarrow> 'p active_pipes \<Rightarrow> 'p active_pipes" where
  "rr_reactivate ops a =
     (if ap_active a = [] then try_reactivate_when_empty ops a
      else if ap_inactive a \<noteq> [] then try_reactivate_one ops a else a)"

definition rr_try_send ::
  "'p pipe_ops \<Rightarrow> message \<Rightarrow> 'p round_robin \<Rightarrow> ('p round_robin \<times> (try_send_error + unit)) result option" where
  "rr_try_send ops msg rr =
     (if rr_closed rr then Some (Ok (rr, Inl TS_Closed))
      else if \<not> has_any_pipe (rr_pipes rr) then Some (Ok (rr, Inl (TS_Full msg)))
      else case rr_scan ops msg 0 (rr_reactivate ops (rr_pipes rr)) of
             None \<Rightarrow> None
           | Some (Inl e) \<Rightarrow> Some (Err e)
           | Some (Inr (a, Inr _)) \<Rightarrow> Some (Ok (rr\<lparr>rr_pipes := a\<rparr>, Inr ()))
           | Some (Inr (a, Inl msg)) \<Rightarrow> Some (Ok (rr\<lparr>rr_pipes := a\<rparr>, Inl (TS_Full msg))))"

text \<open>The loop of \<^verbatim>\<open>try_send_many\<close> when there is not exactly one active pipe.\<close>

fun send_each ::
  "'p pipe_ops \<Rightarrow> nat \<Rightarrow> nat \<Rightarrow> message list \<Rightarrow> 'p round_robin
    \<Rightarrow> ('p round_robin \<times> message list \<times> (try_send_error + nat)) result option" where
  "send_each ops 0 sent msgs rr = Some (Ok (rr, msgs, Inr sent))"
| "send_each ops (Suc n) sent [] rr = Some (Ok (rr, [], Inr sent))"
| "send_each ops (Suc n) sent (msg # msgs) rr =
     (case rr_try_send ops msg rr of
        None \<Rightarrow> None
      | Some (Inl e) \<Rightarrow> Some (Err e)
      | Some (Inr (rr, Inr _)) \<Rightarrow> send_each ops n (sent + 1) msgs rr
      | Some (Inr (rr, Inl (TS_Full returned))) \<Rightarrow>
          Some (Ok (if 0 < sent then (rr, returned # msgs, Inr sent) else (rr, msgs, Inl (TS_Full returned))))
      | Some (Inr (rr, Inl e)) \<Rightarrow> Some (Ok (rr, msgs, Inl e)))"

definition rr_try_send_many ::
  "'p pipe_ops \<Rightarrow> message list \<Rightarrow> nat \<Rightarrow> 'p round_robin
    \<Rightarrow> ('p round_robin \<times> message list \<times> (try_send_error + nat)) result option" where
  "rr_try_send_many ops msgs m rr =
     (if msgs = [] \<or> m = 0 then Some (Ok (rr, msgs, Inr 0))
      else if rr_closed rr then Some (Ok (rr, msgs, Inl TS_Closed))
      else if \<not> has_any_pipe (rr_pipes rr) then Some (Ok (rr, tl msgs, Inl (TS_Full (hd msgs))))
      else let a = rr_reactivate ops (rr_pipes rr)
           in if length (ap_active a) \<noteq> 1 then send_each ops m 0 msgs (rr\<lparr>rr_pipes := a\<rparr>)
              else case po_try_send_many ops msgs m (snd (ap_active a ! 0)) of
                     (p, msgs, Inr n_sent) \<Rightarrow> Some (Ok (rr\<lparr>rr_pipes := set_active 0 p a\<rparr>, msgs, Inr n_sent))
                   | (p, msgs, Inl (Pipe_Full returned)) \<Rightarrow>
                       Some (Ok (rr\<lparr>rr_pipes := ap_deactivate 0 (set_active 0 p a)\<rparr>, msgs, Inl (TS_Full returned)))
                   | (p, msgs, Inl (Pipe_Closed returned)) \<Rightarrow>
                       Some (Ok (rr\<lparr>rr_pipes := (drop_active 0 a)\<lparr>ap_cursor := 0\<rparr>\<rparr>, msgs, Inl (TS_Full returned))))"

text \<open>Which pipe's space signal a blocked sender waits for.\<close>

partial_function (option) scan_space :: "'p pipe_ops \<Rightarrow> nat \<Rightarrow> 'p active_pipes \<Rightarrow> ('p active_pipes \<times> u64 option) option" where
  "scan_space ops scanned a =
     (if \<not> scanned < length (ap_active a) then Some (a, None)
      else let i = ap_cursor a mod length (ap_active a);
               a = a\<lparr>ap_cursor := (i + 1) mod length (ap_active a)\<rparr>
           in if po_is_alive ops (snd (ap_active a ! i)) then Some (a, Some (fst (ap_active a ! i)))
              else let a = drop_active i a
                   in if ap_active a = [] then Some (a\<lparr>ap_cursor := 0\<rparr>, None)
                      else scan_space ops (scanned + 1 - 1) (cursor_after_remove i a))"

definition next_space_notify_any :: "'p pipe_ops \<Rightarrow> 'p active_pipes \<Rightarrow> ('p active_pipes \<times> u64 option) option" where
  "next_space_notify_any ops a =
     (case position (\<lambda>x. po_is_alive ops (snd x)) (ap_inactive a) of
        Some i \<Rightarrow> Some (a, Some (fst (ap_inactive a ! i)))
      | None \<Rightarrow> scan_space ops 0 a)"

section \<open>Connections\<close>

definition rr_notify_changed :: "'p round_robin \<Rightarrow> 'p round_robin" where
  "rr_notify_changed rr = rr\<lparr>rr_changed := rr_changed rr + 1\<rparr>"

definition rr_new :: "u64 \<Rightarrow> bool \<Rightarrow> nat \<Rightarrow> 'p round_robin" where
  "rr_new seed conflate send_hwm =
     \<lparr>rr_pipes = active_pipes_new seed, rr_pipe_cap = (if conflate then 1 else max send_hwm 1),
      rr_pipe_mode = (if conflate then Pipe_Conflate else Pipe_Queue), rr_closed = False, rr_changed = 0\<rparr>"

definition make_connect_pipe :: "u64 \<Rightarrow> send_pipe round_robin \<Rightarrow> send_pipe round_robin result" where
  "make_connect_pipe route rr =
     rbind (send_pipe_with_mode (rr_pipe_cap rr) (rr_pipe_mode rr)) (\<lambda>tx.
       Ok (rr_notify_changed (rr\<lparr>rr_pipes := insert_pipe route tx (rr_pipes rr)\<rparr>)))"

definition connection_added :: "u64 \<Rightarrow> 'p option \<Rightarrow> 'p round_robin \<Rightarrow> 'p round_robin" where
  "connection_added route send_pipe rr =
     (if has_pipe route (rr_pipes rr) then rr_notify_changed rr
      else case send_pipe of
             Some tx \<Rightarrow> rr_notify_changed (rr\<lparr>rr_pipes := insert_pipe route tx (rr_pipes rr)\<rparr>)
           | None \<Rightarrow> rr)"

definition connection_removed :: "u64 \<Rightarrow> 'p round_robin \<Rightarrow> 'p round_robin" where
  "connection_removed route rr = rr_notify_changed (rr\<lparr>rr_pipes := remove_peer route (rr_pipes rr)\<rparr>)"

definition rr_shutdown :: "'p pipe_ops \<Rightarrow> 'p round_robin \<Rightarrow> 'p round_robin \<times> (u64 \<times> 'p) list" where
  "rr_shutdown ops rr =
     (case ap_clear ops (rr_pipes rr) of
        (a, released) \<Rightarrow> (rr_notify_changed (rr\<lparr>rr_closed := True, rr_pipes := a\<rparr>), released))"

definition rr_is_drained :: "'p pipe_ops \<Rightarrow> 'p round_robin \<Rightarrow> bool" where
  "rr_is_drained ops rr \<longleftrightarrow>
     list_all (\<lambda>x. po_is_empty ops (snd x)) (ap_active (rr_pipes rr)) \<and>
     list_all (\<lambda>x. po_is_empty ops (snd x)) (ap_inactive (rr_pipes rr))"

section \<open>The invariant\<close>

definition ap_pipes :: "'p active_pipes \<Rightarrow> (u64 \<times> 'p) list" where
  "ap_pipes a = ap_active a @ ap_inactive a"

text \<open>
  Every peer has one pipe, the set of peers is that of the pipes, and the cursor
  is an index of the active pipes.
\<close>

definition ap_ok :: "('p \<Rightarrow> bool) \<Rightarrow> 'p active_pipes \<Rightarrow> bool" where
  "ap_ok pok a \<longleftrightarrow> distinct (map fst (ap_pipes a)) \<and> ap_peers a = fst ` set (ap_pipes a) \<and>
     ap_cursor a < max 1 (length (ap_active a)) \<and> (\<forall>x \<in> set (ap_pipes a). pok (snd x))"

lemma remove_at_perm:
  assumes "i < length xs"
  shows "set xs = insert (xs ! i) (set (remove_at i xs))" "length (remove_at i xs) = length xs - 1"
    "distinct (map fst xs) \<Longrightarrow> distinct (map fst (remove_at i xs)) \<and> fst (xs ! i) \<notin> fst ` set (remove_at i xs)"
    "set (remove_at i xs) \<subseteq> set xs"
proof -
  have x: "xs = take i xs @ xs ! i # drop (Suc i) xs" using assms by (simp add: id_take_nth_drop)
  then have "set xs = set (take i xs @ xs ! i # drop (Suc i) xs)" by simp
  then show s: "set xs = insert (xs ! i) (set (remove_at i xs))" by (simp add: remove_at_def)
  show "length (remove_at i xs) = length xs - 1" using assms by (simp add: remove_at_def)
  show "set (remove_at i xs) \<subseteq> set xs" using s by auto
  assume "distinct (map fst xs)"
  then have "distinct (map fst (take i xs @ xs ! i # drop (Suc i) xs))" using x by simp
  then show "distinct (map fst (remove_at i xs)) \<and> fst (xs ! i) \<notin> fst ` set (remove_at i xs)"
    by (auto simp: remove_at_def)
qed

lemma cursor_after_remove_simps:
  "ap_active (cursor_after_remove i a) = ap_active a" "ap_inactive (cursor_after_remove i a) = ap_inactive a"
  "ap_peers (cursor_after_remove i a) = ap_peers a"
  "ap_cursor a \<le> length (ap_active a) \<Longrightarrow> ap_cursor (cursor_after_remove i a) < max 1 (length (ap_active a))"
  by (auto simp: cursor_after_remove_def Let_def)

lemma random_index_simps:
  "ap_active (fst (random_index n a)) = ap_active a" "ap_inactive (fst (random_index n a)) = ap_inactive a"
  "ap_peers (fst (random_index n a)) = ap_peers a" "ap_cursor (fst (random_index n a)) = ap_cursor a"
  "0 < n \<Longrightarrow> snd (random_index n a) < n"
  by (simp_all add: random_index_def Let_def)

lemma ap_deactivate_simps:
  assumes "i < length (ap_active a)" "ap_cursor a < length (ap_active a)"
  shows "ap_active (ap_deactivate i a) = remove_at i (ap_active a)"
    "ap_inactive (ap_deactivate i a) = ap_inactive a @ [ap_active a ! i]"
    "ap_peers (ap_deactivate i a) = ap_peers a"
    "ap_cursor (ap_deactivate i a) < max 1 (length (ap_active (ap_deactivate i a)))"
proof -
  let ?b = "a\<lparr>ap_active := remove_at i (ap_active a), ap_inactive := ap_inactive a @ [ap_active a ! i]\<rparr>"
  let ?r = "random_index (length (ap_inactive ?b)) ?b"
  define b where "b = (if ap_inactive a = [] then (fst ?r)\<lparr>ap_inactive_cursor := snd ?r\<rparr> else ?b)"
  have d: "ap_deactivate i a = cursor_after_remove i b"
    by (simp add: ap_deactivate_def Let_def b_def case_prod_beta)
  have b: "ap_active b = ap_active ?b" "ap_inactive b = ap_inactive ?b" "ap_peers b = ap_peers a" "ap_cursor b = ap_cursor a"
    by (simp_all add: b_def random_index_simps)
  have "ap_cursor b \<le> length (ap_active b)" using assms remove_at_perm(2) [OF assms(1)] b by simp
  then show "ap_active (ap_deactivate i a) = remove_at i (ap_active a)"
    "ap_inactive (ap_deactivate i a) = ap_inactive a @ [ap_active a ! i]" "ap_peers (ap_deactivate i a) = ap_peers a"
    "ap_cursor (ap_deactivate i a) < max 1 (length (ap_active (ap_deactivate i a)))"
    using b cursor_after_remove_simps(4) [of b i] by (simp_all add: d cursor_after_remove_simps(1-3))
qed

section \<open>What the pipes hold\<close>

definition held_list :: "('p \<Rightarrow> 'c) \<Rightarrow> 'p active_pipes \<Rightarrow> (u64 \<times> 'c) list" where
  "held_list f a = map (\<lambda>x. (fst x, f (snd x))) (ap_pipes a)"

definition held :: "('p \<Rightarrow> 'c) \<Rightarrow> 'p active_pipes \<Rightarrow> u64 \<rightharpoonup> 'c" where
  "held f a = map_of (held_list f a)"

lemma held_list_keys: "map fst (held_list f a) = map fst (ap_pipes a)"
  by (simp add: held_list_def)

lemma map_of_update_nth:
  "distinct (map fst xs) \<Longrightarrow> i < length xs \<Longrightarrow> map_of (xs[i := (fst (xs ! i), v)]) = (map_of xs)(fst (xs ! i) \<mapsto> v)"
proof (induction xs arbitrary: i)
  case (Cons x xs)
  then show ?case
    by (cases i; cases x) (force simp: fun_eq_iff)+
qed simp

lemma map_of_remove_nth:
  "distinct (map fst xs) \<Longrightarrow> i < length xs \<Longrightarrow> map_of (remove_at i xs) = (map_of xs)(fst (xs ! i) := None)"
proof (induction xs arbitrary: i)
  case (Cons x xs)
  show ?case
  proof (cases i)
    case 0
    then show ?thesis using Cons.prems
      by (cases x) (auto simp: remove_at_def fun_eq_iff map_of_eq_None_iff)
  next
    case (Suc j)
    then have j: "j < length xs" using Cons.prems by simp
    then have "map_of (remove_at j xs) = (map_of xs)(fst (xs ! j) := None)" using Cons.prems by (intro Cons.IH) simp_all
    moreover have "fst (xs ! j) \<in> fst ` set xs" using j by simp
    then have "fst (xs ! j) \<noteq> fst x" using Cons.prems(1) by (metis distinct.simps(2) list.simps(9) list.set_map)
    ultimately show ?thesis using Suc by (cases x) (auto simp: remove_at_def fun_eq_iff)
  qed
qed simp

lemma remove_at_append: "i < length xs \<Longrightarrow> remove_at i (xs @ ys) = remove_at i xs @ ys"
  by (simp add: remove_at_def)

lemma remove_at_map: "remove_at i (map f xs) = map f (remove_at i xs)"
  by (simp add: remove_at_def take_map drop_map)

lemma held_same:
  assumes "ap_ok pok a" and "distinct (map fst (ap_pipes b))" and "set (held_list f b) = set (held_list f a)"
  shows "held f b = held f a"
  unfolding held_def using assms
  by (subst map_of_inject_set) (simp_all add: held_list_keys ap_ok_def)

lemma held_Some:
  assumes "ap_ok pok a" "(q, p) \<in> set (ap_pipes a)"
  shows "held f a q = Some (f p)"
proof -
  have "(q, f p) \<in> set (held_list f a)" using assms(2) by (force simp: held_list_def)
  then show ?thesis unfolding held_def using assms(1) by (intro map_of_is_SomeI) (simp_all add: held_list_keys ap_ok_def)
qed

text \<open>The three outcomes of one round of the scan, and the reactivation of a pipe.\<close>

lemma set_active_held:
  assumes ok: "ap_ok pok a" and i: "i < length (ap_active a)" and p: "pok p"
  shows "ap_ok pok (set_active i p a)" "held f (set_active i p a) = (held f a)(fst (ap_active a ! i) \<mapsto> f p)"
    "length (ap_active (set_active i p a)) = length (ap_active a)" "ap_active (set_active i p a) ! i = (fst (ap_active a ! i), p)"
proof -
  have l: "held_list f (set_active i p a) = (held_list f a)[i := (fst (held_list f a ! i), f p)]"
    using i by (simp add: held_list_def ap_pipes_def set_active_def map_update list_update_append nth_append)
  have d: "distinct (map fst (held_list f a))" using ok by (simp add: held_list_keys ap_ok_def)
  have n: "i < length (held_list f a)" "fst (held_list f a ! i) = fst (ap_active a ! i)"
    using i by (simp_all add: held_list_def ap_pipes_def nth_append)
  show "held f (set_active i p a) = (held f a)(fst (ap_active a ! i) \<mapsto> f p)"
    unfolding held_def l using map_of_update_nth [OF d n(1)] n(2) by simp
  have k: "map fst (ap_pipes (set_active i p a)) = map fst (ap_pipes a)"
    using i by (simp add: ap_pipes_def set_active_def map_update list_update_same_conv)
  then have "fst ` set (ap_pipes (set_active i p a)) = fst ` set (ap_pipes a)" by (metis list.set_map)
  moreover have "\<forall>x \<in> set (ap_pipes (set_active i p a)). pok (snd x)"
    using ok p by (auto simp: ap_pipes_def set_active_def ap_ok_def dest!: set_update_subset_insert [THEN subsetD])
  ultimately show "ap_ok pok (set_active i p a)" using ok k by (simp add: ap_ok_def) (simp add: set_active_def)
qed (use i in \<open>simp_all add: set_active_def\<close>)

lemma deactivate_held:
  assumes ok: "ap_ok pok a" and i: "i < length (ap_active a)"
  shows "ap_ok pok (ap_deactivate i a)" "held f (ap_deactivate i a) = held f a"
    "ap_active (ap_deactivate i a) = remove_at i (ap_active a)"
proof -
  have c: "ap_cursor a < length (ap_active a)" using ok i by (simp add: ap_ok_def)
  note d = ap_deactivate_simps [OF i c]
  note r = remove_at_perm [OF i]
  have s: "set (ap_pipes (ap_deactivate i a)) = set (ap_pipes a)"
    using r(1) d(1,2) by (auto simp: ap_pipes_def)
  have "distinct (map fst (ap_pipes a))" using ok by (simp add: ap_ok_def)
  then have dist: "distinct (map fst (ap_pipes (ap_deactivate i a)))"
    using r(3,4) d(1,2) nth_mem [OF i] by (auto simp: ap_pipes_def)
  show "ap_ok pok (ap_deactivate i a)" using ok s dist d(3,4) by (simp add: ap_ok_def)
  have "set (held_list f (ap_deactivate i a)) = set (held_list f a)" by (simp add: held_list_def s)
  then show "held f (ap_deactivate i a) = held f a" by (rule held_same [OF ok dist])
  show "ap_active (ap_deactivate i a) = remove_at i (ap_active a)" by (rule d)
qed

lemma drop_active_held:
  assumes ok: "ap_ok pok a" and i: "i < length (ap_active a)"
  shows "ap_ok pok (cursor_after_remove i (drop_active i a))"
    "held f (cursor_after_remove i (drop_active i a)) = (held f a)(fst (ap_active a ! i) := None)"
    "ap_active (cursor_after_remove i (drop_active i a)) = remove_at i (ap_active a)"
proof -
  let ?b = "cursor_after_remove i (drop_active i a)"
  have p: "ap_pipes ?b = remove_at i (ap_pipes a)" "ap_pipes a ! i = ap_active a ! i" "i < length (ap_pipes a)"
    using i by (simp_all add: ap_pipes_def cursor_after_remove_simps drop_active_def remove_at_append nth_append)
  note r = remove_at_perm [OF p(3)]
  have d: "distinct (map fst (ap_pipes a))" using ok by (simp add: ap_ok_def)
  have l: "held_list f ?b = remove_at i (held_list f a)" by (simp add: held_list_def p(1) remove_at_map)
  have n: "i < length (held_list f a)" "fst (held_list f a ! i) = fst (ap_active a ! i)"
    using p(2,3) by (simp_all add: held_list_def)
  show "held f ?b = (held f a)(fst (ap_active a ! i) := None)"
    unfolding held_def l using map_of_remove_nth [OF _ n(1)] n(2) d by (simp add: held_list_keys)
  have "ap_cursor (drop_active i a) \<le> length (ap_active (drop_active i a))"
    using ok i remove_at_perm(2) [OF i] by (auto simp: ap_ok_def drop_active_def)
  from cursor_after_remove_simps(4) [OF this, of i]
  have "ap_cursor ?b < max 1 (length (ap_active ?b))" by (simp add: cursor_after_remove_simps(1))
  moreover have "ap_peers ?b = fst ` set (ap_pipes ?b)"
    using ok r(1,3) d p by (auto simp: cursor_after_remove_simps(3) drop_active_def ap_ok_def)
  moreover have "\<forall>x \<in> set (ap_pipes ?b). pok (snd x)" using ok r(4) unfolding p(1) by (auto simp: ap_ok_def)
  ultimately show "ap_ok pok ?b" using r(3) d unfolding ap_ok_def p(1) by simp
  show "ap_active ?b = remove_at i (ap_active a)" by (simp add: cursor_after_remove_simps drop_active_def)
qed

lemma ap_ok_new: "ap_ok pok (active_pipes_new seed)" "ap_ok pok (fst (ap_clear ops a))"
  by (simp_all add: ap_ok_def active_pipes_new_def ap_clear_def ap_pipes_def)

lemma rr_shutdown_released:
  "rr_shutdown ops rr = (rr', released) \<Longrightarrow>
     rr_closed rr' \<and> ap_pipes (rr_pipes rr') = [] \<and>
     released = map (map_prod id (po_notify_space ops)) (ap_pipes (rr_pipes rr))"
  by (auto simp: rr_shutdown_def ap_clear_def ap_pipes_def rr_notify_changed_def)

lemma remove_inactive_ok:
  assumes ok: "ap_ok pok a" and i: "i < length (ap_inactive a)"
    and b: "ap_active b = ap_active a" "ap_inactive b = remove_at i (ap_inactive a)" "ap_cursor b = ap_cursor a"
      "ap_peers b = ap_peers a - {fst (ap_inactive a ! i)}"
  shows "ap_ok pok b"
proof -
  let ?j = "length (ap_active a) + i"
  have p: "ap_pipes b = remove_at ?j (ap_pipes a)" "?j < length (ap_pipes a)" "ap_pipes a ! ?j = ap_inactive a ! i"
    using i b(1,2) by (simp_all add: ap_pipes_def remove_at_def nth_append)
  note r = remove_at_perm [OF p(2), unfolded p(3)]
  have d: "distinct (map fst (ap_pipes a))" using ok by (simp add: ap_ok_def)
  have "ap_peers b = fst ` set (ap_pipes b)"
    using ok r(1,3) d b(4) unfolding p(1) by (auto simp: ap_ok_def)
  moreover have "\<forall>x \<in> set (ap_pipes b). pok (snd x)" using ok r(4) unfolding p(1) by (auto simp: ap_ok_def)
  ultimately show ?thesis using ok b r(3) d unfolding ap_ok_def p(1) by simp
qed

lemma remove_peer_ok:
  assumes ok: "ap_ok pok a"
  shows "ap_ok pok (remove_peer peer a)" "peer \<notin> fst ` set (ap_pipes (remove_peer peer a))"
proof -
  have "ap_ok pok (remove_peer peer a) \<and> peer \<notin> ap_peers (remove_peer peer a)"
  proof (cases "position (\<lambda>x. fst x = peer) (ap_active a)")
    case (Some i)
    note p = position_SomeD [OF Some]
    have "remove_peer peer a = cursor_after_remove i (drop_active i a)"
      using p Some by (simp add: remove_peer_def Let_def drop_active_def)
    then show ?thesis using drop_active_held(1) [OF ok, of i] p by (auto simp: cursor_after_remove_simps drop_active_def)
  next
    case N: None
    show ?thesis
    proof (cases "position (\<lambda>x. fst x = peer) (ap_inactive a)")
      case (Some i)
      note p = position_SomeD [OF Some]
      have "ap_ok pok (remove_peer peer a)"
        using p N Some by (intro remove_inactive_ok [OF ok, of i]) (simp_all add: remove_peer_def Let_def)
      then show ?thesis using N Some by (simp add: remove_peer_def Let_def)
    next
      case None
      then have "peer \<notin> fst ` set (ap_pipes a)" using N by (auto simp: position_None_iff ap_pipes_def)
      then have "peer \<notin> ap_peers a" using ok by (simp add: ap_ok_def)
      then show ?thesis using ok N None by (simp add: remove_peer_def Let_def ap_ok_def ap_pipes_def)
    qed
  qed
  then show "ap_ok pok (remove_peer peer a)" "peer \<notin> fst ` set (ap_pipes (remove_peer peer a))"
    by (auto simp: ap_ok_def)
qed

lemma insert_at_set: "set (insert_at i x xs) = insert x (set xs)"
  "distinct (map fst (insert_at i x xs)) \<longleftrightarrow> distinct (map fst (x # xs))" "length (insert_at i x xs) = Suc (length xs)"
proof -
  have m: "mset (insert_at i x xs) = mset (x # xs)"
    by (simp add: insert_at_def) (metis append_take_drop_id mset_append)
  from mset_eq_setD [OF this] show "set (insert_at i x xs) = insert x (set xs)" by simp
  have "mset (map fst (insert_at i x xs)) = mset (map fst (x # xs))" using m by (simp only: mset_map)
  then show "distinct (map fst (insert_at i x xs)) \<longleftrightarrow> distinct (map fst (x # xs))" by (rule mset_eq_imp_distinct_iff)
  show "length (insert_at i x xs) = Suc (length xs)" by (simp add: insert_at_def)
qed

lemma insert_pipe_ok:
  assumes ok: "ap_ok pok a" and "pok tx"
  shows "ap_ok pok (insert_pipe peer tx a)"
proof -
  let ?r = "(remove_peer peer a)\<lparr>ap_peers := insert peer (ap_peers (remove_peer peer a))\<rparr>"
  let ?x = "random_index (length (ap_active ?r) + 1) ?r"
  note r = remove_peer_ok [OF ok, of peer]
  have e: "insert_pipe peer tx a = (fst ?x)\<lparr>ap_active := insert_at (snd ?x) (peer, tx) (ap_active (fst ?x))\<rparr>"
    by (simp add: insert_pipe_def Let_def case_prod_beta)
  have "ap_active (fst ?x) = ap_active (remove_peer peer a)" "ap_inactive (fst ?x) = ap_inactive (remove_peer peer a)"
    "ap_peers (fst ?x) = insert peer (ap_peers (remove_peer peer a))" "ap_cursor (fst ?x) = ap_cursor (remove_peer peer a)"
    by (simp_all add: random_index_simps)
  then show ?thesis unfolding e using r assms(2)
    by (auto simp: ap_ok_def ap_pipes_def insert_at_set)
qed

lemma rr_connection_ok:
  assumes "ap_ok pok (rr_pipes rr)"
  shows "(\<And>tx. sp = Some tx \<Longrightarrow> pok tx) \<Longrightarrow> ap_ok pok (rr_pipes (connection_added route sp rr))"
    "ap_ok pok (rr_pipes (connection_removed route rr))" "ap_ok pok (rr_pipes (fst (rr_shutdown ops rr)))"
    "ap_ok pok (rr_pipes (rr_new seed conflate hwm))"
  using assms insert_pipe_ok [OF assms] remove_peer_ok(1) [OF assms]
  by (auto simp: connection_added_def connection_removed_def rr_shutdown_def rr_new_def
      rr_notify_changed_def ap_ok_new case_prod_beta split: option.split)

lemma make_connect_pipe_ok:
  assumes ok: "ap_ok pipe_ok (rr_pipes rr)" and m: "make_connect_pipe route rr = Ok rr'"
  shows "ap_ok pipe_ok (rr_pipes rr')"
proof -
  from m obtain tx where tx: "send_pipe_with_mode (rr_pipe_cap rr) (rr_pipe_mode rr) = Ok tx"
    "rr' = rr_notify_changed (rr\<lparr>rr_pipes := insert_pipe route tx (rr_pipes rr)\<rparr>)"
    by (cases "send_pipe_with_mode (rr_pipe_cap rr) (rr_pipe_mode rr)") (auto simp: make_connect_pipe_def)
  from pipe_hist_new [OF tx(1)] have "pipe_ok tx" by (simp add: pipe_hist_def)
  then show ?thesis using insert_pipe_ok [OF ok] tx(2) by (simp add: rr_notify_changed_def)
qed

section \<open>The strategy over any lawful pipe\<close>

locale pipe_laws =
  fixes ops :: "'p pipe_ops" and pok :: "'p \<Rightarrow> bool" and room :: "'p \<Rightarrow> bool"
    and items :: "'p \<Rightarrow> message list" and accept :: "message \<Rightarrow> 'p \<Rightarrow> message list"
  assumes try_send_law: "pok p \<Longrightarrow> po_try_send ops m p = (p', res) \<Longrightarrow>
      pok p' \<and> po_is_alive ops p' = po_is_alive ops p \<and>
       (res = Inr () \<and> po_is_alive ops p \<and> room p \<and> items p' = accept m p \<or>
        res = Inl (Pipe_Full m) \<and> po_is_alive ops p \<and> \<not> room p \<and> items p' = items p \<or>
        res = Inl (Pipe_Closed m) \<and> \<not> po_is_alive ops p \<and> items p' = items p)"
    and reopen_law: "pok p \<Longrightarrow> po_reopen ops p = Some p' \<Longrightarrow>
      pok p' \<and> items p' = items p \<and> room p' = room p \<and> po_is_alive ops p' = po_is_alive ops p \<and>
      accept m p' = accept m p"
    and try_send_many_law: "pok p \<Longrightarrow> po_try_send_many ops ms n p = (p', ms', r) \<Longrightarrow> pok p'"
begin

definition dead_peers :: "'p active_pipes \<Rightarrow> u64 set" where
  "dead_peers a = {x. \<exists>p. (x, p) \<in> set (ap_pipes a) \<and> \<not> po_is_alive ops p}"

text \<open>What a scan of the active pipes promises.\<close>

definition scanned_ok :: "message \<Rightarrow> 'p active_pipes \<Rightarrow> 'p active_pipes \<Rightarrow> message + unit \<Rightarrow> bool" where
  "scanned_ok m a a' res \<longleftrightarrow> ap_ok pok a' \<and> (\<exists>D \<subseteq> dead_peers a.
     case res of
       Inr _ \<Rightarrow> \<exists>q p. (q, p) \<in> set (ap_active a) \<and> po_is_alive ops p \<and> room p \<and>
                  held items a' = ((held items a) |` (- D))(q \<mapsto> accept m p)
     | Inl m' \<Rightarrow> m' = m \<and> ap_active a' = [] \<and> held items a' = (held items a) |` (- D) \<and>
                  (\<forall>(x, p) \<in> set (ap_active a). po_is_alive ops p \<longrightarrow> \<not> room p))"

lemma scanned_okI_sent:
  assumes "ap_ok pok a'" "(q, p) \<in> set (ap_active a)" "po_is_alive ops p" "room p"
    and "held items a' = (held items a)(q \<mapsto> accept m p)"
  shows "scanned_ok m a a' (Inr u)"
  using assms unfolding scanned_ok_def
  by (intro conjI exI [of _ "{}"]) (auto simp: fun_eq_iff restrict_map_def intro!: exI [of _ q] exI [of _ p])

lemma scanned_okI_none:
  assumes "ap_ok pok a" "ap_active a = []"
  shows "scanned_ok m a a (Inl m)"
  using assms unfolding scanned_ok_def by (intro conjI exI [of _ "{}"]) (auto simp: restrict_map_def)

text \<open>A round that found the pipe full or closed and the scan that follows.\<close>

lemma scanned_ok_step:
  assumes ok: "ap_ok pok a" and i: "i < length (ap_active a)" and pq: "ap_active a ! i = (q, p)"
    and act: "ap_active b = remove_at i (ap_active a)"
    and inact: "set (ap_pipes b) \<subseteq> set (ap_pipes a) \<union> {(q, p')}" and alive': "po_is_alive ops p' = po_is_alive ops p"
    and held: "held items b = held items a \<and> \<not> room p \<or>
      \<not> po_is_alive ops p \<and> held items b = (held items a)(q := None)"
    and s: "scanned_ok m b c res"
  shows "scanned_ok m a c res"
proof -
  note r = remove_at_perm [OF i, unfolded pq]
  have qp: "(q, p) \<in> set (ap_pipes a)" using nth_mem [OF i] pq by (auto simp: ap_pipes_def)
  have D: "dead_peers b \<subseteq> dead_peers a"
    using inact alive' qp by (fastforce simp: dead_peers_def)
  have sub: "set (ap_active b) \<subseteq> set (ap_active a)" using r(4) act by simp
  from s obtain E where E: "ap_ok pok c" "E \<subseteq> dead_peers b"
    and c: "case res of Inr _ \<Rightarrow> \<exists>q p. (q, p) \<in> set (ap_active b) \<and> po_is_alive ops p \<and> room p \<and>
                  held items c = ((held items b) |` (- E))(q \<mapsto> accept m p)
     | Inl m' \<Rightarrow> m' = m \<and> ap_active c = [] \<and> held items c = (held items b) |` (- E) \<and>
                  (\<forall>(x, p) \<in> set (ap_active b). po_is_alive ops p \<longrightarrow> \<not> room p)"
    unfolding scanned_ok_def by (elim exE conjE) (rule that; assumption)
  define F where "F = (if po_is_alive ops p then E else if held items b = held items a then E else insert q E)"
  have F: "F \<subseteq> dead_peers a" using E(2) D qp by (auto simp: F_def dead_peers_def)
  have h: "(held items b) |` (- E) = (held items a) |` (- F)"
    using held by (auto simp: F_def restrict_map_def fun_eq_iff)
  have "case res of Inr _ \<Rightarrow> \<exists>q p. (q, p) \<in> set (ap_active a) \<and> po_is_alive ops p \<and> room p \<and>
                  held items c = ((held items a) |` (- F))(q \<mapsto> accept m p)
     | Inl m' \<Rightarrow> m' = m \<and> ap_active c = [] \<and> held items c = (held items a) |` (- F) \<and>
                  (\<forall>(x, p) \<in> set (ap_active a). po_is_alive ops p \<longrightarrow> \<not> room p)"
  proof (cases res)
    case (Inr u)
    then show ?thesis using c sub unfolding h by auto
  next
    case (Inl m')
    have "\<not> room p" if "po_is_alive ops p" using held that by auto
    then show ?thesis using c Inl r(1) act unfolding h by auto
  qed
  then show ?thesis using E(1) F unfolding scanned_ok_def by blast
qed

lemma rr_scan_ok:
  assumes "ap_ok pok a" "ap_active a \<noteq> []"
  shows "\<exists>a' res. rr_scan ops m 0 a = Some (Ok (a', res)) \<and> scanned_ok m a a' res"
  using assms
proof (induction "length (ap_active a)" arbitrary: a rule: less_induct)
  case (less a)
  let ?i = "ap_cursor a" and ?n = "length (ap_active a)"
  let ?b = "advance_cursor a"
  have i: "?i < ?n" "0 < ?n" using less.prems by (cases "ap_active a"; simp add: ap_ok_def)+
  have b: "ap_active ?b = ap_active a" "ap_pipes ?b = ap_pipes a" "held items ?b = held items a"
    by (simp_all add: ap_pipes_def held_def held_list_def advance_cursor_def)
  have okb: "ap_ok pok ?b" using less.prems i by (auto simp: ap_ok_def ap_pipes_def advance_cursor_def)
  obtain q p where qp: "ap_active a ! ?i = (q, p)" by fastforce
  have mem: "(q, p) \<in> set (ap_active a)" using nth_mem [OF i(1)] qp by simp
  then have "pok p" using less.prems(1) by (force simp: ap_ok_def ap_pipes_def)
  obtain p' x where x: "po_try_send ops m p = (p', x)" by fastforce
  note law = try_send_law [OF \<open>pok p\<close> x]
  note unf = rr_scan.simps [of ops m 0 a]
  have ib: "?i < length (ap_active ?b)" "ap_cursor ?b < length (ap_active ?b)" using i b by (simp_all add: advance_cursor_def)
  note sa = set_active_held [OF okb ib(1), of p', unfolded b(1)]
  from law show ?case
  proof (elim conjE disjE)
    assume c: "pok p'" "x = Inr ()" "po_is_alive ops p" "room p" "items p' = accept m p"
    have "rr_scan ops m 0 a = Some (Ok (set_active ?i p' ?b, Inr ()))"
      using i qp x c(2) b(1) by (subst unf) (simp add: Let_def)
    moreover have "scanned_ok m a (set_active ?i p' ?b) (Inr ())"
      using sa(1) [OF c(1)] sa(2) [OF c(1), of items] c mem qp b by (intro scanned_okI_sent) simp_all
    ultimately show ?thesis by blast
  next
    assume c: "pok p'" "po_is_alive ops p' = po_is_alive ops p" "x = Inl (Pipe_Full m)" "\<not> room p" "items p' = items p"
    let ?s = "set_active ?i p' ?b"
    let ?c = "ap_deactivate ?i ?s"
    have isl: "?i < length (ap_active ?s)" "ap_cursor ?s < length (ap_active ?s)" using sa(3) [OF c(1)] i ib(2) b(1) by (simp_all add: set_active_def)
    note d = deactivate_held [OF sa(1) [OF c(1)] isl(1)]
    have act: "ap_active ?c = remove_at ?i (ap_active a)"
      using d(3) i b(1) by (simp add: set_active_def remove_at_def)
    have sub: "set (ap_pipes ?c) \<subseteq> set (ap_pipes a) \<union> {(q, p')}"
      using act ap_deactivate_simps(2) [OF isl] sa(4) [OF c(1)] remove_at_perm(4) [OF i(1)] qp
      by (auto simp: ap_pipes_def set_active_def advance_cursor_def)
    have "held items ?c = (held items a)(q \<mapsto> items p)" using d(2) [of items] sa(2) [OF c(1), of items] c(5) qp b by simp
    moreover have "held items a q = Some (items p)" using mem by (intro held_Some [OF less.prems(1)]) (simp add: ap_pipes_def)
    ultimately have h: "held items ?c = held items a" by (simp add: fun_upd_idem_iff)
    have e: "rr_scan ops m 0 a = (if ap_active ?c = [] then Some (Ok (?c, Inl m)) else rr_scan ops m 0 ?c)"
      using i qp x c(3) b(1) by (subst unf) (simp add: Let_def)
    have "\<exists>a' res. rr_scan ops m 0 a = Some (Ok (a', res)) \<and> scanned_ok m ?c a' res"
      using e scanned_okI_none [OF d(1)] less.hyps [OF _ d(1)] act remove_at_perm(2) [OF i(1)] i
      by (cases "ap_active ?c = []") auto
    then show ?thesis
      using scanned_ok_step [OF less.prems(1) i(1) qp act sub c(2)] h c(4) by blast
  next
    assume c: "pok p'" "po_is_alive ops p' = po_is_alive ops p" "x = Inl (Pipe_Closed m)" "\<not> po_is_alive ops p"
    let ?d = "drop_active ?i ?b"
    let ?c = "cursor_after_remove ?i ?d"
    note d = drop_active_held [OF okb ib(1), unfolded b(1)]
    have act: "ap_active ?c = remove_at ?i (ap_active a)" using d(3) by simp
    have sub: "set (ap_pipes ?c) \<subseteq> set (ap_pipes a) \<union> {(q, p')}"
      using act remove_at_perm(4) [OF i(1)] by (auto simp: ap_pipes_def cursor_after_remove_simps drop_active_def advance_cursor_def)
    have h: "held items ?c = (held items a)(q := None)" using d(2) [of items] qp b by simp
    have n: "ap_active ?d = ap_active ?c" by (simp add: cursor_after_remove_simps)
    have z: "?d\<lparr>ap_cursor := 0\<rparr> = ?c" if "ap_active ?d = []" using that by (simp add: cursor_after_remove_def)
    have e: "rr_scan ops m 0 a = (if ap_active ?d = [] then Some (Ok (?d\<lparr>ap_cursor := 0\<rparr>, Inl m)) else rr_scan ops m 0 ?c)"
      using i qp x c(3) b(1) by (subst unf) (simp add: Let_def)
    have "\<exists>a' res. rr_scan ops m 0 a = Some (Ok (a', res)) \<and> scanned_ok m ?c a' res"
      using e z n scanned_okI_none [OF d(1)] less.hyps [OF _ d(1)] act remove_at_perm(2) [OF i(1)] i
      by (cases "ap_active ?c = []") auto
    then show ?thesis
      using scanned_ok_step [OF less.prems(1) i(1) qp act sub c(2)] h c(4) by blast
  qed
qed

text \<open>Reactivation moves pipes; it changes nothing they hold.\<close>

definition moved :: "'p active_pipes \<Rightarrow> 'p active_pipes \<Rightarrow> bool" where
  "moved a b \<longleftrightarrow> ap_ok pok b \<and> held items b = held items a \<and> dead_peers b = dead_peers a \<and>
     length (ap_inactive b) \<le> length (ap_inactive a) \<and> prefix (ap_active a) (ap_active b)"

lemma reactivate_one_list:
  assumes "ap_inactive a \<noteq> []"
  obtains "ap_active (try_reactivate_one ops a) = ap_active a" "ap_inactive (try_reactivate_one ops a) = ap_inactive a"
      "ap_peers (try_reactivate_one ops a) = ap_peers a" "ap_cursor (try_reactivate_one ops a) = ap_cursor a"
  | i q p p' where "i < length (ap_inactive a)" "ap_inactive a ! i = (q, p)" "po_reopen ops p = Some p'"
      "ap_active (try_reactivate_one ops a) = ap_active a @ [(q, p')]"
      "ap_inactive (try_reactivate_one ops a) = remove_at i (ap_inactive a)"
      "ap_peers (try_reactivate_one ops a) = ap_peers a" "ap_cursor (try_reactivate_one ops a) = ap_cursor a"
proof -
  let ?i = "ap_inactive_cursor a mod length (ap_inactive a)"
  obtain q p where qp: "ap_inactive a ! ?i = (q, p)" by fastforce
  show thesis
  proof (cases "po_reopen ops p")
    case None
    then show thesis using qp assms by (intro that(1)) (simp_all add: try_reactivate_one_def Let_def)
  next
    case (Some p')
    then show thesis using qp assms
      by (intro that(2) [of ?i q p p']) (simp_all add: try_reactivate_one_def Let_def)
  qed
qed

lemma reactivate_one_moved:
  assumes ok: "ap_ok pok a"
  shows "moved a (try_reactivate_one ops a)"
proof (cases "ap_inactive a = []")
  case True
  then show ?thesis using ok by (simp add: moved_def try_reactivate_one_def)
next
  case False
  let ?b = "try_reactivate_one ops a"
  from False show ?thesis
  proof (cases rule: reactivate_one_list)
    case 1
    then have "ap_pipes ?b = ap_pipes a" by (simp add: ap_pipes_def)
    then show ?thesis using ok 1 by (simp add: moved_def ap_ok_def dead_peers_def held_def held_list_def)
  next
    case (2 i q p p')
    note r = remove_at_perm [OF 2(1)]
    have qp: "(q, p) \<in> set (ap_pipes a)" using nth_mem [OF 2(1)] 2(2) by (simp add: ap_pipes_def)
    then have "pok p" using ok by (force simp: ap_ok_def)
    note law = reopen_law [OF this 2(3)]
    have d: "distinct (map fst (ap_pipes a))" using ok by (simp add: ap_ok_def)
    have keys: "distinct (map fst (ap_pipes ?b))" "fst ` set (ap_pipes ?b) = fst ` set (ap_pipes a)"
      using d r(1,3,4) 2(2,4,5) by (auto simp: ap_pipes_def)
    have set: "set (ap_pipes a) = insert (q, p) (set (ap_active a) \<union> set (remove_at i (ap_inactive a)))"
      "set (ap_pipes ?b) = insert (q, p') (set (ap_active a) \<union> set (remove_at i (ap_inactive a)))"
      using r(1) 2(2,4,5) by (auto simp: ap_pipes_def)
    have "set (held_list items ?b) = set (held_list items a)" unfolding held_list_def using law by (simp add: set)
    then have h: "held items ?b = held items a" by (rule held_same [OF ok keys(1)])
    have "ap_ok pok ?b" using ok keys law 2(4,6,7) set unfolding ap_ok_def by auto
    moreover have "dead_peers ?b = dead_peers a" unfolding dead_peers_def set using law by blast
    ultimately show ?thesis using h r(2) 2(4,5) by (simp add: moved_def)
  qed
qed

lemma moved_trans: "moved a b \<Longrightarrow> moved b c \<Longrightarrow> moved a c"
  by (auto simp: moved_def)

lemma probe_moved: "ap_ok pok a \<Longrightarrow> moved a (probe_inactive n ops a)"
proof (induction n arbitrary: a)
  case (Suc n)
  note m = reactivate_one_moved [OF Suc.prems]
  then have "ap_ok pok (try_reactivate_one ops a)" by (simp add: moved_def)
  from Suc.IH [OF this] m show ?case by (auto simp: Let_def intro: moved_trans)
qed (simp add: moved_def)

lemma rr_reactivate_moved: "ap_ok pok a \<Longrightarrow> moved a (rr_reactivate ops a)"
  using probe_moved reactivate_one_moved
  by (auto simp: rr_reactivate_def try_reactivate_when_empty_def moved_def)

lemma rr_scan_any:
  assumes "ap_ok pok a"
  shows "\<exists>a' res. rr_scan ops m 0 a = Some (Ok (a', res)) \<and> scanned_ok m a a' res"
proof (cases "ap_active a = []")
  case True
  then show ?thesis using scanned_okI_none [OF assms True] by (subst rr_scan.simps) auto
qed (rule rr_scan_ok [OF assms])

text \<open>What a send promises of the pipes before and after it.\<close>

definition sent_ok :: "message \<Rightarrow> 'p round_robin \<Rightarrow> 'p round_robin \<Rightarrow> try_send_error + unit \<Rightarrow> bool" where
  "sent_ok m rr rr' res \<longleftrightarrow> ap_ok pok (rr_pipes rr') \<and>
     (\<exists>D \<subseteq> dead_peers (rr_pipes rr).
      case res of
        Inl TS_Closed \<Rightarrow> rr_closed rr \<and> rr' = rr
      | Inl (TS_Full m') \<Rightarrow> m' = m \<and> ap_active (rr_pipes rr') = [] \<and>
          held items (rr_pipes rr') = (held items (rr_pipes rr)) |` (- D) \<and>
          (\<forall>(x, p) \<in> set (ap_active (rr_reactivate ops (rr_pipes rr))). po_is_alive ops p \<longrightarrow> \<not> room p)
      | Inr _ \<Rightarrow> \<exists>q p. (q, p) \<in> set (ap_active (rr_reactivate ops (rr_pipes rr))) \<and> po_is_alive ops p \<and> room p \<and>
          held items (rr_pipes rr') = ((held items (rr_pipes rr)) |` (- D))(q \<mapsto> accept m p))"

lemma rr_try_send_ok:
  assumes ok: "ap_ok pok (rr_pipes rr)"
  shows "\<exists>rr' res. rr_try_send ops m rr = Some (Ok (rr', res)) \<and> sent_ok m rr rr' res"
proof (cases "rr_closed rr \<or> \<not> has_any_pipe (rr_pipes rr)")
  case True
  moreover have "rr_reactivate ops (rr_pipes rr) = rr_pipes rr" if "\<not> has_any_pipe (rr_pipes rr)"
    using that by (simp add: has_any_pipe_def rr_reactivate_def try_reactivate_when_empty_def)
  ultimately show ?thesis
    using ok by (auto simp: rr_try_send_def sent_ok_def has_any_pipe_def restrict_map_def intro!: exI [of _ "{}"])
next
  case False
  let ?a = "rr_reactivate ops (rr_pipes rr)"
  have m: "ap_ok pok ?a" "held items ?a = held items (rr_pipes rr)" "dead_peers ?a = dead_peers (rr_pipes rr)"
    using rr_reactivate_moved [OF ok] by (simp_all add: moved_def)
  from rr_scan_any [OF m(1), of m] obtain a' x where x: "rr_scan ops m 0 ?a = Some (Ok (a', x))" "scanned_ok m ?a a' x"
    by blast
  show ?thesis
  proof (cases x)
    case (Inl m')
    then have "rr_try_send ops m rr = Some (Ok (rr\<lparr>rr_pipes := a'\<rparr>, Inl (TS_Full m')))"
      using False x(1) by (simp add: rr_try_send_def)
    moreover have "sent_ok m rr (rr\<lparr>rr_pipes := a'\<rparr>) (Inl (TS_Full m'))"
      using x(2) Inl m(2,3) by (simp add: sent_ok_def scanned_ok_def)
    ultimately show ?thesis by blast
  next
    case (Inr u)
    then have "rr_try_send ops m rr = Some (Ok (rr\<lparr>rr_pipes := a'\<rparr>, Inr ()))"
      using False x(1) by (simp add: rr_try_send_def)
    moreover have "sent_ok m rr (rr\<lparr>rr_pipes := a'\<rparr>) (Inr ())"
      using x(2) Inr m(2,3) by (simp add: sent_ok_def scanned_ok_def)
    ultimately show ?thesis by blast
  qed
qed

lemma send_each_ok:
  assumes "ap_ok pok (rr_pipes rr)"
  shows "\<exists>rr' ms' res. send_each ops n sent ms rr = Some (Ok (rr', ms', res)) \<and> ap_ok pok (rr_pipes rr')"
  using assms
proof (induction n arbitrary: sent ms rr)
  case (Suc n)
  show ?case
  proof (cases ms)
    case (Cons m ms')
    from rr_try_send_ok [OF Suc.prems, of m] obtain rr1 res where
      r: "rr_try_send ops m rr = Some (Ok (rr1, res))" "ap_ok pok (rr_pipes rr1)" by (auto simp: sent_ok_def)
    show ?thesis
    proof (cases res)
      case (Inl e)
      then show ?thesis using r Cons by (cases e) auto
    next
      case (Inr u)
      then show ?thesis using r Cons Suc.IH [OF r(2), of "sent + 1" ms'] by auto
    qed
  qed (use Suc.prems in simp)
qed simp

lemma rr_try_send_many_ok:
  assumes ok: "ap_ok pok (rr_pipes rr)"
  shows "\<exists>rr' ms' res. rr_try_send_many ops ms n rr = Some (Ok (rr', ms', res)) \<and> ap_ok pok (rr_pipes rr')"
proof -
  let ?a = "rr_reactivate ops (rr_pipes rr)"
  have a: "ap_ok pok ?a" using rr_reactivate_moved [OF ok] by (simp add: moved_def)
  have each: "\<exists>rr' ms' res. send_each ops n 0 ms (rr\<lparr>rr_pipes := ?a\<rparr>) = Some (Ok (rr', ms', res)) \<and> ap_ok pok (rr_pipes rr')"
    using send_each_ok [of "rr\<lparr>rr_pipes := ?a\<rparr>" n 0 ms] a by simp
  have one: "\<exists>rr' ms' res. (case po_try_send_many ops ms n (snd (ap_active ?a ! 0)) of
       (p, msgs, Inr n_sent) \<Rightarrow> Some (Ok (rr\<lparr>rr_pipes := set_active 0 p ?a\<rparr>, msgs, Inr n_sent))
     | (p, msgs, Inl (Pipe_Full returned)) \<Rightarrow>
         Some (Ok (rr\<lparr>rr_pipes := ap_deactivate 0 (set_active 0 p ?a)\<rparr>, msgs, Inl (TS_Full returned)))
     | (p, msgs, Inl (Pipe_Closed returned)) \<Rightarrow>
         Some (Ok (rr\<lparr>rr_pipes := (drop_active 0 ?a)\<lparr>ap_cursor := 0\<rparr>\<rparr>, msgs, Inl (TS_Full returned))))
       = Some (Ok (rr', ms', res)) \<and> ap_ok pok (rr_pipes rr')" if l: "length (ap_active ?a) = 1"
  proof -
    obtain q p where qp: "ap_active ?a ! 0 = (q, p)" by fastforce
    have i: "0 < length (ap_active ?a)" using l by simp
    then have "(q, p) \<in> set (ap_pipes ?a)" using nth_mem [OF i] qp by (simp add: ap_pipes_def)
    then have "pok p" using a by (force simp: ap_ok_def)
    obtain p' ms' r where p': "po_try_send_many ops ms n p = (p', ms', r)" by (metis prod_cases3)
    note law = try_send_many_law [OF \<open>pok p\<close> p']
    note sa = set_active_held(1,3) [OF a i law]
    have d: "ap_ok pok (ap_deactivate 0 (set_active 0 p' ?a))" using sa i by (intro deactivate_held(1)) simp_all
    have "remove_at 0 (ap_active ?a) = []" using l by (simp add: remove_at_def)
    then have "(drop_active 0 ?a)\<lparr>ap_cursor := 0\<rparr> = cursor_after_remove 0 (drop_active 0 ?a)"
      by (simp add: cursor_after_remove_def drop_active_def)
    then have c: "ap_ok pok ((drop_active 0 ?a)\<lparr>ap_cursor := 0\<rparr>)" using drop_active_held(1) [OF a i] by simp
    show ?thesis using sa(1) d c p' qp by (cases r) (auto split: send_pipe_error.split)
  qed
  show ?thesis using each one ok by (simp add: rr_try_send_many_def Let_def)
qed

lemma scan_space_ok:
  assumes "ap_ok pok a"
  shows "\<exists>a' r. scan_space ops 0 a = Some (a', r) \<and> ap_ok pok a'"
  using assms
proof (induction "length (ap_active a)" arbitrary: a rule: less_induct)
  case (less a)
  note unf = scan_space.simps [of ops 0 a]
  show ?case
  proof (cases "ap_active a = []")
    case True
    then show ?thesis using less.prems by (subst unf) simp
  next
    case False
    let ?n = "length (ap_active a)"
    let ?i = "ap_cursor a mod ?n"
    let ?b = "a\<lparr>ap_cursor := (?i + 1) mod ?n\<rparr>"
    let ?c = "cursor_after_remove ?i (drop_active ?i ?b)"
    have i: "?i < ?n" using False by simp
    have b: "ap_ok pok ?b" using less.prems False by (simp add: ap_ok_def ap_pipes_def less_max_iff_disj)
    note d = drop_active_held [of pok ?b ?i, OF b]
    have "length (ap_active ?c) < ?n" using d(3) i remove_at_perm(2) [OF i] by simp
    then have r: "\<exists>a' r. scan_space ops 0 ?c = Some (a', r) \<and> ap_ok pok a'" using d(1) i by (intro less.hyps) simp_all
    have z: "(drop_active ?i ?b)\<lparr>ap_cursor := 0\<rparr> = ?c" if "ap_active (drop_active ?i ?b) = []"
      using that by (simp add: cursor_after_remove_def)
    show ?thesis using r z b d(1) i False by (subst unf) (auto simp: Let_def)
  qed
qed

lemma next_space_ok:
  assumes "ap_ok pok a"
  shows "\<exists>a' r. next_space_notify_any ops a = Some (a', r) \<and> ap_ok pok a'"
  using scan_space_ok [OF assms] assms by (auto simp: next_space_notify_any_def split: option.split)

text \<open>With no pipe set aside, a send goes to the pipe at the cursor when that has room.\<close>

lemma send_at_cursor:
  assumes ok: "ap_ok pok (rr_pipes rr)" and o: "\<not> rr_closed rr" "ap_inactive (rr_pipes rr) = []" "ap_active (rr_pipes rr) \<noteq> []"
    and pc: "ap_active (rr_pipes rr) ! ap_cursor (rr_pipes rr) = (q, p)" "po_is_alive ops p" "room p"
  shows "\<exists>p'. rr_try_send ops m rr =
      Some (Ok (rr\<lparr>rr_pipes := set_active (ap_cursor (rr_pipes rr)) p' (advance_cursor (rr_pipes rr))\<rparr>, Inr ()))
    \<and> items p' = accept m p \<and> pok p'"
proof -
  let ?a = "rr_pipes rr"
  have c: "ap_cursor ?a < length (ap_active ?a)" "0 < length (ap_active ?a)" using ok o(3) by (cases "ap_active ?a"; simp add: ap_ok_def)+
  have "(q, p) \<in> set (ap_pipes ?a)" using nth_mem [OF c(1)] pc(1) by (simp add: ap_pipes_def)
  then have "pok p" using ok by (force simp: ap_ok_def)
  obtain p' x where x: "po_try_send ops m p = (p', x)" by fastforce
  from try_send_law [OF \<open>pok p\<close> x] pc have p': "x = Inr ()" "items p' = accept m p" "pok p'" by auto
  have "rr_scan ops m 0 ?a = Some (Ok (set_active (ap_cursor ?a) p' (advance_cursor ?a), Inr ()))"
    using c pc(1) x p'(1) by (subst rr_scan.simps) (simp add: Let_def advance_cursor_def)
  then show ?thesis using o p' by (intro exI [of _ p']) (simp add: rr_try_send_def has_any_pipe_def rr_reactivate_def)
qed

lemma send_each_fair:
  assumes "ap_ok pok (rr_pipes rr)" "\<not> rr_closed rr" "ap_inactive (rr_pipes rr) = []" "ap_active (rr_pipes rr) \<noteq> []"
    and "n = length (ap_active (rr_pipes rr))" "c = ap_cursor (rr_pipes rr)" "length ms \<le> n"
    and "\<And>j. j < length ms \<Longrightarrow> po_is_alive ops (snd (ap_active (rr_pipes rr) ! ((c + j) mod n))) \<and>
        room (snd (ap_active (rr_pipes rr) ! ((c + j) mod n)))"
  shows "\<exists>rr'. send_each ops (length ms) k ms rr = Some (Ok (rr', [], Inr (k + length ms))) \<and>
    length (ap_active (rr_pipes rr')) = n \<and>
    (\<forall>j < n. fst (ap_active (rr_pipes rr') ! ((c + j) mod n)) = fst (ap_active (rr_pipes rr) ! ((c + j) mod n)) \<and>
       items (snd (ap_active (rr_pipes rr') ! ((c + j) mod n))) =
         (if j < length ms then accept (ms ! j) (snd (ap_active (rr_pipes rr) ! ((c + j) mod n)))
          else items (snd (ap_active (rr_pipes rr) ! ((c + j) mod n)))))"
  using assms
proof (induction ms arbitrary: rr c k)
  case Nil
  then show ?case by simp
next
  case (Cons m ms)
  let ?a = "rr_pipes rr"
  have c: "c < n" "0 < n" using Cons.prems(1,4-6) by (cases "ap_active ?a"; simp add: ap_ok_def)+
  obtain q p where qp: "ap_active ?a ! c = (q, p)" by fastforce
  have "po_is_alive ops p" "room p" using Cons.prems(8) [of 0] qp c by simp_all
  from send_at_cursor [OF Cons.prems(1-4), of q p m] this qp Cons.prems(6) obtain p' where
    p': "rr_try_send ops m rr = Some (Ok (rr\<lparr>rr_pipes := set_active c p' (advance_cursor ?a)\<rparr>, Inr ()))"
      "items p' = accept m p" "pok p'" by blast
  let ?b = "set_active c p' (advance_cursor ?a)" and ?c = "(c + 1) mod n"
  have okb: "ap_ok pok (advance_cursor ?a)" using Cons.prems(1,4) by (auto simp: ap_ok_def ap_pipes_def advance_cursor_def)
  have "c < length (ap_active (advance_cursor ?a))" using c Cons.prems(5) by (simp add: advance_cursor_def)
  note ok1 = set_active_held(1) [OF okb this p'(3)]
  have act: "ap_active ?b = (ap_active ?a)[c := (q, p')]" using qp by (simp add: set_active_def advance_cursor_def)
  have cur: "ap_cursor ?b = ?c" using c Cons.prems(5,6) by (auto simp: set_active_def advance_cursor_def mod_if)
  have ix: "(?c + j) mod n = (c + Suc j) mod n" for j by (simp add: mod_add_left_eq)
  have ne: "(c + j) mod n \<noteq> c" if "0 < j" "j < n" for j using that c by (auto simp: mod_if)
  have stay: "(ap_active ?b) ! ((c + j) mod n) = ap_active ?a ! ((c + j) mod n)" if "0 < j" "j < n" for j
    using ne [OF that] by (simp add: act)
  have ar: "po_is_alive ops (snd (ap_active ?b ! ((?c + j) mod n))) \<and> room (snd (ap_active ?b ! ((?c + j) mod n)))"
    if "j < length ms" for j
    using that Cons.prems(7) Cons.prems(8) [of "Suc j"] stay [of "Suc j"] unfolding ix by simp
  have inact: "ap_inactive ?b = []" using Cons.prems(3) by (simp add: set_active_def advance_cursor_def)
  have "\<exists>rr'. send_each ops (length ms) (k + 1) ms (rr\<lparr>rr_pipes := ?b\<rparr>) = Some (Ok (rr', [], Inr (k + 1 + length ms))) \<and>
    length (ap_active (rr_pipes rr')) = n \<and>
    (\<forall>j < n. fst (ap_active (rr_pipes rr') ! ((?c + j) mod n)) = fst (ap_active (rr_pipes (rr\<lparr>rr_pipes := ?b\<rparr>)) ! ((?c + j) mod n)) \<and>
       items (snd (ap_active (rr_pipes rr') ! ((?c + j) mod n))) =
         (if j < length ms then accept (ms ! j) (snd (ap_active (rr_pipes (rr\<lparr>rr_pipes := ?b\<rparr>)) ! ((?c + j) mod n)))
          else items (snd (ap_active (rr_pipes (rr\<lparr>rr_pipes := ?b\<rparr>)) ! ((?c + j) mod n)))))"
    using Cons.prems(2-5,7) ok1 act cur ar inact by (intro Cons.IH) simp_all
  then obtain rr' where r: "send_each ops (length ms) (k + 1) ms (rr\<lparr>rr_pipes := ?b\<rparr>) = Some (Ok (rr', [], Inr (k + 1 + length ms)))"
    "length (ap_active (rr_pipes rr')) = n"
    and rj: "\<And>j. j < n \<Longrightarrow> fst (ap_active (rr_pipes rr') ! ((c + Suc j) mod n)) = fst (ap_active ?b ! ((c + Suc j) mod n)) \<and>
       items (snd (ap_active (rr_pipes rr') ! ((c + Suc j) mod n))) =
         (if j < length ms then accept (ms ! j) (snd (ap_active ?b ! ((c + Suc j) mod n)))
          else items (snd (ap_active ?b ! ((c + Suc j) mod n))))"
    unfolding ix by auto
  have "fst (ap_active (rr_pipes rr') ! ((c + j) mod n)) = fst (ap_active ?a ! ((c + j) mod n)) \<and>
       items (snd (ap_active (rr_pipes rr') ! ((c + j) mod n))) =
         (if j < length (m # ms) then accept ((m # ms) ! j) (snd (ap_active ?a ! ((c + j) mod n)))
          else items (snd (ap_active ?a ! ((c + j) mod n))))" if j: "j < n" for j
  proof (cases j)
    case 0
    have "(c + Suc (n - 1)) mod n = c" using c by simp
    moreover have "\<not> n - 1 < length ms" using Cons.prems(7) by simp
    moreover have "ap_active ?b ! c = (q, p')" using act c Cons.prems(5) by simp
    ultimately show ?thesis using rj [of "n - 1"] c 0 qp p'(2) by simp
  next
    case (Suc i)
    then show ?thesis using rj [of i] stay [of j] j by simp
  qed
  then show ?case using r p'(1) by (intro exI [of _ rr']) simp
qed

end

section \<open>The strategy over send pipes\<close>

definition pipe_reopen :: "send_pipe \<Rightarrow> send_pipe option" where
  "pipe_reopen p =
     (if pp_above_lwm p \<and> \<not> pipe_is_below_lwm p then None else Some (p\<lparr>pp_above_lwm := False\<rparr>))"

definition pipe_operations :: "send_pipe pipe_ops" where
  "pipe_operations = \<lparr>po_try_send = pipe_try_send, po_try_send_many = pipe_try_send_many, po_reopen = pipe_reopen,
     po_is_alive = pipe_is_alive, po_is_empty = pipe_producer_is_empty, po_notify_space = notify_space\<rparr>"

lemma pipe_many_ok:
  assumes ok: "pipe_ok p" and t: "pipe_try_send_many ms n p = (p', ms', r)"
  shows "pipe_ok p'"
proof (cases "pp_inner p")
  case (Queue_Inner x)
  then show ?thesis using pipe_try_send_many_queue [OF ok _ t] by blast
next
  case (Conflate_Inner c)
  show ?thesis
  proof (cases ms)
    case Nil
    then show ?thesis using ok t Conflate_Inner by (simp add: pipe_try_send_many_def)
  next
    case (Cons m msgs)
    obtain q y where y: "pipe_try_send m p = (q, y)" by fastforce
    have "p' = q"
      using t y Conflate_Inner Cons by (auto simp: pipe_try_send_many_def pipe_try_send_def split: prod.splits sum.splits)
    then show ?thesis using pipe_try_send_cases [OF ok y] by blast
  qed
qed

interpretation pipes: pipe_laws pipe_operations pipe_ok pipe_has_room pipe_items pipe_accept
proof unfold_locales
  fix p m p' res
  assume "pipe_ok p" "po_try_send pipe_operations m p = (p', res)"
  then show "pipe_ok p' \<and> po_is_alive pipe_operations p' = po_is_alive pipe_operations p \<and>
       (res = Inr () \<and> po_is_alive pipe_operations p \<and> pipe_has_room p \<and> pipe_items p' = pipe_accept m p \<or>
        res = Inl (Pipe_Full m) \<and> po_is_alive pipe_operations p \<and> \<not> pipe_has_room p \<and> pipe_items p' = pipe_items p \<or>
        res = Inl (Pipe_Closed m) \<and> \<not> po_is_alive pipe_operations p \<and> pipe_items p' = pipe_items p)"
    using pipe_try_send_cases [of p m p' res] by (auto simp: pipe_operations_def same_mode_def)
next
  fix p p' m
  assume "pipe_ok p" "po_reopen pipe_operations p = Some p'"
  then have "pipe_ok p" "p' = p\<lparr>pp_above_lwm := False\<rparr>" by (auto simp: pipe_operations_def pipe_reopen_def split: if_splits)
  then show "pipe_ok p' \<and> pipe_items p' = pipe_items p \<and> pipe_has_room p' = pipe_has_room p \<and>
      po_is_alive pipe_operations p' = po_is_alive pipe_operations p \<and> pipe_accept m p' = pipe_accept m p"
    by (cases "pp_inner p") (simp_all add: pipe_operations_def pipe_ok_def pipe_items_def pipe_has_room_def
        pipe_is_alive_def pipe_accept_def pipe_capacity_def)
next
  fix p ms n p' ms' r
  assume "pipe_ok p" "po_try_send_many pipe_operations ms n p = (p', ms', r)"
  then show "pipe_ok p'" by (auto simp: pipe_operations_def intro: pipe_many_ok)
qed

definition dead_routes :: "send_pipe active_pipes \<Rightarrow> u64 set" where
  "dead_routes a = {x. \<exists>p. (x, p) \<in> set (ap_pipes a) \<and> \<not> pipe_is_alive p}"

lemma alive_op: "po_is_alive pipe_operations = pipe_is_alive"
  by (simp add: pipe_operations_def)

lemma dead_routes_eq: "pipes.dead_peers a = dead_routes a"
  unfolding pipes.dead_peers_def dead_routes_def alive_op ..

text \<open>
  C14.  The strategy's loops end.  From any state in which every peer has one pipe and
  the cursor is an index, sending one message, sending many and choosing the
  signal to wait for all return, without indexing out of bounds, in a state of
  that kind again; so do connecting, disconnecting and shutting down.  A shutdown
  leaves no pipe and notifies the space signal of every pipe it releases.
\<close>

theorem round_robin_terminates:
  assumes "ap_ok pipe_ok (rr_pipes rr)"
  shows "(\<exists>rr' res. rr_try_send pipe_operations m rr = Some (Ok (rr', res)) \<and> ap_ok pipe_ok (rr_pipes rr')) \<and>
    (\<exists>rr' ms' res. rr_try_send_many pipe_operations ms n rr = Some (Ok (rr', ms', res)) \<and> ap_ok pipe_ok (rr_pipes rr')) \<and>
    (\<exists>a r. next_space_notify_any pipe_operations (rr_pipes rr) = Some (a, r) \<and> ap_ok pipe_ok a) \<and>
    (make_connect_pipe route rr = Ok rr1 \<longrightarrow> ap_ok pipe_ok (rr_pipes rr1)) \<and>
    (pipe_ok tx \<longrightarrow> ap_ok pipe_ok (rr_pipes (connection_added route (Some tx) rr))) \<and>
    ap_ok pipe_ok (rr_pipes (connection_removed route rr)) \<and>
    (rr_shutdown pipe_operations rr = (rr2, released) \<longrightarrow>
       ap_ok pipe_ok (rr_pipes rr2) \<and> rr_closed rr2 \<and> ap_pipes (rr_pipes rr2) = [] \<and>
       released = map (map_prod id notify_space) (ap_pipes (rr_pipes rr)))"
proof -
  have "\<exists>rr' res. rr_try_send pipe_operations m rr = Some (Ok (rr', res)) \<and> ap_ok pipe_ok (rr_pipes rr')"
    using pipes.rr_try_send_ok [OF assms, of m] by (auto simp: pipes.sent_ok_def)
  moreover have "rr_shutdown pipe_operations rr = (rr2, released) \<longrightarrow>
       ap_ok pipe_ok (rr_pipes rr2) \<and> rr_closed rr2 \<and> ap_pipes (rr_pipes rr2) = [] \<and>
       released = map (map_prod id notify_space) (ap_pipes (rr_pipes rr))"
    using rr_shutdown_released [of pipe_operations rr rr2 released] rr_connection_ok(3) [OF assms, of pipe_operations]
    by (auto simp: pipe_operations_def)
  ultimately show ?thesis
    using pipes.rr_try_send_many_ok [OF assms, of ms n] pipes.next_space_ok [OF assms]
      make_connect_pipe_ok [OF assms, of route rr1] rr_connection_ok(2) [OF assms] rr_connection_ok(1) [OF assms, of "Some tx"]
    by simp
qed

text \<open>
  C13.  A message is sent to exactly one peer or handed back.  When \<^verbatim>\<open>try_send\<close> succeeds,
  one live pipe with room holds the message on top of what it held (or instead,
  when it conflates); when it fails, the message comes back, no pipe it tried had
  room and none is left active.  Every other pipe holds what it held, but for
  those whose peer is gone, which may be forgotten.
\<close>

theorem round_robin_exactly_once:
  assumes "ap_ok pipe_ok (rr_pipes rr)" and "\<not> rr_closed rr"
    and "rr_try_send pipe_operations m rr = Some (Ok (rr', res))"
  shows "\<exists>D \<subseteq> dead_routes (rr_pipes rr).
    (res = Inr () \<and> (\<exists>q p. (q, p) \<in> set (ap_active (rr_reactivate pipe_operations (rr_pipes rr))) \<and>
        pipe_is_alive p \<and> pipe_has_room p \<and>
        held pipe_items (rr_pipes rr') = ((held pipe_items (rr_pipes rr)) |` (- D))(q \<mapsto> pipe_accept m p))) \<or>
    (res = Inl (TS_Full m) \<and> ap_active (rr_pipes rr') = [] \<and>
        held pipe_items (rr_pipes rr') = (held pipe_items (rr_pipes rr)) |` (- D) \<and>
        (\<forall>(x, p) \<in> set (ap_active (rr_reactivate pipe_operations (rr_pipes rr))). pipe_is_alive p \<longrightarrow> \<not> pipe_has_room p))"
proof -
  from pipes.rr_try_send_ok [OF assms(1), of m] assms(3) have "pipes.sent_ok m rr rr' res" by auto
  then obtain D where D: "D \<subseteq> dead_routes (rr_pipes rr)" and c:
    "case res of
        Inl TS_Closed \<Rightarrow> rr_closed rr \<and> rr' = rr
      | Inl (TS_Full m') \<Rightarrow> m' = m \<and> ap_active (rr_pipes rr') = [] \<and>
          held pipe_items (rr_pipes rr') = (held pipe_items (rr_pipes rr)) |` (- D) \<and>
          (\<forall>(x, p) \<in> set (ap_active (rr_reactivate pipe_operations (rr_pipes rr))). pipe_is_alive p \<longrightarrow> \<not> pipe_has_room p)
      | Inr _ \<Rightarrow> \<exists>q p. (q, p) \<in> set (ap_active (rr_reactivate pipe_operations (rr_pipes rr))) \<and>
          pipe_is_alive p \<and> pipe_has_room p \<and>
          held pipe_items (rr_pipes rr') = ((held pipe_items (rr_pipes rr)) |` (- D))(q \<mapsto> pipe_accept m p)"
    unfolding pipes.sent_ok_def dead_routes_eq alive_op by (elim exE conjE) (rule that; assumption)
  show ?thesis using D c assms(2) by (intro exI [of _ D] conjI) (cases res; auto split: try_send_error.splits)+
qed

text \<open>
  C19.  Round robin is fair.  With \<open>n\<close> pipes, none set aside and at most \<open>n\<close> messages for
  whose pipes there is room, the \<open>j\<close>-th message goes to the \<open>j\<close>-th pipe from the cursor
  on and every other pipe is left alone.
\<close>

theorem round_robin_fair:
  assumes "ap_ok pipe_ok (rr_pipes rr)" "\<not> rr_closed rr" "ap_inactive (rr_pipes rr) = []" "ap_active (rr_pipes rr) \<noteq> []"
    and "n = length (ap_active (rr_pipes rr))" "c = ap_cursor (rr_pipes rr)" "length ms \<le> n"
    and "\<And>j. j < length ms \<Longrightarrow> pipe_is_alive (snd (ap_active (rr_pipes rr) ! ((c + j) mod n))) \<and>
        pipe_has_room (snd (ap_active (rr_pipes rr) ! ((c + j) mod n)))"
  shows "\<exists>rr'. send_each pipe_operations (length ms) 0 ms rr = Some (Ok (rr', [], Inr (length ms))) \<and>
    length (ap_active (rr_pipes rr')) = n \<and>
    (\<forall>j < n. fst (ap_active (rr_pipes rr') ! ((c + j) mod n)) = fst (ap_active (rr_pipes rr) ! ((c + j) mod n)) \<and>
       pipe_items (snd (ap_active (rr_pipes rr') ! ((c + j) mod n))) =
         (if j < length ms then pipe_accept (ms ! j) (snd (ap_active (rr_pipes rr) ! ((c + j) mod n)))
          else pipe_items (snd (ap_active (rr_pipes rr) ! ((c + j) mod n)))))"
  using pipes.send_each_fair [OF assms(1-7), of 0, unfolded alive_op] assms(8) by simp

definition demo_rr :: "send_pipe \<Rightarrow> send_pipe \<Rightarrow> bool \<Rightarrow> send_pipe round_robin" where
  "demo_rr p q active =
     \<lparr>rr_pipes = \<lparr>ap_active = (if active then [(1, p), (2, q)] else []), ap_inactive = (if active then [] else [(1, p), (2, q)]),
        ap_peers = {1, 2}, ap_cursor = 0, ap_random = 1, ap_inactive_cursor = 0\<rparr>,
      rr_pipe_cap = 1, rr_pipe_mode = Pipe_Queue, rr_closed = False, rr_changed = 0\<rparr>"

lemma demo_pipes_ok: "pipe_ok fresh_pipe" "pipe_ok full_pipe"
proof -
  have "send_pipe_with_mode 1 Pipe_Queue = Ok fresh_pipe" by code_simp
  from pipe_hist_new [OF this] show "pipe_ok fresh_pipe" by (simp add: pipe_hist_def)
  from pipe_trace_hist [OF full_pipe_trace] show "pipe_ok full_pipe" by (simp add: pipe_hist_def)
qed

lemma demo_rr_ok: "pipe_ok p \<Longrightarrow> pipe_ok q \<Longrightarrow> ap_ok pipe_ok (rr_pipes (demo_rr p q act))"
  by (cases act; simp add: ap_ok_def demo_rr_def ap_pipes_def)

lemma round_robin_terminates_witness:
  "\<exists>rr' res. rr_try_send pipe_operations (Multi [PSingle [7]]) (demo_rr full_pipe fresh_pipe True) = Some (Ok (rr', res))"
  using round_robin_terminates [OF demo_rr_ok [OF demo_pipes_ok(2,1), of True], of "Multi [PSingle [7]]"] by blast

declare rr_scan.simps [code] scan_space.simps [code]

definition was_sent :: "('p round_robin \<times> (try_send_error + unit)) result option \<Rightarrow> bool" where
  "was_sent r = (case r of Some (Inr (_, Inr _)) \<Rightarrow> True | _ \<Rightarrow> False)"

lemma was_sentE:
  assumes "was_sent r"
  obtains rr where "r = Some (Ok (rr, Inr ()))"
proof -
  from assms obtain rr x where r: "r = Some (Ok (rr, x))" "\<forall>e. x \<noteq> Inl e"
    by (auto simp: was_sent_def split: option.splits sum.splits prod.splits)
  then have "x = Inr ()" by (cases x) auto
  then show thesis using r(1) by (intro that) simp
qed

lemma round_robin_exactly_once_witness:
  "\<exists>rr' D q p. rr_try_send pipe_operations (Multi [PSingle [7]]) (demo_rr fresh_pipe fresh_pipe True) = Some (Ok (rr', Inr ())) \<and>
     pipe_has_room p \<and>
     held pipe_items (rr_pipes rr') =
       ((held pipe_items (rr_pipes (demo_rr fresh_pipe fresh_pipe True))) |` (- D))(q \<mapsto> pipe_accept (Multi [PSingle [7]]) p)"
proof -
  let ?rr = "demo_rr fresh_pipe fresh_pipe True" and ?m = "Multi [PSingle [7]]"
  have "was_sent (rr_try_send pipe_operations ?m ?rr)" by code_simp
  then obtain rr' where r: "rr_try_send pipe_operations ?m ?rr = Some (Ok (rr', Inr ()))" by (rule was_sentE)
  have "\<not> rr_closed ?rr" by (simp add: demo_rr_def)
  from round_robin_exactly_once [OF demo_rr_ok [OF demo_pipes_ok(1,1)] this r] r show ?thesis by auto
qed

lemma round_robin_fair_witness:
  "\<exists>rr'. send_each pipe_operations 2 0 [Multi [PSingle [7]], Multi [PSingle [8]]] (demo_rr fresh_pipe fresh_pipe True)
      = Some (Ok (rr', [], Inr 2)) \<and>
    pipe_items (snd (ap_active (rr_pipes rr') ! 0)) = [Multi [PSingle [7]]] \<and>
    pipe_items (snd (ap_active (rr_pipes rr') ! 1)) = [Multi [PSingle [8]]]"
proof -
  let ?rr = "demo_rr fresh_pipe fresh_pipe True" and ?ms = "[Multi [PSingle [7]], Multi [PSingle [8]]]"
  have f: "pipe_is_alive fresh_pipe" "pipe_has_room fresh_pipe" "pipe_accept m fresh_pipe = [m]" for m
    by (code_simp, code_simp) (simp add: pipe_accept_def pipe_items_def fresh_pipe_def ring_items_def)
  have a: "ap_active (rr_pipes ?rr) = [(1, fresh_pipe), (2, fresh_pipe)]" "ap_cursor (rr_pipes ?rr) = 0"
    "\<not> rr_closed ?rr" "ap_inactive (rr_pipes ?rr) = []" by (simp_all add: demo_rr_def)
  have two: "j = 0 \<or> j = 1" if "j < 2" for j :: nat using that by auto
  have "\<exists>rr'. send_each pipe_operations (length ?ms) 0 ?ms ?rr = Some (Ok (rr', [], Inr (length ?ms))) \<and>
    length (ap_active (rr_pipes rr')) = 2 \<and>
    (\<forall>j < 2. fst (ap_active (rr_pipes rr') ! ((0 + j) mod 2)) = fst (ap_active (rr_pipes ?rr) ! ((0 + j) mod 2)) \<and>
       pipe_items (snd (ap_active (rr_pipes rr') ! ((0 + j) mod 2))) =
         (if j < length ?ms then pipe_accept (?ms ! j) (snd (ap_active (rr_pipes ?rr) ! ((0 + j) mod 2)))
          else pipe_items (snd (ap_active (rr_pipes ?rr) ! ((0 + j) mod 2)))))"
    using a f two by (intro round_robin_fair demo_rr_ok demo_pipes_ok) (auto simp: nth_Cons')
  then obtain rr' where r: "send_each pipe_operations (length ?ms) 0 ?ms ?rr = Some (Ok (rr', [], Inr (length ?ms)))"
    and j: "\<And>j. j < 2 \<Longrightarrow> pipe_items (snd (ap_active (rr_pipes rr') ! ((0 + j) mod 2))) =
         (if j < length ?ms then pipe_accept (?ms ! j) (snd (ap_active (rr_pipes ?rr) ! ((0 + j) mod 2)))
          else pipe_items (snd (ap_active (rr_pipes ?rr) ! ((0 + j) mod 2))))" by blast
  have l: "length ?ms = 2" by simp
  from j [of 0] j [of 1] r [unfolded l] f(3) a(1) show ?thesis by (intro exI [of _ rr'] conjI) simp_all
qed

text \<open>
  A sender that finds every pipe full waits for the space signal of one of them,
  the first live one set aside.  When another pipe is drained meanwhile that
  signal does not change, so the sender stays parked although a send would now
  succeed.
\<close>

lemma blocked_sender_misses_space:
  "\<not> was_sent (rr_try_send pipe_operations (Multi [PSingle [7]]) (demo_rr full_pipe full_pipe False)) \<and>
   map_option snd (next_space_notify_any pipe_operations (rr_pipes (demo_rr full_pipe full_pipe False))) = Some (Some 1) \<and>
   pipe_is_empty (fst (drain_into 8 100 full_pipe)) \<and>
   pp_space (fst (drain_into 8 100 full_pipe)) \<noteq> pp_space full_pipe \<and>
   was_sent (rr_try_send pipe_operations (Multi [PSingle [7]]) (demo_rr full_pipe (fst (drain_into 8 100 full_pipe)) False))"
  by code_simp

end
