(* ===== verification/Transform_Common.thy ===== *)
theory Transform_Common
  imports Message
begin

text \<open>
  What the compression transforms share (\<^verbatim>\<open>omq-proto/src/proto/transform/common.rs\<close>):
  the plaintext sentinel, the decompression budget of a message, the size rule of
  dictionaries and the dictionary shipment; little-endian fields and writes into
  a buffer; and the contract between an encoder and a decoder, \<open>message_transform\<close>,
  from which the delivery of whole conversations follows.
\<close>

section \<open>Little-endian fields and buffers\<close>

definition le_bytes :: "nat \<Rightarrow> nat \<Rightarrow> bytes" where
  "le_bytes n v = rev (be_bytes n v)"

definition le_val :: "bytes \<Rightarrow> nat" where
  "le_val bs = be_val (rev bs)"

lemma length_le_bytes [simp, wire_simps]: "length (le_bytes n v) = n"
  by (simp add: le_bytes_def)

lemma le_val_le_bytes [simp]: "v < 256 ^ n \<Longrightarrow> le_val (le_bytes n v) = v"
  by (simp add: le_val_def le_bytes_def)

text \<open>\<^verbatim>\<open>Vec::resize\<close> where it only grows, and \<^verbatim>\<open>copy_from_slice\<close> into a range of a buffer.\<close>

definition grow_to :: "nat \<Rightarrow> bytes \<Rightarrow> bytes" where
  "grow_to n buf = (if length buf < n then buf @ replicate (n - length buf) 0 else buf)"

definition write_at :: "nat \<Rightarrow> bytes \<Rightarrow> bytes \<Rightarrow> bytes" where
  "write_at pos bs buf = take pos buf @ bs @ drop (pos + length bs) buf"

lemma length_grow_to [simp]: "length (grow_to n buf) = max n (length buf)"
  by (simp add: grow_to_def)

lemma length_write_at [simp]: "pos + length bs \<le> length buf \<Longrightarrow> length (write_at pos bs buf) = length buf"
  by (simp add: write_at_def)

lemma take_write_at_before [simp]: "k \<le> pos \<Longrightarrow> pos \<le> length buf \<Longrightarrow> take k (write_at pos bs buf) = take k buf"
  by (simp add: write_at_def min_def)

lemma take_write_at [simp]:
  "pos \<le> length buf \<Longrightarrow> take (pos + length bs) (write_at pos bs buf) = take pos buf @ bs"
  by (simp add: write_at_def)

lemma drop_write_at [simp]:
  "pos \<le> length buf \<Longrightarrow> pos + length bs \<le> k \<Longrightarrow> drop k (write_at pos bs buf) = drop k buf"
  by (simp add: write_at_def)

section \<open>The shared rules\<close>

definition SENTINEL_PLAIN :: bytes where "SENTINEL_PLAIN = [0, 0, 0, 0]"
definition ENVELOPE_PLAIN :: nat where "ENVELOPE_PLAIN = 4"

definition take_budget :: "nat option \<Rightarrow> nat \<Rightarrow> nat option result" where
  "take_budget budget n = (case budget of
     None \<Rightarrow> Ok None
   | Some left \<Rightarrow> if n > left then Err (MessageTooLarge n left) else Ok (Some (left - n)))"

definition plaintext_payload :: "bytes \<Rightarrow> payload" where
  "plaintext_payload plain =
     (if plain = [] then payload_from_bytes SENTINEL_PLAIN
      else payload_from_bytes (SENTINEL_PLAIN @ plain))"

definition validate_dict :: "bytes \<Rightarrow> nat \<Rightarrow> unit result" where
  "validate_dict dict max_bytes =
     (if dict = [] then Err (Protocol ''{label} dictionary must not be empty'')
      else if max_bytes < length dict
      then Err (Protocol ''{label} dictionary {} bytes exceeds max {max_bytes}'')
      else Ok ())"

definition build_dict_shipment :: "bytes \<Rightarrow> bytes \<Rightarrow> message" where
  "build_dict_shipment sentinel dict = single (sentinel @ dict)"

lemma plaintext_payload_slice [view_simps]: "payload_as_slice (plaintext_payload b) = SENTINEL_PLAIN @ b"
  by (simp add: plaintext_payload_def view_simps)

lemma plaintext_payload_wf [wf_intros]: "payload_wf (plaintext_payload b)"
  by (simp add: plaintext_payload_def wf_intros)

lemma validate_dict_Ok: "validate_dict d n = Ok u \<longleftrightarrow> d \<noteq> [] \<and> length d \<le> n"
  by (auto simp: validate_dict_def)

lemma parts_build_dict_shipment [view_simps]: "parts (build_dict_shipment s d) = [s @ d]"
  by (simp add: build_dict_shipment_def view_simps)

text \<open>A budget covers a number of bytes when there is none or it is at least that number.\<close>

definition covers :: "nat option \<Rightarrow> nat \<Rightarrow> bool" where
  "covers budget n = (case budget of None \<Rightarrow> True | Some left \<Rightarrow> n \<le> left)"

definition spend :: "nat option \<Rightarrow> nat \<Rightarrow> nat option" where
  "spend budget n = map_option (\<lambda>left. left - n) budget"

lemma take_budget_Ok: "take_budget b n = Ok b' \<longleftrightarrow> covers b n \<and> b' = spend b n"
  by (auto simp: take_budget_def covers_def spend_def split: option.splits)

lemma spend_0 [simp]: "spend b 0 = b"
  by (cases b) (simp_all add: spend_def)

lemma spend_add: "spend (spend b m) n = spend b (m + n)"
  by (cases b) (simp_all add: spend_def)

lemma covers_spend: "covers b m \<Longrightarrow> covers (spend b m) n \<longleftrightarrow> covers b (m + n)"
  by (cases b) (auto simp: spend_def covers_def)

lemma covers_add: "covers b (m + n) \<Longrightarrow> covers b m"
  by (cases b) (simp_all add: covers_def)

text \<open>
  Wire messages and decoded messages are built part by part from an empty one.
\<close>

definition push_all :: "message \<Rightarrow> bytes list \<Rightarrow> message" where
  "push_all m bs = foldl (\<lambda>m b. push_part_payload m (payload_from_bytes b)) m bs"

lemma parts_push_all: "parts (push_all m bs) = parts m @ bs"
  unfolding push_all_def by (induction bs arbitrary: m) (simp_all add: parts_push_part_payload view_simps)

lemma parts_payload_push:
  "m = Empty \<or> (\<exists>p. m = Single p) \<or> (\<exists>v. m = Multi v) \<Longrightarrow>
   parts_payload (push_part_payload m p) = parts_payload m @ [p] \<and>
   ((\<exists>q. push_part_payload m p = Single q) \<or> (\<exists>v. push_part_payload m p = Multi v))"
  by auto

section \<open>The contract between an encoder and a decoder\<close>

text \<open>
  The wire messages one \<^verbatim>\<open>encode\<close> returns are given to the decoder in order; what it
  consumes itself does not surface.
\<close>

fun decode_each :: "('d \<Rightarrow> message \<Rightarrow> 'd \<times> message option result) \<Rightarrow> 'd \<Rightarrow> message list \<Rightarrow> 'd \<times> message list result" where
  "decode_each dec d [] = (d, Ok [])"
| "decode_each dec d (w # ws) =
     (case dec d w of
        (d1, Inl e) \<Rightarrow> (d1, Err e)
      | (d1, Inr r) \<Rightarrow> (case decode_each dec d1 ws of
          (d2, res) \<Rightarrow> (d2, rbind res (\<lambda>ms. Ok (case r of None \<Rightarrow> ms | Some m \<Rightarrow> m # ms)))))"

fun encode_each :: "('r \<Rightarrow> 'e \<Rightarrow> message \<Rightarrow> 'e \<times> message list result) \<Rightarrow> 'e \<Rightarrow> ('r \<times> message) list \<Rightarrow> 'e \<times> message list result" where
  "encode_each enc e [] = (e, Ok [])"
| "encode_each enc e ((r, m) # ms) =
     (case enc r e m of
        (e1, Inl err) \<Rightarrow> (e1, Err err)
      | (e1, Inr out) \<Rightarrow> (case encode_each enc e1 ms of
          (e2, res) \<Rightarrow> (e2, rbind res (\<lambda>rest. Ok (out @ rest)))))"

lemma decode_each_append:
  "decode_each dec d (xs @ ys) = (case decode_each dec d xs of
     (d1, Inl e) \<Rightarrow> (d1, Err e)
   | (d1, Inr ms) \<Rightarrow> (case decode_each dec d1 ys of (d2, res) \<Rightarrow> (d2, rbind res (\<lambda>rest. Ok (ms @ rest)))))"
  by (induction xs arbitrary: d)
    (auto split: prod.splits sum.splits option.splits simp: rbind_def)

locale message_transform =
  fixes encode :: "'r \<Rightarrow> 'e \<Rightarrow> message \<Rightarrow> 'e \<times> message list result"
    and decode :: "'d \<Rightarrow> message \<Rightarrow> 'd \<times> message option result"
    and in_step :: "'e \<Rightarrow> 'd \<Rightarrow> bool"
    and fits :: "'e \<Rightarrow> 'd \<Rightarrow> message \<Rightarrow> bool"
  assumes deliver: "in_step e d \<Longrightarrow> fits e d m \<Longrightarrow>
      \<exists>e' out d' m'. encode r e m = (e', Ok out) \<and> decode_each decode d out = (d', Ok [m']) \<and>
        parts m' = parts m \<and> in_step e' d' \<and> fits e' d' = fits e d"
begin

lemma conversation:
  assumes "in_step e d" "\<forall>(r, m) \<in> set ms. fits e d m"
  shows "\<exists>e' wire d' got. encode_each encode e ms = (e', Ok wire) \<and> decode_each decode d wire = (d', Ok got) \<and>
    map parts got = map (parts \<circ> snd) ms \<and> in_step e' d' \<and> fits e' d' = fits e d"
  using assms
proof (induction ms arbitrary: e d)
  case Nil
  then show ?case by simp
next
  case (Cons rm ms)
  obtain r m where rm: "rm = (r, m)" by (cases rm)
  obtain e1 out d1 m1 where one: "encode r e m = (e1, Ok out)" "decode_each decode d out = (d1, Ok [m1])"
    "parts m1 = parts m" "in_step e1 d1" "fits e1 d1 = fits e d"
    using deliver [of e d m r] Cons.prems rm by auto
  obtain e2 wire d2 got where rest: "encode_each encode e1 ms = (e2, Ok wire)"
    "decode_each decode d1 wire = (d2, Ok got)" "map parts got = map (parts \<circ> snd) ms" "in_step e2 d2" "fits e2 d2 = fits e1 d1"
    using Cons.IH [of e1 d1] Cons.prems one by auto
  show ?case
    by (rule exI [of _ e2], rule exI [of _ "out @ wire"], rule exI [of _ d2], rule exI [of _ "m1 # got"])
      (simp add: rm one rest decode_each_append)
qed

end

end
