(* ===== verification/Lz4.thy ===== *)
theory Lz4
  imports Transform_Common
begin

text \<open>
  The LZ4 message transform, \<^verbatim>\<open>omq-proto/src/proto/transform/lz4.rs\<close>: encoder and decoder
  of message parts, single blocks, multiple blocks, plaintext and dictionary
  shipments.  The block compressor, the decompressor and the dictionary trainer of
  the \<^verbatim>\<open>lz4rip\<close> crate are the record \<open>lz4rip\<close>; \<open>lz4rip_safe\<close> states that they stay within
  the slices they are given and \<open>lz4rip_laws\<close> what their documentation promises.
\<close>

section \<open>The crate\<close>

text \<open>
  \<^verbatim>\<open>compress_into\<close> and \<^verbatim>\<open>decompress_into\<close> are given the output slice and return it as they
  leave it with the number of bytes written, \<open>None\<close> for an error.
\<close>

record ('c, 'k, 'd, 't) lz4rip =
  lz_new :: 'c
  lz_compress :: "'c \<Rightarrow> bytes \<Rightarrow> bytes \<Rightarrow> 'c \<times> bytes \<times> nat option"
  lz_dict_new :: "bytes \<Rightarrow> 'k"
  lz_dict_compress :: "'k \<Rightarrow> bytes \<Rightarrow> bytes \<Rightarrow> 'k \<times> bytes \<times> nat option"
  lz_max_output :: "nat \<Rightarrow> nat"
  lz_decompress_into :: "bytes \<Rightarrow> bytes \<Rightarrow> bytes \<times> nat option"
  lz_with_dict :: "bytes \<Rightarrow> 'd"
  lz_dict_decompress_into :: "'d \<Rightarrow> bytes \<Rightarrow> bytes \<Rightarrow> bytes \<times> nat option"
  lz_trainer :: "nat \<Rightarrow> 't"
  lz_add_sample :: "'t \<Rightarrow> bytes \<Rightarrow> 't"
  lz_train :: "'t \<Rightarrow> bytes"

section \<open>Constants and state\<close>

definition SENTINEL_LZ4B :: bytes where "SENTINEL_LZ4B = ascii ''LZ4B''"
definition SENTINEL_LZ4M :: bytes where "SENTINEL_LZ4M = ascii ''LZ4M''"
definition SENTINEL_LZ4D :: bytes where "SENTINEL_LZ4D = ascii ''LZ4D''"
definition ENVELOPE_LZ4B :: nat where "ENVELOPE_LZ4B = 12"
definition LZ4M_BLOCK_SIZE :: nat where "LZ4M_BLOCK_SIZE = 0x40000000"
definition LZ4_MAX_EXPANSION :: nat where "LZ4_MAX_EXPANSION = 255"
definition LZ4_MIN_COMPRESS_NO_DICT :: nat where "LZ4_MIN_COMPRESS_NO_DICT = 512"
definition LZ4_MIN_COMPRESS_WITH_DICT :: nat where "LZ4_MIN_COMPRESS_WITH_DICT = 64"
definition LZ4_MAX_DICT_BYTES :: nat where "LZ4_MAX_DICT_BYTES = 8192"
definition LZ4_DEFAULT_DICT_CAPACITY :: nat where "LZ4_DEFAULT_DICT_CAPACITY = 2048"

definition i32_max :: nat where "i32_max = 2147483647"

definition decode_len :: "nat \<Rightarrow> nat result" where
  "decode_len declared =
     (if usize_max < declared then Err (Protocol ''{label} declared size exceeds usize'')
      else if isize_max < declared then Err (Protocol ''{label} declared size exceeds maximum allocation'')
      else Ok declared)"

definition lz4_is_dict_shipment :: "message \<Rightarrow> bool" where
  "lz4_is_dict_shipment msg =
     (msg_len msg = 1 \<and> (case part_bytes msg 0 of None \<Rightarrow> False | Some part \<Rightarrow> prefix SENTINEL_LZ4D part))"

datatype ('c, 'k) lz_compressor = NoDict 'c | DictC 'k

fun lz_compress_into :: "('c, 'k, 'd, 't) lz4rip \<Rightarrow> ('c, 'k) lz_compressor \<Rightarrow> bytes \<Rightarrow> bytes \<Rightarrow>
    ('c, 'k) lz_compressor \<times> bytes \<times> nat option" where
  "lz_compress_into lib (NoDict c) input out =
     (case lz_compress lib c input out of (c', out', n) \<Rightarrow> (NoDict c', out', n))"
| "lz_compress_into lib (DictC k) input out =
     (case lz_dict_compress lib k input out of (k', out', n) \<Rightarrow> (DictC k', out', n))"

record ('c, 'k, 't) lz4_encoder =
  le_send_dict :: "bytes option"
  le_send_dict_shipped :: bool
  le_max_message_size :: "nat option"
  le_block_size :: nat
  le_out_buf :: bytes
  le_compressor :: "('c, 'k) lz_compressor"
  le_threshold_override :: "nat option"
  le_trainer :: "'t option"
  le_train_msgs_left :: nat
  le_dict_capacity :: nat

section \<open>Construction of encoders\<close>

definition lz4_encoder_new :: "('c, 'k, 'd, 't) lz4rip \<Rightarrow> ('c, 'k, 't) lz4_encoder" where
  "lz4_encoder_new lib =
     \<lparr>le_send_dict = None, le_send_dict_shipped = False, le_max_message_size = None,
      le_block_size = LZ4M_BLOCK_SIZE, le_out_buf = [], le_compressor = NoDict (lz_new lib),
      le_threshold_override = None, le_trainer = None, le_train_msgs_left = 0,
      le_dict_capacity = LZ4_DEFAULT_DICT_CAPACITY\<rparr>"

definition lz4_with_auto_train :: "('c, 'k, 'd, 't) lz4rip \<Rightarrow> ('c, 'k, 't) lz4_encoder \<Rightarrow> ('c, 'k, 't) lz4_encoder" where
  "lz4_with_auto_train lib e =
     e\<lparr>le_trainer := Some (lz_trainer lib (le_dict_capacity e)), le_train_msgs_left := 100\<rparr>"

definition lz4_with_dict_capacity :: "('c, 'k, 'd, 't) lz4rip \<Rightarrow> ('c, 'k, 't) lz4_encoder \<Rightarrow> nat \<Rightarrow> ('c, 'k, 't) lz4_encoder" where
  "lz4_with_dict_capacity lib e cap =
     (let capacity = min cap LZ4_MAX_DICT_BYTES;
          e = e\<lparr>le_dict_capacity := capacity\<rparr>
      in if le_trainer e \<noteq> None then e\<lparr>le_trainer := Some (lz_trainer lib capacity)\<rparr> else e)"

definition lz4_with_send_dict :: "('c, 'k, 'd, 't) lz4rip \<Rightarrow> bytes \<Rightarrow> ('c, 'k, 't) lz4_encoder result" where
  "lz4_with_send_dict lib dict =
     rbind (validate_dict dict LZ4_MAX_DICT_BYTES) (\<lambda>_. Ok
       \<lparr>le_send_dict = Some dict, le_send_dict_shipped = False, le_max_message_size = None,
        le_block_size = LZ4M_BLOCK_SIZE, le_out_buf = [], le_compressor = DictC (lz_dict_new lib dict),
        le_threshold_override = None, le_trainer = None, le_train_msgs_left = 0,
        le_dict_capacity = LZ4_DEFAULT_DICT_CAPACITY\<rparr>)"

definition lz4_with_max_message_size :: "('c, 'k, 't) lz4_encoder \<Rightarrow> nat option \<Rightarrow> ('c, 'k, 't) lz4_encoder" where
  "lz4_with_max_message_size e m = e\<lparr>le_max_message_size := m\<rparr>"

definition lz4_with_block_size :: "('c, 'k, 't) lz4_encoder \<Rightarrow> nat \<Rightarrow> ('c, 'k, 't) lz4_encoder result" where
  "lz4_with_block_size e sz =
     (if sz \<le> i32_max then Ok (e\<lparr>le_block_size := sz\<rparr>)
      else Err (Panic ''LZ4 block size {size} exceeds i32::MAX''))"

definition lz4_with_threshold :: "('c, 'k, 't) lz4_encoder \<Rightarrow> nat \<Rightarrow> ('c, 'k, 't) lz4_encoder" where
  "lz4_with_threshold e t = e\<lparr>le_threshold_override := Some t\<rparr>"

definition lz4_effective_threshold :: "('c, 'k, 't) lz4_encoder \<Rightarrow> nat" where
  "lz4_effective_threshold e = (case le_threshold_override e of
     Some t \<Rightarrow> t
   | None \<Rightarrow> if le_send_dict e \<noteq> None then LZ4_MIN_COMPRESS_WITH_DICT else LZ4_MIN_COMPRESS_NO_DICT)"

definition lz4_passthrough_threshold :: "('c, 'k, 't) lz4_encoder \<Rightarrow> nat option" where
  "lz4_passthrough_threshold e =
     (if le_threshold_override e \<noteq> None then Some (lz4_effective_threshold e)
      else if le_trainer e \<noteq> None then None
      else if le_send_dict e = None then Some LZ4_MIN_COMPRESS_NO_DICT
      else None)"

definition lz4_can_offload :: "('c, 'k, 't) lz4_encoder \<Rightarrow> bool" where
  "lz4_can_offload e = (le_trainer e = None \<and> (le_send_dict e = None \<or> le_send_dict_shipped e))"

definition lz4_new_offload :: "('c, 'k, 'd, 't) lz4rip \<Rightarrow> ('c, 'k, 't) lz4_encoder \<Rightarrow> ('c, 'k, 't) lz4_encoder" where
  "lz4_new_offload lib e =
     \<lparr>le_send_dict = le_send_dict e, le_send_dict_shipped = True,
      le_max_message_size = le_max_message_size e, le_block_size = le_block_size e, le_out_buf = [],
      le_compressor = (case le_send_dict e of Some d \<Rightarrow> DictC (lz_dict_new lib d) | None \<Rightarrow> NoDict (lz_new lib)),
      le_threshold_override = le_threshold_override e, le_trainer = None, le_train_msgs_left = 0,
      le_dict_capacity = le_dict_capacity e\<rparr>"

definition lz4_sync_dict :: "('c, 'k, 'd, 't) lz4rip \<Rightarrow> ('c, 'k, 't) lz4_encoder \<Rightarrow> ('c, 'k, 't) lz4_encoder \<Rightarrow> ('c, 'k, 't) lz4_encoder" where
  "lz4_sync_dict lib e primary = (case le_send_dict primary of
     Some dict \<Rightarrow> if le_send_dict e = None
       then e\<lparr>le_send_dict := Some dict, le_compressor := DictC (lz_dict_new lib dict)\<rparr> else e
   | None \<Rightarrow> e)"

section \<open>Encoding\<close>

text \<open>Compression of one input into the output buffer from an offset on.\<close>

definition lz4_compress_at :: "('c, 'k, 'd, 't) lz4rip \<Rightarrow> ('c, 'k, 't) lz4_encoder \<Rightarrow> bytes \<Rightarrow> nat \<Rightarrow>
    ('c, 'k, 't) lz4_encoder \<times> nat result" where
  "lz4_compress_at lib e input pos =
     (if length (le_out_buf e) < pos then (e, Err (Panic ''range start index out of range''))
      else case lz_compress_into lib (le_compressor e) input (drop pos (le_out_buf e)) of
        (c', sl, n) \<Rightarrow>
          (e\<lparr>le_compressor := c', le_out_buf := take pos (le_out_buf e) @ sl\<rparr>,
           case n of None \<Rightarrow> Err (Protocol ''lz4 compress: {e}'') | Some n \<Rightarrow> Ok n))"

definition lz4_copy_out :: "bytes \<Rightarrow> nat \<Rightarrow> payload result" where
  "lz4_copy_out buf n =
     (if length buf < n then Err (Panic ''range end index out of range'')
      else Ok (payload_from_bytes (take n buf)))"

text \<open>\<^verbatim>\<open>slice::chunks\<close> for a positive size.\<close>

function chunks_of :: "nat \<Rightarrow> 'a list \<Rightarrow> 'a list list" where
  "chunks_of n xs = (if n = 0 \<or> xs = [] then [] else take n xs # chunks_of n (drop n xs))"
  by auto
termination
  by (relation "measure (\<lambda>(n, xs). length xs)") (auto simp: length_greater_0_conv)

declare chunks_of.simps [simp del]

fun lz4_blocks :: "('c, 'k, 'd, 't) lz4rip \<Rightarrow> ('c, 'k, 't) lz4_encoder \<Rightarrow> nat \<Rightarrow> bytes list \<Rightarrow>
    ('c, 'k, 't) lz4_encoder \<times> nat result" where
  "lz4_blocks lib e pos [] = (e, Ok pos)"
| "lz4_blocks lib e pos (chunk # cs) =
     (case lz4_compress_at lib e chunk (pos + 4) of
        (e, Inl err) \<Rightarrow> (e, Err err)
      | (e, Inr n) \<Rightarrow> lz4_blocks lib (e\<lparr>le_out_buf := write_at pos (le_bytes 4 n) (le_out_buf e)\<rparr>) (pos + 4 + n) cs)"

definition lz4_encode_part_multiblock :: "('c, 'k, 'd, 't) lz4rip \<Rightarrow> ('c, 'k, 't) lz4_encoder \<Rightarrow> bytes \<Rightarrow>
    ('c, 'k, 't) lz4_encoder \<times> payload result" where
  "lz4_encode_part_multiblock lib e plain =
     (let total = length plain; block_size = le_block_size e
      in if block_size = 0 then (e, Err (Panic ''attempt to divide by zero''))
      else let num_blocks = (total + block_size - 1) div block_size;
               block_bound = lz_max_output lib block_size;
               max_out = ENVELOPE_LZ4B + num_blocks * (4 + block_bound);
               buf = write_at 4 (le_bytes 8 total) (write_at 0 SENTINEL_LZ4M (grow_to max_out (le_out_buf e)))
           in case lz4_blocks lib (e\<lparr>le_out_buf := buf\<rparr>) ENVELOPE_LZ4B (chunks_of block_size plain) of
                (e, Inl err) \<Rightarrow> (e, Err err)
              | (e, Inr pos) \<Rightarrow> (e, lz4_copy_out (le_out_buf e) pos))"

definition lz4_encode_part :: "('c, 'k, 'd, 't) lz4rip \<Rightarrow> ('c, 'k, 't) lz4_encoder \<Rightarrow> payload \<Rightarrow>
    ('c, 'k, 't) lz4_encoder \<times> payload result" where
  "lz4_encode_part lib e part =
     (let plain = payload_as_bytes part
      in if length plain < lz4_effective_threshold e then (e, Ok (plaintext_payload plain))
      else if le_block_size e < length plain then lz4_encode_part_multiblock lib e plain
      else let bound = lz_max_output lib (length plain);
               e = e\<lparr>le_out_buf := grow_to (ENVELOPE_LZ4B + bound) (le_out_buf e)\<rparr>
           in case lz4_compress_at lib e plain ENVELOPE_LZ4B of
                (e, Inl err) \<Rightarrow> (e, Err err)
              | (e, Inr n) \<Rightarrow>
                  if n + ENVELOPE_LZ4B \<ge> length plain + ENVELOPE_PLAIN then (e, Ok (plaintext_payload plain))
                  else let buf = write_at 4 (le_bytes 8 (length plain)) (write_at 0 SENTINEL_LZ4B (le_out_buf e))
                       in (e\<lparr>le_out_buf := buf\<rparr>, lz4_copy_out buf (ENVELOPE_LZ4B + n)))"

fun lz4_encode_parts :: "('c, 'k, 'd, 't) lz4rip \<Rightarrow> ('c, 'k, 't) lz4_encoder \<Rightarrow> payload list \<Rightarrow> message \<Rightarrow>
    ('c, 'k, 't) lz4_encoder \<times> message result" where
  "lz4_encode_parts lib e [] wire = (e, Ok wire)"
| "lz4_encode_parts lib e (p # ps) wire =
     (case lz4_encode_part lib e p of
        (e, Inl err) \<Rightarrow> (e, Err err)
      | (e, Inr w) \<Rightarrow> lz4_encode_parts lib e ps (push_part_payload wire w))"

text \<open>Training: the parts are samples, and the hundredth message ends the training.\<close>

definition lz4_train_step :: "('c, 'k, 'd, 't) lz4rip \<Rightarrow> ('c, 'k, 't) lz4_encoder \<Rightarrow> message \<Rightarrow> ('c, 'k, 't) lz4_encoder" where
  "lz4_train_step lib e msg = (case le_trainer e of
     None \<Rightarrow> e
   | Some t \<Rightarrow>
       let t = foldl (\<lambda>t p. lz_add_sample lib t (payload_as_bytes p)) t (parts_payload msg);
           e = e\<lparr>le_trainer := Some t, le_train_msgs_left := le_train_msgs_left e - 1\<rparr>
       in if le_train_msgs_left e = 0
          then let dict = lz_train lib t; e = e\<lparr>le_trainer := None\<rparr>
               in if dict \<noteq> []
                  then e\<lparr>le_compressor := DictC (lz_dict_new lib dict), le_send_dict := Some dict,
                         le_send_dict_shipped := False\<rparr>
                  else e
          else e)"

definition lz4_ship_dict :: "('c, 'k, 't) lz4_encoder \<Rightarrow> ('c, 'k, 't) lz4_encoder \<times> message list" where
  "lz4_ship_dict e = (case le_send_dict e of
     Some dict \<Rightarrow> if \<not> le_send_dict_shipped e
       then (e\<lparr>le_send_dict_shipped := True\<rparr>, [build_dict_shipment SENTINEL_LZ4D dict])
       else (e, [])
   | None \<Rightarrow> (e, []))"

definition lz4_encode :: "('c, 'k, 'd, 't) lz4rip \<Rightarrow> ('c, 'k, 't) lz4_encoder \<Rightarrow> message \<Rightarrow>
    ('c, 'k, 't) lz4_encoder \<times> message list result" where
  "lz4_encode lib e msg =
     (let e = lz4_train_step lib e msg
      in case lz4_ship_dict e of (e, out) \<Rightarrow>
         (case lz4_encode_parts lib e (parts_payload msg) message_new of
            (e, Inl err) \<Rightarrow> (e, Err err)
          | (e, Inr wire) \<Rightarrow> (e, Ok (out @ [wire]))))"

section \<open>Decoding\<close>

record 'd lz4_decoder =
  ld_decompressor :: "'d option"
  ld_max_message_size :: "nat option"
  ld_block_size :: nat
  ld_max_recv_dict_size :: nat

definition lz4_decoder_new :: "'d lz4_decoder" where
  "lz4_decoder_new = \<lparr>ld_decompressor = None, ld_max_message_size = None, ld_block_size = LZ4M_BLOCK_SIZE,
     ld_max_recv_dict_size = LZ4_MAX_DICT_BYTES\<rparr>"

definition lz4_decoder_with_max_message_size :: "'d lz4_decoder \<Rightarrow> nat option \<Rightarrow> 'd lz4_decoder" where
  "lz4_decoder_with_max_message_size d m = d\<lparr>ld_max_message_size := m\<rparr>"

definition lz4_with_max_recv_dict_size :: "'d lz4_decoder \<Rightarrow> nat \<Rightarrow> 'd lz4_decoder" where
  "lz4_with_max_recv_dict_size d m = d\<lparr>ld_max_recv_dict_size := m\<rparr>"

definition lz4_decoder_with_block_size :: "'d lz4_decoder \<Rightarrow> nat \<Rightarrow> 'd lz4_decoder result" where
  "lz4_decoder_with_block_size d sz =
     (if sz \<le> i32_max then Ok (d\<lparr>ld_block_size := sz\<rparr>)
      else Err (Panic ''LZ4 block size {size} exceeds i32::MAX''))"

definition lz4_decompress :: "('c, 'k, 'd, 't) lz4rip \<Rightarrow> 'd option \<Rightarrow> bytes \<Rightarrow> bytes \<Rightarrow> (bytes \<times> nat) result" where
  "lz4_decompress lib dec block out =
     (case (case dec of Some d \<Rightarrow> lz_dict_decompress_into lib d block out
                      | None \<Rightarrow> lz_decompress_into lib block out) of
        (out', None) \<Rightarrow> Err (Protocol ''lz4 decompress: {e}'')
      | (out', Some n) \<Rightarrow> Ok (out', n))"

definition decode_lz4b :: "('c, 'k, 'd, 't) lz4rip \<Rightarrow> bytes \<Rightarrow> 'd option \<Rightarrow> nat option \<Rightarrow> nat \<Rightarrow>
    (payload \<times> nat option) result" where
  "decode_lz4b lib body dec budget block_size =
     (if length body < 8 then Err (Protocol ''LZ4B part shorter than declared-size header'')
      else rbind (decode_len (le_val (take 8 body))) (\<lambda>sz.
        if block_size < sz
        then Err (Protocol ''LZ4B declared size exceeds block limit; use LZ4M for large parts'')
        else rbind (take_budget budget sz) (\<lambda>budget.
        rbind (lz4_decompress lib dec (drop 8 body) (replicate sz 0)) (\<lambda>(out, n).
        if n \<noteq> sz then Err (Protocol ''LZ4B decompressed length does not match declared'')
        else Ok (payload_from_bytes out, budget)))))"

function lz4m_loop :: "('c, 'k, 'd, 't) lz4rip \<Rightarrow> bytes \<Rightarrow> 'd option \<Rightarrow> nat \<Rightarrow> nat \<Rightarrow> bytes \<Rightarrow> nat \<Rightarrow> nat \<Rightarrow>
    (bytes \<times> nat) result" where
  "lz4m_loop lib body dec block_size sz out src_pos dst_pos =
     (if dst_pos < sz
      then if length body < src_pos + 4 then Err (Protocol ''LZ4M truncated block length'')
      else let compressed_len = le_val (take 4 (drop src_pos body)); src_pos1 = src_pos + 4
      in if length body < src_pos1 + compressed_len then Err (Protocol ''LZ4M truncated block data'')
      else let block_data = take compressed_len (drop src_pos1 body); src_pos2 = src_pos1 + compressed_len;
               block_decompressed = min (sz - dst_pos) block_size
      in rbind (lz4_decompress lib dec block_data (take block_decompressed (drop dst_pos out))) (\<lambda>(sl, n).
         if n \<noteq> block_decompressed then Err (Protocol ''LZ4M block decompressed length mismatch'')
         else lz4m_loop lib body dec block_size sz (write_at dst_pos sl out) src_pos2 (dst_pos + n))
      else Ok (out, src_pos))"
  by auto
termination
  by (relation "measure (\<lambda>(lib, body, dec, block_size, sz, out, src_pos, dst_pos). length body - src_pos)") auto

declare lz4m_loop.simps [simp del]

definition decode_lz4m :: "('c, 'k, 'd, 't) lz4rip \<Rightarrow> bytes \<Rightarrow> 'd option \<Rightarrow> nat option \<Rightarrow> nat \<Rightarrow>
    (payload \<times> nat option) result" where
  "decode_lz4m lib body dec budget block_size =
     (if length body < 8 then Err (Protocol ''LZ4M part shorter than declared-size header'')
      else rbind (decode_len (le_val (take 8 body))) (\<lambda>sz.
        rbind (take_budget budget sz) (\<lambda>budget.
        if sat_mul (length body - 8) LZ4_MAX_EXPANSION < sz
        then Err (Protocol ''LZ4M declared size implausibly large for compressed input'')
        else rbind (lz4m_loop lib body dec block_size sz (replicate sz 0) 8 0) (\<lambda>(out, src_pos).
        if src_pos \<noteq> length body then Err (Protocol ''LZ4M trailing bytes after last block'')
        else Ok (payload_from_bytes out, budget)))))"

fun lz4_decode_parts :: "('c, 'k, 'd, 't) lz4rip \<Rightarrow> bool \<Rightarrow> nat \<Rightarrow> 'd lz4_decoder \<Rightarrow> nat option \<Rightarrow> message \<Rightarrow> payload list \<Rightarrow>
    'd lz4_decoder \<times> message option result" where
  "lz4_decode_parts lib multi idx d budget out [] = (d, Ok (Some out))"
| "lz4_decode_parts lib multi idx d budget out (p # ps) =
     (let bytes = payload_as_bytes p; sentinel = take 4 bytes
      in if length bytes < 4 then (d, Err (Protocol ''lz4 part shorter than 4-byte sentinel''))
      else if sentinel = SENTINEL_PLAIN then
        (case take_budget budget (length bytes - 4) of
           Inl e \<Rightarrow> (d, Err e)
         | Inr budget \<Rightarrow>
             lz4_decode_parts lib multi (idx + 1) d budget (push_part_payload out (payload_from_bytes (drop 4 bytes))) ps)
      else if sentinel = SENTINEL_LZ4B then
        (case decode_lz4b lib (drop 4 bytes) (ld_decompressor d) budget (ld_block_size d) of
           Inl e \<Rightarrow> (d, Err e)
         | Inr (w, budget) \<Rightarrow> lz4_decode_parts lib multi (idx + 1) d budget (push_part_payload out w) ps)
      else if sentinel = SENTINEL_LZ4M then
        (case decode_lz4m lib (drop 4 bytes) (ld_decompressor d) budget (ld_block_size d) of
           Inl e \<Rightarrow> (d, Err e)
         | Inr (w, budget) \<Rightarrow> lz4_decode_parts lib multi (idx + 1) d budget (push_part_payload out w) ps)
      else if sentinel = SENTINEL_LZ4D then
        (if multi \<or> idx \<noteq> 0 then (d, Err (Protocol ''LZ4D dict shipment must be a single-part message''))
         else if ld_decompressor d \<noteq> None then (d, Err (Protocol ''LZ4D shipped twice on the same connection''))
         else case validate_dict (drop 4 bytes) (ld_max_recv_dict_size d) of
             Inl e \<Rightarrow> (d, Err e)
           | Inr _ \<Rightarrow> (d\<lparr>ld_decompressor := Some (lz_with_dict lib (drop 4 bytes))\<rparr>, Ok None))
      else (d, Err (Protocol ''unknown lz4 sentinel'')))"

definition lz4_decode :: "('c, 'k, 'd, 't) lz4rip \<Rightarrow> 'd lz4_decoder \<Rightarrow> message \<Rightarrow> 'd lz4_decoder \<times> message option result" where
  "lz4_decode lib d msg =
     (let ps = into_parts_payload msg
      in lz4_decode_parts lib (length ps > 1) 0 d (ld_max_message_size d) message_new ps)"

section \<open>What the crate promises\<close>

text \<open>
  \<open>block_of\<close>: a block decompresses into a slice of the length of the input to exactly
  the input, is no longer than the bound the crate announces, and respects the
  expansion limit of the LZ4 block format.  \<open>cinv\<close>, \<open>kinv\<close> and \<open>tinv\<close> stand for the states
  that compressors, compressors of a dictionary and trainers of a capacity reach.
\<close>

definition lz_decompress_with :: "('c, 'k, 'd, 't) lz4rip \<Rightarrow> 'd option \<Rightarrow> bytes \<Rightarrow> bytes \<Rightarrow> bytes \<times> nat option" where
  "lz_decompress_with lib dec block out =
     (case dec of Some d \<Rightarrow> lz_dict_decompress_into lib d block out | None \<Rightarrow> lz_decompress_into lib block out)"

definition block_of :: "('c, 'k, 'd, 't) lz4rip \<Rightarrow> 'd option \<Rightarrow> bytes \<Rightarrow> bytes \<Rightarrow> bool" where
  "block_of lib dec input block \<longleftrightarrow>
     length block \<le> lz_max_output lib (length input) \<and> length input \<le> LZ4_MAX_EXPANSION * length block \<and>
     (\<forall>buf. length buf = length input \<longrightarrow> lz_decompress_with lib dec block buf = (input, Some (length input)))"

definition compresses :: "('c, 'k, 'd, 't) lz4rip \<Rightarrow> 'd option \<Rightarrow> bytes \<Rightarrow> bytes \<Rightarrow> bytes \<Rightarrow> nat option \<Rightarrow> bool" where
  "compresses lib dec input out out' r \<longleftrightarrow>
     (\<exists>n. r = Some n \<and> length out' = length out \<and> n \<le> length out \<and> block_of lib dec input (take n out'))"

definition lz4rip_laws :: "('c, 'k, 'd, 't) lz4rip \<Rightarrow> ('c \<Rightarrow> bool) \<Rightarrow> (bytes \<Rightarrow> 'k \<Rightarrow> bool) \<Rightarrow> (nat \<Rightarrow> 't \<Rightarrow> bool) \<Rightarrow> bool" where
  "lz4rip_laws lib cinv kinv tinv \<longleftrightarrow>
     cinv (lz_new lib) \<and> (\<forall>d. kinv d (lz_dict_new lib d)) \<and>
     (\<forall>c input out. cinv c \<longrightarrow> lz_max_output lib (length input) \<le> length out \<longrightarrow>
        (case lz_compress lib c input out of (c', out', r) \<Rightarrow> cinv c' \<and> compresses lib None input out out' r)) \<and>
     (\<forall>d k input out. kinv d k \<longrightarrow> lz_max_output lib (length input) \<le> length out \<longrightarrow>
        (case lz_dict_compress lib k input out of
           (k', out', r) \<Rightarrow> kinv d k' \<and> compresses lib (Some (lz_with_dict lib d)) input out out' r)) \<and>
     (\<forall>m n. m \<le> n \<longrightarrow> lz_max_output lib m \<le> lz_max_output lib n) \<and>
     (\<forall>n \<le> i32_max. lz_max_output lib n < 2 ^ 32) \<and>
     (\<forall>cap. tinv cap (lz_trainer lib cap)) \<and>
     (\<forall>cap t b. tinv cap t \<longrightarrow> tinv cap (lz_add_sample lib t b) \<and> length (lz_train lib t) \<le> cap)"

definition lz4rip_safe :: "('c, 'k, 'd, 't) lz4rip \<Rightarrow> bool" where
  "lz4rip_safe lib \<longleftrightarrow> (\<forall>dec block out. case lz_decompress_with lib dec block out of
     (out', r) \<Rightarrow> length out' = length out \<and> (case r of None \<Rightarrow> True | Some n \<Rightarrow> n \<le> length out))"

fun comp_ok :: "('c \<Rightarrow> bool) \<Rightarrow> (bytes \<Rightarrow> 'k \<Rightarrow> bool) \<Rightarrow> bytes option \<Rightarrow> ('c, 'k) lz_compressor \<Rightarrow> bool" where
  "comp_ok cinv kinv dict (NoDict c) \<longleftrightarrow> dict = None \<and> cinv c"
| "comp_ok cinv kinv dict (DictC k) \<longleftrightarrow> (\<exists>d. dict = Some d \<and> kinv d k)"

lemma lz4_decompress_eq:
  "lz4_decompress lib dec block out = (case lz_decompress_with lib dec block out of
     (out', None) \<Rightarrow> Err (Protocol ''lz4 decompress: {e}'') | (out', Some n) \<Rightarrow> Ok (out', n))"
  by (simp add: lz4_decompress_def lz_decompress_with_def)

lemma decompress_block:
  "block_of lib dec input block \<Longrightarrow> length buf = length input \<Longrightarrow>
   lz4_decompress lib dec block buf = Ok (input, length input)"
  by (simp add: block_of_def lz4_decompress_eq)

lemma lz4rip_compress:
  assumes "lz4rip_laws lib cinv kinv tinv" "cinv c" "lz_max_output lib (length input) \<le> length out"
    "lz_compress lib c input out = (c', out', r)"
  shows "cinv c'" "compresses lib None input out out' r"
proof -
  have "case lz_compress lib c input out of (c', out', r) \<Rightarrow> cinv c' \<and> compresses lib None input out out' r"
    using assms(1-3) unfolding lz4rip_laws_def by (elim conjE allE [of _ c] allE [of _ input] allE [of _ out]) simp
  then show "cinv c'" "compresses lib None input out out' r" using assms(4) by simp_all
qed

lemma lz4rip_dict_compress:
  assumes "lz4rip_laws lib cinv kinv tinv" "kinv d k" "lz_max_output lib (length input) \<le> length out"
    "lz_dict_compress lib k input out = (k', out', r)"
  shows "kinv d k'" "compresses lib (Some (lz_with_dict lib d)) input out out' r"
proof -
  have "\<forall>d k input out. kinv d k \<longrightarrow> lz_max_output lib (length input) \<le> length out \<longrightarrow>
        (case lz_dict_compress lib k input out of
           (k', out', r) \<Rightarrow> kinv d k' \<and> compresses lib (Some (lz_with_dict lib d)) input out out' r)"
    using assms(1) unfolding lz4rip_laws_def by (elim conjE)
  then have "case lz_dict_compress lib k input out of
      (k', out', r) \<Rightarrow> kinv d k' \<and> compresses lib (Some (lz_with_dict lib d)) input out out' r"
    using assms(2,3) by simp
  then show "kinv d k'" "compresses lib (Some (lz_with_dict lib d)) input out out' r" using assms(4) by simp_all
qed

lemma compress_into_ok:
  assumes "lz4rip_laws lib cinv kinv tinv" "comp_ok cinv kinv dict cp"
    "lz_max_output lib (length input) \<le> length out"
  obtains cp' out' n where "lz_compress_into lib cp input out = (cp', out', Some n)"
    "comp_ok cinv kinv dict cp'" "length out' = length out" "n \<le> length out"
    "block_of lib (map_option (lz_with_dict lib) dict) input (take n out')"
proof (cases cp)
  case (NoDict c)
  obtain c' out' r where r: "lz_compress lib c input out = (c', out', r)" by (cases "lz_compress lib c input out")
  have "cinv c'" "compresses lib None input out out' r"
    using lz4rip_compress [OF assms(1) _ assms(3) r] assms(2) NoDict by simp_all
  then show thesis using that NoDict r assms(2) by (auto simp: compresses_def)
next
  case (DictC k)
  obtain d where d: "dict = Some d" "kinv d k" using assms(2) DictC by auto
  obtain k' out' r where r: "lz_dict_compress lib k input out = (k', out', r)" by (cases "lz_dict_compress lib k input out")
  note lz4rip_dict_compress [OF assms(1) d(2) assms(3) r]
  then show thesis using that DictC r d by (auto simp: compresses_def)
qed

lemma compress_at_ok:
  assumes "lz4rip_laws lib cinv kinv tinv" "comp_ok cinv kinv dict (le_compressor e)"
    "pos + lz_max_output lib (length input) \<le> length (le_out_buf e)"
  obtains c' buf' block where
    "lz4_compress_at lib e input pos = (e\<lparr>le_compressor := c', le_out_buf := buf'\<rparr>, Ok (length block))"
    "comp_ok cinv kinv dict c'" "length buf' = length (le_out_buf e)" "take pos buf' = take pos (le_out_buf e)"
    "take (pos + length block) buf' = take pos (le_out_buf e) @ block"
    "block_of lib (map_option (lz_with_dict lib) dict) input block"
proof -
  have room: "lz_max_output lib (length input) \<le> length (drop pos (le_out_buf e))" using assms(3) by simp
  obtain c' out' n where r: "lz_compress_into lib (le_compressor e) input (drop pos (le_out_buf e)) = (c', out', Some n)"
    "comp_ok cinv kinv dict c'" "length out' = length (drop pos (le_out_buf e))" "n \<le> length (drop pos (le_out_buf e))"
    "block_of lib (map_option (lz_with_dict lib) dict) input (take n out')"
    using compress_into_ok [OF assms(1,2) room] by blast
  have pos: "pos \<le> length (le_out_buf e)" using assms(3) by simp
  show thesis
    by (rule that [where c' = c' and buf' = "take pos (le_out_buf e) @ out'" and block = "take n out'"])
      (use r pos in \<open>simp_all add: lz4_compress_at_def min_def\<close>)
qed

section \<open>Blocks\<close>

text \<open>The body of a multi-block part: each block after its 32-bit length.\<close>

definition block_frame :: "bytes \<Rightarrow> bytes" where
  "block_frame b = le_bytes 4 (length b) @ b"

definition block_frames :: "bytes list \<Rightarrow> bytes" where
  "block_frames bs = concat (map block_frame bs)"

lemma block_frames_simps [simp]:
  "block_frames [] = []"
  "block_frames (b # bs) = block_frame b @ block_frames bs"
  by (simp_all add: block_frames_def)

lemma length_block_frame [simp]: "length (block_frame b) = 4 + length b"
  by (simp add: block_frame_def)

lemma chunks_of_Nil [simp]: "chunks_of n [] = []"
  by (subst chunks_of.simps) simp

lemma chunks_of_step: "0 < n \<Longrightarrow> xs \<noteq> [] \<Longrightarrow> chunks_of n xs = take n xs # chunks_of n (drop n xs)"
  by (subst chunks_of.simps) simp

lemma length_chunks_of: "0 < n \<Longrightarrow> length (chunks_of n xs) = (length xs + n - 1) div n"
proof (induction n xs rule: chunks_of.induct)
  case (1 n xs)
  show ?case
  proof (cases "xs = []")
    case False
    then have "length (chunks_of n xs) = Suc ((length xs - n + n - 1) div n)"
      using 1 by (simp add: chunks_of_step)
    also have "\<dots> = (length xs + n - 1) div n"
    proof (cases "length xs < n")
      case True
      have "1 \<le> length xs" using False by (cases xs) auto
      then have "(length xs + n - 1) div n = 1"
        by (intro div_nat_eqI) (use True \<open>0 < n\<close> in simp_all)
      then show ?thesis using True by simp
    qed (use \<open>0 < n\<close> in \<open>simp add: le_div_geq\<close>)
    finally show ?thesis .
  qed (use 1 in simp)
qed

lemma chunks_of_lengths: "0 < n \<Longrightarrow> \<forall>c \<in> set (chunks_of n xs). length c \<le> n"
proof (induction n xs rule: chunks_of.induct)
  case (1 n xs)
  show ?case
  proof (cases "xs = []")
    case False
    then have "\<forall>c \<in> set (chunks_of n (drop n xs)). length c \<le> n" using 1 by simp
    then show ?thesis unfolding chunks_of_step [OF \<open>0 < n\<close> False] by simp
  qed simp
qed

lemma lz4_blocks_ok:
  assumes "lz4rip_laws lib cinv kinv tinv"
    and "comp_ok cinv kinv dict (le_compressor e)"
    and "\<forall>c \<in> set cs. length c \<le> bs"
    and "pos + length cs * (4 + lz_max_output lib bs) \<le> length (le_out_buf e)"
  shows "\<exists>c' buf' blocks.
     lz4_blocks lib e pos cs = (e\<lparr>le_compressor := c', le_out_buf := buf'\<rparr>, Ok (pos + length (block_frames blocks))) \<and>
     comp_ok cinv kinv dict c' \<and> length buf' = length (le_out_buf e) \<and>
     pos + length (block_frames blocks) \<le> length buf' \<and>
     take (pos + length (block_frames blocks)) buf' = take pos (le_out_buf e) @ block_frames blocks \<and>
     list_all2 (block_of lib (map_option (lz_with_dict lib) dict)) cs blocks"
  using assms(2-4)
proof (induction cs arbitrary: e pos)
  case Nil
  then show ?case
    by (intro exI [of _ "le_compressor e"] exI [of _ "le_out_buf e"] exI [of _ "[]"]) simp
next
  case (Cons c cs)
  let ?M = "lz_max_output lib bs" and ?dec = "map_option (lz_with_dict lib) dict"
  have mono: "lz_max_output lib (length c) \<le> ?M"
    using assms(1) Cons.prems(2) by (simp add: lz4rip_laws_def)
  have room: "pos + 4 + lz_max_output lib (length c) \<le> length (le_out_buf e)"
    using Cons.prems(3) mono by simp
  obtain c1 buf1 block where one:
    "lz4_compress_at lib e c (pos + 4) = (e\<lparr>le_compressor := c1, le_out_buf := buf1\<rparr>, Ok (length block))"
    "comp_ok cinv kinv dict c1" "length buf1 = length (le_out_buf e)"
    "take (pos + 4) buf1 = take (pos + 4) (le_out_buf e)"
    "take (pos + 4 + length block) buf1 = take (pos + 4) (le_out_buf e) @ block" "block_of lib ?dec c block"
    by (rule compress_at_ok [OF assms(1) Cons.prems(1) room]) (rule that; assumption)
  have short: "length block \<le> ?M" using one(6) mono by (simp add: block_of_def)
  define buf2 where "buf2 = write_at pos (le_bytes 4 (length block)) buf1"
  define e2 where "e2 = e\<lparr>le_compressor := c1, le_out_buf := buf2\<rparr>"
  have in_buf: "pos + 4 + length block \<le> length buf1" using one(3) room short Cons.prems(3) by simp
  have pre: "take (pos + 4 + length block) buf2 = take pos (le_out_buf e) @ block_frame block"
  proof -
    have "take pos buf1 = take pos (le_out_buf e)" using arg_cong [OF one(4), of "take pos"] by (simp add: min_def)
    moreover have "take (length block) (drop (pos + 4) buf1) = block"
    proof -
      have "take (length block) (drop (pos + 4) buf1) = drop (pos + 4) (take (pos + 4 + length block) buf1)"
        by (simp only: take_drop add.commute)
      also have "\<dots> = block" using in_buf one(3) by (simp only: one(5)) simp
      finally show ?thesis .
    qed
    moreover have "pos \<le> length (le_out_buf e)" using room by simp
    ultimately show ?thesis
      using in_buf by (simp add: buf2_def write_at_def block_frame_def)
  qed
  have len2: "length buf2 = length (le_out_buf e)" using in_buf one(3) by (simp add: buf2_def)
  have "comp_ok cinv kinv dict (le_compressor e2)" "\<forall>c \<in> set cs. length c \<le> bs"
    "pos + 4 + length block + length cs * (4 + ?M) \<le> length (le_out_buf e2)"
    using Cons.prems one(2) short len2 by (simp_all add: e2_def algebra_simps)
  from Cons.IH [OF this] obtain c' buf' blocks where rest:
    "lz4_blocks lib e2 (pos + 4 + length block) cs
       = (e2\<lparr>le_compressor := c', le_out_buf := buf'\<rparr>, Ok (pos + 4 + length block + length (block_frames blocks)))"
    "comp_ok cinv kinv dict c'" "length buf' = length (le_out_buf e2)"
    "pos + 4 + length block + length (block_frames blocks) \<le> length buf'"
    "take (pos + 4 + length block + length (block_frames blocks)) buf'
       = take (pos + 4 + length block) (le_out_buf e2) @ block_frames blocks"
    "list_all2 (block_of lib ?dec) cs blocks"
    by (elim exE conjE) (rule that; assumption)
  have run: "lz4_blocks lib e pos (c # cs)
      = (e\<lparr>le_compressor := c', le_out_buf := buf'\<rparr>, Ok (pos + length (block_frames (block # blocks))))"
    using rest(1) by (simp add: one(1) buf2_def [symmetric] e2_def add.assoc)
  have out: "take (pos + length (block_frames (block # blocks))) buf' = take pos (le_out_buf e) @ block_frames (block # blocks)"
    using rest(5) pre by (simp add: e2_def add.assoc)
  show ?case
    using run out rest(2,3,4,6) one(6) len2
    by (intro exI [of _ c'] exI [of _ buf'] exI [of _ "block # blocks"]) (simp add: e2_def add.assoc)
qed

lemma lz4m_loop_ok:
  assumes "lz4rip_laws lib cinv kinv tinv" "0 < bs" "bs \<le> i32_max"
    and "list_all2 (block_of lib dec) (chunks_of bs rest) blocks"
    and "length out = sz" "dst \<le> sz" "length rest = sz - dst" "body = pre @ block_frames blocks"
  shows "lz4m_loop lib body dec bs sz out (length pre) dst = Ok (take dst out @ rest, length body)"
  using assms(4-8)
proof (induction blocks arbitrary: rest out dst pre rule: list.induct)
  case Nil
  then have "rest = []" using assms(2) by (cases "rest = []") (auto simp: chunks_of_step)
  then show ?case using Nil.prems by (subst lz4m_loop.simps) simp
next
  case (Cons b blocks)
  have ne: "rest \<noteq> []" using Cons.prems(1) by auto
  let ?c = "take bs rest"
  have blk: "block_of lib dec ?c b" "list_all2 (block_of lib dec) (chunks_of bs (drop bs rest)) blocks"
    using Cons.prems(1) by (simp_all add: chunks_of_step [OF assms(2) ne])
  have len_c: "length ?c = min (sz - dst) bs" using Cons.prems(4) by simp
  have lt: "dst < sz" using ne Cons.prems(4) by (cases "dst < sz") auto
  have "length b \<le> lz_max_output lib (length ?c)" using blk(1) by (simp add: block_of_def)
  also have "\<dots> < 2 ^ 32" using assms(1,3) len_c by (simp add: lz4rip_laws_def)
  finally have len_b: "le_val (le_bytes 4 (length b)) = length b" by simp
  have body: "body = (pre @ block_frame b) @ block_frames blocks" using Cons.prems(5) by simp
  have hdr: "le_val (take 4 (drop (length pre) body)) = length b"
    using len_b by (simp add: body block_frame_def)
  have data: "take (length b) (drop (length pre + 4) body) = b"
    by (simp add: body block_frame_def)
  have dec: "lz4_decompress lib dec b (take (min (sz - dst) bs) (drop dst out)) = Ok (?c, length ?c)"
    by (rule decompress_block [OF blk(1)]) (use len_c Cons.prems(2) in simp)
  have "lz4m_loop lib body dec bs sz out (length pre) dst
      = lz4m_loop lib body dec bs sz (write_at dst ?c out) (length (pre @ block_frame b)) (dst + length ?c)"
    using lt hdr data dec len_c by (subst lz4m_loop.simps) (simp add: body Let_def add.assoc)
  also have "\<dots> = Ok (take (dst + length ?c) (write_at dst ?c out) @ drop bs rest, length body)"
  proof (rule Cons.IH [OF blk(2) _ _ _ body])
    have "dst + length ?c \<le> length out" using len_c lt Cons.prems(2) by linarith
    then show "length (write_at dst ?c out) = sz" using Cons.prems(2) by simp
  qed (use len_c lt Cons.prems(4) in \<open>auto simp: min_def\<close>)
  also have "take (dst + length ?c) (write_at dst ?c out) = take dst out @ ?c"
    by (rule take_write_at) (use Cons.prems in simp)
  finally show ?case by simp
qed

section \<open>One part\<close>

text \<open>
  What a part encodes to is decoded, by a decoder that has the encoder's dictionary
  and block size and the budget for the part, to the part's bytes.
\<close>

definition part_decodes :: "('c, 'k, 'd, 't) lz4rip \<Rightarrow> 'd option \<Rightarrow> nat \<Rightarrow> bytes \<Rightarrow> payload \<Rightarrow> bool" where
  "part_decodes lib dec bs plain w \<longleftrightarrow>
     (\<forall>multi idx d budget out ps. ld_decompressor d = dec \<longrightarrow> ld_block_size d = bs \<longrightarrow> covers budget (length plain) \<longrightarrow>
        lz4_decode_parts lib multi idx d budget out (w # ps) =
        lz4_decode_parts lib multi (idx + 1) d (spend budget (length plain)) (push_part_payload out (payload_from_bytes plain)) ps)"

lemmas sentinel_defs = SENTINEL_PLAIN_def SENTINEL_LZ4B_def SENTINEL_LZ4M_def SENTINEL_LZ4D_def

lemma length_sentinels [simp]:
  "length SENTINEL_PLAIN = 4" "length SENTINEL_LZ4B = 4" "length SENTINEL_LZ4M = 4" "length SENTINEL_LZ4D = 4"
  by (simp_all add: sentinel_defs)

lemma sentinels_distinct [simp]:
  "SENTINEL_LZ4B \<noteq> SENTINEL_PLAIN" "SENTINEL_LZ4M \<noteq> SENTINEL_PLAIN" "SENTINEL_LZ4D \<noteq> SENTINEL_PLAIN"
  "SENTINEL_LZ4M \<noteq> SENTINEL_LZ4B" "SENTINEL_LZ4D \<noteq> SENTINEL_LZ4B" "SENTINEL_LZ4D \<noteq> SENTINEL_LZ4M"
  by (simp_all add: sentinel_defs wire_eval)

lemma part_decodes_plain: "part_decodes lib dec bs plain (plaintext_payload plain)"
  by (simp add: part_decodes_def view_simps take_budget_Ok [THEN iffD2] Let_def)

lemma part_decodes_lz4b:
  assumes "block_of lib dec plain block" "length plain \<le> bs" "length plain \<le> isize_max"
  shows "part_decodes lib dec bs plain
    (payload_from_bytes (SENTINEL_LZ4B @ le_bytes 8 (length plain) @ block))"
proof -
  have "le_val (le_bytes 8 (length plain)) = length plain"
    using assms(3) by (simp add: isize_max_def)
  then have "decode_lz4b lib (le_bytes 8 (length plain) @ block) dec budget bs = Ok (payload_from_bytes plain, spend budget (length plain))"
    if "covers budget (length plain)" for budget
    using assms that take_budget_Ok [of budget "length plain" "spend budget (length plain)"]
    by (simp add: decode_lz4b_def decode_len_def decompress_block [OF assms(1)] usize_max_def isize_max_def)
  then show ?thesis by (simp add: part_decodes_def view_simps Let_def)
qed

lemma block_frames_expand:
  assumes "list_all2 (block_of lib dec) cs blocks"
  shows "length (concat cs) \<le> LZ4_MAX_EXPANSION * length (block_frames blocks)"
  using assms by induction (auto simp: block_of_def algebra_simps)

lemma concat_chunks_of: "0 < n \<Longrightarrow> concat (chunks_of n xs) = xs"
proof (induction n xs rule: chunks_of.induct)
  case (1 n xs)
  show ?case
  proof (cases "xs = []")
    case False
    then have "concat (chunks_of n (drop n xs)) = drop n xs" using 1 by simp
    then show ?thesis unfolding chunks_of_step [OF \<open>0 < n\<close> False] by simp
  qed simp
qed

lemma part_decodes_lz4m:
  assumes "lz4rip_laws lib cinv kinv tinv" "0 < bs" "bs \<le> i32_max"
    and "list_all2 (block_of lib dec) (chunks_of bs plain) blocks" "length plain \<le> isize_max"
  shows "part_decodes lib dec bs plain
    (payload_from_bytes (SENTINEL_LZ4M @ le_bytes 8 (length plain) @ block_frames blocks))"
proof -
  let ?body = "le_bytes 8 (length plain) @ block_frames blocks"
  have len: "le_val (le_bytes 8 (length plain)) = length plain"
    using assms(5) by (simp add: isize_max_def)
  have bomb: "\<not> sat_mul (length (block_frames blocks)) LZ4_MAX_EXPANSION < length plain"
    using block_frames_expand [OF assms(4)] assms(5) concat_chunks_of [OF assms(2), of plain]
    by (auto simp: sat_mul_def usize_max_def isize_max_def mult.commute)
  have loop: "lz4m_loop lib ?body dec bs (length plain) (replicate (length plain) 0) 8 0 = Ok (plain, length ?body)"
    using lz4m_loop_ok [OF assms(1-4), of "replicate (length plain) 0" "length plain" 0 ?body "le_bytes 8 (length plain)"]
    by simp
  have "decode_lz4m lib ?body dec budget bs = Ok (payload_from_bytes plain, spend budget (length plain))"
    if "covers budget (length plain)" for budget
    using assms(5) that take_budget_Ok [of budget "length plain" "spend budget (length plain)"] len bomb loop
    by (simp add: decode_lz4m_def decode_len_def usize_max_def isize_max_def)
  then show ?thesis by (simp add: part_decodes_def view_simps Let_def)
qed

lemma lz4_encode_part_multiblock_ok:
  assumes "lz4rip_laws lib cinv kinv tinv" "comp_ok cinv kinv (le_send_dict e) (le_compressor e)"
    and "0 < le_block_size e" "le_block_size e \<le> i32_max" "length plain \<le> isize_max"
  shows "\<exists>c' buf' w. lz4_encode_part_multiblock lib e plain = (e\<lparr>le_compressor := c', le_out_buf := buf'\<rparr>, Ok w) \<and>
    comp_ok cinv kinv (le_send_dict e) c' \<and>
    part_decodes lib (map_option (lz_with_dict lib) (le_send_dict e)) (le_block_size e) plain w"
proof -
  let ?bs = "le_block_size e" and ?cs = "chunks_of (le_block_size e) plain"
  let ?max = "ENVELOPE_LZ4B + (length plain + ?bs - 1) div ?bs * (4 + lz_max_output lib ?bs)"
  define buf where "buf = write_at 4 (le_bytes 8 (length plain)) (write_at 0 SENTINEL_LZ4M (grow_to ?max (le_out_buf e)))"
  define e1 where "e1 = e\<lparr>le_out_buf := buf\<rparr>"
  have room: "12 \<le> length (grow_to ?max (le_out_buf e))" by (simp add: ENVELOPE_LZ4B_def)
  have len: "length buf = max ?max (length (le_out_buf e))" using room by (simp add: buf_def)
  have pre: "take 12 buf = SENTINEL_LZ4M @ le_bytes 8 (length plain)"
    using room by (simp add: buf_def write_at_def)
  have prems: "comp_ok cinv kinv (le_send_dict e) (le_compressor e1)" "\<forall>c \<in> set ?cs. length c \<le> ?bs"
    "12 + length ?cs * (4 + lz_max_output lib ?bs) \<le> length (le_out_buf e1)"
    using assms(2,3) len chunks_of_lengths [OF assms(3)]
    by (simp_all add: e1_def length_chunks_of ENVELOPE_LZ4B_def)
  from lz4_blocks_ok [OF assms(1) prems] obtain c' buf' blocks where run:
    "lz4_blocks lib e1 12 ?cs = (e1\<lparr>le_compressor := c', le_out_buf := buf'\<rparr>, Ok (12 + length (block_frames blocks)))"
    "comp_ok cinv kinv (le_send_dict e) c'" "12 + length (block_frames blocks) \<le> length buf'"
    "take (12 + length (block_frames blocks)) buf' = take 12 (le_out_buf e1) @ block_frames blocks"
    "list_all2 (block_of lib (map_option (lz_with_dict lib) (le_send_dict e))) ?cs blocks"
    by (elim exE conjE) (rule that; assumption)
  let ?w = "payload_from_bytes (SENTINEL_LZ4M @ le_bytes 8 (length plain) @ block_frames blocks)"
  have "lz4_encode_part_multiblock lib e plain = (e\<lparr>le_compressor := c', le_out_buf := buf'\<rparr>, Ok ?w)"
  proof -
    have "take (12 + length (block_frames blocks)) buf' = SENTINEL_LZ4M @ le_bytes 8 (length plain) @ block_frames blocks"
      using run(4) pre by (simp add: e1_def)
    then show ?thesis
      using run(1) [unfolded e1_def buf_def] run(3) assms(3)
      by (simp add: lz4_encode_part_multiblock_def Let_def ENVELOPE_LZ4B_def lz4_copy_out_def)
  qed
  moreover have "part_decodes lib (map_option (lz_with_dict lib) (le_send_dict e)) ?bs plain ?w"
    by (rule part_decodes_lz4m [OF assms(1,3,4) run(5) assms(5)])
  ultimately show ?thesis using run(2) by blast
qed

lemma lz4_encode_part_ok:
  assumes "lz4rip_laws lib cinv kinv tinv" "comp_ok cinv kinv (le_send_dict e) (le_compressor e)"
    and "0 < le_block_size e" "le_block_size e \<le> i32_max" "length (payload_as_slice p) \<le> isize_max"
  shows "\<exists>c' buf' w. lz4_encode_part lib e p = (e\<lparr>le_compressor := c', le_out_buf := buf'\<rparr>, Ok w) \<and>
    comp_ok cinv kinv (le_send_dict e) c' \<and>
    part_decodes lib (map_option (lz_with_dict lib) (le_send_dict e)) (le_block_size e) (payload_as_slice p) w"
proof -
  let ?plain = "payload_as_slice p" and ?dec = "map_option (lz_with_dict lib) (le_send_dict e)"
  consider "length ?plain < lz4_effective_threshold e"
    | "lz4_effective_threshold e \<le> length ?plain" "le_block_size e < length ?plain"
    | "lz4_effective_threshold e \<le> length ?plain" "length ?plain \<le> le_block_size e" by linarith
  then show ?thesis
  proof cases
    case 1
    then show ?thesis using assms(2) part_decodes_plain
      by (intro exI [of _ "le_compressor e"] exI [of _ "le_out_buf e"] exI [of _ "plaintext_payload ?plain"])
        (simp add: lz4_encode_part_def view_simps)
  next
    case 2
    then have "lz4_encode_part lib e p = lz4_encode_part_multiblock lib e ?plain"
      by (simp add: lz4_encode_part_def view_simps Let_def)
    then show ?thesis using lz4_encode_part_multiblock_ok [OF assms] by simp
  next
    case 3
    define buf where "buf = grow_to (ENVELOPE_LZ4B + lz_max_output lib (length ?plain)) (le_out_buf e)"
    define e1 where "e1 = e\<lparr>le_out_buf := buf\<rparr>"
    have prems: "comp_ok cinv kinv (le_send_dict e) (le_compressor e1)"
      "12 + lz_max_output lib (length ?plain) \<le> length (le_out_buf e1)"
      using assms(2) by (simp_all add: e1_def buf_def ENVELOPE_LZ4B_def)
    obtain c' buf' block where run:
      "lz4_compress_at lib e1 ?plain 12 = (e1\<lparr>le_compressor := c', le_out_buf := buf'\<rparr>, Ok (length block))"
      "comp_ok cinv kinv (le_send_dict e) c'" "length buf' = length (le_out_buf e1)"
      "take (12 + length block) buf' = take 12 (le_out_buf e1) @ block" "block_of lib ?dec ?plain block"
      by (rule compress_at_ok [OF assms(1) prems]) (rule that; assumption)
    define buf2 where "buf2 = write_at 4 (le_bytes 8 (length ?plain)) (write_at 0 SENTINEL_LZ4B buf')"
    show ?thesis
    proof (cases "length block + ENVELOPE_LZ4B \<ge> length ?plain + ENVELOPE_PLAIN")
      case True
      then have "lz4_encode_part lib e p = (e\<lparr>le_compressor := c', le_out_buf := buf'\<rparr>, Ok (plaintext_payload ?plain))"
        using 3 run(1) [unfolded e1_def buf_def] by (simp add: lz4_encode_part_def Let_def view_simps ENVELOPE_LZ4B_def)
      then show ?thesis using run(2) part_decodes_plain by blast
    next
      case False
      have fit: "12 + length block \<le> length buf'"
        using run(3,5) prems(2) by (simp add: block_of_def)
      have "drop 12 (take (12 + length block) buf') = block" unfolding run(4) using prems(2) by simp
      then have blk: "take (length block) (drop 12 buf') = block" by (simp add: drop_take)
      have "take (12 + length block) buf2 = SENTINEL_LZ4B @ le_bytes 8 (length ?plain) @ block" "length buf2 = length buf'"
        using fit blk by (simp_all add: buf2_def write_at_def)
      then have "lz4_encode_part lib e p = (e\<lparr>le_compressor := c', le_out_buf := buf2\<rparr>,
          Ok (payload_from_bytes (SENTINEL_LZ4B @ le_bytes 8 (length ?plain) @ block)))"
        using 3 run(1) [unfolded e1_def buf_def] False fit
        by (simp add: lz4_encode_part_def Let_def view_simps buf2_def [symmetric] ENVELOPE_LZ4B_def lz4_copy_out_def)
      moreover have "part_decodes lib ?dec (le_block_size e) ?plain
          (payload_from_bytes (SENTINEL_LZ4B @ le_bytes 8 (length ?plain) @ block))"
        by (rule part_decodes_lz4b [OF run(5) 3(2) assms(5)])
      ultimately show ?thesis using run(2) by blast
    qed
  qed
qed

section \<open>Whole messages\<close>

lemma lz4_encode_parts_ok:
  assumes "lz4rip_laws lib cinv kinv tinv" "comp_ok cinv kinv (le_send_dict e) (le_compressor e)"
    and "0 < le_block_size e" "le_block_size e \<le> i32_max" "\<forall>p \<in> set ps. length (payload_as_slice p) \<le> isize_max"
    and "wire = Empty \<or> (\<exists>p. wire = Single p) \<or> (\<exists>v. wire = Multi v)"
  shows "\<exists>c' buf' wire' ws. lz4_encode_parts lib e ps wire = (e\<lparr>le_compressor := c', le_out_buf := buf'\<rparr>, Ok wire') \<and>
    comp_ok cinv kinv (le_send_dict e) c' \<and> parts_payload wire' = parts_payload wire @ ws \<and>
    list_all2 (part_decodes lib (map_option (lz_with_dict lib) (le_send_dict e)) (le_block_size e)) (map payload_as_slice ps) ws"
  using assms(2-)
proof (induction ps arbitrary: e wire)
  case Nil
  then show ?case
    by (intro exI [of _ "le_compressor e"] exI [of _ "le_out_buf e"] exI [of _ wire] exI [of _ "[]"]) simp
next
  case (Cons p ps)
  let ?dec = "map_option (lz_with_dict lib) (le_send_dict e)"
  have "length (payload_as_slice p) \<le> isize_max" using Cons.prems(4) by simp
  from lz4_encode_part_ok [OF assms(1) Cons.prems(1-3) this] obtain c1 buf1 w where one:
    "lz4_encode_part lib e p = (e\<lparr>le_compressor := c1, le_out_buf := buf1\<rparr>, Ok w)"
    "comp_ok cinv kinv (le_send_dict e) c1" "part_decodes lib ?dec (le_block_size e) (payload_as_slice p) w"
    by (elim exE conjE) (rule that; assumption)
  let ?e = "e\<lparr>le_compressor := c1, le_out_buf := buf1\<rparr>" and ?wire = "push_part_payload wire w"
  have push: "parts_payload ?wire = parts_payload wire @ [w]" "(\<exists>q. ?wire = Single q) \<or> (\<exists>v. ?wire = Multi v)"
    using parts_payload_push [OF Cons.prems(5)] by blast+
  have prems: "comp_ok cinv kinv (le_send_dict ?e) (le_compressor ?e)" "0 < le_block_size ?e" "le_block_size ?e \<le> i32_max"
    "\<forall>p \<in> set ps. length (payload_as_slice p) \<le> isize_max"
    "?wire = Empty \<or> (\<exists>p. ?wire = Single p) \<or> (\<exists>v. ?wire = Multi v)"
    using one(2) Cons.prems push(2) by auto
  from Cons.IH [OF prems] obtain c' buf' wire' ws where rest:
    "lz4_encode_parts lib ?e ps ?wire = (?e\<lparr>le_compressor := c', le_out_buf := buf'\<rparr>, Ok wire')"
    "comp_ok cinv kinv (le_send_dict ?e) c'" "parts_payload wire' = parts_payload ?wire @ ws"
    "list_all2 (part_decodes lib (map_option (lz_with_dict lib) (le_send_dict ?e)) (le_block_size ?e)) (map payload_as_slice ps) ws"
    by (elim exE conjE) (rule that; assumption)
  show ?case
    by (rule exI [of _ c'], rule exI [of _ buf'], rule exI [of _ wire'], rule exI [of _ "w # ws"])
      (use one rest push(1) in simp)
qed

lemma lz4_decode_parts_ok:
  assumes "list_all2 (part_decodes lib (ld_decompressor d) (ld_block_size d)) plains ws"
    and "covers budget (sum_list (map length plains))"
  shows "lz4_decode_parts lib multi idx d budget out ws = (d, Ok (Some (push_all out plains)))"
  using assms
proof (induction plains ws arbitrary: budget out idx rule: list_all2_induct)
  case Nil
  then show ?case by (simp add: push_all_def)
next
  case (Cons plain plains w ws)
  have c: "covers budget (length plain)" "covers (spend budget (length plain)) (sum_list (map length plains))"
    using Cons.prems covers_add [of budget "length plain"] by (simp_all add: covers_spend)
  have "lz4_decode_parts lib multi idx d budget out (w # ws) =
      lz4_decode_parts lib multi (idx + 1) d (spend budget (length plain)) (push_part_payload out (payload_from_bytes plain)) ws"
    using Cons.hyps(1) c(1) by (simp only: part_decodes_def simp_thms)
  then show ?case using Cons.IH [OF c(2)] by (simp only: push_all_def foldl_Cons)
qed

section \<open>Encoder and decoder in step\<close>

text \<open>
  An encoder and the decoder at the other end are in step when the decoder has the
  dictionary exactly if it was shipped, a dictionary that is still to be shipped
  or trained will be accepted, and both use the same block size.
\<close>

definition lz4_in_step :: "('c, 'k, 'd, 't) lz4rip \<Rightarrow> ('c \<Rightarrow> bool) \<Rightarrow> (bytes \<Rightarrow> 'k \<Rightarrow> bool) \<Rightarrow> (nat \<Rightarrow> 't \<Rightarrow> bool) \<Rightarrow>
    ('c, 'k, 't) lz4_encoder \<Rightarrow> 'd lz4_decoder \<Rightarrow> bool" where
  "lz4_in_step lib cinv kinv tinv e d \<longleftrightarrow>
     comp_ok cinv kinv (le_send_dict e) (le_compressor e) \<and>
     0 < le_block_size e \<and> le_block_size e \<le> i32_max \<and> ld_block_size d = le_block_size e \<and>
     ld_decompressor d = (if le_send_dict_shipped e then map_option (lz_with_dict lib) (le_send_dict e) else None) \<and>
     (\<forall>dict. le_send_dict e = Some dict \<longrightarrow> \<not> le_send_dict_shipped e \<longrightarrow>
        dict \<noteq> [] \<and> length dict \<le> ld_max_recv_dict_size d) \<and>
     (\<forall>t. le_trainer e = Some t \<longrightarrow> tinv (le_dict_capacity e) t \<and> le_dict_capacity e \<le> ld_max_recv_dict_size d \<and>
        le_send_dict e = None \<and> \<not> le_send_dict_shipped e)"

definition lz4_fits :: "'d lz4_decoder \<Rightarrow> message \<Rightarrow> bool" where
  "lz4_fits d m \<longleftrightarrow> (\<forall>p \<in> set (parts m). length p \<le> isize_max) \<and>
     covers (ld_max_message_size d) (sum_list (map length (parts m)))"

lemma tinv_samples:
  assumes "lz4rip_laws lib cinv kinv tinv" "tinv cap t"
  shows "tinv cap (foldl (\<lambda>t p. lz_add_sample lib t (payload_as_bytes p)) t ps)"
  using assms(2)
proof (induction ps arbitrary: t)
  case (Cons p ps)
  then have "tinv cap (lz_add_sample lib t (payload_as_bytes p))" using assms(1) by (simp add: lz4rip_laws_def)
  then show ?case using Cons.IH by simp
qed simp

lemma lz4_train_step_in_step:
  assumes "lz4rip_laws lib cinv kinv tinv" "lz4_in_step lib cinv kinv tinv e d"
  shows "lz4_in_step lib cinv kinv tinv (lz4_train_step lib e m) d"
proof (cases "le_trainer e")
  case (Some t)
  let ?t = "foldl (\<lambda>t p. lz_add_sample lib t (payload_as_bytes p)) t (parts_payload m)"
  have t: "tinv (le_dict_capacity e) ?t" "le_dict_capacity e \<le> ld_max_recv_dict_size d"
    "le_send_dict e = None" "\<not> le_send_dict_shipped e"
    using assms Some tinv_samples [OF assms(1)] by (simp_all add: lz4_in_step_def)
  have len: "length (lz_train lib ?t) \<le> ld_max_recv_dict_size d"
    using assms(1) t(1,2) unfolding lz4rip_laws_def by (metis le_trans)
  have "kinv dict (lz_dict_new lib dict)" for dict using assms(1) by (simp add: lz4rip_laws_def)
  then show ?thesis
    using assms(2) t len Some by (auto simp: lz4_train_step_def lz4_in_step_def Let_def)
qed (use assms in \<open>simp add: lz4_train_step_def\<close>)

lemma lz4_ship_dict_ok:
  assumes "lz4_in_step lib cinv kinv tinv e d" "lz4_ship_dict e = (e', out)"
  shows "\<exists>d'. decode_each (lz4_decode lib) d out = (d', Ok []) \<and> lz4_in_step lib cinv kinv tinv e' d' \<and>
    ld_decompressor d' = map_option (lz_with_dict lib) (le_send_dict e') \<and>
    ld_max_message_size d' = ld_max_message_size d"
proof (cases "le_send_dict e \<noteq> None \<and> \<not> le_send_dict_shipped e")
  case True
  then obtain dict where dict: "le_send_dict e = Some dict" "\<not> le_send_dict_shipped e" by auto
  have step: "ld_decompressor d = None" "dict \<noteq> []" "length dict \<le> ld_max_recv_dict_size d"
    using assms(1) dict by (auto simp: lz4_in_step_def)
  have out: "e' = e\<lparr>le_send_dict_shipped := True\<rparr>" "out = [build_dict_shipment SENTINEL_LZ4D dict]"
    using assms(2) dict by (auto simp: lz4_ship_dict_def)
  obtain p where "into_parts_payload (build_dict_shipment SENTINEL_LZ4D dict) = [p]" "payload_as_slice p = SENTINEL_LZ4D @ dict"
    using parts_payload_view [of "build_dict_shipment SENTINEL_LZ4D dict"]
    by (auto simp: parts_build_dict_shipment into_parts_payload_eq)
  then have "lz4_decode lib d (build_dict_shipment SENTINEL_LZ4D dict)
      = (d\<lparr>ld_decompressor := Some (lz_with_dict lib dict)\<rparr>, Ok None)"
    using step by (simp add: lz4_decode_def Let_def view_simps validate_dict_def)
  then show ?thesis using assms(1) dict by (simp add: out lz4_in_step_def)
next
  case False
  then show ?thesis using assms by (cases "le_send_dict e") (auto simp: lz4_ship_dict_def lz4_in_step_def)
qed

lemma lz4_deliver:
  assumes "lz4rip_laws lib cinv kinv tinv" "lz4_in_step lib cinv kinv tinv e d" "lz4_fits d m"
  shows "\<exists>e' out d' m'. lz4_encode lib e m = (e', Ok out) \<and> decode_each (lz4_decode lib) d out = (d', Ok [m']) \<and>
    parts m' = parts m \<and> lz4_in_step lib cinv kinv tinv e' d' \<and> lz4_fits d' = lz4_fits d"
proof -
  define e1 where "e1 = lz4_train_step lib e m"
  have s1: "lz4_in_step lib cinv kinv tinv e1 d" unfolding e1_def by (rule lz4_train_step_in_step [OF assms(1,2)])
  obtain e2 out where ship: "lz4_ship_dict e1 = (e2, out)" by (cases "lz4_ship_dict e1")
  from lz4_ship_dict_ok [OF s1 ship] obtain d2 where d2: "decode_each (lz4_decode lib) d out = (d2, Ok [])"
    "lz4_in_step lib cinv kinv tinv e2 d2" "ld_decompressor d2 = map_option (lz_with_dict lib) (le_send_dict e2)"
    "ld_max_message_size d2 = ld_max_message_size d" by blast
  have prems: "comp_ok cinv kinv (le_send_dict e2) (le_compressor e2)" "0 < le_block_size e2" "le_block_size e2 \<le> i32_max"
    "\<forall>p \<in> set (parts_payload m). length (payload_as_slice p) \<le> isize_max"
    using d2(2) assms(3) by (auto simp: lz4_in_step_def lz4_fits_def parts_payload_view [symmetric])
  from lz4_encode_parts_ok [OF assms(1) prems, of message_new] obtain c' buf' wire ws where enc:
    "lz4_encode_parts lib e2 (parts_payload m) message_new = (e2\<lparr>le_compressor := c', le_out_buf := buf'\<rparr>, Ok wire)"
    "comp_ok cinv kinv (le_send_dict e2) c'" "parts_payload wire = parts_payload message_new @ ws"
    "list_all2 (part_decodes lib (map_option (lz_with_dict lib) (le_send_dict e2)) (le_block_size e2))
       (map payload_as_slice (parts_payload m)) ws"
    by (auto simp: message_new_def)
  let ?e = "e2\<lparr>le_compressor := c', le_out_buf := buf'\<rparr>"
  have ws: "into_parts_payload wire = ws" using enc(3) by (simp add: view_simps message_new_def)
  have bs: "ld_block_size d2 = le_block_size e2" using d2(2) by (simp add: lz4_in_step_def)
  have "lz4_decode lib d2 wire = (d2, Ok (Some (push_all message_new (parts m))))"
    unfolding lz4_decode_def Let_def ws
    by (rule lz4_decode_parts_ok) (use enc(4) d2(3,4) bs assms(3) in \<open>simp_all add: view_simps lz4_fits_def\<close>)
  then have "decode_each (lz4_decode lib) d (out @ [wire]) = (d2, Ok [push_all message_new (parts m)])"
    by (simp add: decode_each_append d2(1))
  moreover have "lz4_encode lib e m = (?e, Ok (out @ [wire]))"
    using ship enc(1) by (simp add: lz4_encode_def e1_def Let_def)
  moreover have "lz4_in_step lib cinv kinv tinv ?e d2" using d2(2) enc(2) by (simp add: lz4_in_step_def)
  moreover have "parts (push_all message_new (parts m)) = parts m" by (simp add: parts_push_all message_new_def)
  moreover have "lz4_fits d2 = lz4_fits d" by (simp add: fun_eq_iff lz4_fits_def d2(4))
  ultimately show ?thesis by blast
qed

section \<open>Arbitrary input\<close>

text \<open>
  Whatever the peer sends, what the decoder returns was paid for from the budget,
  and only an acceptable dictionary shipment changes its state.
\<close>

lemma lz4_decompress_length:
  assumes "lz4rip_safe lib" "lz4_decompress lib dec block out = Ok (out', n)"
  shows "length out' = length out"
proof -
  have "case lz_decompress_with lib dec block out of
     (out', r) \<Rightarrow> length out' = length out \<and> (case r of None \<Rightarrow> True | Some n \<Rightarrow> n \<le> length out)"
    using assms(1) by (simp add: lz4rip_safe_def)
  then show ?thesis using assms(2) by (auto simp: lz4_decompress_eq split: prod.splits option.splits)
qed

lemma lz4m_loop_length:
  assumes "lz4rip_safe lib" "lz4m_loop lib body dec bs sz out src dst = Ok (out', pos)" "length out = sz"
  shows "length out' = sz"
  using assms
proof (induction lib body dec bs sz out src dst rule: lz4m_loop.induct)
  case (1 lib body dec bs sz out src dst)
  show ?case
  proof (cases "dst < sz")
    case False
    then show ?thesis using "1.prems" by (subst (asm) lz4m_loop.simps) simp
  next
    case True
    define clen where "clen = le_val (take 4 (drop src body))"
    define bd where "bd = min (sz - dst) bs"
    obtain sl where sl: "\<not> length body < src + 4" "\<not> length body < src + 4 + clen"
      "lz4_decompress lib dec (take clen (drop (src + 4) body)) (take bd (drop dst out)) = Ok (sl, bd)"
      "lz4m_loop lib body dec bs sz (write_at dst sl out) (src + 4 + clen) (dst + bd) = Ok (out', pos)"
      using "1.prems"(2) True unfolding lz4m_loop.simps [of lib body dec bs sz out src dst]
      by (auto simp: Let_def clen_def [symmetric] bd_def [symmetric] rbind_Ok_iff split: if_splits)
    have "length sl = bd" "dst + bd \<le> length out"
      using lz4_decompress_length [OF "1.prems"(1) sl(3)] "1.prems"(3) True by (simp_all add: bd_def)
    then have len: "length (write_at dst sl out) = sz" using "1.prems"(3) by simp
    show ?thesis
      by (rule "1.IH" [OF True sl(1) clen_def refl sl(2) refl refl bd_def _ "1.prems"(1) sl(4) len]) simp
  qed
qed

lemma decode_lz4b_budget:
  assumes "lz4rip_safe lib" "decode_lz4b lib body dec budget bs = Ok (w, budget')"
  shows "covers budget (length (payload_as_slice w)) \<and> budget' = spend budget (length (payload_as_slice w))"
  using assms lz4_decompress_length [OF assms(1)]
  by (fastforce simp: decode_lz4b_def rbind_Ok_iff take_budget_Ok view_simps split: if_splits)

lemma decode_lz4m_budget:
  assumes "lz4rip_safe lib" "decode_lz4m lib body dec budget bs = Ok (w, budget')"
  shows "covers budget (length (payload_as_slice w)) \<and> budget' = spend budget (length (payload_as_slice w))"
proof -
  obtain sz out pos where r: "covers budget sz" "budget' = spend budget sz" "w = payload_from_bytes out"
    "lz4m_loop lib body dec bs sz (replicate sz 0) 8 0 = Ok (out, pos)"
    using assms(2) by (auto simp: decode_lz4m_def rbind_Ok_iff take_budget_Ok split: if_splits)
  have "length out = sz" by (rule lz4m_loop_length [OF assms(1) r(4)]) simp
  then show ?thesis using r by (simp add: view_simps)
qed

lemma lz4_decode_parts_budget:
  assumes "lz4rip_safe lib" "lz4_decode_parts lib multi idx d budget out ps = (d', Ok (Some m))"
  shows "d' = d \<and> (\<exists>plains. parts m = parts out @ plains \<and> length plains = length ps \<and>
    covers budget (sum_list (map length plains)))"
  using assms(2)
proof (induction ps arbitrary: idx budget out)
  case Nil
  then show ?case by (cases budget) (auto simp: covers_def)
next
  case (Cons p ps)
  have step: ?case if "lz4_decode_parts lib multi (idx + 1) d budget' (push_part_payload out w) ps = (d', Ok (Some m))"
    "covers budget (length (payload_as_slice w))" "budget' = spend budget (length (payload_as_slice w))" for w budget'
  proof -
    from Cons.IH [OF that(1)] obtain plains where "d' = d" "parts m = parts out @ payload_as_slice w # plains"
      "length plains = length ps" "covers budget' (sum_list (map length plains))"
      by (auto simp: parts_push_part_payload)
    then show ?thesis using that(2,3)
      by (intro conjI exI [of _ "payload_as_slice w # plains"]) (simp_all add: covers_spend)
  qed
  let ?b = "payload_as_bytes p"
  have long: "\<not> length ?b < 4" using Cons.prems by (auto simp: Let_def)
  consider "take 4 ?b = SENTINEL_PLAIN" | "take 4 ?b = SENTINEL_LZ4B" | "take 4 ?b = SENTINEL_LZ4M"
    using Cons.prems by (auto simp: Let_def split: if_splits sum.splits)
  then show ?case
  proof cases
    case 1
    then have "covers budget (length ?b - 4)" "lz4_decode_parts lib multi (idx + 1) d (spend budget (length ?b - 4))
        (push_part_payload out (payload_from_bytes (drop 4 ?b))) ps = (d', Ok (Some m))"
      using Cons.prems long by (auto simp: Let_def take_budget_Ok split: sum.splits)
    then show ?thesis using step [of "spend budget (length ?b - 4)" "payload_from_bytes (drop 4 ?b)"]
      by (simp add: view_simps)
  next
    case 2
    then obtain w budget' where w: "decode_lz4b lib (drop 4 ?b) (ld_decompressor d) budget (ld_block_size d) = Ok (w, budget')"
      "lz4_decode_parts lib multi (idx + 1) d budget' (push_part_payload out w) ps = (d', Ok (Some m))"
      using Cons.prems long by (auto simp: Let_def split: sum.splits)
    show ?thesis using step [OF w(2)] decode_lz4b_budget [OF assms(1) w(1)] by blast
  next
    case 3
    then obtain w budget' where w: "decode_lz4m lib (drop 4 ?b) (ld_decompressor d) budget (ld_block_size d) = Ok (w, budget')"
      "lz4_decode_parts lib multi (idx + 1) d budget' (push_part_payload out w) ps = (d', Ok (Some m))"
      using Cons.prems long by (auto simp: Let_def split: sum.splits)
    show ?thesis using step [OF w(2)] decode_lz4m_budget [OF assms(1) w(1)] by blast
  qed
qed

lemma lz4_decode_parts_consumed:
  assumes "lz4_decode_parts lib multi idx d budget out ps = (d', Ok None)"
  shows "ld_decompressor d = None \<and> (\<exists>dict. dict \<noteq> [] \<and> length dict \<le> ld_max_recv_dict_size d \<and>
    d' = d\<lparr>ld_decompressor := Some (lz_with_dict lib dict)\<rparr>)"
  using assms
proof (induction ps arbitrary: idx budget out)
  case (Cons p ps)
  let ?b = "payload_as_bytes p"
  note run = Cons.prems [unfolded lz4_decode_parts.simps Let_def]
  consider "take 4 ?b = SENTINEL_PLAIN" | "take 4 ?b = SENTINEL_LZ4B" | "take 4 ?b = SENTINEL_LZ4M"
    | "take 4 ?b = SENTINEL_LZ4D" using run by (auto split: if_splits)
  then show ?case
  proof cases
    case 1
    with run show ?thesis using Cons.IH by (simp split: if_splits sum.splits)
  next
    case 2
    with run show ?thesis using Cons.IH by (simp split: if_splits sum.splits prod.splits)
  next
    case 3
    with run show ?thesis using Cons.IH by (simp split: if_splits sum.splits prod.splits)
  next
    case 4
    have "ld_decompressor d = None" "drop 4 ?b \<noteq> []" "length (drop 4 ?b) \<le> ld_max_recv_dict_size d"
      "d' = d\<lparr>ld_decompressor := Some (lz_with_dict lib (drop 4 ?b))\<rparr>"
      using run validate_dict_Ok [of "drop 4 ?b" "ld_max_recv_dict_size d"]
      by (auto simp: 4 split: if_splits sum.splits)
    then show ?thesis by blast
  qed
qed simp

end
