(* ===== verification/Zstd.thy ===== *)
theory Zstd
  imports Transform_Common
begin

text \<open>
  The Zstandard message transform, \<^verbatim>\<open>omq-proto/src/proto/transform/zstd.rs\<close>.  Compressed
  parts are raw Zstandard frames with their content size, a dictionary is shipped
  as a message of its own.  The \<^verbatim>\<open>zrip\<close> crate is the record \<open>zrip\<close>; \<open>zrip_laws\<close> states
  what its documentation promises.  The random dictionary number is an argument.
\<close>

section \<open>The crate\<close>

text \<open>
  Errors are \<open>None\<close>.  \<open>zr_frame_content_size\<close> is \<^verbatim>\<open>parse_frame_header\<close> and its optional field
  \<^verbatim>\<open>frame_content_size\<close>.
\<close>

record ('x, 'y, 'z) zrip =
  zr_from_bytes :: "bytes \<Rightarrow> 'x option"
  zr_compress_new :: "int \<Rightarrow> 'y option"
  zr_compress_with_dict :: "int \<Rightarrow> 'x \<Rightarrow> 'y option"
  zr_compress :: "'y \<Rightarrow> bytes \<Rightarrow> 'y \<times> bytes option"
  zr_decompress_new :: 'z
  zr_decompress_with_dict :: "'x \<Rightarrow> 'z"
  zr_decompress_with_limit :: "'z \<Rightarrow> bytes \<Rightarrow> nat \<Rightarrow> 'z \<times> bytes option"
  zr_frame_content_size :: "bytes \<Rightarrow> nat option option"
  zr_select_segments :: "bytes list \<Rightarrow> nat \<Rightarrow> bytes"
  zr_finalize_dictionary :: "bytes \<Rightarrow> bytes list \<Rightarrow> nat \<Rightarrow> bytes"

section \<open>Constants and training\<close>

definition ZSTD_MAGIC :: bytes where "ZSTD_MAGIC = [0x28, 0xB5, 0x2F, 0xFD]"
definition ZDICT_MAGIC :: bytes where "ZDICT_MAGIC = [0x37, 0xA4, 0x30, 0xEC]"
definition ZSTD_MIN_COMPRESS_NO_DICT :: nat where "ZSTD_MIN_COMPRESS_NO_DICT = 512"
definition ZSTD_MIN_COMPRESS_WITH_DICT :: nat where "ZSTD_MIN_COMPRESS_WITH_DICT = 64"
definition MAX_DECOMPRESSED_SIZE :: nat where "MAX_DECOMPRESSED_SIZE = 0x40000000 - 1"
definition TRAIN_MAX_SAMPLES :: nat where "TRAIN_MAX_SAMPLES = 1000"
definition TRAIN_MAX_BYTES :: nat where "TRAIN_MAX_BYTES = 100 * 1024"
definition TRAIN_MAX_SAMPLE_LEN :: nat where "TRAIN_MAX_SAMPLE_LEN = 2048"
definition USER_DICT_ID_MIN :: nat where "USER_DICT_ID_MIN = 32768"
definition USER_DICT_ID_MAX :: nat where "USER_DICT_ID_MAX = 0x7FFFFFFF"
definition ZSTD_MAX_DICT_BYTES :: nat where "ZSTD_MAX_DICT_BYTES = 8 * 1024"
definition ZSTD_DEFAULT_LEVEL :: int where "ZSTD_DEFAULT_LEVEL = 1"
definition ZSTD_DEFAULT_DICT_CAPACITY :: nat where "ZSTD_DEFAULT_DICT_CAPACITY = 2048"

definition patch_user_dict_id :: "u32 \<Rightarrow> bytes \<Rightarrow> bytes option" where
  "patch_user_dict_id rnd dict =
     (if length dict < 8 \<or> take 4 dict \<noteq> ZDICT_MAGIC then None
      else let span = USER_DICT_ID_MAX - USER_DICT_ID_MIN + 1;
               id = USER_DICT_ID_MIN + unat rnd mod span
           in Some (write_at 4 (le_bytes 4 id) dict))"

definition train_zdict :: "('x, 'y, 'z) zrip \<Rightarrow> u32 \<Rightarrow> bytes list \<Rightarrow> nat \<Rightarrow> bytes option" where
  "train_zdict lib rnd samples cap =
     (if samples = [] \<or> cap = 0 then None
      else let capacity = min cap ZSTD_MAX_DICT_BYTES;
               content = zr_select_segments lib samples capacity;
               dict = zr_finalize_dictionary lib content samples capacity
           in case patch_user_dict_id rnd dict of
                None \<Rightarrow> None
              | Some dict \<Rightarrow> (case zr_from_bytes lib dict of None \<Rightarrow> None | Some _ \<Rightarrow> Some dict))"

definition zstd_is_dict_shipment :: "message \<Rightarrow> bool" where
  "zstd_is_dict_shipment msg =
     (msg_len msg = 1 \<and> (case part_bytes msg 0 of None \<Rightarrow> False | Some part \<Rightarrow> prefix ZDICT_MAGIC part))"

section \<open>The encoder\<close>

record train_state =
  tr_samples :: "bytes list"
  tr_total_bytes :: nat

record 'y zstd_encoder =
  ze_send_dict :: "bytes option"
  ze_send_dict_shipped :: bool
  ze_max_message_size :: "nat option"
  ze_level :: int
  ze_cctx :: "'y option"
  ze_train :: "train_state option"
  ze_threshold_override :: "nat option"
  ze_dict_capacity :: nat

definition zstd_encoder_new :: "'y zstd_encoder" where
  "zstd_encoder_new =
     \<lparr>ze_send_dict = None, ze_send_dict_shipped = False, ze_max_message_size = None,
      ze_level = ZSTD_DEFAULT_LEVEL, ze_cctx = None, ze_train = None, ze_threshold_override = None,
      ze_dict_capacity = ZSTD_DEFAULT_DICT_CAPACITY\<rparr>"

definition zstd_with_auto_train :: "'y zstd_encoder \<Rightarrow> 'y zstd_encoder" where
  "zstd_with_auto_train e =
     (if ze_send_dict e = None then e\<lparr>ze_train := Some \<lparr>tr_samples = [], tr_total_bytes = 0\<rparr>\<rparr> else e)"

definition zstd_with_threshold :: "'y zstd_encoder \<Rightarrow> nat \<Rightarrow> 'y zstd_encoder" where
  "zstd_with_threshold e t = e\<lparr>ze_threshold_override := Some t\<rparr>"

definition zstd_with_dict_capacity :: "'y zstd_encoder \<Rightarrow> nat \<Rightarrow> 'y zstd_encoder" where
  "zstd_with_dict_capacity e cap = e\<lparr>ze_dict_capacity := min cap ZSTD_MAX_DICT_BYTES\<rparr>"

definition zstd_with_send_dict :: "('x, 'y, 'z) zrip \<Rightarrow> bytes \<Rightarrow> 'y zstd_encoder result" where
  "zstd_with_send_dict lib dict =
     rbind (validate_dict dict ZSTD_MAX_DICT_BYTES) (\<lambda>_.
     if length dict < 4 \<or> take 4 dict \<noteq> ZDICT_MAGIC
     then Err (Protocol ''Zstd dictionary must start with ZDICT magic'')
     else case zr_from_bytes lib dict of
       None \<Rightarrow> Err (Protocol ''invalid zstd dictionary: {e}'')
     | Some _ \<Rightarrow> Ok (zstd_encoder_new\<lparr>ze_send_dict := Some dict, ze_train := None\<rparr>))"

definition zstd_with_level :: "'y zstd_encoder \<Rightarrow> int \<Rightarrow> 'y zstd_encoder" where
  "zstd_with_level e level = e\<lparr>ze_level := level, ze_cctx := None\<rparr>"

definition zstd_with_max_message_size :: "'y zstd_encoder \<Rightarrow> nat option \<Rightarrow> 'y zstd_encoder" where
  "zstd_with_max_message_size e m = e\<lparr>ze_max_message_size := m\<rparr>"

definition zstd_effective_threshold :: "'y zstd_encoder \<Rightarrow> nat" where
  "zstd_effective_threshold e = (case ze_threshold_override e of
     Some t \<Rightarrow> t
   | None \<Rightarrow> if ze_send_dict e \<noteq> None then ZSTD_MIN_COMPRESS_WITH_DICT else ZSTD_MIN_COMPRESS_NO_DICT)"

definition zstd_passthrough_threshold :: "'y zstd_encoder \<Rightarrow> nat option" where
  "zstd_passthrough_threshold e =
     (if ze_threshold_override e \<noteq> None then Some (zstd_effective_threshold e)
      else if ze_train e \<noteq> None then None
      else if ze_send_dict e = None then Some ZSTD_MIN_COMPRESS_NO_DICT
      else None)"

definition zstd_can_offload :: "'y zstd_encoder \<Rightarrow> bool" where
  "zstd_can_offload e = (ze_train e = None \<and> (ze_send_dict e = None \<or> ze_send_dict_shipped e))"

definition zstd_new_offload :: "'y zstd_encoder \<Rightarrow> 'y zstd_encoder" where
  "zstd_new_offload e =
     \<lparr>ze_send_dict = ze_send_dict e, ze_send_dict_shipped = True, ze_max_message_size = ze_max_message_size e,
      ze_level = ze_level e, ze_cctx = None, ze_train = None, ze_threshold_override = ze_threshold_override e,
      ze_dict_capacity = ze_dict_capacity e\<rparr>"

text \<open>\<^verbatim>\<open>sync_dict\<close> compares the addresses of two dictionaries; \<open>same_ptr\<close> is the outcome.\<close>

definition zstd_sync_dict :: "bool \<Rightarrow> 'y zstd_encoder \<Rightarrow> 'y zstd_encoder \<Rightarrow> 'y zstd_encoder" where
  "zstd_sync_dict same_ptr e primary =
     (let same = (case (ze_send_dict e, ze_send_dict primary) of
          (None, None) \<Rightarrow> True
        | (Some a, Some b) \<Rightarrow> same_ptr \<and> length a = length b
        | _ \<Rightarrow> False)
      in if \<not> same then e\<lparr>ze_send_dict := ze_send_dict primary, ze_cctx := None\<rparr> else e)"

definition maybe_train :: "('x, 'y, 'z) zrip \<Rightarrow> u32 \<Rightarrow> 'y zstd_encoder \<Rightarrow> bytes \<Rightarrow> 'y zstd_encoder" where
  "maybe_train lib rnd e plain = (case ze_train e of
     None \<Rightarrow> e
   | Some st \<Rightarrow>
       if TRAIN_MAX_SAMPLE_LEN \<le> length plain then e
       else let st = \<lparr>tr_samples = tr_samples st @ [plain], tr_total_bytes = tr_total_bytes st + length plain\<rparr>
       in if length (tr_samples st) < TRAIN_MAX_SAMPLES \<and> tr_total_bytes st < TRAIN_MAX_BYTES
          then e\<lparr>ze_train := Some st\<rparr>
          else let e = e\<lparr>ze_train := None\<rparr>
               in case train_zdict lib rnd (tr_samples st) (ze_dict_capacity e) of
                    None \<Rightarrow> e
                  | Some dict \<Rightarrow> e\<lparr>ze_send_dict := Some dict, ze_send_dict_shipped := False, ze_cctx := None\<rparr>)"

definition ensure_cctx :: "('x, 'y, 'z) zrip \<Rightarrow> 'y zstd_encoder \<Rightarrow> 'y result" where
  "ensure_cctx lib e = (case ze_cctx e of
     Some y \<Rightarrow> Ok y
   | None \<Rightarrow> (case ze_send_dict e of
       Some raw \<Rightarrow> (case zr_from_bytes lib raw of
           None \<Rightarrow> Err (Protocol ''zstd: {e}'')
         | Some x \<Rightarrow> (case zr_compress_with_dict lib (ze_level e) x of
             None \<Rightarrow> Err (Protocol ''zstd: {e}'') | Some y \<Rightarrow> Ok y))
     | None \<Rightarrow> (case zr_compress_new lib (ze_level e) of
           None \<Rightarrow> Err (Protocol ''zstd: {e}'') | Some y \<Rightarrow> Ok y)))"

definition zstd_encode_part :: "('x, 'y, 'z) zrip \<Rightarrow> 'y zstd_encoder \<Rightarrow> payload \<Rightarrow> 'y zstd_encoder \<times> payload result" where
  "zstd_encode_part lib e part =
     (let plain = payload_as_bytes part
      in if length plain < zstd_effective_threshold e then (e, Ok (plaintext_payload plain))
      else case ensure_cctx lib e of
        Inl err \<Rightarrow> (e, Err err)
      | Inr y \<Rightarrow> (case zr_compress lib y plain of (y, r) \<Rightarrow>
          let e = e\<lparr>ze_cctx := Some y\<rparr>
          in case r of
               None \<Rightarrow> (e, Err (Protocol ''zstd: {e}''))
             | Some compressed \<Rightarrow>
                 if length plain - ENVELOPE_PLAIN \<le> length compressed then (e, Ok (plaintext_payload plain))
                 else (e, Ok (payload_from_bytes compressed))))"

fun zstd_encode_parts :: "('x, 'y, 'z) zrip \<Rightarrow> 'y zstd_encoder \<Rightarrow> payload list \<Rightarrow> message \<Rightarrow> 'y zstd_encoder \<times> message result" where
  "zstd_encode_parts lib e [] wire = (e, Ok wire)"
| "zstd_encode_parts lib e (p # ps) wire =
     (case zstd_encode_part lib e p of
        (e, Inl err) \<Rightarrow> (e, Err err)
      | (e, Inr w) \<Rightarrow> zstd_encode_parts lib e ps (push_part_payload wire w))"

definition zstd_ship_dict :: "'y zstd_encoder \<Rightarrow> 'y zstd_encoder \<times> message list" where
  "zstd_ship_dict e = (case ze_send_dict e of
     Some dict \<Rightarrow> if \<not> ze_send_dict_shipped e
       then (e\<lparr>ze_send_dict_shipped := True\<rparr>, [single dict])
       else (e, [])
   | None \<Rightarrow> (e, []))"

definition zstd_encode :: "('x, 'y, 'z) zrip \<Rightarrow> u32 \<Rightarrow> 'y zstd_encoder \<Rightarrow> message \<Rightarrow> 'y zstd_encoder \<times> message list result" where
  "zstd_encode lib rnd e msg =
     (let e = foldl (\<lambda>e p. maybe_train lib rnd e (payload_as_bytes p)) e (parts_payload msg)
      in case zstd_ship_dict e of (e, out) \<Rightarrow>
         (case zstd_encode_parts lib e (parts_payload msg) message_new of
            (e, Inl err) \<Rightarrow> (e, Err err)
          | (e, Inr wire) \<Rightarrow> (e, Ok (out @ [wire]))))"

section \<open>The decoder\<close>

record 'z zstd_decoder =
  zd_recv_dict :: "bytes option"
  zd_max_message_size :: "nat option"
  zd_max_recv_dict_size :: nat
  zd_dctx :: 'z

definition zstd_decoder_new :: "('x, 'y, 'z) zrip \<Rightarrow> 'z zstd_decoder" where
  "zstd_decoder_new lib = \<lparr>zd_recv_dict = None, zd_max_message_size = None,
     zd_max_recv_dict_size = ZSTD_MAX_DICT_BYTES, zd_dctx = zr_decompress_new lib\<rparr>"

definition zstd_decoder_with_max_message_size :: "'z zstd_decoder \<Rightarrow> nat option \<Rightarrow> 'z zstd_decoder" where
  "zstd_decoder_with_max_message_size d m = d\<lparr>zd_max_message_size := m\<rparr>"

definition zstd_with_max_recv_dict_size :: "'z zstd_decoder \<Rightarrow> nat \<Rightarrow> 'z zstd_decoder" where
  "zstd_with_max_recv_dict_size d m = d\<lparr>zd_max_recv_dict_size := min m ZSTD_MAX_DICT_BYTES\<rparr>"

definition decode_zstd :: "('x, 'y, 'z) zrip \<Rightarrow> 'z zstd_decoder \<Rightarrow> bytes \<Rightarrow> nat option \<Rightarrow>
    'z zstd_decoder \<times> (payload \<times> nat option) result" where
  "decode_zstd lib d bytes budget = (case zr_frame_content_size lib bytes of
     None \<Rightarrow> (d, Err (Protocol ''zstd: {e}''))
   | Some None \<Rightarrow> (d, Err (Protocol ''zstd frame missing required Frame_Content_Size''))
   | Some (Some declared) \<Rightarrow>
       if usize_max < declared then (d, Err (Protocol ''zstd declared size exceeds usize''))
       else if MAX_DECOMPRESSED_SIZE < declared
       then (d, Err (Protocol ''zstd declared size exceeds absolute limit''))
       else case take_budget budget declared of
         Inl e \<Rightarrow> (d, Err e)
       | Inr budget \<Rightarrow> (case zr_decompress_with_limit lib (zd_dctx d) bytes declared of (z, r) \<Rightarrow>
           let d = d\<lparr>zd_dctx := z\<rparr>
           in case r of
                None \<Rightarrow> (d, Err (Protocol ''zstd: {e}''))
              | Some out \<Rightarrow>
                  if length out \<noteq> declared
                  then (d, Err (Protocol ''zstd decompressed length disagrees with declared''))
                  else (d, Ok (payload_from_bytes out, budget))))"

fun zstd_decode_parts :: "('x, 'y, 'z) zrip \<Rightarrow> bool \<Rightarrow> nat \<Rightarrow> 'z zstd_decoder \<Rightarrow> nat option \<Rightarrow> message \<Rightarrow> payload list \<Rightarrow>
    'z zstd_decoder \<times> message option result" where
  "zstd_decode_parts lib multi idx d budget out [] = (d, Ok (Some out))"
| "zstd_decode_parts lib multi idx d budget out (p # ps) =
     (let bytes = payload_as_bytes p; sentinel = take 4 bytes
      in if length bytes < 4 then (d, Err (Protocol ''zstd part shorter than 4-byte sentinel''))
      else if sentinel = SENTINEL_PLAIN then
        (case take_budget budget (length bytes - 4) of
           Inl e \<Rightarrow> (d, Err e)
         | Inr budget \<Rightarrow>
             zstd_decode_parts lib multi (idx + 1) d budget (push_part_payload out (payload_from_bytes (drop 4 bytes))) ps)
      else if sentinel = ZSTD_MAGIC then
        (case decode_zstd lib d bytes budget of
           (d, Inl e) \<Rightarrow> (d, Err e)
         | (d, Inr (w, budget)) \<Rightarrow> zstd_decode_parts lib multi (idx + 1) d budget (push_part_payload out w) ps)
      else if sentinel = ZDICT_MAGIC then
        (if multi \<or> idx \<noteq> 0 then (d, Err (Protocol ''zstd dict shipment must be a single-part message''))
         else if zd_recv_dict d \<noteq> None then (d, Err (Protocol ''zstd dict shipped twice on the same connection''))
         else case validate_dict bytes (zd_max_recv_dict_size d) of
             Inl e \<Rightarrow> (d, Err e)
           | Inr _ \<Rightarrow> (case zr_from_bytes lib bytes of
               None \<Rightarrow> (d, Err (Protocol ''zstd: {e}''))
             | Some x \<Rightarrow> (d\<lparr>zd_dctx := zr_decompress_with_dict lib x, zd_recv_dict := Some bytes\<rparr>, Ok None)))
      else (d, Err (Protocol ''unknown zstd sentinel'')))"

definition zstd_decode :: "('x, 'y, 'z) zrip \<Rightarrow> 'z zstd_decoder \<Rightarrow> message \<Rightarrow> 'z zstd_decoder \<times> message option result" where
  "zstd_decode lib d msg =
     (let ps = into_parts_payload msg
      in zstd_decode_parts lib (length ps > 1) 0 d (zd_max_message_size d) message_new ps)"

section \<open>What the crate promises\<close>

text \<open>
  \<open>zframe\<close>: a frame carries the magic number and the size of its content and is
  decompressed to the input by every context with the same dictionary.  \<open>yinv\<close> and
  \<open>zinv\<close> stand for the states that compression and decompression contexts with a
  dictionary reach.
\<close>

definition zframe :: "('x, 'y, 'z) zrip \<Rightarrow> (bytes option \<Rightarrow> 'z \<Rightarrow> bool) \<Rightarrow> bytes option \<Rightarrow> bytes \<Rightarrow> bytes \<Rightarrow> bool" where
  "zframe lib zinv dict input bs \<longleftrightarrow>
     4 \<le> length bs \<and> take 4 bs = ZSTD_MAGIC \<and> zr_frame_content_size lib bs = Some (Some (length input)) \<and>
     (\<forall>z. zinv dict z \<longrightarrow> (case zr_decompress_with_limit lib z bs (length input) of
        (z', r) \<Rightarrow> zinv dict z' \<and> r = Some input))"

definition zrip_laws :: "('x, 'y, 'z) zrip \<Rightarrow> (int \<Rightarrow> bool) \<Rightarrow> (bytes option \<Rightarrow> 'y \<Rightarrow> bool) \<Rightarrow> (bytes option \<Rightarrow> 'z \<Rightarrow> bool) \<Rightarrow> bool" where
  "zrip_laws lib level_ok yinv zinv \<longleftrightarrow>
     (\<forall>l. level_ok l \<longrightarrow> (case zr_compress_new lib l of None \<Rightarrow> False | Some y \<Rightarrow> yinv None y)) \<and>
     (\<forall>l raw x. level_ok l \<longrightarrow> zr_from_bytes lib raw = Some x \<longrightarrow>
        (case zr_compress_with_dict lib l x of None \<Rightarrow> False | Some y \<Rightarrow> yinv (Some raw) y)) \<and>
     zinv None (zr_decompress_new lib) \<and>
     (\<forall>raw x. zr_from_bytes lib raw = Some x \<longrightarrow> zinv (Some raw) (zr_decompress_with_dict lib x)) \<and>
     (\<forall>dict y input. yinv dict y \<longrightarrow> (case zr_compress lib y input of (y', r) \<Rightarrow> yinv dict y' \<and>
        (case r of None \<Rightarrow> False | Some bs \<Rightarrow> zframe lib zinv dict input bs))) \<and>
     (\<forall>content samples cap. length (zr_finalize_dictionary lib content samples cap) \<le> cap)"

lemma zrip_compress:
  assumes "zrip_laws lib level_ok yinv zinv" "yinv dict y"
  obtains y' bs where "zr_compress lib y input = (y', Some bs)" "yinv dict y'" "zframe lib zinv dict input bs"
proof -
  have "\<forall>dict y input. yinv dict y \<longrightarrow> (case zr_compress lib y input of (y', r) \<Rightarrow> yinv dict y' \<and>
        (case r of None \<Rightarrow> False | Some bs \<Rightarrow> zframe lib zinv dict input bs))"
    using assms(1) unfolding zrip_laws_def by (elim conjE)
  then have "case zr_compress lib y input of (y', r) \<Rightarrow> yinv dict y' \<and>
        (case r of None \<Rightarrow> False | Some bs \<Rightarrow> zframe lib zinv dict input bs)" using assms(2) by simp
  then show thesis by (cases "zr_compress lib y input") (auto split: option.splits intro: that)
qed

definition cctx_ok :: "('x, 'y, 'z) zrip \<Rightarrow> (int \<Rightarrow> bool) \<Rightarrow> (bytes option \<Rightarrow> 'y \<Rightarrow> bool) \<Rightarrow> 'y zstd_encoder \<Rightarrow> bool" where
  "cctx_ok lib level_ok yinv e \<longleftrightarrow> level_ok (ze_level e) \<and> (\<forall>y. ze_cctx e = Some y \<longrightarrow> yinv (ze_send_dict e) y) \<and>
     (\<forall>raw. ze_send_dict e = Some raw \<longrightarrow> zr_from_bytes lib raw \<noteq> None)"

lemma ensure_cctx_ok:
  assumes "zrip_laws lib level_ok yinv zinv" "cctx_ok lib level_ok yinv e"
  obtains y where "ensure_cctx lib e = Ok y" "yinv (ze_send_dict e) y"
proof (cases "ze_cctx e")
  case (Some y)
  then show thesis using assms(2) that by (simp add: ensure_cctx_def cctx_ok_def)
next
  case None
  have l: "level_ok (ze_level e)" using assms(2) by (simp add: cctx_ok_def)
  have new: "\<exists>y. zr_compress_new lib (ze_level e) = Some y \<and> yinv None y"
    using assms(1) l unfolding zrip_laws_def by (auto split: option.splits)
  have dict: "\<exists>y. zr_compress_with_dict lib (ze_level e) x = Some y \<and> yinv (Some raw) y"
    if "zr_from_bytes lib raw = Some x" for raw x
  proof -
    have "\<forall>l raw x. level_ok l \<longrightarrow> zr_from_bytes lib raw = Some x \<longrightarrow>
        (case zr_compress_with_dict lib l x of None \<Rightarrow> False | Some y \<Rightarrow> yinv (Some raw) y)"
      using assms(1) unfolding zrip_laws_def by (elim conjE)
    then have "case zr_compress_with_dict lib (ze_level e) x of None \<Rightarrow> False | Some y \<Rightarrow> yinv (Some raw) y"
      using l that by blast
    then show ?thesis by (auto split: option.splits)
  qed
  show thesis
  proof (cases "ze_send_dict e")
    case None
    then show thesis using new that \<open>ze_cctx e = None\<close> by (auto simp: ensure_cctx_def)
  next
    case (Some raw)
    then obtain x where x: "zr_from_bytes lib raw = Some x" using assms(2) by (auto simp: cctx_ok_def)
    show thesis using dict [OF x] that Some x \<open>ze_cctx e = None\<close> by (auto simp: ensure_cctx_def)
  qed
qed

section \<open>One part\<close>

definition zpart_decodes :: "('x, 'y, 'z) zrip \<Rightarrow> (bytes option \<Rightarrow> 'z \<Rightarrow> bool) \<Rightarrow> bytes option \<Rightarrow> bytes \<Rightarrow> payload \<Rightarrow> bool" where
  "zpart_decodes lib zinv dict plain w \<longleftrightarrow>
     (\<forall>multi idx d budget out ps. zinv dict (zd_dctx d) \<longrightarrow> covers budget (length plain) \<longrightarrow>
        (\<exists>z. zinv dict z \<and> zstd_decode_parts lib multi idx d budget out (w # ps) =
          zstd_decode_parts lib multi (idx + 1) (d\<lparr>zd_dctx := z\<rparr>) (spend budget (length plain))
            (push_part_payload out (payload_from_bytes plain)) ps))"

lemma magic_lengths [simp]: "length ZSTD_MAGIC = 4" "length ZDICT_MAGIC = 4" "length SENTINEL_PLAIN = 4"
  by (simp_all add: ZSTD_MAGIC_def ZDICT_MAGIC_def SENTINEL_PLAIN_def)

lemma magic_distinct [simp]: "ZSTD_MAGIC \<noteq> SENTINEL_PLAIN" "ZDICT_MAGIC \<noteq> SENTINEL_PLAIN" "ZDICT_MAGIC \<noteq> ZSTD_MAGIC"
  by (simp_all add: ZSTD_MAGIC_def ZDICT_MAGIC_def SENTINEL_PLAIN_def)

lemma zpart_decodes_plain: "zpart_decodes lib zinv dict plain (plaintext_payload plain)"
  unfolding zpart_decodes_def
proof (intro allI impI)
  fix multi idx and d :: "'c zstd_decoder" and budget out ps
  assume "zinv dict (zd_dctx d)" "covers budget (length plain)"
  then show "\<exists>z. zinv dict z \<and> zstd_decode_parts lib multi idx d budget out (plaintext_payload plain # ps) =
      zstd_decode_parts lib multi (idx + 1) (d\<lparr>zd_dctx := z\<rparr>) (spend budget (length plain))
        (push_part_payload out (payload_from_bytes plain)) ps"
    by (intro exI [of _ "zd_dctx d"]) (simp add: view_simps take_budget_Ok [THEN iffD2] Let_def)
qed

lemma decode_zstd_frame:
  assumes "zframe lib zinv dict plain bs" "zinv dict (zd_dctx d)" "covers budget (length plain)"
    and "length plain \<le> MAX_DECOMPRESSED_SIZE"
  obtains z where "zinv dict z"
    "decode_zstd lib d bs budget = (d\<lparr>zd_dctx := z\<rparr>, Ok (payload_from_bytes plain, spend budget (length plain)))"
proof -
  obtain z where z: "zr_decompress_with_limit lib (zd_dctx d) bs (length plain) = (z, Some plain)" "zinv dict z"
    using assms(1,2) by (cases "zr_decompress_with_limit lib (zd_dctx d) bs (length plain)") (auto simp: zframe_def)
  have "take_budget budget (length plain) = Ok (spend budget (length plain))" using assms(3) by (simp add: take_budget_Ok)
  then have "decode_zstd lib d bs budget = (d\<lparr>zd_dctx := z\<rparr>, Ok (payload_from_bytes plain, spend budget (length plain)))"
    using assms(1,4) z(1) by (simp add: decode_zstd_def zframe_def MAX_DECOMPRESSED_SIZE_def usize_max_def)
  then show thesis using that z(2) by blast
qed

lemma zpart_decodes_frame:
  assumes "zframe lib zinv dict plain bs" "length plain \<le> MAX_DECOMPRESSED_SIZE"
  shows "zpart_decodes lib zinv dict plain (payload_from_bytes bs)"
  unfolding zpart_decodes_def
proof (intro allI impI)
  fix multi idx and d :: "'c zstd_decoder" and budget out ps
  assume "zinv dict (zd_dctx d)" "covers budget (length plain)"
  from decode_zstd_frame [OF assms(1) this assms(2)] obtain z where z: "zinv dict z"
    "decode_zstd lib d bs budget = (d\<lparr>zd_dctx := z\<rparr>, Ok (payload_from_bytes plain, spend budget (length plain)))" .
  then show "\<exists>z. zinv dict z \<and> zstd_decode_parts lib multi idx d budget out (payload_from_bytes bs # ps) =
      zstd_decode_parts lib multi (idx + 1) (d\<lparr>zd_dctx := z\<rparr>) (spend budget (length plain))
        (push_part_payload out (payload_from_bytes plain)) ps"
    using assms(1) by (intro exI [of _ z]) (simp add: view_simps Let_def zframe_def)
qed

lemma zstd_encode_part_ok:
  assumes "zrip_laws lib level_ok yinv zinv" "cctx_ok lib level_ok yinv e"
    and "length (payload_as_slice p) \<le> MAX_DECOMPRESSED_SIZE"
  shows "\<exists>y w. zstd_encode_part lib e p = (e\<lparr>ze_cctx := y\<rparr>, Ok w) \<and> cctx_ok lib level_ok yinv (e\<lparr>ze_cctx := y\<rparr>) \<and>
    zpart_decodes lib zinv (ze_send_dict e) (payload_as_slice p) w"
proof (cases "length (payload_as_slice p) < zstd_effective_threshold e")
  case True
  then show ?thesis using assms(2) zpart_decodes_plain
    by (intro exI [of _ "ze_cctx e"] exI [of _ "plaintext_payload (payload_as_slice p)"])
      (simp add: zstd_encode_part_def view_simps)
next
  case False
  obtain y where y: "ensure_cctx lib e = Ok y" "yinv (ze_send_dict e) y" by (rule ensure_cctx_ok [OF assms(1,2)])
  obtain y' bs where c: "zr_compress lib y (payload_as_slice p) = (y', Some bs)" "yinv (ze_send_dict e) y'"
    "zframe lib zinv (ze_send_dict e) (payload_as_slice p) bs" by (rule zrip_compress [OF assms(1) y(2)])
  have ok: "cctx_ok lib level_ok yinv (e\<lparr>ze_cctx := Some y'\<rparr>)" using assms(2) c(2) by (simp add: cctx_ok_def)
  show ?thesis
  proof (cases "length (payload_as_slice p) - ENVELOPE_PLAIN \<le> length bs")
    case True
    then have "zstd_encode_part lib e p = (e\<lparr>ze_cctx := Some y'\<rparr>, Ok (plaintext_payload (payload_as_slice p)))"
      using False y(1) c(1) by (simp add: zstd_encode_part_def view_simps Let_def)
    then show ?thesis using ok zpart_decodes_plain by blast
  next
    case False
    then have "zstd_encode_part lib e p = (e\<lparr>ze_cctx := Some y'\<rparr>, Ok (payload_from_bytes bs))"
      using \<open>\<not> length (payload_as_slice p) < zstd_effective_threshold e\<close> y(1) c(1)
      by (simp add: zstd_encode_part_def view_simps Let_def)
    then show ?thesis using ok zpart_decodes_frame [OF c(3) assms(3)] by blast
  qed
qed

text \<open>
  The encoder has no size limit: a part of a gibibyte or more that it compresses is
  refused by the decoder, while one that it does not compress is accepted.
\<close>

lemma zstd_oversize_refused:
  assumes "zrip_laws lib level_ok yinv zinv" "cctx_ok lib level_ok yinv e"
    and "MAX_DECOMPRESSED_SIZE < length (payload_as_slice p)" "length (payload_as_slice p) \<le> usize_max"
    and "zstd_encode_part lib e p = (e', Ok w)" "payload_as_slice w \<noteq> SENTINEL_PLAIN @ payload_as_slice p"
  shows "zstd_decode_parts lib multi idx d budget out (w # ps)
    = (d, Err (Protocol ''zstd declared size exceeds absolute limit''))"
proof -
  obtain y where y: "ensure_cctx lib e = Ok y" "yinv (ze_send_dict e) y" by (rule ensure_cctx_ok [OF assms(1,2)])
  obtain y' bs where c: "zr_compress lib y (payload_as_slice p) = (y', Some bs)"
    "zframe lib zinv (ze_send_dict e) (payload_as_slice p) bs" by (rule zrip_compress [OF assms(1) y(2)])
  have "w = payload_from_bytes bs"
    using assms(5,6) y(1) c(1) by (auto simp: zstd_encode_part_def view_simps Let_def split: if_splits)
  then show ?thesis using c(2) assms(3,4) by (simp add: view_simps Let_def zframe_def decode_zstd_def)
qed

section \<open>Whole messages\<close>

lemma zstd_encode_parts_ok:
  assumes "zrip_laws lib level_ok yinv zinv" "cctx_ok lib level_ok yinv e"
    and "\<forall>p \<in> set ps. length (payload_as_slice p) \<le> MAX_DECOMPRESSED_SIZE"
    and "wire = Empty \<or> (\<exists>p. wire = Single p) \<or> (\<exists>v. wire = Multi v)"
  shows "\<exists>y wire' ws. zstd_encode_parts lib e ps wire = (e\<lparr>ze_cctx := y\<rparr>, Ok wire') \<and>
    cctx_ok lib level_ok yinv (e\<lparr>ze_cctx := y\<rparr>) \<and> parts_payload wire' = parts_payload wire @ ws \<and>
    list_all2 (zpart_decodes lib zinv (ze_send_dict e)) (map payload_as_slice ps) ws"
  using assms(2-)
proof (induction ps arbitrary: e wire)
  case Nil
  then show ?case by (intro exI [of _ "ze_cctx e"] exI [of _ wire] exI [of _ "[]"]) simp
next
  case (Cons p ps)
  have "length (payload_as_slice p) \<le> MAX_DECOMPRESSED_SIZE" using Cons.prems(2) by simp
  from zstd_encode_part_ok [OF assms(1) Cons.prems(1) this] obtain y1 w where one:
    "zstd_encode_part lib e p = (e\<lparr>ze_cctx := y1\<rparr>, Ok w)" "cctx_ok lib level_ok yinv (e\<lparr>ze_cctx := y1\<rparr>)"
    "zpart_decodes lib zinv (ze_send_dict e) (payload_as_slice p) w"
    by (elim exE conjE) (rule that; assumption)
  let ?e = "e\<lparr>ze_cctx := y1\<rparr>" and ?wire = "push_part_payload wire w"
  have push: "parts_payload ?wire = parts_payload wire @ [w]" "(\<exists>q. ?wire = Single q) \<or> (\<exists>v. ?wire = Multi v)"
    using parts_payload_push [OF Cons.prems(3)] by blast+
  have "\<forall>p \<in> set ps. length (payload_as_slice p) \<le> MAX_DECOMPRESSED_SIZE"
    "?wire = Empty \<or> (\<exists>p. ?wire = Single p) \<or> (\<exists>v. ?wire = Multi v)"
    using Cons.prems push(2) by auto
  from Cons.IH [OF one(2) this] obtain y wire' ws where rest:
    "zstd_encode_parts lib ?e ps ?wire = (?e\<lparr>ze_cctx := y\<rparr>, Ok wire')" "cctx_ok lib level_ok yinv (?e\<lparr>ze_cctx := y\<rparr>)"
    "parts_payload wire' = parts_payload ?wire @ ws"
    "list_all2 (zpart_decodes lib zinv (ze_send_dict ?e)) (map payload_as_slice ps) ws"
    by (elim exE conjE) (rule that; assumption)
  show ?case
    by (rule exI [of _ y], rule exI [of _ wire'], rule exI [of _ "w # ws"]) (use one rest push(1) in simp)
qed

lemma zstd_decode_parts_ok:
  assumes "list_all2 (zpart_decodes lib zinv dict) plains ws" "zinv dict (zd_dctx d)"
    and "covers budget (sum_list (map length plains))"
  shows "\<exists>z. zinv dict z \<and>
    zstd_decode_parts lib multi idx d budget out ws = (d\<lparr>zd_dctx := z\<rparr>, Ok (Some (push_all out plains)))"
  using assms
proof (induction plains ws arbitrary: budget out idx d rule: list_all2_induct)
  case Nil
  then show ?case by (intro exI [of _ "zd_dctx d"]) (simp add: push_all_def)
next
  case (Cons plain plains w ws)
  have c: "covers budget (length plain)" "covers (spend budget (length plain)) (sum_list (map length plains))"
    using Cons.prems covers_add [of budget "length plain"] by (simp_all add: covers_spend)
  obtain z where z: "zinv dict z" "zstd_decode_parts lib multi idx d budget out (w # ws) =
      zstd_decode_parts lib multi (idx + 1) (d\<lparr>zd_dctx := z\<rparr>) (spend budget (length plain))
        (push_part_payload out (payload_from_bytes plain)) ws"
    using Cons.hyps(1) Cons.prems(1) c(1) unfolding zpart_decodes_def by blast
  have "zinv dict (zd_dctx (d\<lparr>zd_dctx := z\<rparr>))" using z(1) by simp
  from Cons.IH [OF this c(2), of "idx + 1" "push_part_payload out (payload_from_bytes plain)"]
  show ?case unfolding z(2) push_all_def foldl_Cons by simp
qed

section \<open>Encoder and decoder in step\<close>

definition zstd_in_step :: "('x, 'y, 'z) zrip \<Rightarrow> (int \<Rightarrow> bool) \<Rightarrow> (bytes option \<Rightarrow> 'y \<Rightarrow> bool) \<Rightarrow> (bytes option \<Rightarrow> 'z \<Rightarrow> bool) \<Rightarrow>
    'y zstd_encoder \<Rightarrow> 'z zstd_decoder \<Rightarrow> bool" where
  "zstd_in_step lib level_ok yinv zinv e d \<longleftrightarrow>
     cctx_ok lib level_ok yinv e \<and>
     zd_recv_dict d = (if ze_send_dict_shipped e then ze_send_dict e else None) \<and>
     zinv (zd_recv_dict d) (zd_dctx d) \<and>
     (\<forall>dict. ze_send_dict e = Some dict \<longrightarrow> \<not> ze_send_dict_shipped e \<longrightarrow>
        4 \<le> length dict \<and> take 4 dict = ZDICT_MAGIC \<and> length dict \<le> zd_max_recv_dict_size d) \<and>
     (ze_train e \<noteq> None \<longrightarrow> ze_send_dict e = None \<and> \<not> ze_send_dict_shipped e \<and>
        min (ze_dict_capacity e) ZSTD_MAX_DICT_BYTES \<le> zd_max_recv_dict_size d)"

definition zstd_fits :: "'z zstd_decoder \<Rightarrow> message \<Rightarrow> bool" where
  "zstd_fits d m \<longleftrightarrow> (\<forall>p \<in> set (parts m). length p \<le> MAX_DECOMPRESSED_SIZE) \<and>
     covers (zd_max_message_size d) (sum_list (map length (parts m)))"

lemma train_zdict_ok:
  assumes "zrip_laws lib level_ok yinv zinv" "train_zdict lib rnd samples cap = Some dict"
  shows "zr_from_bytes lib dict \<noteq> None" "4 \<le> length dict" "take 4 dict = ZDICT_MAGIC"
    "length dict \<le> min cap ZSTD_MAX_DICT_BYTES"
proof -
  define capacity where "capacity = min cap ZSTD_MAX_DICT_BYTES"
  define raw where "raw = zr_finalize_dictionary lib (zr_select_segments lib samples capacity) samples capacity"
  have p: "patch_user_dict_id rnd raw = Some dict" "zr_from_bytes lib dict \<noteq> None"
    using assms(2) by (auto simp: train_zdict_def Let_def raw_def capacity_def split: if_splits option.splits)
  have raw: "8 \<le> length raw" "take 4 raw = ZDICT_MAGIC" "dict = write_at 4 (take 4 (drop 4 dict)) raw" "length dict = length raw"
    using p(1) by (auto simp: patch_user_dict_id_def Let_def write_at_def split: if_splits)
  have "take 4 dict = take 4 raw" using raw(1) by (subst raw(3)) simp
  moreover have "length raw \<le> capacity" using assms(1) by (simp add: zrip_laws_def raw_def)
  ultimately show "zr_from_bytes lib dict \<noteq> None" "4 \<le> length dict" "take 4 dict = ZDICT_MAGIC"
    "length dict \<le> min cap ZSTD_MAX_DICT_BYTES"
    using p raw by (simp_all add: capacity_def)
qed

lemma maybe_train_in_step:
  assumes "zrip_laws lib level_ok yinv zinv" "zstd_in_step lib level_ok yinv zinv e d"
  shows "zstd_in_step lib level_ok yinv zinv (maybe_train lib rnd e plain) d"
proof (cases "ze_train e")
  case (Some st)
  let ?st = "\<lparr>tr_samples = tr_samples st @ [plain], tr_total_bytes = tr_total_bytes st + length plain\<rparr>"
  have s: "ze_send_dict e = None" "\<not> ze_send_dict_shipped e" "min (ze_dict_capacity e) ZSTD_MAX_DICT_BYTES \<le> zd_max_recv_dict_size d"
    using assms(2) Some by (auto simp: zstd_in_step_def)
  have rd: "zd_recv_dict d = None" "zinv None (zd_dctx d)"
    using assms(2) s by (auto simp: zstd_in_step_def)
  show ?thesis
  proof (cases "train_zdict lib rnd (tr_samples ?st) (ze_dict_capacity e)")
    case None
    then show ?thesis using assms(2) Some s rd by (simp add: maybe_train_def zstd_in_step_def cctx_ok_def Let_def)
  next
    case (Some dict)
    note t = train_zdict_ok [OF assms(1) Some]
    have "length dict \<le> zd_max_recv_dict_size d" using t(4) s(3) by linarith
    with assms(2) \<open>ze_train e = Some st\<close> Some t(1-3) s rd show ?thesis
      by (simp add: maybe_train_def zstd_in_step_def cctx_ok_def Let_def)
  qed
qed (use assms in \<open>simp add: maybe_train_def\<close>)

lemma maybe_train_all_in_step:
  assumes "zrip_laws lib level_ok yinv zinv" "zstd_in_step lib level_ok yinv zinv e d"
  shows "zstd_in_step lib level_ok yinv zinv (foldl (\<lambda>e p. maybe_train lib rnd e (payload_as_bytes p)) e ps) d"
  using assms(2) by (induction ps arbitrary: e) (simp_all add: maybe_train_in_step [OF assms(1)])

lemma zstd_ship_dict_ok:
  assumes "zrip_laws lib level_ok yinv zinv" "zstd_in_step lib level_ok yinv zinv e d" "zstd_ship_dict e = (e', out)"
  shows "\<exists>d'. decode_each (zstd_decode lib) d out = (d', Ok []) \<and> zstd_in_step lib level_ok yinv zinv e' d' \<and>
    zd_recv_dict d' = ze_send_dict e' \<and> zd_max_message_size d' = zd_max_message_size d"
proof (cases "ze_send_dict e \<noteq> None \<and> \<not> ze_send_dict_shipped e")
  case True
  then obtain dict where dict: "ze_send_dict e = Some dict" "\<not> ze_send_dict_shipped e" by auto
  have step: "zd_recv_dict d = None" "4 \<le> length dict" "take 4 dict = ZDICT_MAGIC" "length dict \<le> zd_max_recv_dict_size d"
    using assms(2) dict by (auto simp: zstd_in_step_def)
  obtain x where x: "zr_from_bytes lib dict = Some x"
    using assms(2) dict by (auto simp: zstd_in_step_def cctx_ok_def)
  have out: "e' = e\<lparr>ze_send_dict_shipped := True\<rparr>" "out = [single dict]"
    using assms(3) dict by (auto simp: zstd_ship_dict_def)
  obtain p where "into_parts_payload (single dict) = [p]" "payload_as_slice p = dict"
    using parts_payload_view [of "single dict"] by (auto simp: parts_single into_parts_payload_eq)
  moreover have "dict \<noteq> []" using step(2) by auto
  ultimately have dec: "zstd_decode lib d (single dict)
      = (d\<lparr>zd_dctx := zr_decompress_with_dict lib x, zd_recv_dict := Some dict\<rparr>, Ok None)"
    using step x by (simp add: zstd_decode_def Let_def view_simps validate_dict_def)
  have "zinv (Some dict) (zr_decompress_with_dict lib x)" using assms(1) x by (simp add: zrip_laws_def)
  then show ?thesis using assms(2) dict dec by (simp add: out zstd_in_step_def cctx_ok_def)
next
  case False
  then show ?thesis using assms(2,3)
    by (cases "ze_send_dict e") (auto simp: zstd_ship_dict_def zstd_in_step_def split: if_splits)
qed

lemma zstd_deliver:
  assumes "zrip_laws lib level_ok yinv zinv" "zstd_in_step lib level_ok yinv zinv e d" "zstd_fits d m"
  shows "\<exists>e' out d' m'. zstd_encode lib rnd e m = (e', Ok out) \<and> decode_each (zstd_decode lib) d out = (d', Ok [m']) \<and>
    parts m' = parts m \<and> zstd_in_step lib level_ok yinv zinv e' d' \<and> zstd_fits d' = zstd_fits d"
proof -
  define e1 where "e1 = foldl (\<lambda>e p. maybe_train lib rnd e (payload_as_bytes p)) e (parts_payload m)"
  have s1: "zstd_in_step lib level_ok yinv zinv e1 d" unfolding e1_def by (rule maybe_train_all_in_step [OF assms(1,2)])
  obtain e2 out where ship: "zstd_ship_dict e1 = (e2, out)" by (cases "zstd_ship_dict e1")
  from zstd_ship_dict_ok [OF assms(1) s1 ship] obtain d2 where d2: "decode_each (zstd_decode lib) d out = (d2, Ok [])"
    "zstd_in_step lib level_ok yinv zinv e2 d2" "zd_recv_dict d2 = ze_send_dict e2"
    "zd_max_message_size d2 = zd_max_message_size d" by blast
  have prems: "cctx_ok lib level_ok yinv e2" "\<forall>p \<in> set (parts_payload m). length (payload_as_slice p) \<le> MAX_DECOMPRESSED_SIZE"
    using d2(2) assms(3) by (auto simp: zstd_in_step_def zstd_fits_def parts_payload_view [symmetric])
  from zstd_encode_parts_ok [OF assms(1) prems, of message_new] obtain y wire ws where enc:
    "zstd_encode_parts lib e2 (parts_payload m) message_new = (e2\<lparr>ze_cctx := y\<rparr>, Ok wire)"
    "cctx_ok lib level_ok yinv (e2\<lparr>ze_cctx := y\<rparr>)" "parts_payload wire = parts_payload message_new @ ws"
    "list_all2 (zpart_decodes lib zinv (ze_send_dict e2)) (map payload_as_slice (parts_payload m)) ws"
    by (auto simp: message_new_def)
  have ws: "into_parts_payload wire = ws" using enc(3) by (simp add: view_simps message_new_def)
  have zi: "zinv (ze_send_dict e2) (zd_dctx d2)" using d2(2,3) by (simp add: zstd_in_step_def)
  have cov: "covers (zd_max_message_size d2) (sum_list (map length (map payload_as_slice (parts_payload m))))"
    using assms(3) d2(4) by (simp only: zstd_fits_def parts_payload_view)
  obtain z where z: "zinv (ze_send_dict e2) z"
    "zstd_decode lib d2 wire = (d2\<lparr>zd_dctx := z\<rparr>, Ok (Some (push_all message_new (parts m))))"
    using zstd_decode_parts_ok [OF enc(4) zi cov, of "length ws > 1" 0 message_new]
    unfolding zstd_decode_def Let_def ws parts_payload_view by blast
  let ?e = "e2\<lparr>ze_cctx := y\<rparr>" and ?d = "d2\<lparr>zd_dctx := z\<rparr>"
  have "decode_each (zstd_decode lib) d (out @ [wire]) = (?d, Ok [push_all message_new (parts m)])"
    by (simp add: decode_each_append d2(1) z(2))
  moreover have "zstd_encode lib rnd e m = (?e, Ok (out @ [wire]))"
    using ship enc(1) by (simp add: zstd_encode_def e1_def Let_def)
  moreover have "zstd_in_step lib level_ok yinv zinv ?e ?d" using d2(2,3) enc(2) z(1)
    by (auto simp: zstd_in_step_def split: if_splits)
  moreover have "parts (push_all message_new (parts m)) = parts m" by (simp add: parts_push_all message_new_def)
  moreover have "zstd_fits ?d = zstd_fits d" by (simp add: fun_eq_iff zstd_fits_def d2(4))
  ultimately show ?thesis by blast
qed

section \<open>Arbitrary input\<close>

lemma decode_zstd_budget:
  assumes "decode_zstd lib d bytes budget = (d', Ok (w, budget'))"
  shows "covers budget (length (payload_as_slice w)) \<and> budget' = spend budget (length (payload_as_slice w)) \<and>
    length (payload_as_slice w) \<le> MAX_DECOMPRESSED_SIZE \<and> (\<exists>z. d' = d\<lparr>zd_dctx := z\<rparr>)"
  using assms
  by (auto simp: decode_zstd_def take_budget_Ok view_simps Let_def split: option.splits if_splits sum.splits prod.splits)

lemma zstd_decode_parts_budget:
  assumes "zstd_decode_parts lib multi idx d budget out ps = (d', Ok (Some m))"
  shows "(\<exists>z. d' = d\<lparr>zd_dctx := z\<rparr>) \<and> (\<exists>plains. parts m = parts out @ plains \<and> length plains = length ps \<and>
    covers budget (sum_list (map length plains)))"
  using assms
proof (induction ps arbitrary: idx budget out d)
  case Nil
  then show ?case by (cases budget) (auto simp: covers_def intro: exI [of _ "zd_dctx d"])
next
  case (Cons p ps)
  have step: ?case if "zstd_decode_parts lib multi (idx + 1) (d\<lparr>zd_dctx := z\<rparr>) budget' (push_part_payload out w) ps = (d', Ok (Some m))"
    "covers budget (length (payload_as_slice w))" "budget' = spend budget (length (payload_as_slice w))" for w budget' z
  proof -
    from Cons.IH [OF that(1)] obtain plains z' where "d' = d\<lparr>zd_dctx := z'\<rparr>" "parts m = parts out @ payload_as_slice w # plains"
      "length plains = length ps" "covers budget' (sum_list (map length plains))"
      by (auto simp: parts_push_part_payload)
    then show ?thesis using that(2,3)
      by (intro conjI exI [of _ "payload_as_slice w # plains"] exI [of _ z']) (simp_all add: covers_spend)
  qed
  let ?b = "payload_as_bytes p"
  note run = Cons.prems [unfolded zstd_decode_parts.simps Let_def]
  have long: "\<not> length ?b < 4" using run by (auto split: if_splits)
  consider "take 4 ?b = SENTINEL_PLAIN" | "take 4 ?b = ZSTD_MAGIC"
    using run by (auto split: if_splits sum.splits option.splits)
  then show ?case
  proof cases
    case 1
    then have "covers budget (length ?b - 4)" "zstd_decode_parts lib multi (idx + 1) d (spend budget (length ?b - 4))
        (push_part_payload out (payload_from_bytes (drop 4 ?b))) ps = (d', Ok (Some m))"
      using run long by (auto simp: take_budget_Ok split: sum.splits)
    then show ?thesis using step [of "zd_dctx d" "spend budget (length ?b - 4)" "payload_from_bytes (drop 4 ?b)"]
      by (simp add: view_simps)
  next
    case 2
    then obtain d1 w budget' where w: "decode_zstd lib d ?b budget = (d1, Ok (w, budget'))"
      "zstd_decode_parts lib multi (idx + 1) d1 budget' (push_part_payload out w) ps = (d', Ok (Some m))"
      using run long by (auto split: sum.splits prod.splits)
    show ?thesis using step w(2) decode_zstd_budget [OF w(1)] by blast
  qed
qed

lemma zstd_decode_parts_consumed:
  assumes "zstd_decode_parts lib multi idx d budget out ps = (d', Ok None)"
  shows "zd_recv_dict d = None \<and> (\<exists>dict. dict \<noteq> [] \<and> length dict \<le> zd_max_recv_dict_size d \<and> zd_recv_dict d' = Some dict) \<and>
    zd_max_message_size d' = zd_max_message_size d"
  using assms
proof (induction ps arbitrary: idx budget out d)
  case (Cons p ps)
  let ?b = "payload_as_bytes p"
  note run = Cons.prems [unfolded zstd_decode_parts.simps Let_def]
  consider "take 4 ?b = SENTINEL_PLAIN" | "take 4 ?b = ZSTD_MAGIC" | "take 4 ?b = ZDICT_MAGIC"
    using run by (auto split: if_splits)
  then show ?case
  proof cases
    case 1
    with run show ?thesis using Cons.IH by (simp split: if_splits sum.splits)
  next
    case 2
    with run obtain d1 w budget' where w: "decode_zstd lib d ?b budget = (d1, Ok (w, budget'))"
      "zstd_decode_parts lib multi (idx + 1) d1 budget' (push_part_payload out w) ps = (d', Ok None)"
      by (auto split: sum.splits prod.splits if_splits)
    obtain z where "d1 = d\<lparr>zd_dctx := z\<rparr>" using decode_zstd_budget [OF w(1)] by blast
    then show ?thesis using Cons.IH [OF w(2)] by simp
  next
    case 3
    with run show ?thesis using validate_dict_Ok [of ?b "zd_max_recv_dict_size d"]
      by (auto split: if_splits sum.splits option.splits)
  qed
qed simp

end
