(* ===== verification/Endpoint.thy ===== *)
theory Endpoint
  imports Security
begin

text \<open>
  Endpoint addresses, \<^verbatim>\<open>omq-proto/src/endpoint.rs\<close>, with all transport features on a Unix
  target: parsing, printing, the wrapped compression schemes, and the parsing and
  printing of numbers and IP addresses of the standard library that it relies on.
  Text is the list of its UTF-8 bytes as characters.
\<close>

section \<open>Text of the standard library\<close>

text \<open>\<^verbatim>\<open>str::split_once\<close> for a text pattern, and \<^verbatim>\<open>split_once\<close>, \<^verbatim>\<open>rsplit_once\<close> and \<^verbatim>\<open>find\<close> for a character.\<close>

fun split_once :: "string \<Rightarrow> string \<Rightarrow> (string \<times> string) option" where
  "split_once pat [] = (if pat = [] then Some ([], []) else None)"
| "split_once pat (c # cs) =
     (if prefix pat (c # cs) then Some ([], drop (length pat) (c # cs))
      else map_option (\<lambda>(a, b). (c # a, b)) (split_once pat cs))"

definition split_at :: "char \<Rightarrow> string \<Rightarrow> (string \<times> string) option" where
  "split_at c s = (if c \<in> set s then Some (takeWhile (\<lambda>x. x \<noteq> c) s, tl (dropWhile (\<lambda>x. x \<noteq> c) s)) else None)"

definition rsplit_at :: "char \<Rightarrow> string \<Rightarrow> (string \<times> string) option" where
  "rsplit_at c s = map_option (\<lambda>(a, b). (rev b, rev a)) (split_at c (rev s))"

definition strip_char :: "char \<Rightarrow> string \<Rightarrow> string option" where
  "strip_char c s = (case s of [] \<Rightarrow> None | x # xs \<Rightarrow> if x = c then Some xs else None)"

subsection \<open>Numbers\<close>

definition to_digit :: "nat \<Rightarrow> char \<Rightarrow> nat option" where
  "to_digit radix c =
     (let n = of_char c :: nat;
          d = (if 48 \<le> n \<and> n \<le> 57 then n - 48 else if 97 \<le> n \<and> n \<le> 122 then n - 87
               else if 65 \<le> n \<and> n \<le> 90 then n - 55 else radix)
      in if d < radix then Some d else None)"

definition digit_char :: "nat \<Rightarrow> char" where
  "digit_char d = (if d < 10 then char_of (48 + d) else char_of (87 + d))"

fun digits :: "nat \<Rightarrow> nat \<Rightarrow> nat list" where
  "digits radix n = (if radix < 2 \<or> n < radix then [n] else digits radix (n div radix) @ [n mod radix])"

declare digits.simps [simp del]

definition show_nat :: "nat \<Rightarrow> nat \<Rightarrow> string" where
  "show_nat radix n = map digit_char (digits radix n)"

definition digit_run :: "nat \<Rightarrow> string \<Rightarrow> string" where
  "digit_run radix s = takeWhile (\<lambda>c. to_digit radix c \<noteq> None) s"

definition digits_val :: "nat \<Rightarrow> string \<Rightarrow> nat" where
  "digits_val radix s = foldl (\<lambda>n c. n * radix + (case to_digit radix c of Some d \<Rightarrow> d | None \<Rightarrow> 0)) 0 s"

text \<open>\<^verbatim>\<open>u16::from_str\<close>: an optional plus sign and at least one digit.\<close>

definition parse_u16 :: "string \<Rightarrow> u16 option" where
  "parse_u16 s =
     (let ds = (case strip_char (CHR ''+'') s of Some r \<Rightarrow> r | None \<Rightarrow> s)
      in if ds = [] \<or> digit_run 10 ds \<noteq> ds \<or> 65535 < digits_val 10 ds then None
         else Some (of_nat (digits_val 10 ds)))"

definition show_u16 :: "u16 \<Rightarrow> string" where
  "show_u16 w = show_nat 10 (unat w)"

subsection \<open>IP addresses\<close>

datatype ip_addr = V4 u8 u8 u8 u8 | V6 "u16 list"

text \<open>
  The reader of \<^verbatim>\<open>core::net\<close>: a step returns what it read and the rest, or nothing and
  consumes nothing.
\<close>

definition read_number :: "nat \<Rightarrow> nat \<Rightarrow> nat \<Rightarrow> bool \<Rightarrow> string \<Rightarrow> (nat \<times> string) option" where
  "read_number radix max_digits limit allow_zero_prefix s =
     (let ds = digit_run radix s
      in if ds = [] \<or> max_digits < length ds \<or> limit \<le> digits_val radix ds \<or>
            (\<not> allow_zero_prefix \<and> hd ds = CHR ''0'' \<and> 1 < length ds)
         then None else Some (digits_val radix ds, drop (length ds) s))"

definition read_separator :: "char \<Rightarrow> nat \<Rightarrow> (string \<Rightarrow> ('a \<times> string) option) \<Rightarrow> string \<Rightarrow> ('a \<times> string) option" where
  "read_separator sep index inner s =
     (if 0 < index then (case strip_char sep s of None \<Rightarrow> None | Some r \<Rightarrow> inner r) else inner s)"

definition read_octet :: "nat \<Rightarrow> string \<Rightarrow> (nat \<times> string) option" where
  "read_octet i = read_separator (CHR ''.'') i (read_number 10 3 256 False)"

definition read_ipv4 :: "string \<Rightarrow> ((nat \<times> nat \<times> nat \<times> nat) \<times> string) option" where
  "read_ipv4 s = (case read_octet 0 s of None \<Rightarrow> None | Some (a, s) \<Rightarrow>
     (case read_octet 1 s of None \<Rightarrow> None | Some (b, s) \<Rightarrow>
     (case read_octet 2 s of None \<Rightarrow> None | Some (c, s) \<Rightarrow>
     (case read_octet 3 s of None \<Rightarrow> None | Some (d, s) \<Rightarrow> Some ((a, b, c, d), s)))))"

definition read_group :: "nat \<Rightarrow> string \<Rightarrow> (nat \<times> string) option" where
  "read_group i = read_separator (CHR '':'') i (read_number 16 4 65536 True)"

fun read_groups :: "nat \<Rightarrow> nat \<Rightarrow> string \<Rightarrow> nat list \<times> bool \<times> string" where
  "read_groups 0 i s = ([], False, s)"
| "read_groups (Suc n) i s =
     (case (if 0 < n then read_separator (CHR '':'') i read_ipv4 s else None) of
        Some ((a, b, c, d), s) \<Rightarrow> ([a * 256 + b, c * 256 + d], True, s)
      | None \<Rightarrow> (case read_group i s of
          None \<Rightarrow> ([], False, s)
        | Some (g, s) \<Rightarrow> (case read_groups n (i + 1) s of (gs, v4, s) \<Rightarrow> (g # gs, v4, s))))"

definition read_ipv6 :: "string \<Rightarrow> (nat list \<times> string) option" where
  "read_ipv6 s = (case read_groups 8 0 s of (head, v4, s) \<Rightarrow>
     if length head = 8 then Some (head, s)
     else if v4 then None
     else case strip_char (CHR '':'') s of None \<Rightarrow> None | Some s \<Rightarrow>
       (case strip_char (CHR '':'') s of None \<Rightarrow> None | Some s \<Rightarrow>
       (case read_groups (7 - length head) 0 s of (tail, _, s) \<Rightarrow>
          Some (head @ replicate (8 - length head - length tail) 0 @ tail, s))))"

definition parse_ip :: "string \<Rightarrow> ip_addr option" where
  "parse_ip s = (case read_ipv4 s of
     Some ((a, b, c, d), r) \<Rightarrow> if r = [] then Some (V4 (of_nat a) (of_nat b) (of_nat c) (of_nat d)) else None
   | None \<Rightarrow> (case read_ipv6 s of
       Some (gs, r) \<Rightarrow> if r = [] then Some (V6 (map of_nat gs)) else None
     | None \<Rightarrow> None))"

definition show_v4 :: "nat \<Rightarrow> nat \<Rightarrow> nat \<Rightarrow> nat \<Rightarrow> string" where
  "show_v4 a b c d = show_nat 10 a @ ''.'' @ show_nat 10 b @ ''.'' @ show_nat 10 c @ ''.'' @ show_nat 10 d"

text \<open>The longest run of zeros, the first of several: its start and length.\<close>

fun zero_span :: "nat \<Rightarrow> nat list \<Rightarrow> nat \<times> nat \<Rightarrow> nat \<times> nat \<Rightarrow> nat \<times> nat" where
  "zero_span i [] longest current = longest"
| "zero_span i (g # gs) longest current =
     (if g = 0
      then let start = (if snd current = 0 then i else fst current);
               current = (start, snd current + 1);
               longest = (if snd longest < snd current then current else longest)
           in zero_span (i + 1) gs longest current
      else zero_span (i + 1) gs longest (0, 0))"

fun show_groups :: "nat list \<Rightarrow> string" where
  "show_groups [] = []"
| "show_groups [g] = show_nat 16 g"
| "show_groups (g # h # gs) = show_nat 16 g @ '':'' @ show_groups (h # gs)"

definition show_v6 :: "nat list \<Rightarrow> string" where
  "show_v6 gs =
     (if take 6 gs = [0, 0, 0, 0, 0, 65535]
      then ''::ffff:'' @ show_v4 (gs ! 6 div 256) (gs ! 6 mod 256) (gs ! 7 div 256) (gs ! 7 mod 256)
      else case zero_span 0 gs (0, 0) (0, 0) of (start, len) \<Rightarrow>
        if 1 < len then show_groups (take start gs) @ ''::'' @ show_groups (drop (start + len) gs)
        else show_groups gs)"

section \<open>Endpoints\<close>

datatype host = HIp ip_addr | HName string | HWildcard

datatype ipc_path = Filesystem string | Abstract string

datatype endpoint =
    Tcp host u16
  | Ipc ipc_path
  | Inproc string
  | Udp "string option" host u16
  | Lz4Tcp host u16
  | ZstdTcp host u16
  | Ws host u16 string
  | Wss host u16 string
  | Lz4Ws host u16 string

datatype endpoint_role = RBind | RConnect | RDefault

record endpoint_spec =
  es_role :: endpoint_role
  es_endpoint :: endpoint

definition host_char :: "char \<Rightarrow> bool" where
  "host_char c = (let n = of_char c :: nat
     in 48 \<le> n \<and> n \<le> 57 \<or> 65 \<le> n \<and> n \<le> 90 \<or> 97 \<le> n \<and> n \<le> 122 \<or> c = CHR ''.'' \<or> c = CHR ''-'')"

definition parse_host :: "string \<Rightarrow> host result" where
  "parse_host s =
     (if s = ''*'' \<or> s = [] then Ok HWildcard
      else if CHR '':'' \<in> set s then Err (InvalidEndpoint (''IPv6 must be bracketed: ['' @ s @ '']''))
      else case parse_ip s of
        Some ip \<Rightarrow> Ok (HIp ip)
      | None \<Rightarrow> if \<not> list_all host_char s then Err (InvalidEndpoint (''invalid host '' @ s)) else Ok (HName s))"

definition parse_host_port :: "string \<Rightarrow> (host \<times> u16) result" where
  "parse_host_port rest = (case strip_char (CHR ''['') rest of
     Some stripped \<Rightarrow> (case split_at (CHR '']'') stripped of
         None \<Rightarrow> Err (InvalidEndpoint (''unmatched '[' in '' @ rest))
       | Some (ip_str, after) \<Rightarrow>
           (case Option.bind (strip_char (CHR '':'') after) parse_u16 of
              None \<Rightarrow> Err (InvalidEndpoint (''missing port in '' @ rest))
            | Some port \<Rightarrow> (case parse_ip ip_str of
                None \<Rightarrow> Err (InvalidEndpoint (''invalid IPv6 '' @ ip_str))
              | Some ip \<Rightarrow> Ok (HIp ip, port))))
   | None \<Rightarrow> (case rsplit_at (CHR '':'') rest of
       None \<Rightarrow> Err (InvalidEndpoint (''missing port in '' @ rest))
     | Some (host_str, port_str) \<Rightarrow>
         rbind (if port_str = ''*'' then Ok 0
                else case parse_u16 port_str of
                  None \<Rightarrow> Err (InvalidEndpoint (''invalid port '' @ port_str)) | Some p \<Rightarrow> Ok p)
         (\<lambda>port. rbind (parse_host host_str) (\<lambda>host. Ok (host, port)))))"

definition parse_ipc :: "string \<Rightarrow> ipc_path result" where
  "parse_ipc rest =
     (if rest = [] then Err (InvalidEndpoint ''empty ipc path'')
      else case strip_char (CHR ''@'') rest of
        Some name \<Rightarrow> if name = [] then Err (InvalidEndpoint ''empty abstract ipc name'') else Ok (Abstract name)
      | None \<Rightarrow> Ok (Filesystem rest))"

definition parse_ws :: "string \<Rightarrow> bool \<Rightarrow> endpoint result" where
  "parse_ws rest tls =
     (let (hp, path) = (if CHR ''/'' \<in> set rest
          then (takeWhile (\<lambda>c. c \<noteq> CHR ''/'') rest, dropWhile (\<lambda>c. c \<noteq> CHR ''/'') rest) else (rest, ''/''))
      in rbind (parse_host_port hp) (\<lambda>(host, port).
         if char_of (13 :: nat) \<in> set path \<or> char_of (10 :: nat) \<in> set path then Err (InvalidEndpoint ''invalid ws path'')
         else if tls then Ok (Wss host port path) else Ok (Ws host port path)))"

definition parse_compressed_ws :: "string \<Rightarrow> (host \<Rightarrow> u16 \<Rightarrow> string \<Rightarrow> endpoint) \<Rightarrow> endpoint result" where
  "parse_compressed_ws rest wrap = rbind (parse_ws rest False) (\<lambda>e. case e of
     Ws host port path \<Rightarrow> Ok (wrap host port path) | _ \<Rightarrow> Err (Panic ''unreachable''))"

definition parse_udp :: "string \<Rightarrow> endpoint result" where
  "parse_udp rest =
     (let (grp, hp) = (case split_at (CHR ''@'') rest of
          Some (g, hp) \<Rightarrow> if g \<noteq> [] then (Some g, hp) else (None, rest)
        | None \<Rightarrow> (None, rest))
      in rbind (parse_host_port hp) (\<lambda>(host, port). Ok (Udp grp host port)))"

definition endpoint_from_str :: "string \<Rightarrow> endpoint result" where
  "endpoint_from_str s = (case split_once ''://'' s of
     None \<Rightarrow> Err (InvalidEndpoint s)
   | Some (scheme, rest) \<Rightarrow>
       if scheme = ''tcp'' then rbind (parse_host_port rest) (\<lambda>(host, port). Ok (Tcp host port))
       else if scheme = ''ipc'' then rbind (parse_ipc rest) (\<lambda>p. Ok (Ipc p))
       else if scheme = ''inproc'' then (if rest = [] then Err (InvalidEndpoint s) else Ok (Inproc rest))
       else if scheme = ''udp'' then parse_udp rest
       else if scheme = ''lz4+tcp'' then rbind (parse_host_port rest) (\<lambda>(host, port). Ok (Lz4Tcp host port))
       else if scheme = ''zstd+tcp'' then rbind (parse_host_port rest) (\<lambda>(host, port). Ok (ZstdTcp host port))
       else if scheme = ''ws'' then parse_ws rest False
       else if scheme = ''wss'' then parse_ws rest True
       else if scheme = ''lz4+ws'' then parse_compressed_ws rest Lz4Ws
       else Err (UnsupportedScheme scheme))"

fun show_host :: "host \<Rightarrow> string" where
  "show_host (HIp (V4 a b c d)) = show_v4 (unat a) (unat b) (unat c) (unat d)"
| "show_host (HIp (V6 gs)) = ''['' @ show_v6 (map unat gs) @ '']''"
| "show_host (HName n) = n"
| "show_host HWildcard = ''*''"

fun show_ipc :: "ipc_path \<Rightarrow> string" where
  "show_ipc (Filesystem p) = p"
| "show_ipc (Abstract name) = ''@'' @ name"

definition show_host_port :: "host \<Rightarrow> u16 \<Rightarrow> string" where
  "show_host_port host port = show_host host @ '':'' @ show_u16 port"

fun show_endpoint :: "endpoint \<Rightarrow> string" where
  "show_endpoint (Tcp host port) = ''tcp://'' @ show_host_port host port"
| "show_endpoint (Ipc path) = ''ipc://'' @ show_ipc path"
| "show_endpoint (Inproc name) = ''inproc://'' @ name"
| "show_endpoint (Udp (Some g) host port) = ''udp://'' @ g @ ''@'' @ show_host_port host port"
| "show_endpoint (Udp None host port) = ''udp://'' @ show_host_port host port"
| "show_endpoint (Lz4Tcp host port) = ''lz4+tcp://'' @ show_host_port host port"
| "show_endpoint (ZstdTcp host port) = ''zstd+tcp://'' @ show_host_port host port"
| "show_endpoint (Ws host port path) = ''ws://'' @ show_host_port host port @ path"
| "show_endpoint (Wss host port path) = ''wss://'' @ show_host_port host port @ path"
| "show_endpoint (Lz4Ws host port path) = ''lz4+ws://'' @ show_host_port host port @ path"

definition underlying_tcp :: "endpoint \<Rightarrow> endpoint" where
  "underlying_tcp e = (case e of Lz4Tcp host port \<Rightarrow> Tcp host port | ZstdTcp host port \<Rightarrow> Tcp host port | _ \<Rightarrow> e)"

definition rewrap_tcp :: "endpoint \<Rightarrow> endpoint \<Rightarrow> endpoint" where
  "rewrap_tcp e resolved = (case (e, resolved) of
     (Lz4Tcp _ _, Tcp host port) \<Rightarrow> Lz4Tcp host port
   | (ZstdTcp _ _, Tcp host port) \<Rightarrow> ZstdTcp host port
   | _ \<Rightarrow> resolved)"

definition is_tcp_family :: "endpoint \<Rightarrow> bool" where
  "is_tcp_family e = (case e of Tcp _ _ \<Rightarrow> True | Lz4Tcp _ _ \<Rightarrow> True | ZstdTcp _ _ \<Rightarrow> True | _ \<Rightarrow> False)"

definition underlying_ws :: "endpoint \<Rightarrow> endpoint" where
  "underlying_ws e = (case e of Lz4Ws host port path \<Rightarrow> Ws host port path | _ \<Rightarrow> e)"

definition rewrap_ws :: "endpoint \<Rightarrow> endpoint \<Rightarrow> endpoint" where
  "rewrap_ws e resolved = (case (e, resolved) of (Lz4Ws _ _ _, Ws host port path) \<Rightarrow> Lz4Ws host port path | _ \<Rightarrow> resolved)"

definition is_ws_family :: "endpoint \<Rightarrow> bool" where
  "is_ws_family e = (case e of Ws _ _ _ \<Rightarrow> True | Wss _ _ _ \<Rightarrow> True | Lz4Ws _ _ _ \<Rightarrow> True | _ \<Rightarrow> False)"

definition endpoint_scheme :: "endpoint \<Rightarrow> string" where
  "endpoint_scheme e = (case e of Tcp _ _ \<Rightarrow> ''tcp'' | Ipc _ \<Rightarrow> ''ipc'' | Inproc _ \<Rightarrow> ''inproc'' | Udp _ _ _ \<Rightarrow> ''udp''
   | Lz4Tcp _ _ \<Rightarrow> ''lz4+tcp'' | ZstdTcp _ _ \<Rightarrow> ''zstd+tcp'' | Ws _ _ _ \<Rightarrow> ''ws'' | Wss _ _ _ \<Rightarrow> ''wss'' | Lz4Ws _ _ _ \<Rightarrow> ''lz4+ws'')"

definition reject_encrypted_inproc :: "endpoint \<Rightarrow> mechanism_setup \<Rightarrow> unit result" where
  "reject_encrypted_inproc e mechanism =
     (if (case e of Inproc _ \<Rightarrow> True | _ \<Rightarrow> False) \<and> (case mechanism of SetupNull \<Rightarrow> False | _ \<Rightarrow> True)
      then Err (InvalidEndpoint ''non-NULL mechanisms (PLAIN / CURVE) are not supported on inproc - use ipc:// or tcp:// for authenticated or encrypted channels'')
      else Ok ())"

definition spec_from_str :: "string \<Rightarrow> endpoint_spec result" where
  "spec_from_str s =
     (let (role, rest) = (case s of
          c # cs \<Rightarrow> if c = CHR ''@'' then (RBind, cs) else if c = CHR ''>'' then (RConnect, cs) else (RDefault, s)
        | [] \<Rightarrow> (RDefault, s))
      in rbind (endpoint_from_str rest) (\<lambda>e. Ok \<lparr>es_role = role, es_endpoint = e\<rparr>))"

definition show_spec :: "endpoint_spec \<Rightarrow> string" where
  "show_spec sp = (case es_role sp of
     RBind \<Rightarrow> ''@'' @ show_endpoint (es_endpoint sp)
   | RConnect \<Rightarrow> ''>'' @ show_endpoint (es_endpoint sp)
   | RDefault \<Rightarrow> show_endpoint (es_endpoint sp))"


section \<open>Numbers are read back\<close>

named_theorems endpoint_text

lemma host_char_apart [endpoint_text]:
  "\<not> host_char (CHR '':'')" "\<not> host_char (CHR '']'')" "\<not> host_char (CHR ''['')" "\<not> host_char (CHR ''@'')"
  "\<not> host_char (CHR ''/'')" "\<not> host_char (CHR ''*'')" "\<not> host_char (CHR ''+'')"
  by (simp_all add: host_char_def)

lemma to_digit_apart [endpoint_text]:
  "to_digit 10 (CHR ''.'') = None" "to_digit 16 (CHR '':'') = None" "to_digit 10 (CHR '':'') = None"
  by (simp_all add: to_digit_def)

lemma to_digit_digit_char: "d < r \<Longrightarrow> r \<le> 16 \<Longrightarrow> to_digit r (digit_char d) = Some d"
  by (simp add: to_digit_def digit_char_def Let_def)

lemma digit_char_host: "d < 16 \<Longrightarrow> host_char (digit_char d) \<and> digit_char d \<noteq> CHR ''.''"
  by (auto simp: host_char_def digit_char_def Let_def dest: arg_cong [where f = "of_char :: char \<Rightarrow> nat"])

lemma digit_char_zero: "d < 16 \<Longrightarrow> digit_char d = CHR ''0'' \<longleftrightarrow> d = 0"
  using char_of_char [of "CHR ''0''" , where ?'a = nat]
  by (auto simp: digit_char_def dest: arg_cong [where f = "of_char :: char \<Rightarrow> nat"])

lemma digits_ne: "digits r n \<noteq> []"
  by (subst digits.simps) simp

lemma digits_bound: "2 \<le> r \<Longrightarrow> d \<in> set (digits r n) \<Longrightarrow> d < r"
proof (induction r n rule: digits.induct)
  case (1 r n)
  show ?case
  proof (cases "n < r")
    case False
    then have "digits r n = digits r (n div r) @ [n mod r]"
      using "1.prems" by (subst digits.simps) simp
    then show ?thesis using 1 False by auto
  qed (use "1.prems" in \<open>subst (asm) digits.simps, simp\<close>)
qed

lemma digits_length: "2 \<le> r \<Longrightarrow> n < r ^ Suc k \<Longrightarrow> length (digits r n) \<le> Suc k"
proof (induction k arbitrary: n)
  case 0
  then show ?case by (subst digits.simps) simp
next
  case (Suc k)
  have "n div r < r ^ Suc k"
    using Suc.prems by (simp add: less_mult_imp_div_less mult.commute)
  from Suc.IH [OF Suc.prems(1) this] show ?case
    by (subst digits.simps) simp
qed

lemma digits_hd: "2 \<le> r \<Longrightarrow> 1 < length (digits r n) \<Longrightarrow> hd (digits r n) \<noteq> 0"
proof (induction r n rule: digits.induct)
  case (1 r n)
  show ?case
  proof (cases "n < r")
    case False
    then have step: "digits r n = digits r (n div r) @ [n mod r]"
      using "1.prems" by (subst digits.simps) simp
    show ?thesis
    proof (cases "n div r < r")
      case True
      then have "digits r (n div r) = [n div r]" by (subst digits.simps) simp
      then show ?thesis using step False "1.prems" by (auto simp: div_eq_0_iff)
    next
      case big: False
      then have "1 < length (digits r (n div r))"
        using "1.prems"(1) digits_ne [of r "n div r div r"] by (subst digits.simps) (simp add: Suc_lessI)
      then show ?thesis using "1.IH" False "1.prems"(1) step digits_ne [of r "n div r"] by simp
    qed
  qed (use "1.prems" in \<open>subst (asm) digits.simps, simp\<close>)
qed

lemma digits_val_snoc: "digits_val r (s @ [c]) = digits_val r s * r + (case to_digit r c of Some d \<Rightarrow> d | None \<Rightarrow> 0)"
  by (simp add: digits_val_def)

lemma digits_val_show: "2 \<le> r \<Longrightarrow> r \<le> 16 \<Longrightarrow> digits_val r (show_nat r n) = n"
proof (induction r n rule: digits.induct)
  case (1 r n)
  show ?case
  proof (cases "n < r")
    case True
    then show ?thesis using 1(3)
      by (subst show_nat_def, subst digits.simps) (simp add: digits_val_def to_digit_digit_char)
  next
    case False
    then have "show_nat r n = show_nat r (n div r) @ [digit_char (n mod r)]"
      unfolding show_nat_def by (subst digits.simps) (use 1(2) in simp)
    then show ?thesis using 1 False
      by (simp add: digits_val_snoc to_digit_digit_char)
  qed
qed

definition ends :: "nat \<Rightarrow> string \<Rightarrow> bool" where
  "ends r s = (s = [] \<or> to_digit r (hd s) = None)"

lemma show_nat_ne: "show_nat r n \<noteq> []"
  by (simp add: show_nat_def digits_ne)

lemma show_nat_digits: "2 \<le> r \<Longrightarrow> r \<le> 16 \<Longrightarrow> c \<in> set (show_nat r n) \<Longrightarrow> to_digit r c \<noteq> None"
  by (auto simp: show_nat_def to_digit_digit_char dest!: digits_bound)

lemma show_nat_host: "2 \<le> r \<Longrightarrow> r \<le> 16 \<Longrightarrow> c \<in> set (show_nat r n) \<Longrightarrow> host_char c \<and> c \<noteq> CHR ''.''"
  unfolding show_nat_def by (auto simp del: One_nat_def dest!: digits_bound dest: less_le_trans digit_char_host)

lemma digit_run_show:
  assumes "2 \<le> r" "r \<le> 16" "ends r s"
  shows "digit_run r (show_nat r n @ s) = show_nat r n"
proof -
  have "takeWhile (\<lambda>c. to_digit r c \<noteq> None) s = []"
    using assms(3) by (cases s) (auto simp: ends_def)
  then show ?thesis
    using show_nat_digits [OF assms(1,2)] by (simp add: digit_run_def takeWhile_append2)
qed

lemma read_number_show:
  assumes "2 \<le> r" "r \<le> 16" "n < limit" "n < r ^ Suc k" "ends r s"
  shows "read_number r (Suc k) limit z (show_nat r n @ s) = Some (n, s)"
proof -
  have "\<not> (hd (show_nat r n) = CHR ''0'' \<and> 1 < length (show_nat r n))"
    using digits_hd [of r n] digits_bound [of r "hd (digits r n)" n] digits_ne [of r n] assms(1,2)
    by (auto simp: show_nat_def hd_map digit_char_zero)
  moreover have "length (show_nat r n) \<le> Suc k"
    using digits_length [OF assms(1,4)] by (simp add: show_nat_def)
  ultimately show ?thesis
    using assms by (simp add: read_number_def digit_run_show digits_val_show show_nat_ne Let_def)
qed

lemma parse_show_u16: "parse_u16 (show_u16 w) = Some w"
proof -
  have "unat w \<le> 65535" using unsigned_less [of w, where ?'a = nat] by simp
  moreover have "strip_char (CHR ''+'') (show_u16 w) = None"
    using show_nat_host [of 10 "hd (show_u16 w)" "unat w"] show_nat_ne [of 10 "unat w"]
    by (cases "show_u16 w") (auto simp: strip_char_def show_u16_def endpoint_text)
  moreover have "digit_run 10 (show_u16 w) = show_u16 w"
    using digit_run_show [of 10 "[]" "unat w"] by (simp add: show_u16_def ends_def)
  ultimately show ?thesis
    by (simp add: parse_u16_def show_u16_def digits_val_show show_nat_ne)
qed

section \<open>Addresses are read back\<close>

lemma drop_digit_run: "drop (length (digit_run r s)) s = dropWhile (\<lambda>c. to_digit r c \<noteq> None) s"
  by (simp add: digit_run_def dropWhile_eq_drop)

lemma read_ipv4_show:
  assumes "a < 256" "b < 256" "c < 256" "d < 256" "ends 10 s"
  shows "read_ipv4 (show_v4 a b c d @ s) = Some ((a, b, c, d), s)"
proof -
  have rn: "read_number 10 3 256 False (show_nat 10 n @ t) = Some (n, t)" if "n < 256" "ends 10 t" for n t
    using read_number_show [of 10 n 256 2 t False] that by (simp add: numeral_3_eq_3)
  have dot: "ends 10 (CHR ''.'' # t)" for t
    by (simp add: ends_def endpoint_text)
  show ?thesis
    using assms by (simp add: read_ipv4_def read_octet_def read_separator_def show_v4_def strip_char_def rn dot)
qed

lemma read_ipv4_none:
  assumes "strip_char (CHR ''.'') (dropWhile (\<lambda>c. to_digit 10 c \<noteq> None) s) = None"
  shows "read_ipv4 s = None"
  using assms by (auto simp: read_ipv4_def read_octet_def read_separator_def read_number_def Let_def drop_digit_run
      split: option.splits if_splits)

definition closes :: "string \<Rightarrow> bool" where
  "closes s = (s = [] \<or> hd s = CHR '':'')"

lemma closes_ends: "closes s \<Longrightarrow> ends 16 s \<and> ends 10 s"
  by (auto simp: closes_def ends_def endpoint_text)

lemma no_dot_after: "CHR ''.'' \<notin> set xs \<Longrightarrow> closes s \<Longrightarrow> strip_char (CHR ''.'') (dropWhile (\<lambda>c. to_digit 10 c \<noteq> None) (xs @ s)) = None"
proof (induction xs)
  case Nil
  then show ?case by (cases s) (auto simp: closes_def strip_char_def endpoint_text split: list.splits)
qed (auto simp: strip_char_def)

text \<open>The text of groups in the middle of an address: every group but the first has its colon.\<close>

fun group_text :: "nat \<Rightarrow> nat list \<Rightarrow> string" where
  "group_text i [] = []"
| "group_text i (g # gs) = (if 0 < i then '':'' else []) @ show_nat 16 g @ group_text (Suc i) gs"

lemma group_text_closes: "closes s \<Longrightarrow> closes (group_text (Suc i) gs @ s)"
  by (cases gs) (simp_all add: closes_def)

lemma show_groups_text: "show_groups gs = group_text 0 gs"
proof -
  have "show_groups (g # gs) = show_nat 16 g @ group_text (Suc i) gs" for i g gs
    by (induction gs arbitrary: i g) auto
  then show ?thesis by (cases gs) simp_all
qed

lemma read_group_show:
  assumes "g < 65536" "closes s"
  shows "read_group i ((if 0 < i then '':'' else []) @ show_nat 16 g @ s) = Some (g, s)"
    and "read_separator (CHR '':'') i read_ipv4 ((if 0 < i then '':'' else []) @ show_nat 16 g @ s) = None"
proof -
  have "read_number 16 4 65536 True (show_nat 16 g @ s) = Some (g, s)"
    using read_number_show [of 16 g 65536 3 s True] assms closes_ends [of s] by simp
  then show "read_group i ((if 0 < i then '':'' else []) @ show_nat 16 g @ s) = Some (g, s)"
    by (simp add: read_group_def read_separator_def strip_char_def)
  have "CHR ''.'' \<notin> set (show_nat 16 g)"
    using show_nat_host [of 16 "CHR ''.''" g] by auto
  then have "read_ipv4 (show_nat 16 g @ s) = None"
    using read_ipv4_none no_dot_after assms(2) by blast
  then show "read_separator (CHR '':'') i read_ipv4 ((if 0 < i then '':'' else []) @ show_nat 16 g @ s) = None"
    by (simp add: read_separator_def strip_char_def)
qed

lemma read_groups_show:
  "length gs \<le> n \<Longrightarrow> \<forall>g\<in>set gs. g < 65536 \<Longrightarrow> closes s \<Longrightarrow>
   read_groups (n - length gs) (i + length gs) s = (gs', v4, r) \<Longrightarrow>
   read_groups n i (group_text i gs @ s) = (gs @ gs', v4, r)"
proof (induction gs arbitrary: n i)
  case Nil
  then show ?case by simp
next
  case (Cons g gs)
  then obtain m where n: "n = Suc m" by (cases n) auto
  have ih: "read_groups m (Suc i) (group_text (Suc i) gs @ s) = (gs @ gs', v4, r)"
    using Cons by (simp add: n)
  have cl: "closes (group_text (Suc i) gs @ s)"
    using Cons.prems(3) by (rule group_text_closes)
  have g: "g < 65536" using Cons.prems(2) by simp
  show ?case
    using read_group_show [OF g cl, of i] ih by (cases m) (auto simp: n)
qed

lemma read_groups_stop:
  "closes s \<Longrightarrow> (i = 0 \<or> s = [] \<or> closes (tl s)) \<Longrightarrow> read_groups n i s = ([], False, s)"
proof -
  assume s: "closes s" "i = 0 \<or> s = [] \<or> closes (tl s)"
  have none: "read_ipv4 t = None" "read_number 16 4 65536 True t = None" if "closes t" for t
    using that closes_ends [OF that] no_dot_after [of "[]" t] read_ipv4_none [of t]
    by (auto simp: read_number_def digit_run_def ends_def Let_def takeWhile_eq_Nil_iff)
  have "read_group i s = None \<and> read_separator (CHR '':'') i read_ipv4 s = None"
    using s none by (cases s) (auto simp: read_group_def read_separator_def strip_char_def)
  then show ?thesis by (cases n) simp_all
qed

subsection \<open>The compressed run of zeros\<close>

definition zero_run :: "nat list \<Rightarrow> nat \<times> nat \<Rightarrow> bool" where
  "zero_run xs r = (\<forall>j < snd r. fst r + j < length xs \<and> xs ! (fst r + j) = 0)"

lemma zero_span_run:
  assumes "zero_run (pre @ gs) longest" "zero_run pre current" "snd current = 0 \<or> fst current + snd current = length pre"
  shows "zero_run (pre @ gs) (zero_span (length pre) gs longest current)"
  using assms
proof (induction gs arbitrary: pre longest current)
  case Nil
  then show ?case by simp
next
  case (Cons g gs)
  note IH = Cons.IH [of "pre @ [g]"]
  show ?case
  proof (cases "g = 0")
    case True
    define cur where "cur = (if snd current = 0 then length pre else fst current, snd current + 1)"
    have cur: "zero_run (pre @ [g]) cur" "fst cur + snd cur = length (pre @ [g])"
      using Cons.prems(2,3) True by (auto simp: cur_def zero_run_def nth_append less_Suc_eq)
    then have "zero_run (pre @ g # gs) cur"
      by (auto simp: zero_run_def nth_append nth_Cons split: if_splits nat.splits)
    then have "zero_run (pre @ g # gs) (zero_span (Suc (length pre)) gs (if snd longest < snd cur then cur else longest) cur)"
      using IH [of "if snd longest < snd cur then cur else longest" cur] cur Cons.prems(1) by simp
    moreover have "zero_span (length pre) (g # gs) longest current =
        zero_span (Suc (length pre)) gs (if snd longest < snd cur then cur else longest) cur"
      using True by (simp add: cur_def Let_def)
    ultimately show ?thesis by simp
  next
    case False
    then show ?thesis using IH [of longest "(0, 0)"] Cons.prems(1) by (simp add: zero_run_def)
  qed
qed

lemma zero_span_split:
  assumes "zero_span 0 gs (0, 0) (0, 0) = (st, len)" "0 < len"
  shows "st + len \<le> length gs" "gs = take st gs @ replicate len 0 @ drop (st + len) gs"
proof -
  have run: "zero_run gs (st, len)"
    using zero_span_run [of "[]" gs "(0, 0)" "(0, 0)"] assms(1) by (simp add: zero_run_def)
  then have "st + (len - 1) < length gs"
    using assms(2) unfolding zero_run_def by (metis diff_less fst_conv snd_conv zero_less_one)
  then show le: "st + len \<le> length gs" using assms(2) by simp
  have "take len (drop st gs) = replicate len 0"
    using run le by (intro nth_equalityI) (auto simp: zero_run_def)
  then show "gs = take st gs @ replicate len 0 @ drop (st + len) gs"
    using append_take_drop_id [of st gs] append_take_drop_id [of len "drop st gs"] by (simp add: add.commute)
qed

lemma show_ffff: "show_nat 16 65535 = ''ffff''"
  by code_simp

lemma read_ipv6_mapped:
  assumes "length gs = 8" "\<forall>g\<in>set gs. g < 65536" "take 6 gs = [0, 0, 0, 0, 0, 65535]"
  shows "read_ipv6 (show_v6 gs) = Some (gs, [])"
proof -
  define x y where "x = gs ! 6" "y = gs ! 7"
  have gs: "gs = [0, 0, 0, 0, 0, 65535, x, y]"
    using append_take_drop_id [of 6 gs] assms(1,3)
    by (simp add: x_y_def Cons_nth_drop_Suc [symmetric])
  have xy: "x < 65536" "y < 65536" using assms(2) gs by simp_all
  define v where "v = show_v4 (x div 256) (x mod 256) (y div 256) (y mod 256)"
  have "read_ipv4 v = Some ((x div 256, x mod 256, y div 256, y mod 256), [])"
    using read_ipv4_show [of "x div 256" "x mod 256" "y div 256" "y mod 256" "[]"] xy
    by (simp add: v_def ends_def less_mult_imp_div_less)
  then have "read_groups 6 1 ('':'' @ v) = ([x, y], True, [])"
    using read_groups.simps(2) [of 5 1 "'':'' @ v"] by (simp add: read_separator_def strip_char_def)
  then have tail: "read_groups 7 0 (''ffff:'' @ v) = ([65535, x, y], True, [])"
    using read_groups_show [of "[65535]" 7 "'':'' @ v" 0 "[x, y]" True "[]"]
    by (simp add: closes_def show_ffff)
  have head: "read_groups 8 0 (''::ffff:'' @ v) = ([], False, ''::ffff:'' @ v)"
    by (rule read_groups_stop) (simp_all add: closes_def)
  have "show_v6 gs = ''::ffff:'' @ v" by (simp add: show_v6_def gs v_def)
  moreover have "replicate 5 (0 :: nat) = [0, 0, 0, 0, 0]" by (simp add: numeral_eq_Suc)
  ultimately show ?thesis using head tail by (simp add: read_ipv6_def strip_char_def gs)
qed

lemma read_ipv6_compressed:
  assumes "st + len \<le> 8" "1 < len" "length hd' = st" "length tl' = 8 - (st + len)"
    and "\<forall>g\<in>set hd'. g < 65536" "\<forall>g\<in>set tl'. g < 65536"
  shows "read_ipv6 (group_text 0 hd' @ ''::'' @ group_text 0 tl') = Some (hd' @ replicate len 0 @ tl', [])"
proof -
  define rest where "rest = ''::'' @ group_text 0 tl'"
  have "read_groups (8 - st) (0 + st) rest = ([], False, rest)"
    by (rule read_groups_stop) (simp_all add: rest_def closes_def)
  then have head: "read_groups 8 0 (group_text 0 hd' @ rest) = (hd', False, rest)"
    using read_groups_show [of hd' 8 rest 0 "[]" False rest] assms by (simp add: rest_def closes_def)
  have "read_groups (7 - st - length tl') (0 + length tl') [] = ([], False, [])"
    by (rule read_groups_stop) (simp_all add: closes_def)
  then have tail: "read_groups (7 - st) 0 (group_text 0 tl') = (tl', False, [])"
    using read_groups_show [of tl' "7 - st" "[]" 0 "[]" False "[]"] assms by (simp add: closes_def)
  have "8 - st - length tl' = len" using assms by simp
  then show ?thesis
    using head tail assms by (simp add: read_ipv6_def rest_def strip_char_def)
qed

lemma read_ipv6_show:
  assumes "length gs = 8" "\<forall>g\<in>set gs. g < 65536"
  shows "read_ipv6 (show_v6 gs) = Some (gs, [])"
proof (cases "take 6 gs = [0, 0, 0, 0, 0, 65535]")
  case True
  with assms show ?thesis by (rule read_ipv6_mapped)
next
  case plain: False
  obtain st len where z: "zero_span 0 gs (0, 0) (0, 0) = (st, len)" by fastforce
  show ?thesis
  proof (cases "1 < len")
    case True
    have split: "st + len \<le> 8" "gs = take st gs @ replicate len 0 @ drop (st + len) gs"
      using zero_span_split [OF z] True assms(1) by simp_all
    have "show_v6 gs = group_text 0 (take st gs) @ ''::'' @ group_text 0 (drop (st + len) gs)"
      using plain True by (simp add: show_v6_def z show_groups_text)
    moreover have "read_ipv6 (group_text 0 (take st gs) @ ''::'' @ group_text 0 (drop (st + len) gs)) =
        Some (take st gs @ replicate len 0 @ drop (st + len) gs, [])"
      using split(1) True assms by (intro read_ipv6_compressed) (auto dest: in_set_takeD in_set_dropD)
    ultimately show ?thesis using split(2) by simp
  next
    case False
    have "read_groups 8 0 (group_text 0 gs) = (gs, False, [])"
      using read_groups_show [of gs 8 "[]" 0 "[]" False "[]"] assms by (simp add: closes_def)
    then show ?thesis
      using plain False assms(1) by (simp add: show_v6_def z show_groups_text read_ipv6_def)
  qed
qed

lemma group_text_chars: "c \<in> set (group_text i gs) \<Longrightarrow> (host_char c \<and> c \<noteq> CHR ''.'') \<or> c = CHR '':''"
  using show_nat_host [of 16] by (induction gs arbitrary: i) (auto split: if_splits)

lemma show_v4_chars: "c \<in> set (show_v4 a b d e) \<Longrightarrow> host_char c"
  using show_nat_host [of 10] by (auto simp: show_v4_def host_char_def)

lemma show_v6_chars: "c \<in> set (show_v6 gs) \<Longrightarrow> host_char c \<or> c = CHR '':''"
  using group_text_chars show_v4_chars
  by (fastforce simp: show_v6_def show_groups_text host_char_def split: if_splits prod.splits)

lemma show_v6_not_v4:
  assumes "length gs = 8"
  shows "read_ipv4 (show_v6 gs) = None"
proof (rule read_ipv4_none)
  have none: "strip_char (CHR ''.'') (dropWhile (\<lambda>c. to_digit 10 c \<noteq> None) (group_text 0 hs @ s)) = None" if "closes s" for hs s
  proof (rule no_dot_after [OF _ that])
    show "CHR ''.'' \<notin> set (group_text 0 hs)" using group_text_chars by blast
  qed
  obtain st len where z: "zero_span 0 gs (0, 0) (0, 0) = (st, len)" by fastforce
  show "strip_char (CHR ''.'') (dropWhile (\<lambda>c. to_digit 10 c \<noteq> None) (show_v6 gs)) = None"
    using none [of "''::'' @ group_text 0 (drop (st + len) gs)" "take st gs"] none [of "[]" gs]
    by (auto simp: show_v6_def z show_groups_text closes_def endpoint_text strip_char_def)
qed

definition ip_ok :: "ip_addr \<Rightarrow> bool" where
  "ip_ok ip = (case ip of V4 _ _ _ _ \<Rightarrow> True | V6 gs \<Rightarrow> length gs = 8)"

fun show_ip :: "ip_addr \<Rightarrow> string" where
  "show_ip (V4 a b c d) = show_v4 (unat a) (unat b) (unat c) (unat d)"
| "show_ip (V6 gs) = show_v6 (map unat gs)"

lemma word_below: "unat (b :: u8) < 256" "unat (w :: u16) < 65536"
  using unsigned_less [of b, where ?'a = nat] unsigned_less [of w, where ?'a = nat] by simp_all

theorem parse_show_ip: "ip_ok ip \<Longrightarrow> parse_ip (show_ip ip) = Some ip"
proof (cases ip)
  case (V4 a b c d)
  then show ?thesis
    using read_ipv4_show [of "unat a" "unat b" "unat c" "unat d" "[]"]
    by (simp add: parse_ip_def ends_def word_below)
next
  case (V6 gs)
  assume "ip_ok ip"
  then show ?thesis
    using V6 read_ipv6_show [of "map unat gs"] show_v6_not_v4 [of "map unat gs"]
    by (simp add: parse_ip_def ip_ok_def word_below o_def)
qed

lemma read_groups_length: "length (fst (read_groups n i s)) \<le> n"
  by (induction n i s rule: read_groups.induct) (auto split: option.splits prod.splits)

lemma parse_ip_ok: "parse_ip s = Some ip \<Longrightarrow> ip_ok ip"
proof -
  have "length gs = 8" if "read_ipv6 s = Some (gs, r)" for gs r
    using that read_groups_length [of 8 0 s]
      read_groups_length [of "7 - length (fst (read_groups 8 0 s))" 0 "tl (tl (snd (snd (read_groups 8 0 s))))"]
    by (auto simp: read_ipv6_def strip_char_def split: prod.splits if_splits option.splits list.splits)
  then show "parse_ip s = Some ip \<Longrightarrow> ip_ok ip"
    by (auto simp: parse_ip_def ip_ok_def split: option.splits prod.splits if_splits)
qed

section \<open>Endpoints are read back\<close>

definition host_ok :: "host \<Rightarrow> bool" where
  "host_ok h = (case h of
     HIp ip \<Rightarrow> ip_ok ip
   | HName n \<Rightarrow> n \<noteq> [] \<and> list_all host_char n \<and> parse_ip n = None
   | HWildcard \<Rightarrow> True)"

definition path_ok :: "string \<Rightarrow> bool" where
  "path_ok p = (p \<noteq> [] \<and> hd p = CHR ''/'' \<and> char_of (13 :: nat) \<notin> set p \<and> char_of (10 :: nat) \<notin> set p)"

definition endpoint_ok :: "endpoint \<Rightarrow> bool" where
  "endpoint_ok e = (case e of
     Tcp h p \<Rightarrow> host_ok h
   | Ipc (Filesystem p) \<Rightarrow> p \<noteq> [] \<and> hd p \<noteq> CHR ''@''
   | Ipc (Abstract n) \<Rightarrow> n \<noteq> []
   | Inproc n \<Rightarrow> n \<noteq> []
   | Udp g h p \<Rightarrow> host_ok h \<and> (case g of None \<Rightarrow> True | Some g \<Rightarrow> g \<noteq> [] \<and> CHR ''@'' \<notin> set g)
   | Lz4Tcp h p \<Rightarrow> host_ok h
   | ZstdTcp h p \<Rightarrow> host_ok h
   | Ws h p path \<Rightarrow> host_ok h \<and> path_ok path
   | Wss h p path \<Rightarrow> host_ok h \<and> path_ok path
   | Lz4Ws h p path \<Rightarrow> host_ok h \<and> path_ok path)"

lemma until_app:
  "c \<notin> set a \<Longrightarrow> takeWhile (\<lambda>x. x \<noteq> c) (a @ c # b) = a"
  "c \<notin> set a \<Longrightarrow> dropWhile (\<lambda>x. x \<noteq> c) (a @ c # b) = c # b"
  by (induction a) auto

lemma split_at_app: "c \<notin> set a \<Longrightarrow> split_at c (a @ c # b) = Some (a, b)"
  by (simp add: split_at_def until_app)

lemma rsplit_at_app: "c \<notin> set b \<Longrightarrow> rsplit_at c (a @ c # b) = Some (a, b)"
  by (simp add: rsplit_at_def split_at_app)

lemma show_u16_chars: "c \<in> set (show_u16 p) \<Longrightarrow> host_char c"
  using show_nat_host [of 10] by (simp add: show_u16_def)

lemma show_ip_chars: "c \<in> set (show_ip ip) \<Longrightarrow> host_char c \<or> c = CHR '':''"
  using show_v4_chars show_v6_chars by (cases ip) auto

lemma show_host_port_chars:
  "host_ok h \<Longrightarrow> c \<in> set (show_host_port h p) \<Longrightarrow> host_char c \<or> c \<in> set ''[]:*''"
  using show_u16_chars show_v6_chars show_v4_chars
  by (cases h rule: show_host.cases) (auto simp: show_host_port_def host_ok_def list_all_iff)

lemma show_host_port_apart:
  assumes "host_ok h"
  shows "CHR ''/'' \<notin> set (show_host_port h p)" "CHR ''@'' \<notin> set (show_host_port h p)"
  using show_host_port_chars [OF assms, of "CHR ''/''" p] show_host_port_chars [OF assms, of "CHR ''@''" p]
  by (auto simp: endpoint_text)

lemma parse_host_show:
  assumes "host_ok h" "\<And>gs. h \<noteq> HIp (V6 gs)"
  shows "parse_host (show_host h) = Ok h" "strip_char (CHR ''['') (show_host h @ s) = None"
proof -
  have name: "n \<noteq> ''*'' \<and> CHR '':'' \<notin> set n \<and> strip_char (CHR ''['') (n @ s) = None"
    if "n \<noteq> []" "list_all host_char n" for n
    using that by (cases n) (auto simp: list_all_iff strip_char_def endpoint_text)
  have v4: "show_v4 a b c d \<noteq> [] \<and> list_all host_char (show_v4 a b c d)" for a b c d
    using show_v4_chars by (auto simp: list_all_iff show_v4_def)
  have "parse_host (show_host h) = Ok h \<and> strip_char (CHR ''['') (show_host h @ s) = None"
  proof (cases h rule: show_host.cases)
    case (1 a b c d)
    then show ?thesis
      using name v4 parse_show_ip [of "V4 a b c d"] by (simp add: parse_host_def ip_ok_def)
  next
    case (3 n)
    then show ?thesis using assms(1) name [of n] by (simp add: parse_host_def host_ok_def)
  next
    case 4
    then show ?thesis by (simp add: parse_host_def strip_char_def)
  qed (use assms(2) in blast)
  then show "parse_host (show_host h) = Ok h" "strip_char (CHR ''['') (show_host h @ s) = None" by simp_all
qed

theorem parse_show_host_port:
  assumes "host_ok h"
  shows "parse_host_port (show_host_port h p) = Ok (h, p)"
proof (cases "\<exists>gs. h = HIp (V6 gs)")
  case True
  then obtain gs where h: "h = HIp (V6 gs)" by blast
  have "split_at (CHR '']'') (show_v6 (map unat gs) @ CHR '']'' # CHR '':'' # show_u16 p) =
      Some (show_v6 (map unat gs), CHR '':'' # show_u16 p)"
    using show_v6_chars [of "CHR '']''"] by (intro split_at_app) (auto simp: endpoint_text)
  then show ?thesis
    using assms parse_show_ip [of "V6 gs"]
    by (simp add: h host_ok_def parse_host_port_def show_host_port_def strip_char_def parse_show_u16)
next
  case False
  have "CHR '':'' \<notin> set (show_u16 p)" "show_u16 p \<noteq> ''*''"
    using show_u16_chars [of "CHR '':''" p] show_u16_chars [of "CHR ''*''" p] by (auto simp: endpoint_text)
  then show ?thesis
    using parse_host_show(1) [OF assms] parse_host_show(2) [OF assms, where s = "CHR '':'' # show_u16 p"] False
    by (simp add: parse_host_port_def show_host_port_def rsplit_at_app parse_show_u16)
qed

lemma parse_show_ws:
  assumes "host_ok h" "path_ok path"
  shows "parse_ws (show_host_port h p @ path) tls = Ok (if tls then Wss h p path else Ws h p path)"
proof -
  obtain rest where path: "path = CHR ''/'' # rest" using assms(2) by (cases path) (auto simp: path_ok_def)
  have "takeWhile (\<lambda>c. c \<noteq> CHR ''/'') (show_host_port h p @ path) = show_host_port h p"
    "dropWhile (\<lambda>c. c \<noteq> CHR ''/'') (show_host_port h p @ path) = path"
    using show_host_port_apart(1) [OF assms(1), of p] path by (simp_all add: until_app)
  then show ?thesis
    using assms parse_show_host_port [OF assms(1), of p] path by (simp add: parse_ws_def path_ok_def)
qed

lemma parse_show_udp:
  assumes "endpoint_ok (Udp g h p)"
  shows "parse_udp ((case g of None \<Rightarrow> [] | Some g \<Rightarrow> g @ ''@'') @ show_host_port h p) = Ok (Udp g h p)"
proof -
  have h: "host_ok h" using assms by (simp add: endpoint_ok_def)
  show ?thesis
    using assms show_host_port_apart(2) [OF h, of p] parse_show_host_port [OF h, of p]
    by (cases g) (auto simp: parse_udp_def endpoint_ok_def split_at_app split_at_def [of _ "show_host_port h p"])
qed

theorem parse_show_endpoint:
  assumes "endpoint_ok e"
  shows "endpoint_from_str (show_endpoint e) = Ok e"
proof (cases e)
  case (Ipc q)
  then show ?thesis using assms
    by (cases q) (auto simp: endpoint_from_str_def endpoint_ok_def parse_ipc_def strip_char_def split: list.splits)
next
  case (Udp g h p)
  then show ?thesis using parse_show_udp [of g h p] assms by (cases g) (simp_all add: endpoint_from_str_def)
qed (use assms in \<open>simp_all add: endpoint_from_str_def endpoint_ok_def parse_show_host_port parse_show_ws parse_compressed_ws_def\<close>)

section \<open>What the parser accepts\<close>

lemma parse_host_port_ok: "parse_host_port s = Ok (h, p) \<Longrightarrow> host_ok h"
  by (auto simp: parse_host_port_def parse_host_def host_ok_def rbind_def
      dest: parse_ip_ok split: option.splits sum.splits prod.splits if_splits)

lemma parse_ws_ok:
  assumes "parse_ws s tls = Ok e"
  obtains h p path where "e = (if tls then Wss h p path else Ws h p path)" "host_ok h" "path_ok path"
proof -
  have "dropWhile (\<lambda>c. c \<noteq> CHR ''/'') s \<noteq> [] \<and> hd (dropWhile (\<lambda>c. c \<noteq> CHR ''/'') s) = CHR ''/''"
    if "CHR ''/'' \<in> set s"
    using that hd_dropWhile [of "\<lambda>c. c \<noteq> CHR ''/''" s] by (auto simp: dropWhile_eq_Nil_conv)
  then show thesis
    using assms that by (auto simp: parse_ws_def path_ok_def rbind_def Let_def dest!: parse_host_port_ok
        split: sum.splits prod.splits if_splits)
qed

lemma split_at_some: "split_at c s = Some (a, b) \<Longrightarrow> c \<notin> set a"
  by (auto simp: split_at_def split: if_splits dest: set_takeWhileD)

lemma if_okE: "(if b then x else y) = Ok e \<Longrightarrow> (b \<Longrightarrow> x = Ok e \<Longrightarrow> P) \<Longrightarrow> (\<not> b \<Longrightarrow> y = Ok e \<Longrightarrow> P) \<Longrightarrow> P"
  by (simp split: if_splits)

theorem endpoint_from_str_ok:
  assumes "endpoint_from_str s = Ok e"
  shows "endpoint_ok e"
proof -
  have ipc: "endpoint_ok (Ipc q)" if "parse_ipc r = Ok q" for r q
    using that by (auto simp: parse_ipc_def endpoint_ok_def strip_char_def split: if_splits option.splits list.splits)
  have udp: "endpoint_ok e" if "parse_udp r = Ok e" for r
    using that by (auto simp: parse_udp_def endpoint_ok_def rbind_def dest: parse_host_port_ok split_at_some
        split: option.splits sum.splits prod.splits if_splits)
  have ws: "endpoint_ok e" if "parse_ws r tls = Ok e" for r tls
    by (rule parse_ws_ok [OF that]) (simp add: endpoint_ok_def)
  have lz4: "endpoint_ok e" if "parse_compressed_ws r Lz4Ws = Ok e" for r
  proof (cases "parse_ws r False")
    case (Inr x)
    show ?thesis
      by (rule parse_ws_ok [OF Inr]) (use that Inr in \<open>auto simp: parse_compressed_ws_def endpoint_ok_def\<close>)
  qed (use that in \<open>simp add: parse_compressed_ws_def\<close>)
  have hp: "endpoint_ok e"
    if "rbind (parse_host_port r) (\<lambda>(h, p). Ok (K h p)) = Ok e" "\<And>h p. host_ok h \<Longrightarrow> endpoint_ok (K h p)" for r K
    using that by (auto simp: rbind_def dest: parse_host_port_ok split: sum.splits)
  have ipc': "endpoint_ok e" if "rbind (parse_ipc r) (\<lambda>p. Ok (Ipc p)) = Ok e" for r
    using that ipc by (auto simp: rbind_def split: sum.splits)
  note hosts = hp [of _ Tcp] hp [of _ Lz4Tcp] hp [of _ ZstdTcp]
  obtain scheme rest where split: "split_once ''://'' s = Some (scheme, rest)"
    using assms unfolding endpoint_from_str_def by (cases "split_once ''://'' s") auto
  show ?thesis
    using assms unfolding endpoint_from_str_def split option.case prod.case
    by - (elim if_okE; ((erule hosts ipc' udp ws lz4)?; auto simp: endpoint_ok_def))
qed

lemma spec_round_trip:
  assumes "spec_from_str s = Ok sp"
  shows "spec_from_str (show_spec sp) = Ok sp"
proof -
  have "endpoint_ok (es_endpoint sp)"
    using assms by (auto simp: spec_from_str_def rbind_def split: list.splits if_splits sum.splits dest!: endpoint_from_str_ok)
  then have parse: "endpoint_from_str (show_endpoint (es_endpoint sp)) = Ok (es_endpoint sp)"
    by (rule parse_show_endpoint)
  have plain: "spec_from_str (show_endpoint e) = rbind (endpoint_from_str (show_endpoint e)) (\<lambda>e. Ok \<lparr>es_role = RDefault, es_endpoint = e\<rparr>)" for e
    by (cases e rule: show_endpoint.cases) (simp_all add: spec_from_str_def)
  show ?thesis
  proof (cases "es_role sp")
    case RDefault
    then show ?thesis by (simp add: show_spec_def plain parse)
  qed (simp_all add: show_spec_def spec_from_str_def parse)
qed

text \<open>
  C39. An endpoint string survives printing: what the parser accepted, printed and parsed
  again, is the same endpoint, and likewise for a specification with its bind or connect
  prefix. The endpoints that the parser can produce are exactly the well-formed ones, so
  every endpoint with a legal host, path and group has a text that reads back to it,
  whatever its IPv4 or IPv6 address.
\<close>

theorem endpoint_round_trip:
  "(endpoint_from_str s = Ok e \<longrightarrow> endpoint_from_str (show_endpoint e) = Ok e) \<and>
   (spec_from_str t = Ok sp \<longrightarrow> spec_from_str (show_spec sp) = Ok sp) \<and>
   (endpoint_ok e \<longleftrightarrow> (\<exists>s. endpoint_from_str s = Ok e))"
  using endpoint_from_str_ok parse_show_endpoint spec_round_trip by blast

theorem endpoint_round_trip_witness:
  "endpoint_from_str ''lz4+ws://[2001:0DB8:0::0:0001]:5555/zmq'' =
     Ok (Lz4Ws (HIp (V6 [8193, 3512, 0, 0, 0, 0, 0, 1])) 5555 ''/zmq'') \<and>
   endpoint_from_str (show_endpoint (Lz4Ws (HIp (V6 [8193, 3512, 0, 0, 0, 0, 0, 1])) 5555 ''/zmq'')) =
     Ok (Lz4Ws (HIp (V6 [8193, 3512, 0, 0, 0, 0, 0, 1])) 5555 ''/zmq'') \<and>
   spec_from_str ''@udp://grp@*:9'' = Ok \<lparr>es_role = RBind, es_endpoint = Udp (Some ''grp'') HWildcard 9\<rparr> \<and>
   spec_from_str (show_spec \<lparr>es_role = RBind, es_endpoint = Udp (Some ''grp'') HWildcard 9\<rparr>) =
     Ok \<lparr>es_role = RBind, es_endpoint = Udp (Some ''grp'') HWildcard 9\<rparr>"
proof -
  have a: "endpoint_from_str ''lz4+ws://[2001:0DB8:0::0:0001]:5555/zmq'' =
      Ok (Lz4Ws (HIp (V6 [8193, 3512, 0, 0, 0, 0, 0, 1])) 5555 ''/zmq'')"
    by code_simp
  have b: "spec_from_str ''@udp://grp@*:9'' = Ok \<lparr>es_role = RBind, es_endpoint = Udp (Some ''grp'') HWildcard 9\<rparr>"
    by code_simp
  show ?thesis
    using a b endpoint_round_trip by blast
qed

section \<open>Wrapped schemes\<close>

text \<open>
  A compressed endpoint is bound through its plain counterpart and then gets its scheme
  back, with the address that the transport resolved.
\<close>

lemma underlying_plain:
  "is_tcp_family e \<Longrightarrow> \<exists>h p. underlying_tcp e = Tcp h p"
  "is_ws_family e \<Longrightarrow> \<exists>h p path. underlying_ws e = Ws h p path \<or> underlying_ws e = Wss h p path"
  by (auto simp: is_tcp_family_def underlying_tcp_def is_ws_family_def underlying_ws_def split: endpoint.splits)

lemma rewrap_underlying: "rewrap_tcp e (underlying_tcp e) = e" "rewrap_ws e (underlying_ws e) = e"
  by (auto simp: rewrap_tcp_def underlying_tcp_def rewrap_ws_def underlying_ws_def split: endpoint.splits)

lemma rewrap_scheme:
  "is_tcp_family e \<Longrightarrow> endpoint_scheme (rewrap_tcp e (Tcp h p)) = endpoint_scheme e \<and>
     underlying_tcp (rewrap_tcp e (Tcp h p)) = Tcp h p"
  by (auto simp: is_tcp_family_def rewrap_tcp_def underlying_tcp_def endpoint_scheme_def split: endpoint.splits)

lemma show_endpoint_scheme: "\<exists>rest. split_once ''://'' (show_endpoint e) = Some (endpoint_scheme e, rest)"
  by (cases e rule: show_endpoint.cases) (simp_all add: endpoint_scheme_def)

text \<open>Inproc takes the NULL mechanism only; every other transport takes any.\<close>

lemma reject_encrypted_inproc_exact:
  "reject_encrypted_inproc e m = Ok () \<longleftrightarrow> (endpoint_scheme e = ''inproc'' \<longrightarrow> m = SetupNull)"
  by (cases e; cases m) (simp_all add: reject_encrypted_inproc_def endpoint_scheme_def)

section \<open>Edges of the grammar\<close>

text \<open>
  The unspecified addresses parse to addresses, not to the wildcard host, and only the
  unbracketed form takes the wildcard port.
\<close>

lemma unspecified_is_ip:
  "endpoint_from_str ''tcp://0.0.0.0:1'' = Ok (Tcp (HIp (V4 0 0 0 0)) 1)"
  "endpoint_from_str ''tcp://[::]:1'' = Ok (Tcp (HIp (V6 [0, 0, 0, 0, 0, 0, 0, 0])) 1)"
  "endpoint_from_str ''tcp://*:1'' = Ok (Tcp HWildcard 1)"
  by code_simp+

lemma bracketed_wildcard_port:
  "endpoint_from_str ''tcp://127.0.0.1:*'' = Ok (Tcp (HIp (V4 127 0 0 1)) 0)"
  "endpoint_from_str ''tcp://[::1]:*'' = Err (InvalidEndpoint ''missing port in [::1]:*'')"
  by code_simp+

end
