(* ===== verification/Transform.thy ===== *)
theory Transform
  imports Lz4 Zstd Endpoint
begin

text \<open>
  The message transforms as the connection layer sees them
  (\<^verbatim>\<open>omq-proto/src/proto/transform/mod.rs\<close>): the encoder and decoder that a compression kind
  and the options give, their dispatch, and the encoders of the offload pool.  The
  contract \<open>message_transform\<close> is interpreted on them, so that whole conversations
  are delivered.  Both compression features are on.
\<close>

section \<open>Encoders and decoders\<close>

datatype compression_kind = KLz4 | KZstd

datatype ('c, 'k, 't, 'y) message_encoder =
    EncLz4 "('c, 'k, 't) lz4_encoder"
  | EncZstd "'y zstd_encoder"

datatype ('d, 'z) message_decoder =
    DecLz4 "'d lz4_decoder"
  | DecZstd "'z zstd_decoder"

text \<open>The fields of \<^verbatim>\<open>Options\<close> that the transforms read.\<close>

record compression_options =
  op_compression_dict :: "bytes option"
  op_compression_auto_train :: bool
  op_compression_dict_capacity :: "nat option"
  op_compression_threshold :: "nat option"
  op_compression_level :: "int option"
  op_max_message_size :: "nat option"
  op_max_recv_dict_size :: "nat option"

definition passthrough_info :: "('c, 'k, 't, 'y) message_encoder \<Rightarrow> (bytes \<times> nat) option" where
  "passthrough_info enc = map_option (\<lambda>t. ([0, 0, 0, 0], t))
     (case enc of EncLz4 e \<Rightarrow> lz4_passthrough_threshold e | EncZstd e \<Rightarrow> zstd_passthrough_threshold e)"

definition build_lz4 :: "('c, 'k, 'd, 't) lz4rip \<Rightarrow> compression_options \<Rightarrow>
    (('c, 'k, 't, 'y) message_encoder \<times> ('d, 'z) message_decoder) result" where
  "build_lz4 lz op =
     rbind (case op_compression_dict op of
         Some d \<Rightarrow> lz4_with_send_dict lz d
       | None \<Rightarrow>
           let e = lz4_encoder_new lz;
               e = (if op_compression_auto_train op then lz4_with_auto_train lz e else e)
           in Ok (case op_compression_dict_capacity op of Some c \<Rightarrow> lz4_with_dict_capacity lz e c | None \<Rightarrow> e))
     (\<lambda>enc. let enc = lz4_with_max_message_size enc (op_max_message_size op);
                enc = (case op_compression_threshold op of Some t \<Rightarrow> lz4_with_threshold enc t | None \<Rightarrow> enc);
                dec = lz4_decoder_with_max_message_size lz4_decoder_new (op_max_message_size op);
                dec = (case op_max_recv_dict_size op of Some m \<Rightarrow> lz4_with_max_recv_dict_size dec m | None \<Rightarrow> dec)
            in Ok (EncLz4 enc, DecLz4 dec))"

definition build_zstd :: "('x, 'y, 'z) zrip \<Rightarrow> compression_options \<Rightarrow>
    (('c, 'k, 't, 'y) message_encoder \<times> ('d, 'z) message_decoder) result" where
  "build_zstd zs op =
     rbind (case op_compression_dict op of
         Some d \<Rightarrow> zstd_with_send_dict zs d
       | None \<Rightarrow>
           let e = zstd_encoder_new;
               e = (if op_compression_auto_train op then zstd_with_auto_train e else e)
           in Ok (case op_compression_dict_capacity op of Some c \<Rightarrow> zstd_with_dict_capacity e c | None \<Rightarrow> e))
     (\<lambda>enc. let enc = zstd_with_max_message_size enc (op_max_message_size op);
                enc = (case op_compression_threshold op of Some t \<Rightarrow> zstd_with_threshold enc t | None \<Rightarrow> enc);
                enc = (case op_compression_level op of Some l \<Rightarrow> zstd_with_level enc l | None \<Rightarrow> enc);
                dec = zstd_decoder_with_max_message_size (zstd_decoder_new zs) (op_max_message_size op);
                dec = (case op_max_recv_dict_size op of Some m \<Rightarrow> zstd_with_max_recv_dict_size dec m | None \<Rightarrow> dec)
            in Ok (EncZstd enc, DecZstd dec))"

definition for_compression_kind :: "('c, 'k, 'd, 't) lz4rip \<Rightarrow> ('x, 'y, 'z) zrip \<Rightarrow> compression_kind \<Rightarrow> compression_options \<Rightarrow>
    (('c, 'k, 't, 'y) message_encoder \<times> ('d, 'z) message_decoder) result" where
  "for_compression_kind lz zs kind op = (case kind of KLz4 \<Rightarrow> build_lz4 lz op | KZstd \<Rightarrow> build_zstd zs op)"

definition compression_for_endpoint :: "endpoint \<Rightarrow> compression_kind option" where
  "compression_for_endpoint e = (case e of
     Lz4Tcp _ _ \<Rightarrow> Some KLz4 | Lz4Ws _ _ _ \<Rightarrow> Some KLz4 | ZstdTcp _ _ \<Rightarrow> Some KZstd | _ \<Rightarrow> None)"

definition tcp_endpoint :: "compression_kind \<Rightarrow> host \<Rightarrow> u16 \<Rightarrow> endpoint" where
  "tcp_endpoint kind h p = (case kind of KLz4 \<Rightarrow> Lz4Tcp h p | KZstd \<Rightarrow> ZstdTcp h p)"

definition encoder_for_endpoint :: "('c, 'k, 'd, 't) lz4rip \<Rightarrow> ('x, 'y, 'z) zrip \<Rightarrow> endpoint \<Rightarrow> compression_options \<Rightarrow>
    (('c, 'k, 't, 'y) message_encoder \<times> ('d, 'z) message_decoder) option result" where
  "encoder_for_endpoint lz zs e op = (case compression_for_endpoint e of
     None \<Rightarrow> Ok None
   | Some kind \<Rightarrow> rbind (for_compression_kind lz zs kind op) (\<lambda>p. Ok (Some p)))"

text \<open>A transform is chosen exactly for the endpoints whose scheme wraps another one.\<close>

lemma compression_for_endpoint_exact:
  "compression_for_endpoint e = None \<longleftrightarrow> underlying_tcp e = e \<and> underlying_ws e = e"
  "compression_for_endpoint (tcp_endpoint kind h p) = Some kind"
  "is_tcp_family (tcp_endpoint kind h p)"
  by (auto simp: compression_for_endpoint_def underlying_tcp_def underlying_ws_def tcp_endpoint_def is_tcp_family_def
      split: endpoint.splits compression_kind.splits)

definition message_encode :: "('c, 'k, 'd, 't) lz4rip \<Rightarrow> ('x, 'y, 'z) zrip \<Rightarrow> u32 \<Rightarrow> ('c, 'k, 't, 'y) message_encoder \<Rightarrow> message \<Rightarrow>
    ('c, 'k, 't, 'y) message_encoder \<times> message list result" where
  "message_encode lz zs rnd enc msg = (case enc of
     EncLz4 e \<Rightarrow> (case lz4_encode lz e msg of (e, r) \<Rightarrow> (EncLz4 e, r))
   | EncZstd e \<Rightarrow> (case zstd_encode zs rnd e msg of (e, r) \<Rightarrow> (EncZstd e, r)))"

definition message_decode :: "('c, 'k, 'd, 't) lz4rip \<Rightarrow> ('x, 'y, 'z) zrip \<Rightarrow> ('d, 'z) message_decoder \<Rightarrow> message \<Rightarrow>
    ('d, 'z) message_decoder \<times> message option result" where
  "message_decode lz zs dec msg = (case dec of
     DecLz4 d \<Rightarrow> (case lz4_decode lz d msg of (d, r) \<Rightarrow> (DecLz4 d, r))
   | DecZstd d \<Rightarrow> (case zstd_decode zs d msg of (d, r) \<Rightarrow> (DecZstd d, r)))"

definition take_leading_dict_shipment :: "message list \<Rightarrow> message list \<times> message option" where
  "take_leading_dict_shipment out = (case out of
     [] \<Rightarrow> (out, None)
   | m # rest \<Rightarrow> if lz4_is_dict_shipment m then (rest, Some m)
                 else if zstd_is_dict_shipment m then (rest, Some m)
                 else (out, None))"

definition can_offload :: "('c, 'k, 't, 'y) message_encoder \<Rightarrow> bool" where
  "can_offload enc = (case enc of EncLz4 e \<Rightarrow> lz4_can_offload e | EncZstd e \<Rightarrow> zstd_can_offload e)"

definition new_offload :: "('c, 'k, 'd, 't) lz4rip \<Rightarrow> ('c, 'k, 't, 'y) message_encoder \<Rightarrow> ('c, 'k, 't, 'y) message_encoder" where
  "new_offload lz enc = (case enc of EncLz4 e \<Rightarrow> EncLz4 (lz4_new_offload lz e) | EncZstd e \<Rightarrow> EncZstd (zstd_new_offload e))"

definition sync_dict :: "('c, 'k, 'd, 't) lz4rip \<Rightarrow> bool \<Rightarrow> ('c, 'k, 't, 'y) message_encoder \<Rightarrow> ('c, 'k, 't, 'y) message_encoder \<Rightarrow>
    ('c, 'k, 't, 'y) message_encoder" where
  "sync_dict lz same_ptr enc primary = (case (enc, primary) of
     (EncLz4 me, EncLz4 p) \<Rightarrow> EncLz4 (lz4_sync_dict lz me p)
   | (EncZstd me, EncZstd p) \<Rightarrow> EncZstd (zstd_sync_dict same_ptr me p)
   | _ \<Rightarrow> enc)"

definition variant_matches :: "('c, 'k, 't, 'y) message_encoder \<Rightarrow> ('c, 'k, 't, 'y) message_encoder \<Rightarrow> bool" where
  "variant_matches a b = (case (a, b) of (EncLz4 _, EncLz4 _) \<Rightarrow> True | (EncZstd _, EncZstd _) \<Rightarrow> True | _ \<Rightarrow> False)"

section \<open>The contract, interpreted\<close>

text \<open>
  \<open>crates_ok\<close> collects what the two crates promise, with the invariants of their
  states.
\<close>

record ('c, 'k, 't, 'y, 'z) crate_invariants =
  ci_c :: "'c \<Rightarrow> bool"
  ci_k :: "bytes \<Rightarrow> 'k \<Rightarrow> bool"
  ci_t :: "nat \<Rightarrow> 't \<Rightarrow> bool"
  ci_level :: "int \<Rightarrow> bool"
  ci_y :: "bytes option \<Rightarrow> 'y \<Rightarrow> bool"
  ci_z :: "bytes option \<Rightarrow> 'z \<Rightarrow> bool"

definition crates_ok :: "('c, 'k, 'd, 't) lz4rip \<Rightarrow> ('x, 'y, 'z) zrip \<Rightarrow> ('c, 'k, 't, 'y, 'z) crate_invariants \<Rightarrow> bool" where
  "crates_ok lz zs ci \<longleftrightarrow> lz4rip_laws lz (ci_c ci) (ci_k ci) (ci_t ci) \<and> zrip_laws zs (ci_level ci) (ci_y ci) (ci_z ci)"

definition transform_in_step :: "('c, 'k, 'd, 't) lz4rip \<Rightarrow> ('x, 'y, 'z) zrip \<Rightarrow> ('c, 'k, 't, 'y, 'z) crate_invariants \<Rightarrow>
    ('c, 'k, 't, 'y) message_encoder \<Rightarrow> ('d, 'z) message_decoder \<Rightarrow> bool" where
  "transform_in_step lz zs ci enc dec \<longleftrightarrow> crates_ok lz zs ci \<and> (case (enc, dec) of
     (EncLz4 e, DecLz4 d) \<Rightarrow> lz4_in_step lz (ci_c ci) (ci_k ci) (ci_t ci) e d
   | (EncZstd e, DecZstd d) \<Rightarrow> zstd_in_step zs (ci_level ci) (ci_y ci) (ci_z ci) e d
   | _ \<Rightarrow> False)"

definition transform_fits :: "('d, 'z) message_decoder \<Rightarrow> message \<Rightarrow> bool" where
  "transform_fits dec m = (case dec of DecLz4 d \<Rightarrow> lz4_fits d m | DecZstd d \<Rightarrow> zstd_fits d m)"

lemma decode_each_lz4:
  "decode_each (message_decode lz zs) (DecLz4 d) ws = (case decode_each (lz4_decode lz) d ws of (d', r) \<Rightarrow> (DecLz4 d', r))"
  by (induction ws arbitrary: d) (auto simp: message_decode_def split: prod.splits sum.splits)

lemma decode_each_zstd:
  "decode_each (message_decode lz zs) (DecZstd d) ws = (case decode_each (zstd_decode zs) d ws of (d', r) \<Rightarrow> (DecZstd d', r))"
  by (induction ws arbitrary: d) (auto simp: message_decode_def split: prod.splits sum.splits)

lemma transform_deliver:
  assumes "transform_in_step lz zs ci e d" "transform_fits d m"
  shows "\<exists>e' out d' m'. message_encode lz zs r e m = (e', Ok out) \<and>
    decode_each (message_decode lz zs) d out = (d', Ok [m']) \<and> parts m' = parts m \<and>
    transform_in_step lz zs ci e' d' \<and> transform_fits d' = transform_fits d"
proof -
  consider (lz) le ld where "e = EncLz4 le" "d = DecLz4 ld" | (zs) ze zd where "e = EncZstd ze" "d = DecZstd zd"
    using assms(1) by (cases e; cases d) (auto simp: transform_in_step_def)
  then show ?thesis
  proof cases
    case lz
    have "lz4rip_laws lz (ci_c ci) (ci_k ci) (ci_t ci)" "lz4_in_step lz (ci_c ci) (ci_k ci) (ci_t ci) le ld" "lz4_fits ld m"
      using assms lz by (simp_all add: transform_in_step_def crates_ok_def transform_fits_def)
    from lz4_deliver [OF this] obtain e' out d' m' where
      "lz4_encode lz le m = (e', Ok out)" "decode_each (lz4_decode lz) ld out = (d', Ok [m'])" "parts m' = parts m"
      "lz4_in_step lz (ci_c ci) (ci_k ci) (ci_t ci) e' d'" "lz4_fits d' = lz4_fits ld"
      by (elim exE conjE) (rule that; assumption)
    then show ?thesis using assms(1)
      by (intro exI [of _ "EncLz4 e'"] exI [of _ out] exI [of _ "DecLz4 d'"] exI [of _ m'])
        (simp add: lz message_encode_def decode_each_lz4 transform_in_step_def transform_fits_def fun_eq_iff)
  next
    case zs
    have "zrip_laws zs (ci_level ci) (ci_y ci) (ci_z ci)" "zstd_in_step zs (ci_level ci) (ci_y ci) (ci_z ci) ze zd" "zstd_fits zd m"
      using assms zs by (simp_all add: transform_in_step_def crates_ok_def transform_fits_def)
    from zstd_deliver [OF this, of r] obtain e' out d' m' where
      "zstd_encode zs r ze m = (e', Ok out)" "decode_each (zstd_decode zs) zd out = (d', Ok [m'])" "parts m' = parts m"
      "zstd_in_step zs (ci_level ci) (ci_y ci) (ci_z ci) e' d'" "zstd_fits d' = zstd_fits zd"
      by (elim exE conjE) (rule that; assumption)
    then show ?thesis using assms(1)
      by (intro exI [of _ "EncZstd e'"] exI [of _ out] exI [of _ "DecZstd d'"] exI [of _ m'])
        (simp add: zs message_encode_def decode_each_zstd transform_in_step_def transform_fits_def fun_eq_iff)
  qed
qed

interpretation transforms: message_transform "message_encode lz zs" "message_decode lz zs" "transform_in_step lz zs ci"
  "\<lambda>_. transform_fits" for lz zs ci
  by unfold_locales (rule transform_deliver)

section \<open>Construction and the offload pool\<close>

definition dict_need :: "compression_options \<Rightarrow> nat" where
  "dict_need op = (case op_compression_dict op of
     Some d \<Rightarrow> length d
   | None \<Rightarrow> if op_compression_auto_train op
       then (case op_compression_dict_capacity op of Some c \<Rightarrow> min c 8192 | None \<Rightarrow> 2048) else 0)"

definition dict_limit :: "compression_kind \<Rightarrow> compression_options \<Rightarrow> nat" where
  "dict_limit kind op = (case op_max_recv_dict_size op of
     None \<Rightarrow> 8192 | Some m \<Rightarrow> (case kind of KLz4 \<Rightarrow> m | KZstd \<Rightarrow> min m 8192))"

definition part_limit :: "compression_kind \<Rightarrow> nat" where
  "part_limit kind = (case kind of KLz4 \<Rightarrow> isize_max | KZstd \<Rightarrow> MAX_DECOMPRESSED_SIZE)"

definition compressed_fits :: "compression_kind \<Rightarrow> compression_options \<Rightarrow> message \<Rightarrow> bool" where
  "compressed_fits kind op m \<longleftrightarrow> (\<forall>p \<in> set (parts m). length p \<le> part_limit kind) \<and>
     covers (op_max_message_size op) (sum_list (map length (parts m)))"

definition op_level :: "compression_options \<Rightarrow> int" where
  "op_level op = (case op_compression_level op of Some l \<Rightarrow> l | None \<Rightarrow> ZSTD_DEFAULT_LEVEL)"

lemmas lz4_builders = lz4_with_send_dict_def lz4_encoder_new_def lz4_with_auto_train_def lz4_with_dict_capacity_def
  lz4_with_max_message_size_def lz4_with_threshold_def lz4_decoder_with_max_message_size_def lz4_decoder_new_def
  lz4_with_max_recv_dict_size_def

lemmas zstd_builders = zstd_with_send_dict_def zstd_encoder_new_def zstd_with_auto_train_def zstd_with_dict_capacity_def
  zstd_with_max_message_size_def zstd_with_threshold_def zstd_with_level_def zstd_decoder_with_max_message_size_def
  zstd_decoder_new_def zstd_with_max_recv_dict_size_def

lemmas dict_sizes = LZ4_MAX_DICT_BYTES_def LZ4_DEFAULT_DICT_CAPACITY_def ZSTD_MAX_DICT_BYTES_def ZSTD_DEFAULT_DICT_CAPACITY_def

lemma build_lz4_decoder:
  assumes "build_lz4 lz op = Ok (enc, dec)"
  shows "dec = DecLz4 \<lparr>ld_decompressor = None, ld_max_message_size = op_max_message_size op,
    ld_block_size = LZ4M_BLOCK_SIZE, ld_max_recv_dict_size = dict_limit KLz4 op\<rparr>"
  using assms by (cases "op_max_recv_dict_size op")
    (auto simp: build_lz4_def rbind_Ok_iff lz4_builders dict_limit_def dict_sizes Let_def)

lemma build_zstd_decoder:
  assumes "build_zstd zs op = Ok (enc, dec)"
  shows "dec = DecZstd \<lparr>zd_recv_dict = None, zd_max_message_size = op_max_message_size op,
    zd_max_recv_dict_size = dict_limit KZstd op, zd_dctx = zr_decompress_new zs\<rparr>"
  using assms by (cases "op_max_recv_dict_size op")
    (auto simp: build_zstd_def rbind_Ok_iff zstd_builders dict_limit_def dict_sizes Let_def)

lemma build_lz4_in_step:
  assumes "crates_ok lz zs ci" "build_lz4 lz opA = Ok (enc, decA)" "build_lz4 lz opB = Ok (encB, dec)"
    and "dict_need opA \<le> dict_limit KLz4 opB"
  shows "transform_in_step lz zs ci enc dec \<and> transform_fits dec = compressed_fits KLz4 opB"
proof -
  have laws: "ci_c ci (lz_new lz)" "ci_k ci d (lz_dict_new lz d)" "ci_t ci cap (lz_trainer lz cap)" for d cap
    using assms(1) by (simp_all add: crates_ok_def lz4rip_laws_def)
  obtain ld where ld: "dec = DecLz4 ld" "ld_decompressor ld = None" "ld_max_message_size ld = op_max_message_size opB"
    "ld_block_size ld = LZ4M_BLOCK_SIZE" "ld_max_recv_dict_size ld = dict_limit KLz4 opB"
    by (rule that [OF build_lz4_decoder [OF assms(3)]]) simp_all
  obtain le where le: "enc = EncLz4 le" "le_block_size le = LZ4M_BLOCK_SIZE" "\<not> le_send_dict_shipped le"
    "comp_ok (ci_c ci) (ci_k ci) (le_send_dict le) (le_compressor le)"
    "\<forall>dict. le_send_dict le = Some dict \<longrightarrow> dict \<noteq> [] \<and> length dict \<le> dict_need opA"
    "\<forall>t. le_trainer le = Some t \<longrightarrow> ci_t ci (le_dict_capacity le) t \<and> le_dict_capacity le \<le> dict_need opA \<and> le_send_dict le = None"
    using assms(2) laws
    by (auto simp: build_lz4_def rbind_Ok_iff validate_dict_Ok lz4_builders dict_need_def dict_sizes Let_def
        split: option.splits if_splits)
  have "lz4_in_step lz (ci_c ci) (ci_k ci) (ci_t ci) le ld"
    using le ld assms(4) by (auto simp: lz4_in_step_def LZ4M_BLOCK_SIZE_def i32_max_def intro: order_trans)
  then show ?thesis using assms(1) le(1) ld
    by (simp add: transform_in_step_def fun_eq_iff transform_fits_def compressed_fits_def lz4_fits_def part_limit_def)
qed

lemma build_zstd_in_step:
  assumes "crates_ok lz zs ci" "build_zstd zs opA = Ok (enc, decA)" "build_zstd zs opB = Ok (encB, dec)"
    and "dict_need opA \<le> dict_limit KZstd opB" "ci_level ci (op_level opA)"
  shows "transform_in_step lz zs ci enc dec \<and> transform_fits dec = compressed_fits KZstd opB"
proof -
  have laws: "ci_z ci None (zr_decompress_new zs)" using assms(1) by (simp add: crates_ok_def zrip_laws_def)
  obtain zd where zd: "dec = DecZstd zd" "zd_recv_dict zd = None" "zd_max_message_size zd = op_max_message_size opB"
    "zd_max_recv_dict_size zd = dict_limit KZstd opB" "zd_dctx zd = zr_decompress_new zs"
    by (rule that [OF build_zstd_decoder [OF assms(3)]]) simp_all
  obtain ze where ze: "enc = EncZstd ze" "\<not> ze_send_dict_shipped ze" "ze_cctx ze = None" "ze_level ze = op_level opA"
    "\<forall>dict. ze_send_dict ze = Some dict \<longrightarrow> zr_from_bytes zs dict \<noteq> None \<and> 4 \<le> length dict \<and> take 4 dict = ZDICT_MAGIC \<and>
       length dict \<le> dict_need opA"
    "ze_train ze \<noteq> None \<longrightarrow> ze_send_dict ze = None \<and> min (ze_dict_capacity ze) ZSTD_MAX_DICT_BYTES \<le> dict_need opA"
    using assms(2)
    by (cases "op_compression_level opA"; cases "op_compression_threshold opA"; cases "op_compression_dict opA")
      (auto simp: build_zstd_def rbind_Ok_iff validate_dict_Ok zstd_builders dict_need_def dict_sizes op_level_def Let_def
        split: option.splits if_splits)
  have "zstd_in_step zs (ci_level ci) (ci_y ci) (ci_z ci) ze zd"
    using ze zd assms(4,5) laws by (auto simp: zstd_in_step_def cctx_ok_def intro: order_trans)
  then show ?thesis using assms(1) ze(1) zd
    by (simp add: transform_in_step_def fun_eq_iff transform_fits_def compressed_fits_def zstd_fits_def part_limit_def)
qed

lemma new_offload_in_step:
  assumes "transform_in_step lz zs ci enc dec" "can_offload enc"
  shows "transform_in_step lz zs ci (new_offload lz enc) dec"
proof (cases enc; cases dec)
  fix e d assume ed: "enc = EncLz4 e" "dec = DecLz4 d"
  have "ci_c ci (lz_new lz)" "ci_k ci x (lz_dict_new lz x)" for x
    using assms(1) by (simp_all add: transform_in_step_def crates_ok_def lz4rip_laws_def)
  then show ?thesis using assms ed
    by (auto simp: transform_in_step_def lz4_in_step_def can_offload_def lz4_can_offload_def new_offload_def
        lz4_new_offload_def split: option.splits)
next
  fix e d assume ed: "enc = EncZstd e" "dec = DecZstd d"
  then show ?thesis using assms
    by (auto simp: transform_in_step_def zstd_in_step_def cctx_ok_def can_offload_def zstd_can_offload_def new_offload_def
        zstd_new_offload_def)
qed (use assms in \<open>simp_all add: transform_in_step_def\<close>)

lemma decoded_not_shipment:
  assumes "message_decode lz zs dec w = (dec', Ok (Some m))"
  shows "\<not> lz4_is_dict_shipment w \<and> \<not> zstd_is_dict_shipment w"
proof (rule ccontr)
  assume "\<not> ?thesis"
  then obtain rest where r: "parts w = [SENTINEL_LZ4D @ rest] \<or> parts w = [ZDICT_MAGIC @ rest]"
    by (cases "parts w") (auto simp: lz4_is_dict_shipment_def zstd_is_dict_shipment_def view_simps prefix_def)
  then obtain p where p: "into_parts_payload w = [p]" "payload_as_slice p = SENTINEL_LZ4D @ rest \<or> payload_as_slice p = ZDICT_MAGIC @ rest"
    using parts_payload_view [of w] by (auto simp: into_parts_payload_eq)
  have "ZDICT_MAGIC \<noteq> SENTINEL_LZ4B" "ZDICT_MAGIC \<noteq> SENTINEL_LZ4M" "ZDICT_MAGIC \<noteq> SENTINEL_LZ4D" "SENTINEL_LZ4D \<noteq> ZSTD_MAGIC"
    by (simp_all add: sentinel_defs ZDICT_MAGIC_def ZSTD_MAGIC_def wire_eval)
  then show False using assms p
    by (cases dec) (auto simp: message_decode_def lz4_decode_def zstd_decode_def Let_def view_simps
        split: prod.splits if_splits sum.splits option.splits)
qed

text \<open>
  An encoder of the pool, made from an earlier state of the connection's encoder,
  is brought up to date with \<^verbatim>\<open>sync_dict\<close> before it is used.
\<close>

definition pool_of :: "('c, 'k, 'd, 't) lz4rip \<Rightarrow> ('x, 'y, 'z) zrip \<Rightarrow> ('c, 'k, 't, 'y, 'z) crate_invariants \<Rightarrow>
    ('c, 'k, 't, 'y) message_encoder \<Rightarrow> ('c, 'k, 't, 'y) message_encoder \<Rightarrow> bool" where
  "pool_of lz zs ci pool primary = (case (pool, primary) of
     (EncLz4 o', EncLz4 p) \<Rightarrow> comp_ok (ci_c ci) (ci_k ci) (le_send_dict o') (le_compressor o') \<and>
        le_block_size o' = le_block_size p \<and> le_send_dict_shipped o' \<and> le_trainer o' = None \<and>
        (le_send_dict o' = None \<or> le_send_dict o' = le_send_dict p)
   | (EncZstd o', EncZstd p) \<Rightarrow> cctx_ok zs (ci_level ci) (ci_y ci) o' \<and> ze_send_dict_shipped o' \<and> ze_train o' = None
   | _ \<Rightarrow> False)"

lemma sync_dict_in_step:
  assumes "transform_in_step lz zs ci primary dec" "can_offload primary" "pool_of lz zs ci pool primary"
    and "\<forall>o' p. pool = EncZstd o' \<longrightarrow> primary = EncZstd p \<longrightarrow> same_ptr \<longrightarrow> ze_send_dict o' = ze_send_dict p"
  shows "transform_in_step lz zs ci (sync_dict lz same_ptr pool primary) dec \<and>
    pool_of lz zs ci (sync_dict lz same_ptr pool primary) primary"
proof (cases primary; cases pool; cases dec)
  fix e o' d assume ed: "primary = EncLz4 e" "pool = EncLz4 o'" "dec = DecLz4 d"
  have k: "ci_k ci x (lz_dict_new lz x)" for x
    using assms(1) by (simp add: transform_in_step_def crates_ok_def lz4rip_laws_def)
  show ?thesis
  proof (cases "le_send_dict e")
    case None
    then show ?thesis using assms(1-3) ed
      by (auto simp: transform_in_step_def lz4_in_step_def sync_dict_def lz4_sync_dict_def pool_of_def)
  next
    case (Some dict)
    then show ?thesis using assms(1-3) ed k
      by (cases "le_send_dict o'") (simp_all add: transform_in_step_def lz4_in_step_def can_offload_def
          lz4_can_offload_def sync_dict_def lz4_sync_dict_def pool_of_def)
  qed
next
  fix e o' d assume ed: "primary = EncZstd e" "pool = EncZstd o'" "dec = DecZstd d"
  have e: "cctx_ok zs (ci_level ci) (ci_y ci) e" "zd_recv_dict d = ze_send_dict e" "ci_z ci (zd_recv_dict d) (zd_dctx d)"
    using assms(1,2) ed by (auto simp: transform_in_step_def zstd_in_step_def can_offload_def zstd_can_offload_def)
  have o: "cctx_ok zs (ci_level ci) (ci_y ci) o'" "ze_send_dict_shipped o'" "ze_train o' = None"
    using assms(3) ed by (simp_all add: pool_of_def)
  have same: "same_ptr \<Longrightarrow> ze_send_dict o' = ze_send_dict e" using assms(4) ed by blast
  have "zstd_sync_dict same_ptr o' e = o' \<and> ze_send_dict o' = ze_send_dict e \<or>
      zstd_sync_dict same_ptr o' e = o'\<lparr>ze_send_dict := ze_send_dict e, ze_cctx := None\<rparr>"
    using same by (cases "ze_send_dict o'"; cases "ze_send_dict e"; cases same_ptr) (simp_all add: zstd_sync_dict_def)
  moreover have "crates_ok lz zs ci" using assms(1) by (simp add: transform_in_step_def)
  moreover have "zstd_in_step zs (ci_level ci) (ci_y ci) (ci_z ci) o'' d \<and> cctx_ok zs (ci_level ci) (ci_y ci) o'' \<and>
      ze_send_dict_shipped o'' \<and> ze_train o'' = None"
    if "o'' = o' \<and> ze_send_dict o' = ze_send_dict e \<or> o'' = o'\<lparr>ze_send_dict := ze_send_dict e, ze_cctx := None\<rparr>" for o''
    using that e o by (elim disjE conjE) (simp_all add: zstd_in_step_def cctx_ok_def)
  ultimately show ?thesis using ed
    by (simp add: transform_in_step_def sync_dict_def pool_of_def)
qed (use assms(1,3) in \<open>simp_all add: transform_in_step_def pool_of_def\<close>)

text \<open>
  A caller that skips the encoder below the threshold of \<^verbatim>\<open>passthrough_info\<close> writes what
  the encoder would.
\<close>

lemma passthrough_exact:
  assumes "passthrough_info enc = Some (sentinel, t)" "length (payload_as_slice p) < t"
  shows "case enc of
      EncLz4 e \<Rightarrow> \<exists>w. lz4_encode_part lz e p = (e, Ok w) \<and> payload_as_slice w = sentinel @ payload_as_slice p
    | EncZstd e \<Rightarrow> \<exists>w. zstd_encode_part zs e p = (e, Ok w) \<and> payload_as_slice w = sentinel @ payload_as_slice p"
  using assms
  by (cases enc) (auto simp: passthrough_info_def lz4_passthrough_threshold_def zstd_passthrough_threshold_def
      lz4_effective_threshold_def zstd_effective_threshold_def lz4_encode_part_def zstd_encode_part_def view_simps
      SENTINEL_PLAIN_def split: if_splits option.splits)

section \<open>Arbitrary input\<close>

definition dec_budget :: "('d, 'z) message_decoder \<Rightarrow> nat option" where
  "dec_budget dec = (case dec of DecLz4 d \<Rightarrow> ld_max_message_size d | DecZstd d \<Rightarrow> zd_max_message_size d)"

definition dec_has_dict :: "('d, 'z) message_decoder \<Rightarrow> bool" where
  "dec_has_dict dec = (case dec of DecLz4 d \<Rightarrow> ld_decompressor d \<noteq> None | DecZstd d \<Rightarrow> zd_recv_dict d \<noteq> None)"

text \<open>The dictionary itself: for LZ4 the decompressor made from it.\<close>

definition dec_dict :: "('d, 'z) message_decoder \<Rightarrow> ('d + bytes) option" where
  "dec_dict dec = (case dec of DecLz4 d \<Rightarrow> map_option Inl (ld_decompressor d) | DecZstd d \<Rightarrow> map_option Inr (zd_recv_dict d))"

lemma length_into_parts_payload: "length (into_parts_payload m) = length (parts m)"
  using arg_cong [OF parts_payload_view [of m], of length] by (simp add: into_parts_payload_eq)

lemma message_decode_step:
  assumes "lz4rip_safe lz" "message_decode lz zs dec w = (dec', Ok r)"
  shows "dec_budget dec' = dec_budget dec \<and> (case r of
      Some m \<Rightarrow> covers (dec_budget dec) (sum_list (map length (parts m))) \<and> length (parts m) = length (parts w) \<and>
        dec_has_dict dec' = dec_has_dict dec \<and> dec_dict dec' = dec_dict dec
    | None \<Rightarrow> \<not> dec_has_dict dec \<and> dec_has_dict dec')"
proof (cases dec)
  case (DecLz4 d)
  then obtain d' where d': "lz4_decode_parts lz (length (into_parts_payload w) > 1) 0 d (ld_max_message_size d) message_new
      (into_parts_payload w) = (d', Ok r)" "dec' = DecLz4 d'"
    using assms(2) by (auto simp: message_decode_def lz4_decode_def Let_def split: prod.splits)
  show ?thesis
  proof (cases r)
    case None
    then show ?thesis using lz4_decode_parts_consumed [OF d'(1) [unfolded None]] d'(2) DecLz4
      by (auto simp: dec_budget_def dec_has_dict_def)
  next
    case (Some m)
    then show ?thesis using lz4_decode_parts_budget [OF assms(1) d'(1) [unfolded Some]] d'(2) DecLz4
      by (auto simp: dec_budget_def dec_has_dict_def dec_dict_def message_new_def length_into_parts_payload)
  qed
next
  case (DecZstd d)
  then obtain d' where d': "zstd_decode_parts zs (length (into_parts_payload w) > 1) 0 d (zd_max_message_size d) message_new
      (into_parts_payload w) = (d', Ok r)" "dec' = DecZstd d'"
    using assms(2) by (auto simp: message_decode_def zstd_decode_def Let_def split: prod.splits)
  show ?thesis
  proof (cases r)
    case None
    then show ?thesis using zstd_decode_parts_consumed [OF d'(1) [unfolded None]] d'(2) DecZstd
      by (auto simp: dec_budget_def dec_has_dict_def)
  next
    case (Some m)
    then show ?thesis using zstd_decode_parts_budget [OF d'(1) [unfolded Some]] d'(2) DecZstd
      by (auto simp: dec_budget_def dec_has_dict_def dec_dict_def message_new_def length_into_parts_payload)
  qed
qed

lemma decode_history:
  assumes "lz4rip_safe lz" "decode_each (message_decode lz zs) dec ws = (dec', Ok got)"
  shows "(\<forall>m \<in> set got. covers (dec_budget dec) (sum_list (map length (parts m)))) \<and>
    length ws = length got + (if dec_has_dict dec' \<and> \<not> dec_has_dict dec then 1 else 0) \<and>
    (dec_has_dict dec \<longrightarrow> dec_has_dict dec' \<and> dec_dict dec' = dec_dict dec)"
  using assms(2)
proof (induction ws arbitrary: dec got)
  case (Cons w ws)
  obtain dec1 r where w: "message_decode lz zs dec w = (dec1, Ok r)"
    using Cons.prems by (auto split: prod.splits sum.splits)
  then obtain got1 where rest: "decode_each (message_decode lz zs) dec1 ws = (dec', Ok got1)"
    "got = (case r of None \<Rightarrow> got1 | Some m \<Rightarrow> m # got1)"
    using Cons.prems by (auto simp: rbind_Ok_iff split: prod.splits)
  show ?case
    using message_decode_step [OF assms(1) w] Cons.IH [OF rest(1)] rest(2) by (cases r) auto
qed simp

lemma encoded_shape:
  assumes "message_encode lz zs r e m = (e', Ok out)"
  shows "\<exists>w. out = [w] \<or> (\<exists>s. out = [s, w] \<and> (lz4_is_dict_shipment s \<or>
    (\<exists>ze dict. e = EncZstd ze \<and> s = single dict \<and>
      ze_send_dict (foldl (\<lambda>e p. maybe_train zs r e (payload_as_bytes p)) ze (parts_payload m)) = Some dict \<and>
      \<not> ze_send_dict_shipped (foldl (\<lambda>e p. maybe_train zs r e (payload_as_bytes p)) ze (parts_payload m)))))"
proof (cases e)
  case (EncLz4 le)
  have "lz4_is_dict_shipment (build_dict_shipment SENTINEL_LZ4D dict)" for dict
    by (simp add: lz4_is_dict_shipment_def view_simps)
  then show ?thesis using assms EncLz4
    by (auto simp: message_encode_def lz4_encode_def lz4_ship_dict_def Let_def split: prod.splits sum.splits option.splits if_splits)
next
  case (EncZstd ze)
  then show ?thesis using assms
    by (auto simp: message_encode_def zstd_encode_def zstd_ship_dict_def Let_def split: prod.splits sum.splits option.splits if_splits)
qed

lemma leading_shipment:
  assumes "transform_in_step lz zs ci e d" "transform_fits d m" "message_encode lz zs r e m = (e', Ok out)"
  shows "\<exists>w ship. take_leading_dict_shipment out = ([w], ship) \<and> out = (case ship of None \<Rightarrow> [w] | Some s \<Rightarrow> [s, w])"
proof -
  obtain d' m' where dec: "decode_each (message_decode lz zs) d out = (d', Ok [m'])"
    using transform_deliver [OF assms(1,2), of r] assms(3) by auto
  have ship: "zstd_is_dict_shipment (single dict)"
    if e: "e = EncZstd ze" and dict: "ze_send_dict (foldl (\<lambda>e p. maybe_train zs r e (payload_as_bytes p)) ze (parts_payload m)) = Some dict"
      "\<not> ze_send_dict_shipped (foldl (\<lambda>e p. maybe_train zs r e (payload_as_bytes p)) ze (parts_payload m))" for ze dict
  proof -
    obtain zd where zd: "d = DecZstd zd" "zrip_laws zs (ci_level ci) (ci_y ci) (ci_z ci)"
      "zstd_in_step zs (ci_level ci) (ci_y ci) (ci_z ci) ze zd"
      using assms(1) unfolding e by (cases d) (auto simp: transform_in_step_def crates_ok_def)
    have "take 4 dict = ZDICT_MAGIC"
      using maybe_train_all_in_step [OF zd(2,3), of r "parts_payload m"] dict by (simp add: zstd_in_step_def)
    then have "prefix ZDICT_MAGIC dict" by (metis take_is_prefix)
    then show ?thesis by (simp add: zstd_is_dict_shipment_def view_simps)
  qed
  from encoded_shape [OF assms(3)] obtain w where "out = [w] \<or> (\<exists>s. out = [s, w] \<and> (lz4_is_dict_shipment s \<or> zstd_is_dict_shipment s))"
    using ship by blast
  then show ?thesis
  proof
    assume out: "out = [w]"
    obtain d1 where "message_decode lz zs d w = (d1, Ok (Some m'))"
      using dec out by (auto split: prod.splits sum.splits option.splits)
    from decoded_not_shipment [OF this] show ?thesis
      by (intro exI [of _ w] exI [of _ None]) (simp add: out take_leading_dict_shipment_def)
  next
    assume "\<exists>s. out = [s, w] \<and> (lz4_is_dict_shipment s \<or> zstd_is_dict_shipment s)"
    then show ?thesis by (auto simp: take_leading_dict_shipment_def)
  qed
qed

text \<open>Decoding looks at the parts of a message only, not at its representation.\<close>

lemma lz4_decode_parts_cong:
  "map payload_as_slice ps = map payload_as_slice qs \<Longrightarrow>
   lz4_decode_parts lz multi idx d budget out ps = lz4_decode_parts lz multi idx d budget out qs"
proof (induction ps arbitrary: qs idx d budget out)
  case (Cons p ps)
  then obtain q qs' where q: "qs = q # qs'" "payload_as_slice p = payload_as_slice q" "map payload_as_slice ps = map payload_as_slice qs'"
    by (cases qs) auto
  have "payload_as_bytes p = payload_as_bytes q" using q(2) by (simp add: payload_as_bytes_slice)
  then show ?case unfolding q(1) lz4_decode_parts.simps by (simp only: Cons.IH [OF q(3)])
qed simp

lemma zstd_decode_parts_cong:
  "map payload_as_slice ps = map payload_as_slice qs \<Longrightarrow>
   zstd_decode_parts zs multi idx d budget out ps = zstd_decode_parts zs multi idx d budget out qs"
proof (induction ps arbitrary: qs idx d budget out)
  case (Cons p ps)
  then obtain q qs' where q: "qs = q # qs'" "payload_as_slice p = payload_as_slice q" "map payload_as_slice ps = map payload_as_slice qs'"
    by (cases qs) auto
  have "payload_as_bytes p = payload_as_bytes q" using q(2) by (simp add: payload_as_bytes_slice)
  then show ?case unfolding q(1) zstd_decode_parts.simps by (simp only: Cons.IH [OF q(3)])
qed simp

lemma message_decode_cong:
  assumes "parts m = parts n"
  shows "message_decode lz zs dec m = message_decode lz zs dec n"
proof -
  have e: "map payload_as_slice (into_parts_payload m) = map payload_as_slice (into_parts_payload n)"
    using assms by (simp add: into_parts_payload_eq parts_payload_view)
  then have "length (into_parts_payload m) = length (into_parts_payload n)" by (rule map_eq_imp_length_eq)
  then show ?thesis
    by (cases dec) (simp_all add: message_decode_def lz4_decode_def zstd_decode_def Let_def
        lz4_decode_parts_cong [OF e] zstd_decode_parts_cong [OF e])
qed

lemma decode_each_cong:
  "map parts ms = map parts ns \<Longrightarrow> decode_each (message_decode lz zs) dec ms = decode_each (message_decode lz zs) dec ns"
proof (induction ms arbitrary: ns dec)
  case (Cons m ms)
  then obtain n ns' where n: "ns = n # ns'" "parts m = parts n" "map parts ms = map parts ns'" by (cases ns) auto
  show ?case using Cons.IH [OF n(3)] message_decode_cong [OF n(2), of lz zs dec] by (simp add: n(1))
qed simp

section \<open>Example crates\<close>

text \<open>
  Instances that satisfy what the crates promise: a run of one byte is stored as its
  length and the byte, anything else as it is.
\<close>

definition run_block :: "bytes \<Rightarrow> bytes" where
  "run_block input =
     (if 4 \<le> length input \<and> length input \<le> 255 \<and> input = replicate (length input) (hd input)
      then [1, of_nat (length input), hd input] else 0 # input)"

definition run_unblock :: "bytes \<Rightarrow> bytes" where
  "run_unblock block = (case block of [] \<Rightarrow> [] | t # rest \<Rightarrow>
     if t = 1 then (case rest of [k, b] \<Rightarrow> replicate (unat k) b | _ \<Rightarrow> []) else rest)"

definition into_slice :: "bytes \<Rightarrow> bytes \<Rightarrow> bytes \<times> nat option" where
  "into_slice bs out = (if length bs \<le> length out then (write_at 0 bs out, Some (length bs)) else (out, None))"

definition run_lz4 :: "(unit, unit, unit, nat) lz4rip" where
  "run_lz4 = \<lparr>lz_new = (), lz_compress = (\<lambda>c input out. case into_slice (run_block input) out of (o', n) \<Rightarrow> (c, o', n)),
     lz_dict_new = (\<lambda>d. ()), lz_dict_compress = (\<lambda>c input out. case into_slice (run_block input) out of (o', n) \<Rightarrow> (c, o', n)),
     lz_max_output = (\<lambda>n. n + 1), lz_decompress_into = (\<lambda>block out. into_slice (run_unblock block) out),
     lz_with_dict = (\<lambda>d. ()), lz_dict_decompress_into = (\<lambda>d block out. into_slice (run_unblock block) out),
     lz_trainer = (\<lambda>cap. cap), lz_add_sample = (\<lambda>t b. t), lz_train = (\<lambda>t. replicate (min t 1) 7)\<rparr>"

definition run_zstd :: "(unit, unit, unit) zrip" where
  "run_zstd = \<lparr>zr_from_bytes = (\<lambda>raw. if take 4 raw = ZDICT_MAGIC then Some () else None),
     zr_compress_new = (\<lambda>l. Some ()), zr_compress_with_dict = (\<lambda>l x. Some ()),
     zr_compress = (\<lambda>y input. (y, Some (ZSTD_MAGIC @ run_block input))),
     zr_decompress_new = (), zr_decompress_with_dict = (\<lambda>x. ()),
     zr_decompress_with_limit = (\<lambda>z bs n. (z, let out = run_unblock (drop 4 bs) in if length out \<le> n then Some out else None)),
     zr_frame_content_size = (\<lambda>bs. Some (Some (length (run_unblock (drop 4 bs))))),
     zr_select_segments = (\<lambda>samples cap. []), zr_finalize_dictionary = (\<lambda>content samples cap. take cap (ZDICT_MAGIC @ replicate 8 0))\<rparr>"

definition run_invariants :: "(unit, unit, nat, unit, unit) crate_invariants" where
  "run_invariants = \<lparr>ci_c = (\<lambda>c. True), ci_k = (\<lambda>d k. True), ci_t = (\<lambda>cap t. t = cap), ci_level = (\<lambda>l. True),
     ci_y = (\<lambda>d y. True), ci_z = (\<lambda>d z. True)\<rparr>"

lemma run_round_trip: "run_unblock (run_block input) = input"
proof (cases "4 \<le> length input \<and> length input \<le> 255 \<and> input = replicate (length input) (hd input)")
  case True
  then have "run_unblock (run_block input) = replicate (length input) (hd input)"
    by (simp only: run_block_def simp_thms if_True) (simp add: run_unblock_def unat_of_nat_u8)
  then show ?thesis using True by simp
next
  case False
  then show ?thesis by (simp only: run_block_def if_False) (simp add: run_unblock_def)
qed

lemma run_block_length: "length (run_block input) \<le> length input + 1 \<and> length input \<le> 255 * length (run_block input)"
  by (auto simp: run_block_def)

lemma into_slice_ok: "length out = length bs \<Longrightarrow> into_slice bs out = (bs, Some (length bs))"
  by (simp add: into_slice_def write_at_def)

lemma run_crates_ok: "crates_ok run_lz4 run_zstd run_invariants"
proof -
  have blk: "block_of run_lz4 dec input (run_block input)" for dec input
    using run_block_length [of input] run_round_trip [of input] into_slice_ok
    by (cases dec) (simp_all add: block_of_def run_lz4_def lz_decompress_with_def LZ4_MAX_EXPANSION_def)
  have comp: "compresses run_lz4 dec input out (write_at 0 (run_block input) out) (Some (length (run_block input)))"
    if "length input + 1 \<le> length out" for dec input out
    using that blk [of dec input] run_block_length [of input] by (auto simp: compresses_def write_at_def)
  have "lz4rip_laws run_lz4 (ci_c run_invariants) (ci_k run_invariants) (ci_t run_invariants)"
    unfolding lz4rip_laws_def
  proof (intro conjI allI impI)
    fix c and input out :: bytes assume "lz_max_output run_lz4 (length input) \<le> length out"
    then have r: "length input + 1 \<le> length out" by (simp add: run_lz4_def)
    then have i: "into_slice (run_block input) out = (write_at 0 (run_block input) out, Some (length (run_block input)))"
      using run_block_length [of input] by (simp add: into_slice_def)
    show "case lz_compress run_lz4 c input out of (c', out', r) \<Rightarrow> ci_c run_invariants c' \<and> compresses run_lz4 None input out out' r"
      using comp [OF r] i by (simp add: run_lz4_def run_invariants_def)
    show "case lz_dict_compress run_lz4 k input out of
        (k', out', r) \<Rightarrow> ci_k run_invariants d k' \<and> compresses run_lz4 (Some (lz_with_dict run_lz4 d)) input out out' r" for d k
      using comp [OF r] i by (simp add: run_lz4_def run_invariants_def)
  qed (auto simp: run_lz4_def run_invariants_def i32_max_def)
  moreover have "zrip_laws run_zstd (ci_level run_invariants) (ci_y run_invariants) (ci_z run_invariants)"
    by (auto simp: zrip_laws_def run_zstd_def run_invariants_def zframe_def run_round_trip Let_def)
  ultimately show ?thesis by (simp add: crates_ok_def)
qed

lemma run_safe: "lz4rip_safe run_lz4"
  by (auto simp: lz4rip_safe_def lz_decompress_with_def run_lz4_def into_slice_def split: option.splits)

section \<open>Properties\<close>

lemma conversation_delivered:
  assumes "crates_ok lz zs ci"
    and "for_compression_kind lz zs kind opA = Ok (enc, decA)" "for_compression_kind lz zs kind opB = Ok (encB, dec)"
    and "dict_need opA \<le> dict_limit kind opB" "ci_level ci (op_level opA)"
    and "\<forall>(r, m) \<in> set ms. compressed_fits kind opB m"
  shows "\<exists>enc' wire dec' got. encode_each (message_encode lz zs) enc ms = (enc', Ok wire) \<and>
    decode_each (message_decode lz zs) dec wire = (dec', Ok got) \<and> map parts got = map (parts \<circ> snd) ms \<and>
    (can_offload enc' \<longrightarrow> (\<forall>r m. compressed_fits kind opB m \<longrightarrow>
      (\<exists>pool out dec'' m'. message_encode lz zs r (new_offload lz enc') m = (pool, Ok out) \<and>
        decode_each (message_decode lz zs) dec' out = (dec'', Ok [m']) \<and> parts m' = parts m)))"
proof -
  have start: "transform_in_step lz zs ci enc dec" "transform_fits dec = compressed_fits kind opB"
  proof -
    have "transform_in_step lz zs ci enc dec \<and> transform_fits dec = compressed_fits kind opB"
    proof (cases kind)
      case KLz4
      then show ?thesis using build_lz4_in_step [OF assms(1), of opA enc decA opB encB dec] assms(2-4)
        by (simp add: for_compression_kind_def)
    next
      case KZstd
      then show ?thesis using build_zstd_in_step [OF assms(1), of opA enc decA opB encB dec] assms(2-5)
        by (simp add: for_compression_kind_def)
    qed
    then show "transform_in_step lz zs ci enc dec" "transform_fits dec = compressed_fits kind opB" by simp_all
  qed
  then have "\<forall>(r, m) \<in> set ms. transform_fits dec m" using assms(6) by simp
  from transforms.conversation [OF start(1) this] obtain enc' wire dec' got where run:
    "encode_each (message_encode lz zs) enc ms = (enc', Ok wire)" "decode_each (message_decode lz zs) dec wire = (dec', Ok got)"
    "map parts got = map (parts \<circ> snd) ms" "transform_in_step lz zs ci enc' dec'" "transform_fits dec' = transform_fits dec"
    by (elim exE conjE) (rule that; assumption)
  have "\<exists>pool out dec'' m'. message_encode lz zs r (new_offload lz enc') m = (pool, Ok out) \<and>
      decode_each (message_decode lz zs) dec' out = (dec'', Ok [m']) \<and> parts m' = parts m"
    if off: "can_offload enc'" and fit: "compressed_fits kind opB m" for r m
  proof -
    have "transform_fits dec' m" using fit run(5) start(2) by simp
    from transforms.deliver [OF new_offload_in_step [OF run(4) off] this, of r] show ?thesis
      by (elim exE conjE) (intro exI conjI; assumption)
  qed
  then have "can_offload enc' \<longrightarrow> (\<forall>r m. compressed_fits kind opB m \<longrightarrow>
      (\<exists>pool out dec'' m'. message_encode lz zs r (new_offload lz enc') m = (pool, Ok out) \<and>
        decode_each (message_decode lz zs) dec' out = (dec'', Ok [m']) \<and> parts m' = parts m))"
    by (intro impI allI)
  with run(1-3) show ?thesis
    by (intro exI [of _ enc'] exI [of _ wire] exI [of _ dec'] exI [of _ got] conjI)
qed

text \<open>
  C8.  Compression is transparent.  Take an encoder and, at the other end, a decoder
  built for the same compression kind, where the decoder accepts dictionaries as
  large as the encoder may ship.  Any sequence of messages within the receiver's
  size limit and the part limit of the kind, with training, shipped dictionaries,
  single and multiple blocks and plaintext, is encoded without error and decoded
  to messages with the same parts, one for each.  At the end, when offloading is
  allowed, what a pool encoder made from the encoder produces is decoded as well.
\<close>

theorem transform_delivery:
  assumes "crates_ok lz zs ci"
    and "for_compression_kind lz zs kind opA = Ok (enc, decA)" "for_compression_kind lz zs kind opB = Ok (encB, dec)"
    and "dict_need opA \<le> dict_limit kind opB" "ci_level ci (op_level opA)"
    and "\<forall>(r, m) \<in> set ms. compressed_fits kind opB m"
  shows "\<exists>enc' wire dec' got. encode_each (message_encode lz zs) enc ms = (enc', Ok wire) \<and>
    decode_each (message_decode lz zs) dec wire = (dec', Ok got) \<and> map parts got = map (parts \<circ> snd) ms \<and>
    (can_offload enc' \<longrightarrow> (\<forall>r m. compressed_fits kind opB m \<longrightarrow>
      (\<exists>pool out dec'' m'. message_encode lz zs r (new_offload lz enc') m = (pool, Ok out) \<and>
        decode_each (message_decode lz zs) dec' out = (dec'', Ok [m']) \<and> parts m' = parts m)))"
  by (rule conversation_delivered [OF assms])

definition demo_send_options :: compression_options where
  "demo_send_options = \<lparr>op_compression_dict = Some (ascii ''dictionary''), op_compression_auto_train = False,
     op_compression_dict_capacity = None, op_compression_threshold = None, op_compression_level = None,
     op_max_message_size = None, op_max_recv_dict_size = None\<rparr>"

definition demo_recv_options :: compression_options where
  "demo_recv_options = demo_send_options\<lparr>op_compression_dict := None, op_max_message_size := Some 200\<rparr>"

definition demo_pair :: "(unit, unit, nat, unit) message_encoder \<times> (unit, unit) message_decoder" where
  "demo_pair = (EncLz4 \<lparr>le_send_dict = Some (ascii ''dictionary''), le_send_dict_shipped = False, le_max_message_size = None,
     le_block_size = LZ4M_BLOCK_SIZE, le_out_buf = [], le_compressor = DictC (), le_threshold_override = None,
     le_trainer = None, le_train_msgs_left = 0, le_dict_capacity = LZ4_DEFAULT_DICT_CAPACITY\<rparr>,
   DecLz4 lz4_decoder_new)"

lemma demo_pair_built: "for_compression_kind run_lz4 run_zstd KLz4 demo_send_options = Ok demo_pair"
  by (simp add: for_compression_kind_def build_lz4_def demo_send_options_def demo_pair_def lz4_builders validate_dict_def
      dict_sizes run_lz4_def wire_eval Let_def)

lemma demo_recv_built: "\<exists>encB. for_compression_kind run_lz4 run_zstd KLz4 demo_recv_options
    = Ok (encB, DecLz4 (lz4_decoder_new\<lparr>ld_max_message_size := Some 200\<rparr>))"
  by (simp add: for_compression_kind_def build_lz4_def demo_send_options_def demo_recv_options_def lz4_builders Let_def)

theorem transform_delivery_witness:
  "\<exists>enc' wire dec' got. encode_each (message_encode run_lz4 run_zstd) (fst demo_pair)
      [(0, single (replicate 100 7)), (0, multipart [[1, 2], replicate 90 3])] = (enc', Ok wire) \<and>
    decode_each (message_decode run_lz4 run_zstd) (DecLz4 (lz4_decoder_new\<lparr>ld_max_message_size := Some 200\<rparr>)) wire = (dec', Ok got) \<and>
    map parts got = [[replicate 100 7], [[1, 2], replicate 90 3]]"
proof -
  have "\<forall>(r, m) \<in> set [(0 :: u32, single (replicate 100 7)), (0, multipart [[1, 2], replicate 90 3])]. compressed_fits KLz4 demo_recv_options m"
    by (simp add: compressed_fits_def view_simps demo_recv_options_def part_limit_def isize_max_def covers_def)
  moreover have "dict_need demo_send_options \<le> dict_limit KLz4 demo_recv_options"
    by (simp add: dict_need_def dict_limit_def demo_send_options_def demo_recv_options_def)
  moreover have "ci_level run_invariants (op_level demo_send_options)" by (simp add: run_invariants_def)
  moreover have "for_compression_kind run_lz4 run_zstd KLz4 demo_send_options = Ok (fst demo_pair, snd demo_pair)"
    by (simp add: demo_pair_built)
  moreover obtain encB where "for_compression_kind run_lz4 run_zstd KLz4 demo_recv_options
      = Ok (encB, DecLz4 (lz4_decoder_new\<lparr>ld_max_message_size := Some 200\<rparr>))" using demo_recv_built by blast
  ultimately show ?thesis
    using transform_delivery [OF run_crates_ok, of KLz4 demo_send_options "fst demo_pair" "snd demo_pair" demo_recv_options encB
      "DecLz4 (lz4_decoder_new\<lparr>ld_max_message_size := Some 200\<rparr>)"
      "[(0, single (replicate 100 7)), (0, multipart [[1, 2], replicate 90 3])]"]
    by (auto simp: view_simps)
qed

text \<open>
  C21.  Whatever a peer sends, as long as the decompressor stays within its slices, a
  decoder with a message size limit never returns a message of more bytes, returns
  one message for each wire message but for at most one dictionary shipment in the
  life of the connection, and keeps the dictionary it has once it has one.
\<close>

theorem transform_budget:
  assumes "lz4rip_safe lz" "decode_each (message_decode lz zs) dec ws = (dec', Ok got)"
  shows "(\<forall>m \<in> set got. case dec_budget dec of None \<Rightarrow> True | Some limit \<Rightarrow> sum_list (map length (parts m)) \<le> limit) \<and>
    length ws = length got + (if dec_has_dict dec' \<and> \<not> dec_has_dict dec then 1 else 0) \<and>
    (dec_has_dict dec \<longrightarrow> dec_has_dict dec' \<and> dec_dict dec' = dec_dict dec)"
  using decode_history [OF assms] by (simp add: covers_def)

theorem transform_budget_witness:
  "(case message_decode run_lz4 run_zstd (DecLz4 (lz4_decoder_new\<lparr>ld_max_message_size := Some 10\<rparr>)) (single [0, 0, 0, 0, 1, 2, 3]) of
      (dec', Inr (Some m)) \<Rightarrow> sum_list (map length (parts m)) \<le> 10 | _ \<Rightarrow> False)"
proof -
  let ?dec = "DecLz4 (lz4_decoder_new\<lparr>ld_max_message_size := Some 10\<rparr>) :: (unit, unit) message_decoder"
  let ?w = "single [0, 0, 0, 0, 1, 2, 3]"
  have "message_decode run_lz4 run_zstd ?dec ?w = (?dec, Ok (Some (Single (PSingle [1, 2, 3]))))"
    by code_simp
  then have "decode_each (message_decode run_lz4 run_zstd) ?dec [?w] = (?dec, Ok [Single (PSingle [1, 2, 3])])"
    by simp
  from transform_budget [OF run_safe this] show ?thesis
    using \<open>message_decode run_lz4 run_zstd ?dec ?w = _\<close> by (simp add: dec_budget_def)
qed

end
