(* ===== verification/Spec2Isabelle.thy ===== *)
theory Spec2Isabelle
  imports Frame Greeting Socket_Type Command Mechanism Curve Ws_Codec Security Handshake
    Connection_Props Type_State Z85 Subscription Flow Yring
    Transmit_Slot Round_Robin Transform
begin

text \<open>
  Verification of omq, a ZeroMQ messaging library in Rust (paths below \<^verbatim>\<open>src/\<close>).

  The program.  \<^verbatim>\<open>omq-proto\<close> is the protocol without input or output: the message type,
  the ZMTP and WebSocket codecs, the security mechanisms, the connection state
  machine, compression, subscriptions, socket-type rules and the encoded output queue.
  \<^verbatim>\<open>yring\<close> is the lock-free ring between two threads.  \<^verbatim>\<open>omq-tokio\<close> runs connections on an
  asynchronous runtime: a driver task per peer, send pipes and transmit slots between
  sockets and drivers, routing strategies above them.  \<^verbatim>\<open>omq-libzmq\<close> and \<^verbatim>\<open>bindings\<close> offer
  the library to other languages.  A message travels: type state (envelope), routing
  strategy, send pipe or transmit slot, compression transform, connection (frames,
  encryption, WebSocket masking), bytes; and back through the chunked input buffer.

  Conventions.  \<open>Omq_Prelude\<close> holds the shared vocabulary: byte lists, machine words, the
  error type with results \<open>error + 'a\<close>, big-endian numbers, UTF-8.  A \<^verbatim>\<open>&mut self\<close> method
  is a function that returns the new state with its result; an early return keeps the
  effects made before it.  A \<^verbatim>\<open>usize\<close> is a \<open>nat\<close> with the bound written out where the source
  checks, saturates or wraps; the ring's cursors are 64-bit words.  \<open>Panic\<close> marks an
  assertion, \<^verbatim>\<open>unwrap\<close> or index that would abort; debug assertions are off, as in a
  release build.  Random draws, clocks and outcomes of
  address comparisons are arguments.  Third-party crates are records of the functions the
  source calls, with what their documentation promises as a named predicate (\<open>crypto_laws\<close>,
  \<open>patricia_laws\<close>, \<open>notify_laws\<close>, \<open>lz4rip_laws\<close>, \<open>lz4rip_safe\<close>, \<open>zrip_laws\<close>); every property that
  assumes one has a witness at a concrete instance.

  Theories and the code they model.

  \<^item> \<open>Message\<close>: \<^verbatim>\<open>omq-proto/src/message.rs\<close>.  Payloads, frames and the nine representations of
    a message; \<open>parts\<close> is the list of parts a message stands for.  Every accessor agrees
    with it, every operation keeps \<open>message_wf\<close> (\<open>message_type_safe\<close>).
  \<^item> \<open>Chunked_Buf\<close>: \<^verbatim>\<open>proto/chunked_buf.rs\<close>, refined to one flat byte list through the locale
    \<open>byte_queue\<close>.  \<open>Stream_Decode\<close>: the locales \<open>stream_decoder\<close> and \<open>stream_machine\<close>, from which
    independence of the way a stream is cut follows for each decoder.
  \<^item> \<open>Frame\<close> (\<^verbatim>\<open>proto/frame.rs\<close>, \<^verbatim>\<open>proto/zws.rs\<close>), \<open>Ws_Codec\<close> (\<^verbatim>\<open>proto/ws_codec.rs\<close>), \<open>Greeting\<close>,
    \<open>Command\<close>, \<open>Socket_Type\<close>, \<open>Z85\<close>: the wire formats, with round trips and the exact inputs
    they reject.
  \<^item> \<open>Mechanism\<close>, \<open>Curve\<close>, \<open>Security\<close>: NULL, PLAIN and CURVE (\<^verbatim>\<open>proto/mechanism/\<close>), handshakes that
    complete and whom they admit, the encrypted channel.
  \<^item> \<open>Connection_Out\<close>, \<open>Connection_In\<close>: \<^verbatim>\<open>proto/connection/\<close>, every handler.  \<open>Connection_Spec\<close>,
    \<open>Connection_Ws\<close>: machines on the flat stream that the drive loops implement (locale
    \<open>driver\<close>).  \<open>Connection\<close>, \<open>Transmit\<close>, \<open>Delivery\<close>, \<open>Handshake\<close>, \<open>Connection_Props\<close>: what follows
    for a connection and for two connections joined.
  \<^item> \<open>Transform_Common\<close>, \<open>Lz4\<close>, \<open>Zstd\<close>, \<open>Transform\<close>: \<^verbatim>\<open>proto/transform/\<close>.  The locale \<open>message_transform\<close>
    is the contract of an encoder and a decoder in step; both compressions meet it.
  \<^item> \<open>Type_State\<close> (\<^verbatim>\<open>type_state.rs\<close>), \<open>Subscription\<close> (\<^verbatim>\<open>subscription.rs\<close>), \<open>Flow\<close> (\<^verbatim>\<open>flow.rs\<close>,
    \<^verbatim>\<open>backoff.rs\<close>), \<open>Endpoint\<close> (\<^verbatim>\<open>endpoint.rs\<close>): socket-type rules, prefix matching, drain
    budgets, reconnect delays, addresses.
  \<^item> \<open>Frame_Buffer\<close>, \<open>Fan_Out_Frame\<close> (\<^verbatim>\<open>frame_buffer.rs\<close>, \<^verbatim>\<open>fan_out_frame.rs\<close>), \<open>Transmit_Slot\<close>
    (\<^verbatim>\<open>handle_frame.rs\<close>, \<^verbatim>\<open>omq-tokio/src/engine/transmit_slot.rs\<close>): the encoded output of a peer as
    a byte queue with back-pressure.
  \<^item> \<open>Yring\<close> (\<^verbatim>\<open>yring/src/lib.rs\<close>), \<open>Data_Signal\<close> (\<^verbatim>\<open>omq-tokio/src/engine/signal.rs\<close>), \<open>Send_Pipe\<close>
    (\<^verbatim>\<open>engine/send_pipe.rs\<close>), \<open>Round_Robin\<close> (\<^verbatim>\<open>routing/round_robin.rs\<close>): the ring under interleaving
    and stale loads, the wake-up protocol access by access, the bounded pipe built on
    both, and the strategy over the pipes (locale \<open>pipe_laws\<close>).

  Bounds and fuel.  The drive loops take one round per buffered byte and one more, which
  \<open>Connection_Spec\<close> proves enough.  The scans of \<open>Round_Robin\<close> and the consuming loops of
  \<open>Chunked_Buf\<close> are partial functions and are proved to return.  Every other loop is a
  total function with its measure; no theorem is conditional on a loop returning.

  This theory joins components: compression over a connection.

  Not modelled.  The asynchronous shell of \<^verbatim>\<open>omq-tokio\<close> (the driver task except its flush
  loop, socket actors, monitors, context, transports, blocking and exclusive sockets) is
  task scheduling, sockets and timers around the components above.  Of the routing
  strategies, round robin is modelled; fan-out lanes, identity and latency routing are
  not.  \<^verbatim>\<open>yring\<close>'s asynchronous halves wrap the ring in wakers.  \<^verbatim>\<open>omq-libzmq\<close> and \<^verbatim>\<open>bindings\<close>
  marshal arguments across language boundaries through raw pointers.  \<^verbatim>\<open>omq-bench\<close>,
  \<^verbatim>\<open>scripts\<close>, \<^verbatim>\<open>examples\<close>, \<^verbatim>\<open>benches\<close> and \<^verbatim>\<open>tests\<close> are tools.  The opening HTTP exchange of
  WebSocket and the socket options record, apart from the reconnect policy and the
  compression fields, are not modelled.  Weak memory is modelled where a property depends
  on it: stale loads of the ring's cursors, and the store buffer of \<open>Data_Signal\<close>.
\<close>

section \<open>Compression over a connection\<close>

text \<open>
  C2.  Compressed messages survive the wire.  When the application's messages are
  compressed by the transform of the sending end, the wire messages are sent on a
  ready connection, in either framing and with or without CURVE, and the receiving
  end feeds the bytes in pieces of any size and decompresses what its connection
  delivers, the application there gets messages with the same parts in the same
  order.
\<close>

theorem compressed_delivery:
  assumes "crypto_laws C" "Delivery.in_step C s c"
    and "crates_ok lz zs ci" "for_compression_kind lz zs kind opA = Ok (enc, decA)"
    and "for_compression_kind lz zs kind opB = Ok (encB, dec)"
    and "dict_need opA \<le> dict_limit kind opB" "ci_level ci (op_level opA)"
    and "\<forall>(r, m) \<in> set ms. compressed_fits kind opB m"
    and "encode_each (message_encode lz zs) enc ms = (enc', res)"
    and "\<forall>wire. res = Ok wire \<longrightarrow> list_all (sendable (cn_session c)) wire \<and> send_all C wire s = (s', Ok ())"
    and "concat pieces = poll_transmit s'"
  shows "\<exists>c' ns dec' got. feed C now c pieces = (c', Ok ()) \<and>
    ss_messages (cn_session c') = ss_messages (cn_session c) @ ns \<and>
    decode_each (message_decode lz zs) dec ns = (dec', Ok got) \<and> map parts got = map (parts \<circ> snd) ms"
proof -
  obtain wire dec' got where enc: "res = Ok wire"
    "decode_each (message_decode lz zs) dec wire = (dec', Ok got)" "map parts got = map (parts \<circ> snd) ms"
    using conversation_delivered [OF assms(3-8)] assms(9) by auto
  from assms(10) enc(1) have send: "list_all (sendable (cn_session c)) wire" "send_all C wire s = (s', Ok ())" by blast+
  from delivered_whole [OF assms(1,2) send assms(11), of now] obtain c' ns where
    got: "feed C now c pieces = (c', Ok ())" "ss_messages (cn_session c') = ss_messages (cn_session c) @ ns"
    "map parts ns = map parts wire"
    by (elim exE conjE) (rule that; assumption)
  have "decode_each (message_decode lz zs) dec ns = (dec', Ok got)"
    using enc(2) by (simp add: decode_each_cong [OF got(3), of lz zs])
  with got(1,2) enc(3) show ?thesis
    by (intro exI [of _ c'] exI [of _ ns] exI [of _ dec'] exI [of _ got] conjI)
qed

definition plain_encoder :: "(unit, unit, nat, unit) message_encoder" where
  "plain_encoder = EncLz4 ((lz4_encoder_new run_lz4)\<lparr>le_max_message_size := Some 200\<rparr>)"

definition plain_decoder :: "(unit, unit) message_decoder" where
  "plain_decoder = DecLz4 (lz4_decoder_new\<lparr>ld_max_message_size := Some 200\<rparr>)"

lemma plain_pair_built: "for_compression_kind run_lz4 run_zstd KLz4 demo_recv_options = Ok (plain_encoder, plain_decoder)"
  by (simp add: for_compression_kind_def build_lz4_def demo_send_options_def demo_recv_options_def lz4_builders
      plain_encoder_def plain_decoder_def Let_def)

lemma plain_encoded: "encode_each (message_encode run_lz4 run_zstd) plain_encoder [(0, single [7])]
    = (plain_encoder, Ok [Single (PSingle [0, 0, 0, 0, 7])])"
  by (simp add: message_encode_def plain_encoder_def lz4_encode_def lz4_train_step_def lz4_ship_dict_def lz4_encoder_new_def
      lz4_encode_part_def lz4_effective_threshold_def LZ4_MIN_COMPRESS_NO_DICT_def single_def MAX_INLINE_MESSAGE_def
      from_inline_def inline_body_not_delimited delimited_iff message_new_def plaintext_payload_def SENTINEL_PLAIN_def
      payload_from_bytes_def view_simps)

theorem compressed_delivery_witness:
  "\<exists>s' c' ns dec' got. send_all clear_crypto [Single (PSingle [0, 0, 0, 0, 7])] (ready_session clear_tx WsClient) = (s', Ok ())
    \<and> feed clear_crypto 0 \<lparr>cn_session = ready_session clear_rx WsServer, cn_in_buf = cb_new\<rparr> [poll_transmit s'] = (c', Ok ())
    \<and> ss_messages (cn_session c') = ns \<and> decode_each (message_decode run_lz4 run_zstd) plain_decoder ns = (dec', Ok got)
    \<and> map parts got = [[[7]]]"
proof -
  let ?w = "[Single (PSingle [0, 0, 0, 0, 7])]" and ?c = "\<lparr>cn_session = ready_session clear_rx WsServer, cn_in_buf = cb_new\<rparr>"
  obtain s' where s': "send_all clear_crypto ?w (ready_session clear_tx WsClient) = (s', Ok ())"
    by (simp add: send_message_def Let_def send_part_curve_def encrypt_message_def
        ready_session_def session_init_def clear_tx_def build_transform_def checked_succ_def clear_crypto_def
        emit_frame_kept outbound_only_fields(2) [OF emit_frame_outbound])
  have "list_all (sendable (cn_session ?c)) ?w"
    by (simp add: sendable_def view_simps wf_intros message_fits_def part_fits_def size_fits_def
        ready_session_def session_init_def pull_config_def config_new_def isize_max_def)
  moreover have "\<forall>(r, m) \<in> set [(0 :: u32, single [7])]. compressed_fits KLz4 demo_recv_options m"
    by (simp add: compressed_fits_def view_simps demo_recv_options_def part_limit_def isize_max_def covers_def)
  moreover have "dict_need demo_recv_options \<le> dict_limit KLz4 demo_recv_options"
    by (simp add: dict_need_def dict_limit_def demo_send_options_def demo_recv_options_def)
  moreover have "ci_level run_invariants (op_level demo_recv_options)" by (simp add: run_invariants_def)
  moreover have "concat [poll_transmit s'] = poll_transmit s'" by simp
  ultimately show ?thesis
    using compressed_delivery [OF clear_crypto_laws(1) ready_sessions_in_step run_crates_ok plain_pair_built plain_pair_built,
      of "[(0, single [7])]" plain_encoder "Ok ?w" s' "[poll_transmit s']" 0] plain_encoded s'
    by (fastforce simp: view_simps ready_session_def session_init_def)
qed

end
